(* ===== verification/Prelude.thy ===== *)
theory Prelude
  imports Main "HOL-Library.Word"
begin

text \<open>
  Shared material of the development: the widths of the C integer types, the error numbers of
  \<^verbatim>\<open>include/lib/err.h\<close> with the encoding of an error in a pointer, the fact
  collections the component theories fill, and the generic lemmas on lists, maps and words
  that several components use.
\<close>

unbundle bit_operations_syntax

section \<open>C integer types\<close>

type_synonym u8 = "8 word"
type_synonym u16 = "16 word"
type_synonym u32 = "32 word"
type_synonym u64 = "64 word"

text \<open>An \<open>errno\<close> is the non-negative code; the code returns its negation.\<close>

type_synonym errno = int

named_theorems errno_defs "the numeric values of the error codes"
named_theorems layout_defs "the numeric constants of the headers"

section \<open>Error codes (include/lib/err.h)\<close>

definition EIO :: errno where [errno_defs]: "EIO = 5"
definition E2BIG :: errno where [errno_defs]: "E2BIG = 7"
definition ENOENT :: errno where [errno_defs]: "ENOENT = 2"
definition ENOEXEC :: errno where [errno_defs]: "ENOEXEC = 8"
definition EBADF :: errno where [errno_defs]: "EBADF = 9"
definition EAGAIN :: errno where [errno_defs]: "EAGAIN = 11"
definition ENOMEM :: errno where [errno_defs]: "ENOMEM = 12"
definition EFAULT :: errno where [errno_defs]: "EFAULT = 14"
definition EBUSY :: errno where [errno_defs]: "EBUSY = 16"
definition ENODEV :: errno where [errno_defs]: "ENODEV = 19"
definition ENOTDIR :: errno where [errno_defs]: "ENOTDIR = 20"
definition EINVAL :: errno where [errno_defs]: "EINVAL = 22"
definition ENFILE :: errno where [errno_defs]: "ENFILE = 23"
definition EMFILE :: errno where [errno_defs]: "EMFILE = 24"
definition EFBIG :: errno where [errno_defs]: "EFBIG = 27"
definition ENOSPC :: errno where [errno_defs]: "ENOSPC = 28"
definition ENAMETOOLONG :: errno where [errno_defs]: "ENAMETOOLONG = 36"

definition MAX_ERRNO :: int where [errno_defs]: "MAX_ERRNO = 4095"

text \<open>Pointers are 64 bits wide and \<open>long\<close> is 64 bits wide on rv64.\<close>

definition ERR_PTR :: "int \<Rightarrow> u64" where
  "ERR_PTR err = word_of_int err"

definition PTR_ERR :: "u64 \<Rightarrow> int" where
  "PTR_ERR ptr = sint ptr"

definition IS_ERR :: "u64 \<Rightarrow> bool" where
  "IS_ERR ptr \<longleftrightarrow> word_of_int (- MAX_ERRNO) \<le> ptr"

section \<open>Outcomes\<close>

text \<open>
  A call that can reach \<^verbatim>\<open>panic\<close> either returns a value or stops the machine; \<open>Wait\<close> stands for a caller
  that goes to sleep on a lock that is held, and \<open>Undef\<close> for code whose behaviour C leaves undefined.
\<close>

datatype 'a outcome = Ret (ret_val: 'a) | Panic | Wait | Undef

definition bind_out :: "'a outcome \<Rightarrow> ('a \<Rightarrow> 'b outcome) \<Rightarrow> 'b outcome" where
  "bind_out m f = (case m of Ret x \<Rightarrow> f x | Panic \<Rightarrow> Panic | Wait \<Rightarrow> Wait | Undef \<Rightarrow> Undef)"

lemma bind_out_simps [simp]:
  "bind_out (Ret x) f = f x" "bind_out Panic f = Panic" "bind_out Wait f = Wait" "bind_out Undef f = Undef"
  by (simp_all add: bind_out_def)

lemma bind_out_Ret: "bind_out m f = Ret y \<longleftrightarrow> (\<exists>x. m = Ret x \<and> f x = Ret y)"
  by (cases m) auto

lemma bind_out_assoc: "bind_out (bind_out m f) g = bind_out m (\<lambda>x. bind_out (f x) g)"
  by (cases m) auto

text \<open>A loop over a list whose body can stop.\<close>

fun fold_out :: "('s \<Rightarrow> 'x \<Rightarrow> 's outcome) \<Rightarrow> 'x list \<Rightarrow> 's \<Rightarrow> 's outcome" where
  "fold_out f [] s = Ret s"
| "fold_out f (x # xs) s = bind_out (f s x) (\<lambda>s'. fold_out f xs s')"

section \<open>Alignment macros (include/lib/bit.h)\<close>

definition ALIGN_UP :: "u64 \<Rightarrow> u64 \<Rightarrow> u64" where
  "ALIGN_UP addr sz = (addr + sz - 1) AND NOT (sz - 1)"

definition ALIGN_DOWN :: "u64 \<Rightarrow> u64 \<Rightarrow> u64" where
  "ALIGN_DOWN addr sz = addr AND NOT (sz - 1)"

section \<open>Generic lemmas\<close>

lemma unat_le_of_bound: "x \<le> y \<Longrightarrow> unat y < n \<Longrightarrow> unat x < n"
  by (simp add: word_le_nat_alt)

lemma set_butlast_subset: "x \<in> set (butlast xs) \<Longrightarrow> x \<in> set xs"
  by (rule in_set_butlastD)

lemma set_tl_subset: "x \<in> set (tl xs) \<Longrightarrow> x \<in> set xs"
  by (cases xs) auto

lemma last_notin_butlast: "distinct xs \<Longrightarrow> xs \<noteq> [] \<Longrightarrow> last xs \<notin> set (butlast xs)"
  by (metis append_butlast_last_id distinct_butlast not_distinct_conv_prefix)

lemma unat_drop_bit_1: "unat (drop_bit 1 (y :: 'a :: len word)) = unat y div 2"
  unfolding unat_drop_bit_eq by (simp add: drop_bit_eq_div)

lemma unat_power_2: "(2 :: nat) ^ k < 2 ^ LENGTH('a) \<Longrightarrow> unat (2 ^ k :: 'a :: len word) = 2 ^ k"
  using unat_of_nat [of "2 ^ k", where ?'a = 'a] by simp

lemma word_of_unat [simp]: "word_of_nat (unat w) = (w :: 'a :: len word)"
  by (simp add: word_unat_eq_iff unat_of_nat)

lemma unat_drop_bit_1_less: "y \<noteq> 0 \<Longrightarrow> unat (drop_bit 1 (y :: 'a :: len word)) < unat y"
  unfolding unat_drop_bit_1 by (simp add: unat_gt_0)

lemma unat_and_not_mask: "unat ((w :: 'a :: len word) AND NOT (mask k)) = unat w div 2 ^ k * 2 ^ k"
proof -
  have "w = (w AND mask k) + (w AND NOT (mask k))"
    by (subst disjunctive_add) (auto simp: bit_simps intro!: bit_word_eqI)
  then have "w AND NOT (mask k) = w - (w AND mask k)" by (metis add_diff_cancel_left')
  then have "w AND NOT (mask k) = w - take_bit k w" by (simp add: take_bit_eq_mask)
  moreover have u: "unat (take_bit k w) = unat w mod 2 ^ k" 
    unfolding unsigned_take_bit_eq by (simp only: take_bit_eq_mod)
  ultimately have "unat (w AND NOT (mask k)) = unat w - unat w mod 2 ^ k"
    by (simp add: unat_sub word_le_nat_alt)
  then show ?thesis by (simp add: minus_mod_eq_div_mult)
qed

section \<open>Storing a run of elements\<close>

text \<open>The memory after the elements of a list are stored from an address on.\<close>

definition mwrite :: "(nat \<Rightarrow> 'b) \<Rightarrow> nat \<Rightarrow> 'b list \<Rightarrow> nat \<Rightarrow> 'b" where
  "mwrite m a bs = (\<lambda>b. if a \<le> b \<and> b < a + length bs then bs ! (b - a) else m b)"

lemma mwrite_simps [simp]: "mwrite m a [] = m"
  by (rule ext) (auto simp: mwrite_def)

lemma mwrite_Cons: "mwrite m a (x # xs) = mwrite (m(a := x)) (Suc a) xs"
proof (rule ext)
  fix b
  consider "b < a" | "b = a" | d where "b = a + Suc d" by (metis less_imp_Suc_add linorder_cases add_Suc_right)
  then show "mwrite m a (x # xs) b = mwrite (m(a := x)) (Suc a) xs b"
    by cases (auto simp: mwrite_def)
qed

lemma mwrite_snoc: "mwrite m a (xs @ [x]) = (mwrite m a xs)(a + length xs := x)"
  by (rule ext) (auto simp: mwrite_def nth_append)

lemma mwrite_out: "b < a \<or> a + length bs \<le> b \<Longrightarrow> mwrite m a bs b = m b"
  by (auto simp: mwrite_def)

lemma mwrite_in: "i < length bs \<Longrightarrow> mwrite m a bs (a + i) = bs ! i"
  by (simp add: mwrite_def)

lemma mwrite_append: "mwrite (mwrite m a xs) (a + length xs) ys = mwrite m a (xs @ ys)"
  by (rule ext) (auto simp: mwrite_def nth_append)

section \<open>Little-endian words\<close>

text \<open>The little-endian value of a list of bytes, as a load of \<^verbatim>\<open>uint64_t\<close> reads it on rv64.\<close>

fun le_word :: "u8 list \<Rightarrow> 'a :: len word" where
  "le_word [] = 0"
| "le_word (b # bs) = ucast b OR push_bit 8 (le_word bs)"

lemma bit_le_word:
  "bit (le_word bs :: 'a :: len word) n \<longleftrightarrow>
    n < LENGTH('a) \<and> n div 8 < length bs \<and> bit (bs ! (n div 8)) (n mod 8)"
proof (induction bs arbitrary: n)
  case (Cons b bs)
  show ?case
  proof (cases "n < 8")
    case True
    then show ?thesis by (auto simp: bit_or_iff bit_push_bit_iff bit_ucast_iff)
  next
    case False
    then obtain m where n: "n = m + 8" using le_Suc_ex not_less by (metis add.commute)
    have "\<not> bit b n" using False by (auto dest: bit_imp_le_length)
    moreover have "(m + 8) div 8 = Suc (m div 8)" by simp
    ultimately show ?thesis
      by (auto simp: n bit_or_iff bit_push_bit_iff bit_ucast_iff Cons.IH)
  qed
qed simp

end
