(* ===== verification/Clist.thy ===== *)
theory Clist
  imports Prelude
begin

text \<open>
  The intrusive circular doubly linked list of \<^verbatim>\<open>lib/clist.c\<close>. Nodes live in a heap, a
  function from node addresses to node records, and every operation is the sequence of field
  writes the C code makes. Traversals that the C code writes as \<^verbatim>\<open>while\<close> loops over pointers are
  \<^theory_text>\<open>partial_function (option)\<close>: \<open>None\<close> is a loop that never reaches the sentinel.
  The lemmas relate a heap to the lists it holds (\<open>clists\<close>) and show that every operation is
  the list operation it stands for, that it leaves every other list alone, and that the
  traversals return.
\<close>

section \<open>Nodes and the heap\<close>

record 'n clist_node =
  nxt :: 'n
  prv :: 'n
  in_list :: bool

type_synonym 'n heap = "'n \<Rightarrow> 'n clist_node"

definition set_next :: "'n heap \<Rightarrow> 'n \<Rightarrow> 'n \<Rightarrow> 'n heap" where
  "set_next h n v = h(n := (h n)\<lparr>nxt := v\<rparr>)"

definition set_prev :: "'n heap \<Rightarrow> 'n \<Rightarrow> 'n \<Rightarrow> 'n heap" where
  "set_prev h n v = h(n := (h n)\<lparr>prv := v\<rparr>)"

definition set_in_list :: "'n heap \<Rightarrow> 'n \<Rightarrow> bool \<Rightarrow> 'n heap" where
  "set_in_list h n v = h(n := (h n)\<lparr>in_list := v\<rparr>)"

section \<open>Operations\<close>

definition clist_init_node :: "'n heap \<Rightarrow> 'n \<Rightarrow> 'n heap" where
  "clist_init_node h node =
     (let h = set_next h node node;
          h = set_prev h node (nxt (h node))
      in set_in_list h node False)"

definition clist_empty :: "'n heap \<Rightarrow> 'n \<Rightarrow> bool" where
  "clist_empty h head \<longleftrightarrow> nxt (h head) = head"

definition clist_insert_before :: "'n heap \<Rightarrow> 'n \<Rightarrow> 'n \<Rightarrow> 'n heap" where
  "clist_insert_before h pos node =
     (if in_list (h node) then h
      else
        let h = set_next h node pos;
            h = set_prev h node (prv (h pos));
            h = set_next h (prv (h pos)) node;
            h = set_prev h pos node
        in set_in_list h node True)"

definition clist_insert_after :: "'n heap \<Rightarrow> 'n \<Rightarrow> 'n \<Rightarrow> 'n heap" where
  "clist_insert_after h pos node =
     (if in_list (h node) then h
      else
        let h = set_next h node (nxt (h pos));
            h = set_prev h (nxt (h pos)) node;
            h = set_prev h node pos;
            h = set_next h pos node
        in set_in_list h node True)"

definition clist_push_back :: "'n heap \<Rightarrow> 'n \<Rightarrow> 'n \<Rightarrow> 'n heap" where
  "clist_push_back h head node = clist_insert_before h head node"

definition clist_push_front :: "'n heap \<Rightarrow> 'n \<Rightarrow> 'n \<Rightarrow> 'n heap" where
  "clist_push_front h head node = clist_insert_after h head node"

text \<open>The argument of \<^verbatim>\<open>clist_remove\<close> may be \<^verbatim>\<open>NULL\<close>, here \<open>None\<close>.\<close>

definition clist_remove :: "'n heap \<Rightarrow> 'n option \<Rightarrow> 'n heap" where
  "clist_remove h p =
     (case p of
        None \<Rightarrow> h
      | Some node \<Rightarrow>
          if \<not> in_list (h node) then h
          else
            let h = set_next h (prv (h node)) (nxt (h node));
                h = set_prev h (nxt (h node)) (prv (h node))
            in clist_init_node h node)"

definition clist_first :: "'n heap \<Rightarrow> 'n \<Rightarrow> 'n option" where
  "clist_first h head = (if clist_empty h head then None else Some (nxt (h head)))"

definition clist_last :: "'n heap \<Rightarrow> 'n \<Rightarrow> 'n option" where
  "clist_last h head = (if clist_empty h head then None else Some (prv (h head)))"

definition clist_is_in_list :: "'n heap \<Rightarrow> 'n \<Rightarrow> bool" where
  "clist_is_in_list h node = in_list (h node)"

text \<open>
  A callback may change any state \<open>'s\<close> that contains the heap (\<open>hp\<close> reads it). Its first
  result is the truth of the C return value.
\<close>

partial_function (option) clist_for_each_loop ::
  "('s \<Rightarrow> 'n heap) \<Rightarrow> ('n \<Rightarrow> 's \<Rightarrow> bool \<times> 's) \<Rightarrow> 'n \<Rightarrow> 'n \<Rightarrow> 's \<Rightarrow> ('n option \<times> 's) option" where
  "clist_for_each_loop hp callback head current s =
     (if current \<noteq> head then
        let nx = nxt (hp s current);
            r = callback current s
        in if fst r then Some (Some current, snd r)
           else clist_for_each_loop hp callback head nx (snd r)
      else Some (None, s))"

definition clist_for_each ::
  "('s \<Rightarrow> 'n heap) \<Rightarrow> 'n \<Rightarrow> ('n \<Rightarrow> 's \<Rightarrow> bool \<times> 's) \<Rightarrow> 's \<Rightarrow> ('n option \<times> 's) option" where
  "clist_for_each hp head callback s = clist_for_each_loop hp callback head (nxt (hp s head)) s"

partial_function (option) clist_insert_sorted_loop ::
  "'n heap \<Rightarrow> ('n \<Rightarrow> 'n \<Rightarrow> int) \<Rightarrow> 'n \<Rightarrow> 'n \<Rightarrow> 'n \<Rightarrow> 'n option" where
  "clist_insert_sorted_loop h cmp head node current =
     (if current \<noteq> head \<and> cmp current node \<le> 0
      then clist_insert_sorted_loop h cmp head node (nxt (h current))
      else Some current)"

definition clist_insert_sorted ::
  "'n heap \<Rightarrow> 'n \<Rightarrow> 'n \<Rightarrow> ('n \<Rightarrow> 'n \<Rightarrow> int) \<Rightarrow> 'n heap option" where
  "clist_insert_sorted h head node cmp =
     (case clist_insert_sorted_loop h cmp head node (nxt (h head)) of
        None \<Rightarrow> None
      | Some current \<Rightarrow> Some (clist_insert_before h current node))"

partial_function (option) clist_find_loop ::
  "'n heap \<Rightarrow> ('n \<Rightarrow> bool) \<Rightarrow> 'n \<Rightarrow> 'n \<Rightarrow> 'n option option" where
  "clist_find_loop h pred head current =
     (if current \<noteq> head then
        (if pred current then Some (Some current)
         else clist_find_loop h pred head (nxt (h current)))
      else Some None)"

definition clist_find :: "'n heap \<Rightarrow> 'n \<Rightarrow> ('n \<Rightarrow> bool) \<Rightarrow> 'n option option" where
  "clist_find h head pred = clist_find_loop h pred head (nxt (h head))"

partial_function (option) clist_find_rev_loop ::
  "'n heap \<Rightarrow> ('n \<Rightarrow> bool) \<Rightarrow> 'n \<Rightarrow> 'n \<Rightarrow> 'n option option" where
  "clist_find_rev_loop h pred head current =
     (if current \<noteq> head then
        (if pred current then Some (Some current)
         else clist_find_rev_loop h pred head (prv (h current)))
      else Some None)"

definition clist_find_rev :: "'n heap \<Rightarrow> 'n \<Rightarrow> ('n \<Rightarrow> bool) \<Rightarrow> 'n option option" where
  "clist_find_rev h head pred = clist_find_rev_loop h pred head (prv (h head))"

text \<open>The state is updated through \<open>up\<close>, which writes the heap back into it.\<close>

partial_function (option) clist_for_each_and_del_loop ::
  "('s \<Rightarrow> 'n heap) \<Rightarrow> ('n heap \<Rightarrow> 's \<Rightarrow> 's) \<Rightarrow> ('n \<Rightarrow> 's \<Rightarrow> bool \<times> 's) \<Rightarrow> 'n \<Rightarrow> 'n
     \<Rightarrow> 'n option \<Rightarrow> 's \<Rightarrow> ('n option \<times> 's) option" where
  "clist_for_each_and_del_loop hp up callback head current failure s =
     (if current \<noteq> head then
        let nx = nxt (hp s current);
            s = up (clist_remove (hp s) (Some current)) s;
            r = callback current s;
            failure = (if fst r then (case failure of None \<Rightarrow> Some current | Some f \<Rightarrow> Some f)
                       else failure)
        in clist_for_each_and_del_loop hp up callback head nx failure (snd r)
      else Some (failure, s))"

definition clist_for_each_and_del ::
  "('s \<Rightarrow> 'n heap) \<Rightarrow> ('n heap \<Rightarrow> 's \<Rightarrow> 's) \<Rightarrow> 'n \<Rightarrow> ('n \<Rightarrow> 's \<Rightarrow> bool \<times> 's) \<Rightarrow> 's
     \<Rightarrow> ('n option \<times> 's) option" where
  "clist_for_each_and_del hp up head callback s =
     (let current = nxt (hp s head);
          s = up (clist_init_node (hp s) head) s
      in clist_for_each_and_del_loop hp up callback head current None s)"

definition clist_pop_front :: "'n heap \<Rightarrow> 'n \<Rightarrow> 'n option \<times> 'n heap" where
  "clist_pop_front h head =
     (if clist_empty h head then (None, h)
      else
        let first = nxt (h head);
            h = clist_remove h (Some first)
        in (Some first, h))"

section \<open>The lists a heap holds\<close>

text \<open>
  \<open>links h zs\<close>: consecutive nodes of \<open>zs\<close> point at each other. \<open>clists h L\<close>: for every sentinel
  \<open>a\<close> in the domain of \<open>L\<close>, the ring through \<open>a\<close> holds exactly the nodes \<open>L a\<close> in that order; no
  node is in two lists; the flag \<^verbatim>\<open>in_list\<close> is set exactly on the nodes of some list, and on no
  sentinel.
\<close>

fun links :: "'n heap \<Rightarrow> 'n list \<Rightarrow> bool" where
  "links h [] = True"
| "links h [x] = True"
| "links h (x # y # zs) = (nxt (h x) = y \<and> prv (h y) = x \<and> links h (y # zs))"

definition clists :: "'n heap \<Rightarrow> ('n \<rightharpoonup> 'n list) \<Rightarrow> bool" where
  "clists h L \<longleftrightarrow>
     (\<forall>a xs. L a = Some xs \<longrightarrow> links h (a # xs @ [a]) \<and> distinct xs) \<and>
     (\<forall>a b xs ys. L a = Some xs \<longrightarrow> L b = Some ys \<longrightarrow> a \<noteq> b \<longrightarrow> set xs \<inter> set ys = {}) \<and>
     (\<forall>a \<in> dom L. \<not> in_list (h a)) \<and>
     (\<forall>n. in_list (h n) \<longleftrightarrow> (\<exists>a xs. L a = Some xs \<and> n \<in> set xs))"

text \<open>What a traversal with callback \<open>cb\<close> does over a list of nodes.\<close>

fun each :: "('n \<Rightarrow> 's \<Rightarrow> bool \<times> 's) \<Rightarrow> 'n list \<Rightarrow> 's \<Rightarrow> 'n option \<times> 's" where
  "each cb [] s = (None, s)"
| "each cb (x # xs) s = (let r = cb x s in if fst r then (Some x, snd r) else each cb xs (snd r))"

text \<open>
  What taking a list apart does, with a callback that answers \<open>fst (A x u)\<close> and leaves \<open>snd (A x u)\<close> when it is called on node
  \<open>x\<close> with \<open>u\<close>, the part of the state that is not the heap, and turns the lists \<open>L\<close> into \<open>g x u L\<close>: the answers in order, the
  state and the lists at the end.
\<close>

fun drain :: "('n \<Rightarrow> 'u \<Rightarrow> bool \<times> 'u) \<Rightarrow> ('n \<Rightarrow> 'u \<Rightarrow> ('n \<rightharpoonup> 'n list) \<Rightarrow> 'n \<rightharpoonup> 'n list) \<Rightarrow> 'n \<Rightarrow> 'n list \<Rightarrow> 'u \<Rightarrow> ('n \<rightharpoonup> 'n list)
    \<Rightarrow> bool list \<times> 'u \<times> ('n \<rightharpoonup> 'n list)" where
  "drain A g a [] u L = ([], u, L)"
| "drain A g a (x # xs) u L =
     (let (bs, r) = drain A g a xs (snd (A x u)) (g x u (L(a \<mapsto> xs))) in (fst (A x u) # bs, r))"

text \<open>
  A callback whose effect \<open>m x u\<close> on the heap turns the lists with the sentinels \<open>D\<close> as \<open>g x u\<close> says, when it is called on a
  node \<open>x\<close> that is in no list.  It keeps the list of the sentinel \<open>a\<close> and neither reads nor writes that sentinel.
\<close>

definition relinks :: "'n set \<Rightarrow> 'n \<Rightarrow> ('n \<Rightarrow> 'u \<Rightarrow> 'n heap \<Rightarrow> 'n heap) \<Rightarrow> ('n \<Rightarrow> 'u \<Rightarrow> ('n \<rightharpoonup> 'n list) \<Rightarrow> 'n \<rightharpoonup> 'n list) \<Rightarrow> bool" where
  "relinks D a m g \<longleftrightarrow> (\<forall>x u h L rest. clists h L \<and> dom L = D \<and> L a = Some rest \<and> x \<notin> D \<and> \<not> in_list (h x) \<longrightarrow>
     clists (m x u h) (g x u L) \<and> dom (g x u L) = D \<and> g x u L a = Some rest \<and> (\<forall>c. m x u (h(a := c)) = (m x u h)(a := c)))"

text \<open>The heap with the sentinel's own fields set as \<open>clists\<close> wants them for content \<open>xs\<close>.\<close>

definition closed :: "'n heap \<Rightarrow> 'n \<Rightarrow> 'n list \<Rightarrow> 'n heap" where
  "closed h a xs = h(a := \<lparr>nxt = hd (xs @ [a]), prv = last (a # xs), in_list = False\<rparr>)"

section \<open>Links\<close>

lemma links_Cons:
  "links h (x # zs) \<longleftrightarrow> zs = [] \<or> (nxt (h x) = hd zs \<and> prv (h (hd zs)) = x \<and> links h zs)"
  by (cases zs) auto

lemma links_append:
  "links h (xs @ ys) \<longleftrightarrow> links h xs \<and> links h ys \<and>
     (xs = [] \<or> ys = [] \<or> nxt (h (last xs)) = hd ys \<and> prv (h (hd ys)) = last xs)"
  by (induction xs) (auto simp: links_Cons)

lemma links_cong:
  assumes "\<forall>x \<in> set (butlast zs). nxt (h' x) = nxt (h x)"
    and "\<forall>x \<in> set (tl zs). prv (h' x) = prv (h x)"
  shows "links h' zs = links h zs"
  using assms by (induction h zs rule: links.induct) auto

lemma clistsD:
  assumes "clists h L" and "L a = Some xs"
  shows clists_links: "links h (a # xs @ [a])" and clists_distinct: "distinct xs"
    and clists_head_in: "\<not> in_list (h a)"
    and clists_member_in: "\<And>n. n \<in> set xs \<Longrightarrow> in_list (h n)"
    and clists_head_notin: "a \<notin> set xs"
  using assms unfolding clists_def by (blast, blast, blast, blast, metis domI)

lemma clists_disjoint:
  "clists h L \<Longrightarrow> L a = Some xs \<Longrightarrow> L b = Some ys \<Longrightarrow> a \<noteq> b \<Longrightarrow> set xs \<inter> set ys = {}"
  unfolding clists_def by blast

lemma clists_in_list:
  "clists h L \<Longrightarrow> in_list (h n) \<longleftrightarrow> (\<exists>a xs. L a = Some xs \<and> n \<in> set xs)"
  unfolding clists_def by blast

lemma clists_heads_notin:
  "clists h L \<Longrightarrow> L a = Some xs \<Longrightarrow> b \<in> dom L \<Longrightarrow> b \<notin> set xs"
  unfolding clists_def by blast

lemma insert_before_fields:
  assumes "\<not> in_list (h n)" and "n \<noteq> pos" and "n \<noteq> prv (h pos)"
  defines "h' \<equiv> clist_insert_before h pos n"
  shows "nxt (h' x) = (if x = n then pos else if x = prv (h pos) then n else nxt (h x))"
    and "prv (h' x) = (if x = pos then n else if x = n then prv (h pos) else prv (h x))"
    and "in_list (h' x) = (x = n \<or> in_list (h x))"
  using assms(1-3)
  by (auto simp: h'_def clist_insert_before_def set_next_def set_prev_def set_in_list_def Let_def)

lemma insert_after_fields:
  assumes "\<not> in_list (h n)" and "n \<noteq> pos" and "n \<noteq> nxt (h pos)"
  defines "h' \<equiv> clist_insert_after h pos n"
  shows "nxt (h' x) = (if x = pos then n else if x = n then nxt (h pos) else nxt (h x))"
    and "prv (h' x) = (if x = n then pos else if x = nxt (h pos) then n else prv (h x))"
    and "in_list (h' x) = (x = n \<or> in_list (h x))"
  using assms(1-3)
  by (auto simp: h'_def clist_insert_after_def set_next_def set_prev_def set_in_list_def Let_def)

lemma remove_fields:
  assumes "in_list (h n)" and "prv (h n) \<noteq> n" and "nxt (h n) \<noteq> n"
  defines "h' \<equiv> clist_remove h (Some n)"
  shows "nxt (h' x) = (if x = n then n else if x = prv (h n) then nxt (h n) else nxt (h x))"
    and "prv (h' x) = (if x = n then n else if x = nxt (h n) then prv (h n) else prv (h x))"
    and "in_list (h' x) = (x \<noteq> n \<and> in_list (h x))"
  using assms(1-3)
  by (auto simp: h'_def clist_remove_def clist_init_node_def set_next_def set_prev_def
      set_in_list_def Let_def)

text \<open>Replacing the content of one list, with the other nodes of the heap untouched.\<close>

lemma clists_update:
  assumes C: "clists h L" and La: "L a = Some xs"
    and links': "links h' (a # ys @ [a])" and dist': "distinct ys"
    and fresh: "\<And>n. n \<in> set ys \<Longrightarrow> n \<notin> set xs \<Longrightarrow> \<not> in_list (h n) \<and> n \<notin> dom L"
    and frame: "\<And>x. x \<noteq> a \<Longrightarrow> x \<notin> set xs \<Longrightarrow> x \<notin> set ys \<Longrightarrow>
      nxt (h' x) = nxt (h x) \<and> prv (h' x) = prv (h x) \<and> in_list (h' x) = in_list (h x)"
    and il: "\<And>x. x \<in> set xs \<union> set ys \<Longrightarrow> in_list (h' x) = (x \<in> set ys)"
    and ila: "\<not> in_list (h' a)"
  shows "clists h' (L(a \<mapsto> ys))"
proof -
  note D = clistsD [OF C La]
  have other: "b \<notin> set xs \<and> b \<notin> set ys \<and> (\<forall>x\<in>set zs. x \<noteq> a \<and> x \<notin> set xs \<and> x \<notin> set ys)"
    if Lb: "L b = Some zs" and ba: "b \<noteq> a" for b zs
    using clists_disjoint [OF C La Lb] ba clists_heads_notin [OF C La, of b] Lb La
      clists_heads_notin [OF C Lb, of a] clists_member_in [OF C Lb] fresh by fastforce
  have L2: "links h' (b # zs @ [b])" if Lb: "L b = Some zs" and ba: "b \<noteq> a" for b zs
  proof -
    have "\<forall>x\<in>set (b # zs). nxt (h' x) = nxt (h x) \<and> prv (h' x) = prv (h x)"
      using other [OF Lb ba] ba frame by auto
    then have "links h' (b # zs @ [b]) = links h (b # zs @ [b])"
      by (intro links_cong) (auto simp: butlast_append)
    then show ?thesis using clists_links [OF C Lb] by simp
  qed
  show ?thesis
    unfolding clists_def
  proof (intro conjI allI impI ballI)
    fix b zs assume "(L(a \<mapsto> ys)) b = Some zs"
    then show "links h' (b # zs @ [b])" and "distinct zs"
      using links' dist' L2 C by (auto split: if_splits dest: clists_distinct)
  next
    fix b c zs ws assume "(L(a \<mapsto> ys)) b = Some zs" "(L(a \<mapsto> ys)) c = Some ws" "b \<noteq> c"
    then show "set zs \<inter> set ws = {}"
      using other clists_disjoint [OF C] by (auto split: if_splits)
  next
    fix b assume "b \<in> dom (L(a \<mapsto> ys))"
    then consider "b = a" | zs where "b \<noteq> a" "L b = Some zs" by (auto split: if_splits)
    then show "\<not> in_list (h' b)"
      by cases (use ila other frame [of b] clists_head_in [OF C, of b] in auto)
  next
    fix m
    show "in_list (h' m) \<longleftrightarrow> (\<exists>b zs. (L(a \<mapsto> ys)) b = Some zs \<and> m \<in> set zs)" (is "_ = ?R")
    proof (cases "m = a \<or> m \<in> set xs \<union> set ys")
      case True
      have "m \<notin> set zs" if "L b = Some zs" "b \<noteq> a" for b zs using other [OF that] True by blast
      then have "?R \<longleftrightarrow> m \<in> set ys" by (metis fun_upd_apply option.inject)
      moreover have "a \<notin> set ys" using fresh [of a] D(5) La by auto
      ultimately show ?thesis using True il [of m] ila by auto
    next
      case False
      then have "?R \<longleftrightarrow> (\<exists>b zs. L b = Some zs \<and> m \<in> set zs)"
        using La by (metis UnI1 UnI2 fun_upd_apply option.inject)
      then show ?thesis using False frame [of m] clists_in_list [OF C, of m] by auto
    qed
  qed
qed

text \<open>The neighbours of a position of a represented list.\<close>

lemma clists_neighbours:
  assumes "clists h L" and "L a = Some (us @ vs)"
  shows "nxt (h (last (a # us))) = hd (vs @ [a])" and "prv (h (hd (vs @ [a]))) = last (a # us)"
    and "links h (a # us)" and "links h (vs @ [a])"
  using clists_links [OF assms] links_append [of h "a # us" "vs @ [a]"] by auto

lemma links_splice:
  assumes "links h (a # us)" and "links h (vs @ [a])" and "distinct (a # us @ vs)"
    and "n \<notin> set (a # us @ vs)"
    and p: "p = last (a # us)" and q: "q = hd (vs @ [a])"
    and nx: "\<And>x. nxt (h' x) = (if x = n then q else if x = p then n else nxt (h x))"
    and pv: "\<And>x. prv (h' x) = (if x = n then p else if x = q then n else prv (h x))"
  shows "links h' (a # (us @ n # vs) @ [a])"
proof -
  have pin: "p \<in> insert a (set us)" using p by (cases us) auto
  have qin: "q \<in> insert a (set vs)" using q by (cases vs) auto
  have "p \<notin> set (butlast (a # us))"
    unfolding p by (rule last_notin_butlast) (use assms(3) in auto)
  then have "links h' (a # us) = links h (a # us)"
    by (intro links_cong) (use assms(3,4) qin nx pv in \<open>auto dest: in_set_butlastD split: if_splits\<close>)
  moreover have "links h' (vs @ [a]) = links h (vs @ [a])"
    by (intro links_cong) (use assms(3,4) pin q nx pv in \<open>cases vs; auto\<close>)+
  ultimately show ?thesis
    using links_append [of h' "a # us" "n # vs @ [a]"] assms(1,2,4) nx pv pin qin
    by (auto simp: links_Cons p q)
qed

lemma clists_insert:
  assumes C: "clists h L" and La: "L a = Some (us @ vs)"
    and n: "\<not> in_list (h n)" "n \<notin> dom L"
    and p: "p = last (a # us)" and q: "q = hd (vs @ [a])"
    and nx: "\<And>x. nxt (h' x) = (if x = n then q else if x = p then n else nxt (h x))"
    and pv: "\<And>x. prv (h' x) = (if x = n then p else if x = q then n else prv (h x))"
    and il: "\<And>x. in_list (h' x) = (x = n \<or> in_list (h x))"
  shows "clists h' (L(a \<mapsto> us @ n # vs))"
proof (rule clists_update [OF C La])
  note D = clistsD [OF C La]
  have pin: "p \<in> insert a (set us)" using p by (cases us) auto
  have qin: "q \<in> insert a (set vs)" using q by (cases vs) auto
  have nm: "n \<notin> set (a # us @ vs)" using D(4) n La by auto
  show "links h' (a # (us @ n # vs) @ [a])"
    using clists_neighbours(3,4) [OF C La] D nm
    by (intro links_splice [OF _ _ _ _ p q nx pv]) auto
  show "distinct (us @ n # vs)" using D(2) nm by auto
  show "nxt (h' x) = nxt (h x) \<and> prv (h' x) = prv (h x) \<and> in_list (h' x) = in_list (h x)"
    if "x \<noteq> a" "x \<notin> set (us @ vs)" "x \<notin> set (us @ n # vs)" for x
  proof -
    have "x \<noteq> n" "x \<noteq> p" "x \<noteq> q" using that pin qin by auto
    then show ?thesis using nx [of x] pv [of x] il [of x] by simp
  qed
  show "in_list (h' x) = (x \<in> set (us @ n # vs))" if "x \<in> set (us @ vs) \<union> set (us @ n # vs)" for x
    using that D(4) il by auto
  show "\<not> in_list (h' a)" using D(3) nm il by auto
qed (use n in auto)

lemma clists_insert_before:
  assumes C: "clists h L" and La: "L a = Some (us @ vs)"
    and n: "\<not> in_list (h n)" "n \<notin> dom L" and q: "pos = hd (vs @ [a])"
  shows "clists (clist_insert_before h pos n) (L(a \<mapsto> us @ n # vs))"
proof (rule clists_insert [OF C La n refl q])
  have pv: "prv (h pos) = last (a # us)" using clists_neighbours [OF C La] q by simp
  have "pos \<in> insert a (set vs)" using q by (cases vs) auto
  moreover have "last (a # us) \<in> insert a (set us)" by (cases us) auto
  moreover have "n \<notin> set (a # us @ vs)" using clistsD(4) [OF C La] n La by auto
  ultimately have "n \<noteq> pos" "n \<noteq> prv (h pos)" using pv by auto
  note F = insert_before_fields [where h = h and pos = pos and n = n, OF n(1) this]
  show "nxt (clist_insert_before h pos n x) =
      (if x = n then pos else if x = last (a # us) then n else nxt (h x))" for x
    using F(1) [of x] pv by simp
  show "prv (clist_insert_before h pos n x) =
      (if x = n then last (a # us) else if x = pos then n else prv (h x))" for x
    using F(2) [of x] pv \<open>n \<noteq> pos\<close> by auto
  show "in_list (clist_insert_before h pos n x) = (x = n \<or> in_list (h x))" for x
    using F(3) [of x] .
qed

lemma clists_insert_after:
  assumes C: "clists h L" and La: "L a = Some (us @ vs)"
    and n: "\<not> in_list (h n)" "n \<notin> dom L" and p: "pos = last (a # us)"
  shows "clists (clist_insert_after h pos n) (L(a \<mapsto> us @ n # vs))"
proof (rule clists_insert [OF C La n p refl])
  have nx: "nxt (h pos) = hd (vs @ [a])" using clists_neighbours [OF C La] p by simp
  have "pos \<in> insert a (set us)" using p by (cases us) auto
  moreover have "hd (vs @ [a]) \<in> insert a (set vs)" by (cases vs) auto
  moreover have "n \<notin> set (a # us @ vs)" using clistsD(4) [OF C La] n La by auto
  ultimately have "n \<noteq> pos" "n \<noteq> nxt (h pos)" using nx by auto
  note F = insert_after_fields [where h = h and pos = pos and n = n, OF n(1) this]
  show "nxt (clist_insert_after h pos n x) =
      (if x = n then hd (vs @ [a]) else if x = pos then n else nxt (h x))" for x
    using F(1) [of x] nx \<open>n \<noteq> pos\<close> by auto
  show "prv (clist_insert_after h pos n x) =
      (if x = n then pos else if x = hd (vs @ [a]) then n else prv (h x))" for x
    using F(2) [of x] nx by auto
  show "in_list (clist_insert_after h pos n x) = (x = n \<or> in_list (h x))" for x
    using F(3) [of x] .
qed

lemma clists_push_back:
  "clists h L \<Longrightarrow> L a = Some xs \<Longrightarrow> \<not> in_list (h n) \<Longrightarrow> n \<notin> dom L \<Longrightarrow>
     clists (clist_push_back h a n) (L(a \<mapsto> xs @ [n]))"
  unfolding clist_push_back_def using clists_insert_before [of h L a xs "[]" n a] by simp

lemma clists_push_front:
  "clists h L \<Longrightarrow> L a = Some xs \<Longrightarrow> \<not> in_list (h n) \<Longrightarrow> n \<notin> dom L \<Longrightarrow>
     clists (clist_push_front h a n) (L(a \<mapsto> n # xs))"
  unfolding clist_push_front_def using clists_insert_after [of h L a "[]" xs n a] by simp

lemma insert_member_noop:
  "in_list (h n) \<Longrightarrow> clist_insert_before h pos n = h"
  "in_list (h n) \<Longrightarrow> clist_insert_after h pos n = h"
  by (auto simp: clist_insert_before_def clist_insert_after_def)

lemma remove_nonmember_noop: "\<not> in_list (h n) \<Longrightarrow> clist_remove h (Some n) = h"
  by (auto simp: clist_remove_def)


lemma links_unsplice:
  assumes "links h (a # us)" and "links h (vs @ [a])" and "distinct (a # us @ n # vs)"
    and p: "p = last (a # us)" and q: "q = hd (vs @ [a])"
    and nx: "\<And>x. nxt (h' x) = (if x = n then n else if x = p then q else nxt (h x))"
    and pv: "\<And>x. prv (h' x) = (if x = n then n else if x = q then p else prv (h x))"
  shows "links h' (a # (us @ vs) @ [a])"
proof -
  have pin: "p \<in> insert a (set us)" using p by (cases us) auto
  have qin: "q \<in> insert a (set vs)" using q by (cases vs) auto
  have "p \<notin> set (butlast (a # us))"
    unfolding p by (rule last_notin_butlast) (use assms(3) in auto)
  then have "links h' (a # us) = links h (a # us)"
    by (intro links_cong) (use assms(3) qin nx pv in \<open>auto dest: in_set_butlastD split: if_splits\<close>)
  moreover have "links h' (vs @ [a]) = links h (vs @ [a])"
    by (intro links_cong) (use assms(3) pin q nx pv in \<open>cases vs; auto\<close>)+
  moreover have "nxt (h' p) = q" "prv (h' q) = p" using nx pv pin qin assms(3) by auto
  ultimately show ?thesis
    using links_append [of h' "a # us" "vs @ [a]"] assms(1,2) by (simp add: p q)
qed

lemma clists_remove:
  assumes C: "clists h L" and La: "L a = Some (us @ n # vs)"
  shows "clists (clist_remove h (Some n)) (L(a \<mapsto> us @ vs))"
proof (rule clists_update [OF C La])
  note D = clistsD [OF C La]
  have La': "L a = Some ((us @ [n]) @ vs)" using La by simp
  define p where p: "p = last (a # us)"
  define q where q: "q = hd (vs @ [a])"
  have pin: "p \<in> insert a (set us)" using p by (cases us) auto
  have qin: "q \<in> insert a (set vs)" using q by (cases vs) auto
  have pv: "prv (h n) = p" using clists_neighbours(2) [OF C La] p by simp
  have nx: "nxt (h n) = q" using clists_neighbours(1) [OF C La'] q by simp
  have "in_list (h n)" "prv (h n) \<noteq> n" "nxt (h n) \<noteq> n" using D pv nx pin qin by auto
  note F = remove_fields [where h = h and n = n, OF this, unfolded pv nx]
  let ?h = "clist_remove h (Some n)"
  show "links ?h (a # (us @ vs) @ [a])"
    by (rule links_unsplice [OF clists_neighbours(3) [OF C La] clists_neighbours(4) [OF C La'] _ p q F(1,2)])
      (use D in auto)
  show "nxt (?h x) = nxt (h x) \<and> prv (?h x) = prv (h x) \<and> in_list (?h x) = in_list (h x)"
    if "x \<noteq> a" "x \<notin> set (us @ n # vs)" "x \<notin> set (us @ vs)" for x
  proof -
    have "x \<noteq> n" "x \<noteq> p" "x \<noteq> q" using that pin qin by auto
    then show ?thesis using F [of x] by simp
  qed
  show "in_list (?h x) = (x \<in> set (us @ vs))" if "x \<in> set (us @ n # vs) \<union> set (us @ vs)" for x
    using that D F(3) by auto
  show "\<not> in_list (?h a)" using D F(3) by auto
qed (use clistsD(2) [OF C La] in auto)


lemma init_node_fields:
  "nxt (clist_init_node h a x) = (if x = a then a else nxt (h x))"
  "prv (clist_init_node h a x) = (if x = a then a else prv (h x))"
  "in_list (clist_init_node h a x) = (x \<noteq> a \<and> in_list (h x))"
  by (auto simp: clist_init_node_def set_next_def set_prev_def set_in_list_def Let_def)

lemma clists_init_head:
  assumes C: "clists h L" and n: "\<not> in_list (h a)" "a \<notin> dom L"
  shows "clists (clist_init_node h a) (L(a \<mapsto> []))"
proof -
  have L2: "links (clist_init_node h a) (b # ys @ [b])" if Lb: "L b = Some ys" for b ys
  proof -
    have "a \<notin> set (b # ys)" using n Lb clists_member_in [OF C Lb] by auto
    then have "links (clist_init_node h a) (b # ys @ [b]) = links h (b # ys @ [b])"
      by (intro links_cong) (auto simp: init_node_fields butlast_append)
    then show ?thesis using clists_links [OF C Lb] by simp
  qed
  show ?thesis
    unfolding clists_def
  proof (intro conjI allI impI ballI)
    fix b ys assume "(L(a \<mapsto> [])) b = Some ys"
    then show "links (clist_init_node h a) (b # ys @ [b])" and "distinct ys"
      using L2 clists_distinct [OF C] by (auto simp: init_node_fields split: if_splits)
  next
    fix b c ys zs assume "(L(a \<mapsto> [])) b = Some ys" "(L(a \<mapsto> [])) c = Some zs" "b \<noteq> c"
    then show "set ys \<inter> set zs = {}"
      using clists_disjoint [OF C] by (auto split: if_splits)
  next
    fix b assume "b \<in> dom (L(a \<mapsto> []))"
    then show "\<not> in_list (clist_init_node h a b)"
      using clists_head_in [OF C, of b] by (auto simp: init_node_fields split: if_splits)
  next
    fix m
    show "in_list (clist_init_node h a m) \<longleftrightarrow> (\<exists>b ys. (L(a \<mapsto> [])) b = Some ys \<and> m \<in> set ys)"
      using n clists_in_list [OF C, of m] by (auto simp: init_node_fields)
  qed
qed

lemma clists_init_node:
  assumes C: "clists h L" and n: "\<not> in_list (h a)" "a \<notin> dom L"
  shows "clists (clist_init_node h a) L"
proof -
  let ?h = "clist_init_node h a"
  have C': "clists ?h (L(a \<mapsto> []))" by (rule clists_init_head [OF C n])
  show ?thesis
    unfolding clists_def
  proof (intro conjI allI impI ballI)
    fix b ys assume "L b = Some ys"
    then have "(L(a \<mapsto> [])) b = Some ys" using n by auto
    then show "links ?h (b # ys @ [b])" and "distinct ys"
      using clists_links [OF C'] clists_distinct [OF C'] by auto
  next
    fix m show "in_list (?h m) \<longleftrightarrow> (\<exists>b ys. L b = Some ys \<and> m \<in> set ys)"
      using n clists_in_list [OF C, of m] by (auto simp: init_node_fields)
  qed (use n clists_disjoint [OF C] clists_head_in [OF C] in \<open>auto simp: init_node_fields\<close>)
qed

lemma clists_empty_iff:
  assumes "clists h L" and "L a = Some xs"
  shows "clist_empty h a \<longleftrightarrow> xs = []"
  using clists_neighbours(1) [of h L a "[]" xs] clistsD(5) [OF assms] assms
  by (cases xs) (auto simp: clist_empty_def)

lemma clists_first:
  assumes "clists h L" and "L a = Some xs"
  shows "clist_first h a = (case xs of [] \<Rightarrow> None | x # _ \<Rightarrow> Some x)"
  using clists_neighbours(1) [of h L a "[]" xs] clists_empty_iff [OF assms] assms
  by (auto simp: clist_first_def split: list.splits)

lemma clists_last:
  assumes "clists h L" and "L a = Some xs"
  shows "clist_last h a = (if xs = [] then None else Some (last xs))"
  using clists_neighbours(2) [of h L a xs "[]"] clists_empty_iff [OF assms] assms
  by (auto simp: clist_last_def)

lemma clists_pop_front:
  assumes C: "clists h L" and La: "L a = Some xs"
  shows "fst (clist_pop_front h a) = (case xs of [] \<Rightarrow> None | x # _ \<Rightarrow> Some x)"
    and "clists (snd (clist_pop_front h a)) (L(a \<mapsto> tl xs))"
proof -
  note E = clists_empty_iff [OF C La]
  have nx: "nxt (h a) = hd (xs @ [a])" using clists_neighbours(1) [of h L a "[]" xs] C La by simp
  show "fst (clist_pop_front h a) = (case xs of [] \<Rightarrow> None | x # _ \<Rightarrow> Some x)"
    using E nx by (auto simp: clist_pop_front_def Let_def split: list.splits)
  show "clists (snd (clist_pop_front h a)) (L(a \<mapsto> tl xs))"
  proof (cases xs)
    case Nil
    then show ?thesis using E C La by (simp add: clist_pop_front_def fun_upd_idem)
  next
    case (Cons x ys)
    then have "clists (clist_remove h (Some x)) (L(a \<mapsto> ys))"
      using clists_remove [OF C, of a "[]" x ys] La by simp
    then show ?thesis using Cons E nx by (simp add: clist_pop_front_def Let_def)
  qed
qed

lemma clist_find_loop_links:
  "links h (y # ys @ [a]) \<Longrightarrow> a \<notin> set ys \<Longrightarrow>
     clist_find_loop h pred a (nxt (h y)) = Some (List.find pred ys)"
  by (induction ys arbitrary: y; subst clist_find_loop.simps) (auto simp: links_Cons)

lemma clists_find:
  assumes C: "clists h L" and La: "L a = Some xs"
  shows "clist_find h a pred = Some (List.find pred xs)"
  unfolding clist_find_def
  by (rule clist_find_loop_links [OF clists_links [OF C La] clists_head_notin [OF C La]])

lemma clist_find_rev_loop_links:
  "links h (a # ys @ [y]) \<Longrightarrow> a \<notin> set ys \<Longrightarrow>
     clist_find_rev_loop h pred a (prv (h y)) = Some (List.find pred (rev ys))"
proof (induction ys arbitrary: y rule: rev_induct)
  case Nil
  then show ?case by (simp add: clist_find_rev_loop.simps)
next
  case (snoc x ys)
  have "links h (a # ys @ [x])" and p: "prv (h y) = x"
    using snoc.prems(1) links_append [of h "a # ys @ [x]" "[y]"] by auto
  then have "clist_find_rev_loop h pred a (prv (h x)) = Some (List.find pred (rev ys))"
    using snoc.IH snoc.prems(2) by simp
  then show ?case
    unfolding p by (subst clist_find_rev_loop.simps) (use snoc.prems(2) in auto)
qed

lemma clists_find_rev:
  assumes C: "clists h L" and La: "L a = Some xs"
  shows "clist_find_rev h a pred = Some (List.find pred (rev xs))"
  unfolding clist_find_rev_def
  by (rule clist_find_rev_loop_links [OF clists_links [OF C La] clists_head_notin [OF C La]])

lemma clist_insert_sorted_loop_links:
  "links h (y # ys @ [a]) \<Longrightarrow> a \<notin> set ys \<Longrightarrow>
     clist_insert_sorted_loop h cmp a n (nxt (h y)) =
       Some (hd (dropWhile (\<lambda>x. cmp x n \<le> 0) ys @ [a]))"
  by (induction ys arbitrary: y; subst clist_insert_sorted_loop.simps) (auto simp: links_Cons)

lemma clists_insert_sorted:
  assumes C: "clists h L" and La: "L a = Some xs" and n: "\<not> in_list (h n)" "n \<notin> dom L"
  shows "\<exists>h'. clist_insert_sorted h a n cmp = Some h' \<and>
    clists h' (L(a \<mapsto> takeWhile (\<lambda>x. cmp x n \<le> 0) xs @ n # dropWhile (\<lambda>x. cmp x n \<le> 0) xs))"
proof -
  let ?P = "\<lambda>x. cmp x n \<le> 0"
  have "clist_insert_sorted_loop h cmp a n (nxt (h a)) = Some (hd (dropWhile ?P xs @ [a]))"
    by (rule clist_insert_sorted_loop_links [OF clists_links [OF C La] clists_head_notin [OF C La]])
  moreover have "clists (clist_insert_before h (hd (dropWhile ?P xs @ [a])) n)
      (L(a \<mapsto> takeWhile ?P xs @ n # dropWhile ?P xs))"
    using La by (intro clists_insert_before [OF C _ n refl]) simp
  ultimately show ?thesis by (simp add: clist_insert_sorted_def)
qed

lemma clist_for_each_loop_each:
  assumes step: "\<And>x rest s. I (x # rest) s \<Longrightarrow> x \<noteq> head \<and> nxt (hp s x) = hd (rest @ [head]) \<and>
      (\<not> fst (cb x s) \<longrightarrow> I rest (snd (cb x s)))"
  shows "I xs s \<Longrightarrow> clist_for_each_loop hp cb head (hd (xs @ [head])) s = Some (each cb xs s)"
proof (induction xs arbitrary: s)
  case Nil
  then show ?case by (simp add: clist_for_each_loop.simps)
next
  case (Cons x xs)
  then show ?case
    using step [OF Cons.prems] by (subst clist_for_each_loop.simps) (auto simp: Let_def)
qed

lemma closed_idem: "clists h L \<Longrightarrow> L a = Some xs \<Longrightarrow> closed h a xs = h"
  using clists_neighbours(1) [of h L a "[]" xs] clists_neighbours(2) [of h L a xs "[]"]
    clists_head_in [of h L a xs]
  by (auto simp: closed_def fun_eq_iff)

lemma closed_init: "closed (clist_init_node h a) a xs = closed h a xs"
  by (auto simp: closed_def fun_eq_iff clist_init_node_def set_next_def set_prev_def
      set_in_list_def Let_def)

lemma closed_init_Nil: "closed (clist_init_node h a) a [] = clist_init_node h a"
  by (auto simp: closed_def fun_eq_iff clist_init_node_def set_next_def set_prev_def
      set_in_list_def Let_def intro!: clist_node.equality)

lemma closed_off: "x \<noteq> a \<Longrightarrow> closed h a xs x = h x"
  by (simp add: closed_def)

text \<open>Removing the first node through a sentinel whose own fields are stale.\<close>

lemma remove_open_first:
  assumes C: "clists (closed h a (x # rest)) L" and La: "L a = Some (x # rest)"
  defines "h' \<equiv> clist_remove h (Some x)"
  shows "closed h' a rest = clist_remove (closed h a (x # rest)) (Some x)"
    and "clists (closed h' a rest) (L(a \<mapsto> rest))"
    and "\<not> in_list (h a) \<Longrightarrow> \<not> in_list (h' a)"
    and "\<not> in_list (h a) \<Longrightarrow> rest = [] \<Longrightarrow> closed h' a [] = h'"
proof -
  let ?c = "closed h a (x # rest)"
  have xa: "x \<noteq> a" and ar: "a \<notin> set rest" using clists_head_notin [OF C La] by auto
  have fx: "?c x = h x" using xa by (simp add: closed_off)
  have px: "prv (h x) = a" using clists_neighbours(2) [OF C, of a "[]" "x # rest"] La fx by simp
  have nx: "nxt (h x) = hd (rest @ [a])"
    using clists_neighbours(1) [OF C, of a "[x]" rest] La fx by simp
  have il: "in_list (h x)" using clists_member_in [OF C La, of x] fx by simp
  have xr: "x \<notin> set rest" using clists_distinct [OF C La] by simp
  then have yx: "nxt (h x) \<noteq> x" using nx xa by (cases rest) auto
  show eq: "closed h' a rest = clist_remove ?c (Some x)"
  proof
    fix y
    show "closed h' a rest y = clist_remove ?c (Some x) y"
      using xa ar il px yx nx fx
      by (cases rest) (auto simp: h'_def clist_remove_def clist_init_node_def set_next_def
          set_prev_def set_in_list_def Let_def closed_def)
  qed
  show "clists (closed h' a rest) (L(a \<mapsto> rest))"
    unfolding eq using clists_remove [OF C, of a "[]" x rest] La by simp
  show "\<not> in_list (h' a)" if "\<not> in_list (h a)"
    using that xa
    by (auto simp: h'_def clist_remove_def clist_init_node_def set_next_def set_prev_def
        set_in_list_def Let_def)
  show "closed h' a [] = h'" if "\<not> in_list (h a)" "rest = []"
    using that xa il px nx
    by (auto simp: h'_def clist_remove_def clist_init_node_def set_next_def set_prev_def
        set_in_list_def Let_def closed_def fun_eq_iff intro!: clist_node.equality)
qed

text \<open>Removing from a list and appending to one have nothing to do with the sentinel of another.\<close>

lemma clist_remove_apart:
  assumes C: "clists h L" and b: "L b = Some xs" "n \<in> set xs" and w: "w \<in> dom L" "w \<noteq> b"
  shows "clist_remove (h(w := c)) (Some n) = (clist_remove h (Some n))(w := c)"
proof -
  obtain us vs where s: "xs = us @ n # vs" using b(2) by (meson split_list)
  have in_xs: "w \<notin> set xs" using clists_member_in [OF C b(1)] w(1) clists_head_in [OF C] by blast
  have "nxt (h n) = hd (vs @ [b])" "prv (h n) = last (b # us)"
    using clists_neighbours(1) [OF C, of b "us @ [n]" vs] clists_neighbours(2) [OF C, of b us "n # vs"] b(1) s by simp_all
  moreover have "hd (vs @ [b]) \<in> insert b (set xs)" "last (b # us) \<in> insert b (set xs)"
    using s by (simp_all add: hd_append last_in_set)
  ultimately have "nxt (h n) \<noteq> w" "prv (h n) \<noteq> w" "n \<noteq> w" using in_xs w(2) b(2) by auto
  then show ?thesis
    by (auto simp: clist_remove_def clist_init_node_def set_next_def set_prev_def set_in_list_def Let_def fun_eq_iff)
qed

lemma clist_push_back_apart:
  assumes C: "clists h L" and b: "L b = Some xs" and w: "w \<in> dom L" "w \<noteq> b" "w \<noteq> n"
  shows "clist_push_back (h(w := c)) b n = (clist_push_back h b n)(w := c)"
proof -
  have "w \<notin> set xs" using clists_member_in [OF C b] w(1) clists_head_in [OF C] by blast
  moreover have "prv (h b) = last (b # xs)" using clists_neighbours(2) [OF C, of b xs "[]"] b by simp
  ultimately have "prv (h b) \<noteq> w" using w(2) by (cases xs rule: rev_cases) auto
  then show ?thesis using w(2,3)
    by (auto simp: clist_push_back_def clist_insert_before_def set_next_def set_prev_def set_in_list_def Let_def fun_eq_iff)
qed

text \<open>One step of the walk that takes a list apart: the first node is unlinked and handed to the callback.\<close>

lemma drain_step:
  fixes h :: "'n heap" and x :: 'n and u :: 'u
  assumes R: "relinks D a m g" and C: "clists (closed h a (x # xs)) L" and L: "L a = Some (x # xs)" "dom L = D"
    and h: "\<not> in_list (h a)"
  defines "h2 \<equiv> m x u (clist_remove h (Some x))"
  shows "x \<noteq> a" and "nxt (h x) = hd (xs @ [a])" and "clists (closed h2 a xs) (g x u (L(a \<mapsto> xs)))" and "g x u (L(a \<mapsto> xs)) a = Some xs"
    and "dom (g x u (L(a \<mapsto> xs))) = D" and "\<not> in_list (h2 a)" and "xs = [] \<Longrightarrow> closed h2 a [] = h2"
proof -
  let ?h = "clist_remove h (Some x)" let ?L = "L(a \<mapsto> xs)" let ?H = "closed ?h a xs"
  show x: "x \<noteq> a" using clists_head_notin [OF C L(1)] by auto
  show "nxt (h x) = hd (xs @ [a])" using clists_neighbours(1) [OF C, of a "[x]" xs] L(1) x by (simp add: closed_off)
  note open1 = remove_open_first [OF C L(1)]
  have D: "x \<notin> D" using clists_member_in [OF C L(1), of x] clists_head_in [OF C] L(2) by fastforce
  have "\<not> in_list (?H x)"
    unfolding clists_in_list [OF open1(2)] using clists_distinct [OF C L(1)] clists_disjoint [OF C L(1)] by (auto split: if_splits)
  then have r: "clists (m x u ?H) (g x u ?L)" "dom (g x u ?L) = D" "g x u ?L a = Some xs" "m x u (?H(a := ?h a)) = (m x u ?H)(a := ?h a)"
    using R [unfolded relinks_def, rule_format, of ?H ?L xs x u] open1(2) L D by auto
  then show "g x u ?L a = Some xs" "dom (g x u ?L) = D" by simp_all
  have h2: "h2 = (m x u ?H)(a := ?h a)" using r(4) by (simp add: h2_def closed_def)
  then have "closed h2 a xs = m x u ?H" using closed_idem [OF r(1,3)] by (auto simp: closed_def)
  then show "clists (closed h2 a xs) (g x u ?L)" using r(1) by simp
  show "\<not> in_list (h2 a)" using h2 open1(3) [OF h] by simp
  show "closed h2 a [] = h2" if "xs = []" using fun_cong [OF open1(4) [OF h that], of a] h2 by (simp add: closed_def)
qed

lemma drain_walk:
  fixes A :: "'n \<Rightarrow> 'u \<Rightarrow> bool \<times> 'u" and m :: "'n \<Rightarrow> 'u \<Rightarrow> 'n heap \<Rightarrow> 'n heap"
  assumes R: "relinks D a m g"
  defines "cb \<equiv> \<lambda>x (h, u). (fst (A x u), m x u h, snd (A x u))"
  shows "clists (closed h a xs) L \<Longrightarrow> L a = Some xs \<Longrightarrow> dom L = D \<Longrightarrow> \<not> in_list (h a) \<Longrightarrow> (xs = [] \<longrightarrow> closed h a [] = h) \<Longrightarrow>
    drain A g a xs u L = (bs, u', L') \<Longrightarrow>
    \<exists>h'. clist_for_each_and_del_loop fst (\<lambda>h s. (h, snd s)) cb a (hd (xs @ [a])) f (h, u) =
        Some (if f = None then map_option fst (List.find snd (zip xs bs)) else f, h', u') \<and> clists h' L' \<and> L' a = Some []"
proof (induction xs arbitrary: h u L f bs)
  case Nil
  then show ?case by (auto simp: clist_for_each_and_del_loop.simps)
next
  case (Cons x xs)
  note S = drain_step(1,2) [OF R Cons.prems(1-4)] drain_step(3-) [OF R Cons.prems(1-4), of u]
  let ?f = "if fst (A x u) \<and> f = None then Some x else f"
  obtain cs where d: "drain A g a xs (snd (A x u)) (g x u (L(a \<mapsto> xs))) = (cs, u', L')" "bs = fst (A x u) # cs"
    using Cons.prems(6) by (auto split: prod.splits)
  have "clist_for_each_and_del_loop fst (\<lambda>h s. (h, snd s)) cb a (hd ((x # xs) @ [a])) f (h, u) =
      clist_for_each_and_del_loop fst (\<lambda>h s. (h, snd s)) cb a (hd (xs @ [a])) ?f (m x u (clist_remove h (Some x)), snd (A x u))"
    using S(1,2) by (subst clist_for_each_and_del_loop.simps) (auto simp: Let_def cb_def split: option.splits)
  moreover obtain h' where "clist_for_each_and_del_loop fst (\<lambda>h s. (h, snd s)) cb a (hd (xs @ [a])) ?f (m x u (clist_remove h (Some x)), snd (A x u)) =
      Some (if ?f = None then map_option fst (List.find snd (zip xs cs)) else ?f, h', u')" "clists h' L'" "L' a = Some []"
    using Cons.IH [OF S(3-6) _ d(1), of ?f] S(7) by blast
  ultimately show ?case using d(2) by auto
qed

section \<open>The interface its clients use\<close>

locale node_lists =
  fixes rep :: "'h \<Rightarrow> ('n \<rightharpoonup> 'n list) \<Rightarrow> bool"
    and linked :: "'h \<Rightarrow> 'n \<Rightarrow> bool"
    and push_back :: "'h \<Rightarrow> 'n \<Rightarrow> 'n \<Rightarrow> 'h"
    and push_front :: "'h \<Rightarrow> 'n \<Rightarrow> 'n \<Rightarrow> 'h"
    and remove :: "'h \<Rightarrow> 'n option \<Rightarrow> 'h"
    and pop_front :: "'h \<Rightarrow> 'n \<Rightarrow> 'n option \<times> 'h"
  assumes linked_iff: "rep h L \<Longrightarrow> linked h n \<longleftrightarrow> (\<exists>a xs. L a = Some xs \<and> n \<in> set xs)"
    and heads_unlinked: "rep h L \<Longrightarrow> a \<in> dom L \<Longrightarrow> \<not> linked h a"
    and members_distinct: "rep h L \<Longrightarrow> L a = Some xs \<Longrightarrow> distinct xs"
    and lists_disjoint: "rep h L \<Longrightarrow> L a = Some xs \<Longrightarrow> L b = Some ys \<Longrightarrow> a \<noteq> b \<Longrightarrow> set xs \<inter> set ys = {}"
    and rep_push_back: "rep h L \<Longrightarrow> L a = Some xs \<Longrightarrow> \<not> linked h n \<Longrightarrow> n \<notin> dom L \<Longrightarrow>
      rep (push_back h a n) (L(a \<mapsto> xs @ [n]))"
    and rep_push_front: "rep h L \<Longrightarrow> L a = Some xs \<Longrightarrow> \<not> linked h n \<Longrightarrow> n \<notin> dom L \<Longrightarrow>
      rep (push_front h a n) (L(a \<mapsto> n # xs))"
    and rep_remove: "rep h L \<Longrightarrow> L a = Some (us @ n # vs) \<Longrightarrow>
      rep (remove h (Some n)) (L(a \<mapsto> us @ vs))"
    and fst_pop_front: "rep h L \<Longrightarrow> L a = Some xs \<Longrightarrow>
      fst (pop_front h a) = (case xs of [] \<Rightarrow> None | x # _ \<Rightarrow> Some x)"
    and rep_pop_front: "rep h L \<Longrightarrow> L a = Some xs \<Longrightarrow> rep (snd (pop_front h a)) (L(a \<mapsto> tl xs))"
begin

lemma unlinked_after_removal:
  assumes "rep h L" and "L a = Some (us @ n # vs)" and "rep h' (L(a \<mapsto> us @ vs))"
  shows "\<not> linked h' n"
proof -
  have "n \<notin> set (us @ vs)" using members_distinct [OF assms(1,2)] by auto
  moreover have "n \<notin> set ys" if "L b = Some ys" "b \<noteq> a" for b ys
    using lists_disjoint [OF assms(1,2) that(1)] that(2) by auto
  ultimately show ?thesis unfolding linked_iff [OF assms(3)] by (metis fun_upd_apply option.inject)
qed

lemma member_not_head:
  assumes "rep h L" and "L a = Some xs" and "n \<in> set xs"
  shows "n \<notin> dom L"
proof -
  have "linked h n" unfolding linked_iff [OF assms(1)] using assms(2,3) by blast
  then show ?thesis using heads_unlinked [OF assms(1), of n] by blast
qed

text \<open>Least recently used bookkeeping: take a node out and put it at the front.\<close>

lemma rep_touch:
  assumes R: "rep h L" and La: "L a = Some (us @ n # vs)"
  shows "rep (push_front (remove h (Some n)) a n) (L(a \<mapsto> n # us @ vs))"
proof -
  have R1: "rep (remove h (Some n)) (L(a \<mapsto> us @ vs))" by (rule rep_remove [OF R La])
  have "n \<notin> dom L" using member_not_head [OF R La] by simp
  then have "n \<notin> dom (L(a \<mapsto> us @ vs))" using La by auto
  then show ?thesis
    using rep_push_front [OF R1, of a "us @ vs" n] unlinked_after_removal [OF R La R1] by simp
qed

text \<open>Round robin: the first node moves to the end.\<close>

lemma rep_rotate:
  assumes R: "rep h L" and La: "L a = Some (x # xs)"
  shows "fst (pop_front h a) = Some x"
    and "rep (push_back (snd (pop_front h a)) a x) (L(a \<mapsto> xs @ [x]))"
proof -
  show "fst (pop_front h a) = Some x" using fst_pop_front [OF R La] by simp
  have R1: "rep (snd (pop_front h a)) (L(a \<mapsto> xs))" using rep_pop_front [OF R La] by simp
  have "x \<notin> dom L" using member_not_head [OF R La] by simp
  then have "x \<notin> dom (L(a \<mapsto> xs))" using La by auto
  moreover have "\<not> linked (snd (pop_front h a)) x"
    using unlinked_after_removal [OF R, of a "[]" x xs] La R1 by simp
  ultimately show "rep (push_back (snd (pop_front h a)) a x) (L(a \<mapsto> xs @ [x]))"
    using rep_push_back [OF R1, of a xs x] by simp
qed

text \<open>First in, first out: nodes pushed at the back come out at the front, in order.\<close>

lemma rep_push_all:
  assumes "rep h L" and "L a = Some xs" and "distinct ns"
    and "\<forall>n \<in> set ns. \<not> linked h n \<and> n \<notin> dom L"
  shows "rep (fold (\<lambda>n h. push_back h a n) ns h) (L(a \<mapsto> xs @ ns))"
  using assms
proof (induction ns arbitrary: h L xs)
  case Nil
  then show ?case by (simp add: fun_upd_idem)
next
  case (Cons n ns)
  have R: "rep (push_back h a n) (L(a \<mapsto> xs @ [n]))"
    using rep_push_back [OF Cons.prems(1,2)] Cons.prems(4) by simp
  have "\<not> linked (push_back h a n) m \<and> m \<notin> dom (L(a \<mapsto> xs @ [n]))" if m: "m \<in> set ns" for m
  proof -
    have "m \<noteq> n" "\<not> linked h m" "m \<notin> dom L" using Cons.prems(3,4) m by auto
    then show ?thesis
      using Cons.prems(2) unfolding linked_iff [OF R] linked_iff [OF Cons.prems(1)]
      by (auto split: if_splits)
  qed
  then have "\<forall>m \<in> set ns. \<not> linked (push_back h a n) m \<and> m \<notin> dom (L(a \<mapsto> xs @ [n]))" by blast
  note Cons.IH [OF R _ _ this, of "xs @ [n]"]
  then have "rep (fold (\<lambda>n h. push_back h a n) ns (push_back h a n))
      (L(a \<mapsto> xs @ [n], a \<mapsto> (xs @ [n]) @ ns))"
    using Cons.prems(3) by (simp add: fun_upd_same del: fun_upd_apply)
  then show ?case by (simp only: fun_upd_upd fold_simps append_assoc append_Cons append_Nil)
qed

end

interpretation cl: node_lists clists "\<lambda>h n. in_list (h n)" clist_push_back clist_push_front
  clist_remove clist_pop_front
  by unfold_locales
    (auto simp: clists_in_list clists_head_in clists_push_back clists_push_front clists_remove
      clists_pop_front intro: clists_distinct dest: clists_heads_notin clists_disjoint)

section \<open>Properties\<close>

lemma clists_none: "(\<And>n. \<not> in_list (h n)) \<Longrightarrow> clists h Map.empty"
  by (simp add: clists_def)

definition blank_heap :: "nat heap" where
  "blank_heap = (\<lambda>_. \<lparr>nxt = 0, prv = 0, in_list = False\<rparr>)"

lemma clists_blank: "clists (clist_init_node blank_heap 0) [0 \<mapsto> []]"
  by (rule clists_init_head [OF clists_none]) (simp_all add: blank_heap_def)

text \<open>
  C17: On a heap that holds the lists \<open>L\<close>, pushing a node that is in no list appends or prepends it
  to the list of the given sentinel and to no other; a queue filled by \<^verbatim>\<open>clist_push_back\<close> gives its
  nodes back through \<^verbatim>\<open>clist_pop_front\<close> oldest first; and \<^verbatim>\<open>clist_remove\<close> takes the node just pushed
  out again, leaving the lists as they were.
\<close>

theorem clist_queue_refines:
  assumes "clists h L" and "L a = Some xs" and "\<not> in_list (h n)" and "n \<notin> dom L"
  shows "clists (clist_push_back h a n) (L(a \<mapsto> xs @ [n])) \<and>
    clists (clist_push_front h a n) (L(a \<mapsto> n # xs)) \<and>
    fst (clist_pop_front (clist_push_back h a n) a) = Some (hd (xs @ [n])) \<and>
    clists (snd (clist_pop_front (clist_push_back h a n) a)) (L(a \<mapsto> tl (xs @ [n]))) \<and>
    clists (clist_remove (clist_push_back h a n) (Some n)) L"
proof (intro conjI)
  show B: "clists (clist_push_back h a n) (L(a \<mapsto> xs @ [n]))" by (rule clists_push_back [OF assms])
  show "clists (clist_push_front h a n) (L(a \<mapsto> n # xs))" by (rule clists_push_front [OF assms])
  show "fst (clist_pop_front (clist_push_back h a n) a) = Some (hd (xs @ [n]))"
    using clists_pop_front(1) [OF B, of a "xs @ [n]"] by (cases xs) auto
  show "clists (snd (clist_pop_front (clist_push_back h a n) a)) (L(a \<mapsto> tl (xs @ [n])))"
    using clists_pop_front(2) [OF B, of a "xs @ [n]"] by simp
  show "clists (clist_remove (clist_push_back h a n) (Some n)) L"
    using clists_remove [OF B, of a xs n "[]"] assms(2) by (simp add: fun_upd_idem)
qed

theorem clist_queue_refines_witness:
  "clists (clist_remove (clist_push_back (clist_init_node blank_heap 0) 0 7) (Some 7)) [0 \<mapsto> []]"
  using clist_queue_refines [where L = "[0 \<mapsto> []]" and xs = "[]" and n = 7, OF clists_blank]
  by (simp add: init_node_fields blank_heap_def)

text \<open>
  C34: \<^verbatim>\<open>clist_insert_sorted\<close> returns on every represented list, and if the list was sorted by a
  key, with the comparison function testing "key of the first greater than key of the second", it
  is sorted afterwards, holds the same nodes and the new one, and the new node stands after every
  node of equal key.
\<close>

theorem clist_insert_sorted_keeps_order:
  fixes key :: "'n \<Rightarrow> nat"
  assumes "clists h L" and "L a = Some xs" and "\<not> in_list (h n)" and "n \<notin> dom L"
    and "sorted (map key xs)" and "\<And>x. cmp x n = (if key x > key n then 1 else 0)"
  shows "\<exists>h' us vs. clist_insert_sorted h a n cmp = Some h' \<and> clists h' (L(a \<mapsto> us @ n # vs)) \<and>
    xs = us @ vs \<and> sorted (map key (us @ n # vs)) \<and> (\<forall>v \<in> set vs. key n < key v)"
proof -
  let ?P = "\<lambda>x. cmp x n \<le> 0"
  have P: "?P = (\<lambda>x. key x \<le> key n)" using assms(6) by auto
  have tw: "\<forall>u \<in> set (takeWhile ?P xs). key u \<le> key n" by (auto simp: P dest: set_takeWhileD)
  have dw: "\<forall>v \<in> set (dropWhile ?P xs). key n < key v"
    using assms(5) unfolding P
    by (induction xs) (auto split: if_splits)
  have "sorted (map key (takeWhile ?P xs @ dropWhile ?P xs))" using assms(5) by simp
  then have "sorted (map key (takeWhile ?P xs @ n # dropWhile ?P xs))"
    using tw dw by (auto simp: sorted_append simp del: takeWhile_dropWhile_id)
  then show ?thesis
    using clists_insert_sorted [OF assms(1-4), of cmp] dw takeWhile_dropWhile_id [of ?P xs]
    by metis
qed

text \<open>A list of two nodes, and an empty one.\<close>

definition two_lists :: "nat heap" where
  "two_lists = clist_push_back (clist_push_back (fold (\<lambda>a h. clist_init_node h a) [1, 0] blank_heap) 0 5) 0 9"

lemma two_lists_lists: "clists two_lists [0 \<mapsto> [5, 9], 1 \<mapsto> []]"
proof -
  let ?h = "clist_init_node (clist_init_node blank_heap 1) 0"
  have "clists (clist_init_node blank_heap 1) [1 \<mapsto> []]"
    using clists_init_head [OF clists_none, of blank_heap 1] by (simp add: blank_heap_def)
  then have 0: "clists ?h [1 \<mapsto> [], 0 \<mapsto> []]"
    using clists_init_head [of "clist_init_node blank_heap 1" "[1 \<mapsto> []]" 0] by (simp add: init_node_fields blank_heap_def)
  then have 1: "clists (clist_push_back ?h 0 5) ([1 \<mapsto> [], 0 \<mapsto> []](0 \<mapsto> [] @ [5]))"
    by (rule clists_push_back) (simp_all add: init_node_fields blank_heap_def)
  then have i: "\<not> in_list (clist_push_back ?h 0 5 9)" unfolding clists_in_list [OF 1] by (auto split: if_splits)
  have "clists (clist_push_back (clist_push_back ?h 0 5) 0 9) ([1 \<mapsto> [], 0 \<mapsto> []](0 \<mapsto> [] @ [5], 0 \<mapsto> ([] @ [5]) @ [9]))"
    by (rule clists_push_back [OF 1 _ i]) simp_all
  then show ?thesis by (simp add: two_lists_def fun_upd_twist)
qed

theorem clist_insert_sorted_keeps_order_witness:
  "\<exists>h'. clist_insert_sorted two_lists 0 7 (\<lambda>x y. if x > y then 1 else 0) = Some h' \<and> clists h' [0 \<mapsto> [5, 7, 9], 1 \<mapsto> []]"
proof -
  have "\<not> in_list (two_lists 7)" unfolding clists_in_list [OF two_lists_lists] by (auto split: if_splits)
  then obtain h' us vs where r: "clist_insert_sorted two_lists 0 7 (\<lambda>x y. if x > y then 1 else 0) = Some h'"
    "clists h' ([0 \<mapsto> [5, 9], 1 \<mapsto> []](0 \<mapsto> us @ 7 # vs))" "[5, 9] = us @ vs" "sorted (map id (us @ 7 # vs))"
    using clist_insert_sorted_keeps_order [OF two_lists_lists, of 0 "[5, 9]" 7 id "\<lambda>x y. if x > y then 1 else 0"] by auto
  have "us = [5] \<and> vs = [9]" using r(3,4) by (cases us; cases "tl us") auto
  then show ?thesis using r(1,2) by (simp add: fun_upd_twist)
qed

text \<open>
  C35: \<^verbatim>\<open>clist_for_each_and_del\<close> returns, and calls the callback on each node of the list once, in the order of the list, after
  detaching the node; the callback may move nodes between the other lists.  At the end the list is empty, the other lists are
  what the callback made of them, and the result is the first node on which the callback failed, NULL if there is none.
\<close>

theorem clist_for_each_and_del_detaches:
  fixes A :: "'n \<Rightarrow> 'u \<Rightarrow> bool \<times> 'u" and m :: "'n \<Rightarrow> 'u \<Rightarrow> 'n heap \<Rightarrow> 'n heap"
  assumes "clists h L" and "L a = Some xs" and "relinks (dom L) a m g" and "drain A g a xs u L = (bs, u', L')"
  shows "\<exists>h'. clist_for_each_and_del fst (\<lambda>h s. (h, snd s)) a (\<lambda>x (h, u). (fst (A x u), m x u h, snd (A x u))) (h, u) =
      Some (map_option fst (List.find snd (zip xs bs)), h', u') \<and> clists h' L' \<and> L' a = Some []"
proof -
  have "hd (xs @ [a]) = nxt (h a)" using clists_neighbours(1) [OF assms(1), of a "[]" xs] assms(2) by simp
  moreover have "clists (closed (clist_init_node h a) a xs) L" using closed_init [of h a xs] closed_idem [OF assms(1,2)] assms(1) by simp
  moreover have "\<not> in_list (clist_init_node h a a)" by (simp add: init_node_fields)
  ultimately show ?thesis
    using drain_walk [OF assms(3) _ assms(2) refl _ _ assms(4), of "clist_init_node h a" None] closed_init_Nil [of h a]
    by (auto simp: clist_for_each_and_del_def Let_def)
qed

text \<open>A callback that counts its calls, moves each node to the list of sentinel 1 and fails on 9.\<close>

theorem clist_for_each_and_del_detaches_witness:
  "\<exists>h'. clist_for_each_and_del fst (\<lambda>h s. (h, snd s)) 0 (\<lambda>x (h, u). (x = 9, clist_push_back h 1 x, u + 1)) (two_lists, 0 :: nat) =
    Some (Some 9, h', 2) \<and> clists h' [0 \<mapsto> [], 1 \<mapsto> [5, 9]]"
proof -
  let ?A = "\<lambda>x (u :: nat). (x = (9 :: nat), u + 1)" let ?g = "\<lambda>x (u :: nat) (L :: nat \<rightharpoonup> nat list). L(1 \<mapsto> the (L 1) @ [x])"
  have "relinks {0, 1} 0 (\<lambda>x (u :: nat) h. clist_push_back h 1 x) ?g"
    unfolding relinks_def
  proof (intro allI impI, elim conjE)
    fix x u :: nat and h :: "nat heap" and L rest
    assume a: "clists h L" "dom L = {0, 1}" "L 0 = Some rest" "x \<notin> {0, 1}" "\<not> in_list (h x)"
    obtain ys where ys: "L 1 = Some ys" using a(2) by blast
    have "clist_push_back (h(0 := c)) 1 x = (clist_push_back h 1 x)(0 := c)" for c
      using clist_push_back_apart [OF a(1) ys, of 0 x c] a(2,4) by auto
    moreover have "clists (clist_push_back h 1 x) (L(1 \<mapsto> ys @ [x]))" using clists_push_back [OF a(1) ys] a by simp
    ultimately show "clists (clist_push_back h 1 x) (?g x u L) \<and> dom (?g x u L) = {0, 1} \<and> ?g x u L 0 = Some rest \<and>
      (\<forall>c. clist_push_back (h(0 := c)) 1 x = (clist_push_back h 1 x)(0 := c))" using a ys by auto
  qed
  then have "relinks (dom [0 \<mapsto> [5, 9], 1 \<mapsto> []]) 0 (\<lambda>x (u :: nat) h. clist_push_back h 1 x) ?g" by (simp add: insert_commute)
  from clist_for_each_and_del_detaches [OF two_lists_lists _ this, of "[5, 9]" ?A 0] show ?thesis
    by (auto simp: fun_upd_twist numeral_2_eq_2)
qed

end
