(* ===== verification/Bitmap.thy ===== *)
theory Bitmap
  imports Prelude
begin

text \<open>
  The bitmap routines of \<^verbatim>\<open>lib/bitmap.c\<close>, which the block allocator runs on a disk block.  A buffer
  is a list of bytes; the search reads it as little-endian 64-bit words, the updates read single
  bytes, and the lemmas relate both readings through \<open>bm_bit\<close>, the bit at an index.  An access
  outside the buffer is \<^const>\<open>None\<close>.
\<close>

section \<open>Definitions\<close>

definition bitmap64 :: "u8 list \<Rightarrow> nat \<Rightarrow> u64" where
  "bitmap64 buf qw = le_word (take 8 (drop (8 * qw) buf))"

text \<open>\<^verbatim>\<open>__builtin_ctzll\<close>: the index of the lowest bit that is set (undefined on 0, here 64).\<close>

function ctz_from :: "u64 \<Rightarrow> nat \<Rightarrow> nat" where
  "ctz_from w n = (if n \<ge> 64 \<or> bit w n then n else ctz_from w (Suc n))"
  by auto
termination by (relation "measure (\<lambda>(w, n). 64 - n)") auto

definition ctzll :: "u64 \<Rightarrow> nat" where
  "ctzll w = ctz_from w 0"

text \<open>The scan; the sum is of type \<^verbatim>\<open>uint32_t\<close> and is returned as \<^verbatim>\<open>int\<close>.\<close>

function bm_scan :: "u8 list \<Rightarrow> nat \<Rightarrow> nat \<Rightarrow> int" where
  "bm_scan buf max_qw qw =
    (if max_qw \<le> qw then - 1
     else if bitmap64 buf qw = - 1 then bm_scan buf max_qw (Suc qw)
     else sint (word_of_nat (ctzll (NOT (bitmap64 buf qw)) + 64 * qw) :: u32))"
  by auto
termination by (relation "measure (\<lambda>(b, m, q). m - q)") auto

declare ctz_from.simps [simp del] bm_scan.simps [simp del]

definition bm_find_first_zero :: "u8 list \<Rightarrow> u32 \<Rightarrow> int option" where
  "bm_find_first_zero buf bit_size =
    (if 8 * (unat bit_size div 64) \<le> length buf then Some (bm_scan buf (unat bit_size div 64) 0)
     else None)"

text \<open>
  The index of the byte: \<^verbatim>\<open>sizeof\<close> makes the division one of \<^verbatim>\<open>unsigned long\<close>, and the quotient
  is cut to \<^verbatim>\<open>int\<close>.
\<close>

definition bm_byte_idx :: "int \<Rightarrow> int" where
  "bm_byte_idx bit_idx = sint (ucast ((word_of_int bit_idx :: u64) div 8) :: u32)"

definition bm_byte_shift :: "int \<Rightarrow> nat" where
  "bm_byte_shift bit_idx = unat ((word_of_int bit_idx :: u64) mod 8)"

definition bm_set_bit :: "u8 list \<Rightarrow> int \<Rightarrow> u8 list option" where
  "bm_set_bit buf bit_idx =
    (let idx = bm_byte_idx bit_idx in
     if 0 \<le> idx \<and> idx < int (length buf)
     then Some (buf[nat idx := buf ! nat idx OR push_bit (bm_byte_shift bit_idx) 1])
     else None)"

definition bm_clear_bit :: "u8 list \<Rightarrow> int \<Rightarrow> u8 list option" where
  "bm_clear_bit buf bit_idx =
    (let idx = bm_byte_idx bit_idx in
     if 0 \<le> idx \<and> idx < int (length buf)
     then Some (buf[nat idx := buf ! nat idx AND NOT (push_bit (bm_byte_shift bit_idx) 1)])
     else None)"

text \<open>The bit at an index, as a specification reads the buffer.\<close>

definition bm_bit :: "u8 list \<Rightarrow> nat \<Rightarrow> bool" where
  "bm_bit buf i \<longleftrightarrow> bit (buf ! (i div 8)) (i mod 8)"

section \<open>Reading the buffer by words\<close>

lemma bit_bitmap64:
  assumes "8 * qw + 8 \<le> length buf" and "n < 64"
  shows "bit (bitmap64 buf qw) n \<longleftrightarrow> bm_bit buf (64 * qw + n)"
proof -
  have d: "(64 * qw + n) div 8 = 8 * qw + n div 8" "(64 * qw + n) mod 8 = n mod 8"
    using mod_mult_self4 [of 8 "8 * qw" n] by auto
  have "n div 8 < 8" using assms(2) by auto
  then show ?thesis using assms by (auto simp: bitmap64_def bit_le_word bm_bit_def d)
qed

lemma word64_all_ones: "(w :: u64) = - 1 \<longleftrightarrow> (\<forall>n < 64. bit w n)"
  by (auto simp: bit_eq_iff dest: bit_imp_le_length)

lemma ctz_from_props:
  assumes "bit w m" and "n \<le> m"
  shows "bit w (ctz_from w n) \<and> n \<le> ctz_from w n \<and> (\<forall>j. n \<le> j \<longrightarrow> j < ctz_from w n \<longrightarrow> \<not> bit w j)"
  using assms
proof (induction "64 - n" arbitrary: n rule: less_induct)
  case less
  have m: "m < 64" using less.prems(1) by (auto dest: bit_imp_le_length)
  show ?case
  proof (cases "bit w n")
    case True
    then have "ctz_from w n = n" by (subst ctz_from.simps) simp
    then show ?thesis using True by simp
  next
    case False
    then have le: "Suc n \<le> m" using less.prems by (metis Suc_leI le_neq_implies_less)
    have "ctz_from w n = ctz_from w (Suc n)" using False le m by (subst ctz_from.simps) simp
    moreover have "64 - Suc n < 64 - n" using le m by simp
    ultimately show ?thesis
      using less.hyps [OF _ less.prems(1) le] False by (metis Suc_leD Suc_leI le_neq_implies_less)
  qed
qed

lemma ctzll_least: "bit w m \<Longrightarrow> bit w (ctzll w) \<and> (\<forall>j < ctzll w. \<not> bit w j)"
  using ctz_from_props [of w m 0] by (simp add: ctzll_def)

section \<open>The search\<close>

lemma sint_small: "k < 2 ^ 31 \<Longrightarrow> sint (word_of_nat k :: u32) = int k"
  by (simp add: signed_of_nat signed_take_bit_int_eq_self_iff)

lemma bm_scan_spec:
  assumes "8 * M \<le> length buf" and "64 * M \<le> 2 ^ 31" and "q \<le> M"
    and "\<forall>j < 64 * q. bm_bit buf j"
  shows "(bm_scan buf M q = - 1 \<and> (\<forall>j < 64 * M. bm_bit buf j)) \<or>
    (\<exists>k < 64 * M. bm_scan buf M q = int k \<and> \<not> bm_bit buf k \<and> (\<forall>j < k. bm_bit buf j))"
  using assms(3,4)
proof (induction "M - q" arbitrary: q)
  case 0
  then show ?case by (subst (1) bm_scan.simps) simp
next
  case (Suc d)
  have q: "q < M" and d: "d = M - Suc q" using Suc.hyps(2) by auto
  have rd: "bit (bitmap64 buf q) n \<longleftrightarrow> bm_bit buf (64 * q + n)" if "n < 64" for n
    using bit_bitmap64 [of q buf n] assms(1) q that by simp
  show ?case
  proof (cases "bitmap64 buf q = - 1")
    case True
    have "bm_bit buf j" if "j < 64 * Suc q" for j
    proof (cases "j < 64 * q")
      case False
      then show ?thesis using rd [of "j - 64 * q"] True that by simp
    qed (use Suc.prems in simp)
    moreover have "bm_scan buf M q = bm_scan buf M (Suc q)"
      using True q by (subst bm_scan.simps) simp
    ultimately show ?thesis using Suc.hyps(1) [OF d] q by simp
  next
    case False
    let ?w = "NOT (bitmap64 buf q)"
    obtain m where m: "m < 64" "\<not> bit (bitmap64 buf q) m" using False by (auto simp: word64_all_ones)
    have "bit ?w m" using m by (simp add: bit_not_iff)
    from ctzll_least [OF this] have c: "bit ?w (ctzll ?w)" "\<And>j. j < ctzll ?w \<Longrightarrow> \<not> bit ?w j" by auto
    have c64: "ctzll ?w < 64" using c(1) by (auto dest: bit_imp_le_length)
    let ?k = "64 * q + ctzll ?w"
    have k: "?k < 64 * M" using c64 q by simp
    have "bm_scan buf M q = int ?k"
      using False q k assms(2) by (subst bm_scan.simps) (simp add: sint_small del: of_nat_add)
    moreover have "\<not> bm_bit buf ?k" using c(1) c64 by (simp add: bit_not_iff rd)
    moreover have "bm_bit buf j" if "j < ?k" for j
    proof (cases "j < 64 * q")
      case False
      then show ?thesis using c(2) [of "j - 64 * q"] rd [of "j - 64 * q"] that c64
        by (simp add: bit_not_iff)
    qed (use Suc.prems in simp)
    ultimately show ?thesis using k by blast
  qed
qed

section \<open>The updates\<close>

lemma bm_idx_small:
  assumes "i < 2 ^ 31"
  shows "bm_byte_idx (int i) = int (i div 8)" and "bm_byte_shift (int i) = i mod 8"
proof -
  have i: "(word_of_int (int i) :: u64) = word_of_nat i" by simp
  have "i < 2 ^ 64" using assms by simp
  then have u: "unat (word_of_nat i :: u64) = i" by (simp add: unat_of_nat take_bit_nat_eq_self)
  show "bm_byte_shift (int i) = i mod 8" by (simp add: bm_byte_shift_def unat_mod u)
  have "(ucast ((word_of_nat i :: u64) div 8) :: u32) = word_of_nat (i div 8)"
    using u by (intro word_unat_eq_iff [THEN iffD2]) (simp add: unsigned_ucast_eq unsigned_of_nat unat_div)
  then show "bm_byte_idx (int i) = int (i div 8)"
    using assms by (simp add: bm_byte_idx_def sint_small)
qed

lemma bm_bit_update:
  assumes "i div 8 < length buf"
  shows "bm_bit (buf[i div 8 := b]) j = (if i div 8 = j div 8 then bit b (j mod 8) else bm_bit buf j)"
  using assms by (simp add: bm_bit_def)

lemma div_mod_same: "(i :: nat) div 8 = j div 8 \<Longrightarrow> i mod 8 = j mod 8 \<longleftrightarrow> i = j"
  by (metis mult_div_mod_eq)

lemma bm_set_bit_spec:
  assumes "i < 2 ^ 31" and "i < 8 * length buf"
  shows "\<exists>buf'. bm_set_bit buf (int i) = Some buf' \<and> length buf' = length buf \<and>
    (\<forall>j. bm_bit buf' j \<longleftrightarrow> j = i \<or> bm_bit buf j)"
proof -
  have l: "i div 8 < length buf" using assms(2) by (simp add: less_mult_imp_div_less mult.commute)
  let ?b = "buf ! (i div 8) OR push_bit (i mod 8) 1"
  have "bm_bit (buf[i div 8 := ?b]) j \<longleftrightarrow> j = i \<or> bm_bit buf j" for j
  proof (cases "i div 8 = j div 8")
    case True
    then show ?thesis using div_mod_same [OF True] unfolding bm_bit_update [OF l]
      by (simp add: bm_bit_def bit_or_iff bit_exp_iff) metis
  qed (auto simp: bm_bit_update [OF l])
  then show ?thesis using l by (simp add: bm_set_bit_def bm_idx_small [OF assms(1)])
qed

lemma bm_clear_bit_spec:
  assumes "i < 2 ^ 31" and "i < 8 * length buf"
  shows "\<exists>buf'. bm_clear_bit buf (int i) = Some buf' \<and> length buf' = length buf \<and>
    (\<forall>j. bm_bit buf' j \<longleftrightarrow> j \<noteq> i \<and> bm_bit buf j)"
proof -
  have l: "i div 8 < length buf" using assms(2) by (simp add: less_mult_imp_div_less mult.commute)
  let ?b = "buf ! (i div 8) AND NOT (push_bit (i mod 8) 1)"
  have "bm_bit (buf[i div 8 := ?b]) j \<longleftrightarrow> j \<noteq> i \<and> bm_bit buf j" for j
  proof (cases "i div 8 = j div 8")
    case True
    then show ?thesis using div_mod_same [OF True] unfolding bm_bit_update [OF l]
      by (simp add: bm_bit_def bit_and_iff bit_not_iff bit_exp_iff) metis
  qed (auto simp: bm_bit_update [OF l])
  then show ?thesis using l by (simp add: bm_clear_bit_def bm_idx_small [OF assms(1)])
qed

lemma bm_bit_ext:
  assumes "length a = length b" and "\<And>j. j < 8 * length a \<Longrightarrow> bm_bit a j = bm_bit b j"
  shows "a = b"
proof (rule nth_equalityI)
  fix i assume i: "i < length a"
  have "bit (a ! i) n = bit (b ! i) n" if "n < 8" for n
    using assms(2) [of "8 * i + n"] i that by (simp add: bm_bit_def)
  then show "a ! i = b ! i" by (intro bit_word_eqI) simp
qed (rule assms(1))

lemma bm_set_clear:
  assumes "i < 2 ^ 31" and "i < 8 * length buf" and "\<not> bm_bit buf i"
  shows "\<exists>buf'. bm_set_bit buf (int i) = Some buf' \<and> (\<forall>j. bm_bit buf' j \<longleftrightarrow> j = i \<or> bm_bit buf j) \<and>
    bm_clear_bit buf' (int i) = Some buf"
proof -
  obtain b where b: "bm_set_bit buf (int i) = Some b" "length b = length buf"
    "\<And>j. bm_bit b j \<longleftrightarrow> j = i \<or> bm_bit buf j"
    using bm_set_bit_spec [OF assms(1,2)] by blast
  obtain c where c: "bm_clear_bit b (int i) = Some c" "length c = length b"
    "\<And>j. bm_bit c j \<longleftrightarrow> j \<noteq> i \<and> bm_bit b j"
    using bm_clear_bit_spec [of i b] assms(1,2) b(2) by auto
  have "c = buf" using b c assms(3) by (intro bm_bit_ext) auto
  then show ?thesis using b(1,3) c(1) by blast
qed

section \<open>Properties\<close>



end
