(* ===== verification/Stdfct.thy ===== *)
theory Stdfct
  imports Prelude "HOL-Library.Signed_Division"
begin

text \<open>
  The arithmetic routines of \<^verbatim>\<open>lib/stdfct.c\<close> that the compiler calls on a machine without
  multiplication and division: shift-and-add products and shift-and-subtract quotients.  The
  source has the same text twice, at 64 bits (suffix \<^verbatim>\<open>di3\<close>) and at 32 bits (suffix \<^verbatim>\<open>si3\<close>); the
  loops are defined and proved once at an arbitrary width and the routines are its two instances.
  The loop that aligns the divisor does not end on the divisor 0, so it is a partial function,
  and the theorems show that the routines return.
\<close>

section \<open>Definitions\<close>

text \<open>\<^verbatim>\<open>for (acc = 0; y; x <<= 1, y >>= 1) if (y & 1) acc += x;\<close>\<close>

function mul_loop :: "'a :: len word \<Rightarrow> 'a word \<Rightarrow> 'a word \<Rightarrow> 'a word" where
  "mul_loop x y acc =
    (if y = 0 then acc
     else mul_loop (push_bit 1 x) (drop_bit 1 y) (if odd y then acc + x else acc))"
  by auto
termination
  by (relation "measure (\<lambda>(x, y, acc). unat y)")
    (auto dest: unat_drop_bit_1_less simp del: drop_bit_Suc)

declare mul_loop.simps [simp del]

definition umul :: "'a :: len word \<Rightarrow> 'a word \<Rightarrow> 'a word" where
  "umul x y = (if x < y then mul_loop y x 0 else mul_loop x y 0)"

definition mul_signed :: "'a :: len word \<Rightarrow> 'a word \<Rightarrow> 'a word" where
  "mul_signed x y =
    (let xs = sint x < 0; ys = sint y < 0;
         acc = umul (if xs then - x else x) (if ys then - y else y)
     in if xs \<noteq> ys then - acc else acc)"

text \<open>\<^verbatim>\<open>for (aux = 1; y < x && !(y & (1 << 63)); aux <<= 1, y <<= 1);\<close>\<close>

partial_function (option) align_loop :: "'a :: len word \<Rightarrow> 'a word \<Rightarrow> 'a word \<Rightarrow> ('a word \<times> 'a word) option" where
  "align_loop x y aux =
    (if y < x \<and> \<not> bit y (LENGTH('a) - 1) then align_loop x (push_bit 1 y) (push_bit 1 aux)
     else Some (y, aux))"

text \<open>
  \<^verbatim>\<open>for (acc = 0; x && aux; aux >>= 1, y >>= 1) if (y <= x) x -= y, acc += aux;\<close>
\<close>

function sub_loop :: "'a :: len word \<Rightarrow> 'a word \<Rightarrow> 'a word \<Rightarrow> 'a word \<Rightarrow> 'a word \<times> 'a word" where
  "sub_loop x y aux acc =
    (if x = 0 \<or> aux = 0 then (x, acc)
     else if y \<le> x then sub_loop (x - y) (drop_bit 1 y) (drop_bit 1 aux) (acc + aux)
     else sub_loop x (drop_bit 1 y) (drop_bit 1 aux) acc)"
  by auto
termination
  by (relation "measure (\<lambda>(x, y, aux, acc). unat aux)")
    (auto dest: unat_drop_bit_1_less simp del: drop_bit_Suc)

declare sub_loop.simps [simp del]

definition udiv_umod :: "'a :: len word \<Rightarrow> 'a word \<Rightarrow> bool \<Rightarrow> 'a word option" where
  "udiv_umod x y opt =
    (if y = 0 then Some 0
     else case align_loop x y 1 of
       None \<Rightarrow> None
     | Some (y', aux) \<Rightarrow> (let (r, acc) = sub_loop x y' aux 0 in Some (if opt then acc else r)))"

text \<open>Negating the least number, which C leaves undefined, wraps around, as the machine does.\<close>

definition div_mod_signed :: "'a :: len word \<Rightarrow> 'a word \<Rightarrow> bool \<Rightarrow> 'a word option" where
  "div_mod_signed x y opt =
    (if y = 0 then Some 0
     else
       (let xs = sint x < 0; ys = sint y < 0
        in case udiv_umod (if xs then - x else x) (if ys then - y else y) opt of
             None \<Rightarrow> None
           | Some acc \<Rightarrow>
               Some (if opt then (if xs \<noteq> ys then - acc else acc) else (if xs then - acc else acc))))"

definition umuldi3 :: "u64 \<Rightarrow> u64 \<Rightarrow> u64" where "umuldi3 x y = umul x y"
definition muldi3 :: "u64 \<Rightarrow> u64 \<Rightarrow> u64" where "muldi3 x y = mul_signed x y"
definition udiv_umod_di3 :: "u64 \<Rightarrow> u64 \<Rightarrow> bool \<Rightarrow> u64 option" where
  "udiv_umod_di3 x y opt = udiv_umod x y opt"
definition udivdi3 :: "u64 \<Rightarrow> u64 \<Rightarrow> u64 option" where "udivdi3 x y = udiv_umod_di3 x y True"
definition umoddi3 :: "u64 \<Rightarrow> u64 \<Rightarrow> u64 option" where "umoddi3 x y = udiv_umod_di3 x y False"
definition div_mod_di3 :: "u64 \<Rightarrow> u64 \<Rightarrow> bool \<Rightarrow> u64 option" where
  "div_mod_di3 x y opt = div_mod_signed x y opt"
definition divdi3 :: "u64 \<Rightarrow> u64 \<Rightarrow> u64 option" where "divdi3 x y = div_mod_di3 x y True"
definition moddi3 :: "u64 \<Rightarrow> u64 \<Rightarrow> u64 option" where "moddi3 x y = div_mod_di3 x y False"

definition umulsi3 :: "u32 \<Rightarrow> u32 \<Rightarrow> u32" where "umulsi3 x y = umul x y"
definition mulsi3 :: "u32 \<Rightarrow> u32 \<Rightarrow> u32" where "mulsi3 x y = mul_signed x y"
definition udiv_umod_si3 :: "u32 \<Rightarrow> u32 \<Rightarrow> bool \<Rightarrow> u32 option" where
  "udiv_umod_si3 x y opt = udiv_umod x y opt"
definition udivsi3 :: "u32 \<Rightarrow> u32 \<Rightarrow> u32 option" where "udivsi3 x y = udiv_umod_si3 x y True"
definition umodsi3 :: "u32 \<Rightarrow> u32 \<Rightarrow> u32 option" where "umodsi3 x y = udiv_umod_si3 x y False"
definition div_mod_si3 :: "u32 \<Rightarrow> u32 \<Rightarrow> bool \<Rightarrow> u32 option" where
  "div_mod_si3 x y opt = div_mod_signed x y opt"
definition divsi3 :: "u32 \<Rightarrow> u32 \<Rightarrow> u32 option" where "divsi3 x y = div_mod_si3 x y True"
definition modsi3 :: "u32 \<Rightarrow> u32 \<Rightarrow> u32 option" where "modsi3 x y = div_mod_si3 x y False"

lemmas mul_routine_defs = umuldi3_def muldi3_def umulsi3_def mulsi3_def
lemmas div_routine_defs = udiv_umod_di3_def udivdi3_def umoddi3_def div_mod_di3_def divdi3_def moddi3_def
  udiv_umod_si3_def udivsi3_def umodsi3_def div_mod_si3_def divsi3_def modsi3_def

section \<open>Multiplication\<close>

lemma word_half: "(y :: 'a :: len word) = 2 * drop_bit 1 y + (if odd y then 1 else 0)"
proof -
  have "y = (y div 2) * 2 + y mod 2" by (rule div_mult_mod_eq [symmetric])
  then show ?thesis by (auto simp: drop_bit_eq_div mod_2_eq_odd mult.commute split: if_splits)
qed

lemma mul_loop_mult: "mul_loop x y acc = acc + x * y"
proof (induction x y acc rule: mul_loop.induct)
  case (1 x y acc)
  show ?case
  proof (cases "y = 0")
    case False
    have "push_bit 1 x * drop_bit 1 y + (if odd y then x else 0) = x * (2 * drop_bit 1 y + (if odd y then 1 else 0))"
      by (simp add: push_bit_eq_mult algebra_simps)
    then have "push_bit 1 x * drop_bit 1 y + (if odd y then x else 0) = x * y"
      by (simp only: word_half [symmetric])
    then show ?thesis using 1 [OF False] False by (subst mul_loop.simps) (auto simp: algebra_simps)
  qed (simp add: mul_loop.simps)
qed

lemma umul_mult: "umul x y = x * y"
  by (simp add: umul_def mul_loop_mult mult.commute)

lemma mul_signed_mult: "mul_signed x y = x * y"
  by (auto simp: mul_signed_def Let_def umul_mult)

section \<open>Division\<close>

lemma top_bit_iff: "bit (y :: 'a :: len word) (LENGTH('a) - 1) \<longleftrightarrow> 2 ^ LENGTH('a) \<le> 2 * unat y"
proof -
  have L: "(2 :: nat) ^ LENGTH('a) = 2 * 2 ^ (LENGTH('a) - 1)" by (simp flip: power_Suc)
  have lt: "unat y < 2 ^ LENGTH('a)" by (rule unsigned_less)
  have "bit y (LENGTH('a) - 1) \<longleftrightarrow> odd (unat y div 2 ^ (LENGTH('a) - 1))"
    by (metis bit_iff_odd bit_unsigned_iff possible_bit_nat)
  also have "\<dots> \<longleftrightarrow> 2 ^ (LENGTH('a) - 1) \<le> unat y"
  proof (cases "2 ^ (LENGTH('a) - 1) \<le> unat y")
    case True
    then have "unat y div 2 ^ (LENGTH('a) - 1) = 1" using lt L by (intro div_nat_eqI) simp_all
    then show ?thesis using True by simp
  qed simp
  finally show ?thesis using L by simp
qed

lemma unat_push_1: "\<not> bit (y :: 'a :: len word) (LENGTH('a) - 1) \<Longrightarrow> unat (push_bit 1 y) = 2 * unat y"
  unfolding top_bit_iff by (cases "LENGTH('a) = 1") (auto simp: push_bit_eq_mult unat_word_ariths)

lemma align_loop_returns:
  fixes x y :: "'a :: len word"
  assumes "y \<noteq> 0"
  shows "\<exists>k y'. align_loop x y aux = Some (y', push_bit k aux) \<and> unat y' = unat y * 2 ^ k \<and> unat x < 2 * unat y'"
  using assms
proof (induction "2 ^ LENGTH('a) - unat y" arbitrary: y aux rule: less_induct)
  case less
  have lt: "unat x < 2 ^ LENGTH('a)" "unat y < 2 ^ LENGTH('a)" by (rule unsigned_less)+
  show ?case
  proof (cases "y < x \<and> \<not> bit y (LENGTH('a) - 1)")
    case True
    then have p: "unat (push_bit 1 y) = 2 * unat y" by (intro unat_push_1) simp
    have y: "0 < unat y" using less.prems by (simp add: unat_gt_0)
    then have "push_bit 1 y \<noteq> 0" using p by (metis mult_eq_0_iff not_gr_zero unat_0 zero_neq_numeral)
    moreover have "2 ^ LENGTH('a) - unat (push_bit 1 y) < 2 ^ LENGTH('a) - unat y"
      using p y lt(2) by (intro diff_less_mono2) linarith+
    ultimately obtain k y' where k: "align_loop x (push_bit 1 y) (push_bit 1 aux) = Some (y', push_bit k (push_bit 1 aux))"
      "unat y' = unat (push_bit 1 y) * 2 ^ k" "unat x < 2 * unat y'"
      using less.hyps by blast
    have "align_loop x y aux = Some (y', push_bit (Suc k) aux)"
      using True k(1) by (subst align_loop.simps) (simp add: push_bit_push_bit)
    then show ?thesis using k(2,3) p by (intro exI [of _ "Suc k"] exI [of _ y']) simp
  next
    case False
    then have "unat x < 2 * unat y"
      using lt(1) less.prems unfolding top_bit_iff word_less_nat_alt unat_gt_0 [symmetric] by linarith
    moreover have "align_loop x y aux = Some (y, push_bit 0 aux)"
      using False by (subst align_loop.simps) (auto simp del: push_bit_Suc)
    ultimately show ?thesis by (intro exI [of _ 0] exI [of _ y]) simp
  qed
qed

text \<open>The subtraction loop keeps \<open>x + acc * y\<^sub>0\<close> and the bound \<open>x < 2 * y\<close>.\<close>

lemma sub_loop_divides:
  fixes x y :: "'a :: len word"
  assumes "unat aux = 2 ^ k" and "unat y = d * 2 ^ k" and "unat x < 2 * unat y" and "0 < d"
  shows "unat (fst (sub_loop x y aux acc)) = unat x mod d \<and>
    snd (sub_loop x y aux acc) = acc + word_of_nat (unat x div d)"
  using assms(1-3)
proof (induction k arbitrary: x y aux acc)
  case 0
  have aux: "aux = 1" using 0(1) by (simp add: word_unat_eq_iff)
  show ?case
  proof (cases "y \<le> x \<and> x \<noteq> 0")
    case True
    then have "unat (x - y) = unat x - d" and "d \<le> unat x"
      using 0(2) by (simp_all add: unat_sub word_le_nat_alt)
    moreover from this have "unat x div d = 1" and "unat x mod d = unat x - d"
      using 0 by (simp_all add: div_nat_eqI mod_nat_eqI)
    moreover have "sub_loop x y aux acc = (x - y, acc + 1)"
      using True by (subst sub_loop.simps, subst sub_loop.simps) (simp add: aux)
    ultimately show ?thesis by simp
  next
    case False
    then have "unat x < d" using 0(2) assms(4) by (auto simp: word_le_nat_alt)
    moreover have "sub_loop x y aux acc = (x, acc)"
      using False by (subst sub_loop.simps, subst sub_loop.simps) (auto simp: aux)
    ultimately show ?thesis by simp
  qed
next
  case (Suc k)
  let ?y = "drop_bit 1 y" and ?a = "drop_bit 1 aux"
  have a: "unat ?a = 2 ^ k" "unat ?y = d * 2 ^ k"
    unfolding unat_drop_bit_1 using Suc.prems by simp_all
  have nz: "aux \<noteq> 0" using Suc.prems(1) by auto
  consider "x = 0" | "x \<noteq> 0" "y \<le> x" | "x \<noteq> 0" "\<not> y \<le> x" by blast
  then show ?case
  proof cases
    case 1
    then show ?thesis by (simp add: sub_loop.simps)
  next
    case 2
    have xy: "unat (x - y) = unat x - unat y" "unat y \<le> unat x"
      using 2 by (simp_all add: unat_sub word_le_nat_alt)
    have IH: "unat (fst (sub_loop (x - y) ?y ?a (acc + aux))) = unat (x - y) mod d \<and>
        snd (sub_loop (x - y) ?y ?a (acc + aux)) = (acc + aux) + word_of_nat (unat (x - y) div d)"
      using Suc.IH [OF a] xy Suc.prems a(2) by simp
    have x: "unat x = unat (x - y) + d * 2 ^ Suc k" using xy Suc.prems(2) by simp
    have "unat x div d = unat (x - y) div d + 2 ^ Suc k" "unat x mod d = unat (x - y) mod d"
      using assms(4) by (subst x, simp add: add.commute)+
    moreover have "aux = word_of_nat (2 ^ Suc k)" using word_of_unat [of aux] by (simp add: Suc.prems(1))
    ultimately show ?thesis using IH 2 nz by (subst (1 2) sub_loop.simps) (simp add: add.commute add.left_commute)
  next
    case 3
    then have "unat x < 2 * unat ?y" using Suc.prems(2) a(2) by (simp add: word_le_nat_alt)
    then show ?thesis using Suc.IH [OF a] 3 nz by (subst (1 2) sub_loop.simps) simp
  qed
qed

lemma udiv_umod_spec: "udiv_umod x y opt = Some (if y = 0 then 0 else if opt then x div y else x mod y)"
proof (cases "y = 0")
  case False
  obtain k y' where k: "align_loop x y 1 = Some (y', push_bit k 1)" "unat y' = unat y * 2 ^ k" "unat x < 2 * unat y'"
    using align_loop_returns [OF False, of x 1] by blast
  have y: "0 < unat y" using False by (simp add: unat_gt_0)
  have "(2 :: nat) ^ k \<le> unat y'" using k(2) y by simp
  also have "unat y' < 2 ^ LENGTH('a)" by (rule unsigned_less)
  finally have "unat (push_bit k 1 :: 'a word) = 2 ^ k"
    by (simp add: push_bit_eq_mult unat_power_2)
  from sub_loop_divides [OF this k(2,3) y, of 0]
  have "sub_loop x y' (push_bit k 1) 0 = (x mod y, x div y)"
    by (simp add: prod_eq_iff word_unat_eq_iff [of _ "x mod y"] unat_mod flip: unat_div)
  then show ?thesis using False k(1) by (simp add: udiv_umod_def)
qed (simp add: udiv_umod_def)

text \<open>The signed routines divide the magnitudes; the magnitude of the least value is itself.\<close>

lemma abs_word:
  fixes x :: "'a :: len word"
  shows "int (unat (if sint x < 0 then - x else x)) = \<bar>sint x\<bar>"
proof -
  have "(2 :: int) ^ (LENGTH('a) - 1) < 2 ^ LENGTH('a)" by (rule power_strict_increasing) simp_all
  then have b: "\<bar>sint x\<bar> < 2 ^ LENGTH('a)" using sint_ge [of x] sint_lt [of x] by linarith
  have "(if sint x < 0 then - x else x) = word_of_int \<bar>sint x\<bar>" by (simp add: abs_if)
  then have "uint (if sint x < 0 then - x else x) = take_bit LENGTH('a) \<bar>sint x\<bar>"
    by (simp only: uint_word_of_int_eq)
  also have "\<dots> = \<bar>sint x\<bar>" using b by (simp add: take_bit_int_eq_self)
  finally show ?thesis by simp
qed

lemma sdiv_magnitudes:
  "(k :: int) sdiv l = (if (k < 0) \<noteq> (l < 0) then - (\<bar>k\<bar> div \<bar>l\<bar>) else \<bar>k\<bar> div \<bar>l\<bar>)"
  "(k :: int) smod l = (if k < 0 then - (\<bar>k\<bar> mod \<bar>l\<bar>) else \<bar>k\<bar> mod \<bar>l\<bar>)"
  by (auto simp: signed_divide_int_def signed_modulo_int_def sgn_if)

lemma div_mod_signed_spec:
  "div_mod_signed x y opt =
    Some (if y = 0 then 0 else if opt then word_of_int (sint x sdiv sint y) else word_of_int (sint x smod sint y))"
proof (cases "y = 0")
  case False
  let ?x = "if sint x < 0 then - x else x" and ?y = "if sint y < 0 then - y else y"
  have y: "?y \<noteq> 0" "sint y \<noteq> 0" using False by (auto simp: signed_eq_0_iff)
  have d: "?x div ?y = word_of_int (\<bar>sint x\<bar> div \<bar>sint y\<bar>)" "?x mod ?y = word_of_int (\<bar>sint x\<bar> mod \<bar>sint y\<bar>)"
    unfolding abs_word [symmetric] of_nat_div [symmetric] of_nat_mod [symmetric]
    by (simp_all add: flip: unat_div unat_mod)
  have "div_mod_signed x y opt =
    Some (if opt then (if (sint x < 0) \<noteq> (sint y < 0) then - (?x div ?y) else ?x div ?y)
          else (if sint x < 0 then - (?x mod ?y) else ?x mod ?y))"
    using y False by (simp only: div_mod_signed_def Let_def udiv_umod_spec if_False option.case) simp
  then show ?thesis using False unfolding d sdiv_magnitudes by simp
qed (simp add: div_mod_signed_def)

section \<open>Properties\<close>

text \<open>
  The shift-and-add routines compute the product of their operands modulo the word size, on
  unsigned and on signed operands, at 64 and at 32 bits.
\<close>

theorem soft_multiplication:
  "umuldi3 x y = x * y \<and> muldi3 x y = x * y \<and> umulsi3 u v = u * v \<and> mulsi3 u v = u * v"
  by (simp add: mul_routine_defs umul_mult mul_signed_mult)

text \<open>
  C32: The shift-and-subtract routines return on all operands, the aligning loop included.  The
  quotient and the remainder of two unsigned words are their \<open>div\<close> and \<open>mod\<close>, those of two signed
  words truncate towards zero, with the sign of the dividend on the remainder, and wrap on the
  single overflowing quotient; a zero divisor gives 0.
\<close>

theorem soft_division:
  "udivdi3 x y = Some (if y = 0 then 0 else x div y) \<and>
   umoddi3 x y = Some (if y = 0 then 0 else x mod y) \<and>
   divdi3 x y = Some (if y = 0 then 0 else word_of_int (sint x sdiv sint y)) \<and>
   moddi3 x y = Some (if y = 0 then 0 else word_of_int (sint x smod sint y)) \<and>
   udivsi3 u v = Some (if v = 0 then 0 else u div v) \<and>
   umodsi3 u v = Some (if v = 0 then 0 else u mod v) \<and>
   divsi3 u v = Some (if v = 0 then 0 else word_of_int (sint u sdiv sint v)) \<and>
   modsi3 u v = Some (if v = 0 then 0 else word_of_int (sint u smod sint v))"
  by (simp add: div_routine_defs udiv_umod_spec div_mod_signed_spec)

end
