(* ===== verification/Strings.thy ===== *)
theory Strings
  imports Prelude "HOL-Library.List_Lexorder"
begin

text \<open>
  The memory and string routines of \<^verbatim>\<open>lib/string.c\<close>.  Memory is a function from addresses to bytes;
  an address is a natural number, since no object wraps around the address space.  A routine that
  returns its destination is modelled by the memory it leaves, a null pointer is \<^const>\<open>None\<close>.
  Loops that count are recursive on the count; loops that run to a terminating NUL are partial
  functions, with lemmas that they return on a string.
\<close>

type_synonym mem = "nat \<Rightarrow> u8"

section \<open>Block operations\<close>

fun memccpy_loop :: "mem \<Rightarrow> nat \<Rightarrow> nat \<Rightarrow> u8 \<Rightarrow> nat \<Rightarrow> mem \<times> nat option" where
  "memccpy_loop m q p c 0 = (m, None)"
| "memccpy_loop m q p c (Suc n) =
    (let ch = m p; m' = m(q := ch)
     in if ch = c then (m', Some (Suc q)) else memccpy_loop m' (Suc q) (Suc p) c n)"

definition memccpy :: "mem \<Rightarrow> nat \<Rightarrow> nat \<Rightarrow> int \<Rightarrow> nat \<Rightarrow> mem \<times> nat option" where
  "memccpy m dst src c n = memccpy_loop m dst src (word_of_int c) n"

fun memchr_loop :: "mem \<Rightarrow> nat \<Rightarrow> u8 \<Rightarrow> nat \<Rightarrow> nat option" where
  "memchr_loop m sp c 0 = None"
| "memchr_loop m sp c (Suc n) = (if m sp = c then Some sp else memchr_loop m (Suc sp) c n)"

definition memchr :: "mem \<Rightarrow> nat \<Rightarrow> int \<Rightarrow> nat \<Rightarrow> nat option" where
  "memchr m s c n = memchr_loop m s (word_of_int c) n"

fun memrchr_loop :: "mem \<Rightarrow> nat \<Rightarrow> u8 \<Rightarrow> nat \<Rightarrow> nat option" where
  "memrchr_loop m sp c 0 = None"
| "memrchr_loop m sp c (Suc n) = (if m sp = c then Some sp else memrchr_loop m (sp - 1) c n)"

definition memrchr :: "mem \<Rightarrow> nat \<Rightarrow> int \<Rightarrow> nat \<Rightarrow> nat option" where
  "memrchr m s c n = memrchr_loop m (s + n - 1) (word_of_int c) n"

fun memcmp :: "mem \<Rightarrow> nat \<Rightarrow> nat \<Rightarrow> nat \<Rightarrow> int" where
  "memcmp m c1 c2 0 = 0"
| "memcmp m c1 c2 (Suc n) =
    (let d = uint (m c1) - uint (m c2) in if d \<noteq> 0 then d else memcmp m (Suc c1) (Suc c2) n)"

text \<open>The ascending copy, shared by \<^verbatim>\<open>memcpy\<close> and \<^verbatim>\<open>memmove\<close>, and the descending one.\<close>

fun copy_up :: "mem \<Rightarrow> nat \<Rightarrow> nat \<Rightarrow> nat \<Rightarrow> mem" where
  "copy_up m q p 0 = m"
| "copy_up m q p (Suc n) = copy_up (m(q := m p)) (Suc q) (Suc p) n"

fun copy_down :: "mem \<Rightarrow> nat \<Rightarrow> nat \<Rightarrow> nat \<Rightarrow> mem" where
  "copy_down m q p 0 = m"
| "copy_down m q p (Suc n) = copy_down (m(q - 1 := m (p - 1))) (q - 1) (p - 1) n"

definition memcpy :: "mem \<Rightarrow> nat \<Rightarrow> nat \<Rightarrow> nat \<Rightarrow> mem" where
  "memcpy m dst src n = copy_up m dst src n"

definition memmove :: "mem \<Rightarrow> nat \<Rightarrow> nat \<Rightarrow> nat \<Rightarrow> mem" where
  "memmove m dst src n =
    (if dst < src then copy_up m dst src n else copy_down m (dst + n) (src + n) n)"

fun memset_loop :: "mem \<Rightarrow> nat \<Rightarrow> u8 \<Rightarrow> nat \<Rightarrow> mem" where
  "memset_loop m q c 0 = m"
| "memset_loop m q c (Suc n) = memset_loop (m(q := c)) (Suc q) c n"

definition memset :: "mem \<Rightarrow> nat \<Rightarrow> int \<Rightarrow> nat \<Rightarrow> mem" where
  "memset m dst c n = memset_loop m dst (word_of_int c) n"

fun memswap :: "mem \<Rightarrow> nat \<Rightarrow> nat \<Rightarrow> nat \<Rightarrow> mem" where
  "memswap m p q 0 = m"
| "memswap m p q (Suc n) =
    (let tmp = m p; m1 = m(p := m q); m2 = m1(q := tmp) in memswap m2 (Suc p) (Suc q) n)"

text \<open>The search loop of \<^verbatim>\<open>memmem\<close> for needles of at least two bytes, and the one for one
  byte.  The steps \<open>k\<close> and \<open>l\<close> are 1 or 2.\<close>

function memmem_loop :: "mem \<Rightarrow> nat \<Rightarrow> nat \<Rightarrow> nat \<Rightarrow> nat \<Rightarrow> nat \<Rightarrow> nat \<Rightarrow> nat \<Rightarrow> nat option" where
  "memmem_loop mm y n x m k l j =
    (if j \<le> n - m \<and> 0 < k \<and> 0 < l then
       (if mm (x + 1) \<noteq> mm (y + j + 1) then memmem_loop mm y n x m k l (j + k)
        else if memcmp mm (x + 2) (y + j + 2) (m - 2) = 0 \<and> mm x = mm (y + j) then Some (y + j)
        else memmem_loop mm y n x m k l (j + l))
     else None)"
  by pat_completeness auto
termination by (relation "measure (\<lambda>(mm, y, n, x, m, k, l, j). n - m + 1 - j)") auto

declare memmem_loop.simps [simp del]

fun memmem_one :: "mem \<Rightarrow> nat \<Rightarrow> nat \<Rightarrow> nat \<Rightarrow> nat option" where
  "memmem_one mm y x 0 = None"
| "memmem_one mm y x (Suc n) = (if mm y = mm x then Some y else memmem_one mm (Suc y) x n)"

definition memmem :: "mem \<Rightarrow> nat \<Rightarrow> nat \<Rightarrow> nat \<Rightarrow> nat \<Rightarrow> nat option" where
  "memmem mm haystack n needle m =
    (if m > n \<or> m = 0 \<or> n = 0 then None
     else if m \<noteq> 1 then
       (let (k, l) = (if mm needle = mm (needle + 1) then (2, 1) else (1, 2))
        in memmem_loop mm haystack n needle m k l 0)
     else memmem_one mm haystack needle n)"

section \<open>String operations\<close>

partial_function (option) strlen_loop :: "mem \<Rightarrow> nat \<Rightarrow> nat option" where
  "strlen_loop m ss = (if m ss \<noteq> 0 then strlen_loop m (Suc ss) else Some ss)"

definition strlen :: "mem \<Rightarrow> nat \<Rightarrow> nat option" where
  "strlen m s = (case strlen_loop m s of None \<Rightarrow> None | Some ss \<Rightarrow> Some (ss - s))"

fun strnlen_loop :: "mem \<Rightarrow> nat \<Rightarrow> nat \<Rightarrow> nat" where
  "strnlen_loop m ss 0 = ss"
| "strnlen_loop m ss (Suc maxlen) = (if m ss \<noteq> 0 then strnlen_loop m (Suc ss) maxlen else ss)"

definition strnlen :: "mem \<Rightarrow> nat \<Rightarrow> nat \<Rightarrow> nat" where
  "strnlen m s maxlen = strnlen_loop m s maxlen - s"

partial_function (option) strchr_loop :: "mem \<Rightarrow> nat \<Rightarrow> u8 \<Rightarrow> nat option option" where
  "strchr_loop m s c =
    (if m s \<noteq> c then (if m s = 0 then Some None else strchr_loop m (Suc s) c) else Some (Some s))"

definition strchr :: "mem \<Rightarrow> nat \<Rightarrow> int \<Rightarrow> nat option option" where
  "strchr m s c = strchr_loop m s (word_of_int c)"

partial_function (option) strrchr_loop :: "mem \<Rightarrow> nat \<Rightarrow> u8 \<Rightarrow> nat option \<Rightarrow> nat option option" where
  "strrchr_loop m s c found =
    (if m s \<noteq> 0 then strrchr_loop m (Suc s) c (if m s = c then Some s else found) else Some found)"

definition strrchr :: "mem \<Rightarrow> nat \<Rightarrow> int \<Rightarrow> nat option option" where
  "strrchr m s c = strrchr_loop m s (word_of_int c) None"

partial_function (option) strcmp :: "mem \<Rightarrow> nat \<Rightarrow> nat \<Rightarrow> int option" where
  "strcmp m c1 c2 =
    (let d = uint (m c1) - uint (m c2)
     in if d \<noteq> 0 \<or> m c1 = 0 then Some d else strcmp m (Suc c1) (Suc c2))"

fun strncmp :: "mem \<Rightarrow> nat \<Rightarrow> nat \<Rightarrow> nat \<Rightarrow> int" where
  "strncmp m c1 c2 0 = 0"
| "strncmp m c1 c2 (Suc n) =
    (let d = uint (m c1) - uint (m c2)
     in if d \<noteq> 0 \<or> m c1 = 0 then d else strncmp m (Suc c1) (Suc c2) n)"

partial_function (option) strcpy :: "mem \<Rightarrow> nat \<Rightarrow> nat \<Rightarrow> mem option" where
  "strcpy m q p =
    (let ch = m p; m' = m(q := ch) in if ch \<noteq> 0 then strcpy m' (Suc q) (Suc p) else Some m')"

definition strcat :: "mem \<Rightarrow> nat \<Rightarrow> nat \<Rightarrow> mem option" where
  "strcat m dst src =
    (case strchr m dst 0 of Some (Some q) \<Rightarrow> strcpy m q src | _ \<Rightarrow> None)"

fun strncpy_loop :: "mem \<Rightarrow> nat \<Rightarrow> nat \<Rightarrow> nat \<Rightarrow> mem \<times> nat \<times> nat" where
  "strncpy_loop m q p 0 = (m, q, 0)"
| "strncpy_loop m q p (Suc n) =
    (let ch = m p; m' = m(q := ch)
     in if ch = 0 then (m', Suc q, n) else strncpy_loop m' (Suc q) (Suc p) n)"

definition strncpy :: "mem \<Rightarrow> nat \<Rightarrow> nat \<Rightarrow> nat \<Rightarrow> mem" where
  "strncpy m dst src n = (let (m', q, k) = strncpy_loop m dst src n in memset m' q 0 k)"

fun strncat_loop :: "mem \<Rightarrow> nat \<Rightarrow> nat \<Rightarrow> nat \<Rightarrow> mem" where
  "strncat_loop m q p 0 = m(q := 0)"
| "strncat_loop m q p (Suc n) =
    (let ch = m p; m' = m(q := ch) in if ch = 0 then m' else strncat_loop m' (Suc q) (Suc p) n)"

definition strncat :: "mem \<Rightarrow> nat \<Rightarrow> nat \<Rightarrow> nat \<Rightarrow> mem option" where
  "strncat m dst src n =
    (case strchr m dst 0 of Some (Some q) \<Rightarrow> Some (strncat_loop m q src n) | _ \<Rightarrow> None)"

partial_function (option) strlcat_loop :: "mem \<Rightarrow> nat \<Rightarrow> nat \<Rightarrow> nat \<Rightarrow> nat \<Rightarrow> (mem \<times> nat \<times> nat) option" where
  "strlcat_loop m q p bytes sz =
    (let ch = m p
     in if ch = 0 then Some (m, q, bytes)
        else if bytes + 1 < sz then strlcat_loop (m(q := ch)) (Suc q) (Suc p) (bytes + 1) sz
        else strlcat_loop m q (Suc p) (bytes + 1) sz)"

text \<open>The loop that finds the end of \<^verbatim>\<open>dst\<close> within the size is the one of \<^verbatim>\<open>strnlen\<close>.\<close>

definition strlcat :: "mem \<Rightarrow> nat \<Rightarrow> nat \<Rightarrow> nat \<Rightarrow> (mem \<times> nat) option" where
  "strlcat m dst src sz =
    (let bytes = strnlen m dst sz; q = dst + bytes
     in if bytes = sz then (case strlen m src of None \<Rightarrow> None | Some k \<Rightarrow> Some (m, bytes + k))
        else case strlcat_loop m q src bytes sz of
          None \<Rightarrow> None
        | Some (m', q', b) \<Rightarrow> Some (m'(q' := 0), b))"

text \<open>\<^verbatim>\<open>__strxspn\<close>: the table of the bytes to match and the span.\<close>

partial_function (option) matchmap_loop :: "mem \<Rightarrow> nat \<Rightarrow> (u8 \<Rightarrow> bool) \<Rightarrow> (u8 \<Rightarrow> bool) option" where
  "matchmap_loop m p t = (if m p \<noteq> 0 then matchmap_loop m (Suc p) (t(m p := True)) else Some t)"

partial_function (option) span_loop :: "mem \<Rightarrow> nat \<Rightarrow> (u8 \<Rightarrow> bool) \<Rightarrow> bool \<Rightarrow> nat \<Rightarrow> nat option" where
  "span_loop m s t parity n = (if t (m s) \<noteq> parity then span_loop m (Suc s) t parity (Suc n) else Some n)"

definition strxspn :: "mem \<Rightarrow> nat \<Rightarrow> nat \<Rightarrow> bool \<Rightarrow> nat option" where
  "strxspn m s p parity =
    (case matchmap_loop m p (\<lambda>_. False) of
       None \<Rightarrow> None
     | Some t \<Rightarrow> span_loop m s (t(0 := parity)) parity 0)"

definition strcspn :: "mem \<Rightarrow> nat \<Rightarrow> nat \<Rightarrow> nat option" where
  "strcspn m s reject = strxspn m s reject True"

definition strspn :: "mem \<Rightarrow> nat \<Rightarrow> nat \<Rightarrow> nat option" where
  "strspn m s accept = strxspn m s accept False"

definition strpbrk :: "mem \<Rightarrow> nat \<Rightarrow> nat \<Rightarrow> nat option option" where
  "strpbrk m s accept =
    (case strxspn m s accept True of
       None \<Rightarrow> None
     | Some n \<Rightarrow> Some (if m (s + n) \<noteq> 0 then Some (s + n) else None))"

text \<open>\<^verbatim>\<open>strsep\<close>: the memory, the new \<^verbatim>\<open>*stringp\<close> and the token.\<close>

definition strsep :: "mem \<Rightarrow> nat option \<Rightarrow> nat \<Rightarrow> (mem \<times> nat option \<times> nat option) option" where
  "strsep m stringp delim =
    (case stringp of
       None \<Rightarrow> Some (m, None, None)
     | Some s \<Rightarrow>
         (case strpbrk m s delim of
            None \<Rightarrow> None
          | Some None \<Rightarrow> Some (m, None, Some s)
          | Some (Some e) \<Rightarrow> Some (m(e := 0), Some (Suc e), Some s)))"

definition strstr :: "mem \<Rightarrow> nat \<Rightarrow> nat \<Rightarrow> nat option option" where
  "strstr m haystack needle =
    (case (strlen m haystack, strlen m needle) of
       (Some n, Some k) \<Rightarrow> Some (memmem m haystack n needle k)
     | _ \<Rightarrow> None)"

text \<open>\<^verbatim>\<open>strtok\<close>: the static \<^verbatim>\<open>holder\<close> is passed and returned.\<close>

partial_function (option) strtok_loop :: "mem \<Rightarrow> nat option \<Rightarrow> nat \<Rightarrow> (mem \<times> nat option \<times> nat option) option" where
  "strtok_loop m holder delim =
    (case strsep m holder delim of
       None \<Rightarrow> None
     | Some (m', h', tok) \<Rightarrow>
         (case tok of
            None \<Rightarrow> Some (m', h', None)
          | Some t \<Rightarrow> if m' t = 0 then strtok_loop m' h' delim else Some (m', h', tok)))"

definition strtok :: "mem \<Rightarrow> nat option \<Rightarrow> nat option \<Rightarrow> nat \<Rightarrow> (mem \<times> nat option \<times> nat option) option" where
  "strtok m holder s delim = strtok_loop m (case s of Some _ \<Rightarrow> s | None \<Rightarrow> holder) delim"

section \<open>Contents of memory\<close>

text \<open>A run of bytes and a string with its terminator.\<close>

definition mblock :: "mem \<Rightarrow> nat \<Rightarrow> nat \<Rightarrow> u8 list" where
  "mblock m a n = map (\<lambda>i. m (a + i)) [0..<n]"

fun is_cstr :: "mem \<Rightarrow> nat \<Rightarrow> u8 list \<Rightarrow> bool" where
  "is_cstr m a [] \<longleftrightarrow> m a = 0"
| "is_cstr m a (x # xs) \<longleftrightarrow> m a = x \<and> x \<noteq> 0 \<and> is_cstr m (Suc a) xs"

lemma mblock_simps [simp]:
  "mblock m a 0 = []" "mblock m a (Suc n) = m a # mblock m (Suc a) n" "length (mblock m a n) = n"
  by (simp_all add: mblock_def upt_conv_Cons map_Suc_upt [symmetric] comp_def del: upt_Suc)

lemma mblock_nth [simp]: "i < n \<Longrightarrow> mblock m a n ! i = m (a + i)"
  by (simp add: mblock_def)

lemma mblock_cong: "(\<And>b. a \<le> b \<Longrightarrow> b < a + n \<Longrightarrow> m b = m' b) \<Longrightarrow> mblock m a n = mblock m' a n"
  by (simp add: mblock_def)

lemma mblock_mwrite: "length bs = n \<Longrightarrow> mblock (mwrite m a bs) a n = bs"
  by (auto intro!: nth_equalityI simp: mwrite_def)

lemma is_cstr_iff: "is_cstr m a xs \<longleftrightarrow> mblock m a (length xs) = xs \<and> 0 \<notin> set xs \<and> m (a + length xs) = 0"
  by (induction xs arbitrary: a) auto

lemma is_cstr_cong: "(\<And>b. a \<le> b \<Longrightarrow> b \<le> a + length xs \<Longrightarrow> m b = m' b) \<Longrightarrow> is_cstr m a xs = is_cstr m' a xs"
  unfolding is_cstr_iff using mblock_cong [of a "length xs" m m'] by auto

section \<open>Copying\<close>

lemma copy_up_mwrite: "q \<le> p \<or> p + n \<le> q \<Longrightarrow> copy_up m q p n = mwrite m q (mblock m p n)"
proof (induction n arbitrary: m q p)
  case (Suc n)
  have "copy_up (m(q := m p)) (Suc q) (Suc p) n = mwrite (m(q := m p)) (Suc q) (mblock (m(q := m p)) (Suc p) n)"
    using Suc.prems by (intro Suc.IH) auto
  also have "mblock (m(q := m p)) (Suc p) n = mblock m (Suc p) n"
    using Suc.prems by (intro mblock_cong) auto
  finally show ?case by (simp add: mwrite_Cons del: fun_upd_apply)
qed simp

lemma mblock_snoc: "mblock m a (Suc n) = mblock m a n @ [m (a + n)]"
  by (simp add: mblock_def)

lemma copy_down_mwrite: "p \<le> q \<or> q + n \<le> p \<Longrightarrow> copy_down m (q + n) (p + n) n = mwrite m q (mblock m p n)"
proof (induction n arbitrary: m)
  case (Suc n)
  let ?m = "m(q + n := m (p + n))"
  have "copy_down ?m (q + n) (p + n) n = mwrite ?m q (mblock ?m p n)"
    using Suc.prems by (intro Suc.IH) auto
  also have "mblock ?m p n = mblock m p n" using Suc.prems by (intro mblock_cong) auto
  also have "mwrite ?m q (mblock m p n) = (mwrite m q (mblock m p n))(q + n := m (p + n))"
    by (rule ext) (auto simp: mwrite_def)
  finally show ?case by (simp add: mblock_snoc mwrite_snoc del: mblock_simps(2) fun_upd_apply)
qed simp

lemma memmove_mwrite: "memmove m dst src n = mwrite m dst (mblock m src n)"
  by (auto simp: memmove_def copy_up_mwrite copy_down_mwrite)

lemma memset_loop_mwrite: "memset_loop m q c n = mwrite m q (replicate n c)"
  by (induction n arbitrary: m q) (simp_all add: mwrite_Cons)

lemma memset_mwrite: "memset m dst c n = mwrite m dst (replicate n (word_of_int c))"
  by (simp add: memset_def memset_loop_mwrite)

lemma memswap_swaps:
  assumes "p + n \<le> q \<or> q + n \<le> p"
  shows "memswap m p q n = mwrite (mwrite m p (mblock m q n)) q (mblock m p n)"
  using assms
proof (induction n arbitrary: m p q)
  case (Suc n)
  let ?m = "m(p := m q, q := m p)"
  have "memswap ?m (Suc p) (Suc q) n = mwrite (mwrite ?m (Suc p) (mblock ?m (Suc q) n)) (Suc q) (mblock ?m (Suc p) n)"
    using Suc.prems by (intro Suc.IH) auto
  also have "mblock ?m (Suc q) n = mblock m (Suc q) n" using Suc.prems by (intro mblock_cong) auto
  also have "mblock ?m (Suc p) n = mblock m (Suc p) n" using Suc.prems by (intro mblock_cong) auto
  also have "mwrite (mwrite ?m (Suc p) (mblock m (Suc q) n)) (Suc q) (mblock m (Suc p) n)
    = mwrite (mwrite m p (mblock m q (Suc n))) q (mblock m p (Suc n))"
  proof -
    have "mwrite ((mwrite m' (Suc p) ys)(q := c)) q' zs = mwrite (mwrite (m'(q := c)) (Suc p) ys) q' zs"
      if "length ys = n" for m' :: mem and ys c q' zs
      using Suc.prems that by (rule_tac arg_cong [where f = "\<lambda>m. mwrite m q' zs"]) (auto simp: mwrite_def)
    then show ?thesis by (simp add: mwrite_Cons del: fun_upd_apply)
  qed
  finally show ?case by (simp add: Let_def del: fun_upd_apply)
qed simp

section \<open>Comparing and searching\<close>

lemma memcmp_eq_0: "memcmp m a b n = 0 \<longleftrightarrow> mblock m a n = mblock m b n"
  by (induction n arbitrary: a b) (auto simp: Let_def word_uint_eq_iff)

lemma memcmp_less_0: "memcmp m a b n < 0 \<longleftrightarrow> mblock m a n < mblock m b n"
  by (induction n arbitrary: a b) (auto simp: Let_def word_less_def word_uint_eq_iff)

lemma memchr_loop_spec:
  "memchr_loop m sp c n = (if c \<in> set (mblock m sp n) then Some (sp + length (takeWhile (\<lambda>x. x \<noteq> c) (mblock m sp n))) else None)"
  by (induction n arbitrary: sp) auto

lemma memrchr_loop_spec:
  assumes "n \<le> sp + 1"
  shows "(memrchr_loop m sp c n = None \<longrightarrow> (\<forall>i < n. m (sp - i) \<noteq> c)) \<and>
    (\<forall>a. memrchr_loop m sp c n = Some a \<longrightarrow> (\<exists>i < n. a = sp - i \<and> m a = c \<and> (\<forall>j < i. m (sp - j) \<noteq> c)))"
  using assms
proof (induction n arbitrary: sp)
  case (Suc n)
  show ?case
  proof (cases "m sp = c \<or> n = 0")
    case False
    then have IH: "(memrchr_loop m (sp - 1) c n = None \<longrightarrow> (\<forall>i < n. m (sp - 1 - i) \<noteq> c)) \<and>
      (\<forall>a. memrchr_loop m (sp - 1) c n = Some a \<longrightarrow>
        (\<exists>i < n. a = sp - 1 - i \<and> m a = c \<and> (\<forall>j < i. m (sp - 1 - j) \<noteq> c)))"
      using Suc by (intro Suc.IH) auto
    have "\<exists>i < Suc n. a = sp - i \<and> m a = c \<and> (\<forall>j < i. m (sp - j) \<noteq> c)"
      if "memrchr_loop m (sp - 1) c n = Some a" for a
    proof -
      obtain i where "i < n" "a = sp - 1 - i" "m a = c" "\<forall>j < i. m (sp - 1 - j) \<noteq> c" using IH \<open>memrchr_loop m (sp - 1) c n = Some a\<close> by blast
      then show ?thesis using False by (intro exI [of _ "Suc i"]) (auto simp: less_Suc_eq_0_disj)
    qed
    then show ?thesis using IH False by (auto simp: less_Suc_eq_0_disj)
  qed auto
qed simp

abbreviation occurs_at :: "mem \<Rightarrow> nat \<Rightarrow> nat \<Rightarrow> nat \<Rightarrow> nat \<Rightarrow> bool" where
  "occurs_at mm y x m j \<equiv> mblock mm (y + j) m = mblock mm x m"

lemma occurs_at_split:
  assumes "2 \<le> m"
  shows "occurs_at mm y x m j \<longleftrightarrow>
    mm (y + j) = mm x \<and> mm (y + j + 1) = mm (x + 1) \<and> memcmp mm (x + 2) (y + j + 2) (m - 2) = 0"
proof -
  obtain k where "m = Suc (Suc k)" using assms by (metis add_2_eq_Suc le_Suc_ex)
  then show ?thesis by (auto simp: memcmp_eq_0)
qed

lemma memmem_loop_spec:
  assumes m: "2 \<le> m" and kl: "(k, l) = (if mm x = mm (x + 1) then (2, 1) else (1, 2))"
    and "\<forall>i < j. \<not> occurs_at mm y x m i"
  shows "memmem_loop mm y n x m k l j =
    (if \<exists>i \<le> n - m. occurs_at mm y x m i then Some (y + (LEAST i. occurs_at mm y x m i)) else None)"
  using assms(3)
proof (induction "n - m + 1 - j" arbitrary: j rule: less_induct)
  case less
  let ?O = "occurs_at mm y x m"
  have kl0: "0 < k" "0 < l" using kl by (auto split: if_splits)
  have step: "memmem_loop mm y n x m k l (j + d) =
      (if \<exists>i \<le> n - m. ?O i then Some (y + (LEAST i. ?O i)) else None)"
    if "j \<le> n - m" "0 < d" "\<forall>i < j + d. \<not> ?O i" for d
    using that less.hyps [of "j + d"] by simp
  consider "\<not> j \<le> n - m" | "j \<le> n - m" "mm (x + 1) \<noteq> mm (y + j + 1)"
    | "j \<le> n - m" "mm (x + 1) = mm (y + j + 1)" "?O j"
    | "j \<le> n - m" "mm (x + 1) = mm (y + j + 1)" "\<not> ?O j" by blast
  then show ?case
  proof cases
    case 1
    then have "\<not> (\<exists>i \<le> n - m. ?O i)" using less.prems by (meson le_less_trans not_le_imp_less)
    then show ?thesis using 1 by (subst memmem_loop.simps) simp
  next
    case 2
    have "\<not> ?O i" if ik: "i < j + k" for i
    proof (cases "i < j")
      case False
      then consider "i = j" | "i = Suc j" "mm x = mm (x + 1)" using ik kl by (auto simp: less_Suc_eq split: if_splits)
      then show ?thesis unfolding occurs_at_split [OF m] using 2 by cases auto
    qed (use less.prems in blast)
    then have "memmem_loop mm y n x m k l (j + k) =
      (if \<exists>i \<le> n - m. ?O i then Some (y + (LEAST i. ?O i)) else None)"
      using 2(1) kl0 by (intro step) auto
    moreover have "memmem_loop mm y n x m k l j = memmem_loop mm y n x m k l (j + k)"
      using 2 kl0 by (subst memmem_loop.simps) (simp only: if_True simp_thms)
    ultimately show ?thesis by simp
  next
    case 3
    then have "(LEAST i. ?O i) = j" using less.prems by (intro Least_equality) (meson not_le)+
    moreover have "memmem_loop mm y n x m k l j = Some (y + j)"
      using 3(1,2) kl0 3(3) [unfolded occurs_at_split [OF m]] by (subst memmem_loop.simps) simp
    ultimately show ?thesis using 3(1,3) by auto
  next
    case 4
    have "\<not> ?O i" if ik: "i < j + l" for i
    proof (cases "i < j")
      case False
      then consider "i = j" | "i = Suc j" "mm x \<noteq> mm (x + 1)" using ik kl by (auto simp: less_Suc_eq split: if_splits)
      then show ?thesis using 4 unfolding occurs_at_split [OF m] by cases auto
    qed (use less.prems in blast)
    then have "memmem_loop mm y n x m k l (j + l) =
      (if \<exists>i \<le> n - m. ?O i then Some (y + (LEAST i. ?O i)) else None)"
      using 4(1) kl0 by (intro step) auto
    moreover have "\<not> (memcmp mm (x + 2) (y + j + 2) (m - 2) = 0 \<and> mm x = mm (y + j))"
      using 4 occurs_at_split [OF m, of mm y j x] by auto
    then have "memmem_loop mm y n x m k l j = memmem_loop mm y n x m k l (j + l)"
      using 4(1,2) kl0 by (subst memmem_loop.simps) (simp only: if_True if_False simp_thms)
    ultimately show ?thesis by simp
  qed
qed

lemma memmem_one_spec:
  "memmem_one mm y x n = (if \<exists>i < n. mm (y + i) = mm x then Some (y + (LEAST i. mm (y + i) = mm x)) else None)"
proof (induction n arbitrary: y)
  case (Suc n)
  show ?case
  proof (cases "mm y = mm x")
    case True
    then have "(LEAST i. mm (y + i) = mm x) = 0" by (intro Least_equality) auto
    then show ?thesis using True by auto
  next
    case False
    have "(LEAST i. mm (y + i) = mm x) = Suc (LEAST i. mm (y + Suc i) = mm x)" if "mm (y + Suc i) = mm x" for i
      using False that Least_Suc [of "\<lambda>i. mm (y + i) = mm x" "Suc i"] by simp
    then show ?thesis using False Suc.IH [of "Suc y"] by (auto simp: Ex_less_Suc2)
  qed
qed simp

lemma memmem_spec:
  "memmem mm y n x m =
    (if 0 < m \<and> m \<le> n \<and> (\<exists>i \<le> n - m. occurs_at mm y x m i) then Some (y + (LEAST i. occurs_at mm y x m i))
     else None)"
proof -
  consider "m > n \<or> m = 0 \<or> n = 0" | "m = 1" "1 \<le> n" | "2 \<le> m" "m \<le> n" by linarith
  then show ?thesis
  proof cases
    case 2
    have "i \<le> n - 1 \<longleftrightarrow> i < n" for i using 2 by auto
    then show ?thesis using 2 by (simp add: memmem_def memmem_one_spec)
  next
    case 3
    let ?kl = "if mm x = mm (x + 1) then (2, 1) else (1, 2) :: nat \<times> nat"
    have "memmem_loop mm y n x m (fst ?kl) (snd ?kl) 0 =
      (if \<exists>i \<le> n - m. occurs_at mm y x m i then Some (y + (LEAST i. occurs_at mm y x m i)) else None)"
      using 3(1) by (intro memmem_loop_spec) auto
    then show ?thesis using 3 by (auto simp: memmem_def split: if_splits)
  qed (auto simp: memmem_def)
qed

section \<open>Strings\<close>

lemma is_cstr_unique: "is_cstr m a xs \<Longrightarrow> is_cstr m a ys \<Longrightarrow> xs = ys"
  by (induction xs arbitrary: a ys; case_tac ys) auto

lemma strlen_loop_cstr: "is_cstr m a xs \<Longrightarrow> strlen_loop m a = Some (a + length xs)"
  by (induction xs arbitrary: a) (subst strlen_loop.simps, simp)+

lemma strlen_cstr: "is_cstr m a xs \<Longrightarrow> strlen m a = Some (length xs)"
  by (simp add: strlen_def strlen_loop_cstr)

lemma strnlen_loop_ge: "a \<le> strnlen_loop m a k"
  by (induction k arbitrary: a) (auto intro: Suc_leD)

lemma strnlen_loop_cstr: "is_cstr m a xs \<Longrightarrow> strnlen_loop m a k = a + min k (length xs)"
proof (induction k arbitrary: a xs)
  case (Suc k)
  then show ?case by (cases xs) auto
qed simp

lemma strnlen_cstr: "is_cstr m a xs \<Longrightarrow> strnlen m a k = min k (length xs)"
  by (simp add: strnlen_def strnlen_loop_cstr)

lemma strchr_loop_cstr:
  "is_cstr m a xs \<Longrightarrow> strchr_loop m a c =
    Some (if c = 0 \<or> c \<in> set xs then Some (a + length (takeWhile (\<lambda>x. x \<noteq> c) xs)) else None)"
proof (induction xs arbitrary: a)
  case Nil
  then show ?case by (subst strchr_loop.simps) simp
next
  case (Cons x xs)
  then show ?case by (subst strchr_loop.simps) auto
qed

lemma strchr_end: "is_cstr m a xs \<Longrightarrow> strchr m a 0 = Some (Some (a + length xs))"
proof -
  assume C: "is_cstr m a xs"
  then have "0 \<notin> set xs" by (simp add: is_cstr_iff)
  then have "takeWhile (\<lambda>x. x \<noteq> 0) xs = xs" by (auto simp: takeWhile_eq_all_conv)
  then have "length (takeWhile (\<lambda>x. x \<noteq> 0) xs) = length xs" by (simp only:)
  then show ?thesis using strchr_loop_cstr [OF C, of 0] by (simp add: strchr_def)
qed

lemma strrchr_loop_cstr:
  "is_cstr m a xs \<Longrightarrow> \<exists>r. strrchr_loop m a c f = Some r \<and> (if c \<in> set xs
    then \<exists>us vs. xs = us @ c # vs \<and> c \<notin> set vs \<and> r = Some (a + length us) else r = f)"
proof (induction xs arbitrary: a f)
  case Nil
  then show ?case by (subst strrchr_loop.simps) simp
next
  case (Cons x xs)
  let ?f = "if x = c then Some a else f"
  from Cons obtain r where r: "strrchr_loop m (Suc a) c ?f = Some r"
    and R: "if c \<in> set xs then \<exists>us vs. xs = us @ c # vs \<and> c \<notin> set vs \<and> r = Some (Suc a + length us) else r = ?f"
    by (auto dest!: Cons.IH)
  have "strrchr_loop m a c f = Some r" using r Cons.prems by (subst strrchr_loop.simps) simp
  moreover have "if c \<in> set (x # xs) then \<exists>us vs. x # xs = us @ c # vs \<and> c \<notin> set vs \<and> r = Some (a + length us) else r = f"
  proof (cases "c \<in> set xs")
    case True
    then obtain us vs where "xs = us @ c # vs" "c \<notin> set vs" "r = Some (Suc a + length us)" using R by auto
    then have "x # xs = (x # us) @ c # vs \<and> c \<notin> set vs \<and> r = Some (a + length (x # us))" by simp
    then show ?thesis using True by (metis list.set_intros(2))
  next
    case False
    then show ?thesis using R by (cases "x = c") (auto intro: exI [of _ "[]"])
  qed
  ultimately show ?case by blast
qed

lemma strcmp_cstr:
  "is_cstr m a xs \<Longrightarrow> is_cstr m b ys \<Longrightarrow>
    \<exists>d. strcmp m a b = Some d \<and> (d = 0 \<longleftrightarrow> xs = ys) \<and> (d < 0 \<longleftrightarrow> xs < ys)"
proof (induction xs arbitrary: a b ys)
  case Nil
  then show ?case by (cases ys; subst strcmp.simps) (auto simp: Let_def word_uint_eq_iff less_le)
next
  case (Cons x xs)
  show ?case
  proof (cases ys)
    case Nil
    have "0 < uint x" using Cons.prems(1) by (auto simp: less_le word_uint_eq_iff)
    then show ?thesis using Cons.prems Nil by (subst strcmp.simps) (auto simp: Let_def)
  next
    case (Cons y ys')
    then show ?thesis using Cons.prems Cons.IH [of "Suc a" "Suc b" ys']
      by (subst strcmp.simps) (auto simp: Let_def word_uint_eq_iff word_less_def)
  qed
qed

lemma strncmp_cstr:
  "is_cstr m a xs \<Longrightarrow> is_cstr m b ys \<Longrightarrow>
    (strncmp m a b n = 0 \<longleftrightarrow> take n xs = take n ys) \<and> (strncmp m a b n < 0 \<longleftrightarrow> take n xs < take n ys)"
proof (induction n arbitrary: a b xs ys)
  case (Suc n)
  show ?case
  proof (cases xs; cases ys)
    fix x xs' assume xs: "xs = x # xs'" and ys: "ys = []"
    have "0 < uint x" using Suc.prems(1) xs by (auto simp: less_le word_uint_eq_iff)
    then show ?thesis using Suc.prems xs ys by (auto simp: Let_def)
  next
    fix y ys' assume xs: "xs = []" and ys: "ys = y # ys'"
    have "0 < uint y" using Suc.prems(2) ys by (auto simp: less_le word_uint_eq_iff)
    then show ?thesis using Suc.prems xs ys by (auto simp: Let_def)
  next
    fix x xs' y ys' assume "xs = x # xs'" and "ys = y # ys'"
    then show ?thesis using Suc.prems Suc.IH [of "Suc a" xs' "Suc b" ys']
      by (auto simp: Let_def word_uint_eq_iff word_less_def)
  qed (use Suc.prems in auto)
qed simp

lemma strcpy_mwrite:
  "is_cstr m p xs \<Longrightarrow> q \<le> p \<or> p + length xs < q \<Longrightarrow> strcpy m q p = Some (mwrite m q (xs @ [0]))"
proof (induction xs arbitrary: m p q)
  case Nil
  then show ?case by (subst strcpy.simps) (simp add: mwrite_Cons Let_def del: fun_upd_apply)
next
  case (Cons x xs)
  let ?m = "m(q := x)"
  have "is_cstr ?m (Suc p) xs = is_cstr m (Suc p) xs" using Cons.prems by (intro is_cstr_cong) auto
  then have "strcpy ?m (Suc q) (Suc p) = Some (mwrite ?m (Suc q) (xs @ [0]))"
    using Cons.prems by (intro Cons.IH) (auto simp del: fun_upd_apply)
  then show ?case using Cons.prems by (subst strcpy.simps) (simp add: mwrite_Cons Let_def del: fun_upd_apply)
qed

lemma is_cstr_mwrite: "0 \<notin> set xs \<Longrightarrow> is_cstr (mwrite m q (xs @ [0])) q xs"
  by (auto simp: is_cstr_iff mwrite_def nth_append intro!: nth_equalityI)

lemma mwrite_same: "mwrite m a (mblock m a n) = m"
  by (rule ext) (auto simp: mwrite_def)

text \<open>Appending at the end of a string keeps the string in front.\<close>

lemma is_cstr_extend:
  assumes "is_cstr m a xs" and "0 \<notin> set ys"
  shows "is_cstr (mwrite m (a + length xs) (ys @ [0])) a (xs @ ys)"
proof -
  have "mwrite m a xs = m" using assms(1) mwrite_same [of m a "length xs"] by (simp add: is_cstr_iff)
  then have "mwrite m (a + length xs) (ys @ [0]) = mwrite m a ((xs @ ys) @ [0])"
    by (metis append_assoc mwrite_append)
  then show ?thesis using assms is_cstr_mwrite [of "xs @ ys" m a] by (auto simp: is_cstr_iff)
qed

lemma strncpy_loop_spec:
  assumes "is_cstr m p xs" and "q \<le> p \<or> p + length xs < q"
  shows "strncpy_loop m q p n =
    (mwrite m q (take n (xs @ [0])), q + min n (length xs + 1), n - (length xs + 1))"
  using assms
proof (induction n arbitrary: m p q xs)
  case (Suc n)
  show ?case
  proof (cases xs)
    case Nil
    then show ?thesis using Suc.prems by (simp add: mwrite_Cons Let_def del: fun_upd_apply)
  next
    case (Cons x xs')
    let ?m = "m(q := x)"
    have "is_cstr ?m (Suc p) xs' = is_cstr m (Suc p) xs'" using Suc.prems Cons by (intro is_cstr_cong) auto
    then have "strncpy_loop ?m (Suc q) (Suc p) n =
      (mwrite ?m (Suc q) (take n (xs' @ [0])), Suc q + min n (length xs' + 1), n - (length xs' + 1))"
      using Suc.prems Cons by (intro Suc.IH) (auto simp del: fun_upd_apply)
    then show ?thesis using Suc.prems Cons by (simp add: mwrite_Cons Let_def del: fun_upd_apply)
  qed
qed simp

lemma strncpy_mwrite:
  assumes "is_cstr m src xs" and "dst \<le> src \<or> src + length xs < dst"
  shows "strncpy m dst src n = mwrite m dst (take n (xs @ replicate n 0))"
proof -
  have l: "dst + min n (length xs + 1) = dst + length (take n (xs @ [0]))" by simp
  have "take n (xs @ [0]) @ replicate (n - (length xs + 1)) 0 = take n (xs @ replicate n (0 :: u8))"
    by (cases "n - length xs") (auto simp: take_Cons' replicate_append_same [symmetric] min_def)
  then show ?thesis
    unfolding strncpy_def strncpy_loop_spec [OF assms] prod.case memset_mwrite word_of_int_0
      l mwrite_append Let_def by simp
qed

lemma strncat_loop_mwrite:
  assumes "is_cstr m p xs" and "q \<le> p \<or> p + length xs < q"
  shows "strncat_loop m q p n = mwrite m q (take n xs @ [0])"
  using assms
proof (induction n arbitrary: m p q xs)
  case 0
  then show ?case by (simp add: mwrite_Cons)
next
  case (Suc n)
  show ?case
  proof (cases xs)
    case Nil
    then show ?thesis using Suc.prems by (simp add: mwrite_Cons Let_def del: fun_upd_apply)
  next
    case (Cons x xs')
    let ?m = "m(q := x)"
    have "is_cstr ?m (Suc p) xs' = is_cstr m (Suc p) xs'" using Suc.prems Cons by (intro is_cstr_cong) auto
    then have "strncat_loop ?m (Suc q) (Suc p) n = mwrite ?m (Suc q) (take n xs' @ [0])"
      using Suc.prems Cons by (intro Suc.IH) (auto simp del: fun_upd_apply)
    then show ?thesis using Suc.prems Cons by (simp add: mwrite_Cons Let_def del: fun_upd_apply)
  qed
qed

lemma strlcat_loop_spec:
  assumes "is_cstr m p xs" and "q \<le> p \<or> p + length xs < q"
  shows "strlcat_loop m q p bytes sz =
    Some (mwrite m q (take (sz - 1 - bytes) xs), q + min (sz - 1 - bytes) (length xs), bytes + length xs)"
  using assms
proof (induction xs arbitrary: m p q bytes)
  case Nil
  then show ?case by (subst strlcat_loop.simps) simp
next
  case (Cons x xs)
  show ?case
  proof (cases "bytes + 1 < sz")
    case True
    let ?m = "m(q := x)"
    have "is_cstr ?m (Suc p) xs = is_cstr m (Suc p) xs" using Cons.prems by (intro is_cstr_cong) auto
    then have "strlcat_loop ?m (Suc q) (Suc p) (bytes + 1) sz =
      Some (mwrite ?m (Suc q) (take (sz - 1 - (bytes + 1)) xs), Suc q + min (sz - 1 - (bytes + 1)) (length xs), bytes + 1 + length xs)"
      using Cons.prems by (intro Cons.IH) (auto simp del: fun_upd_apply)
    moreover obtain k where "sz - 1 - bytes = Suc k" "sz - 1 - (bytes + 1) = k" using True
      by (metis Suc_diff_Suc add.commute diff_diff_left less_diff_conv plus_1_eq_Suc)
    ultimately show ?thesis using Cons.prems True
      by (subst strlcat_loop.simps) (simp add: mwrite_Cons Let_def del: fun_upd_apply)
  next
    case False
    then have "strlcat_loop m q (Suc p) (bytes + 1) sz = Some (m, q, bytes + 1 + length xs)"
      using Cons.prems Cons.IH [of m "Suc p" q "bytes + 1"] by auto
    then show ?thesis using Cons.prems False by (subst strlcat_loop.simps) (simp add: Let_def)
  qed
qed

section \<open>Spans and tokens\<close>

lemma matchmap_loop_cstr: "is_cstr m p ds \<Longrightarrow> matchmap_loop m p t = Some (\<lambda>c. c \<in> set ds \<or> t c)"
proof (induction ds arbitrary: p t)
  case Nil
  then show ?case by (subst matchmap_loop.simps) simp
next
  case (Cons d ds)
  then show ?case by (subst matchmap_loop.simps) (auto simp: fun_eq_iff)
qed

lemma span_loop_cstr:
  "is_cstr m a xs \<Longrightarrow> t 0 = b \<Longrightarrow> span_loop m a t b n = Some (n + length (takeWhile (\<lambda>c. t c \<noteq> b) xs))"
proof (induction xs arbitrary: a n)
  case Nil
  then show ?case by (subst span_loop.simps) simp
next
  case (Cons x xs)
  then show ?case by (subst span_loop.simps) auto
qed

lemma takeWhile_cong_set: "(\<And>x. x \<in> set xs \<Longrightarrow> P x = Q x) \<Longrightarrow> takeWhile P xs = takeWhile Q xs"
  by (rule takeWhile_cong) auto

lemma strxspn_cstr:
  assumes "is_cstr m a xs" and "is_cstr m p ds"
  shows "strxspn m a p b = Some (length (takeWhile (\<lambda>c. (c \<in> set ds) \<noteq> b) xs))"
proof -
  have "0 \<notin> set xs" using assms(1) by (simp add: is_cstr_iff)
  then have "takeWhile (\<lambda>c. ((\<lambda>c. c \<in> set ds)(0 := b)) c \<noteq> b) xs = takeWhile (\<lambda>c. (c \<in> set ds) \<noteq> b) xs"
    by (intro takeWhile_cong_set) auto
  then show ?thesis using assms span_loop_cstr [OF assms(1), of "(\<lambda>c. c \<in> set ds)(0 := b)" b 0]
    by (simp add: strxspn_def matchmap_loop_cstr)
qed

lemma is_cstr_drop: "is_cstr m a xs \<Longrightarrow> k \<le> length xs \<Longrightarrow> is_cstr m (a + k) (drop k xs)"
proof (induction xs arbitrary: a k)
  case (Cons x xs)
  then show ?case using Cons.IH [of "Suc a" "k - 1"] by (cases k) auto
qed simp

lemma is_cstr_cut: "is_cstr m a xs \<Longrightarrow> k \<le> length xs \<Longrightarrow> is_cstr (m(a + k := 0)) a (take k xs)"
proof (induction xs arbitrary: a k)
  case (Cons x xs)
  then show ?case using Cons.IH [of "Suc a" "k - 1"]
    by (cases k) (auto simp del: fun_upd_apply simp: fun_upd_same fun_upd_other)
qed simp

lemma strpbrk_cstr:
  assumes "is_cstr m a xs" and "is_cstr m d ds"
  shows "strpbrk m a d =
    Some (if \<exists>x \<in> set xs. x \<in> set ds then Some (a + length (takeWhile (\<lambda>c. c \<notin> set ds) xs)) else None)"
proof -
  let ?n = "length (takeWhile (\<lambda>c. c \<notin> set ds) xs)"
  have "is_cstr m (a + ?n) (drop ?n xs)" using assms(1) by (intro is_cstr_drop) (simp_all add: length_takeWhile_le)
  moreover have "drop ?n xs = dropWhile (\<lambda>c. c \<notin> set ds) xs" by (metis dropWhile_eq_drop)
  ultimately have "is_cstr m (a + ?n) (dropWhile (\<lambda>c. c \<notin> set ds) xs)" by simp
  then have "m (a + ?n) = 0 \<longleftrightarrow> dropWhile (\<lambda>c. c \<notin> set ds) xs = []"
    by (cases "dropWhile (\<lambda>c. c \<notin> set ds) xs") auto
  then have "m (a + ?n) = 0 \<longleftrightarrow> (\<forall>x \<in> set xs. x \<notin> set ds)" by (simp add: dropWhile_eq_Nil_conv)
  then show ?thesis using strxspn_cstr [OF assms, of True] by (auto simp: strpbrk_def)
qed

lemma strsep_cstr:
  assumes "is_cstr m a xs" and "is_cstr m d ds"
  shows "strsep m (Some a) d =
    (let e = a + length (takeWhile (\<lambda>c. c \<notin> set ds) xs)
     in if \<exists>x \<in> set xs. x \<in> set ds then Some (m(e := 0), Some (Suc e), Some a) else Some (m, None, Some a))"
  by (simp add: strsep_def strpbrk_cstr [OF assms] Let_def)

lemma strtok_loop_None: "strtok_loop m None d = Some (m, None, None)"
  by (subst strtok_loop.simps) (simp add: strsep_def)

text \<open>
  The outcome of looking for a token in a string: where the token starts, what it is and what is
  left, with nothing written outside the string.
\<close>

definition token_outcome :: "mem \<Rightarrow> nat \<Rightarrow> u8 list \<Rightarrow> u8 list \<Rightarrow> mem \<Rightarrow> nat option \<Rightarrow> nat option \<Rightarrow> bool" where
  "token_outcome m a xs ds m' h' tok \<longleftrightarrow>
    (let k = length (takeWhile (\<lambda>c. c \<in> set ds) xs); body = dropWhile (\<lambda>c. c \<in> set ds) xs;
         t = takeWhile (\<lambda>c. c \<notin> set ds) body; r = dropWhile (\<lambda>c. c \<notin> set ds) body;
         rest = a + k + length t + 1
     in tok = (if body = [] then None else Some (a + k)) \<and> (body = [] \<or> is_cstr m' (a + k) t) \<and>
        h' = (if r = [] then None else Some rest) \<and> (r = [] \<or> is_cstr m' rest (tl r)) \<and>
        (\<forall>b. b < a \<or> a + length xs \<le> b \<longrightarrow> m' b = m b))"

lemma token_outcome_skip:
  assumes "token_outcome (m(a := 0)) (Suc a) xs ds m' h' tok" and "x \<in> set ds"
  shows "token_outcome m a (x # xs) ds m' h' tok"
proof -
  have k: "length (takeWhile (\<lambda>c. c \<in> set ds) (x # xs)) = Suc (length (takeWhile (\<lambda>c. c \<in> set ds) xs))"
    and b: "dropWhile (\<lambda>c. c \<in> set ds) (x # xs) = dropWhile (\<lambda>c. c \<in> set ds) xs" using assms(2) by simp_all
  have "(\<forall>b. b < a \<or> a + length (x # xs) \<le> b \<longrightarrow> m' b = m b)"
    using assms(1) by (auto simp: token_outcome_def Let_def)
  then show ?thesis using assms(1) unfolding token_outcome_def Let_def k b add_Suc add_Suc_right by blast
qed

lemma length_takeWhile_less: "\<exists>x \<in> set xs. \<not> P x \<Longrightarrow> length (takeWhile P xs) < length xs"
  by (induction xs) auto

lemma token_outcome_found:
  assumes C: "is_cstr m a (x # xs)" and x: "x \<notin> set ds" and z: "\<exists>z \<in> set xs. z \<in> set ds"
    and e: "e = a + length (takeWhile (\<lambda>c. c \<notin> set ds) (x # xs))"
  shows "token_outcome m a (x # xs) ds (m(e := 0)) (Some (Suc e)) (Some a)"
proof -
  let ?n = "length (takeWhile (\<lambda>c. c \<notin> set ds) (x # xs))"
  have n: "?n < length (x # xs)" using z by (intro length_takeWhile_less) auto
  have tk: "take ?n (x # xs) = takeWhile (\<lambda>c. c \<notin> set ds) (x # xs)" by (metis takeWhile_eq_take)
  have dr: "drop ?n (x # xs) = dropWhile (\<lambda>c. c \<notin> set ds) (x # xs)" by (metis dropWhile_eq_drop)
  have "is_cstr (m(e := 0)) a (takeWhile (\<lambda>c. c \<notin> set ds) (x # xs))"
    using is_cstr_cut [OF C, of ?n] n e tk by (simp del: fun_upd_apply)
  moreover have "is_cstr (m(e := 0)) (Suc e) (tl (dropWhile (\<lambda>c. c \<notin> set ds) (x # xs)))"
  proof -
    have "is_cstr m (Suc e) (drop (Suc ?n) (x # xs))" using is_cstr_drop [OF C, of "Suc ?n"] n e by simp
    moreover have "drop (Suc ?n) (x # xs) = tl (dropWhile (\<lambda>c. c \<notin> set ds) (x # xs))"
      by (metis dr drop_Suc tl_drop)
    moreover have "is_cstr (m(e := 0)) (Suc e) ys = is_cstr m (Suc e) ys" for ys by (rule is_cstr_cong) simp
    ultimately show ?thesis by simp
  qed
  moreover have "dropWhile (\<lambda>c. c \<notin> set ds) (x # xs) \<noteq> []" using z by auto
  ultimately show ?thesis using x e n by (simp add: token_outcome_def Let_def del: fun_upd_apply) auto
qed

lemma strtok_loop_cstr:
  assumes "is_cstr m a xs" and "is_cstr m d ds" and "d + length ds < a \<or> a + length xs < d"
  shows "\<exists>m' h' tok. strtok_loop m (Some a) d = Some (m', h', tok) \<and> token_outcome m a xs ds m' h' tok"
  using assms
proof (induction xs arbitrary: m a)
  case Nil
  then have "strtok_loop m (Some a) d = Some (m, None, None)"
    by (subst strtok_loop.simps) (simp add: strsep_cstr [OF Nil.prems(1,2)] strtok_loop_None)
  then show ?case by (auto simp: token_outcome_def)
next
  case (Cons x xs)
  note sep = strsep_cstr [OF Cons.prems(1,2)]
  consider "x \<in> set ds" | "x \<notin> set ds" "\<exists>z \<in> set xs. z \<in> set ds" | "x \<notin> set ds" "\<forall>z \<in> set xs. z \<notin> set ds"
    by blast
  then show ?case
  proof cases
    case 1
    let ?m = "m(a := 0)"
    have "is_cstr ?m (Suc a) xs" using Cons.prems(1) is_cstr_cong [of "Suc a" xs ?m m] by simp
    moreover have "is_cstr ?m d ds" using Cons.prems(2,3) is_cstr_cong [of d ds ?m m] by auto
    ultimately obtain m' h' tok where "strtok_loop ?m (Some (Suc a)) d = Some (m', h', tok)"
      and t: "token_outcome ?m (Suc a) xs ds m' h' tok" using Cons.IH [of ?m "Suc a"] Cons.prems(3) by (auto simp del: fun_upd_apply)
    then have "strtok_loop m (Some a) d = Some (m', h', tok)"
      using 1 by (subst strtok_loop.simps) (simp add: sep Let_def)
    then show ?thesis using token_outcome_skip [OF t 1] by blast
  next
    case 2
    have "m a \<noteq> 0" using Cons.prems(1) by simp
    then show ?thesis using token_outcome_found [OF Cons.prems(1) 2 refl] 2
      by (subst strtok_loop.simps) (auto simp: sep Let_def)
  next
    case 3
    have "m a \<noteq> 0" using Cons.prems(1) by simp
    moreover have "token_outcome m a (x # xs) ds m None (Some a)"
      using 3 Cons.prems(1) by (auto simp: token_outcome_def Let_def dropWhile_eq_Nil_conv takeWhile_eq_all_conv [THEN iffD2])
    ultimately show ?thesis using 3 by (subst strtok_loop.simps) (auto simp: sep Let_def)
  qed
qed

section \<open>Bounded concatenation\<close>

lemma strlcat_cstr:
  assumes x: "is_cstr m dst xs" and y: "is_cstr m src ys"
    and d: "dst + length xs < src \<or> src + length ys < dst" and sz: "length xs < sz"
  shows "strlcat m dst src sz =
    Some (mwrite m (dst + length xs) (take (sz - 1 - length xs) ys @ [0]), length xs + length ys)"
proof -
  have "strnlen m dst sz = length xs" using strnlen_cstr [OF x, of sz] sz by simp
  moreover have "strlcat_loop m (dst + length xs) src (length xs) sz =
    Some (mwrite m (dst + length xs) (take (sz - 1 - length xs) ys),
      dst + length xs + min (sz - 1 - length xs) (length ys), length xs + length ys)"
    using d by (intro strlcat_loop_spec [OF y]) auto
  ultimately show ?thesis using sz by (simp add: strlcat_def Let_def mwrite_snoc min.commute del: fun_upd_apply)
qed

section \<open>Properties\<close>

text \<open>
  C37: \<^verbatim>\<open>memmove\<close> leaves at the destination the bytes the source had before the call, however the two
  areas overlap, and changes nothing else; \<^verbatim>\<open>memcpy\<close> does the same unless the destination starts
  inside the source.
\<close>

theorem memmove_overlap:
  "(\<forall>i < n. memmove m dst src n (dst + i) = m (src + i)) \<and>
   (\<forall>b. b < dst \<or> dst + n \<le> b \<longrightarrow> memmove m dst src n b = m b) \<and>
   (dst \<le> src \<or> src + n \<le> dst \<longrightarrow> memcpy m dst src n = memmove m dst src n)"
  by (auto simp: memmove_mwrite memcpy_def copy_up_mwrite mwrite_out mwrite_in)

theorem memmove_overlap_witness:
  "memmove (\<lambda>a. word_of_nat a) 11 10 3 (11 + 2) = (\<lambda>a. word_of_nat a) (10 + 2)"
  using conjunct1 [OF memmove_overlap [of 3 "\<lambda>a. word_of_nat a" 11 10], rule_format, of 2] by simp

text \<open>
  On two terminated strings \<^verbatim>\<open>strcmp\<close> returns, 0 exactly when they are equal and a negative value
  exactly when the first precedes the second in the lexicographic order of unsigned bytes;
  \<^verbatim>\<open>strncmp\<close> orders their prefixes in the same way and \<^verbatim>\<open>memcmp\<close> orders blocks.
\<close>

theorem strcmp_orders:
  assumes "is_cstr m a xs" and "is_cstr m b ys"
  shows "(\<exists>d. strcmp m a b = Some d \<and> (d = 0 \<longleftrightarrow> xs = ys) \<and> (d < 0 \<longleftrightarrow> xs < ys)) \<and>
    (strncmp m a b n = 0 \<longleftrightarrow> take n xs = take n ys) \<and> (strncmp m a b n < 0 \<longleftrightarrow> take n xs < take n ys) \<and>
    (memcmp m a b k = 0 \<longleftrightarrow> mblock m a k = mblock m b k) \<and> (memcmp m a b k < 0 \<longleftrightarrow> mblock m a k < mblock m b k)"
  using strcmp_cstr [OF assms] strncmp_cstr [OF assms, of n] memcmp_eq_0 memcmp_less_0 by blast

theorem strcmp_orders_witness:
  "\<exists>d. strcmp (\<lambda>a. if a = 0 then 97 else 0) 0 1 = Some d \<and> (d = 0 \<longleftrightarrow> [97] = ([] :: u8 list)) \<and>
    (d < 0 \<longleftrightarrow> [97] < ([] :: u8 list))"
  using strcmp_orders [of "\<lambda>a. if a = 0 then 97 else 0" 0 "[97]" 1 "[]"] by simp

text \<open>
  \<^verbatim>\<open>memmem\<close>, with its jumps of one or two bytes, finds the first occurrence: it returns the
  address of the least offset at which the needle occurs, and a null pointer exactly when the
  needle is empty or occurs nowhere in the haystack.
\<close>

theorem memmem_first_occurrence:
  "(case memmem mm y n x m of
      Some p \<Rightarrow> \<exists>j. p = y + j \<and> j + m \<le> n \<and> mblock mm (y + j) m = mblock mm x m \<and>
        (\<forall>i < j. mblock mm (y + i) m \<noteq> mblock mm x m)
    | None \<Rightarrow> m = 0 \<or> (\<forall>j. j + m \<le> n \<longrightarrow> mblock mm (y + j) m \<noteq> mblock mm x m))"
proof (cases "0 < m \<and> m \<le> n \<and> (\<exists>i \<le> n - m. occurs_at mm y x m i)")
  case True
  then obtain i where i: "i \<le> n - m" "occurs_at mm y x m i" by blast
  let ?j = "LEAST i. occurs_at mm y x m i"
  have "occurs_at mm y x m ?j" using i(2) by (rule LeastI)
  moreover have "?j \<le> i" using i(2) by (rule Least_le)
  moreover have "\<forall>i < ?j. \<not> occurs_at mm y x m i" using not_less_Least by blast
  ultimately show ?thesis using True i by (auto simp: memmem_spec)
next
  case False
  then show ?thesis by (auto simp: memmem_spec)
qed

theorem memmem_first_occurrence_witness:
  "(case memmem (\<lambda>a. word_of_nat (a mod 3)) 0 9 2 2 of
      Some p \<Rightarrow> \<exists>j. p = 0 + j \<and> j + 2 \<le> 9 \<and>
        mblock (\<lambda>a. word_of_nat (a mod 3)) (0 + j) 2 = mblock (\<lambda>a. word_of_nat (a mod 3)) 2 2 \<and>
        (\<forall>i < j. mblock (\<lambda>a. word_of_nat (a mod 3)) (0 + i) 2 \<noteq> mblock (\<lambda>a. word_of_nat (a mod 3)) 2 2)
    | None \<Rightarrow> 2 = (0 :: nat) \<or>
        (\<forall>j. j + 2 \<le> 9 \<longrightarrow> mblock (\<lambda>a. word_of_nat (a mod 3)) (0 + j) 2 \<noteq> mblock (\<lambda>a. word_of_nat (a mod 3)) 2 2))"
  by (rule memmem_first_occurrence)

text \<open>
  C38: On terminated strings \<^verbatim>\<open>strtok\<close> returns: it skips the leading delimiters, answers a null
  pointer exactly when nothing else is left, and otherwise the next maximal run of other bytes as a
  terminated string, keeps the rest of the string for the next call and writes only inside it.
\<close>

theorem strtok_next_token:
  assumes "is_cstr m a xs" and "is_cstr m d ds" and "d + length ds < a \<or> a + length xs < d"
  shows "\<exists>m' h' tok. strtok m h (Some a) d = Some (m', h', tok) \<and> strtok m (Some a) None d = Some (m', h', tok) \<and>
    token_outcome m a xs ds m' h' tok"
  using strtok_loop_cstr [OF assms] by (simp add: strtok_def)

theorem strtok_next_token_witness:
  "\<exists>m' h' tok. strtok ((\<lambda>_. 0)(0 := 32, 5 := 32, 6 := 97)) None (Some 5) 0 = Some (m', h', tok) \<and>
    strtok ((\<lambda>_. 0)(0 := 32, 5 := 32, 6 := 97)) (Some 5) None 0 = Some (m', h', tok) \<and>
    token_outcome ((\<lambda>_. 0)(0 := 32, 5 := 32, 6 := 97)) 5 [32, 97] [32] m' h' tok"
  by (rule strtok_next_token) simp_all

text \<open>
  \<^verbatim>\<open>strlcat\<close> on a destination that holds a string within the size leaves there the
  concatenation cut to one byte less than the size, terminated, writes nothing outside the size
  and returns the length of the whole concatenation; \<^verbatim>\<open>strncpy\<close> writes exactly its count of bytes,
  the string cut or padded with NUL.
\<close>

theorem strlcat_bounded:
  assumes "is_cstr m dst xs" and "is_cstr m src ys" and "dst + length xs < src \<or> src + length ys < dst"
    and "length xs < sz"
  shows "(\<exists>m'. strlcat m dst src sz = Some (m', length xs + length ys) \<and>
      is_cstr m' dst (take (sz - 1) (xs @ ys)) \<and> (\<forall>b. b < dst \<or> dst + sz \<le> b \<longrightarrow> m' b = m b)) \<and>
    strncpy m dst src n = mwrite m dst (take n (ys @ replicate n 0))"
proof -
  let ?ys = "take (sz - 1 - length xs) ys"
  have "0 \<notin> set ?ys" using assms(2) by (auto simp: is_cstr_iff dest: in_set_takeD)
  then have "is_cstr (mwrite m (dst + length xs) (?ys @ [0])) dst (xs @ ?ys)" by (rule is_cstr_extend [OF assms(1)])
  moreover have "take (sz - 1) (xs @ ys) = xs @ ?ys" using assms(4) by simp
  moreover have "mwrite m (dst + length xs) (?ys @ [0]) b = m b" if "b < dst \<or> dst + sz \<le> b" for b
    using that assms(4) by (intro mwrite_out) auto
  ultimately show ?thesis using strlcat_cstr [OF assms] strncpy_mwrite [OF assms(2), of dst n] assms(3) by auto
qed

theorem strlcat_bounded_witness:
  "(\<exists>m'. strlcat ((\<lambda>_. 0)(0 := 97, 9 := 98)) 0 9 8 = Some (m', length [97 :: u8] + length [98 :: u8]) \<and>
      is_cstr m' 0 (take (8 - 1) ([97] @ [98])) \<and>
      (\<forall>b. b < 0 \<or> 0 + 8 \<le> b \<longrightarrow> m' b = ((\<lambda>_. 0)(0 := 97, 9 := 98)) b)) \<and>
    strncpy ((\<lambda>_. 0)(0 := 97, 9 := 98)) 0 9 4 = mwrite ((\<lambda>_. 0)(0 := 97, 9 := 98)) 0 (take 4 ([98] @ replicate 4 0))"
  by (rule strlcat_bounded) simp_all

end
