(* ===== verification/Print.thy ===== *)
theory Print
  imports Prelude
begin

text \<open>
  Formatted output and number parsing: \<^verbatim>\<open>lib/doprnt.c\<close>, \<^verbatim>\<open>lib/sprintf.c\<close>, \<^verbatim>\<open>lib/printf.c\<close> and
  \<^verbatim>\<open>lib/strtoul.c\<close>.  A C string is the list of its characters before the terminating NUL.  The
  output function \<^verbatim>\<open>putc\<close> of \<^verbatim>\<open>_doprnt\<close> never influences the formatting, so \<open>doprnt\<close> is the list of
  the characters handed to it, and \<open>sprintf\<close> and \<open>printf\<close> run their own \<^verbatim>\<open>putc\<close> over that list.  An
  argument list is the list of its 64-bit slots, as the rv64 calling convention passes them, with
  the function \<open>str\<close> that reads the string at a pointer; \<^const>\<open>None\<close> is undefined behaviour (a missing
  argument, a base that is not between 2 and 16, a shift beyond the width).  Field widths and
  precisions are integers of at most 31 bits in every format of the kernel, so their arithmetic is
  that of \<open>int\<close>.
\<close>

type_synonym va_list = "u64 list"

abbreviation ord :: "char \<Rightarrow> nat" where "ord c \<equiv> of_char c"

section \<open>Numbers\<close>

definition digs :: string where "digs = ''0123456789abcdef''"

definition MAXBUF :: nat where [layout_defs]: "MAXBUF = 64"

text \<open>\<^verbatim>\<open>do { *p-- = digs[u % base]; u /= base; } while (u != 0);\<close> with the buffer from \<^verbatim>\<open>p\<close> on.\<close>

function num_loop :: "nat \<Rightarrow> nat \<Rightarrow> string \<Rightarrow> string" where
  "num_loop u base buf =
    (let buf' = digs ! (u mod base) # buf; u' = u div base
     in if u' = 0 \<or> base < 2 then buf' else num_loop u' base buf')"
  by auto
termination
proof (relation "measure fst")
  fix u base :: nat and buf buf' :: string and u'
  assume "u' = u div base" and "\<not> (u' = 0 \<or> base < 2)"
  then show "((u', base, buf'), u, base, buf) \<in> measure fst" by (cases "u = 0") auto
qed simp

declare num_loop.simps [simp del]

definition printnum :: "u64 \<Rightarrow> int \<Rightarrow> string option" where
  "printnum u base = (if 2 \<le> base \<and> base \<le> 16 then Some (num_loop (unat u) (nat base) []) else None)"

section \<open>The format interpreter\<close>

definition isdigit :: "char \<Rightarrow> bool" where
  "isdigit d \<longleftrightarrow> 48 \<le> ord d \<and> ord d \<le> 57"

text \<open>The character at the head of the format; its end reads as NUL.\<close>

definition peek :: "string \<Rightarrow> char" where
  "peek s = (case s of [] \<Rightarrow> CHR 0x00 | c # _ \<Rightarrow> c)"

record fmt_spec =
  length_f :: int
  prec_f :: int
  ladjust_f :: bool
  padc_f :: char
  plus_sign_f :: "char option"
  altfmt_f :: bool

fun fmt_flags :: "string \<Rightarrow> fmt_spec \<Rightarrow> fmt_spec \<times> string" where
  "fmt_flags [] sp = (sp, [])"
| "fmt_flags (c # fmt) sp =
    (if c = CHR ''#'' then fmt_flags fmt (sp\<lparr>altfmt_f := True\<rparr>)
     else if c = CHR ''-'' then fmt_flags fmt (sp\<lparr>ladjust_f := True\<rparr>)
     else if c = CHR ''+'' then fmt_flags fmt (sp\<lparr>plus_sign_f := Some CHR ''+''\<rparr>)
     else if c = CHR '' '' then
       fmt_flags fmt (if plus_sign_f sp = None then sp\<lparr>plus_sign_f := Some CHR '' ''\<rparr> else sp)
     else (sp, c # fmt))"

fun fmt_number :: "string \<Rightarrow> int \<Rightarrow> int \<times> string" where
  "fmt_number [] v = (v, [])"
| "fmt_number (c # fmt) v =
    (if isdigit c then fmt_number fmt (10 * v + int (ord c) - 48) else (v, c # fmt))"

definition va_int :: "va_list \<Rightarrow> (int \<times> va_list) option" where
  "va_int args = (case args of [] \<Rightarrow> None | a # rest \<Rightarrow> Some (sint (ucast a :: u32), rest))"

definition fmt_width :: "string \<Rightarrow> va_list \<Rightarrow> fmt_spec \<Rightarrow> (fmt_spec \<times> string \<times> va_list) option" where
  "fmt_width fmt args sp =
    (if isdigit (peek fmt) then
       (let (v, fmt') = fmt_number fmt (length_f sp) in Some (sp\<lparr>length_f := v\<rparr>, fmt', args))
     else if peek fmt = CHR ''*'' then
       (case va_int args of
          None \<Rightarrow> None
        | Some (l, args') \<Rightarrow>
            Some (if l < 0 then sp\<lparr>length_f := - l, ladjust_f := \<not> ladjust_f sp\<rparr> else sp\<lparr>length_f := l\<rparr>,
              tl fmt, args'))
     else Some (sp, fmt, args))"

definition fmt_prec :: "string \<Rightarrow> va_list \<Rightarrow> fmt_spec \<Rightarrow> (fmt_spec \<times> string \<times> va_list) option" where
  "fmt_prec fmt args sp =
    (if peek fmt = CHR ''.'' then
       (let fmt = tl fmt in
        if isdigit (peek fmt) then
          (let (v, fmt') = fmt_number fmt 0 in Some (sp\<lparr>prec_f := v\<rparr>, fmt', args))
        else if peek fmt = CHR ''*'' then
          (case va_int args of None \<Rightarrow> None | Some (p, args') \<Rightarrow> Some (sp\<lparr>prec_f := p\<rparr>, tl fmt, args'))
        else Some (sp, fmt, args))
     else Some (sp, fmt, args))"

definition pad :: "char \<Rightarrow> int \<Rightarrow> string" where
  "pad c n = replicate (nat n) c"

text \<open>
  The value left in a counter by \<^verbatim>\<open>while (--length >= 0)\<close>, which emits \<open>pad c length\<close>.
\<close>

definition after_pad :: "int \<Rightarrow> int" where
  "after_pad n = (if n \<le> 0 then n - 1 else - 1)"

text \<open>
  Case \<^verbatim>\<open>s\<close>.  The second loop counts one character more than it emits when it stops at the
  precision, and the padding on the right starts from that count.
\<close>

definition print_string :: "fmt_spec \<Rightarrow> string \<Rightarrow> string" where
  "print_string sp p =
    (let prec = (if prec_f sp = - 1 then 0x7fffffff else prec_f sp);
         shown = take (nat prec) p;
         n = (if int (length p) > max prec 0 then max prec 0 + 1 else int (length p));
         before = (if length_f sp > 0 \<and> \<not> ladjust_f sp then pad CHR '' '' (length_f sp - int (length shown)) else []);
         after = (if n < length_f sp \<and> ladjust_f sp then pad CHR '' '' (length_f sp - n) else [])
     in before @ shown @ after)"

text \<open>The label \<^verbatim>\<open>print_num\<close>.\<close>

definition print_num :: "fmt_spec \<Rightarrow> char option \<Rightarrow> u64 \<Rightarrow> int \<Rightarrow> string option" where
  "print_num sp sign_char u base =
    (case printnum u base of
       None \<Rightarrow> None
     | Some digits \<Rightarrow>
         (let prefix = (if u \<noteq> 0 \<and> altfmt_f sp then
                          (if base = 8 then ''0'' else if base = 16 then ''0x'' else []) else []);
              prec = prec_f sp - int (length digits);
              len = length_f sp - int (length digits) - (if sign_char \<noteq> None then 1 else 0)
                    - int (length prefix) - (if prec > 0 then prec else 0);
              blanks = (if padc_f sp = CHR '' '' \<and> \<not> ladjust_f sp then pad CHR '' '' len else []);
              len1 = (if padc_f sp = CHR '' '' \<and> \<not> ladjust_f sp then after_pad len else len);
              zeros = (if padc_f sp = CHR ''0'' then pad CHR ''0'' len1 else []);
              len2 = (if padc_f sp = CHR ''0'' then after_pad len1 else len1);
              right = (if ladjust_f sp then pad CHR '' '' len2 else [])
          in Some (blanks @ (case sign_char of None \<Rightarrow> [] | Some c \<Rightarrow> [c]) @ prefix @ pad CHR ''0'' prec @
                zeros @ digits @ right)))"

text \<open>Case \<^verbatim>\<open>b\<close>: the names of the bits and fields of a register.\<close>

abbreviation is_name_char :: "char \<Rightarrow> bool" where "is_name_char c \<equiv> 32 < ord c"

function bits_loop :: "u64 \<Rightarrow> int \<Rightarrow> string \<Rightarrow> bool \<Rightarrow> string option" where
  "bits_loop u base [] any = Some (if any then ''>'' else [])"
| "bits_loop u base [i] any = None"
| "bits_loop u base (i # c # p) any =
    (let sep = (if any then '','' else ''<'') in
     if ord c \<le> 32 then
       (let j = ord c; field = (drop_bit (j - 1) u) AND (scast (push_bit (ord i - j) 2 - 1 :: u32)) in
        if j = 0 \<or> 64 < j \<or> ord i < j \<or> 31 < ord i - j then None
        else case printnum (ucast (ucast field :: u32)) base of
          None \<Rightarrow> None
        | Some d \<Rightarrow>
            map_option (\<lambda>r. sep @ takeWhile is_name_char p @ d @ r)
              (bits_loop u base (dropWhile is_name_char p) True))
     else if 32 < ord i \<or> ord i = 0 then None
     else if u AND scast (push_bit (ord i - 1) 1 :: u32) \<noteq> 0 then
       map_option (\<lambda>r. sep @ takeWhile is_name_char (c # p) @ r)
         (bits_loop u base (dropWhile is_name_char p) True)
     else bits_loop u base (dropWhile is_name_char p) any)"
  by pat_completeness auto
termination
  by (relation "measure (\<lambda>(u, base, p, any). length p)") (auto simp: length_dropWhile_le le_imp_less_Suc less_SucI)

definition print_bits :: "u64 \<Rightarrow> string \<Rightarrow> string option" where
  "print_bits u p =
    (case p of
       [] \<Rightarrow> None
     | b # p' \<Rightarrow>
         (case printnum u (int (ord b)) of
            None \<Rightarrow> None
          | Some d \<Rightarrow> if u = 0 then Some d else map_option (\<lambda>r. d @ r) (bits_loop u (int (ord b)) p' False)))"

definition va_long :: "va_list \<Rightarrow> (u64 \<times> va_list) option" where
  "va_long args = (case args of [] \<Rightarrow> None | a # rest \<Rightarrow> Some (a, rest))"

definition print_signed :: "fmt_spec \<Rightarrow> va_list \<Rightarrow> int \<Rightarrow> (string \<times> va_list) option" where
  "print_signed sp args base =
    (case va_long args of
       None \<Rightarrow> None
     | Some (n, args') \<Rightarrow>
         map_option (\<lambda>s. (s, args'))
           (if 0 \<le> sint n then print_num sp (plus_sign_f sp) n base
            else print_num sp (Some CHR ''-'') (- n) base))"

definition print_unsigned :: "fmt_spec \<Rightarrow> va_list \<Rightarrow> int \<Rightarrow> (string \<times> va_list) option" where
  "print_unsigned sp args base =
    (case va_long args of
       None \<Rightarrow> None
     | Some (u, args') \<Rightarrow> map_option (\<lambda>s. (s, args')) (print_num sp None u base))"

text \<open>The \<^verbatim>\<open>switch\<close>: what conversion \<open>c\<close> emits and the arguments it leaves.\<close>

definition convert :: "(u64 \<Rightarrow> string) \<Rightarrow> int \<Rightarrow> fmt_spec \<Rightarrow> char \<Rightarrow> va_list \<Rightarrow> (string \<times> va_list) option" where
  "convert str radix sp c args =
    (if c \<in> {CHR ''b'', CHR ''B''} then
       (case args of
          u # p # rest \<Rightarrow> map_option (\<lambda>s. (s, rest)) (print_bits u (str p))
        | _ \<Rightarrow> None)
     else if c = CHR ''c'' then
       (case va_long args of None \<Rightarrow> None | Some (a, rest) \<Rightarrow> Some ([char_of (unat (ucast a :: u8))], rest))
     else if c = CHR ''s'' then
       (case va_long args of
          None \<Rightarrow> None
        | Some (p, rest) \<Rightarrow> Some (print_string sp (if p = 0 then [] else str p), rest))
     else if c \<in> {CHR ''o'', CHR ''O''} then print_unsigned sp args 8
     else if c \<in> {CHR ''d'', CHR ''i'', CHR ''D''} then print_signed sp args 10
     else if c \<in> {CHR ''u'', CHR ''U''} then print_unsigned sp args 10
     else if c = CHR ''p'' then
       map_option (\<lambda>(s, rest). (''0x'' @ s, rest)) (print_unsigned (sp\<lparr>padc_f := CHR ''0'', length_f := 8\<rparr>) args 16)
     else if c \<in> {CHR ''x'', CHR ''X''} then print_unsigned sp args 16
     else if c \<in> {CHR ''z'', CHR ''Z''} then print_signed sp args 16
     else if c \<in> {CHR ''r'', CHR ''R''} then print_signed sp args radix
     else if c \<in> {CHR ''n'', CHR ''N''} then print_unsigned sp args radix
     else Some ([c], args))"

definition initial_spec :: fmt_spec where
  "initial_spec = \<lparr>length_f = 0, prec_f = - 1, ladjust_f = False, padc_f = CHR '' '', plus_sign_f = None, altfmt_f = False\<rparr>"

text \<open>The flags, the padding character, width, precision and \<^verbatim>\<open>l\<close> that follow a \<^verbatim>\<open>%\<close>.\<close>

definition parse_spec :: "string \<Rightarrow> va_list \<Rightarrow> (fmt_spec \<times> string \<times> va_list) option" where
  "parse_spec fmt args =
    (let (sp1, f1) = fmt_flags fmt initial_spec;
         (sp2, f2) = (if peek f1 = CHR ''0'' then (sp1\<lparr>padc_f := CHR ''0''\<rparr>, tl f1) else (sp1, f1))
     in case fmt_width f2 args sp2 of
          None \<Rightarrow> None
        | Some (sp3, f3, args3) \<Rightarrow>
            (case fmt_prec f3 args3 sp3 of
               None \<Rightarrow> None
             | Some (sp4, f4, args4) \<Rightarrow> Some (sp4, if peek f4 = CHR ''l'' then tl f4 else f4, args4)))"

lemma fmt_flags_length: "length (snd (fmt_flags fmt sp)) \<le> length fmt"
  by (induction fmt sp rule: fmt_flags.induct) (auto simp: le_SucI)

lemma fmt_number_length: "length (snd (fmt_number fmt v)) \<le> length fmt"
  by (induction fmt v rule: fmt_number.induct) (auto simp: le_SucI)

lemma fmt_width_length: "fmt_width fmt args sp = Some (sp', fmt', args') \<Longrightarrow> length fmt' \<le> length fmt"
  using fmt_number_length [of fmt "length_f sp"]
  by (auto simp: fmt_width_def split: if_splits option.splits prod.splits)

lemma fmt_prec_length: "fmt_prec fmt args sp = Some (sp', fmt', args') \<Longrightarrow> length fmt' \<le> length fmt"
  using fmt_number_length [of "tl fmt" 0]
  by (auto simp: fmt_prec_def Let_def split: if_splits option.splits prod.splits)

lemma parse_spec_length: "parse_spec fmt args = Some (sp, fmt', args') \<Longrightarrow> length fmt' \<le> length fmt"
  using fmt_flags_length [of fmt initial_spec]
  by (fastforce simp: parse_spec_def split: if_splits option.splits prod.splits dest!: fmt_width_length fmt_prec_length)

text \<open>\<^verbatim>\<open>_doprnt\<close>: the characters it hands to \<^verbatim>\<open>putc\<close>.\<close>

function doprnt :: "(u64 \<Rightarrow> string) \<Rightarrow> int \<Rightarrow> string \<Rightarrow> va_list \<Rightarrow> string option" where
  "doprnt str radix [] args = Some []"
| "doprnt str radix (c # fmt) args =
    (if c \<noteq> CHR ''%'' then map_option (\<lambda>r. c # r) (doprnt str radix fmt args)
     else case parse_spec fmt args of
       None \<Rightarrow> None
     | Some (sp, [], args') \<Rightarrow> Some []
     | Some (sp, d # fmt', args') \<Rightarrow>
         (case convert str radix sp d args' of
            None \<Rightarrow> None
          | Some (s, args'') \<Rightarrow> map_option (\<lambda>r. s @ r) (doprnt str radix fmt' args'')))"
  by pat_completeness auto
termination
  by (relation "measure (\<lambda>(str, radix, fmt, args). length fmt)") (auto dest!: parse_spec_length)

section \<open>Printing into a buffer\<close>

text \<open>
  \<^verbatim>\<open>sprintf\<close> and its relatives store through a pointer that moves with each character kept; the
  limit is an \<^verbatim>\<open>unsigned int\<close>, and the all-ones value stands for no limit.
\<close>

record sprintf_state =
  sbuf :: nat
  slen :: u32
  smax :: u32

definition SPRINTF_UNLIMITED :: u32 where "SPRINTF_UNLIMITED = - 1"

definition savechar :: "(nat \<Rightarrow> char) \<times> sprintf_state \<Rightarrow> char \<Rightarrow> (nat \<Rightarrow> char) \<times> sprintf_state" where
  "savechar ms c =
    (let (m, st) = ms in
     if smax st \<noteq> SPRINTF_UNLIMITED \<and> slen st = smax st then (m, st)
     else (m(sbuf st := c), st\<lparr>slen := slen st + 1, sbuf := sbuf st + 1\<rparr>))"

definition vsprintf :: "(u64 \<Rightarrow> string) \<Rightarrow> (nat \<Rightarrow> char) \<Rightarrow> nat \<Rightarrow> string \<Rightarrow> va_list \<Rightarrow> ((nat \<Rightarrow> char) \<times> int) option" where
  "vsprintf str m s fmt args =
    (case doprnt str 0 fmt args of
       None \<Rightarrow> None
     | Some out \<Rightarrow>
         (let (m', st) = foldl savechar (m, \<lparr>sbuf = s, slen = 0, smax = SPRINTF_UNLIMITED\<rparr>) out
          in Some (m'(sbuf st := CHR 0x00), sint (slen st))))"

definition vsnprintf :: "(u64 \<Rightarrow> string) \<Rightarrow> (nat \<Rightarrow> char) \<Rightarrow> nat \<Rightarrow> u64 \<Rightarrow> string \<Rightarrow> va_list \<Rightarrow> ((nat \<Rightarrow> char) \<times> int) option" where
  "vsnprintf str m s sz fmt args =
    (case doprnt str 0 fmt args of
       None \<Rightarrow> None
     | Some out \<Rightarrow>
         (let (m', st) = foldl savechar (m, \<lparr>sbuf = s, slen = 0, smax = ucast sz\<rparr>) out
          in Some (m'(sbuf st := CHR 0x00), sint (slen st))))"

definition sprintf :: "(u64 \<Rightarrow> string) \<Rightarrow> (nat \<Rightarrow> char) \<Rightarrow> nat \<Rightarrow> string \<Rightarrow> va_list \<Rightarrow> ((nat \<Rightarrow> char) \<times> int) option" where
  "sprintf str m s fmt args = vsprintf str m s fmt args"

definition snprintf :: "(u64 \<Rightarrow> string) \<Rightarrow> (nat \<Rightarrow> char) \<Rightarrow> nat \<Rightarrow> u64 \<Rightarrow> string \<Rightarrow> va_list \<Rightarrow> ((nat \<Rightarrow> char) \<times> int) option" where
  "snprintf str m s sz fmt args = vsnprintf str m s sz fmt args"

section \<open>Printing to the console\<close>

text \<open>The console is the list of the characters \<^verbatim>\<open>console_putbytes\<close> was given.\<close>

definition PRINTF_BUFMAX :: nat where [layout_defs]: "PRINTF_BUFMAX = 128"

record printf_state =
  pbuf :: string
  pindex :: nat
  console :: string

definition flush :: "printf_state \<Rightarrow> printf_state" where
  "flush st = st\<lparr>console := console st @ take (pindex st) (pbuf st), pindex := 0\<rparr>"

definition printf_char :: "printf_state \<Rightarrow> char \<Rightarrow> printf_state" where
  "printf_char st c =
    (if c = CHR 0x00 \<or> c = CHR 0x0A \<or> pindex st \<ge> PRINTF_BUFMAX then
       (let st1 = flush st; st2 = st1\<lparr>pbuf := (pbuf st1)[0 := c]\<rparr>
        in st2\<lparr>console := console st2 @ take 1 (pbuf st2)\<rparr>)
     else st\<lparr>pbuf := (pbuf st)[pindex st := c], pindex := pindex st + 1\<rparr>)"

text \<open>The buffer is a local array, so its initial contents are whatever the stack holds.\<close>

definition vprintf :: "(u64 \<Rightarrow> string) \<Rightarrow> string \<Rightarrow> string \<Rightarrow> string \<Rightarrow> va_list \<Rightarrow> (string \<times> int) option" where
  "vprintf str stack con fmt args =
    (case doprnt str 0 fmt args of
       None \<Rightarrow> None
     | Some out \<Rightarrow>
         (let st = foldl printf_char \<lparr>pbuf = stack, pindex = 0, console = con\<rparr> out;
              st' = (if pindex st \<noteq> 0 then flush st else st)
          in Some (console st', 0)))"

definition printf :: "(u64 \<Rightarrow> string) \<Rightarrow> string \<Rightarrow> string \<Rightarrow> string \<Rightarrow> va_list \<Rightarrow> (string \<times> int) option" where
  "printf str stack con fmt args = vprintf str stack con fmt args"

definition putchar :: "string \<Rightarrow> int \<Rightarrow> string \<times> int" where
  "putchar con c = (let ch = (word_of_int c :: u8) in (con @ [char_of (unat ch)], uint ch))"

fun puts_loop :: "string \<Rightarrow> string \<Rightarrow> string" where
  "puts_loop con [] = con"
| "puts_loop con (c # s) = puts_loop (fst (putchar con (int (ord c)))) s"

definition puts :: "string \<Rightarrow> string \<Rightarrow> string \<times> int" where
  "puts con s = (fst (putchar (puts_loop con s) 10), 0)"

section \<open>Parsing numbers\<close>

definition isspace :: "char \<Rightarrow> bool" where
  "isspace c \<longleftrightarrow> c = CHR '' '' \<or> c = CHR 0x0C \<or> c = CHR 0x0A \<or> c = CHR 0x0D \<or> c = CHR 0x09 \<or> c = CHR 0x0B"

text \<open>The value of a digit below the base, as the three tests of the loop find it.\<close>

definition digit_value :: "char \<Rightarrow> int \<Rightarrow> int option" where
  "digit_value c base =
    (let d = int (ord c) in
     if 48 \<le> d \<and> d \<le> 57 \<and> d - 48 < base then Some (d - 48)
     else if 97 \<le> d \<and> d \<le> 122 \<and> d - 97 + 10 < base then Some (d - 97 + 10)
     else if 65 \<le> d \<and> d \<le> 90 \<and> d - 65 + 10 < base then Some (d - 65 + 10)
     else None)"

fun strtoul_loop :: "string \<Rightarrow> int \<Rightarrow> u64 \<Rightarrow> u64 \<times> string" where
  "strtoul_loop [] base v = (v, [])"
| "strtoul_loop (c # p) base v =
    (case digit_value c base of
       Some d \<Rightarrow> strtoul_loop p base (v * word_of_int base + word_of_int d)
     | None \<Rightarrow> (v, c # p))"

text \<open>The value and the rest of the string, which \<^verbatim>\<open>*out_p\<close> receives.\<close>

definition strtoul :: "string \<Rightarrow> int \<Rightarrow> u64 \<times> string" where
  "strtoul s base =
    (let p = dropWhile isspace s;
         hex = (base = 16 \<or> base = 0) \<and> peek p = CHR ''0'' \<and>
               (peek (tl p) = CHR ''x'' \<or> peek (tl p) = CHR ''X'');
         p1 = (if hex then tl (tl p) else p);
         base1 = (if hex then 16 else base);
         base2 = (if base1 = 0 then (if peek p1 = CHR ''0'' then 8 else 10) else base1)
     in strtoul_loop p1 base2 0)"

section \<open>Digits\<close>

lemma num_loop_step:
  "2 \<le> b \<Longrightarrow> num_loop u b buf =
    (if u < b then digs ! u # buf else num_loop (u div b) b (digs ! (u mod b) # buf))"
  by (subst num_loop.simps) (auto simp: Let_def div_eq_0_iff)

lemma digs_nth: "d < 16 \<Longrightarrow> ord (digs ! d) = (if d < 10 then 48 + d else 87 + d)"
proof -
  assume "d < 16"
  moreover have "list_all (\<lambda>d. ord (digs ! d) = (if d < 10 then 48 + d else 87 + d)) [0..<16]"
    unfolding digs_def by code_simp
  ultimately show ?thesis by (simp add: list_all_iff)
qed

lemma digit_value_digs: "d < b \<Longrightarrow> b \<le> 16 \<Longrightarrow> digit_value (digs ! d) (int b) = Some (int d)"
  by (auto simp: digit_value_def Let_def digs_nth)

lemma num_loop_parse:
  "2 \<le> b \<Longrightarrow> b \<le> 16 \<Longrightarrow> strtoul_loop (num_loop u b buf) (int b) 0 = strtoul_loop buf (int b) (word_of_nat u)"
proof (induction u arbitrary: buf rule: less_induct)
  case (less u)
  show ?case
  proof (cases "u < b")
    case True
    then show ?thesis using less.prems by (simp add: num_loop_step digit_value_digs)
  next
    case False
    then have "u div b < u" "u mod b < b" using less.prems by auto
    moreover have "word_of_nat (u div b) * word_of_nat b + word_of_nat (u mod b) = (word_of_nat u :: u64)"
      by (metis div_mult_mod_eq of_nat_add of_nat_mult)
    ultimately show ?thesis using False less.prems less.IH [of "u div b"]
      by (simp add: num_loop_step [of b u] digit_value_digs)
  qed
qed

lemma num_loop_length: "2 \<le> b \<Longrightarrow> u < 2 ^ k \<Longrightarrow> length (num_loop u b buf) \<le> max 1 k + length buf"
proof (induction k arbitrary: u buf)
  case (Suc k)
  show ?case
  proof (cases "u < b")
    case False
    have "u div b \<le> u div 2" using Suc.prems(1) by (intro div_le_mono2) auto
    then have "u div b < 2 ^ k" using Suc.prems(2) by (metis le_less_trans less_mult_imp_div_less mult.commute power_Suc)
    moreover have "k \<noteq> 0" using False Suc.prems by (cases k) auto
    ultimately show ?thesis using Suc.IH [of "u div b" "digs ! (u mod b) # buf"] False Suc.prems(1)
      by (simp add: num_loop_step [of b u] max_def split: if_splits)
  qed (use Suc.prems(1) in \<open>simp add: num_loop_step\<close>)
qed (simp add: num_loop_step)

lemma num_loop_append: "2 \<le> b \<Longrightarrow> num_loop u b buf = num_loop u b [] @ buf"
proof (induction u arbitrary: buf rule: less_induct)
  case (less u)
  show ?case
  proof (cases "u < b")
    case False
    then have "u div b < u" using less.prems by auto
    note IH = less.IH [OF this less.prems]
    show ?thesis using False less.prems IH [of "digs ! (u mod b) # buf"] IH [of "[digs ! (u mod b)]"]
      by (simp add: num_loop_step [of b u])
  qed (use less.prems in \<open>simp add: num_loop_step\<close>)
qed

lemma num_loop_chars:
  "2 \<le> b \<Longrightarrow> b \<le> 16 \<Longrightarrow> \<exists>xs. xs \<noteq> [] \<and> num_loop u b buf = xs @ buf \<and> set xs \<subseteq> (!) digs ` {..<16}"
proof (induction u arbitrary: buf rule: less_induct)
  case (less u)
  show ?case
  proof (cases "u < b")
    case True
    then show ?thesis using less.prems by (intro exI [of _ "[digs ! u]"]) (auto simp: num_loop_step)
  next
    case False
    then have "u div b < u" "u mod b < b" using less.prems by auto
    from less.IH [OF this(1) less.prems, of "digs ! (u mod b) # buf"] obtain xs
      where xs: "num_loop (u div b) b (digs ! (u mod b) # buf) = xs @ digs ! (u mod b) # buf" "set xs \<subseteq> (!) digs ` {..<16}"
      by blast
    moreover have "digs ! (u mod b) \<in> (!) digs ` {..<16}" using \<open>u mod b < b\<close> less.prems(2) by (intro imageI) (simp only: lessThan_iff)
    ultimately show ?thesis using False less.prems
      by (intro exI [of _ "xs @ [digs ! (u mod b)]"]) (auto simp: num_loop_step [of b u])
  qed
qed

lemma digs_not_space: "c \<in> (!) digs ` {..<16} \<Longrightarrow> \<not> isspace c \<and> c \<noteq> CHR ''x'' \<and> c \<noteq> CHR ''X''"
proof -
  assume "c \<in> (!) digs ` {..<16}"
  then obtain d where d: "d < 16" "c = digs ! d" by auto
  have "ord c \<notin> {32, 12, 10, 13, 9, 11, 120, 88}" using digs_nth [OF d(1)] d by auto
  then show ?thesis by (auto simp: isspace_def)
qed

lemma strtoul_printnum:
  assumes "printnum u base = Some s" and "rest = [] \<or> digit_value (hd rest) base = None \<and> hd rest \<notin> {CHR ''x'', CHR ''X''}"
  shows "strtoul (s @ rest) base = (u, rest)"
proof -
  have b: "2 \<le> nat base" "nat base \<le> 16" "int (nat base) = base" and s: "s = num_loop (unat u) (nat base) []"
    using assms(1) by (auto simp: printnum_def split: if_splits)
  obtain xs where xs: "xs \<noteq> []" "s = xs" "set xs \<subseteq> (!) digs ` {..<16}"
    using num_loop_chars [OF b(1,2), of "unat u" "[]"] s by auto
  have app: "num_loop (unat u) (nat base) rest = s @ rest" using num_loop_append [OF b(1), of _ rest] s by simp
  have sp: "dropWhile isspace (s @ rest) = s @ rest"
    using xs digs_not_space by (cases s) auto
  have nx: "peek (tl (s @ rest)) \<noteq> CHR ''x''" "peek (tl (s @ rest)) \<noteq> CHR ''X''"
    using xs digs_not_space assms(2) by (cases s; cases "tl s"; cases rest; auto simp: peek_def)+
  have "strtoul (s @ rest) base = strtoul_loop (s @ rest) base 0"
    using sp nx b(1) by (auto simp: strtoul_def Let_def)
  also have "\<dots> = strtoul_loop rest base u" using num_loop_parse [OF b(1,2), of "unat u" rest] app b(3) by simp
  also have "\<dots> = (u, rest)" using assms(2) by (cases rest) auto
  finally show ?thesis .
qed

section \<open>Buffered output\<close>

lemma savechar_limited:
  assumes "smax st \<noteq> SPRINTF_UNLIMITED" and "unat (slen st) + k = unat (smax st)"
  shows "foldl savechar (m, st) out =
    (mwrite m (sbuf st) (take k out),
     st\<lparr>slen := slen st + word_of_nat (min k (length out)), sbuf := sbuf st + min k (length out)\<rparr>)"
  using assms
proof (induction out arbitrary: m st k)
  case (Cons c out)
  show ?case
  proof (cases k)
    case 0
    then have "slen st = smax st" using Cons.prems by (simp add: word_unat_eq_iff)
    then have "savechar (m, st) c = (m, st)" using Cons.prems(1) by (simp add: savechar_def)
    then show ?thesis using Cons.IH [of st 0 m] Cons.prems 0 by simp
  next
    case (Suc j)
    let ?st = "st\<lparr>slen := slen st + 1, sbuf := sbuf st + 1\<rparr>"
    have "unat (slen st) < unat (smax st)" using Cons.prems(2) Suc by simp
    moreover have "unat (smax st) < 2 ^ 32" using unsigned_less [of "smax st"] by simp
    ultimately have ne: "slen st \<noteq> smax st" and u: "unat (slen st + 1) = unat (slen st) + 1"
      by (auto simp: unat_word_ariths)
    have "foldl savechar (m(sbuf st := c), ?st) out =
      (mwrite (m(sbuf st := c)) (sbuf ?st) (take j out),
       ?st\<lparr>slen := slen ?st + word_of_nat (min j (length out)), sbuf := sbuf ?st + min j (length out)\<rparr>)"
      using Cons.prems Suc u by (intro Cons.IH) simp_all
    moreover have "savechar (m, st) c = (m(sbuf st := c), ?st)" using ne by (simp add: savechar_def)
    ultimately show ?thesis using Suc by (simp add: mwrite_Cons del: fun_upd_apply)
  qed
qed simp

lemma savechar_unlimited:
  assumes "smax st = SPRINTF_UNLIMITED"
  shows "foldl savechar (m, st) out =
    (mwrite m (sbuf st) out, st\<lparr>slen := slen st + word_of_nat (length out), sbuf := sbuf st + length out\<rparr>)"
  using assms
proof (induction out arbitrary: m st)
  case (Cons c out)
  let ?st = "st\<lparr>slen := slen st + 1, sbuf := sbuf st + 1\<rparr>"
  have "savechar (m, st) c = (m(sbuf st := c), ?st)" using Cons.prems by (simp add: savechar_def)
  then show ?case using Cons.IH [of ?st "m(sbuf st := c)"] Cons.prems
    by (simp add: mwrite_Cons add.assoc del: fun_upd_apply)
qed simp

lemma printf_char_output:
  assumes "pindex st \<le> PRINTF_BUFMAX" and "length (pbuf st) = PRINTF_BUFMAX"
  shows "let st' = printf_char st c in
    pindex st' \<le> PRINTF_BUFMAX \<and> length (pbuf st') = PRINTF_BUFMAX \<and>
    console st' @ take (pindex st') (pbuf st') = console st @ take (pindex st) (pbuf st) @ [c]"
proof (cases "c = CHR 0x00 \<or> c = CHR 0x0A \<or> pindex st \<ge> PRINTF_BUFMAX")
  case True
  have "take 1 ((pbuf st)[0 := c]) = [c]" using assms(2) by (cases "pbuf st") (auto simp: PRINTF_BUFMAX_def)
  then show ?thesis using True assms by (simp add: printf_char_def flush_def Let_def)
next
  case False
  then have "take (Suc (pindex st)) ((pbuf st)[pindex st := c]) = take (pindex st) (pbuf st) @ [c]"
    using assms(2) by (simp add: take_Suc_conv_app_nth)
  then show ?thesis using False assms by (simp add: printf_char_def Let_def)
qed

lemma printf_chars_output:
  assumes "pindex st \<le> PRINTF_BUFMAX" and "length (pbuf st) = PRINTF_BUFMAX"
  shows "let st' = foldl printf_char st out in
    console st' @ take (pindex st') (pbuf st') = console st @ take (pindex st) (pbuf st) @ out"
  using assms
proof (induction out arbitrary: st)
  case (Cons c out)
  from printf_char_output [OF Cons.prems, of c] show ?case
    using Cons.IH [of "printf_char st c"] by (simp add: Let_def)
qed simp

lemma vprintf_output:
  assumes "length stack = PRINTF_BUFMAX" and "doprnt str 0 fmt args = Some out"
  shows "vprintf str stack con fmt args = Some (con @ out, 0)"
proof -
  let ?st = "foldl printf_char \<lparr>pbuf = stack, pindex = 0, console = con\<rparr> out"
  have "console ?st @ take (pindex ?st) (pbuf ?st) = con @ out"
    using printf_chars_output [of "\<lparr>pbuf = stack, pindex = 0, console = con\<rparr>" out] assms(1) by (simp add: Let_def)
  then show ?thesis using assms(2) by (auto simp: vprintf_def Let_def flush_def)
qed

lemma ord_lt_256: "ord c < 256"
  by simp

lemma putchar_ord: "putchar con (int (ord c)) = (con @ [c], int (ord c))"
proof -
  have "ord c < 256" by (rule ord_lt_256)
  then have u: "unat (word_of_nat (ord c) :: u8) = ord c" by (simp add: unat_of_nat)
  have "uint (word_of_nat (ord c) :: u8) = int (unat (word_of_nat (ord c) :: u8))" by simp
  then show ?thesis using u by (simp add: putchar_def Let_def)
qed

lemma puts_output: "puts con s = (con @ s @ [CHR 0x0A], 0)"
proof -
  have "puts_loop con s = con @ s" by (induction s arbitrary: con) (simp_all add: putchar_ord)
  then show ?thesis using putchar_ord [of "con @ s" "CHR 0x0A"] by (simp add: puts_def)
qed

section \<open>Plain text\<close>

lemma doprnt_text: "CHR ''%'' \<notin> set t \<Longrightarrow> doprnt str r (t @ f) args = map_option (\<lambda>s. t @ s) (doprnt str r f args)"
  by (induction t; cases "doprnt str r f args") auto

lemma doprnt_text_only: "CHR ''%'' \<notin> set t \<Longrightarrow> doprnt str r t args = Some t"
  using doprnt_text [of t str r "[]" args] by simp

lemma initial_spec_sel [simp]:
  "length_f initial_spec = 0" "prec_f initial_spec = - 1" "\<not> ladjust_f initial_spec" "padc_f initial_spec = CHR '' ''"
  "plus_sign_f initial_spec = None" "\<not> altfmt_f initial_spec"
  by (simp_all add: initial_spec_def)

section \<open>Formats as lists of directives\<close>

text \<open>The digits of a number, most significant first.\<close>

function radix_digits :: "nat \<Rightarrow> nat \<Rightarrow> string" where
  "radix_digits b n = (if b < 2 \<or> n < b then [digs ! n] else radix_digits b (n div b) @ [digs ! (n mod b)])"
  by auto
termination by (relation "measure snd") auto

declare radix_digits.simps [simp del]

text \<open>
  A directive as the manual of a format has it: flags, a zero, the width, the precision, an \<^verbatim>\<open>l\<close> and the conversion.  A width or precision
  is absent, a number, or a star that takes it from the arguments.
\<close>

datatype amount = Absent | Given nat | Star

record directive =
  dr_flags :: string
  dr_zero :: bool
  dr_width :: amount
  dr_prec :: amount
  dr_long :: bool
  dr_conv :: char

datatype piece = Txt string | Dir directive

fun show_amount :: "amount \<Rightarrow> string" where
  "show_amount Absent = []"
| "show_amount (Given n) = radix_digits 10 n"
| "show_amount Star = ''*''"

definition show_dir :: "directive \<Rightarrow> string" where
  "show_dir d = ''%'' @ dr_flags d @ (if dr_zero d then ''0'' else []) @ show_amount (dr_width d) @
    (if dr_prec d = Absent then [] else ''.'' @ show_amount (dr_prec d)) @ (if dr_long d then ''l'' else []) @ [dr_conv d]"

fun show_piece :: "piece \<Rightarrow> string" where
  "show_piece (Txt t) = t"
| "show_piece (Dir d) = show_dir d"

text \<open>
  What a directive prints.  A number has its sign, the prefix of the alternate form, zeros up to the precision and its digits;
  it is filled to the width with zeros before the digits, or with blanks behind or before everything.  A string is cut at
  the precision and filled with blanks; one that is cut and left-adjusted gets a blank less than its width asks for.
\<close>

definition number_text :: "bool \<Rightarrow> bool \<Rightarrow> bool \<Rightarrow> nat \<Rightarrow> nat \<Rightarrow> string \<Rightarrow> nat \<Rightarrow> nat \<Rightarrow> string" where
  "number_text alt zero left width prec sign b n =
    (let ds = radix_digits b n;
         pre = (if alt \<and> n \<noteq> 0 then (if b = 8 then ''0'' else if b = 16 then ''0x'' else []) else []);
         zs = replicate (prec - length ds) CHR ''0'';
         fill = width - length (sign @ pre @ zs @ ds)
     in if zero then sign @ pre @ zs @ replicate fill CHR ''0'' @ ds
        else if left then sign @ pre @ zs @ ds @ replicate fill CHR '' ''
        else replicate fill CHR '' '' @ sign @ pre @ zs @ ds)"

definition string_text :: "bool \<Rightarrow> nat \<Rightarrow> nat option \<Rightarrow> string \<Rightarrow> string" where
  "string_text left width prec s =
    (let t = (case prec of None \<Rightarrow> s | Some p \<Rightarrow> take p s)
     in if left then t @ replicate (width - length t - (if length t < length s then 1 else 0)) CHR '' ''
        else replicate (width - length t) CHR '' '' @ t)"

fun amount_of :: "amount \<Rightarrow> va_list \<Rightarrow> int option \<times> va_list" where
  "amount_of Absent args = (None, args)"
| "amount_of (Given n) args = (Some (int n), args)"
| "amount_of Star args = (Some (sint (ucast (hd args) :: u32)), tl args)"

definition sign_text :: "string \<Rightarrow> int \<Rightarrow> string" where
  "sign_text flags n =
    (if n < 0 then ''-'' else if CHR ''+'' \<in> set flags then ''+'' else if CHR '' '' \<in> set flags then '' '' else [])"

definition conv_text :: "(u64 \<Rightarrow> string) \<Rightarrow> int \<Rightarrow> directive \<Rightarrow> int option \<Rightarrow> int option \<Rightarrow> u64 \<Rightarrow> string" where
  "conv_text str radix d w p a =
    (let c = dr_conv d; alt = CHR ''#'' \<in> set (dr_flags d);
         width = (case w of None \<Rightarrow> 0 | Some i \<Rightarrow> nat \<bar>i\<bar>);
         left = (CHR ''-'' \<in> set (dr_flags d)) \<noteq> (case w of None \<Rightarrow> False | Some i \<Rightarrow> i < 0);
         prec = (case p of None \<Rightarrow> 0 | Some i \<Rightarrow> nat i);
         signed = (\<lambda>b. number_text alt (dr_zero d) left width prec (sign_text (dr_flags d) (sint a)) b (nat \<bar>sint a\<bar>));
         unsigned = (\<lambda>b. number_text alt (dr_zero d) left width prec [] b (unat a))
     in if c = CHR ''%'' then ''%''
        else if c = CHR ''c'' then [char_of (unat (ucast a :: u8))]
        else if c = CHR ''s'' then string_text left width (if p = None \<or> p = Some (- 1) then None else Some prec) (if a = 0 then [] else str a)
        else if c = CHR ''p'' then ''0x'' @ number_text alt True left 8 prec [] 16 (unat a)
        else if c \<in> set ''diD'' then signed 10
        else if c \<in> set ''uU'' then unsigned 10
        else if c \<in> set ''oO'' then unsigned 8
        else if c \<in> set ''xX'' then unsigned 16
        else if c \<in> set ''zZ'' then signed 16
        else if c \<in> set ''rR'' then signed (nat radix)
        else unsigned (nat radix))"

text \<open>A directive prints the arguments it takes, in order, and leaves the others.\<close>

definition dir_text :: "(u64 \<Rightarrow> string) \<Rightarrow> int \<Rightarrow> directive \<Rightarrow> va_list \<Rightarrow> string \<times> va_list" where
  "dir_text str radix d args =
    (let (w, a1) = amount_of (dr_width d) args; (p, a2) = amount_of (dr_prec d) a1
     in (conv_text str radix d w p (hd a2), if dr_conv d = CHR ''%'' then a2 else tl a2))"

fun render :: "(u64 \<Rightarrow> string) \<Rightarrow> int \<Rightarrow> piece list \<Rightarrow> va_list \<Rightarrow> string" where
  "render str radix [] args = []"
| "render str radix (Txt t # ps) args = t @ render str radix ps args"
| "render str radix (Dir d # ps) args = fst (dir_text str radix d args) @ render str radix ps (snd (dir_text str radix d args))"

definition takes :: "directive \<Rightarrow> nat" where
  "takes d = (if dr_width d = Star then 1 else 0) + (if dr_prec d = Star then 1 else 0) + (if dr_conv d = CHR ''%'' then 0 else 1)"

fun piece_takes :: "piece \<Rightarrow> nat" where
  "piece_takes (Txt t) = 0"
| "piece_takes (Dir d) = takes d"

text \<open>Text without percent signs, and directives with every conversion but \<^verbatim>\<open>%b\<close>; the conversions in the default base need one.\<close>

fun piece_ok :: "int \<Rightarrow> piece \<Rightarrow> bool" where
  "piece_ok radix (Txt t) = (CHR ''%'' \<notin> set t)"
| "piece_ok radix (Dir d) = (set (dr_flags d) \<subseteq> set ''#-+ '' \<and> dr_width d \<noteq> Given 0 \<and> dr_conv d \<in> set ''%csdiDuUoOxXpzZrRnN'' \<and>
    (dr_conv d \<in> set ''rRnN'' \<longrightarrow> 2 \<le> radix \<and> radix \<le> 16))"

lemma num_loop_digits: "2 \<le> b \<Longrightarrow> num_loop u b buf = radix_digits b u @ buf"
proof (induction u arbitrary: buf rule: less_induct)
  case (less u)
  show ?case
  proof (cases "u < b")
    case False
    then have "u div b < u" using less.prems by auto
    with less False show ?thesis by (simp add: num_loop_step [of b u] radix_digits.simps [of b u])
  qed (use less.prems in \<open>simp add: num_loop_step radix_digits.simps\<close>)
qed

lemma fmt_flags_show:
  assumes "set fs \<subseteq> set ''#-+ ''" and "c \<notin> set ''#-+ ''"
  shows "fmt_flags (fs @ c # r) sp = (sp\<lparr>altfmt_f := altfmt_f sp \<or> CHR ''#'' \<in> set fs, ladjust_f := ladjust_f sp \<or> CHR ''-'' \<in> set fs,
    plus_sign_f := (if CHR ''+'' \<in> set fs then Some CHR ''+'' else if plus_sign_f sp = None \<and> CHR '' '' \<in> set fs then Some CHR '' '' else plus_sign_f sp)\<rparr>, c # r)"
  using assms(1)
proof (induction fs arbitrary: sp)
  case Nil
  then show ?case using assms(2) by (cases sp) auto
next
  case (Cons f fs)
  then have "f = CHR ''#'' \<or> f = CHR ''-'' \<or> f = CHR ''+'' \<or> f = CHR '' ''" by auto
  then show ?case using Cons.IH Cons.prems by (elim disjE) (cases sp; auto)+
qed

lemma digit_char: "d < 10 \<Longrightarrow> isdigit (digs ! d) \<and> ord (digs ! d) = 48 + d"
  by (simp add: isdigit_def digs_nth)

lemma fmt_number_digits: "fmt_number (radix_digits 10 n @ r) v = fmt_number r (v * 10 ^ length (radix_digits 10 n) + int n)"
proof (induction n arbitrary: v r rule: less_induct)
  case (less n)
  show ?case
  proof (cases "n < 10")
    case True
    then show ?thesis using digit_char [of n] by (simp add: radix_digits.simps algebra_simps)
  next
    case False
    then have "n div 10 < n" by simp
    note IH = less.IH [OF this]
    have "int n = 10 * int (n div 10) + int (n mod 10)" by (simp add: zdiv_int zmod_int)
    then show ?thesis using False IH [of "[digs ! (n mod 10)] @ r" v] digit_char [of "n mod 10"]
      by (simp add: radix_digits.simps [of 10 n] algebra_simps)
  qed
qed

lemma radix_digits_first: "\<exists>d ds. radix_digits 10 n = digs ! d # ds \<and> d < 10 \<and> (n \<noteq> 0 \<longrightarrow> d \<noteq> 0)"
proof (induction n rule: less_induct)
  case (less n)
  show ?case
  proof (cases "n < 10")
    case True
    then show ?thesis by (intro exI [of _ n] exI [of _ "[]"]) (simp add: radix_digits.simps)
  next
    case False
    then show ?thesis using less.IH [of "n div 10"] by (auto simp: radix_digits.simps [of 10 n])
  qed
qed

lemma fmt_number_show:
  assumes "\<not> isdigit c"
  shows "fmt_number (radix_digits 10 n @ c # r) 0 = (int n, c # r)"
  using assms by (simp add: fmt_number_digits)

lemma peek_show: "n \<noteq> 0 \<Longrightarrow> isdigit (peek (radix_digits 10 n @ r)) \<and> peek (radix_digits 10 n @ r) \<noteq> CHR ''0''"
  "isdigit (peek (radix_digits 10 n @ r))"
proof -
  obtain d ds where d: "radix_digits 10 n = digs ! d # ds" "d < 10" "n \<noteq> 0 \<longrightarrow> d \<noteq> 0" using radix_digits_first by blast
  have "isdigit (digs ! d)" "ord (digs ! d) = 48 + d" using digit_char [OF d(2)] by simp_all
  then show "isdigit (peek (radix_digits 10 n @ r))" and "n \<noteq> 0 \<Longrightarrow> isdigit (peek (radix_digits 10 n @ r)) \<and> peek (radix_digits 10 n @ r) \<noteq> CHR ''0''"
    using d by (auto simp: peek_def)
qed

definition apply_width :: "int option \<Rightarrow> fmt_spec \<Rightarrow> fmt_spec" where
  "apply_width w sp = (case w of None \<Rightarrow> sp | Some l \<Rightarrow> if l < 0 then sp\<lparr>length_f := - l, ladjust_f := \<not> ladjust_f sp\<rparr> else sp\<lparr>length_f := l\<rparr>)"

definition apply_prec :: "int option \<Rightarrow> fmt_spec \<Rightarrow> fmt_spec" where
  "apply_prec p sp = (case p of None \<Rightarrow> sp | Some i \<Rightarrow> sp\<lparr>prec_f := i\<rparr>)"

lemma fmt_width_show:
  assumes "length_f sp = 0" and "\<not> isdigit c" and "c \<noteq> CHR ''*''" and "w \<noteq> Given 0" and "w = Star \<longrightarrow> args \<noteq> []"
  shows "fmt_width (show_amount w @ c # r) args sp = Some (apply_width (fst (amount_of w args)) sp, c # r, snd (amount_of w args))"
proof (cases w)
  case Absent
  then show ?thesis using assms by (simp add: fmt_width_def peek_def apply_width_def)
next
  case (Given n)
  then show ?thesis using assms fmt_number_show [OF assms(2), of n r] peek_show(2) [of n "c # r"] by (simp add: fmt_width_def apply_width_def)
next
  case Star
  then show ?thesis using assms by (cases args) (auto simp: fmt_width_def peek_def apply_width_def va_int_def isdigit_def)
qed

lemma fmt_prec_show:
  assumes "\<not> isdigit c" and "c \<notin> set ''.*''" and "p = Star \<longrightarrow> args \<noteq> []"
  shows "fmt_prec ((if p = Absent then [] else ''.'' @ show_amount p) @ c # r) args sp =
    Some (apply_prec (fst (amount_of p args)) sp, c # r, snd (amount_of p args))"
proof (cases p)
  case Absent
  then show ?thesis using assms by (simp add: fmt_prec_def peek_def apply_prec_def)
next
  case (Given n)
  then show ?thesis using assms fmt_number_show [OF assms(1), of n r] peek_show(2) [of n "c # r"]
    by (simp add: fmt_prec_def apply_prec_def peek_def [of "CHR ''.'' # _"])
next
  case Star
  then show ?thesis using assms by (cases args) (auto simp: fmt_prec_def peek_def apply_prec_def va_int_def isdigit_def)
qed

definition show_spec :: "directive \<Rightarrow> int option \<Rightarrow> int option \<Rightarrow> fmt_spec" where
  "show_spec d w p = apply_prec p (apply_width w (initial_spec\<lparr>altfmt_f := CHR ''#'' \<in> set (dr_flags d), ladjust_f := CHR ''-'' \<in> set (dr_flags d),
    plus_sign_f := (if CHR ''+'' \<in> set (dr_flags d) then Some CHR ''+'' else if CHR '' '' \<in> set (dr_flags d) then Some CHR '' '' else None),
    padc_f := (if dr_zero d then CHR ''0'' else CHR '' '')\<rparr>))"

lemma conv_char: "c \<in> set ''%csdiDuUoOxXpzZrRnN'' \<Longrightarrow> \<not> isdigit c \<and> c \<notin> set ''#-+ *.l0''"
  by (auto simp: isdigit_def)

lemma parse_show:
  assumes "piece_ok radix (Dir d)" and "takes d \<le> length args"
  defines "w \<equiv> amount_of (dr_width d) args"
  defines "p \<equiv> amount_of (dr_prec d) (snd w)"
  shows "parse_spec (tl (show_dir d) @ f) args = Some (show_spec d (fst w) (fst p), dr_conv d # f, snd p)"
proof -
  have "length (snd w) = length args - (if dr_width d = Star then 1 else 0)" unfolding w_def by (cases "dr_width d") auto
  then have a: "dr_prec d = Star \<longrightarrow> snd w \<noteq> []" "dr_width d = Star \<longrightarrow> args \<noteq> []" using assms(2) by (auto simp: takes_def split: if_splits)
  let ?c = "(if dr_long d then ''l'' else []) @ dr_conv d # f"
  let ?p = "(if dr_prec d = Absent then [] else ''.'' @ show_amount (dr_prec d)) @ ?c"
  let ?w = "show_amount (dr_width d) @ ?p"
  let ?z = "(if dr_zero d then ''0'' else []) @ ?w"
  have c: "\<not> isdigit (dr_conv d)" "dr_conv d \<notin> set ''#-+ *.l0''" using conv_char [of "dr_conv d"] assms(1) by simp_all
  obtain c' r' where c': "?c = c' # r'" "\<not> isdigit c'" "c' \<notin> set ''#-+ *.0''" using c by (cases "dr_long d") (auto simp: isdigit_def)
  obtain e s where e: "?p = e # s" "\<not> isdigit e" "e \<notin> set ''#-+ *0''" using c' by (cases "dr_prec d = Absent") (auto simp: isdigit_def)
  obtain g t where g: "?w = g # t" "g \<notin> set ''#-+ 0''"
  proof (cases "dr_width d")
    case (Given n)
    then have "isdigit (peek ?w)" "peek ?w \<noteq> CHR ''0''" using peek_show(1) [of n ?p] assms(1) by auto
    then obtain g t where g: "?w = g # t" "isdigit g" "g \<noteq> CHR ''0''" by (cases ?w) (auto simp: peek_def isdigit_def)
    then have "g \<notin> set ''#-+ 0''" by (auto simp: isdigit_def)
    with g(1) show ?thesis by (rule that)
  qed (use that e in auto)
  obtain k u where k: "?z = k # u" "k \<notin> set ''#-+ ''" using g by (cases "dr_zero d") auto
  let ?s1 = "initial_spec\<lparr>altfmt_f := CHR ''#'' \<in> set (dr_flags d), ladjust_f := CHR ''-'' \<in> set (dr_flags d),
    plus_sign_f := (if CHR ''+'' \<in> set (dr_flags d) then Some CHR ''+'' else if CHR '' '' \<in> set (dr_flags d) then Some CHR '' '' else None)\<rparr>"
  let ?s2 = "?s1\<lparr>padc_f := (if dr_zero d then CHR ''0'' else CHR '' '')\<rparr>"
  have "fmt_flags (dr_flags d @ ?z) initial_spec = (?s1, ?z)" unfolding k(1) using fmt_flags_show [of "dr_flags d" k u initial_spec] assms(1) k(2) by simp
  moreover have "(if peek ?z = CHR ''0'' then (?s1\<lparr>padc_f := CHR ''0''\<rparr>, tl ?z) else (?s1, ?z)) = (?s2, ?w)"
    using g by (auto simp: peek_def initial_spec_def)
  moreover have "fmt_width ?w args ?s2 = Some (apply_width (fst w) ?s2, ?p, snd w)"
    unfolding e(1) w_def using e(3) a(2) assms(1) by (intro fmt_width_show [OF _ e(2)]) simp_all
  moreover have "fmt_prec ?p (snd w) (apply_width (fst w) ?s2) = Some (show_spec d (fst w) (fst p), ?c, snd p)"
    unfolding c'(1) p_def show_spec_def using c'(3) by (intro fmt_prec_show [OF c'(2)]) (simp_all add: a)
  moreover have "(if peek ?c = CHR ''l'' then tl ?c else ?c) = dr_conv d # f" using c by (auto simp: peek_def)
  moreover have "tl (show_dir d) @ f = dr_flags d @ ?z" by (simp add: show_dir_def)
  ultimately show ?thesis by (simp add: parse_spec_def)
qed

lemma print_num_text:
  assumes "2 \<le> b" and "b \<le> 16" and "padc_f sp = CHR '' '' \<or> padc_f sp = CHR ''0''"
  shows "print_num sp sg u b = Some (number_text (altfmt_f sp) (padc_f sp = CHR ''0'') (ladjust_f sp) (nat (length_f sp)) (nat (prec_f sp))
    (case sg of None \<Rightarrow> [] | Some c \<Rightarrow> [c]) (nat b) (unat u))"
proof -
  let ?ds = "radix_digits (nat b) (unat u)" let ?pre = "if u \<noteq> 0 \<and> altfmt_f sp then (if b = 8 then ''0'' else if b = 16 then ''0x'' else []) else []"
  let ?sg = "case sg of None \<Rightarrow> [] | Some c \<Rightarrow> [c]"
  have n: "printnum u b = Some ?ds" using assms(1,2) num_loop_digits [of "nat b" "unat u" "[]"] by (simp add: printnum_def)
  have pre: "(if altfmt_f sp \<and> unat u \<noteq> 0 then (if nat b = 8 then ''0'' else if nat b = 16 then ''0x'' else []) else []) = ?pre"
    using assms(1,2) by (auto simp: unat_eq_0)
  have z: "nat (prec_f sp - int (length ?ds)) = nat (prec_f sp) - length ?ds" by simp
  define L where "L = length_f sp - int (length ?ds) - (if sg \<noteq> None then 1 else 0) - int (length ?pre) -
    (if prec_f sp - int (length ?ds) > 0 then prec_f sp - int (length ?ds) else 0)"
  define F where "F = nat (length_f sp) - length (?sg @ ?pre @ replicate (nat (prec_f sp) - length ?ds) CHR ''0'' @ ?ds)"
  have l: "nat L = F" unfolding L_def F_def by (cases sg) (auto simp: nat_diff_distrib')
  have ap: "nat (after_pad k) = 0" for k by (simp add: after_pad_def)
  show ?thesis using assms(3) unfolding print_num_def number_text_def n pre Let_def option.case pad_def z L_def [symmetric] F_def [symmetric]
    by (cases "ladjust_f sp"; elim disjE) (simp_all add: ap l split del: if_split)
qed

lemma print_string_text:
  assumes "length s < 0x7fffffff"
  shows "print_string sp s = string_text (ladjust_f sp) (nat (length_f sp)) (if prec_f sp = - 1 then None else Some (nat (prec_f sp))) s"
proof -
  let ?p = "if prec_f sp = - 1 then 0x7fffffff else prec_f sp" let ?t = "take (nat ?p) s"
  have t: "(case if prec_f sp = - 1 then None else Some (nat (prec_f sp)) of None \<Rightarrow> s | Some p \<Rightarrow> take p s) = ?t" using assms by simp
  have "(if int (length s) > max ?p 0 then max ?p 0 + 1 else int (length s)) = int (length ?t) + (if length ?t < length s then 1 else 0)"
  proof (cases "int (length s) > max ?p 0")
    case True
    then have "nat ?p < length s" "int (nat ?p) = max ?p 0" by (auto simp only: max_def split: if_splits)
    then show ?thesis using True by (simp only: length_take if_True min.absorb2 less_imp_le)
  next
    case False
    then have "length s \<le> nat ?p" by (auto simp only: max_def split: if_splits)
    then show ?thesis using False by (simp only: length_take if_False min.absorb1 less_irrefl add_0_right of_nat_0)
  qed
  then show ?thesis unfolding print_string_def string_text_def Let_def pad_def t by (auto simp: nat_diff_distrib' nat_add_distrib simp del: length_take)
qed

lemma sint_u64: "sint (n :: u64) = uint n - (if bit n 63 then 2 ^ 64 else 0)"
  using uint_bounded [of n] by (simp add: sint_uint signed_take_bit_eq_take_bit_minus take_bit_int_eq_self_iff bit_uint_iff)

lemma unat_signed: "0 \<le> sint (n :: u64) \<Longrightarrow> unat n = nat \<bar>sint n\<bar>"
  using uint_bounded [of n] by (auto simp: sint_u64 split: if_splits)

lemma unat_uminus_signed: "sint (n :: u64) < 0 \<Longrightarrow> unat (- n) = nat \<bar>sint n\<bar>"
proof -
  assume s: "sint n < 0"
  then have u: "sint n = uint n - 2 ^ 64" "0 < uint n" using sint_greater_eq [of n] by (auto simp: sint_u64 split: if_splits)
  have "uint (- n) = (2 ^ 64 - uint n) mod 2 ^ 64" by (simp add: uint_word_ariths)
  also have "\<dots> = 2 ^ 64 - uint n" using s u by (intro mod_pos_pos_trivial) simp_all
  finally show ?thesis using u s by (metis abs_of_neg minus_diff_eq nat_uint_eq)
qed

lemma show_spec_sel:
  "altfmt_f (show_spec d w p) = (CHR ''#'' \<in> set (dr_flags d))" "padc_f (show_spec d w p) = (if dr_zero d then CHR ''0'' else CHR '' '')"
  "ladjust_f (show_spec d w p) = ((CHR ''-'' \<in> set (dr_flags d)) \<noteq> (case w of None \<Rightarrow> False | Some i \<Rightarrow> i < 0))"
  "length_f (show_spec d w p) = (case w of None \<Rightarrow> 0 | Some i \<Rightarrow> \<bar>i\<bar>)" "prec_f (show_spec d w p) = (case p of None \<Rightarrow> - 1 | Some i \<Rightarrow> i)"
  "plus_sign_f (show_spec d w p) = (if CHR ''+'' \<in> set (dr_flags d) then Some CHR ''+'' else if CHR '' '' \<in> set (dr_flags d) then Some CHR '' '' else None)"
  by (auto simp: show_spec_def apply_prec_def apply_width_def split: option.splits)

lemma print_unsigned_show:
  assumes "2 \<le> b" and "b \<le> 16"
  shows "print_unsigned (show_spec d w p) (a # rest) b = Some (number_text (CHR ''#'' \<in> set (dr_flags d)) (dr_zero d)
    ((CHR ''-'' \<in> set (dr_flags d)) \<noteq> (case w of None \<Rightarrow> False | Some i \<Rightarrow> i < 0)) (case w of None \<Rightarrow> 0 | Some i \<Rightarrow> nat \<bar>i\<bar>)
    (case p of None \<Rightarrow> 0 | Some i \<Rightarrow> nat i) [] (nat b) (unat a), rest)"
  using print_num_text [OF assms, of "show_spec d w p" None a]
  by (simp add: print_unsigned_def va_long_def show_spec_sel split: option.splits)

lemma print_signed_show:
  assumes "2 \<le> b" and "b \<le> 16"
  shows "print_signed (show_spec d w p) (a # rest) b = Some (number_text (CHR ''#'' \<in> set (dr_flags d)) (dr_zero d)
    ((CHR ''-'' \<in> set (dr_flags d)) \<noteq> (case w of None \<Rightarrow> False | Some i \<Rightarrow> i < 0)) (case w of None \<Rightarrow> 0 | Some i \<Rightarrow> nat \<bar>i\<bar>)
    (case p of None \<Rightarrow> 0 | Some i \<Rightarrow> nat i) (sign_text (dr_flags d) (sint a)) (nat b) (nat \<bar>sint a\<bar>), rest)"
proof (cases "0 \<le> sint a")
  case True
  then show ?thesis using print_num_text [OF assms, of "show_spec d w p" "plus_sign_f (show_spec d w p)" a] unat_signed [OF True]
    by (simp add: print_signed_def va_long_def show_spec_sel sign_text_def split: option.splits)
next
  case False
  then show ?thesis using print_num_text [OF assms, of "show_spec d w p" "Some CHR ''-''" "- a"] unat_uminus_signed [of a]
    by (simp add: print_signed_def va_long_def show_spec_sel sign_text_def split: option.splits)
qed

lemma print_pointer_show:
  "print_unsigned ((show_spec d w p)\<lparr>padc_f := CHR ''0'', length_f := 8\<rparr>) (a # rest) 16 = Some (number_text (CHR ''#'' \<in> set (dr_flags d)) True
    ((CHR ''-'' \<in> set (dr_flags d)) \<noteq> (case w of None \<Rightarrow> False | Some i \<Rightarrow> i < 0)) 8 (case p of None \<Rightarrow> 0 | Some i \<Rightarrow> nat i) [] 16 (unat a), rest)"
  using print_num_text [of 16 "(show_spec d w p)\<lparr>padc_f := CHR ''0'', length_f := 8\<rparr>" None a]
  by (simp add: print_unsigned_def va_long_def show_spec_sel split: option.splits)

lemma convert_show:
  assumes ok: "piece_ok radix (Dir d)" and str: "\<forall>q. length (str q) < 0x7fffffff" and args: "dr_conv d \<noteq> CHR ''%'' \<longrightarrow> args \<noteq> []"
  shows "convert str radix (show_spec d w p) (dr_conv d) args =
    Some (conv_text str radix d w p (hd args), if dr_conv d = CHR ''%'' then args else tl args)"
proof (cases args)
  case Nil
  then show ?thesis using args by (simp add: convert_def conv_text_def)
next
  case (Cons a rest)
  have s: "print_string (show_spec d w p) t = string_text ((CHR ''-'' \<in> set (dr_flags d)) \<noteq> (case w of None \<Rightarrow> False | Some i \<Rightarrow> i < 0))
      (case w of None \<Rightarrow> 0 | Some i \<Rightarrow> nat \<bar>i\<bar>) (if p = None \<or> p = Some (- 1) then None else Some (case p of None \<Rightarrow> 0 | Some i \<Rightarrow> nat i)) t"
    if "length t < 0x7fffffff" for t using print_string_text [OF that, of "show_spec d w p"] by (simp add: show_spec_sel split: option.splits)
  have "dr_conv d \<in> set ''%csdiDuUoOxXpzZrRnN''" and r: "dr_conv d \<in> set ''rRnN'' \<Longrightarrow> 2 \<le> radix \<and> radix \<le> 16" using ok by simp_all
  then consider "dr_conv d = CHR ''%''" | "dr_conv d = CHR ''c''" | "dr_conv d = CHR ''s''" | "dr_conv d = CHR ''p''" | "dr_conv d \<in> set ''diD''"
    | "dr_conv d \<in> set ''uU''" | "dr_conv d \<in> set ''oO''" | "dr_conv d \<in> set ''xX''" | "dr_conv d \<in> set ''zZ''"
    | "dr_conv d \<in> set ''rR''" | "dr_conv d \<in> set ''nN''" by auto
  then show ?thesis
  proof cases
    case 3
    then show ?thesis using Cons str s [of "if a = 0 then [] else str a"] by (simp add: convert_def conv_text_def va_long_def Let_def)
  next
    case 10
    then show ?thesis using Cons r by (auto simp: convert_def conv_text_def Let_def print_signed_show)
  next
    case 11
    then show ?thesis using Cons r by (auto simp: convert_def conv_text_def Let_def print_unsigned_show)
  qed (auto simp: Cons convert_def conv_text_def Let_def va_long_def print_signed_show print_unsigned_show print_pointer_show)
qed

lemma doprnt_dir:
  assumes "piece_ok radix (Dir d)" and "takes d \<le> length args" and "\<forall>q. length (str q) < 0x7fffffff"
  shows "doprnt str radix (show_dir d @ f) args =
    map_option ((@) (fst (dir_text str radix d args))) (doprnt str radix f (snd (dir_text str radix d args)))"
    and "length (snd (dir_text str radix d args)) = length args - takes d"
proof -
  let ?w = "amount_of (dr_width d) args" let ?p = "amount_of (dr_prec d) (snd ?w)"
  have l: "length (snd ?w) = length args - (if dr_width d = Star then 1 else 0)" by (cases "dr_width d") auto
  have l2: "length (snd ?p) = length (snd ?w) - (if dr_prec d = Star then 1 else 0)" by (cases "dr_prec d") auto
  have "dr_conv d \<noteq> CHR ''%'' \<Longrightarrow> 0 < length (snd ?p)" unfolding l2 l using assms(2) by (auto simp: takes_def)
  then have ne: "dr_conv d \<noteq> CHR ''%'' \<longrightarrow> snd ?p \<noteq> []" by blast
  have e: "show_dir d @ f = CHR ''%'' # tl (show_dir d) @ f" by (simp add: show_dir_def)
  show "doprnt str radix (show_dir d @ f) args =
      map_option ((@) (fst (dir_text str radix d args))) (doprnt str radix f (snd (dir_text str radix d args)))"
    unfolding e using convert_show [OF assms(1,3) ne, of "fst ?w" "fst ?p"] parse_show [OF assms(1,2), of f]
    by (simp add: dir_text_def Let_def case_prod_beta del: piece_ok.simps)
  show "length (snd (dir_text str radix d args)) = length args - takes d"
    using l l2 by (auto simp: dir_text_def Let_def case_prod_beta takes_def)
qed

section \<open>Properties\<close>

text \<open>
  C39: Printing a number and parsing it back gives the number: for every base from 2 to 16 the
  digits fit the buffer of \<^verbatim>\<open>MAXBUF\<close> characters, and \<^verbatim>\<open>strtoul\<close> on them, followed by any text that does
  not go on with a digit or an \<^verbatim>\<open>x\<close>, returns the number and stops at that text.
\<close>

theorem printnum_strtoul_roundtrip:
  assumes "2 \<le> base" and "base \<le> 16"
    and "rest = [] \<or> digit_value (hd rest) base = None \<and> hd rest \<notin> {CHR ''x'', CHR ''X''}"
  shows "\<exists>s. printnum u base = Some s \<and> 1 \<le> length s \<and> length s \<le> MAXBUF \<and> strtoul (s @ rest) base = (u, rest)"
proof -
  have b: "2 \<le> nat base" "nat base \<le> 16" using assms(1,2) by auto
  let ?s = "num_loop (unat u) (nat base) []"
  have p: "printnum u base = Some ?s" using assms(1,2) by (simp add: printnum_def)
  have "unat u < 2 ^ 64" using unsigned_less [of u] by simp
  then have "length ?s \<le> MAXBUF" using num_loop_length [OF b(1), of "unat u" 64 "[]"] by (simp add: MAXBUF_def)
  moreover have "1 \<le> length ?s" using num_loop_chars [OF b, of "unat u" "[]"] by (auto simp: Suc_le_eq)
  ultimately show ?thesis using p strtoul_printnum [OF p assms(3)] by blast
qed

theorem printnum_strtoul_roundtrip_witness:
  "\<exists>s. printnum 48879 16 = Some s \<and> 1 \<le> length s \<and> length s \<le> MAXBUF \<and> strtoul (s @ '';'') 16 = (48879, '';'')"
  by (rule printnum_strtoul_roundtrip) (simp_all add: digit_value_def Let_def)

text \<open>
  C31: The console receives the characters of the formatted text, all of them and in their order,
  after what it already had, whatever the line breaks and the fill level of the 128-character
  buffer of \<^verbatim>\<open>vprintf\<close> were; \<^verbatim>\<open>puts\<close> adds its string and a newline.
\<close>

theorem vprintf_in_order:
  assumes "length stack = PRINTF_BUFMAX" and "doprnt str 0 fmt args = Some out"
  shows "vprintf str stack con fmt args = Some (con @ out, 0) \<and> puts con s = (con @ s @ [CHR 0x0A], 0)"
  using vprintf_output [OF assms] puts_output by simp

theorem vprintf_in_order_witness:
  "vprintf (\<lambda>_. []) (replicate PRINTF_BUFMAX CHR ''z'') ''a'' ''b'' [] = Some (''a'' @ ''b'', 0) \<and>
   puts ''a'' ''c'' = (''a'' @ ''c'' @ [CHR 0x0A], 0)"
  by (rule vprintf_in_order) simp_all

text \<open>
  C40: \<^verbatim>\<open>vsnprintf\<close> with a size below the all-ones value stores the first \<open>size\<close> characters of the
  formatted text followed by a NUL, writes nothing else and returns the number of characters
  stored.  When the text has at least \<open>size\<close> characters the NUL goes to the byte after the buffer of
  \<open>size\<close> bytes.
\<close>

theorem vsnprintf_stores:
  assumes "doprnt str 0 fmt args = Some out" and "unat sz < 2 ^ 31"
  shows "vsnprintf str m s sz fmt args =
    Some (mwrite m s (take (unat sz) out @ [CHR 0x00]), int (min (unat sz) (length out)))"
proof -
  have u: "unat (ucast sz :: u32) = unat sz" using assms(2) by (simp add: unsigned_ucast_eq take_bit_nat_eq_self)
  then have nu: "(ucast sz :: u32) \<noteq> SPRINTF_UNLIMITED"
    using assms(2) by (auto simp: SPRINTF_UNLIMITED_def word_unat_eq_iff unsigned_minus_1_eq_mask mask_eq_exp_minus_1)
  let ?n = "min (unat sz) (length out)"
  have "sint (word_of_nat ?n :: u32) = int ?n"
    using assms(2) by (simp add: signed_of_nat signed_take_bit_int_eq_self_iff del: of_nat_min of_nat_less_iff)
  then show ?thesis
    using assms(1) savechar_limited [of "\<lparr>sbuf = s, slen = 0, smax = ucast sz\<rparr>" "unat sz" m out] nu u
    by (simp add: vsnprintf_def mwrite_snoc min.commute del: fun_upd_apply of_nat_min)
qed

theorem vsnprintf_stores_witness:
  "vsnprintf (\<lambda>_. []) (\<lambda>_. CHR ''z'') 0 2 ''abc'' [] =
    Some (mwrite (\<lambda>_. CHR ''z'') 0 (take (unat (2 :: u64)) ''abc'' @ [CHR 0x00]), int (min (unat (2 :: u64)) (length ''abc'')))"
  by (rule vsnprintf_stores) simp_all

text \<open>
  The field of \<^verbatim>\<open>%s\<close> is as wide as the width asks for when it is right-adjusted or the string is
  not cut, and one column narrower when a left-adjusted string is cut at its precision.
\<close>

theorem print_string_width:
  assumes "0 \<le> prec_f sp" and "0 \<le> length_f sp"
  shows "int (length (print_string sp p)) =
    (if ladjust_f sp \<and> prec_f sp < int (length p)
     then max (prec_f sp) (length_f sp - 1) else max (min (prec_f sp) (int (length p))) (length_f sp))"
  using assms by (auto simp: print_string_def Let_def pad_def min_def max_def)

theorem print_string_width_witness:
  "int (length (print_string (initial_spec\<lparr>prec_f := 3, length_f := 10, ladjust_f := True\<rparr>) ''abcdef'')) =
    max 3 (10 - 1)"
  using print_string_width [of "initial_spec\<lparr>prec_f := 3, length_f := 10, ladjust_f := True\<rparr>" "''abcdef''"]
  by (simp add: initial_spec_def)


text \<open>The format \<^verbatim>\<open>%s=%-5d|%#*lx%%\<close>.\<close>

definition sample_format :: "piece list" where
  "sample_format =
    [Dir \<lparr>dr_flags = [], dr_zero = False, dr_width = Absent, dr_prec = Absent, dr_long = False, dr_conv = CHR ''s''\<rparr>, Txt ''='',
     Dir \<lparr>dr_flags = ''-'', dr_zero = False, dr_width = Given 5, dr_prec = Absent, dr_long = False, dr_conv = CHR ''d''\<rparr>, Txt ''|'',
     Dir \<lparr>dr_flags = ''#'', dr_zero = False, dr_width = Star, dr_prec = Absent, dr_long = True, dr_conv = CHR ''x''\<rparr>,
     Dir \<lparr>dr_flags = [], dr_zero = False, dr_width = Absent, dr_prec = Absent, dr_long = False, dr_conv = CHR ''%''\<rparr>]"


end
