(* ===== verification/Tinyalloc.thy ===== *)
theory Tinyalloc
  imports Prelude
begin

text \<open>
  The heap allocator of \<^verbatim>\<open>lib/tinyalloc.c\<close>.  The three singly linked lists of the \<^verbatim>\<open>Heap\<close> structure are
  lists of blocks, addresses and sizes are 64-bit words that wrap, and the file-scope configuration
  is part of the state.  The invariant says that the free and the used blocks tile the heap from
  its start to its top: every byte belongs to exactly one block.
\<close>

section \<open>Definitions\<close>

record block =
  addr :: u64
  bsize :: u64

record ta_heap =
  free_b :: "block list"
  used_b :: "block list"
  fresh_b :: "block list"
  top :: u64
  heap_limit :: u64
  heap_split_thresh :: u64
  heap_alignment :: u64
  heap_max_blocks :: u64

fun insert_block :: "block \<Rightarrow> block list \<Rightarrow> block list" where
  "insert_block b [] = [b]"
| "insert_block b (ptr # ps) = (if addr b \<le> addr ptr then b # ptr # ps else ptr # insert_block b ps)"

fun release_blocks :: "block list \<Rightarrow> block list \<Rightarrow> block list" where
  "release_blocks [] fresh = fresh"
| "release_blocks (scan # bs) fresh = release_blocks bs (scan\<lparr>addr := 0, bsize := 0\<rparr> # fresh)"

text \<open>The inner loop of \<^verbatim>\<open>compact\<close>: the last block of the run, the rest and the blocks merged.\<close>

fun merge_run :: "block \<Rightarrow> block list \<Rightarrow> block \<times> block list \<times> block list" where
  "merge_run prev [] = (prev, [], [])"
| "merge_run prev (scan # ps) =
    (if addr prev + bsize prev = addr scan
     then let (p, r, ms) = merge_run scan ps in (p, r, scan # ms)
     else (prev, scan # ps, []))"

lemma merge_run_split: "merge_run prev ps = (p, r, ms) \<Longrightarrow> ps = ms @ r"
  by (induction prev ps arbitrary: p r ms rule: merge_run.induct) (auto split: if_splits prod.splits)

function compact :: "block list \<Rightarrow> block list \<Rightarrow> block list \<times> block list" where
  "compact [] fresh = ([], fresh)"
| "compact (ptr # ps) fresh =
    (let (prev, r, ms) = merge_run ptr ps;
         ptr' = (if ms \<noteq> [] then ptr\<lparr>bsize := addr prev - addr ptr + bsize prev\<rparr> else ptr);
         (fs, fresh') = compact r (release_blocks ms fresh)
     in (ptr' # fs, fresh'))"
  by pat_completeness auto
termination
  by (relation "measure (\<lambda>(ps, fresh). length ps)") (auto dest!: merge_run_split [OF sym])

text \<open>
  \<^verbatim>\<open>ta_init\<close>: the \<^verbatim>\<open>Heap\<close> structure takes 32 bytes and a \<^verbatim>\<open>Block\<close> 24; \<open>raw\<close> is what the memory of the
  blocks held before.  With no blocks the loop that links them does not end in the heap.
\<close>

definition ta_init :: "(nat \<Rightarrow> block) \<Rightarrow> u64 \<Rightarrow> u64 \<Rightarrow> u64 \<Rightarrow> u64 \<Rightarrow> u64 \<Rightarrow> ta_heap option" where
  "ta_init raw base limit heap_blocks split_thresh alignment =
    (if heap_blocks = 0 then None
     else Some \<lparr>free_b = [], used_b = [], fresh_b = map raw [0..<unat heap_blocks],
       top = base + 32 + 24 * heap_blocks, heap_limit = limit, heap_split_thresh = split_thresh,
       heap_alignment = alignment, heap_max_blocks = heap_blocks\<rparr>)"

fun ta_free_scan :: "u64 \<Rightarrow> block list \<Rightarrow> (block list \<times> block \<times> block list) option" where
  "ta_free_scan p [] = None"
| "ta_free_scan p (b # bs) =
    (if p = addr b then Some ([], b, bs)
     else map_option (\<lambda>(pre, x, post). (b # pre, x, post)) (ta_free_scan p bs))"

definition ta_free :: "ta_heap \<Rightarrow> u64 \<Rightarrow> ta_heap \<times> bool" where
  "ta_free h p =
    (case ta_free_scan p (used_b h) of
       None \<Rightarrow> (h, False)
     | Some (pre, b, post) \<Rightarrow>
         (let (fs, fresh) = compact (insert_block b (free_b h)) (fresh_b h)
          in (h\<lparr>free_b := fs, used_b := pre @ post, fresh_b := fresh\<rparr>, True)))"

definition is_top :: "ta_heap \<Rightarrow> u64 \<Rightarrow> block \<Rightarrow> bool" where
  "is_top h num ptr \<longleftrightarrow> addr ptr + bsize ptr \<ge> top h \<and> addr ptr + num \<le> heap_limit h"

fun alloc_scan :: "ta_heap \<Rightarrow> u64 \<Rightarrow> block list \<Rightarrow> (block list \<times> block \<times> block list) option" where
  "alloc_scan h num [] = None"
| "alloc_scan h num (ptr # ps) =
    (if is_top h num ptr \<or> bsize ptr \<ge> num then Some ([], ptr, ps)
     else map_option (\<lambda>(pre, x, post). (ptr # pre, x, post)) (alloc_scan h num ps))"

definition round_num :: "ta_heap \<Rightarrow> u64 \<Rightarrow> u64" where
  "round_num h num = (num + heap_alignment h - 1) AND (- heap_alignment h)"

definition alloc_block :: "ta_heap \<Rightarrow> u64 \<Rightarrow> ta_heap \<times> block option" where
  "alloc_block h num0 =
    (let num = round_num h num0 in
     case alloc_scan h num (free_b h) of
       Some (pre, ptr, post) \<Rightarrow>
         (let h1 = h\<lparr>free_b := pre @ post\<rparr>; cut = ptr\<lparr>bsize := num\<rparr> in
          if is_top h num ptr then
            (h1\<lparr>used_b := cut # used_b h, top := addr ptr + num\<rparr>, Some cut)
          else
            (case fresh_b h of
               [] \<Rightarrow> (h1\<lparr>used_b := ptr # used_b h\<rparr>, Some ptr)
             | split # fresh \<Rightarrow>
                 (let excess = bsize ptr - num in
                  if excess \<ge> heap_split_thresh h then
                    (let (fs, fresh') = compact (insert_block (split\<lparr>addr := addr ptr + num, bsize := excess\<rparr>) (pre @ post)) fresh
                     in (h1\<lparr>free_b := fs, used_b := cut # used_b h, fresh_b := fresh'\<rparr>, Some cut))
                  else (h1\<lparr>used_b := ptr # used_b h\<rparr>, Some ptr))))
     | None \<Rightarrow>
         (case fresh_b h of
            ptr # fresh \<Rightarrow>
              (if top h + num \<le> heap_limit h then
                 (let b = ptr\<lparr>addr := top h, bsize := num\<rparr>
                  in (h\<lparr>fresh_b := fresh, used_b := b # used_b h, top := top h + num\<rparr>, Some b))
               else (h, None))
          | [] \<Rightarrow> (h, None)))"

definition ta_alloc :: "ta_heap \<Rightarrow> u64 \<Rightarrow> ta_heap \<times> u64 option" where
  "ta_alloc h num = (let (h', b) = alloc_block h num in (h', map_option addr b))"

text \<open>\<^verbatim>\<open>memclear\<close> clears whole words and then the bytes left.\<close>

fun clear_words :: "(u64 \<Rightarrow> u8) \<Rightarrow> u64 \<Rightarrow> nat \<Rightarrow> (u64 \<Rightarrow> u8) \<times> u64" where
  "clear_words m p 0 = (m, p)"
| "clear_words m p (Suc n) =
    clear_words (m(p := 0, p + 1 := 0, p + 2 := 0, p + 3 := 0, p + 4 := 0, p + 5 := 0, p + 6 := 0, p + 7 := 0)) (p + 8) n"

fun clear_bytes :: "(u64 \<Rightarrow> u8) \<Rightarrow> u64 \<Rightarrow> nat \<Rightarrow> u64 \<Rightarrow> u8" where
  "clear_bytes m p 0 = m"
| "clear_bytes m p (Suc n) = clear_bytes (m(p := 0)) (p + 1) n"

definition memclear :: "(u64 \<Rightarrow> u8) \<Rightarrow> u64 \<Rightarrow> u64 \<Rightarrow> u64 \<Rightarrow> u8" where
  "memclear m ptr num =
    (let (m1, p) = clear_words m ptr (unat ((num AND - 8) div 8)) in clear_bytes m1 p (unat (num AND 7)))"

definition ta_calloc :: "ta_heap \<Rightarrow> (u64 \<Rightarrow> u8) \<Rightarrow> u64 \<Rightarrow> u64 \<Rightarrow> ta_heap \<times> (u64 \<Rightarrow> u8) \<times> u64 option" where
  "ta_calloc h m num sz =
    (let (h', b) = alloc_block h (num * sz) in
     case b of None \<Rightarrow> (h', m, None) | Some b \<Rightarrow> (h', memclear m (addr b) (num * sz), Some (addr b)))"

fun count_blocks :: "block list \<Rightarrow> u64" where
  "count_blocks [] = 0"
| "count_blocks (b # bs) = count_blocks bs + 1"

definition ta_num_free :: "ta_heap \<Rightarrow> u64" where "ta_num_free h = count_blocks (free_b h)"
definition ta_num_used :: "ta_heap \<Rightarrow> u64" where "ta_num_used h = count_blocks (used_b h)"
definition ta_num_fresh :: "ta_heap \<Rightarrow> u64" where "ta_num_fresh h = count_blocks (fresh_b h)"

definition ta_check :: "ta_heap \<Rightarrow> bool" where
  "ta_check h \<longleftrightarrow> heap_max_blocks h = ta_num_free h + ta_num_used h + ta_num_fresh h"

definition free :: "ta_heap \<Rightarrow> u64 \<Rightarrow> ta_heap" where
  "free h p = fst (ta_free h p)"

definition malloc :: "ta_heap \<Rightarrow> u64 \<Rightarrow> ta_heap \<times> u64 option" where
  "malloc h sz = ta_alloc h sz"

definition calloc :: "ta_heap \<Rightarrow> (u64 \<Rightarrow> u8) \<Rightarrow> u64 \<Rightarrow> u64 \<Rightarrow> ta_heap \<times> (u64 \<Rightarrow> u8) \<times> u64 option" where
  "calloc h m num sz = ta_calloc h m num sz"

section \<open>The invariant\<close>

definition lo :: "block \<Rightarrow> nat" where "lo b = unat (addr b)"
definition hi :: "block \<Rightarrow> nat" where "hi b = unat (addr b) + unat (bsize b)"

text \<open>How many blocks of a list hold the byte at an address.\<close>

definition holds :: "block \<Rightarrow> nat \<Rightarrow> nat" where
  "holds b a = (if lo b \<le> a \<and> a < hi b then 1 else 0)"

definition cover :: "block list \<Rightarrow> nat \<Rightarrow> nat" where
  "cover bs a = sum_list (map (\<lambda>b. holds b a) bs)"

definition aligned_blk :: "nat \<Rightarrow> block \<Rightarrow> bool" where
  "aligned_blk al b \<longleftrightarrow> al dvd unat (addr b) \<and> al dvd unat (bsize b)"

definition ta_inv :: "nat \<Rightarrow> nat \<Rightarrow> ta_heap \<Rightarrow> bool" where
  "ta_inv start k h \<longleftrightarrow>
    (\<forall>a. cover (free_b h @ used_b h) a = (if start \<le> a \<and> a < unat (top h) then 1 else 0)) \<and>
    (\<forall>b \<in> set (free_b h @ used_b h). bsize b \<noteq> 0 \<and> aligned_blk (2 ^ k) b) \<and>
    sorted (map addr (free_b h)) \<and>
    start \<le> unat (top h) \<and> top h \<le> heap_limit h \<and> 2 ^ k dvd unat (top h) \<and>
    heap_alignment h = 2 ^ k \<and> k < 64 \<and> 0 < heap_split_thresh h \<and>
    length (free_b h) + length (used_b h) + length (fresh_b h) = unat (heap_max_blocks h)"

lemma cover_simps [simp]:
  "cover [] a = 0" "cover (b # bs) a = holds b a + cover bs a" "cover (xs @ ys) a = cover xs a + cover ys a"
  by (simp_all add: cover_def)

lemma holds_le_cover: "b \<in> set bs \<Longrightarrow> holds b a \<le> cover bs a"
  by (induction bs) auto

lemma block_sel [simp]: "lo (b\<lparr>addr := x\<rparr>) = unat x" "lo (b\<lparr>bsize := y\<rparr>) = lo b"
  "hi (b\<lparr>addr := x, bsize := y\<rparr>) = unat x + unat y" "hi (b\<lparr>bsize := y\<rparr>) = lo b + unat y"
  by (simp_all add: lo_def hi_def)

lemma lo_less_hi: "bsize b \<noteq> 0 \<Longrightarrow> lo b < hi b"
  by (simp add: lo_def hi_def unat_gt_0)

lemma tile_bounds:
  assumes "\<forall>a. cover bs a = (if start \<le> a \<and> a < T then 1 else 0)" and "b \<in> set bs" and "bsize b \<noteq> 0"
  shows "start \<le> lo b" and "hi b \<le> T"
proof -
  have l: "lo b < hi b" by (rule lo_less_hi) fact
  have "holds b a \<le> (if start \<le> a \<and> a < T then 1 else 0)" for a
    using holds_le_cover [OF assms(2), of a] assms(1) by simp
  from this [of "lo b"] this [of "hi b - 1"] l show "start \<le> lo b" and "hi b \<le> T"
    by (auto simp: holds_def split: if_splits)
qed

lemma end_word: "hi b < 2 ^ 64 \<Longrightarrow> unat (addr b + bsize b) = hi b"
  by (simp add: hi_def unat_word_ariths)

section \<open>Lists of blocks\<close>

lemma insert_block_props:
  "cover (insert_block b bs) a = holds b a + cover bs a"
  "set (insert_block b bs) = insert b (set bs)"
  "length (insert_block b bs) = Suc (length bs)"
  "sorted (map addr bs) \<Longrightarrow> sorted (map addr (insert_block b bs))"
proof -
  show s: "set (insert_block b bs) = insert b (set bs)" for bs by (induction bs) auto
  show "sorted (map addr bs) \<Longrightarrow> sorted (map addr (insert_block b bs))"
    by (induction bs) (auto simp: s)
qed (induction bs; simp)+

lemma length_release [simp]: "length (release_blocks ms fresh) = length ms + length fresh"
  by (induction ms fresh rule: release_blocks.induct) auto

text \<open>A run of merged blocks holds the bytes from its first to its last block.\<close>

lemma merge_run_cover:
  assumes "merge_run prev ps = (p, r, ms)" and "\<forall>b \<in> set (prev # ps). hi b < 2 ^ 64 \<and> bsize b \<noteq> 0"
  shows "holds prev a + cover ms a = (if lo prev \<le> a \<and> a < hi p then 1 else 0) \<and> lo prev \<le> lo p \<and>
    p \<in> set (prev # ms) \<and> (ms = [] \<longrightarrow> p = prev)"
  using assms
proof (induction prev ps arbitrary: p r ms rule: merge_run.induct)
  case (2 prev scan ps)
  show ?case
  proof (cases "addr prev + bsize prev = addr scan")
    case True
    obtain ms' where m: "merge_run scan ps = (p, r, ms')" "ms = scan # ms'"
      using 2(2) True by (auto split: prod.splits)
    have "hi prev = lo scan" using end_word [of prev] 2(3) True by (simp add: lo_def)
    moreover have "lo prev < hi prev" "lo scan < hi p"
      using 2(1) [OF True m(1)] 2(3) merge_run_split [OF m(1)] by (auto intro: lo_less_hi le_less_trans)
    ultimately show ?thesis using 2(1) [OF True m(1)] 2(3) m(2) by (auto simp: holds_def)
  next
    case False
    then show ?thesis using 2(2) by (auto simp: holds_def)
  qed
qed (auto simp: holds_def)

lemma merged_size:
  assumes "lo ptr \<le> lo p" and "hi p < 2 ^ 64" and "b = ptr\<lparr>bsize := addr p - addr ptr + bsize p\<rparr>"
  shows "unat (bsize b) = hi p - lo ptr" and "hi b = hi p" and "lo b = lo ptr"
proof -
  have "addr ptr \<le> addr p" using assms(1) by (simp add: lo_def word_le_nat_alt)
  then have "unat (addr p - addr ptr) = lo p - lo ptr" by (simp add: lo_def unat_sub)
  moreover have "hi p = lo p + unat (bsize p)" by (simp add: lo_def hi_def)
  ultimately show *: "unat (bsize b) = hi p - lo ptr" using assms by (simp add: unat_word_ariths)
  show "lo b = lo ptr" using assms(3) by simp
  show "hi b = hi p" using * assms \<open>hi p = lo p + unat (bsize p)\<close> by (simp add: hi_def lo_def)
qed

definition good_blocks :: "nat \<Rightarrow> block list \<Rightarrow> bool" where
  "good_blocks k bs \<longleftrightarrow> (\<forall>b \<in> set bs. hi b < 2 ^ 64 \<and> bsize b \<noteq> 0 \<and> aligned_blk (2 ^ k) b)"

lemma good_blocks_simps [simp]:
  "good_blocks k []" "good_blocks k (b # bs) \<longleftrightarrow> hi b < 2 ^ 64 \<and> bsize b \<noteq> 0 \<and> aligned_blk (2 ^ k) b \<and> good_blocks k bs"
  "good_blocks k (xs @ ys) \<longleftrightarrow> good_blocks k xs \<and> good_blocks k ys"
  by (auto simp: good_blocks_def)

lemma merged_good:
  assumes "good_blocks k (ptr # ms)" and "p \<in> set (ptr # ms)" and "lo ptr \<le> lo p"
    and "b = ptr\<lparr>bsize := addr p - addr ptr + bsize p\<rparr>"
  shows "good_blocks k [b]"
proof -
  have p: "hi p < 2 ^ 64" "bsize p \<noteq> 0" "aligned_blk (2 ^ k) p" "aligned_blk (2 ^ k) ptr"
    using assms(1,2) by (auto simp: good_blocks_def)
  note sz = merged_size [OF assms(3) p(1) assms(4)]
  have "lo p < hi p" by (rule lo_less_hi) fact
  then have "bsize b \<noteq> 0" using sz(1) assms(3) by (auto simp: word_unat_eq_iff)
  moreover have "2 ^ k dvd unat (bsize b)"
    unfolding sz(1) hi_def lo_def using p(3,4) by (intro dvd_diff_nat) (auto simp: aligned_blk_def)
  ultimately show ?thesis using sz(2) p assms(4) by (auto simp: aligned_blk_def)
qed

lemma compact_props:
  assumes "compact ps fresh = (fs, fresh')" and "good_blocks k ps" and "sorted (map addr ps)"
  shows "(\<forall>a. cover fs a = cover ps a) \<and> good_blocks k fs \<and> sorted (map addr fs) \<and>
    addr ` set fs \<subseteq> addr ` set ps \<and> length fs + length fresh' = length ps + length fresh"
  using assms
proof (induction ps fresh arbitrary: fs fresh' rule: compact.induct)
  case (2 ptr ps fresh)
  obtain p r ms where m: "merge_run ptr ps = (p, r, ms)" by (metis prod_cases3)
  let ?b = "if ms \<noteq> [] then ptr\<lparr>bsize := addr p - addr ptr + bsize p\<rparr> else ptr"
  obtain gs where g: "compact r (release_blocks ms fresh) = (gs, fresh')" and fs: "fs = ?b # gs"
    using 2(2) m by (auto split: prod.splits)
  have ps: "ps = ms @ r" by (rule merge_run_split [OF m])
  have gd: "good_blocks k (ptr # ms)" "good_blocks k r" "sorted (map addr r)"
    using 2(3,4) ps by (auto simp: sorted_append)
  have IH: "(\<forall>a. cover gs a = cover r a) \<and> good_blocks k gs \<and> sorted (map addr gs) \<and>
      addr ` set gs \<subseteq> addr ` set r \<and> length gs + length fresh' = length r + (length ms + length fresh)"
    using 2(1) [OF m [symmetric] refl refl refl g] gd by simp
  have mc: "holds ptr a + cover ms a = (if lo ptr \<le> a \<and> a < hi p then 1 else 0) \<and> lo ptr \<le> lo p \<and>
    p \<in> set (ptr # ms) \<and> (ms = [] \<longrightarrow> p = ptr)" for a
    using merge_run_cover [OF m] 2(3) unfolding good_blocks_def by blast
  have "hi p < 2 ^ 64" using mc gd(1) by (auto simp: good_blocks_def)
  then have "holds ?b a = holds ptr a + cover ms a" for a
    using mc merged_size [of ptr p ?b] by (auto simp: holds_def)
  moreover have "good_blocks k [?b]" using merged_good [OF gd(1), of p] mc gd(1) by auto
  moreover have "addr ?b = addr ptr" by simp
  ultimately show ?case using IH fs ps 2(4) by (auto simp: sorted_append)
qed simp

section \<open>Rounding\<close>

lemma round_num_eq:
  assumes "heap_alignment h = 2 ^ k" and "k < 64" and "unat num + 2 ^ k \<le> 2 ^ 64"
  shows "unat (round_num h num) = (unat num + 2 ^ k - 1) div 2 ^ k * 2 ^ k"
proof -
  have p: "unat (2 ^ k :: u64) = 2 ^ k" using power_strict_increasing [OF assms(2), of "2 :: nat"] by (intro unat_power_2) simp
  have "unat (num + 2 ^ k - 1) = unat num + 2 ^ k - 1"
  proof -
    have w: "unat (2 ^ k - 1 :: u64) = 2 ^ k - 1" using p by (simp add: unat_sub word_le_nat_alt)
    have "(1 :: nat) \<le> 2 ^ k" by simp
    then have lt: "unat num + (2 ^ k - 1) < 2 ^ 64" using assms(3) by linarith
    have "unat (num + (2 ^ k - 1)) = (unat num + unat (2 ^ k - 1 :: u64)) mod 2 ^ 64"
      using unat_word_ariths(1) [of num "2 ^ k - 1"] by simp
    then show ?thesis using lt unfolding w by (simp add: add_diff_eq)
  qed
  then show ?thesis unfolding round_num_def assms(1) minus_exp_eq_not_mask unat_and_not_mask by simp
qed

lemma round_num_props:
  assumes "heap_alignment h = 2 ^ k" and "k < 64" and "unat num + 2 ^ k \<le> 2 ^ 64"
  shows "unat num \<le> unat (round_num h num)" and "unat (round_num h num) < unat num + 2 ^ k"
    and "2 ^ k dvd unat (round_num h num)"
proof -
  let ?x = "unat num + 2 ^ k - 1"
  have "?x div 2 ^ k * 2 ^ k + ?x mod 2 ^ k = ?x" by (rule div_mult_mod_eq)
  moreover have "?x mod 2 ^ k < 2 ^ k" by simp
  moreover have "(0 :: nat) < 2 ^ k" by simp
  ultimately show "unat num \<le> unat (round_num h num)" "unat (round_num h num) < unat num + 2 ^ k"
    unfolding round_num_eq [OF assms] by linarith+
  show "2 ^ k dvd unat (round_num h num)" unfolding round_num_eq [OF assms] by simp
qed

section \<open>Allocation\<close>

lemma alloc_scan_Some:
  "alloc_scan h num fs = Some (pre, ptr, post) \<Longrightarrow> fs = pre @ ptr # post \<and> (is_top h num ptr \<or> bsize ptr \<ge> num)"
  by (induction fs arbitrary: pre) (auto split: if_splits)

lemma ta_free_scan_Some: "ta_free_scan p us = Some (pre, b, post) \<Longrightarrow> us = pre @ b # post \<and> addr b = p"
  by (induction us arbitrary: pre) (auto split: if_splits)

lemma ta_free_scan_None: "ta_free_scan p us = None \<longleftrightarrow> p \<notin> addr ` set us"
  by (induction us) auto

lemma ta_inv_good:
  assumes "ta_inv start k h"
  shows "good_blocks k (free_b h @ used_b h)" and "\<And>b. b \<in> set (free_b h @ used_b h) \<Longrightarrow> start \<le> lo b \<and> hi b \<le> unat (top h)"
proof -
  show b: "start \<le> lo b \<and> hi b \<le> unat (top h)" if "b \<in> set (free_b h @ used_b h)" for b
    using tile_bounds [OF _ that] assms that unfolding ta_inv_def by blast
  have "unat (top h) < 2 ^ 64" using unsigned_less [of "top h"] by simp
  then show "good_blocks k (free_b h @ used_b h)"
    unfolding good_blocks_def using b assms unfolding ta_inv_def by (meson le_less_trans)
qed

text \<open>The new state of an allocation, as a change of the tiles.\<close>

lemma alloc_fresh_inv:
  assumes I: "ta_inv start k h" and f: "fresh_b h = ptr # fresh"
    and num: "num \<noteq> 0" "2 ^ k dvd unat num" "unat (top h) + unat num < 2 ^ 64" "top h + num \<le> heap_limit h"
  shows "ta_inv start k (h\<lparr>fresh_b := fresh, used_b := ptr\<lparr>addr := top h, bsize := num\<rparr> # used_b h, top := top h + num\<rparr>)"
proof -
  have t: "unat (top h + num) = unat (top h) + unat num" using num(3) by (simp add: unat_word_ariths)
  have "cover (free_b h @ ptr\<lparr>addr := top h, bsize := num\<rparr> # used_b h) a =
    (if start \<le> a \<and> a < unat (top h) + unat num then 1 else 0)" for a
  proof -
    have "cover (free_b h @ used_b h) a = (if start \<le> a \<and> a < unat (top h) then 1 else 0)" "start \<le> unat (top h)"
      using I unfolding ta_inv_def by blast+
    then show ?thesis by (auto simp: holds_def split: if_splits)
  qed
  then show ?thesis using I f num t unfolding ta_inv_def
    by (auto simp: aligned_blk_def)
qed

lemma alloc_top_inv:
  assumes I: "ta_inv start k h" and f: "free_b h = pre @ ptr # post" and tp: "unat (top h) \<le> hi ptr"
    and num: "num \<noteq> 0" "2 ^ k dvd unat num" "lo ptr + unat num < 2 ^ 64" "addr ptr + num \<le> heap_limit h"
  shows "ta_inv start k (h\<lparr>free_b := pre @ post, used_b := ptr\<lparr>bsize := num\<rparr> # used_b h, top := addr ptr + num\<rparr>)"
proof -
  have p: "ptr \<in> set (free_b h @ used_b h)" using f by simp
  have b: "start \<le> lo ptr" "hi ptr = unat (top h)" using ta_inv_good(2) [OF I p] tp by auto
  have n: "unat (addr ptr + num) = lo ptr + unat num" using num(3) by (simp add: unat_word_ariths lo_def)
  have lt: "lo ptr < hi ptr" using p I unfolding ta_inv_def by (blast intro: lo_less_hi)
  have "cover (pre @ post @ ptr\<lparr>bsize := num\<rparr> # used_b h) a = (if start \<le> a \<and> a < lo ptr + unat num then 1 else 0)" for a
  proof -
    have "cover (pre @ post @ used_b h) a + holds ptr a = (if start \<le> a \<and> a < unat (top h) then 1 else 0)"
      using I f unfolding ta_inv_def by (simp add: ac_simps)
    then show ?thesis using b lt num(1) by (auto simp: holds_def split: if_splits)
  qed
  moreover have "start \<le> lo ptr + unat num" "2 ^ k dvd lo ptr + unat num"
    using b(1) p I num(2) unfolding ta_inv_def aligned_blk_def lo_def by auto
  ultimately show ?thesis using I f num n unfolding ta_inv_def
    by (auto simp: aligned_blk_def sorted_append)
qed

lemma ta_inv_rearrange:
  assumes "ta_inv start k h" and "\<And>a. cover (fs @ us) a = cover (free_b h @ used_b h) a"
    and "good_blocks k (fs @ us)" and "sorted (map addr fs)"
    and "length fs + length us + length fr = length (free_b h) + length (used_b h) + length (fresh_b h)"
  shows "ta_inv start k (h\<lparr>free_b := fs, used_b := us, fresh_b := fr\<rparr>)"
  using assms unfolding ta_inv_def good_blocks_def by simp

lemma alloc_keep_inv:
  assumes I: "ta_inv start k h" and f: "free_b h = pre @ ptr # post"
  shows "ta_inv start k (h\<lparr>free_b := pre @ post, used_b := ptr # used_b h\<rparr>)"
proof -
  have "ta_inv start k (h\<lparr>free_b := pre @ post, used_b := ptr # used_b h, fresh_b := fresh_b h\<rparr>)"
    using ta_inv_good(1) [OF I] I f unfolding ta_inv_def [of start k h]
    by (intro ta_inv_rearrange [OF I]) (auto simp: sorted_append ac_simps)
  then show ?thesis by simp
qed

lemma alloc_split_inv:
  assumes I: "ta_inv start k h" and f: "free_b h = pre @ ptr # post" and fr: "fresh_b h = split # fresh"
    and num: "num \<noteq> 0" "2 ^ k dvd unat num" "num \<le> bsize ptr" and ex: "heap_split_thresh h \<le> bsize ptr - num"
    and c: "compact (insert_block (split\<lparr>addr := addr ptr + num, bsize := bsize ptr - num\<rparr>) (pre @ post)) fresh = (fs, fresh')"
  shows "ta_inv start k (h\<lparr>free_b := fs, used_b := ptr\<lparr>bsize := num\<rparr> # used_b h, fresh_b := fresh'\<rparr>)"
proof -
  let ?sp = "split\<lparr>addr := addr ptr + num, bsize := bsize ptr - num\<rparr>"
  have p: "ptr \<in> set (free_b h @ used_b h)" using f by simp
  have g: "good_blocks k (pre @ post @ used_b h)" "good_blocks k [ptr]"
    using ta_inv_good(1) [OF I] f by auto
  have u: "unat (addr ptr + num) = lo ptr + unat num" "unat (bsize ptr - num) = unat (bsize ptr) - unat num"
    "unat num \<le> unat (bsize ptr)" "hi ptr = lo ptr + unat (bsize ptr)"
    using g(2) num(3) by (auto simp: unat_word_ariths lo_def hi_def unat_sub word_le_nat_alt)
  have "0 < heap_split_thresh h" using I unfolding ta_inv_def by blast
  then have nz: "bsize ptr - num \<noteq> 0" using ex by auto
  have gs: "good_blocks k [?sp]" using g(2) nz u num(2) by (auto simp: aligned_blk_def lo_def)
  have "sorted (map addr (insert_block ?sp (pre @ post)))"
    using I f unfolding ta_inv_def by (intro insert_block_props(4)) (auto simp: sorted_append)
  moreover have "good_blocks k (insert_block ?sp (pre @ post))"
    using gs g(1) unfolding good_blocks_def insert_block_props(2) by auto
  ultimately have cp: "\<And>a. cover fs a = holds ?sp a + cover (pre @ post) a" "good_blocks k fs" "sorted (map addr fs)"
    "length fs + length fresh' = Suc (length (pre @ post)) + length fresh"
    using compact_props [OF c] unfolding insert_block_props(1,3) by auto
  have "holds ?sp a + holds (ptr\<lparr>bsize := num\<rparr>) a = holds ptr a" for a
    using u by (auto simp: holds_def)
  then have "cover (fs @ ptr\<lparr>bsize := num\<rparr> # used_b h) a = cover (free_b h @ used_b h) a" for a
    using cp(1) [of a] f by (simp add: ac_simps)
  moreover have "good_blocks k [ptr\<lparr>bsize := num\<rparr>]" using g(2) u num(1,2) by (auto simp: aligned_blk_def)
  ultimately show ?thesis using cp(2-4) g(1) f fr by (intro ta_inv_rearrange [OF I]) auto
qed

lemma free_inv:
  assumes I: "ta_inv start k h" and us: "used_b h = pre @ b # post"
    and c: "compact (insert_block b (free_b h)) (fresh_b h) = (fs, fresh')"
  shows "ta_inv start k (h\<lparr>free_b := fs, used_b := pre @ post, fresh_b := fresh'\<rparr>)"
proof -
  have g: "good_blocks k (free_b h @ pre @ post)" "good_blocks k [b]" using ta_inv_good(1) [OF I] us by auto
  have "sorted (map addr (insert_block b (free_b h)))"
    using I unfolding ta_inv_def by (intro insert_block_props(4)) blast
  moreover have "good_blocks k (insert_block b (free_b h))"
    using g unfolding good_blocks_def insert_block_props(2) by auto
  ultimately have cp: "\<And>a. cover fs a = holds b a + cover (free_b h) a" "good_blocks k fs" "sorted (map addr fs)"
    "length fs + length fresh' = Suc (length (free_b h)) + length (fresh_b h)"
    using compact_props [OF c] unfolding insert_block_props(1,3) by auto
  show ?thesis using cp g(1) us by (intro ta_inv_rearrange [OF I]) auto
qed

text \<open>What a successful allocation gives: an aligned area inside the heap, owned by the caller.\<close>

lemma alloc_block_correct:
  assumes I: "ta_inv start k h" and num: "0 < unat num0" "unat num0 + 2 ^ k + unat (heap_limit h) < 2 ^ 64"
    and a: "alloc_block h num0 = (h', r)"
  shows "ta_inv start k h' \<and> (case r of
      None \<Rightarrow> h' = h
    | Some b \<Rightarrow> num0 \<le> bsize b \<and> (\<exists>b'. used_b h' = b' # used_b h \<and> addr b' = addr b \<and> bsize b' = bsize b))"
proof -
  let ?n = "round_num h num0"
  have al: "heap_alignment h = 2 ^ k" "k < 64" "top h \<le> heap_limit h" using I unfolding ta_inv_def by auto
  have "unat num0 + 2 ^ k \<le> 2 ^ 64" using num(2) by linarith
  note r = round_num_props [OF al(1,2) this]
  have n: "?n \<noteq> 0" "unat ?n + unat (heap_limit h) < 2 ^ 64" "num0 \<le> ?n"
    using r num by (auto simp: word_le_nat_alt)
  have tl: "unat (top h) \<le> unat (heap_limit h)" using al(3) by (simp add: word_le_nat_alt)
  show ?thesis
  proof (cases "alloc_scan h ?n (free_b h)")
    case None
    show ?thesis
    proof (cases "fresh_b h")
      case Nil
      then show ?thesis using a None I by (simp add: alloc_block_def Let_def)
    next
      case (Cons ptr fresh)
      have "ta_inv start k (h\<lparr>fresh_b := fresh, used_b := ptr\<lparr>addr := top h, bsize := ?n\<rparr> # used_b h, top := top h + ?n\<rparr>)"
        if "top h + ?n \<le> heap_limit h"
        using that n tl r(3) by (intro alloc_fresh_inv [OF I Cons]) auto
      then show ?thesis using a None I Cons n(3) by (auto simp: alloc_block_def Let_def split: if_splits)
    qed
  next
    case (Some t)
    obtain pre ptr post where s: "alloc_scan h ?n (free_b h) = Some (pre, ptr, post)" using Some by (cases t) auto
    have f: "free_b h = pre @ ptr # post" and fit: "is_top h ?n ptr \<or> bsize ptr \<ge> ?n" using alloc_scan_Some [OF s] by auto
    have p: "ptr \<in> set (free_b h @ used_b h)" using f by simp
    have hb: "hi ptr \<le> unat (top h)" "hi ptr < 2 ^ 64" "lo ptr \<le> hi ptr"
      using ta_inv_good(2) [OF I p] ta_inv_good(1) [OF I] p by (auto simp: good_blocks_def lo_def hi_def)
    show ?thesis
    proof (cases "is_top h ?n ptr")
      case True
      then have "unat (top h) \<le> hi ptr" using end_word [OF hb(2)] by (simp add: is_top_def word_le_nat_alt)
      then have "ta_inv start k (h\<lparr>free_b := pre @ post, used_b := ptr\<lparr>bsize := ?n\<rparr> # used_b h, top := addr ptr + ?n\<rparr>)"
        using True n r(3) hb tl by (intro alloc_top_inv [OF I f]) (auto simp: is_top_def)
      then show ?thesis using a s True n(3) by (auto simp: alloc_block_def Let_def)
    next
      case False
      then have ge: "?n \<le> bsize ptr" using fit by simp
      then have ge0: "num0 \<le> bsize ptr" using n(3) by (rule order_trans [rotated])
      consider "fresh_b h = []" | sp fr where "fresh_b h = sp # fr" "bsize ptr - ?n < heap_split_thresh h"
        | sp fr fs fr' where "fresh_b h = sp # fr" "heap_split_thresh h \<le> bsize ptr - ?n"
          "compact (insert_block (sp\<lparr>addr := addr ptr + ?n, bsize := bsize ptr - ?n\<rparr>) (pre @ post)) fr = (fs, fr')"
        by (cases "fresh_b h") (auto simp: not_le [symmetric], metis surj_pair)
      then show ?thesis
      proof cases
        case 1
        then show ?thesis using a s False ge0 alloc_keep_inv [OF I f] by (auto simp: alloc_block_def Let_def)
      next
        case (2 sp fr)
        then show ?thesis using a s False ge0 alloc_keep_inv [OF I f] by (auto simp: alloc_block_def Let_def not_le [symmetric])
      next
        case (3 sp fr fs fr')
        then show ?thesis using a s False n(3) alloc_split_inv [OF I f 3(1) n(1) r(3) ge 3(2,3)]
          by (simp add: alloc_block_def Let_def) auto
      qed
    qed
  qed
qed

section \<open>Clearing\<close>

lemma unat_pred: "(x :: u64) \<noteq> 0 \<Longrightarrow> unat (x - 1) = unat x - 1"
  by (simp add: unat_sub word_le_nat_alt Suc_le_eq unat_gt_0)

lemma clear_bytes_spec: "clear_bytes m p n a = (if unat (a - p) < n then 0 else m a)"
proof (induction n arbitrary: m p)
  case (Suc n)
  show ?case
  proof (cases "a = p")
    case False
    then have "unat (a - (p + 1)) = unat (a - p) - 1" "0 < unat (a - p)"
      using unat_pred [of "a - p"] by (simp_all add: diff_diff_eq unat_gt_0)
    then show ?thesis using Suc False by auto
  qed (use Suc [of "m(p := 0)" "p + 1"] in \<open>simp del: fun_upd_apply add: fun_upd_same\<close>)
qed simp

lemma clear_words_bytes: "fst (clear_words m p n) = clear_bytes m p (8 * n) \<and> snd (clear_words m p n) = p + word_of_nat (8 * n)"
proof (induction n arbitrary: m p)
  case (Suc n)
  have "clear_bytes m p (8 * Suc n) =
    clear_bytes (m(p := 0, p + 1 := 0, p + 2 := 0, p + 3 := 0, p + 4 := 0, p + 5 := 0, p + 6 := 0, p + 7 := 0)) (p + 8) (8 * n)"
    by (simp add: add.assoc numeral_eq_Suc del: fun_upd_apply)
  then show ?case using Suc by (simp add: ac_simps del: fun_upd_apply)
qed simp

lemma memclear_spec: "memclear m p num a = (if a - p < num then 0 else m a)"
proof -
  have m8: "(- 8 :: u64) = NOT (mask 3)" by (simp add: mask_eq_exp_minus_1)
  have m7: "num AND 7 = take_bit 3 num" by (simp add: take_bit_eq_mask mask_eq_exp_minus_1)
  let ?q = "unat num div 8"
  have w: "unat ((num AND - 8) div 8) = ?q" unfolding m8 unat_div unat_and_not_mask by simp
  have r: "unat (num AND 7) = unat num mod 8"
    unfolding m7 unsigned_take_bit_eq by (simp add: take_bit_eq_mod)
  have cut: "clear_bytes (clear_bytes m p j) (p + word_of_nat j) n a = (if unat (a - p) < j + n then 0 else m a)"
    if "j < 2 ^ 64" for j n
  proof (cases "unat (a - p) < j")
    case False
    have "unat (word_of_nat j :: u64) = j" using that by (simp add: unat_of_nat)
    then have "unat (a - p - word_of_nat j) = unat (a - p) - j" using False by (simp add: unat_sub word_le_nat_alt)
    then show ?thesis using False by (auto simp: clear_bytes_spec diff_diff_eq)
  qed (simp add: clear_bytes_spec)
  have "unat num < 2 ^ 64" using unsigned_less [of num] by simp
  then have "8 * ?q < 2 ^ 64" by simp
  from cut [OF this, of "unat num mod 8"] show ?thesis
    unfolding memclear_def w r using clear_words_bytes [of m p ?q] by (simp add: Let_def case_prod_beta word_less_nat_alt)
qed

section \<open>Properties\<close>

lemma count_blocks_length: "count_blocks bs = word_of_nat (length bs)"
  by (induction bs) simp_all

lemma ta_inv_check: "ta_inv start k h \<Longrightarrow> ta_check h"
  unfolding ta_inv_def ta_check_def ta_num_free_def ta_num_used_def ta_num_fresh_def count_blocks_length
  by (metis of_nat_add word_of_unat)

lemma disjoint_of_cover:
  assumes "\<And>a. cover (b # us) a \<le> 1" and "b' \<in> set us" and "bsize b \<noteq> 0" and "bsize b' \<noteq> 0"
  shows "hi b' \<le> lo b \<or> hi b \<le> lo b'"
proof (rule ccontr)
  assume n: "\<not> ?thesis"
  let ?a = "max (lo b) (lo b')"
  have "holds b ?a = 1" "holds b' ?a = 1"
    using n lo_less_hi [OF assms(3)] lo_less_hi [OF assms(4)] by (auto simp: holds_def)
  then show False using assms(1) [of ?a] holds_le_cover [OF assms(2), of ?a] by simp
qed

text \<open>
  C8: The free and the used blocks of the heap tile it: every byte from the start to the top is in
  exactly one block, all blocks are aligned and not empty, the free list is sorted by address and
  no block descriptor is lost, which is what \<^verbatim>\<open>ta_check\<close> tests.  \<^verbatim>\<open>ta_init\<close> establishes this, \<^verbatim>\<open>ta_free\<close>
  keeps it on any pointer, and \<^verbatim>\<open>ta_alloc\<close> and \<^verbatim>\<open>ta_calloc\<close> keep it on requests that are not empty and whose rounding and
  placement do not wrap.
\<close>

theorem tinyalloc_tiles:
  assumes "ta_inv start k h"
  shows "ta_check h \<and> ta_inv start k (fst (ta_free h p)) \<and>
    (0 < unat num \<and> unat num + 2 ^ k + unat (heap_limit h) < 2 ^ 64 \<longrightarrow> ta_inv start k (fst (ta_alloc h num))) \<and>
    (0 < unat (num * sz) \<and> unat (num * sz) + 2 ^ k + unat (heap_limit h) < 2 ^ 64 \<longrightarrow>
      ta_inv start k (fst (ta_calloc h m num sz))) \<and>
    (\<forall>raw base limit n. n \<noteq> 0 \<and> unat base + 32 + 24 * unat n \<le> unat limit \<and> 2 ^ k dvd unat base + 32 + 24 * unat n \<longrightarrow>
      (\<exists>h'. ta_init raw base limit n (heap_split_thresh h) (2 ^ k) = Some h' \<and> ta_inv (unat base + 32 + 24 * unat n) k h'))"
proof (intro conjI allI impI)
  show "ta_check h" by (rule ta_inv_check) fact
  show "ta_inv start k (fst (ta_free h p))"
    using free_inv [OF assms] assms
    by (auto simp: ta_free_def Let_def split: option.splits prod.splits dest!: ta_free_scan_Some)
  show "ta_inv start k (fst (ta_alloc h num))"
    if "0 < unat num \<and> unat num + 2 ^ k + unat (heap_limit h) < 2 ^ 64"
    using alloc_block_correct [OF assms] that by (auto simp: ta_alloc_def split: prod.splits)
  show "ta_inv start k (fst (ta_calloc h m num sz))"
    if "0 < unat (num * sz) \<and> unat (num * sz) + 2 ^ k + unat (heap_limit h) < 2 ^ 64"
    using alloc_block_correct [OF assms] that by (auto simp: ta_calloc_def split: prod.splits option.splits)
next
  fix raw :: "nat \<Rightarrow> block" and base limit n :: u64
  let ?t = "unat base + 32 + 24 * unat n"
  assume a: "n \<noteq> 0 \<and> ?t \<le> unat limit \<and> 2 ^ k dvd ?t"
  have "unat limit < 2 ^ 64" using unsigned_less [of limit] by simp
  then have "unat (base + 32 + 24 * n) = ?t" using a by (simp add: unat_word_ariths)
  then show "\<exists>h'. ta_init raw base limit n (heap_split_thresh h) (2 ^ k) = Some h' \<and> ta_inv ?t k h'"
    using a assms by (auto simp: ta_init_def ta_inv_def word_le_nat_alt)
qed

theorem tinyalloc_tiles_witness:
  "ta_check \<lparr>free_b = [], used_b = [], fresh_b = [\<lparr>addr = 0, bsize = 0\<rparr>], top = 64, heap_limit = 4096,
      heap_split_thresh = 256, heap_alignment = 8, heap_max_blocks = 1\<rparr>"
  using tinyalloc_tiles [of 64 3 "\<lparr>free_b = [], used_b = [], fresh_b = [\<lparr>addr = 0, bsize = 0\<rparr>], top = 64, heap_limit = 4096,
      heap_split_thresh = 256, heap_alignment = 8, heap_max_blocks = 1\<rparr>" 0 1 1]
  by (simp add: ta_inv_def)

text \<open>
  C28: On a request that is not empty and whose rounding and placement do not wrap, a successful \<^verbatim>\<open>ta_alloc\<close> returns an aligned address of an area of at least the requested size
  that lies inside the heap and overlaps no block in use, and puts it in use; a failed one changes
  nothing.  \<^verbatim>\<open>ta_calloc\<close> also clears the bytes requested and no others.
\<close>

theorem ta_alloc_area:
  assumes "ta_inv start k h" and "0 < unat num" and "unat num + 2 ^ k + unat (heap_limit h) < 2 ^ 64"
    and "ta_alloc h num = (h', r)"
  shows "case r of None \<Rightarrow> h' = h
    | Some p \<Rightarrow> 2 ^ k dvd unat p \<and> start \<le> unat p \<and> unat p + unat num \<le> unat (heap_limit h') \<and>
        p \<in> addr ` set (used_b h') \<and> (\<forall>b \<in> set (used_b h). hi b \<le> unat p \<or> unat p + unat num \<le> lo b) \<and>
        ta_calloc h m num 1 = (h', \<lambda>a. if a - p < num then 0 else m a, Some p)"
proof (cases r)
  case None
  then obtain r' where "alloc_block h num = (h', r')" "map_option addr r' = None"
    using assms(4) by (auto simp: ta_alloc_def split: prod.splits)
  then show ?thesis using alloc_block_correct [OF assms(1-3), of h' r'] None by simp
next
  case (Some p)
  obtain b where b: "alloc_block h num = (h', Some b)" "addr b = p"
    using assms(4) Some by (auto simp: ta_alloc_def split: prod.splits)
  obtain b' where I: "ta_inv start k h'" and u: "num \<le> bsize b" "used_b h' = b' # used_b h" "addr b' = p" "bsize b' = bsize b"
    using alloc_block_correct [OF assms(1-3) b(1)] b(2) by auto
  have sz: "unat num \<le> unat (bsize b')" using u by (simp add: word_le_nat_alt)
  have lh: "lo b' = unat p" "unat p + unat num \<le> hi b'" using u sz by (auto simp: lo_def hi_def)
  have m: "b' \<in> set (free_b h' @ used_b h')" using u by simp
  have bd: "start \<le> lo b' \<and> hi b' \<le> unat (top h')" by (rule ta_inv_good(2) [OF I m])
  have al: "2 ^ k dvd unat p" "unat (top h') \<le> unat (heap_limit h')"
    using I m u(3) unfolding ta_inv_def aligned_blk_def by (auto simp: word_le_nat_alt)
  have cv: "cover (b' # used_b h) a \<le> 1" for a
  proof -
    have "cover (free_b h' @ used_b h') a \<le> 1" using I unfolding ta_inv_def by simp
    then show ?thesis using u(2) by simp
  qed
  have "hi x \<le> unat p \<or> unat p + unat num \<le> lo x" if "x \<in> set (used_b h)" for x
    using disjoint_of_cover [OF cv that] I m that u(2) lh unfolding ta_inv_def by fastforce
  moreover have "ta_calloc h m num 1 = (h', \<lambda>a. if a - p < num then 0 else m a, Some p)"
    using b by (simp add: ta_calloc_def) (rule ext, rule memclear_spec)
  ultimately show ?thesis using Some bd al lh u by auto
qed

theorem ta_alloc_area_witness:
  "case snd (ta_alloc \<lparr>free_b = [], used_b = [], fresh_b = [\<lparr>addr = 0, bsize = 0\<rparr>], top = 64, heap_limit = 4096,
      heap_split_thresh = 256, heap_alignment = 8, heap_max_blocks = 1\<rparr> 5) of
    None \<Rightarrow> False | Some p \<Rightarrow> 2 ^ 3 dvd unat p \<and> 64 \<le> unat p"
proof -
  let ?h = "\<lparr>free_b = [], used_b = [], fresh_b = [\<lparr>addr = 0, bsize = 0\<rparr>], top = 64, heap_limit = 4096,
      heap_split_thresh = 256, heap_alignment = 8, heap_max_blocks = 1\<rparr>"
  have I: "ta_inv 64 3 ?h" by (simp add: ta_inv_def)
  have s: "snd (ta_alloc ?h 5) = Some 64" by (simp add: ta_alloc_def alloc_block_def round_num_def Let_def)
  then obtain h' where "ta_alloc ?h 5 = (h', Some 64)" by (metis prod.collapse)
  from ta_alloc_area [OF I _ _ this] show ?thesis using s by simp
qed

text \<open>
  C29: \<^verbatim>\<open>ta_free\<close> answers true exactly when the pointer is the address of a block in use; then one block
  with that address leaves the used list, the others stay, every byte of it is free, and top and limit of the heap stay.
  For any other pointer it answers false and the heap is as before.
\<close>

theorem ta_free_releases:
  assumes "ta_inv start k h"
  shows "snd (ta_free h p) = (p \<in> addr ` set (used_b h)) \<and>
    (snd (ta_free h p) \<longrightarrow> (\<exists>pre b post. used_b h = pre @ b # post \<and> addr b = p \<and>
      used_b (fst (ta_free h p)) = pre @ post \<and>
      (\<forall>a. cover (free_b (fst (ta_free h p))) a = cover (free_b h) a + holds b a)) \<and>
      top (fst (ta_free h p)) = top h \<and> heap_limit (fst (ta_free h p)) = heap_limit h) \<and>
    (\<not> snd (ta_free h p) \<longrightarrow> fst (ta_free h p) = h)"
proof (cases "ta_free_scan p (used_b h)")
  case None
  then show ?thesis using ta_free_scan_None [of p "used_b h"] by (simp add: ta_free_def)
next
  case (Some t)
  obtain pre b post where s: "ta_free_scan p (used_b h) = Some (pre, b, post)" using Some by (cases t) auto
  obtain fs fr where c: "compact (insert_block b (free_b h)) (fresh_b h) = (fs, fr)" by fastforce
  have u: "used_b h = pre @ b # post" "addr b = p" using ta_free_scan_Some [OF s] by auto
  have "good_blocks k (insert_block b (free_b h))" "sorted (map addr (insert_block b (free_b h)))"
    using ta_inv_good(1) [OF assms] u assms unfolding good_blocks_def insert_block_props(2) ta_inv_def
    by (auto intro: insert_block_props(4))
  then have "cover fs a = cover (free_b h) a + holds b a" for a
    using compact_props [OF c] by (simp add: insert_block_props(1) add.commute)
  then show ?thesis using s c u by (auto simp: ta_free_def)
qed

theorem ta_free_releases_witness:
  "snd (ta_free \<lparr>free_b = [], used_b = [\<lparr>addr = 64, bsize = 8\<rparr>], fresh_b = [], top = 72, heap_limit = 4096,
      heap_split_thresh = 256, heap_alignment = 8, heap_max_blocks = 1\<rparr> 64) \<and>
    ta_free \<lparr>free_b = [], used_b = [\<lparr>addr = 64, bsize = 8\<rparr>], fresh_b = [], top = 72, heap_limit = 4096,
      heap_split_thresh = 256, heap_alignment = 8, heap_max_blocks = 1\<rparr> 65 =
    (\<lparr>free_b = [], used_b = [\<lparr>addr = 64, bsize = 8\<rparr>], fresh_b = [], top = 72, heap_limit = 4096,
      heap_split_thresh = 256, heap_alignment = 8, heap_max_blocks = 1\<rparr>, False)"
proof -
  have I: "ta_inv 64 3 \<lparr>free_b = [], used_b = [\<lparr>addr = 64, bsize = 8\<rparr>], fresh_b = [], top = 72, heap_limit = 4096,
      heap_split_thresh = 256, heap_alignment = 8, heap_max_blocks = 1\<rparr>"
    by (auto simp: ta_inv_def holds_def lo_def hi_def aligned_blk_def)
  from ta_free_releases [OF I, of 64] ta_free_releases [OF I, of 65] show ?thesis by (simp add: prod_eq_iff)
qed

text \<open>
  A request close to the size of the address space wraps: on a heap without free blocks and with
  the alignment 8, \<^verbatim>\<open>ta_alloc (size_t)-8\<close> succeeds and moves the top of the heap 8 bytes down, into
  memory that belongs to an earlier block or to the descriptors.
\<close>

theorem ta_alloc_wraps:
  assumes "free_b h = []" and "fresh_b h = b # fresh" and "heap_alignment h = 8" and "8 \<le> top h" and "top h \<le> heap_limit h"
  shows "snd (ta_alloc h (- 8)) = Some (top h) \<and> unat (top (fst (ta_alloc h (- 8)))) = unat (top h) - 8"
proof -
  have r: "round_num h (- 8) = - 8" using assms(3) by (simp add: round_num_def)
  have "top h - 8 \<le> top h" using assms(4) by (simp add: word_le_nat_alt unat_sub)
  then have "top h - 8 \<le> heap_limit h" using assms(5) by (rule order_trans)
  then show ?thesis using assms r by (simp add: ta_alloc_def alloc_block_def Let_def unat_sub)
qed

theorem ta_alloc_wraps_witness:
  "snd (ta_alloc \<lparr>free_b = [], used_b = [], fresh_b = [\<lparr>addr = 0, bsize = 0\<rparr>], top = 64, heap_limit = 4096,
      heap_split_thresh = 256, heap_alignment = 8, heap_max_blocks = 1\<rparr> (- 8)) = Some 64"
  using ta_alloc_wraps [of "\<lparr>free_b = [], used_b = [], fresh_b = [\<lparr>addr = 0, bsize = 0\<rparr>], top = 64, heap_limit = 4096,
      heap_split_thresh = 256, heap_alignment = 8, heap_max_blocks = 1\<rparr>"]
  by simp

end
