(* ===== verification/Pages.thy ===== *)
theory Pages
  imports Prelude Clist
begin

text \<open>
  The physical page allocator of \<^verbatim>\<open>kernel/core/memory/pages.c\<close>: a free list of pages threaded through
  the pages themselves and one reference counter of 8 bits per page.  The list node of a free page
  lies in the page; nobody reads it while the page is allocated and \<^verbatim>\<open>push_free\<close> initialises it
  again, so the nodes are kept apart from the byte contents.  Interrupts are disabled around every
  update, so an operation is one step.
\<close>

section \<open>Definitions\<close>

definition PAGE_SHIFT :: nat where [layout_defs]: "PAGE_SHIFT = 12"
definition PAGE_SIZE :: u64 where [layout_defs]: "PAGE_SIZE = 4096"

text \<open>The linker script places the RAM of the board at these addresses.\<close>

definition ram_start :: u64 where [layout_defs]: "ram_start = 0x80000000"
definition ram_end :: u64 where [layout_defs]: "ram_end = 0x88000000"
definition RAM_SIZE :: u64 where [layout_defs]: "RAM_SIZE = 128 * 1024 * 1024"

datatype pnode = Free_pages | Page u64

record phys =
  pmem :: "u64 \<Rightarrow> u8"
  page_rc :: "nat \<Rightarrow> u8"
  pnodes :: "pnode heap"

definition page_get_num :: "u64 \<Rightarrow> u64" where
  "page_get_num addr = drop_bit PAGE_SHIFT addr"

definition page_idx :: "u64 \<Rightarrow> nat" where
  "page_idx page = unat (drop_bit PAGE_SHIFT (page - ram_start))"

definition push_free :: "phys \<Rightarrow> u64 \<Rightarrow> phys" where
  "push_free s page =
    (let h = clist_init_node (pnodes s) (Page page)
     in s\<lparr>pnodes := clist_push_front h Free_pages (Page page)\<rparr>)"

definition page_get_ref_count :: "phys \<Rightarrow> u64 \<Rightarrow> u8" where
  "page_get_ref_count s page = page_rc s (page_idx page)"

definition page_get :: "phys \<Rightarrow> u64 \<Rightarrow> phys" where
  "page_get s page = s\<lparr>page_rc := (page_rc s)(page_idx page := page_rc s (page_idx page) + 1)\<rparr>"

partial_function (option) page_init_loop :: "phys \<Rightarrow> u64 \<Rightarrow> u64 \<Rightarrow> phys option" where
  "page_init_loop s p page_end =
    (if p < page_end then page_init_loop (push_free s p) (p + PAGE_SIZE) page_end else Some s)"

definition page_init :: "phys \<Rightarrow> u64 \<Rightarrow> phys outcome option" where
  "page_init s page_start =
    (if ram_end - ram_start \<noteq> RAM_SIZE then Some Panic
     else map_option Ret
       (page_init_loop (s\<lparr>pnodes := clist_init_node (pnodes s) Free_pages\<rparr>) page_start ram_end))"

definition page_zero :: "(u64 \<Rightarrow> u8) \<Rightarrow> u64 \<Rightarrow> u64 \<Rightarrow> u8" where
  "page_zero m page = (\<lambda>a. if a - page < PAGE_SIZE then 0 else m a)"

definition page_alloc :: "phys \<Rightarrow> phys \<times> u64 option" where
  "page_alloc s =
    (case clist_pop_front (pnodes s) Free_pages of
       (Some (Page addr), h) \<Rightarrow>
         (page_get (s\<lparr>pnodes := h, pmem := page_zero (pmem s) addr\<rparr>) addr, Some addr)
     | (_, h) \<Rightarrow> (s\<lparr>pnodes := h\<rparr>, None))"

definition page_put :: "phys \<Rightarrow> u64 \<Rightarrow> phys outcome" where
  "page_put s page =
    (if page_get_ref_count s page = 0 then Panic
     else
       (let rc = page_rc s (page_idx page) - 1;
            s1 = s\<lparr>page_rc := (page_rc s)(page_idx page := rc)\<rparr>
        in Ret (if rc = 0 then push_free s1 page else s1)))"

definition page_copy :: "phys \<Rightarrow> u64 \<Rightarrow> u64 \<Rightarrow> phys" where
  "page_copy s dst src =
    s\<lparr>pmem := (\<lambda>a. if a - dst < PAGE_SIZE then pmem s (src + (a - dst)) else pmem s a)\<rparr>"

section \<open>The pages and the free list\<close>

text \<open>The pages between the end of the kernel image and the end of the RAM.\<close>

definition ram_page :: "u64 \<Rightarrow> u64 \<Rightarrow> bool" where
  "ram_page page_start p \<longleftrightarrow> page_start \<le> p \<and> p < ram_end \<and> 4096 dvd unat p"

definition page_start_ok :: "u64 \<Rightarrow> bool" where
  "page_start_ok page_start \<longleftrightarrow> ram_start < page_start \<and> page_start \<le> ram_end \<and> 4096 dvd unat page_start"

definition pages_rep :: "u64 \<Rightarrow> phys \<Rightarrow> u64 list \<Rightarrow> bool" where
  "pages_rep ps s fr \<longleftrightarrow>
    clists (pnodes s) [Free_pages \<mapsto> map Page fr] \<and> page_start_ok ps \<and>
    (\<forall>p \<in> set fr. ram_page ps p) \<and> (\<forall>p. ram_page ps p \<longrightarrow> (page_get_ref_count s p = 0 \<longleftrightarrow> p \<in> set fr))"

lemma page_idx_inj:
  assumes "page_start_ok ps" and "ram_page ps p" and "ram_page ps q" and "page_idx p = page_idx q"
  shows "p = q"
proof -
  have u: "unat (r - ram_start) = unat r - 0x80000000" "0x80000000 \<le> unat r" if "ram_page ps r" for r
    using that assms(1) by (auto simp: ram_page_def page_start_ok_def layout_defs word_le_nat_alt word_less_nat_alt unat_sub)
  have "(unat p - 0x80000000) div 4096 = (unat q - 0x80000000) div 4096"
    using assms(4) u(1) [OF assms(2)] u(1) [OF assms(3)]
    by (simp add: page_idx_def PAGE_SHIFT_def drop_bit_eq_div unat_div)
  moreover have "4096 dvd unat p - 0x80000000" "4096 dvd unat q - 0x80000000"
    using assms(2,3) by (auto simp: ram_page_def intro!: dvd_diff_nat)
  ultimately have "unat p - 0x80000000 = unat q - 0x80000000" by (metis dvd_mult_div_cancel)
  then show ?thesis using u(2) [OF assms(2)] u(2) [OF assms(3)] by (simp add: word_unat_eq_iff)
qed

lemma pages_rep_distinct: "pages_rep ps s fr \<Longrightarrow> distinct fr"
  unfolding pages_rep_def using clists_distinct [of "pnodes s" _ Free_pages "map Page fr"]
  by (auto simp: distinct_map)

lemma page_node_free:
  assumes "clists h [Free_pages \<mapsto> map Page fr]"
  shows "in_list (h (Page p)) \<longleftrightarrow> p \<in> set fr"
  unfolding clists_in_list [OF assms] by (auto split: if_splits)

lemma push_free_clists:
  assumes "clists (pnodes s) [Free_pages \<mapsto> map Page fr]" and "p \<notin> set fr"
  shows "clists (pnodes (push_free s p)) [Free_pages \<mapsto> map Page (p # fr)]"
proof -
  let ?h = "clist_init_node (pnodes s) (Page p)"
  have "\<not> in_list (pnodes s (Page p))" using page_node_free [OF assms(1)] assms(2) by simp
  then have C: "clists ?h [Free_pages \<mapsto> map Page fr]" by (intro clists_init_node [OF assms(1)]) simp_all
  have "clists (clist_push_front ?h Free_pages (Page p)) ([Free_pages \<mapsto> map Page fr](Free_pages \<mapsto> Page p # map Page fr))"
    by (rule clists_push_front [OF C]) (simp_all add: init_node_fields)
  then show ?thesis by (simp add: push_free_def Let_def)
qed

lemma push_free_sel [simp]:
  "pmem (push_free s p) = pmem s" "page_rc (push_free s p) = page_rc s"
  by (simp_all add: push_free_def Let_def)

section \<open>What the operations do\<close>

lemma page_alloc_none: "pages_rep ps s [] \<Longrightarrow> \<exists>h. page_alloc s = (s\<lparr>pnodes := h\<rparr>, None) \<and> pages_rep ps (s\<lparr>pnodes := h\<rparr>) []"
proof -
  assume R: "pages_rep ps s []"
  then have C: "clists (pnodes s) [Free_pages \<mapsto> []]" by (simp add: pages_rep_def)
  obtain h where p: "clist_pop_front (pnodes s) Free_pages = (None, h)" "clists h [Free_pages \<mapsto> []]"
    using clists_pop_front [OF C, of Free_pages "[]"] by (cases "clist_pop_front (pnodes s) Free_pages") auto
  then show ?thesis using R by (auto simp: page_alloc_def pages_rep_def page_get_ref_count_def)
qed

lemma page_alloc_some:
  assumes R: "pages_rep ps s (p # fr)"
  shows "\<exists>s'. page_alloc s = (s', Some p) \<and> pages_rep ps s' fr \<and> ram_page ps p \<and>
    pmem s' = page_zero (pmem s) p \<and> page_rc s' = (page_rc s)(page_idx p := 1)"
proof -
  have C: "clists (pnodes s) [Free_pages \<mapsto> Page p # map Page fr]" and ok: "page_start_ok ps" and rp: "ram_page ps p"
    and rc: "page_rc s (page_idx p) = 0" using R by (auto simp: pages_rep_def page_get_ref_count_def)
  obtain h where h: "clist_pop_front (pnodes s) Free_pages = (Some (Page p), h)" "clists h [Free_pages \<mapsto> map Page fr]"
    using clists_pop_front [OF C, of Free_pages] by (cases "clist_pop_front (pnodes s) Free_pages") auto
  let ?s = "page_get (s\<lparr>pnodes := h, pmem := page_zero (pmem s) p\<rparr>) p"
  have a: "page_alloc s = (?s, Some p)" using h(1) by (simp add: page_alloc_def)
  have d: "p \<notin> set fr" using pages_rep_distinct [OF R] by simp
  have "page_get_ref_count ?s q = 0 \<longleftrightarrow> q \<in> set fr" if "ram_page ps q" for q
    using that R rc d page_idx_inj [OF ok rp that] by (auto simp: pages_rep_def page_get_def page_get_ref_count_def)
  then have "pages_rep ps ?s fr" using R h(2) by (auto simp: pages_rep_def page_get_def)
  then show ?thesis using a rp rc by (auto simp: page_get_def)
qed

lemma minus_one_u8: "(- 1 :: u8) = 255"
  by code_simp

lemma page_get_rep:
  assumes R: "pages_rep ps s fr" and p: "ram_page ps p" "p \<notin> set fr" and b: "page_get_ref_count s p \<noteq> 255"
  shows "pages_rep ps (page_get s p) fr"
proof -
  have ok: "page_start_ok ps" using R by (simp add: pages_rep_def)
  have nz: "page_rc s (page_idx p) + 1 \<noteq> 0" using b unfolding page_get_ref_count_def
    by (simp add: add_eq_0_iff2 minus_one_u8)
  have "page_get_ref_count (page_get s p) q = 0 \<longleftrightarrow> q \<in> set fr" if "ram_page ps q" for q
    using that R p nz page_idx_inj [OF ok p(1) that] by (auto simp: pages_rep_def page_get_def page_get_ref_count_def)
  then show ?thesis using R by (auto simp: pages_rep_def page_get_def)
qed

lemma page_put_panic: "page_get_ref_count s p = 0 \<Longrightarrow> page_put s p = Panic"
  by (simp add: page_put_def)

lemma page_put_last:
  assumes R: "pages_rep ps s fr" and p: "ram_page ps p" and one: "page_get_ref_count s p = 1"
  shows "\<exists>s'. page_put s p = Ret s' \<and> pages_rep ps s' (p # fr) \<and> pmem s' = pmem s \<and>
    page_rc s' = (page_rc s)(page_idx p := 0)"
proof -
  have ok: "page_start_ok ps" using R by (simp add: pages_rep_def)
  have d: "p \<notin> set fr" using R p one by (auto simp: pages_rep_def)
  let ?s = "s\<lparr>page_rc := (page_rc s)(page_idx p := 0)\<rparr>"
  have r: "page_put s p = Ret (push_free ?s p)" using one by (simp add: page_put_def page_get_ref_count_def)
  have "clists (pnodes (push_free ?s p)) [Free_pages \<mapsto> map Page (p # fr)]"
    using R d by (intro push_free_clists) (simp_all add: pages_rep_def)
  moreover have "page_get_ref_count (push_free ?s p) q = 0 \<longleftrightarrow> q \<in> set (p # fr)" if "ram_page ps q" for q
    using that R page_idx_inj [OF ok p that] by (auto simp: pages_rep_def page_get_ref_count_def)
  ultimately show ?thesis using r R p by (auto simp: pages_rep_def)
qed

lemma page_put_shared:
  assumes R: "pages_rep ps s fr" and p: "ram_page ps p" and rc: "1 < page_get_ref_count s p"
  shows "\<exists>s'. page_put s p = Ret s' \<and> pages_rep ps s' fr \<and> pmem s' = pmem s \<and>
    page_rc s' = (page_rc s)(page_idx p := page_rc s (page_idx p) - 1)"
proof -
  have ok: "page_start_ok ps" using R by (simp add: pages_rep_def)
  let ?s = "s\<lparr>page_rc := (page_rc s)(page_idx p := page_rc s (page_idx p) - 1)\<rparr>"
  have nz: "page_rc s (page_idx p) \<noteq> 0" "page_rc s (page_idx p) - 1 \<noteq> 0" using rc by (auto simp: page_get_ref_count_def)
  then have r: "page_put s p = Ret ?s" by (simp add: page_put_def page_get_ref_count_def)
  have "page_get_ref_count ?s q = 0 \<longleftrightarrow> q \<in> set fr" if "ram_page ps q" for q
    using that R p nz page_idx_inj [OF ok p that] by (auto simp: pages_rep_def page_get_ref_count_def)
  then show ?thesis using r R by (auto simp: pages_rep_def)
qed

text \<open>Initialisation pushes every page of the area.\<close>

lemma next_page:
  assumes "p < ram_end" and "4096 dvd unat p"
  shows "unat (p + PAGE_SIZE) = unat p + 4096" and "p + PAGE_SIZE \<le> ram_end"
proof -
  have p: "unat p < 0x88000000" using assms(1) by (simp add: layout_defs word_less_nat_alt)
  then show u: "unat (p + PAGE_SIZE) = unat p + 4096" by (simp add: layout_defs unat_word_ariths)
  obtain k where "unat p = 4096 * k" using assms(2) by (rule dvdE)
  then show "p + PAGE_SIZE \<le> ram_end" using p u by (simp add: word_le_nat_alt ram_end_def)
qed

lemma ram_page_below_next:
  assumes "ram_page ps q" and "4096 dvd unat p" and "unat p' = unat p + 4096"
  shows "q < p' \<longleftrightarrow> q \<le> p"
proof -
  obtain j k where "unat q = 4096 * j" "unat p = 4096 * k" using assms by (auto simp: ram_page_def elim!: dvdE)
  then show ?thesis using assms(3) by (auto simp: word_less_nat_alt word_le_nat_alt)
qed

lemma page_init_loop_fills:
  assumes "clists (pnodes s) [Free_pages \<mapsto> map Page fr]" and "\<forall>q. q \<in> set fr \<longleftrightarrow> ram_page ps q \<and> q < p"
    and "ps \<le> p" and "p \<le> ram_end" and "4096 dvd unat p"
  shows "\<exists>s' fr'. page_init_loop s p ram_end = Some s' \<and> clists (pnodes s') [Free_pages \<mapsto> map Page fr'] \<and>
    (\<forall>q. q \<in> set fr' \<longleftrightarrow> ram_page ps q) \<and> page_rc s' = page_rc s \<and> pmem s' = pmem s"
  using assms
proof (induction "unat ram_end - unat p" arbitrary: s fr p rule: less_induct)
  case less
  show ?case
  proof (cases "p < ram_end")
    case False
    then have "p = ram_end" using less.prems(4) by simp
    then show ?thesis using less.prems(1,2)
      by (subst page_init_loop.simps) (auto simp: ram_page_def)
  next
    case True
    note n = next_page [OF True less.prems(5)]
    have rp: "ram_page ps p" using True less.prems by (simp add: ram_page_def)
    have C: "clists (pnodes (push_free s p)) [Free_pages \<mapsto> map Page (p # fr)]"
      using less.prems(2) by (intro push_free_clists [OF less.prems(1)]) simp
    have lt: "unat ram_end - unat (p + PAGE_SIZE) < unat ram_end - unat p"
      using n True by (simp add: word_less_nat_alt word_le_nat_alt)
    have S: "\<forall>q. q \<in> set (p # fr) \<longleftrightarrow> ram_page ps q \<and> q < p + PAGE_SIZE"
      using less.prems(2) rp ram_page_below_next [OF _ less.prems(5) n(1), of ps] by (auto simp: le_less)
    have "p \<le> p + PAGE_SIZE" using n(1) by (simp add: word_le_nat_alt)
    then have "ps \<le> p + PAGE_SIZE" using less.prems(3) by (rule order_trans [rotated])
    moreover have "4096 dvd unat (p + PAGE_SIZE)" using n(1) less.prems(5) by simp
    ultimately show ?thesis using less.hyps [OF lt C S _ n(2)] True
      by (subst page_init_loop.simps) simp
  qed
qed

lemma page_init_rep:
  assumes "\<And>n. \<not> in_list (pnodes s n)" and "page_start_ok ps" and "\<forall>i. page_rc s i = 0"
  shows "\<exists>s' fr. page_init s ps = Some (Ret s') \<and> pages_rep ps s' fr \<and> (\<forall>q. q \<in> set fr \<longleftrightarrow> ram_page ps q)"
proof -
  let ?s = "s\<lparr>pnodes := clist_init_node (pnodes s) Free_pages\<rparr>"
  have C: "clists (pnodes ?s) [Free_pages \<mapsto> map Page []]"
    using clists_init_head [OF clists_none, of "pnodes s" Free_pages] assms(1) by simp
  have N: "\<forall>q. q \<in> set [] \<longleftrightarrow> ram_page ps q \<and> q < ps" by (auto simp: ram_page_def)
  obtain s' fr where l: "page_init_loop ?s ps ram_end = Some s'" "clists (pnodes s') [Free_pages \<mapsto> map Page fr]"
    "\<forall>q. q \<in> set fr \<longleftrightarrow> ram_page ps q" "page_rc s' = page_rc s"
    using page_init_loop_fills [OF C N] assms(2) by (auto simp: page_start_ok_def)
  have "page_init s ps = Some (Ret s')" using l(1) by (simp add: page_init_def layout_defs)
  moreover have "pages_rep ps s' fr" using l assms(2,3) by (simp add: pages_rep_def page_get_ref_count_def)
  ultimately show ?thesis using l(3) by blast
qed

section \<open>The allocator as an interface\<close>

text \<open>Releasing a frame a number of times.\<close>

fun put_times :: "('s \<Rightarrow> 'p \<Rightarrow> 's outcome) \<Rightarrow> nat \<Rightarrow> 's \<Rightarrow> 'p \<Rightarrow> 's outcome" where
  "put_times put 0 s p = Ret s"
| "put_times put (Suc n) s p = bind_out (put s p) (\<lambda>s'. put_times put n s' p)"

text \<open>
  What the rest of the kernel relies on: a stack \<open>fr\<close> of free frames, a reference count \<open>rc\<close>, and an
  allocation, an extra reference and a release.  The laws are those of the operations above; the
  lemmas about sequences of calls are proved from the laws alone.
\<close>

locale frame_allocator =
  fixes rep :: "'s \<Rightarrow> 'p list \<Rightarrow> bool"
    and frame :: "'p \<Rightarrow> bool"
    and rc :: "'s \<Rightarrow> 'p \<Rightarrow> nat"
    and alloc :: "'s \<Rightarrow> 's \<times> 'p option"
    and get :: "'s \<Rightarrow> 'p \<Rightarrow> 's"
    and put :: "'s \<Rightarrow> 'p \<Rightarrow> 's outcome"
    and limit :: nat
  assumes free_frame: "rep s fr \<Longrightarrow> p \<in> set fr \<Longrightarrow> frame p"
    and free_rc: "rep s fr \<Longrightarrow> frame p \<Longrightarrow> rc s p = 0 \<longleftrightarrow> p \<in> set fr"
    and free_distinct: "rep s fr \<Longrightarrow> distinct fr"
    and alloc_empty: "rep s [] \<Longrightarrow> snd (alloc s) = None \<and> rep (fst (alloc s)) [] \<and> rc (fst (alloc s)) = rc s"
    and alloc_pop: "rep s (p # fr) \<Longrightarrow> snd (alloc s) = Some p \<and> rep (fst (alloc s)) fr \<and>
      (\<forall>q. frame q \<longrightarrow> rc (fst (alloc s)) q = (if q = p then 1 else rc s q))"
    and get_incr: "rep s fr \<Longrightarrow> frame p \<Longrightarrow> 0 < rc s p \<Longrightarrow> rc s p < limit \<Longrightarrow> rep (get s p) fr \<and>
      (\<forall>q. frame q \<longrightarrow> rc (get s p) q = (if q = p then rc s p + 1 else rc s q))"
    and put_free: "rep s fr \<Longrightarrow> frame p \<Longrightarrow> rc s p = 0 \<Longrightarrow> put s p = Panic"
    and put_last: "rep s fr \<Longrightarrow> frame p \<Longrightarrow> rc s p = 1 \<Longrightarrow> \<exists>s'. put s p = Ret s' \<and> rep s' (p # fr) \<and>
      (\<forall>q. frame q \<longrightarrow> rc s' q = (if q = p then 0 else rc s q))"
    and put_shared: "rep s fr \<Longrightarrow> frame p \<Longrightarrow> 1 < rc s p \<Longrightarrow> \<exists>s'. put s p = Ret s' \<and> rep s' fr \<and>
      (\<forall>q. frame q \<longrightarrow> rc s' q = (if q = p then rc s p - 1 else rc s q))"
begin

text \<open>Taking a reference and dropping it, and allocating and dropping, give the free stack back.\<close>

lemma get_put:
  assumes "rep s fr" and "frame p" and "0 < rc s p" and "rc s p < limit"
  shows "\<exists>s'. put (get s p) p = Ret s' \<and> rep s' fr \<and> (\<forall>q. frame q \<longrightarrow> rc s' q = rc s q)"
  using get_incr [OF assms] put_shared [of "get s p" fr p] assms(2,3) by auto

lemma alloc_put:
  assumes "rep s (p # fr)"
  shows "\<exists>s'. put (fst (alloc s)) p = Ret s' \<and> rep s' (p # fr) \<and> (\<forall>q. frame q \<longrightarrow> rc s' q = rc s q)"
proof -
  have f: "frame p" and z: "rc s p = 0" using free_frame [OF assms] free_rc [OF assms] by auto
  show ?thesis using alloc_pop [OF assms] put_last [of "fst (alloc s)" fr p] f z by auto
qed

text \<open>As many releases as references free a frame, and one more stops the machine.\<close>

lemma put_all:
  assumes "rep s fr" and "frame p" and "rc s p = Suc n"
  shows "\<exists>s'. put_times put (Suc n) s p = Ret s' \<and> rep s' (p # fr) \<and> rc s' p = 0 \<and> put s' p = Panic"
  using assms
proof (induction n arbitrary: s)
  case 0
  then obtain s' where "put s p = Ret s'" "rep s' (p # fr)" "rc s' p = 0" using put_last [of s fr p] by auto
  then show ?case using put_free [of s' "p # fr" p] 0 by auto
next
  case (Suc n)
  then obtain s' where "put s p = Ret s'" "rep s' fr" "rc s' p = Suc n" using put_shared [of s fr p] by auto
  then show ?case using Suc.IH [of s'] Suc.prems(2) by auto
qed

end

lemma unat_u8_pred: "(x :: u8) \<noteq> 0 \<Longrightarrow> unat (x - 1) = unat x - 1"
  by (simp add: unat_sub word_le_nat_alt Suc_le_eq unat_gt_0)

lemma unat_u8_succ: "(x :: u8) \<noteq> 255 \<Longrightarrow> unat (x + 1) = unat x + 1"
proof -
  assume "x \<noteq> 255"
  then have "unat x \<noteq> 255" by (auto simp: word_unat_eq_iff)
  moreover have "unat x < 256" using unsigned_less [of x] by simp
  ultimately show ?thesis by (simp add: unat_word_ariths)
qed

lemma ref_count_other:
  assumes "page_start_ok ps" and "ram_page ps p" and "ram_page ps q" and "page_rc s' = (page_rc s)(page_idx p := v)"
  shows "page_get_ref_count s' q = (if q = p then v else page_get_ref_count s q)"
  using page_idx_inj [OF assms(1,2,3)] assms(4) by (auto simp: page_get_ref_count_def)

interpretation pg: frame_allocator "pages_rep ps" "ram_page ps" "\<lambda>s p. unat (page_get_ref_count s p)"
  page_alloc page_get page_put 255
proof unfold_locales
  fix s fr p
  assume R: "pages_rep ps s fr"
  have ok: "page_start_ok ps" using R by (simp add: pages_rep_def)
  show "distinct fr" by (rule pages_rep_distinct [OF R])
  show "p \<in> set fr \<Longrightarrow> ram_page ps p" using R by (simp add: pages_rep_def)
  assume p: "ram_page ps p"
  show "unat (page_get_ref_count s p) = 0 \<longleftrightarrow> p \<in> set fr" using R p by (simp add: pages_rep_def unat_eq_0)
  show "unat (page_get_ref_count s p) = 0 \<Longrightarrow> page_put s p = Panic" by (simp add: page_put_panic unat_eq_0)
  show "pages_rep ps (page_get s p) fr \<and> (\<forall>q. ram_page ps q \<longrightarrow> unat (page_get_ref_count (page_get s p) q) =
      (if q = p then unat (page_get_ref_count s p) + 1 else unat (page_get_ref_count s q)))"
    if "0 < unat (page_get_ref_count s p)" "unat (page_get_ref_count s p) < 255"
  proof -
    have n: "page_get_ref_count s p \<noteq> 255" "p \<notin> set fr" using that R p by (auto simp: pages_rep_def)
    have "page_get_ref_count (page_get s p) q = (if q = p then page_get_ref_count s p + 1 else page_get_ref_count s q)"
      if "ram_page ps q" for q
      by (rule ref_count_other [OF ok p that]) (simp add: page_get_def page_get_ref_count_def)
    then show ?thesis using page_get_rep [OF R p n(2,1)] unat_u8_succ [OF n(1)] by auto
  qed
  show "\<exists>s'. page_put s p = Ret s' \<and> pages_rep ps s' (p # fr) \<and> (\<forall>q. ram_page ps q \<longrightarrow>
      unat (page_get_ref_count s' q) = (if q = p then 0 else unat (page_get_ref_count s q)))"
    if "unat (page_get_ref_count s p) = 1"
  proof -
    have "page_get_ref_count s p = 1" using that by (simp add: word_unat_eq_iff)
    from page_put_last [OF R p this] ref_count_other [OF ok p] show ?thesis by fastforce
  qed
  show "\<exists>s'. page_put s p = Ret s' \<and> pages_rep ps s' fr \<and> (\<forall>q. ram_page ps q \<longrightarrow>
      unat (page_get_ref_count s' q) = (if q = p then unat (page_get_ref_count s p) - 1 else unat (page_get_ref_count s q)))"
    if "1 < unat (page_get_ref_count s p)"
  proof -
    have r: "1 < page_get_ref_count s p" "page_get_ref_count s p \<noteq> 0" using that by (auto simp: word_less_nat_alt)
    obtain s' where s': "page_put s p = Ret s'" "pages_rep ps s' fr"
      "page_rc s' = (page_rc s)(page_idx p := page_rc s (page_idx p) - 1)" using page_put_shared [OF R p r(1)] by blast
    have "page_get_ref_count s' q = (if q = p then page_get_ref_count s p - 1 else page_get_ref_count s q)"
      if "ram_page ps q" for q
      using ref_count_other [OF ok p that s'(3)] by (simp add: page_get_ref_count_def)
    then show ?thesis using s'(1,2) unat_u8_pred [OF r(2)] by auto
  qed
next
  fix s
  assume R: "pages_rep ps s []"
  then show "snd (page_alloc s) = None \<and> pages_rep ps (fst (page_alloc s)) [] \<and>
      (\<lambda>p. unat (page_get_ref_count (fst (page_alloc s)) p)) = (\<lambda>p. unat (page_get_ref_count s p))"
    using page_alloc_none [OF R] by (auto simp: page_get_ref_count_def)
next
  fix s p fr
  assume R: "pages_rep ps s (p # fr)"
  have ok: "page_start_ok ps" using R by (simp add: pages_rep_def)
  obtain s' where s': "page_alloc s = (s', Some p)" "pages_rep ps s' fr" "ram_page ps p" "page_rc s' = (page_rc s)(page_idx p := 1)"
    using page_alloc_some [OF R] by blast
  then show "snd (page_alloc s) = Some p \<and> pages_rep ps (fst (page_alloc s)) fr \<and> (\<forall>q. ram_page ps q \<longrightarrow>
      unat (page_get_ref_count (fst (page_alloc s)) q) = (if q = p then 1 else unat (page_get_ref_count s q)))"
    using ref_count_other [OF ok s'(3)] by auto
qed

section \<open>Runs of the allocator\<close>

text \<open>
  The states the kernel can bring the allocator to, with the number \<open>H p\<close> of references the kernel
  holds on each page: it releases only what it holds and holds a page at most 255 times.
\<close>

inductive pg_reach :: "u64 \<Rightarrow> phys \<Rightarrow> (u64 \<Rightarrow> nat) \<Rightarrow> bool" for ps :: u64 where
  reach_init: "page_start_ok ps \<Longrightarrow> (\<And>n. \<not> in_list (pnodes s0 n)) \<Longrightarrow> \<forall>i. page_rc s0 i = 0 \<Longrightarrow>
    page_init s0 ps = Some (Ret s) \<Longrightarrow> pg_reach ps s (\<lambda>_. 0)"
| reach_alloc: "pg_reach ps s H \<Longrightarrow> page_alloc s = (s', Some p) \<Longrightarrow> pg_reach ps s' (H(p := 1))"
| reach_fail: "pg_reach ps s H \<Longrightarrow> page_alloc s = (s', None) \<Longrightarrow> pg_reach ps s' H"
| reach_get: "pg_reach ps s H \<Longrightarrow> ram_page ps p \<Longrightarrow> 0 < H p \<Longrightarrow> H p < 255 \<Longrightarrow>
    pg_reach ps (page_get s p) (H(p := H p + 1))"
| reach_put: "pg_reach ps s H \<Longrightarrow> ram_page ps p \<Longrightarrow> 0 < H p \<Longrightarrow> page_put s p = Ret s' \<Longrightarrow>
    pg_reach ps s' (H(p := H p - 1))"

lemma pg_reach_rep:
  "pg_reach ps s H \<Longrightarrow> \<exists>fr. pages_rep ps s fr \<and> (\<forall>p. ram_page ps p \<longrightarrow> unat (page_get_ref_count s p) = H p)"
proof (induction rule: pg_reach.induct)
  case (reach_init s0 s)
  then obtain s' fr where "page_init s0 ps = Some (Ret s')" and R: "pages_rep ps s' fr" "\<forall>q. q \<in> set fr \<longleftrightarrow> ram_page ps q"
    using page_init_rep [of s0 ps] by blast
  then have "s' = s" using reach_init(4) by simp
  then show ?case using R by (auto simp: pages_rep_def unat_eq_0)
next
  case (reach_alloc s H s' p)
  then obtain fr where R: "pages_rep ps s fr" "\<forall>q. ram_page ps q \<longrightarrow> unat (page_get_ref_count s q) = H q" by blast
  then obtain fr' where "fr = p # fr'" "pages_rep ps s' fr'"
    "\<forall>q. ram_page ps q \<longrightarrow> unat (page_get_ref_count s' q) = (if q = p then 1 else unat (page_get_ref_count s q))"
    using pg.alloc_empty [of ps s] pg.alloc_pop [of ps s] reach_alloc(2) by (cases fr) fastforce+
  then show ?case using R(2) by auto
next
  case (reach_fail s H s')
  then obtain fr where R: "pages_rep ps s fr" "\<forall>q. ram_page ps q \<longrightarrow> unat (page_get_ref_count s q) = H q" by blast
  then have "fr = []" using pg.alloc_pop [of ps s] reach_fail(2) by (cases fr) fastforce+
  then have E: "pages_rep ps s' []" "\<forall>p. unat (page_get_ref_count s' p) = unat (page_get_ref_count s p)"
    using pg.alloc_empty [of ps s] R(1) reach_fail(2) by (auto simp: fun_eq_iff)
  then show ?case using R(2) by auto
next
  case (reach_get s H p)
  then show ?case using pg.get_incr [of ps s _ p] by fastforce
next
  case (reach_put s H p s')
  then obtain fr where R: "pages_rep ps s fr" "\<forall>q. ram_page ps q \<longrightarrow> unat (page_get_ref_count s q) = H q" by blast
  consider "unat (page_get_ref_count s p) = 1" | "1 < unat (page_get_ref_count s p)"
    using R(2) reach_put(2,3) by fastforce
  then show ?case
    using pg.put_last [OF R(1) reach_put(2)] pg.put_shared [OF R(1) reach_put(2)] R(2) reach_put(2,4)
    by cases fastforce+
qed

section \<open>Properties\<close>

text \<open>
  C5: In every state the kernel can reach by allocating pages, taking references on pages it holds
  and dropping references it holds, the counter of each page is the number of references held.  A
  release by a holder never stops the machine, while a release of a page nobody holds always does.
  An allocation that succeeds returns a page of the RAM that nobody held, zeroed and held once, and
  one that fails means that every page is held.
\<close>

theorem page_allocator_sound:
  assumes "pg_reach ps s H"
  shows "(\<forall>p. ram_page ps p \<longrightarrow> unat (page_get_ref_count s p) = H p \<and> (page_put s p = Panic \<longleftrightarrow> H p = 0)) \<and>
    (case page_alloc s of
       (s', Some p) \<Rightarrow> ram_page ps p \<and> H p = 0 \<and> page_get_ref_count s' p = 1 \<and>
         (\<forall>a. pmem s' a = (if a - p < PAGE_SIZE then 0 else pmem s a))
     | (s', None) \<Rightarrow> \<forall>p. ram_page ps p \<longrightarrow> 0 < H p)"
proof -
  obtain fr where R: "pages_rep ps s fr" "\<And>p. ram_page ps p \<Longrightarrow> unat (page_get_ref_count s p) = H p"
    using pg_reach_rep [OF assms] by blast
  have "page_put s p = Panic \<longleftrightarrow> H p = 0" if "ram_page ps p" for p
    unfolding R(2) [OF that, symmetric] by (auto simp: page_put_def unat_eq_0 Let_def)
  moreover have "case page_alloc s of
       (s', Some p) \<Rightarrow> ram_page ps p \<and> H p = 0 \<and> page_get_ref_count s' p = 1 \<and>
         (\<forall>a. pmem s' a = (if a - p < PAGE_SIZE then 0 else pmem s a))
     | (s', None) \<Rightarrow> \<forall>p. ram_page ps p \<longrightarrow> 0 < H p"
  proof (cases fr)
    case Nil
    have "0 < H p" if "ram_page ps p" for p
      using pg.free_rc [OF R(1) that] R(2) [OF that] Nil by simp
    then show ?thesis using page_alloc_none [of ps s] R(1) Nil by fastforce
  next
    case (Cons p fr')
    obtain s' where s': "page_alloc s = (s', Some p)" "ram_page ps p" "pmem s' = page_zero (pmem s) p"
      "page_rc s' = (page_rc s)(page_idx p := 1)" using page_alloc_some [of ps s p fr'] R(1) Cons by blast
    have "H p = 0" using pg.free_rc [OF R(1) s'(2)] R(2) [OF s'(2)] Cons by simp
    then show ?thesis using s' by (simp add: page_zero_def page_get_ref_count_def)
  qed
  ultimately show ?thesis using R(2) by blast
qed

definition boot_phys :: phys where
  "boot_phys = \<lparr>pmem = (\<lambda>_. 0), page_rc = (\<lambda>_. 0), pnodes = (\<lambda>n. \<lparr>nxt = n, prv = n, in_list = False\<rparr>)\<rparr>"

lemma boot_reach: "page_start_ok ps \<Longrightarrow> pg_reach ps (ret_val (the (page_init boot_phys ps))) (\<lambda>_. 0)"
  using page_init_rep [of boot_phys ps]
  by (intro reach_init [of ps boot_phys]) (auto simp: boot_phys_def)

theorem page_allocator_sound_witness:
  "page_put (ret_val (the (page_init boot_phys 0x80400000))) 0x80400000 = Panic"
proof -
  have "pg_reach 0x80400000 (ret_val (the (page_init boot_phys 0x80400000))) (\<lambda>_. 0)"
    by (rule boot_reach) (simp add: page_start_ok_def layout_defs)
  from page_allocator_sound [OF this] show ?thesis by (simp add: ram_page_def layout_defs)
qed

text \<open>
  Releasing a page as often as it is held puts it back on the free list, and one release more
  stops the machine; the counter of 8 bits wraps at the 256th reference, after which a single
  release frees the page under its other holders.
\<close>

theorem page_put_balanced:
  assumes "pages_rep ps s fr" and "ram_page ps p" and "unat (page_get_ref_count s p) = Suc n"
  shows "(\<exists>s'. put_times page_put (Suc n) s p = Ret s' \<and> pages_rep ps s' (p # fr) \<and> page_put s' p = Panic) \<and>
    (n = 254 \<longrightarrow> page_get_ref_count (page_get s p) p = 0 \<and>
      (\<exists>s'. page_put (page_get (page_get s p) p) p = Ret s' \<and> page_get_ref_count s' p = 0))"
proof -
  have "page_get_ref_count (page_get s p) p = 0" if "n = 254"
    using assms(3) that by (simp add: page_get_def page_get_ref_count_def word_unat_eq_iff unat_word_ariths)
  moreover have "\<exists>s'. page_put (page_get (page_get s p) p) p = Ret s' \<and> page_get_ref_count s' p = 0"
    if "page_get_ref_count (page_get s p) p = 0"
    using that by (simp add: page_put_def page_get_def page_get_ref_count_def Let_def)
  ultimately show ?thesis using pg.put_all [OF assms] by blast
qed

definition full_phys :: phys where
  "full_phys = boot_phys\<lparr>page_rc := (\<lambda>_. 1), pnodes := clist_init_node (pnodes boot_phys) Free_pages\<rparr>"

lemma full_phys_rep: "page_start_ok ps \<Longrightarrow> pages_rep ps full_phys []"
  using clists_init_head [OF clists_none, of "pnodes boot_phys" Free_pages]
  by (simp add: pages_rep_def full_phys_def boot_phys_def page_get_ref_count_def)

theorem page_put_balanced_witness:
  "\<exists>s'. put_times page_put (Suc 0) full_phys 0x87fff000 = Ret s' \<and> pages_rep 0x80400000 s' [0x87fff000] \<and>
    page_put s' 0x87fff000 = Panic"
proof -
  have "pages_rep 0x80400000 full_phys []" by (rule full_phys_rep) (simp add: page_start_ok_def layout_defs)
  moreover have "ram_page 0x80400000 0x87fff000" by (simp add: ram_page_def layout_defs)
  moreover have "unat (page_get_ref_count full_phys 0x87fff000) = Suc 0"
    by (simp add: full_phys_def page_get_ref_count_def)
  ultimately show ?thesis by (rule page_put_balanced [THEN conjunct1])
qed

end
