(* ===== verification/Vpages.thy ===== *)
theory Vpages
  imports Prelude Strings Pages
begin

text \<open>
  The Sv39 page tables of \<^verbatim>\<open>kernel/core/memory/vpages.c\<close>.  A page table is a page of the physical
  memory read as 512 little-endian words; every function works on the bytes of that memory, so
  tables, mapped pages and kernel buffers can alias.  Flushing the translation cache has no effect
  on the model, in which every access reads the tables.
\<close>

section \<open>Loads and stores of words\<close>

definition rd64 :: "(u64 \<Rightarrow> u8) \<Rightarrow> u64 \<Rightarrow> u64" where
  "rd64 m a = le_word (map (\<lambda>i. m (a + word_of_nat i)) [0..<8])"

definition wr64 :: "(u64 \<Rightarrow> u8) \<Rightarrow> u64 \<Rightarrow> u64 \<Rightarrow> u64 \<Rightarrow> u8" where
  "wr64 m a w = (\<lambda>b. if b - a < 8 then ucast (drop_bit (8 * unat (b - a)) w) else m b)"

definition load :: "phys \<Rightarrow> u64 \<Rightarrow> u64" where "load s a = rd64 (pmem s) a"
definition store :: "phys \<Rightarrow> u64 \<Rightarrow> u64 \<Rightarrow> phys" where "store s a w = s\<lparr>pmem := wr64 (pmem s) a w\<rparr>"

definition memcpy_phys :: "phys \<Rightarrow> u64 \<Rightarrow> u64 \<Rightarrow> u64 \<Rightarrow> phys" where
  "memcpy_phys s dst src n =
    s\<lparr>pmem := (\<lambda>a. if a - dst < n then pmem s (src + (a - dst)) else pmem s a)\<rparr>"

section \<open>Page table entries\<close>

definition PTE_V :: u64 where [layout_defs]: "PTE_V = 1"
definition PTE_R :: u64 where [layout_defs]: "PTE_R = 2"
definition PTE_W :: u64 where [layout_defs]: "PTE_W = 4"
definition PTE_X :: u64 where [layout_defs]: "PTE_X = 8"
definition PTE_U :: u64 where [layout_defs]: "PTE_U = 16"
definition PTE_G :: u64 where [layout_defs]: "PTE_G = 32"
definition PTE_A :: u64 where [layout_defs]: "PTE_A = 64"
definition PTE_D :: u64 where [layout_defs]: "PTE_D = 128"
definition PTE_COW :: u64 where [layout_defs]: "PTE_COW = 256"
definition PTE_FLAGS_MASK :: u64 where [layout_defs]: "PTE_FLAGS_MASK = 1023"

definition LEVELS :: nat where [layout_defs]: "LEVELS = 3"
definition OFFSET_MASK :: u64 where [layout_defs]: "OFFSET_MASK = 0xfff"
definition PTE_PPN_SHIFT :: nat where [layout_defs]: "PTE_PPN_SHIFT = 10"
definition VA_VPN_BITS :: nat where [layout_defs]: "VA_VPN_BITS = 9"
definition VA_VPN_MASK :: u64 where [layout_defs]: "VA_VPN_MASK = 0x1ff"
definition PTE_ENTRY_PER_TABLE :: nat where [layout_defs]: "PTE_ENTRY_PER_TABLE = 512"

definition MAX_VA :: u64 where [layout_defs]: "MAX_VA = 0x4000000000"
definition TRAMPOLINE :: u64 where [layout_defs]: "TRAMPOLINE = MAX_VA - PAGE_SIZE"
definition TRAPFRAME :: u64 where [layout_defs]: "TRAPFRAME = MAX_VA - 2 * PAGE_SIZE"

definition has :: "u64 \<Rightarrow> u64 \<Rightarrow> bool" where
  "has pte flag \<longleftrightarrow> pte AND flag \<noteq> 0"

definition get_va_vpn :: "u64 \<Rightarrow> nat \<Rightarrow> u64" where
  "get_va_vpn va lvl = drop_bit (PAGE_SHIFT + VA_VPN_BITS * lvl) va AND VA_VPN_MASK"

definition get_pte :: "u64 \<Rightarrow> u64 \<Rightarrow> nat \<Rightarrow> u64" where
  "get_pte table va lvl = table + 8 * get_va_vpn va lvl"

definition get_next_lvl_pte :: "u64 \<Rightarrow> u64" where
  "get_next_lvl_pte pte = push_bit PAGE_SHIFT (drop_bit PTE_PPN_SHIFT pte)"

definition is_a_next_lvl_ptr :: "u64 \<Rightarrow> bool" where
  "is_a_next_lvl_ptr pte \<longleftrightarrow> \<not> has pte PTE_X \<and> \<not> has pte PTE_W \<and> \<not> has pte PTE_R"

definition get_flags :: "u64 \<Rightarrow> u64" where
  "get_flags pte = pte AND PTE_FLAGS_MASK"

text \<open>The entry for a physical page, as \<^verbatim>\<open>vpage_map\<close> and \<^verbatim>\<open>vpage_handle_cow\<close> build it.\<close>

definition mk_pte :: "u64 \<Rightarrow> u64 \<Rightarrow> u64" where
  "mk_pte pa flags = push_bit PTE_PPN_SHIFT (page_get_num pa) OR flags"

section \<open>Mapping\<close>

text \<open>
  The loop of \<^verbatim>\<open>vpage_map\<close> over the levels above the leaves: it ends with the last table, or with
  the tables it allocated when it runs out of memory.
\<close>

fun map_walk :: "phys \<Rightarrow> u64 \<Rightarrow> u64 \<Rightarrow> nat \<Rightarrow> u64 list \<Rightarrow> phys \<times> (u64 list + u64)" where
  "map_walk s table va 0 allocs = (s, Inr table)"
| "map_walk s table va (Suc l) allocs =
    (let pte = get_pte table va (Suc l) in
     if \<not> has (load s pte) PTE_V then
       (case page_alloc s of
          (s1, None) \<Rightarrow> (s1, Inl allocs)
        | (s1, Some next_t) \<Rightarrow>
            (let s2 = store s1 pte (mk_pte next_t PTE_V)
             in map_walk s2 (get_next_lvl_pte (load s2 pte)) va l (allocs @ [next_t])))
     else map_walk s (get_next_lvl_pte (load s pte)) va l allocs)"

definition leaf_flags :: "u64 \<Rightarrow> u64" where
  "leaf_flags flags =
    (let f = flags OR PTE_V OR PTE_A in if has flags PTE_W then f OR PTE_D else f)"

definition vpage_map :: "phys \<Rightarrow> u64 \<Rightarrow> u64 \<Rightarrow> u64 \<Rightarrow> u64 \<Rightarrow> (phys \<times> int) outcome" where
  "vpage_map s root va pa flags =
    (case map_walk s root va (LEVELS - 1) [] of
       (s1, Inr table) \<Rightarrow> Ret (store s1 (get_pte table va 0) (mk_pte pa (leaf_flags flags)), 0)
     | (s1, Inl allocs) \<Rightarrow> bind_out (fold_out page_put allocs s1) (\<lambda>s2. Ret (s2, - ENOMEM)))"

definition vpage_map_user :: "phys \<Rightarrow> u64 \<Rightarrow> u64 \<Rightarrow> u64 \<Rightarrow> u64 \<Rightarrow> (phys \<times> int) outcome" where
  "vpage_map_user s root va pa flags = vpage_map s root va pa (PTE_U OR flags)"

partial_function (option) map_range_loop :: "phys \<Rightarrow> u64 \<Rightarrow> u64 \<Rightarrow> u64 \<Rightarrow> u64 \<Rightarrow> u64 \<Rightarrow> u64 \<Rightarrow> (phys \<times> int) outcome option" where
  "map_range_loop s root va pa sz flags off =
    (if off < sz then
       (case vpage_map s root (va + off) (pa + off) flags of
          Ret (s1, res) \<Rightarrow>
            (if res < 0 then Some (Ret (s1, res)) else map_range_loop s1 root va pa sz flags (off + PAGE_SIZE))
        | r \<Rightarrow> Some r)
     else Some (Ret (s, 0)))"

definition vpage_map_range :: "phys \<Rightarrow> u64 \<Rightarrow> u64 \<Rightarrow> u64 \<Rightarrow> u64 \<Rightarrow> u64 \<Rightarrow> (phys \<times> int) outcome option" where
  "vpage_map_range s root va pa sz flags = map_range_loop s root va pa sz flags 0"

definition vpage_map_user_range :: "phys \<Rightarrow> u64 \<Rightarrow> u64 \<Rightarrow> u64 \<Rightarrow> u64 \<Rightarrow> u64 \<Rightarrow> (phys \<times> int) outcome option" where
  "vpage_map_user_range s root va pa sz flags = vpage_map_range s root va pa sz (PTE_U OR flags)"

section \<open>Walking\<close>

text \<open>\<^verbatim>\<open>walk_leaf\<close> from a table of level \<open>lvl\<close>: the address of the leaf entry.\<close>

fun walk_from :: "phys \<Rightarrow> u64 \<Rightarrow> u64 \<Rightarrow> nat \<Rightarrow> u64 option" where
  "walk_from s table va 0 =
    (let pte = get_pte table va 0; e = load s pte in
     if \<not> has e PTE_V then None else if \<not> is_a_next_lvl_ptr e then Some pte else None)"
| "walk_from s table va (Suc l) =
    (let pte = get_pte table va (Suc l); e = load s pte in
     if \<not> has e PTE_V then None else if \<not> is_a_next_lvl_ptr e then Some pte
     else walk_from s (get_next_lvl_pte e) va l)"

definition walk_leaf :: "phys \<Rightarrow> u64 \<Rightarrow> u64 \<Rightarrow> u64 option" where
  "walk_leaf s root va = walk_from s root va (LEVELS - 1)"

definition vpage_unmmap :: "phys \<Rightarrow> u64 \<Rightarrow> u64 \<Rightarrow> (phys \<times> int) outcome" where
  "vpage_unmmap s root va =
    (case walk_leaf s root va of
       None \<Rightarrow> Ret (s, - EINVAL)
     | Some leaf \<Rightarrow>
         bind_out (page_put s (get_next_lvl_pte (load s leaf))) (\<lambda>s1. Ret (store s1 leaf 0, 0)))"

text \<open>One entry of \<^verbatim>\<open>walk_free\<close>; \<open>sub\<close> frees a table of the next level, absent at level 0.\<close>

definition free_entry :: "(phys \<Rightarrow> u64 \<Rightarrow> phys outcome) option \<Rightarrow> u64 \<Rightarrow> phys \<Rightarrow> nat \<Rightarrow> phys outcome" where
  "free_entry sub table s i =
    (let a = table + 8 * word_of_nat i; pte = load s a in
     if has pte PTE_V then
       (case (sub, is_a_next_lvl_ptr pte) of
          (Some f, True) \<Rightarrow> f s (get_next_lvl_pte pte)
        | _ \<Rightarrow>
            bind_out
              (if has pte PTE_V \<and> \<not> has pte PTE_G \<and> \<not> is_a_next_lvl_ptr pte
               then page_put s (get_next_lvl_pte pte) else Ret s)
              (\<lambda>s1. Ret (store s1 a 0)))
     else Ret s)"

primrec walk_free :: "nat \<Rightarrow> phys \<Rightarrow> u64 \<Rightarrow> phys outcome" where
  "walk_free 0 = (\<lambda>s table.
    bind_out (fold_out (free_entry None table) [0..<PTE_ENTRY_PER_TABLE] s) (\<lambda>s1. page_put s1 table))"
| "walk_free (Suc l) = (\<lambda>s table.
    bind_out (fold_out (free_entry (Some (walk_free l)) table) [0..<PTE_ENTRY_PER_TABLE] s) (\<lambda>s1. page_put s1 table))"

definition vpage_tree_free :: "phys \<Rightarrow> u64 option \<Rightarrow> phys outcome" where
  "vpage_tree_free s root = (case root of None \<Rightarrow> Ret s | Some r \<Rightarrow> walk_free (LEVELS - 1) s r)"

section \<open>Copy on write\<close>

definition vpage_handle_cow :: "phys \<Rightarrow> u64 \<Rightarrow> u64 \<Rightarrow> (phys \<times> int) outcome" where
  "vpage_handle_cow s root va =
    (case walk_leaf s root va of
       None \<Rightarrow> Ret (s, - EFAULT)
     | Some leaf \<Rightarrow>
         (if \<not> has (load s leaf) PTE_COW then Ret (s, - EFAULT)
          else
            (let page = get_next_lvl_pte (load s leaf) in
             if page_get_ref_count s page = 1 then
               (let s1 = store s leaf (load s leaf AND NOT PTE_COW);
                    s2 = store s1 leaf (load s1 leaf OR PTE_W)
                in Ret (s2, 0))
             else
               (case page_alloc s of
                  (s1, None) \<Rightarrow> Ret (s1, - ENOMEM)
                | (s1, Some new_page) \<Rightarrow>
                    (let s2 = page_copy s1 new_page page;
                         s3 = store s2 leaf (mk_pte new_page ((get_flags (load s2 leaf) AND NOT PTE_COW) OR PTE_W))
                     in bind_out (page_put s3 page) (\<lambda>s4. Ret (s4, 0)))))))"

definition get_pa_from_va :: "phys \<Rightarrow> u64 \<Rightarrow> u64 \<Rightarrow> u64 \<Rightarrow> (phys \<times> u64 option) outcome" where
  "get_pa_from_va s root va needed_flags =
    (case walk_leaf s root va of
       None \<Rightarrow> Ret (s, None)
     | Some leaf \<Rightarrow>
         bind_out
           (if has needed_flags PTE_W \<and> has (load s leaf) PTE_COW then vpage_handle_cow s root va else Ret (s, 0))
           (\<lambda>(s1, res).
              if res \<noteq> 0 then Ret (s1, None)
              else if load s1 leaf AND needed_flags \<noteq> needed_flags then Ret (s1, None)
              else Ret (s1, Some (get_next_lvl_pte (load s1 leaf) + (va AND OFFSET_MASK)))))"

section \<open>Access to user memory\<close>

definition vpage_copyin :: "phys \<Rightarrow> u64 \<Rightarrow> u64 \<Rightarrow> u64 \<Rightarrow> u64 \<Rightarrow> (phys \<times> int) outcome" where
  "vpage_copyin s root dst va count =
    bind_out (get_pa_from_va s root va (PTE_V OR PTE_U OR PTE_R))
      (\<lambda>(s1, pa). case pa of
          None \<Rightarrow> Ret (s1, - EFAULT)
        | Some p \<Rightarrow> Ret (memcpy_phys s1 dst p count, 0))"

text \<open>The bytes from an address on, as \<^verbatim>\<open>strnlen\<close> reads them.\<close>

definition bytes_at :: "phys \<Rightarrow> u64 \<Rightarrow> mem" where
  "bytes_at s a = (\<lambda>i. pmem s (a + word_of_nat i))"

definition vpage_copyinstr :: "phys \<Rightarrow> u64 \<Rightarrow> u64 \<Rightarrow> u64 \<Rightarrow> u64 \<Rightarrow> (phys \<times> int) outcome" where
  "vpage_copyinstr s root dst va mx =
    bind_out (get_pa_from_va s root va (PTE_V OR PTE_U OR PTE_R))
      (\<lambda>(s1, pa). case pa of
          None \<Rightarrow> Ret (s1, - EFAULT)
        | Some p \<Rightarrow>
            (let n0 = PAGE_SIZE - (va AND OFFSET_MASK);
                 n = (if n0 > mx then mx else n0);
                 sz = strnlen (bytes_at s1 p) 0 (unat n)
             in if sz = unat n then Ret (s1, - ENAMETOOLONG)
                else Ret (memcpy_phys s1 dst p (word_of_nat (sz + 1)), int (sz + 1))))"

definition vpage_copyout :: "phys \<Rightarrow> u64 \<Rightarrow> u64 \<Rightarrow> u64 \<Rightarrow> u64 \<Rightarrow> (phys \<times> int) outcome" where
  "vpage_copyout s root va src count =
    bind_out (get_pa_from_va s root va (PTE_V OR PTE_U OR PTE_W))
      (\<lambda>(s1, pa). case pa of
          None \<Rightarrow> Ret (s1, - EFAULT)
        | Some p \<Rightarrow> Ret (memcpy_phys s1 p src count, 0))"

definition vpage_copyoutstr :: "phys \<Rightarrow> u64 \<Rightarrow> u64 \<Rightarrow> u64 \<Rightarrow> u64 \<Rightarrow> (phys \<times> int) outcome" where
  "vpage_copyoutstr s root va src mx =
    bind_out (get_pa_from_va s root va (PTE_V OR PTE_U OR PTE_W))
      (\<lambda>(s1, pa). case pa of
          None \<Rightarrow> Ret (s1, - EFAULT)
        | Some p \<Rightarrow>
            (let sz = strnlen (bytes_at s1 src) 0 (unat mx)
             in if sz = unat mx then Ret (s1, - ENAMETOOLONG)
                else Ret (memcpy_phys s1 p src (word_of_nat (sz + 1)), int (sz + 1))))"

section \<open>Copying a tree\<close>

text \<open>
  One entry of \<^verbatim>\<open>copy_level\<close>; \<open>sub\<close> copies a table of the next level.  A pointer entry in a table of
  level 0 would make the code descend to level -1, which is undefined.
\<close>

definition copy_entry :: "(phys \<Rightarrow> u64 \<Rightarrow> u64 \<Rightarrow> (phys \<times> int) outcome) option \<Rightarrow> nat \<Rightarrow> u64 \<Rightarrow> u64 \<Rightarrow> u64 \<Rightarrow> phys \<times> int \<Rightarrow> nat \<Rightarrow> (phys \<times> int) outcome" where
  "copy_entry sub lvl dst src va sr i =
    (let (s, r) = sr; a = src + 8 * word_of_nat i; pte = load s a in
     if r < 0 then Ret (s, r)
     else if \<not> has pte PTE_V then Ret (s, 0)
     else
       (let child_va = va OR push_bit (PAGE_SHIFT + VA_VPN_BITS * lvl) (word_of_nat i) in
        if is_a_next_lvl_ptr pte then
          (case sub of None \<Rightarrow> Undef | Some f \<Rightarrow> f s (get_next_lvl_pte pte) child_va)
        else if child_va \<noteq> TRAPFRAME then
          (let page = get_next_lvl_pte pte;
               s1 = (if has pte PTE_W then store s a ((load s a AND NOT PTE_W) OR PTE_COW) else s);
               s2 = page_get s1 page
           in bind_out (vpage_map s2 dst child_va page (get_flags (load s2 a)))
                (\<lambda>(s3, res). if res < 0 then bind_out (page_put s3 page) (\<lambda>s4. Ret (s4, res)) else Ret (s3, 0)))
        else Ret (s, 0)))"

primrec copy_level :: "nat \<Rightarrow> u64 \<Rightarrow> phys \<Rightarrow> u64 \<Rightarrow> u64 \<Rightarrow> (phys \<times> int) outcome" where
  "copy_level 0 dst = (\<lambda>s src va.
    fold_out (copy_entry None 0 dst src va) [0..<PTE_ENTRY_PER_TABLE] (s, 0))"
| "copy_level (Suc l) dst = (\<lambda>s src va.
    fold_out (copy_entry (Some (copy_level l dst)) (Suc l) dst src va) [0..<PTE_ENTRY_PER_TABLE] (s, 0))"

definition vpage_tree_copy :: "phys \<Rightarrow> u64 option \<Rightarrow> u64 option \<Rightarrow> (phys \<times> int) outcome" where
  "vpage_tree_copy s dst src =
    (case (dst, src) of
       (Some d, Some r) \<Rightarrow>
         bind_out (copy_level (LEVELS - 1) d s r 0) (\<lambda>(s1, res). if res < 0 then Ret (s1, res) else Ret (s1, 0))
     | _ \<Rightarrow> Ret (s, - EINVAL))"

section \<open>Words in memory\<close>

lemma rd64_wr64_same: "rd64 (wr64 m a w) a = w"
proof (rule bit_word_eqI)
  fix n assume "n < LENGTH(64)"
  then have n: "n < 64" "n div 8 < 8" by auto
  have k: "unat (word_of_nat (n div 8) :: u64) = n div 8" using n(2) by (simp add: unat_of_nat)
  then have "(word_of_nat (n div 8) :: u64) < 8" using n(2) by (simp add: word_less_nat_alt)
  then have "bit (rd64 (wr64 m a w) a) n \<longleftrightarrow> bit (ucast (drop_bit (8 * (n div 8)) w) :: u8) (n mod 8)"
    using n k by (simp add: rd64_def bit_le_word wr64_def)
  also have "\<dots> \<longleftrightarrow> bit w (8 * (n div 8) + n mod 8)" by (simp add: bit_ucast_iff bit_drop_bit_eq)
  finally show "bit (rd64 (wr64 m a w) a) n = bit w n" by simp
qed

lemma rd64_cong: "(\<And>i. i < 8 \<Longrightarrow> m (a + word_of_nat i) = m' (a + word_of_nat i)) \<Longrightarrow> rd64 m a = rd64 m' a"
  unfolding rd64_def by (intro arg_cong [where f = le_word] map_cong) auto

lemma int_dvd_uint: "int k dvd uint (a :: u64) \<longleftrightarrow> k dvd unat a"
proof -
  have "uint a = int (unat a)" by simp
  then show ?thesis by (simp only: of_nat_dvd_iff)
qed

lemma dvd_unat_diff:
  assumes "8 dvd unat (a :: u64)" and "8 dvd unat b"
  shows "8 dvd unat (b - a)"
proof -
  have "(8 :: int) dvd uint a" "(8 :: int) dvd uint b" using assms int_dvd_uint [of 8] by simp_all
  then have "(8 :: int) dvd (uint b - uint a) mod 2 ^ 64" by (subst dvd_mod_iff) (auto intro: dvd_diff)
  moreover have "uint (b - a) = (uint b - uint a) mod 2 ^ 64" by (simp add: uint_word_ariths)
  ultimately show ?thesis using int_dvd_uint [of 8 "b - a"] by simp
qed

lemma unat_plus_small: "unat (x :: u64) + unat y < 2 ^ 64 \<Longrightarrow> unat (x + y) = unat x + unat y"
  by (simp add: unat_word_ariths)

text \<open>Two aligned words at different addresses do not share a byte.\<close>

lemma aligned_apart:
  assumes "8 dvd unat (a :: u64)" and "8 dvd unat b" and "a \<noteq> b" and "i < 8"
  shows "\<not> (b + word_of_nat i) - a < 8"
proof -
  let ?d = "b - a"
  obtain k where k: "unat ?d = 8 * k" using dvd_unat_diff [OF assms(1,2)] by (rule dvdE)
  have "?d \<noteq> 0" using assms(3) by simp
  then have "0 < k" using k by (metis mult_0_right neq0_conv unat_eq_0)
  moreover have "unat ?d < 2 ^ 64" using unsigned_less [of ?d] by simp
  ultimately have lt: "unat ?d + i < 2 ^ 64" "8 \<le> unat ?d" using k assms(4) by auto
  have "unat (word_of_nat i :: u64) = i" using assms(4) by (simp add: unat_of_nat)
  then have "unat (?d + word_of_nat i) = unat ?d + i" using lt by (simp add: unat_word_ariths)
  moreover have "(b + word_of_nat i) - a = ?d + word_of_nat i" by simp
  ultimately have "unat ((b + word_of_nat i) - a) = unat ?d + i" by (simp only:)
  then show ?thesis using lt(2) unfolding word_less_nat_alt by simp
qed

lemma rd64_wr64_other:
  assumes "8 dvd unat a" and "8 dvd unat b" and "a \<noteq> b"
  shows "rd64 (wr64 m a w) b = rd64 m b"
  using aligned_apart [OF assms] by (intro rd64_cong) (simp add: wr64_def)

text \<open>A page is a run of 512 words.\<close>

abbreviation page_aligned :: "u64 \<Rightarrow> bool" where "page_aligned t \<equiv> 4096 dvd unat t"

lemma unat_entry:
  assumes "page_aligned t" and "i < 512"
  shows "unat (t + 8 * i) = unat t + 8 * unat i" and "8 * unat i < 4096" and "unat t + 4096 \<le> 2 ^ 64"
proof -
  obtain k where k: "unat t = 4096 * k" using assms(1) by (rule dvdE)
  have "unat t < 2 ^ 64" using unsigned_less [of t] by simp
  then show b: "unat t + 4096 \<le> 2 ^ 64" using k by simp
  show i: "8 * unat i < 4096" using assms(2) by (simp add: word_less_nat_alt)
  have "unat (8 * i) = 8 * unat i" using i by (simp add: unat_word_ariths)
  then show "unat (t + 8 * i) = unat t + 8 * unat i" using b i by (simp add: unat_word_ariths)
qed

lemma entry_aligned: "page_aligned t \<Longrightarrow> i < 512 \<Longrightarrow> 8 dvd unat (t + 8 * i)"
  unfolding unat_entry(1) by (rule dvd_add) (erule dvd_trans [rotated], simp_all)

lemma page_aligned_sep:
  assumes "page_aligned t" and "page_aligned t'" and "unat t + x = unat t' + y" and "x < 4096" and "y < 4096"
  shows "t = t' \<and> x = y"
proof -
  obtain j k where jk: "unat t = 4096 * j" "unat t' = 4096 * k" using assms(1,2) by (auto elim!: dvdE)
  have "(4096 * j + x) div 4096 = j" "(4096 * k + y) div 4096 = k" using assms(4,5) by auto
  then have "j = k" using assms(3) jk by metis
  then show ?thesis using jk assms(3) by (simp add: word_unat_eq_iff)
qed

lemma entry_inj:
  assumes "page_aligned t" and "page_aligned t'" and "i < 512" and "i' < 512" and "t + 8 * i = t' + 8 * i'"
  shows "t = t' \<and> i = i'"
proof -
  have "unat t + 8 * unat i = unat t' + 8 * unat i'"
    using unat_entry(1) [OF assms(1,3)] unat_entry(1) [OF assms(2,4)] assms(5) by simp
  then have "t = t' \<and> 8 * unat i = 8 * unat i'"
    using page_aligned_sep [OF assms(1,2)] unat_entry(2) [OF assms(1,3)] unat_entry(2) [OF assms(2,4)] by blast
  then show ?thesis by (simp add: word_unat_eq_iff)
qed

text \<open>Memory that agrees on a page agrees on its words.\<close>

lemma in_page:
  assumes "page_aligned t" and "i < 512" and "j < 8"
  shows "t + 8 * i + word_of_nat j - t < 4096" and "page_aligned p \<Longrightarrow> p \<noteq> t \<Longrightarrow> \<not> t + 8 * i + word_of_nat j - p < 4096"
proof -
  have j: "unat (word_of_nat j :: u64) = j" using assms(3) by (simp add: unat_of_nat)
  have o: "8 * unat i + j < 4096" using assms(2,3) by (simp add: word_less_nat_alt)
  have d: "unat (8 * i + word_of_nat j) = 8 * unat i + j" using o j by (simp add: unat_word_ariths)
  have e: "t + 8 * i + word_of_nat j - t = 8 * i + word_of_nat j" by simp
  show "t + 8 * i + word_of_nat j - t < 4096" unfolding e using d o by (simp add: word_less_nat_alt)
  show "\<not> t + 8 * i + word_of_nat j - p < 4096" if p: "page_aligned p" "p \<noteq> t"
  proof
    let ?a = "t + 8 * i + word_of_nat j"
    assume "?a - p < 4096"
    then have x: "unat (?a - p) < 4096" by (simp add: word_less_nat_alt)
    have a: "unat ?a = unat t + (8 * unat i + j)"
      using unat_entry [OF assms(1,2)] j o by (simp add: unat_word_ariths)
    have "unat p + unat (?a - p) < 2 ^ 64" using unat_entry(3) [OF p(1), of 0] x by simp
    from unat_plus_small [OF this] have "unat ?a = unat p + unat (?a - p)" by (simp only: add_diff_cancel_left' diff_add_cancel add.commute [of p])
    then have "unat t + (8 * unat i + j) = unat p + unat (?a - p)" using a by simp
    then show False using page_aligned_sep [OF assms(1) p(1) _ o x] p(2) by blast
  qed
qed

section \<open>Entries\<close>

lemma small_bits: "(f :: u64) < 1024 \<Longrightarrow> 10 \<le> n \<Longrightarrow> \<not> bit f n"
proof
  assume f: "f < 1024" "10 \<le> n" "bit f n"
  have "(1024 :: nat) \<le> 2 ^ n" using power_increasing [OF f(2), of "2 :: nat"] by simp
  then have "unat f < 2 ^ n" using f(1) by (simp add: word_less_nat_alt)
  then have "\<not> bit (unat f) n" by (simp add: bit_iff_odd)
  then show False using f(3) by (simp add: bit_unsigned_iff)
qed

lemma page_aligned_bits: "page_aligned t \<Longrightarrow> n < 12 \<Longrightarrow> \<not> bit t n"
proof -
  assume t: "page_aligned t" "n < 12"
  have "take_bit 12 (unat t) = 0" using t(1) by (simp add: take_bit_eq_mod)
  then have "\<not> bit (take_bit 12 (unat t)) n" by simp
  then show ?thesis using t(2) by (simp add: bit_take_bit_iff bit_unsigned_iff)
qed

lemma mk_pte_next: "page_aligned pa \<Longrightarrow> f < 1024 \<Longrightarrow> get_next_lvl_pte (mk_pte pa f) = pa"
proof (rule bit_word_eqI)
  fix n assume a: "page_aligned pa" "f < 1024" "n < LENGTH(64)"
  show "bit (get_next_lvl_pte (mk_pte pa f)) n = bit pa n"
  proof (cases "n < 12")
    case True
    then show ?thesis using page_aligned_bits [OF a(1) True]
      by (simp add: get_next_lvl_pte_def PAGE_SHIFT_def bit_push_bit_iff del: push_bit_of_Suc_0)
  next
    case False
    then have "\<not> bit f (n - 2)" using a(2) by (intro small_bits) auto
    then show ?thesis using False a(3)
      by (auto simp: get_next_lvl_pte_def mk_pte_def page_get_num_def PAGE_SHIFT_def PTE_PPN_SHIFT_def
          bit_push_bit_iff bit_drop_bit_eq bit_or_iff)
  qed
qed

lemma mk_pte_and: "F < 1024 \<Longrightarrow> mk_pte pa f AND F = f AND F"
proof (rule bit_word_eqI)
  fix n assume "F < 1024" "n < LENGTH(64)"
  then show "bit (mk_pte pa f AND F) n = bit (f AND F) n"
    using small_bits [of F n] by (auto simp: mk_pte_def PTE_PPN_SHIFT_def bit_and_iff bit_or_iff bit_push_bit_iff)
qed

section \<open>Trees of tables\<close>

definition entry :: "phys \<Rightarrow> u64 \<Rightarrow> u64 \<Rightarrow> u64" where
  "entry s t i = load s (t + 8 * i)"

definition points :: "u64 \<Rightarrow> bool" where
  "points e \<longleftrightarrow> has e PTE_V \<and> is_a_next_lvl_ptr e"

text \<open>The table at the end of a path of indices.\<close>

fun tab :: "phys \<Rightarrow> u64 \<Rightarrow> u64 list \<Rightarrow> u64 option" where
  "tab s t [] = Some t"
| "tab s t (i # p) = (if points (entry s t i) then tab s (get_next_lvl_pte (entry s t i)) p else None)"

definition path :: "u64 list \<Rightarrow> bool" where
  "path p \<longleftrightarrow> length p \<le> 2 \<and> (\<forall>i \<in> set p. i < 512)"

text \<open>
  A well-formed tree: its tables are page aligned, none is free, no table is reached along two
  paths, and above the leaves every valid entry is a pointer.
\<close>

definition wf_tree :: "u64 set \<Rightarrow> phys \<Rightarrow> u64 \<Rightarrow> bool" where
  "wf_tree F s root \<longleftrightarrow>
    (\<forall>p t. path p \<longrightarrow> tab s root p = Some t \<longrightarrow> page_aligned t \<and> t \<notin> F) \<and>
    (\<forall>p q t. path p \<longrightarrow> path q \<longrightarrow> tab s root p = Some t \<longrightarrow> tab s root q = Some t \<longrightarrow> p = q) \<and>
    (\<forall>p t i. path (p @ [i]) \<longrightarrow> tab s root p = Some t \<longrightarrow> has (entry s t i) PTE_V \<longrightarrow> is_a_next_lvl_ptr (entry s t i))"

definition lookup :: "phys \<Rightarrow> u64 \<Rightarrow> u64 \<Rightarrow> u64 option" where
  "lookup s root va =
    (case tab s root [get_va_vpn va 2, get_va_vpn va 1] of
       None \<Rightarrow> None
     | Some t \<Rightarrow> (let e = entry s t (get_va_vpn va 0) in if has e PTE_V \<and> \<not> is_a_next_lvl_ptr e then Some e else None))"

lemma wf_treeD:
  assumes "wf_tree F s root" and "path p" and "tab s root p = Some t"
  shows "page_aligned t" and "t \<notin> F" and "path q \<Longrightarrow> tab s root q = Some t \<Longrightarrow> q = p"
    and "path (p @ [i]) \<Longrightarrow> has (entry s t i) PTE_V \<Longrightarrow> is_a_next_lvl_ptr (entry s t i)"
  using assms unfolding wf_tree_def by blast+

lemma tab_append: "tab s t (p @ q) = Option.bind (tab s t p) (\<lambda>t'. tab s t' q)"
  by (induction p arbitrary: t) auto

lemma tab_snoc: "tab s t (p @ [i]) =
    (case tab s t p of None \<Rightarrow> None | Some t' \<Rightarrow> if points (entry s t' i) then Some (get_next_lvl_pte (entry s t' i)) else None)"
  by (simp add: tab_append split: option.splits)

lemma path_append: "path (p @ q) \<Longrightarrow> path p"
  by (auto simp: path_def)

lemma path_snoc: "path (p @ [i]) \<longleftrightarrow> length p \<le> 1 \<and> path p \<and> i < 512"
  by (auto simp: path_def)

lemma vpn_less: "get_va_vpn va l < 512"
proof -
  have "get_va_vpn va l \<le> VA_VPN_MASK" unfolding get_va_vpn_def by (rule word_and_le1)
  then show ?thesis by (simp add: VA_VPN_MASK_def word_le_nat_alt word_less_nat_alt)
qed

lemma path_vpns: "path []" "path [get_va_vpn va l]" "path [get_va_vpn va l, get_va_vpn va k]"
  by (simp_all add: path_def vpn_less)

lemma entry_store:
  assumes "page_aligned t" and "page_aligned t'" and "i < 512" and "i' < 512"
  shows "entry (store s (t + 8 * i) e) t' i' = (if t' = t \<and> i' = i then e else entry s t' i')"
proof (cases "t' = t \<and> i' = i")
  case True
  then show ?thesis by (simp add: entry_def load_def store_def rd64_wr64_same)
next
  case False
  then have "t + 8 * i \<noteq> t' + 8 * i'" using entry_inj [OF assms] by auto
  from rd64_wr64_other [OF entry_aligned entry_aligned this, of "pmem s" e] False show ?thesis
    using assms by (auto simp: entry_def load_def store_def)
qed

text \<open>A store into a table leaves every table whose path does not pass the entry.\<close>

lemma tab_store_other:
  assumes W: "wf_tree F s root" and p: "path p" "tab s root p = Some t" "i < 512"
    and q: "path q" "\<not> (\<exists>r. q = p @ [i] @ r)"
  shows "tab (store s (t + 8 * i) e) root q = tab s root q"
  using q
proof (induction q rule: rev_induct)
  case (snoc j q)
  have pq: "path q" using snoc.prems(1) by (rule path_append)
  have "\<not> (\<exists>r. q = p @ [i] @ r)" using snoc.prems(2) by (metis append_assoc)
  then have IH: "tab (store s (t + 8 * i) e) root q = tab s root q" by (rule snoc.IH [OF pq])
  show ?case
  proof (cases "tab s root q")
    case None
    then show ?thesis by (simp add: tab_snoc IH)
  next
    case (Some t')
    have "\<not> (t' = t \<and> j = i)"
      using wf_treeD(3) [OF W p(1,2) pq] Some snoc.prems(2) by auto
    then have "entry (store s (t + 8 * i) e) t' j = entry s t' j"
      using entry_store [of t t' i j] wf_treeD(1) [OF W p(1,2)] wf_treeD(1) [OF W pq Some] p(3) snoc.prems(1)
      by (auto simp: path_snoc)
    then show ?thesis by (simp add: tab_snoc IH Some)
  qed
qed simp

text \<open>Memory that agrees on all tables gives the same tree.\<close>

lemma tab_cong:
  assumes "\<And>p t i. path p \<Longrightarrow> tab s root p = Some t \<Longrightarrow> i < 512 \<Longrightarrow> entry s' t i = entry s t i" and "path q"
  shows "tab s' root q = tab s root q"
  using assms(2)
proof (induction q rule: rev_induct)
  case (snoc j q)
  have "path q" "j < 512" using snoc.prems by (auto simp: path_snoc)
  then show ?case using snoc.IH assms(1) [of q _ j] by (auto simp: tab_snoc split: option.splits)
qed simp

lemma wf_tree_cong:
  assumes W: "wf_tree F s root" and "F' \<subseteq> F"
    and E: "\<And>p t i. path p \<Longrightarrow> tab s root p = Some t \<Longrightarrow> i < 512 \<Longrightarrow> entry s' t i = entry s t i"
  shows "wf_tree F' s' root" and "lookup s' root va = lookup s root va"
proof -
  have T: "tab s' root p = tab s root p" if "path p" for p by (rule tab_cong [OF E that])
  show "wf_tree F' s' root"
    unfolding wf_tree_def
  proof (intro conjI allI impI)
    fix p q t i
    assume p: "path p" and t: "tab s' root p = Some t"
    have t0: "tab s root p = Some t" using t T p by simp
    show "page_aligned t" "t \<notin> F'" using wf_treeD(1,2) [OF W p t0] assms(2) by auto
    show "path q \<Longrightarrow> tab s' root q = Some t \<Longrightarrow> p = q" using wf_treeD(3) [OF W p t0] T by simp
  next
    fix p t i
    assume a: "path (p @ [i])" "tab s' root p = Some t" "has (entry s' t i) PTE_V"
    have p: "path p" "i < 512" using a(1) by (auto simp: path_snoc)
    have t0: "tab s root p = Some t" using a(2) T p by simp
    show "is_a_next_lvl_ptr (entry s' t i)"
      using wf_treeD(4) [OF W p(1) t0 a(1)] a(3) E [OF p(1) t0 p(2)] by simp
  qed
  show "lookup s' root va = lookup s root va"
    unfolding lookup_def T [OF path_vpns(3)]
    by (cases "tab s root [get_va_vpn va 2, get_va_vpn va 1]") (simp_all add: E [OF path_vpns(3) _ vpn_less] del: tab.simps)
qed

section \<open>New tables\<close>

text \<open>A zeroed page holds no entry, and zeroing a page outside the tree does not change it.\<close>

lemma entry_zero_page:
  assumes "page_aligned t" and "i < 512" and "pmem s' = page_zero m t"
  shows "entry s' t i = 0"
proof -
  have "rd64 (page_zero m t) (t + 8 * i) = rd64 (\<lambda>_. 0) (t + 8 * i)"
    using in_page(1) [OF assms(1,2)] by (intro rd64_cong) (simp add: page_zero_def PAGE_SIZE_def)
  also have "\<dots> = 0" by (simp add: rd64_def upt_rec)
  finally show ?thesis using assms(3) by (simp add: entry_def load_def)
qed

lemma entry_other_page:
  assumes "page_aligned t" and "page_aligned n" and "t \<noteq> n" and "i < 512"
    and "\<And>a. \<not> a - n < 4096 \<Longrightarrow> pmem s' a = pmem s a"
  shows "entry s' t i = entry s t i"
  unfolding entry_def load_def using in_page(2) [OF assms(1,4) _ assms(2)] assms(3,5) by (intro rd64_cong) auto

text \<open>Hanging an empty table under an invalid entry.\<close>

lemma add_table:
  assumes W: "wf_tree F s root" and p: "path (p @ [i])" "tab s root p = Some t" and inv: "\<not> has (entry s t i) PTE_V"
    and n: "n \<in> F" "page_aligned n" and z: "pmem s1 = page_zero (pmem s) n" and s': "s' = store s1 (t + 8 * i) (mk_pte n PTE_V)"
  shows "wf_tree (F - {n}) s' root" and "tab s' root (p @ [i]) = Some n" and "lookup s' root va = lookup s root va"
    and "path q \<Longrightarrow> tab s root q = Some t' \<Longrightarrow> tab s' root q = Some t'"
    and "path q \<Longrightarrow> tab s' root q = Some t' \<Longrightarrow> tab s root q = Some t' \<or> t' = n"
proof -
  have pp: "path p" "i < 512" "length p \<le> 1" using p(1) by (auto simp: path_snoc)
  have E1: "entry s1 t' j = entry s t' j" if "path q" "tab s root q = Some t'" "j < 512" for q t' j
    using wf_treeD(1,2) [OF W that(1,2)] n z that(3)
    by (intro entry_other_page [of t' n]) (auto simp: page_zero_def PAGE_SIZE_def)
  note W1 = wf_tree_cong [OF W order_refl E1]
  have T1: "tab s1 root q = tab s root q" if "path q" for q by (rule tab_cong [OF E1 that])
  have t: "page_aligned t" "t \<noteq> n" "tab s1 root p = Some t"
    using wf_treeD(1,2) [OF W pp(1) p(2)] n T1 [OF pp(1)] p(2) by auto
  have E: "entry s' t' j = (if t' = t \<and> j = i then mk_pte n PTE_V else entry s1 t' j)"
    if "page_aligned t'" "j < 512" for t' j
    unfolding s' by (rule entry_store [OF t(1) that(1) pp(2) that(2)])
  have pt: "points (mk_pte n PTE_V)" and nx: "get_next_lvl_pte (mk_pte n PTE_V) = n"
    using mk_pte_next [OF n(2)] by (simp_all add: points_def has_def is_a_next_lvl_ptr_def mk_pte_and layout_defs)
  have To: "tab s' root q = tab s root q" if "path q" "\<not> (\<exists>r. q = p @ [i] @ r)" for q
    using tab_store_other [OF W1(1) pp(1) t(3) pp(2) that] T1 [OF that(1)] unfolding s' by simp
  show "tab s' root q = Some t'" if "path q" "tab s root q = Some t'"
  proof -
    have "tab s root (p @ [i]) = None" using p(2) inv by (simp add: tab_snoc points_def)
    then have "tab s root ((p @ [i]) @ r) = None" for r by (subst tab_append) simp
    then have "\<not> (\<exists>r. q = p @ [i] @ r)" using that(2) by (metis append_assoc option.distinct(1))
    then show ?thesis using To [OF that(1)] that(2) by simp
  qed
  have "\<not> (\<exists>r. p = p @ [i] @ r)" by simp
  then have Tp: "tab s' root p = Some t" using To [OF pp(1)] p(2) by simp
  show Tn: "tab s' root (p @ [i]) = Some n" by (simp add: tab_snoc Tp E t pp pt nx)
  have "entry s1 n j = 0" if "j < 512" for j by (rule entry_zero_page [OF n(2) that z])
  then have En: "entry s' n j = 0" if "j < 512" for j using E [OF n(2) that] t(2) that by simp
  have Tx: "r = []" if "path (p @ [i] @ r)" "tab s' root (p @ [i] @ r) = Some t'" for r t'
  proof (cases r)
    case (Cons j r')
    then have j: "j < 512" using that(1) by (simp add: path_def)
    have "tab s' root ((p @ [i]) @ r) = tab s' n (j # r')" unfolding tab_append [of s' root "p @ [i]"] Tn Cons by simp
    then have "tab s' root (p @ [i] @ r) = tab s' n (j # r')" by (simp only: append_assoc)
    also have "\<dots> = None" by (simp add: En [OF j] points_def has_def)
    finally show ?thesis using that(2) by simp
  qed
  have cases: "(q = p @ [i] \<and> t' = n) \<or> (tab s root q = Some t' \<and> t' \<noteq> n)"
    if "path q" "tab s' root q = Some t'" for q t'
  proof (cases "\<exists>r. q = p @ [i] @ r")
    case True
    then have "q = p @ [i]" using Tx that by auto
    then show ?thesis using that(2) Tn by simp
  next
    case False
    then have "tab s root q = Some t'" using To [OF that(1) False] that(2) by simp
    then show ?thesis using wf_treeD(2) [OF W that(1)] n(1) by auto
  qed
  show "path q \<Longrightarrow> tab s' root q = Some t' \<Longrightarrow> tab s root q = Some t' \<or> t' = n" using cases by blast
  show "wf_tree (F - {n}) s' root"
    unfolding wf_tree_def
  proof (intro conjI allI impI)
    fix q t' assume q: "path q" "tab s' root q = Some t'"
    show "page_aligned t'" "t' \<notin> F - {n}" using cases [OF q] n(2) wf_treeD(1,2) [OF W q(1)] by auto
  next
    fix q q' t' assume q: "path q" "path q'" "tab s' root q = Some t'" "tab s' root q' = Some t'"
    show "q = q'" using cases [OF q(1,3)] cases [OF q(2,4)] wf_treeD(3) [OF W q(1) _ q(2)] by auto
  next
    fix q t' j assume q: "path (q @ [j])" "tab s' root q = Some t'" "has (entry s' t' j) PTE_V"
    have qj: "path q" "j < 512" using q(1) by (auto simp: path_snoc)
    show "is_a_next_lvl_ptr (entry s' t' j)"
      using cases [OF qj(1) q(2)]
    proof
      assume "q = p @ [i] \<and> t' = n"
      then show ?thesis using En [OF qj(2)] q(3) by (simp add: has_def)
    next
      assume o: "tab s root q = Some t' \<and> t' \<noteq> n"
      then have "entry s' t' j = (if t' = t \<and> j = i then mk_pte n PTE_V else entry s t' j)"
        using E [OF wf_treeD(1) [OF W qj(1)] qj(2)] E1 [OF qj(1) _ qj(2)] by simp
      then show ?thesis using wf_treeD(4) [OF W qj(1) _ q(1)] o q(3) pt by (auto simp: points_def split: if_splits)
    qed
  qed
  let ?V = "[get_va_vpn va 2, get_va_vpn va 1]"
  note V = path_vpns(3) [of va 2 1]
  show "lookup s' root va = lookup s root va"
  proof (cases "\<exists>r. ?V = p @ [i] @ r")
    case True
    then obtain r where r: "?V = p @ [i] @ r" by blast
    have "tab s root (p @ [i]) = None" using p(2) inv by (simp add: tab_snoc points_def)
    then have "tab s root ?V = None" unfolding r append_assoc [symmetric] by (subst tab_append) simp
    then have "lookup s root va = None" by (simp add: lookup_def del: tab.simps)
    moreover have "lookup s' root va = None"
    proof (cases "tab s' root ?V")
      case (Some t')
      then have "t' = n" using Tx [of r t'] r V Tn by (auto simp del: tab.simps)
      then show ?thesis using Some En [OF vpn_less] by (simp add: lookup_def has_def del: tab.simps)
    qed (simp add: lookup_def del: tab.simps)
    ultimately show ?thesis by simp
  next
    case False
    note TV = To [OF V False]
    show ?thesis
    proof (cases "tab s root ?V")
      case (Some t')
      have "t' \<noteq> t" using wf_treeD(3) [OF W pp(1) p(2) V] Some pp(3) by auto
      then have "entry s' t' (get_va_vpn va 0) = entry s t' (get_va_vpn va 0)"
        using E [OF wf_treeD(1) [OF W V Some] vpn_less] E1 [OF V Some vpn_less] by simp
      then show ?thesis using TV Some by (simp add: lookup_def del: tab.simps)
    qed (use TV in \<open>simp add: lookup_def del: tab.simps\<close>)
  qed
qed

section \<open>Leaves\<close>

definition same_vpn :: "u64 \<Rightarrow> u64 \<Rightarrow> bool" where
  "same_vpn va va' \<longleftrightarrow> (\<forall>l < 3. get_va_vpn va l = get_va_vpn va' l)"

lemma same_vpn_iff: "same_vpn va va' \<longleftrightarrow>
    [get_va_vpn va 2, get_va_vpn va 1] = [get_va_vpn va' 2, get_va_vpn va' 1] \<and> get_va_vpn va 0 = get_va_vpn va' 0"
  by (auto simp: same_vpn_def less_Suc_eq numeral_3_eq_3 numeral_2_eq_2)

text \<open>A store into the last table of a path changes the leaf of its addresses only.\<close>

lemma set_leaf:
  assumes W: "wf_tree F s root" and t: "tab s root [get_va_vpn va 2, get_va_vpn va 1] = Some t"
  shows "wf_tree F (store s (get_pte t va 0) e) root"
    and "tab (store s (get_pte t va 0) e) root [get_va_vpn va 2, get_va_vpn va 1] = Some t"
    and "entry (store s (get_pte t va 0) e) t (get_va_vpn va 0) = e"
    and "lookup (store s (get_pte t va 0) e) root va' =
      (if same_vpn va' va then (if has e PTE_V \<and> \<not> is_a_next_lvl_ptr e then Some e else None) else lookup s root va')"
proof -
  let ?V = "[get_va_vpn va 2, get_va_vpn va 1]" and ?v = "get_va_vpn va 0"
  let ?s = "store s (t + 8 * ?v) e"
  have g: "get_pte t va 0 = t + 8 * ?v" by (simp add: get_pte_def)
  note V = path_vpns(3) [of va 2 1]
  note al = wf_treeD(1) [OF W V t]
  have T: "tab ?s root q = tab s root q" if "path q" for q
    using that by (intro tab_store_other [OF W V t vpn_less]) (auto simp: path_def)
  have E: "entry ?s t' j = (if t' = t \<and> j = ?v then e else entry s t' j)" if "page_aligned t'" "j < 512" for t' j
    by (rule entry_store [OF al that(1) vpn_less that(2)])
  show "wf_tree F (store s (get_pte t va 0) e) root"
    unfolding g wf_tree_def
  proof (intro conjI allI impI)
    fix q t' assume q: "path q" "tab ?s root q = Some t'"
    show "page_aligned t'" "t' \<notin> F" using wf_treeD(1,2) [OF W q(1)] q(2) T [OF q(1)] by auto
  next
    fix q q' t' assume q: "path q" "path q'" "tab ?s root q = Some t'" "tab ?s root q' = Some t'"
    show "q = q'" using wf_treeD(3) [OF W q(1) _ q(2)] q T by auto
  next
    fix q t' j assume q: "path (q @ [j])" "tab ?s root q = Some t'" "has (entry ?s t' j) PTE_V"
    have qj: "path q" "j < 512" "length q \<le> 1" using q(1) by (auto simp: path_snoc)
    have t': "tab s root q = Some t'" using q(2) T [OF qj(1)] by simp
    have "t' \<noteq> t" using wf_treeD(3) [OF W V t qj(1)] t' qj(3) by auto
    then have "entry ?s t' j = entry s t' j" using E [OF wf_treeD(1) [OF W qj(1) t'] qj(2)] by simp
    then show "is_a_next_lvl_ptr (entry ?s t' j)" using wf_treeD(4) [OF W qj(1) t' q(1)] q(3) by simp
  qed
  show "tab (store s (get_pte t va 0) e) root ?V = Some t" unfolding g using T [OF V] t by simp
  show "entry (store s (get_pte t va 0) e) t ?v = e" unfolding g using E [OF al vpn_less] by simp
  let ?V' = "[get_va_vpn va' 2, get_va_vpn va' 1]" and ?v' = "get_va_vpn va' 0"
  note V' = path_vpns(3) [of va' 2 1]
  show "lookup (store s (get_pte t va 0) e) root va' =
      (if same_vpn va' va then (if has e PTE_V \<and> \<not> is_a_next_lvl_ptr e then Some e else None) else lookup s root va')"
  proof (cases "tab s root ?V'")
    case None
    then have "?V' \<noteq> ?V" using t by (auto simp del: tab.simps)
    then show ?thesis using None T [OF V'] unfolding g same_vpn_iff by (auto simp: lookup_def simp del: tab.simps)
  next
    case (Some t')
    have "t' = t \<longleftrightarrow> ?V' = ?V" using wf_treeD(3) [OF W V t V'] Some t by (auto simp del: tab.simps)
    then have "entry ?s t' ?v' = (if same_vpn va' va then e else entry s t' ?v')"
      using E [OF wf_treeD(1) [OF W V' Some] vpn_less] unfolding same_vpn_iff by auto
    then show ?thesis using Some T [OF V'] unfolding g
      by (cases "same_vpn va' va") (simp_all add: lookup_def Let_def del: tab.simps)
  qed
qed

text \<open>\<^verbatim>\<open>walk_leaf\<close> finds the entry that \<open>lookup\<close> describes.\<close>

lemma walk_leaf_lookup:
  assumes W: "wf_tree F s root"
  shows "walk_leaf s root va =
    (case tab s root [get_va_vpn va 2, get_va_vpn va 1] of
       None \<Rightarrow> None
     | Some t \<Rightarrow> if lookup s root va = None then None else Some (get_pte t va 0))"
proof -
  have w2: "walk_from s root va (Suc (Suc 0)) = (if points (entry s root (get_va_vpn va 2))
      then walk_from s (get_next_lvl_pte (entry s root (get_va_vpn va 2))) va (Suc 0) else None)"
    using wf_treeD(4) [OF W path_vpns(1), of root "get_va_vpn va 2"] path_vpns(2)
    by (auto simp: Let_def points_def entry_def get_pte_def numeral_2_eq_2)
  have w1: "walk_from s t va (Suc 0) = (if points (entry s t (get_va_vpn va 1))
      then walk_from s (get_next_lvl_pte (entry s t (get_va_vpn va 1))) va 0 else None)"
    if "tab s root [get_va_vpn va 2] = Some t" for t
    using wf_treeD(4) [OF W path_vpns(2) that, of "get_va_vpn va 1"] path_vpns(3) [of va 2 1]
    by (auto simp: Let_def points_def entry_def get_pte_def)
  let ?e2 = "entry s root (get_va_vpn va 2)"
  let ?e1 = "entry s (get_next_lvl_pte ?e2) (get_va_vpn va 1)"
  have w: "walk_leaf s root va = walk_from s root va (Suc (Suc 0))" by (simp add: walk_leaf_def LEVELS_def numeral_2_eq_2)
  have w0: "walk_from s t va 0 = (let e = entry s t (get_va_vpn va 0) in
      if has e PTE_V \<and> \<not> is_a_next_lvl_ptr e then Some (get_pte t va 0) else None)" for t
    by (auto simp: Let_def entry_def get_pte_def)
  consider "\<not> points ?e2" | "points ?e2" "\<not> points ?e1" | "points ?e2" "points ?e1" by blast
  then show ?thesis
  proof cases
    case 1
    then show ?thesis unfolding w w2 by simp
  next
    case 2
    then show ?thesis unfolding w w2 by (simp add: w1 del: walk_from.simps)
  next
    case 3
    then show ?thesis unfolding w w2
      by (simp add: w1 w0 lookup_def Let_def del: walk_from.simps)
  qed
qed

section \<open>Mapping a page\<close>

text \<open>The invariant that ties the tables to the allocator, and the bytes that belong to tables.\<close>

definition vm_inv :: "u64 \<Rightarrow> u64 list \<Rightarrow> phys \<Rightarrow> u64 \<Rightarrow> bool" where
  "vm_inv ps fr s root \<longleftrightarrow> pages_rep ps s fr \<and> wf_tree (set fr) s root"

definition in_tables :: "phys \<Rightarrow> u64 \<Rightarrow> u64 \<Rightarrow> bool" where
  "in_tables s root a \<longleftrightarrow> (\<exists>p t. path p \<and> tab s root p = Some t \<and> a - t < 4096)"

text \<open>Growing a tree: tables stay, nothing that was looked up changes, and data stays.\<close>

definition grows :: "phys \<Rightarrow> phys \<Rightarrow> u64 \<Rightarrow> bool" where
  "grows s s' root \<longleftrightarrow> (\<forall>va. lookup s' root va = lookup s root va) \<and>
    (\<forall>q t. path q \<longrightarrow> tab s root q = Some t \<longrightarrow> tab s' root q = Some t) \<and>
    (\<forall>a. \<not> in_tables s' root a \<longrightarrow> pmem s' a = pmem s a)"

lemma grows_refl: "grows s s root"
  by (simp add: grows_def)

lemma grows_trans: "grows s s1 root \<Longrightarrow> grows s1 s2 root \<Longrightarrow> grows s s2 root"
  unfolding grows_def in_tables_def by metis

text \<open>The new tables come from the pages \<open>us\<close>, and the counters of all others stay.\<close>

definition takes :: "u64 \<Rightarrow> u64 list \<Rightarrow> phys \<Rightarrow> phys \<Rightarrow> u64 \<Rightarrow> bool" where
  "takes ps us s s' root \<longleftrightarrow>
    (\<forall>q t. path q \<longrightarrow> tab s' root q = Some t \<longrightarrow> tab s root q = Some t \<or> t \<in> set us) \<and>
    (\<forall>p. ram_page ps p \<longrightarrow> p \<notin> set us \<longrightarrow> page_get_ref_count s' p = page_get_ref_count s p)"

lemma takes_refl: "takes ps [] s s root"
  by (simp add: takes_def)

lemma takes_trans: "takes ps us s s1 root \<Longrightarrow> takes ps us' s1 s2 root \<Longrightarrow> takes ps (us @ us') s s2 root"
  unfolding takes_def set_append by (metis UnI1 UnI2)

lemma pages_rep_store [simp]: "pages_rep ps (store s a w) fr = pages_rep ps s fr"
  by (simp add: store_def pages_rep_def page_get_ref_count_def)

lemma store_outside: "\<not> a - b < 8 \<Longrightarrow> pmem (store s b w) a = pmem s a"
  by (simp add: store_def wr64_def)

lemma entry_in_table:
  assumes "page_aligned t" and "i < 512" and "a - (t + 8 * i) < 8"
  shows "a - t < 4096"
proof -
  let ?j = "unat (a - (t + 8 * i))"
  have "?j < 8" using assms(3) by (simp add: word_less_nat_alt)
  moreover have "a = t + 8 * i + word_of_nat ?j" by simp
  ultimately show ?thesis using in_page(1) [OF assms(1,2), of ?j] by simp
qed

lemma map_walk_step:
  assumes I: "vm_inv ps fr s root" and t: "tab s root p = Some t" and p: "path (p @ [get_va_vpn va (Suc l)])"
  shows "(fr = [] \<and> (\<exists>s1. map_walk s t va (Suc l) al = (s1, Inl al) \<and> page_alloc s = (s1, None))) \<or>
    (\<exists>s' t' us fr'. map_walk s t va (Suc l) al = map_walk s' t' va l (al @ us) \<and> fr = us @ fr' \<and>
      vm_inv ps fr' s' root \<and> tab s' root (p @ [get_va_vpn va (Suc l)]) = Some t' \<and> grows s s' root \<and>
      takes ps us s s' root \<and> length us \<le> 1 \<and> (\<forall>u \<in> set us. ram_page ps u \<and> page_get_ref_count s' u = 1))"
proof -
  let ?i = "get_va_vpn va (Suc l)"
  have R: "pages_rep ps s fr" and W: "wf_tree (set fr) s root" using I by (simp_all add: vm_inv_def)
  have pp: "path p" using p by (simp add: path_snoc)
  note al = wf_treeD(1) [OF W pp t]
  have pe: "get_pte t va (Suc l) = t + 8 * ?i" by (simp add: get_pte_def)
  have le: "load s (t + 8 * ?i) = entry s t ?i" by (simp add: entry_def)
  consider "has (entry s t ?i) PTE_V" | "\<not> has (entry s t ?i) PTE_V" "fr = []"
    | n fr' where "\<not> has (entry s t ?i) PTE_V" "fr = n # fr'" by (cases fr) auto
  then show ?thesis
  proof cases
    case 1
    then have "tab s root (p @ [?i]) = Some (get_next_lvl_pte (entry s t ?i))"
      using wf_treeD(4) [OF W pp t p] t by (simp add: tab_snoc points_def)
    then show ?thesis using 1 I pe le grows_refl takes_refl
      by (intro disjI2 exI [of _ s] exI [of _ "get_next_lvl_pte (entry s t ?i)"] exI [of _ "[]"] exI [of _ fr]) simp
  next
    case 2
    then show ?thesis using page_alloc_none [of ps s] R pe le by (auto simp: Let_def)
  next
    case (3 n fr')
    obtain s1 where a: "page_alloc s = (s1, Some n)" "pages_rep ps s1 fr'" "ram_page ps n" "pmem s1 = page_zero (pmem s) n"
      and rc: "page_rc s1 = (page_rc s)(page_idx n := 1)"
      using page_alloc_some [of ps s n fr'] R 3(2) by blast
    have n: "page_aligned n" "n \<in> set fr" "n \<notin> set fr'" using a(3) 3(2) pages_rep_distinct [OF R] by (auto simp: ram_page_def)
    let ?s = "store s1 (t + 8 * ?i) (mk_pte n PTE_V)"
    note A = add_table [OF W p t 3(1) n(2,1) a(4) refl]
    have "set fr - {n} = set fr'" using 3(2) n(3) by auto
    then have I': "vm_inv ps fr' ?s root" using A(1) a(2) by (simp add: vm_inv_def)
    have "pmem ?s b = pmem s b" if nb: "\<not> in_tables ?s root b" for b
    proof -
      have "\<not> b - n < 4096" using nb A(2) p unfolding in_tables_def by blast
      moreover have "\<not> b - t < 4096" using nb A(4) [OF pp t] pp unfolding in_tables_def by blast
      then have "\<not> b - (t + 8 * ?i) < 8" using entry_in_table [OF al vpn_less] by blast
      ultimately show ?thesis using a(4) by (simp add: store_outside page_zero_def PAGE_SIZE_def)
    qed
    then have G: "grows s ?s root" unfolding grows_def using A(3,4) by blast
    have "get_next_lvl_pte (load ?s (t + 8 * ?i)) = n"
      using mk_pte_next [OF n(1), of PTE_V] by (simp add: load_def store_def rd64_wr64_same PTE_V_def)
    then have "map_walk s t va (Suc l) al = map_walk ?s n va l (al @ [n])" using 3(1) a(1) pe le by (simp add: Let_def)
    moreover have "page_get_ref_count ?s n = 1" using rc by (simp add: page_get_ref_count_def store_def)
    moreover have "page_get_ref_count ?s r = page_get_ref_count s r" if "ram_page ps r" "r \<noteq> n" for r
      using page_idx_inj [OF _ that(1) a(3)] that(2) R rc by (auto simp: pages_rep_def page_get_ref_count_def store_def)
    then have "takes ps [n] s ?s root" using A(5) by (simp add: takes_def)
    ultimately show ?thesis using 3(2) I' A(2) G a(3)
      by (intro disjI2 exI [of _ ?s] exI [of _ n] exI [of _ "[n]"] exI [of _ fr']) simp
  qed
qed

text \<open>All that a successful and a failing \<^verbatim>\<open>vpage_map\<close> do.\<close>

lemma vpage_map_cases:
  assumes I: "vm_inv ps fr s root"
  shows "(\<exists>s1 fr' t. vpage_map s root va pa flags = Ret (store s1 (get_pte t va 0) (mk_pte pa (leaf_flags flags)), 0) \<and>
      vm_inv ps fr' s1 root \<and> grows s s1 root \<and> tab s1 root [get_va_vpn va 2, get_va_vpn va 1] = Some t \<and>
      (\<exists>us. fr = us @ fr' \<and> length us \<le> 2 \<and> takes ps us s s1 root)) \<or>
    (length fr < 2 \<and> (\<exists>s2. vpage_map s root va pa flags = Ret (s2, - ENOMEM)))"
proof -
  let ?v2 = "get_va_vpn va (Suc (Suc 0))" and ?v1 = "get_va_vpn va (Suc 0)"
  have lv: "LEVELS - 1 = Suc (Suc 0)" by (simp add: LEVELS_def)
  have V: "[get_va_vpn va 2, get_va_vpn va 1] = [?v2] @ [?v1]" by (simp add: numeral_2_eq_2)
  have p2: "path ([] @ [?v2])" "path ([?v2] @ [?v1])" using path_vpns by simp_all
  show ?thesis
    using map_walk_step [OF I tab.simps(1) p2(1), of "[]"]
  proof (elim disjE conjE exE)
    fix s1 assume "fr = []" "map_walk s root va (Suc (Suc 0)) [] = (s1, Inl [])"
    then show ?thesis unfolding vpage_map_def lv by (intro disjI2) (simp del: map_walk.simps)
  next
    fix s1 t1 us fr1
    assume w: "map_walk s root va (Suc (Suc 0)) [] = map_walk s1 t1 va (Suc 0) ([] @ us)" and fr: "fr = us @ fr1"
      and I1: "vm_inv ps fr1 s1 root" and t1: "tab s1 root ([] @ [?v2]) = Some t1" and G1: "grows s s1 root"
      and T1: "takes ps us s s1 root" and us: "length us \<le> 1" "\<forall>u \<in> set us. ram_page ps u \<and> page_get_ref_count s1 u = 1"
    have t1': "tab s1 root [?v2] = Some t1" using t1 by simp
    show ?thesis
      using map_walk_step [OF I1 t1' p2(2), of "[] @ us"]
    proof (elim disjE conjE exE)
      fix s2 assume e: "fr1 = []" and w1: "map_walk s1 t1 va (Suc 0) ([] @ us) = (s2, Inl ([] @ us))" and a: "page_alloc s1 = (s2, None)"
      have R1: "pages_rep ps s1 []" using I1 e by (simp add: vm_inv_def)
      obtain h where s2: "s2 = s1\<lparr>pnodes := h\<rparr>" "pages_rep ps s2 []" using page_alloc_none [OF R1] a by auto
      have "\<exists>s3. fold_out page_put us s2 = Ret s3"
      proof (cases us)
        case (Cons u us')
        then have "us = [u]" "ram_page ps u" "page_get_ref_count s2 u = 1"
          using us s2(1) by (auto simp: page_get_ref_count_def)
        then show ?thesis using page_put_last [OF s2(2), of u] by fastforce
      qed simp
      then show ?thesis using w w1 fr e us(1) unfolding vpage_map_def lv by (intro disjI2) (auto simp del: map_walk.simps)
    next
      fix s2 t us2 fr2
      assume "map_walk s1 t1 va (Suc 0) ([] @ us) = map_walk s2 t va 0 (([] @ us) @ us2)" and fr1: "fr1 = us2 @ fr2"
        and I2: "vm_inv ps fr2 s2 root" and t: "tab s2 root ([?v2] @ [?v1]) = Some t" and G2: "grows s1 s2 root" and T2: "takes ps us2 s1 s2 root" and us2: "length us2 \<le> 1"
      then have "map_walk s root va (Suc (Suc 0)) [] = (s2, Inr t)" using w by simp
      then have "vpage_map s root va pa flags = Ret (store s2 (get_pte t va 0) (mk_pte pa (leaf_flags flags)), 0)"
        unfolding vpage_map_def lv by (simp del: map_walk.simps)
      moreover have "fr = (us @ us2) @ fr2" "length (us @ us2) \<le> 2" using fr fr1 us(1) us2 by auto
      ultimately show ?thesis using I2 grows_trans [OF G1 G2] takes_trans [OF T1 T2] t unfolding V by blast
    qed
  qed
qed

lemma small_iff: "(x :: u64) < 1024 \<longleftrightarrow> (\<forall>n \<ge> 10. \<not> bit x n)"
proof
  assume "\<forall>n \<ge> 10. \<not> bit x n"
  then have "take_bit 10 x = x" by (intro bit_word_eqI) (metis bit_take_bit_iff not_le_imp_less)
  then have "unat x = take_bit 10 (unat x)" by (metis unsigned_take_bit_eq)
  moreover have "take_bit 10 (unat x) < 2 ^ 10" by (rule take_bit_nat_less_exp)
  ultimately show "x < 1024" by (simp add: word_less_nat_alt)
qed (use small_bits in blast)

lemma has_or: "has (x OR y) f \<longleftrightarrow> has x f \<or> has y f"
  unfolding has_def by (auto simp: bit_eq_iff bit_and_iff bit_or_iff)

lemma leaf_flags_props:
  assumes "flags < 1024"
  shows "leaf_flags flags < 1024" and "has (leaf_flags flags) PTE_V"
    and "is_a_next_lvl_ptr (leaf_flags flags) = is_a_next_lvl_ptr flags"
proof -
  have c: "PTE_V < 1024" "PTE_A < 1024" "PTE_D < 1024" by (simp_all add: layout_defs)
  show "leaf_flags flags < 1024"
    using assms c unfolding leaf_flags_def Let_def small_iff by (auto simp: bit_or_iff)
  show "has (leaf_flags flags) PTE_V" by (simp add: leaf_flags_def Let_def has_or) (simp add: has_def layout_defs)
  have "\<not> has PTE_V f \<and> \<not> has PTE_A f \<and> \<not> has PTE_D f" if "f \<in> {PTE_X, PTE_W, PTE_R}" for f
    using that by (auto simp: has_def layout_defs)
  then show "is_a_next_lvl_ptr (leaf_flags flags) = is_a_next_lvl_ptr flags"
    by (simp add: is_a_next_lvl_ptr_def leaf_flags_def Let_def has_or)
qed

lemma mk_pte_leaf:
  assumes "flags < 1024"
  shows "has (mk_pte pa (leaf_flags flags)) PTE_V"
    and "is_a_next_lvl_ptr (mk_pte pa (leaf_flags flags)) = is_a_next_lvl_ptr flags"
proof -
  have h: "has (mk_pte pa f) F = has f F" if "F < 1024" for f F using that by (simp add: has_def mk_pte_and)
  have "PTE_V < 1024" "PTE_X < 1024" "PTE_W < 1024" "PTE_R < 1024" by (simp_all add: layout_defs)
  note h = this [THEN h]
  show "has (mk_pte pa (leaf_flags flags)) PTE_V" using leaf_flags_props(2) [OF assms] h by simp
  show "is_a_next_lvl_ptr (mk_pte pa (leaf_flags flags)) = is_a_next_lvl_ptr flags"
    unfolding leaf_flags_props(3) [OF assms, symmetric] by (simp add: is_a_next_lvl_ptr_def h)
qed

lemma grows_inv_tables: "grows s s' root \<Longrightarrow> in_tables s root a \<Longrightarrow> in_tables s' root a"
  unfolding grows_def in_tables_def by blast

lemma leaf_store_inv:
  assumes I: "vm_inv ps fr s root" and t: "tab s root [get_va_vpn va 2, get_va_vpn va 1] = Some t"
  shows "vm_inv ps fr (store s (get_pte t va 0) e) root"
    and "\<not> in_tables s root a \<Longrightarrow> pmem (store s (get_pte t va 0) e) a = pmem s a"
    and "in_tables (store s (get_pte t va 0) e) root a = in_tables s root a"
    and "takes ps' [] s (store s (get_pte t va 0) e) root"
proof -
  have W: "wf_tree (set fr) s root" using I by (simp add: vm_inv_def)
  note V = path_vpns(3) [of va 2 1]
  show "vm_inv ps fr (store s (get_pte t va 0) e) root" using I set_leaf(1) [OF W t] by (simp add: vm_inv_def)
  show "pmem (store s (get_pte t va 0) e) a = pmem s a" if "\<not> in_tables s root a"
  proof -
    have "\<not> a - t < 4096" using that t V unfolding in_tables_def by blast
    then have "\<not> a - get_pte t va 0 < 8"
      using entry_in_table [OF wf_treeD(1) [OF W V t] vpn_less] by (auto simp: get_pte_def)
    then show ?thesis by (rule store_outside)
  qed
  have T: "tab (store s (get_pte t va 0) e) root q = tab s root q" if "path q" for q
    using that unfolding get_pte_def by (intro tab_store_other [OF W V t vpn_less]) (auto simp: path_def)
  then show "in_tables (store s (get_pte t va 0) e) root a = in_tables s root a" by (auto simp: in_tables_def)
  show "takes ps' [] s (store s (get_pte t va 0) e) root"
    using T by (simp add: takes_def) (simp add: store_def page_get_ref_count_def)
qed

text \<open>
  The contract of \<^verbatim>\<open>vpage_map\<close>: on success the address translates to the page and all others as
  before, and no byte outside the tables changed; with two free pages it cannot fail.
\<close>

lemma vpage_map_correct:
  assumes I: "vm_inv ps fr s root" and f: "flags < 1024" "\<not> is_a_next_lvl_ptr flags"
  shows "\<exists>s' res. vpage_map s root va pa flags = Ret (s', res) \<and> (res = 0 \<or> res = - ENOMEM) \<and>
    (2 \<le> length fr \<longrightarrow> res = 0) \<and>
    (res = 0 \<longrightarrow> (\<exists>us fr'. fr = us @ fr' \<and> length us \<le> 2 \<and> vm_inv ps fr' s' root \<and> takes ps us s s' root) \<and>
      (\<forall>va'. lookup s' root va' = (if same_vpn va' va then Some (mk_pte pa (leaf_flags flags)) else lookup s root va')) \<and>
      (\<forall>a. \<not> in_tables s' root a \<longrightarrow> pmem s' a = pmem s a) \<and> (\<forall>a. in_tables s root a \<longrightarrow> in_tables s' root a))"
  using vpage_map_cases [OF I, of va pa flags]
proof (elim disjE exE conjE)
  fix s2 assume "length fr < 2" "vpage_map s root va pa flags = Ret (s2, - ENOMEM)"
  then show ?thesis by (simp add: ENOMEM_def)
next
  fix s1 fr' t us
  assume m: "vpage_map s root va pa flags = Ret (store s1 (get_pte t va 0) (mk_pte pa (leaf_flags flags)), 0)"
    and I1: "vm_inv ps fr' s1 root" and G: "grows s s1 root" and t: "tab s1 root [get_va_vpn va 2, get_va_vpn va 1] = Some t"
    and fr: "fr = us @ fr'" "length us \<le> 2" and T: "takes ps us s s1 root"
  let ?s = "store s1 (get_pte t va 0) (mk_pte pa (leaf_flags flags))"
  have W1: "wf_tree (set fr') s1 root" using I1 by (simp add: vm_inv_def)
  note L = leaf_store_inv [OF I1 t]
  have "lookup ?s root va' = (if same_vpn va' va then Some (mk_pte pa (leaf_flags flags)) else lookup s root va')" for va'
    using set_leaf(4) [OF W1 t, of _ va'] mk_pte_leaf [OF f(1)] f(2) G by (simp add: grows_def)
  moreover have "pmem ?s a = pmem s a" if "\<not> in_tables ?s root a" for a
    using that L(2) [of a] L(3) G by (simp add: grows_def)
  moreover have "in_tables ?s root a" if "in_tables s root a" for a
    using grows_inv_tables [OF G that] L(3) by simp
  moreover have "takes ps us s ?s root" using takes_trans [OF T L(4)] by simp
  ultimately show ?thesis using m fr L(1) by blast
qed

section \<open>Sequences of mappings\<close>

text \<open>
  A translation that is extended one address at a time: \<open>lk\<close> looks an address up, \<open>step\<close> maps one and
  can only fail when fewer than two of the \<open>n\<close> frames of \<open>inv s n\<close> are left.
\<close>

locale translation =
  fixes inv :: "'s \<Rightarrow> nat \<Rightarrow> bool"
    and lk :: "'s \<Rightarrow> 'a \<Rightarrow> 'e option"
    and same :: "'a \<Rightarrow> 'a \<Rightarrow> bool"
    and enc :: "'p \<Rightarrow> 'e"
    and step :: "'s \<Rightarrow> 'a \<times> 'p \<Rightarrow> 's option"
  assumes step_ok: "inv s (Suc (Suc n)) \<Longrightarrow> \<exists>s'. step s (a, p) = Some s' \<and> inv s' n \<and>
    (\<forall>b. lk s' b = (if same b a then Some (enc p) else lk s b))"
begin

text \<open>Mapping a list of addresses: each later one wins over the earlier ones it coincides with.\<close>

lemma steps_ok:
  assumes "inv s (2 * length ms + n)"
  shows "\<exists>s'. foldl (\<lambda>r m. Option.bind r (\<lambda>s. step s m)) (Some s) ms = Some s' \<and> inv s' n \<and>
    (\<forall>b. lk s' b = (case find (\<lambda>(a, p). same b a) (rev ms) of Some (a, p) \<Rightarrow> Some (enc p) | None \<Rightarrow> lk s b))"
  using assms
proof (induction ms arbitrary: n rule: rev_induct)
  case (snoc m ms)
  obtain a p where m: "m = (a, p)" by fastforce
  obtain s1 where s1: "foldl (\<lambda>r m. Option.bind r (\<lambda>s. step s m)) (Some s) ms = Some s1" "inv s1 (Suc (Suc n))"
    "\<forall>b. lk s1 b = (case find (\<lambda>(a, p). same b a) (rev ms) of Some (a, p) \<Rightarrow> Some (enc p) | None \<Rightarrow> lk s b)"
    using snoc.IH [of "Suc (Suc n)"] snoc.prems by auto
  obtain s2 where "step s1 (a, p) = Some s2" "inv s2 n" "\<forall>b. lk s2 b = (if same b a then Some (enc p) else lk s1 b)"
    using step_ok [OF s1(2)] by blast
  then show ?case using s1 m by (auto split: option.splits)
qed simp

lemma steps_each:
  assumes "inv s (2 * length ms + n)" and "i < length ms"
    and "\<And>j. j < length ms \<Longrightarrow> same (fst (ms ! i)) (fst (ms ! j)) \<longleftrightarrow> j = i"
  shows "\<exists>s'. foldl (\<lambda>r m. Option.bind r (\<lambda>s. step s m)) (Some s) ms = Some s' \<and>
    lk s' (fst (ms ! i)) = Some (enc (snd (ms ! i)))"
proof -
  have "find (\<lambda>(a, p). same (fst (ms ! i)) a) (rev ms) = Some (ms ! i)"
    unfolding find_Some_iff
  proof (intro exI [of _ "length ms - Suc i"] conjI allI impI)
    fix j assume "j < length ms - Suc i"
    then have "rev ms ! j = ms ! (length ms - Suc j)" "length ms - Suc j \<noteq> i" "length ms - Suc j < length ms"
      using assms(2) by (auto simp: rev_nth)
    then show "\<not> (case rev ms ! j of (a, p) \<Rightarrow> same (fst (ms ! i)) a)" using assms(3) by (auto simp: case_prod_beta)
  qed (use assms(2,3) in \<open>auto simp: rev_nth case_prod_beta\<close>)
  then show ?thesis using steps_ok [OF assms(1)] by (auto split: prod.splits)
qed

end

definition map_step :: "u64 \<Rightarrow> u64 \<Rightarrow> phys \<Rightarrow> u64 \<times> u64 \<Rightarrow> phys option" where
  "map_step root flags s m =
    (case vpage_map s root (fst m) (snd m) flags of Ret (s', res) \<Rightarrow> if res < 0 then None else Some s' | _ \<Rightarrow> None)"

definition vm_room :: "u64 \<Rightarrow> u64 \<Rightarrow> phys \<Rightarrow> nat \<Rightarrow> bool" where
  "vm_room ps root s n \<longleftrightarrow> (\<exists>fr. vm_inv ps fr s root \<and> n \<le> length fr)"

definition user_flags :: "u64 \<Rightarrow> bool" where
  "user_flags flags \<longleftrightarrow> flags < 1024 \<and> \<not> is_a_next_lvl_ptr flags"

lemma map_step_ok:
  assumes "user_flags flags" and "vm_room ps root s (Suc (Suc n))"
  shows "\<exists>s'. map_step root flags s (a, p) = Some s' \<and> vm_room ps root s' n \<and>
    (\<forall>b. lookup s' root b = (if same_vpn b a then Some (mk_pte p (leaf_flags flags)) else lookup s root b))"
proof -
  obtain fr where fr: "vm_inv ps fr s root" "Suc (Suc n) \<le> length fr" using assms(2) by (auto simp: vm_room_def)
  have f: "flags < 1024" "\<not> is_a_next_lvl_ptr flags" using assms(1) by (auto simp: user_flags_def)
  from vpage_map_correct [OF fr(1) f, of a p] fr(2) obtain s' us fr' where
    "vpage_map s root a p flags = Ret (s', 0)" "fr = us @ fr'" "length us \<le> 2" "vm_inv ps fr' s' root"
    "\<forall>b. lookup s' root b = (if same_vpn b a then Some (mk_pte p (leaf_flags flags)) else lookup s root b)"
    by fastforce
  then show ?thesis using fr(2) by (auto simp: map_step_def vm_room_def)
qed

interpretation vt: translation "\<lambda>s n. vm_room ps root s n \<and> user_flags flags" "\<lambda>s. lookup s root" same_vpn
  "\<lambda>p. mk_pte p (leaf_flags flags)" "map_step root flags"
  by unfold_locales (use map_step_ok in blast)

text \<open>The pages of a range, and the loop of \<^verbatim>\<open>vpage_map_range\<close> as a sequence of mappings.\<close>

definition range_pages :: "u64 \<Rightarrow> u64 \<Rightarrow> u64 \<Rightarrow> nat \<Rightarrow> (u64 \<times> u64) list" where
  "range_pages va pa off k = map (\<lambda>i. (va + off + word_of_nat (4096 * i), pa + off + word_of_nat (4096 * i))) [0..<k]"

lemma range_pages_Suc: "range_pages va pa off (Suc k) = (va + off, pa + off) # range_pages va pa (off + PAGE_SIZE) k"
proof -
  have "[0..<Suc k] = 0 # map Suc [0..<k]" by (simp add: upt_conv_Cons map_Suc_upt del: upt_Suc)
  then show ?thesis by (simp add: range_pages_def PAGE_SIZE_def comp_def ac_simps del: upt_Suc)
qed

lemma map_range_loop_steps:
  assumes "unat off + 4096 * k < 2 ^ 64" and "unat sz \<le> unat off + 4096 * k" and "\<And>j. j < k \<Longrightarrow> unat off + 4096 * j < unat sz"
    and "foldl (\<lambda>r m. Option.bind r (\<lambda>s. map_step root flags s m)) (Some s) (range_pages va pa off k) = Some s'"
  shows "map_range_loop s root va pa sz flags off = Some (Ret (s', 0))"
  using assms
proof (induction k arbitrary: s off)
  case 0
  then show ?case by (subst map_range_loop.simps) (simp add: range_pages_def word_less_nat_alt)
next
  case (Suc k)
  have lt: "off < sz" using Suc.prems(3) [of 0] by (simp add: word_less_nat_alt)
  have o: "unat (off + PAGE_SIZE) = unat off + 4096" using Suc.prems(1) by (simp add: unat_word_ariths PAGE_SIZE_def)
  obtain s1 where s1: "map_step root flags s (va + off, pa + off) = Some s1"
    "foldl (\<lambda>r m. Option.bind r (\<lambda>s. map_step root flags s m)) (Some s1) (range_pages va pa (off + PAGE_SIZE) k) = Some s'"
  proof (cases "map_step root flags s (va + off, pa + off)")
    case None
    have "foldl (\<lambda>r m. Option.bind r (\<lambda>s. map_step root flags s m)) None xs = None" for xs by (induction xs) auto
    then show ?thesis using Suc.prems(4) None by (simp add: range_pages_Suc)
  next
    case (Some s1)
    then show ?thesis using Suc.prems(4) that by (simp add: range_pages_Suc)
  qed
  have IH: "map_range_loop s1 root va pa sz flags (off + PAGE_SIZE) = Some (Ret (s', 0))"
  proof (rule Suc.IH [OF _ _ _ s1(2)])
    show "unat (off + PAGE_SIZE) + 4096 * j < unat sz" if "j < k" for j using Suc.prems(3) [of "Suc j"] that o by simp
  qed (use Suc.prems o in auto)
  then show ?case using lt s1(1)
    by (subst map_range_loop.simps) (auto simp: map_step_def split: outcome.splits prod.splits if_splits)
qed

text \<open>Two addresses of the Sv39 space are translated by the same leaf iff they are in the same page.\<close>

lemma bit_vpn: "bit (get_va_vpn va l) n \<longleftrightarrow> n < 9 \<and> bit va (12 + 9 * l + n)"
proof -
  have m: "VA_VPN_MASK = mask 9" by (simp add: VA_VPN_MASK_def mask_eq_exp_minus_1)
  show ?thesis unfolding get_va_vpn_def m PAGE_SHIFT_def VA_VPN_BITS_def
    by (auto simp: bit_and_iff bit_mask_iff bit_drop_bit_eq dest: bit_imp_le_length)
qed

lemma small_va_bits: "(va :: u64) < 2 ^ 39 \<Longrightarrow> 39 \<le> n \<Longrightarrow> \<not> bit va n"
proof
  assume v: "va < 2 ^ 39" "39 \<le> n" "bit va n"
  have "(2 :: nat) ^ 39 \<le> 2 ^ n" using power_increasing [OF v(2), of "2 :: nat"] by simp
  then have "unat va < 2 ^ n" using v(1) by (simp add: word_less_nat_alt)
  then have "\<not> bit (unat va) n" by (simp add: bit_iff_odd)
  then show False using v(3) by (simp add: bit_unsigned_iff)
qed

lemma same_vpn_page:
  assumes "va < 2 ^ 39" and "va' < 2 ^ 39"
  shows "same_vpn va va' \<longleftrightarrow> drop_bit 12 va = drop_bit 12 va'"
proof
  assume sv: "same_vpn va va'"
  show "drop_bit 12 va = drop_bit 12 va'"
  proof (rule bit_word_eqI)
    fix n assume "n < LENGTH(64)"
    show "bit (drop_bit 12 va) n = bit (drop_bit 12 va') n"
    proof (cases "n < 27")
      case True
      then have "n div 9 < 3" by simp
      then have "get_va_vpn va (n div 9) = get_va_vpn va' (n div 9)" using sv by (simp add: same_vpn_def)
      then have "bit va (12 + 9 * (n div 9) + n mod 9) = bit va' (12 + 9 * (n div 9) + n mod 9)"
        by (metis bit_vpn mod_less_divisor zero_less_numeral)
      then show ?thesis by (simp add: bit_drop_bit_eq add.commute)
    next
      case False
      then show ?thesis using small_va_bits [OF assms(1), of "12 + n"] small_va_bits [OF assms(2), of "12 + n"]
        by (simp add: bit_drop_bit_eq)
    qed
  qed
next
  assume d: "drop_bit 12 va = drop_bit 12 va'"
  have "bit va (12 + n) = bit va' (12 + n)" for n using d by (metis bit_drop_bit_eq comp_apply)
  then have "get_va_vpn va l = get_va_vpn va' l" for l
    by (intro bit_word_eqI) (simp add: bit_vpn add.assoc)
  then show "same_vpn va va'" by (simp add: same_vpn_def)
qed

lemma range_pages_sep:
  assumes "unat va + 4096 * k \<le> 2 ^ 39" and "i < k" and "j < k"
  shows "same_vpn (fst (range_pages va pa 0 k ! i)) (fst (range_pages va pa 0 k ! j)) \<longleftrightarrow> j = i"
proof -
  have u: "unat (va + word_of_nat (4096 * l)) = unat va + 4096 * l" if "l < k" for l
  proof -
    have "unat (4096 * word_of_nat l :: u64) = 4096 * l" using assms(1) that by (simp add: unat_word_ariths unat_of_nat)
    then show ?thesis using assms(1) that by (simp add: unat_word_ariths)
  qed
  have lt: "va + word_of_nat (4096 * l) < 2 ^ 39" if "l < k" for l
    using u [OF that] assms(1) that by (simp add: word_less_nat_alt)
  have d: "unat (drop_bit 12 (va + word_of_nat (4096 * l))) = unat va div 4096 + l" if "l < k" for l
    unfolding unat_drop_bit_eq u [OF that] by (simp add: drop_bit_eq_div)
  have "drop_bit 12 (va + word_of_nat (4096 * i)) = drop_bit 12 (va + word_of_nat (4096 * j)) \<longleftrightarrow> j = i"
    using d [OF assms(2)] d [OF assms(3)] by (auto simp: word_unat_eq_iff)
  then show ?thesis
    using same_vpn_page [OF lt [OF assms(2)] lt [OF assms(3)]] assms(2,3) by (simp add: range_pages_def)
qed

section \<open>Unmapping and copy on write\<close>

lemma lookup_walk:
  assumes W: "wf_tree F s root" and "walk_leaf s root va = Some leaf"
  shows "\<exists>t. tab s root [get_va_vpn va 2, get_va_vpn va 1] = Some t \<and> leaf = get_pte t va 0 \<and>
    lookup s root va = Some (load s leaf)"
  using assms(2) unfolding walk_leaf_lookup [OF W]
  by (auto simp: lookup_def Let_def entry_def get_pte_def simp del: tab.simps split: option.splits if_splits)

lemma walk_none: "wf_tree F s root \<Longrightarrow> walk_leaf s root va = None \<longleftrightarrow> lookup s root va = None"
  by (auto simp: walk_leaf_lookup lookup_def simp del: tab.simps split: option.splits)

lemma load_cong_tables:
  assumes "pmem s' = pmem s"
  shows "load s' a = load s a" "entry s' t i = entry s t i" "tab s' t p = tab s t p" "lookup s' root va = lookup s root va"
    "in_tables s' root b = in_tables s root b"
proof -
  show l: "load s' a = load s a" for a using assms by (simp add: load_def)
  show e: "entry s' t i = entry s t i" for t i by (simp add: entry_def l)
  show t: "tab s' t p = tab s t p" for t p by (induction p arbitrary: t) (simp_all add: e)
  show "lookup s' root va = lookup s root va" by (simp add: lookup_def e t)
  show "in_tables s' root b = in_tables s root b" by (simp add: in_tables_def t)
qed

lemma vm_inv_pmem:
  assumes "vm_inv ps fr s root" and "pmem s' = pmem s" and "pages_rep ps s' fr'" and "\<And>p t. path p \<Longrightarrow> tab s root p = Some t \<Longrightarrow> t \<notin> set fr'"
  shows "vm_inv ps fr' s' root"
  using assms(1,3) assms(4) unfolding vm_inv_def wf_tree_def load_cong_tables(2,3) [OF assms(2)] by (elim conjE) (intro conjI; assumption?; metis)

text \<open>Dropping a reference on a page that is no table of the tree.\<close>

lemma page_put_inv:
  assumes I: "vm_inv ps fr s root" and p: "ram_page ps p" "page_get_ref_count s p \<noteq> 0"
    and nt: "\<And>q t. path q \<Longrightarrow> tab s root q = Some t \<Longrightarrow> t \<noteq> p"
  shows "\<exists>s' fr'. page_put s p = Ret s' \<and> pmem s' = pmem s \<and> vm_inv ps fr' s' root \<and> set fr' \<subseteq> insert p (set fr) \<and>
    page_get_ref_count s' p = page_get_ref_count s p - 1"
proof -
  have R: "pages_rep ps s fr" and W: "wf_tree (set fr) s root" using I by (simp_all add: vm_inv_def)
  have "1 \<le> page_get_ref_count s p" using p(2) by (simp add: word_le_nat_alt Suc_le_eq unat_gt_0)
  then consider "page_get_ref_count s p = 1" | "1 < page_get_ref_count s p"
    unfolding order_le_less by (elim disjE) simp_all
  then obtain s' fr' where s': "page_put s p = Ret s'" "pages_rep ps s' fr'" "pmem s' = pmem s" "set fr' \<subseteq> insert p (set fr)"
    "page_rc s' = (page_rc s)(page_idx p := page_rc s (page_idx p) - 1)"
  proof cases
    case 1
    then have "page_rc s (page_idx p) - 1 = 0" by (simp add: page_get_ref_count_def)
    then show ?thesis using page_put_last [OF R p(1) 1] that by auto
  next
    case 2
    then show ?thesis using page_put_shared [OF R p(1) 2] that by auto
  qed
  moreover have "vm_inv ps fr' s' root"
    using s'(4) nt wf_treeD(2) [OF W] by (intro vm_inv_pmem [OF I s'(3,2)]) blast
  ultimately show ?thesis by (auto simp: page_get_ref_count_def)
qed

lemma vpage_unmap_correct:
  assumes I: "vm_inv ps fr s root" and e: "lookup s root va = Some e"
    and p: "ram_page ps (get_next_lvl_pte e)" "page_get_ref_count s (get_next_lvl_pte e) \<noteq> 0"
    and nt: "\<And>q t. path q \<Longrightarrow> tab s root q = Some t \<Longrightarrow> t \<noteq> get_next_lvl_pte e"
  shows "\<exists>s' fr'. vpage_unmmap s root va = Ret (s', 0) \<and> vm_inv ps fr' s' root \<and>
    (\<forall>va'. lookup s' root va' = (if same_vpn va' va then None else lookup s root va')) \<and>
    page_get_ref_count s' (get_next_lvl_pte e) = page_get_ref_count s (get_next_lvl_pte e) - 1"
proof -
  have W: "wf_tree (set fr) s root" using I by (simp add: vm_inv_def)
  obtain leaf where l: "walk_leaf s root va = Some leaf" using walk_none [OF W, of va] e by (cases "walk_leaf s root va") auto
  obtain t where t: "tab s root [get_va_vpn va 2, get_va_vpn va 1] = Some t" "leaf = get_pte t va 0" "load s leaf = e"
    using lookup_walk [OF W l] e by auto
  obtain s1 fr1 where s1: "page_put s (get_next_lvl_pte e) = Ret s1" "pmem s1 = pmem s" "vm_inv ps fr1 s1 root"
    "page_get_ref_count s1 (get_next_lvl_pte e) = page_get_ref_count s (get_next_lvl_pte e) - 1"
    using page_put_inv [OF I p] nt by blast
  have t1: "tab s1 root [get_va_vpn va 2, get_va_vpn va 1] = Some t" unfolding load_cong_tables(3) [OF s1(2)] by (rule t(1))
  have W1: "wf_tree (set fr1) s1 root" using s1(3) by (simp add: vm_inv_def)
  have "lookup (store s1 leaf 0) root va' = (if same_vpn va' va then None else lookup s root va')" for va'
    using set_leaf(4) [OF W1 t1, of 0 va'] load_cong_tables(4) [OF s1(2)] t(2) by (simp add: has_def)
  moreover have "vm_inv ps fr1 (store s1 leaf 0) root" using leaf_store_inv(1) [OF s1(3) t1] t(2) by simp
  ultimately show ?thesis using l t(3) s1(1,4) by (auto simp: vpage_unmmap_def store_def page_get_ref_count_def)
qed

lemma pages_apart:
  assumes "page_aligned p" and "page_aligned n" and "p \<noteq> n" and "off < 4096"
  shows "\<not> p + off - n < 4096"
proof
  assume "p + off - n < 4096"
  then have x: "unat (p + off - n) < 4096" by (simp add: word_less_nat_alt)
  have o: "unat off < 4096" using assms(4) by (simp add: word_less_nat_alt)
  have a: "unat (p + off) = unat p + unat off"
    using unat_entry(3) [OF assms(1), of 0] o by (intro unat_plus_small) simp
  have "unat n + unat (p + off - n) < 2 ^ 64" using unat_entry(3) [OF assms(2), of 0] x by simp
  from unat_plus_small [OF this] have "unat (p + off) = unat n + unat (p + off - n)"
    by (simp only: add_diff_cancel_left' diff_add_cancel add.commute [of n])
  then show False using page_aligned_sep [OF assms(1,2) _ o x] a assms(3) by simp
qed

lemma ram_page_aligned: "ram_page ps p \<Longrightarrow> page_aligned p"
  by (simp add: ram_page_def)

lemma not_in_tables:
  assumes W: "wf_tree F s root" and "page_aligned p" "\<And>q t. path q \<Longrightarrow> tab s root q = Some t \<Longrightarrow> t \<noteq> p" "off < 4096"
  shows "\<not> in_tables s root (p + off)"
  unfolding in_tables_def using pages_apart [OF assms(2)] wf_treeD(1) [OF W] assms(3,4) by metis

text \<open>Filling a page taken from the free list leaves the tree as it is.\<close>

lemma fresh_page_inv:
  assumes I: "vm_inv ps (n # fr) s root" and R: "pages_rep ps s' fr" and m: "\<forall>a. \<not> a - n < 4096 \<longrightarrow> pmem s' a = pmem s a"
  shows "vm_inv ps fr s' root" and "path q \<Longrightarrow> tab s' root q = tab s root q" and "lookup s' root va = lookup s root va"
proof -
  have W: "wf_tree (set (n # fr)) s root" and n: "page_aligned n"
    using I by (auto simp: vm_inv_def pages_rep_def ram_page_def)
  have E: "entry s' t i = entry s t i" if "path q" "tab s root q = Some t" "i < 512" for q t i
    using wf_treeD(1,2) [OF W that(1,2)] n m that(3) by (intro entry_other_page [of t n]) auto
  show "vm_inv ps fr s' root" unfolding vm_inv_def by (intro conjI R wf_tree_cong(1) [OF W _ E]) auto
  show "path q \<Longrightarrow> tab s' root q = tab s root q" by (rule tab_cong [OF E])
  show "lookup s' root va = lookup s root va" by (rule wf_tree_cong(2) [OF W order_refl E])
qed

lemma has_bit: "has x PTE_V = bit x 0" "has x PTE_R = bit x 1" "has x PTE_W = bit x 2" "has x PTE_X = bit x 3" "has x PTE_COW = bit x 8"
  by (simp_all add: has_def layout_defs bit_iff_and_push_bit_not_eq_0)

definition cow_pte :: "u64 \<Rightarrow> u64 \<Rightarrow> u64" where
  "cow_pte n e = mk_pte n ((get_flags e AND NOT PTE_COW) OR PTE_W)"

lemma cow_pte_leaf:
  assumes "has e PTE_V"
  shows "has (cow_pte n e) PTE_V" "\<not> is_a_next_lvl_ptr (cow_pte n e)" "has (cow_pte n e) PTE_W" "\<not> has (cow_pte n e) PTE_COW"
    "page_aligned n \<Longrightarrow> get_next_lvl_pte (cow_pte n e) = n"
proof -
  let ?f = "(get_flags e AND NOT PTE_COW) OR PTE_W"
  have f: "?f < 1024"
    unfolding small_iff get_flags_def layout_defs
    using small_bits [of "0x3ff"] small_bits [of 4] by (auto simp: bit_and_iff bit_or_iff)
  have m: "bit (cow_pte n e) k = (bit e k \<and> k \<noteq> 8 \<or> k = 2)" if "k < 10" for k
  proof -
    have "bit (0x3ff :: u64) k" using that by (simp add: numeral_nat less_Suc_eq) (elim disjE, simp_all)
    moreover have "bit (0x100 :: u64) k = (k = 8)" "bit (4 :: u64) k = (k = 2)"
      using that by (simp_all add: numeral_nat less_Suc_eq) (elim disjE, simp_all)+
    ultimately show ?thesis using that
      by (simp add: cow_pte_def mk_pte_def PTE_PPN_SHIFT_def bit_or_iff bit_and_iff bit_not_iff bit_push_bit_iff get_flags_def
          PTE_W_def PTE_FLAGS_MASK_def) (simp add: PTE_COW_def)
  qed
  show "page_aligned n \<Longrightarrow> get_next_lvl_pte (cow_pte n e) = n" unfolding cow_pte_def by (rule mk_pte_next [OF _ f])
  show "has (cow_pte n e) PTE_V" "has (cow_pte n e) PTE_W" "\<not> is_a_next_lvl_ptr (cow_pte n e)" "\<not> has (cow_pte n e) PTE_COW"
    using m assms by (auto simp: has_bit is_a_next_lvl_ptr_def)
qed

lemma page_copy_fresh:
  assumes "page_aligned p" and "page_aligned n" and "p \<noteq> n" and "pmem s1 = page_zero m n"
  shows "\<not> a - n < 4096 \<Longrightarrow> pmem (page_copy s1 n p) a = m a"
    and "off < 4096 \<Longrightarrow> pmem (page_copy s1 n p) (n + off) = m (p + off)"
  using pages_apart [OF assms(1-3), of off] assms(4) by (simp_all add: page_copy_def page_zero_def PAGE_SIZE_def)

text \<open>The contents of a page.\<close>

definition page_bytes :: "phys \<Rightarrow> u64 \<Rightarrow> u8 list" where
  "page_bytes s p = map (\<lambda>i. pmem s (p + word_of_nat i)) [0..<4096]"

lemma page_bytes_eqI: "(\<And>off. off < 4096 \<Longrightarrow> pmem s' (p' + off) = pmem s (p + off)) \<Longrightarrow> page_bytes s' p' = page_bytes s p"
  by (simp add: page_bytes_def word_less_nat_alt unat_of_nat)

lemma cow_copy:
  assumes I: "vm_inv ps (n # fr) s root" and e: "lookup s root va = Some e" "has e PTE_COW"
    and p: "ram_page ps (get_next_lvl_pte e)" "1 < page_get_ref_count s (get_next_lvl_pte e)"
    and nt: "\<And>q t. path q \<Longrightarrow> tab s root q = Some t \<Longrightarrow> t \<noteq> get_next_lvl_pte e"
  shows "\<exists>s'. vpage_handle_cow s root va = Ret (s', 0) \<and> vm_inv ps fr s' root \<and>
    (\<forall>va'. lookup s' root va' = (if same_vpn va' va then Some (cow_pte n e) else lookup s root va')) \<and>
    page_bytes s' n = page_bytes s (get_next_lvl_pte e) \<and>
    page_bytes s' (get_next_lvl_pte e) = page_bytes s (get_next_lvl_pte e) \<and>
    page_get_ref_count s' (get_next_lvl_pte e) = page_get_ref_count s (get_next_lvl_pte e) - 1 \<and>
    page_get_ref_count s' n = 1"
proof -
  let ?p = "get_next_lvl_pte e"
  have R: "pages_rep ps s (n # fr)" and W: "wf_tree (set (n # fr)) s root" using I by (simp_all add: vm_inv_def)
  obtain leaf where l: "walk_leaf s root va = Some leaf" using walk_none [OF W, of va] e by (cases "walk_leaf s root va") auto
  obtain t where t: "tab s root [get_va_vpn va 2, get_va_vpn va 1] = Some t" "leaf = get_pte t va 0" "load s leaf = e"
    using lookup_walk [OF W l] e(1) by auto
  obtain s1 where s1: "page_alloc s = (s1, Some n)" "pages_rep ps s1 fr" "ram_page ps n" "pmem s1 = page_zero (pmem s) n"
    "page_rc s1 = (page_rc s)(page_idx n := 1)" using page_alloc_some [OF R] by blast
  have "page_get_ref_count s n = 0" using R s1(3) by (simp add: pages_rep_def)
  then have pn: "?p \<noteq> n" using p(2) by auto
  have ix: "page_idx ?p \<noteq> page_idx n" using page_idx_inj [OF _ p(1) s1(3)] pn R by (auto simp: pages_rep_def)
  note al = ram_page_aligned [OF p(1)] ram_page_aligned [OF s1(3)]
  note cp = page_copy_fresh [OF al pn s1(4)]
  let ?s2 = "page_copy s1 n ?p"
  have R2: "pages_rep ps ?s2 fr" using s1(2) by (simp add: pages_rep_def page_copy_def page_get_ref_count_def)
  have m2: "\<forall>a. \<not> a - n < 4096 \<longrightarrow> pmem ?s2 a = pmem s a" using cp(1) by blast
  note F = fresh_page_inv [OF I R2 m2]
  have t2: "tab ?s2 root [get_va_vpn va 2, get_va_vpn va 1] = Some t" unfolding F(2) [OF path_vpns(3)] by (rule t(1))
  have W2: "wf_tree (set fr) ?s2 root" using F(1) by (simp add: vm_inv_def)
  have l2: "load ?s2 leaf = e"
    using lookup_def [of ?s2 root va] F(3) [of va] e(1) t2 t(2) by (simp add: get_pte_def entry_def Let_def del: tab.simps split: if_splits)
  let ?s3 = "store ?s2 leaf (cow_pte n e)"
  note L = leaf_store_inv [OF F(1) t2, where e = "cow_pte n e", folded t(2)]
  have V: "has e PTE_V" using e(1) by (auto simp: lookup_def Let_def simp del: tab.simps split: option.splits if_splits)
  have look: "lookup ?s3 root va' = (if same_vpn va' va then Some (cow_pte n e) else lookup s root va')" for va'
    using set_leaf(4) [OF W2 t2, of "cow_pte n e" va'] cow_pte_leaf(1,2) [OF V, of n] F(3) t(2) by simp
  have rc3: "page_get_ref_count ?s3 ?p = page_get_ref_count s ?p" "page_get_ref_count ?s3 n = 1"
    using s1(5) ix by (simp_all add: store_def page_copy_def page_get_ref_count_def)
  have R3: "pages_rep ps ?s3 fr" using L(1) by (simp add: vm_inv_def)
  obtain s4 where s4: "page_put ?s3 ?p = Ret s4" "pages_rep ps s4 fr" "pmem s4 = pmem ?s3"
    "page_rc s4 = (page_rc ?s3)(page_idx ?p := page_rc ?s3 (page_idx ?p) - 1)"
    using page_put_shared [OF R3 p(1)] p(2) rc3(1) by auto
  have nt2: "t' \<noteq> ?p \<and> t' \<noteq> n" if "path q" "tab ?s2 root q = Some t'" for q t'
    using nt wf_treeD(2) [OF W] that F(2) [of q] by auto
  have m3: "pmem ?s3 (r + off) = pmem ?s2 (r + off)" if "off < 4096" "r = ?p \<or> r = n" for r off
    using nt2 al that by (intro L(2) not_in_tables [OF W2]) auto
  have "page_bytes s4 n = page_bytes s ?p" "page_bytes s4 ?p = page_bytes s ?p"
    using m3 cp(2) cp(1) pages_apart [OF al pn] unfolding s4(3) by (auto intro!: page_bytes_eqI simp: s4(3))
  moreover have "vm_inv ps fr s4 root"
    using vm_inv_pmem [OF L(1) s4(3,2)] wf_treeD(2) L(1) by (auto simp: vm_inv_def)
  moreover have "lookup s4 root va' = lookup ?s3 root va'" for va' by (rule load_cong_tables(4) [OF s4(3)])
  moreover have "page_get_ref_count s4 ?p = page_get_ref_count s ?p - 1" "page_get_ref_count s4 n = 1"
    using s4(4) rc3 ix by (simp_all add: page_get_ref_count_def)
  moreover have "vpage_handle_cow s root va = Ret (s4, 0)"
    using l t(3) l2 e(2) p(2) s1(1) s4(1) by (auto simp: vpage_handle_cow_def Let_def cow_pte_def)
  ultimately show ?thesis using look by auto
qed

section \<open>Failing halfway\<close>

text \<open>
  When the second table cannot be allocated, the first one is given back although the root still
  points to it.
\<close>

lemma map_fails_dangling:
  assumes I: "vm_inv ps [n] s root" and no: "tab s root [get_va_vpn va 2] = None"
  shows "\<exists>s'. vpage_map s root va pa flags = Ret (s', - ENOMEM) \<and> pages_rep ps s' [n] \<and>
    tab s' root [get_va_vpn va 2] = Some n"
proof -
  let ?v2 = "get_va_vpn va (Suc (Suc 0))" and ?v1 = "get_va_vpn va (Suc 0)"
  have lv: "LEVELS - 1 = Suc (Suc 0)" by (simp add: LEVELS_def)
  have p2: "path ([] @ [?v2])" "path ([?v2] @ [?v1])" "path [?v2]" "path [?v2, ?v1]" using path_vpns by simp_all
  have no': "tab s root [?v2] = None" "tab s root [?v2, ?v1] = None"
    using no tab_append [of s root "[?v2]" "[?v1]"] by (simp_all add: numeral_2_eq_2 split: if_splits)
  obtain s1 t1 us fr1 where w: "map_walk s root va (Suc (Suc 0)) [] = map_walk s1 t1 va (Suc 0) us" and fr: "[n] = us @ fr1"
    and I1: "vm_inv ps fr1 s1 root" and t1: "tab s1 root [?v2] = Some t1" and T: "takes ps us s s1 root"
    and us: "\<forall>u \<in> set us. ram_page ps u \<and> page_get_ref_count s1 u = 1"
    using map_walk_step [OF I tab.simps(1) p2(1), of "[]"] by auto
  have "t1 \<in> set us" using T t1 no'(1) p2(3) unfolding takes_def by fastforce
  then have us1: "us = [n]" "fr1 = []" "t1 = n" using fr by (cases us; auto)+
  have W1: "wf_tree {} s1 root" using I1 us1(2) by (simp add: vm_inv_def)
  obtain s2 where w2: "map_walk s1 n va (Suc 0) [n] = (s2, Inl [n])" and a: "page_alloc s1 = (s2, None)"
    using map_walk_step [OF I1 t1 p2(2), of us]
  proof (elim disjE exE conjE)
    fix s2 assume "map_walk s1 t1 va (Suc 0) us = (s2, Inl us)" "page_alloc s1 = (s2, None)"
    then show ?thesis using that us1 by simp
  next
    fix s2 t us2 fr2
    assume f: "fr1 = us2 @ fr2" and t: "tab s2 root ([?v2] @ [?v1]) = Some t" and T2: "takes ps us2 s1 s2 root"
    then have "tab s1 root [?v2, ?v1] = Some t" using us1 p2(4) unfolding takes_def by fastforce
    moreover from this have "t = n" using T us1 no'(2) p2(4) unfolding takes_def by fastforce
    ultimately show ?thesis using wf_treeD(3) [OF W1 p2(3) t1 p2(4)] us1 by simp
  qed
  have R1: "pages_rep ps s1 []" using I1 us1(2) by (simp add: vm_inv_def)
  obtain h where s2: "s2 = s1\<lparr>pnodes := h\<rparr>" "pages_rep ps s2 []" using page_alloc_none [OF R1] a by auto
  have "ram_page ps n" "page_get_ref_count s2 n = 1" using us us1 s2(1) by (auto simp: page_get_ref_count_def)
  then obtain s3 where s3: "page_put s2 n = Ret s3" "pages_rep ps s3 [n]" "pmem s3 = pmem s2" using page_put_last [OF s2(2)] by blast
  have "tab s3 root [?v2] = Some n" using load_cong_tables(3) [of s3 s1 root "[?v2]"] t1 us1 s2(1) s3(3) by simp
  moreover have "vpage_map s root va pa flags = Ret (s3, - ENOMEM)"
    unfolding vpage_map_def lv using w w2 us1 s3(1) by (simp del: map_walk.simps)
  ultimately show ?thesis using s3(2) unfolding numeral_2_eq_2 by blast
qed

section \<open>Empty trees\<close>

lemma new_root_inv:
  assumes "pages_rep ps s (n # fr)"
  shows "\<exists>s'. page_alloc s = (s', Some n) \<and> vm_inv ps fr s' n \<and> (\<forall>va. lookup s' n va = None) \<and>
    (\<forall>q t. path q \<longrightarrow> tab s' n q = Some t \<longrightarrow> q = [] \<and> t = n) \<and>
    (\<forall>p. ram_page ps p \<longrightarrow> p \<noteq> n \<longrightarrow> page_get_ref_count s' p = page_get_ref_count s p)"
proof -
  obtain s1 where s1: "page_alloc s = (s1, Some n)" "pages_rep ps s1 fr" "ram_page ps n" "pmem s1 = page_zero (pmem s) n"
    "page_rc s1 = (page_rc s)(page_idx n := 1)" using page_alloc_some [OF assms] by blast
  have n: "page_aligned n" "n \<notin> set fr" using s1(3) pages_rep_distinct [OF assms] by (simp_all add: ram_page_def)
  have E: "entry s1 n i = 0" if "i < 512" for i by (rule entry_zero_page [OF n(1) that s1(4)])
  have T: "tab s1 n q = (if q = [] then Some n else None)" if "path q" for q
    using that E by (cases q) (auto simp: path_def points_def has_def)
  have "wf_tree (set fr) s1 n" unfolding wf_tree_def using n E T by (auto simp: path_snoc has_def split: if_splits)
  moreover have "lookup s1 n va = None" for va by (simp add: lookup_def T [OF path_vpns(3)] del: tab.simps)
  moreover have "page_get_ref_count s1 p = page_get_ref_count s p" if "ram_page ps p" "p \<noteq> n" for p
    using page_idx_inj [OF _ that(1) s1(3)] that(2) assms s1(5) by (auto simp: pages_rep_def page_get_ref_count_def)
  ultimately show ?thesis using s1(1,2) T by (auto simp: vm_inv_def split: if_splits)
qed

section \<open>Properties\<close>

text \<open>
  C9: Mapping a page in a well-formed tree of tables returns 0 or \<^verbatim>\<open>-ENOMEM\<close>, and 0 whenever two pages are
  free.  After it returned 0, the tree is well formed, with at most two new tables taken from the
  front of the free list; the page of the address translates to the given physical page with the
  accessed, dirty and valid bits added, every other address translates as before, and no byte
  outside the tables changed.
\<close>

theorem vpage_map_maps:
  assumes "vm_inv ps fr s root" and "flags < 1024" and "\<not> is_a_next_lvl_ptr flags"
  shows "\<exists>s' res. vpage_map s root va pa flags = Ret (s', res) \<and> (res = 0 \<or> res = - ENOMEM) \<and>
    (2 \<le> length fr \<longrightarrow> res = 0) \<and>
    (res = 0 \<longrightarrow> (\<exists>us fr'. fr = us @ fr' \<and> length us \<le> 2 \<and> vm_inv ps fr' s' root) \<and>
      (\<forall>va'. lookup s' root va' = (if same_vpn va' va then Some (mk_pte pa (leaf_flags flags)) else lookup s root va')) \<and>
      (\<forall>a. \<not> in_tables s' root a \<longrightarrow> pmem s' a = pmem s a))"
  using vpage_map_correct [OF assms, of va pa] by blast

text \<open>A machine with four free pages, the last of which becomes an empty root table.\<close>

lemma put_list:
  assumes "pages_rep ps s fr" and "distinct us" and "\<forall>u \<in> set us. ram_page ps u \<and> page_get_ref_count s u = 1"
  shows "\<exists>s'. fold_out page_put us s = Ret s' \<and> pages_rep ps s' (rev us @ fr) \<and>
    (\<forall>p. ram_page ps p \<longrightarrow> p \<notin> set us \<longrightarrow> page_get_ref_count s' p = page_get_ref_count s p)"
  using assms
proof (induction us arbitrary: s fr)
  case (Cons u us)
  then obtain s1 where s1: "page_put s u = Ret s1" "pages_rep ps s1 (u # fr)" "page_rc s1 = (page_rc s)(page_idx u := 0)"
    using page_put_last [OF Cons.prems(1), of u] by auto
  have o: "page_get_ref_count s1 p = page_get_ref_count s p" if "ram_page ps p" "p \<noteq> u" for p
    using page_idx_inj [of ps p u] that Cons.prems(1,3) s1(3) by (auto simp: pages_rep_def page_get_ref_count_def)
  then show ?case using Cons.IH [OF s1(2)] Cons.prems(2,3) s1(1) by fastforce
qed simp

definition vm_phys :: phys where
  "vm_phys = fst (page_alloc (ret_val (fold_out page_put [0x80400000, 0x80401000, 0x80402000, 0x80403000]
    (page_get full_phys 0x80404000))))"

lemma vm_phys_inv:
  "vm_inv 0x80400000 [0x80402000, 0x80401000, 0x80400000] vm_phys 0x80403000" "lookup vm_phys 0x80403000 va = None"
  "path q \<Longrightarrow> tab vm_phys 0x80403000 q = Some t \<Longrightarrow> q = [] \<and> t = 0x80403000"
  "page_get_ref_count vm_phys 0x80404000 = 2"
proof -
  let ?us = "[0x80400000, 0x80401000, 0x80402000, 0x80403000] :: u64 list"
  have ok: "page_start_ok 0x80400000" by (simp add: page_start_ok_def layout_defs)
  have p: "ram_page 0x80400000 0x80404000" by (simp add: ram_page_def layout_defs)
  note F = full_phys_rep [OF ok]
  have "page_get_ref_count full_phys 0x80404000 = 1" by (simp add: full_phys_def page_get_ref_count_def)
  then have "pages_rep 0x80400000 (page_get full_phys 0x80404000) []"
    using F by (auto simp: pages_rep_def page_get_def page_get_ref_count_def full_phys_def)
  moreover have "\<forall>u \<in> set ?us. ram_page 0x80400000 u \<and> page_get_ref_count (page_get full_phys 0x80404000) u = 1"
    by (simp add: ram_page_def layout_defs page_get_ref_count_def page_get_def full_phys_def page_idx_def)
  moreover have "distinct ?us" by simp
  ultimately obtain s where s: "fold_out page_put ?us (page_get full_phys 0x80404000) = Ret s" "pages_rep 0x80400000 s (rev ?us)"
    "page_get_ref_count s 0x80404000 = page_get_ref_count (page_get full_phys 0x80404000) 0x80404000"
    using put_list [of "0x80400000" _ "[]" ?us] p by fastforce
  have "page_get_ref_count s 0x80404000 = 2"
    unfolding s(3) by (simp add: page_get_ref_count_def page_get_def full_phys_def)
  then show "vm_inv 0x80400000 [0x80402000, 0x80401000, 0x80400000] vm_phys 0x80403000" "lookup vm_phys 0x80403000 va = None"
    "path q \<Longrightarrow> tab vm_phys 0x80403000 q = Some t \<Longrightarrow> q = [] \<and> t = 0x80403000"
    "page_get_ref_count vm_phys 0x80404000 = 2"
    using new_root_inv [of "0x80400000" s "0x80403000" "[0x80402000, 0x80401000, 0x80400000]"] s(1,2) p by (auto simp: vm_phys_def simp del: fold_out.simps)
qed

theorem vpage_map_maps_witness:
  "\<exists>s'. vpage_map vm_phys 0x80403000 0x1000 0x80404000 (PTE_R OR PTE_U) = Ret (s', 0) \<and>
    lookup s' 0x80403000 0x1000 = Some (mk_pte 0x80404000 (leaf_flags (PTE_R OR PTE_U)))"
proof -
  have f: "PTE_R OR PTE_U < 1024" "\<not> is_a_next_lvl_ptr (PTE_R OR PTE_U)"
    by (simp_all add: is_a_next_lvl_ptr_def has_def layout_defs)
  have "same_vpn 0x1000 0x1000" by (simp add: same_vpn_def)
  then show ?thesis using vpage_map_maps [OF vm_phys_inv(1) f, of "0x1000" "0x80404000"] by auto
qed

text \<open>
  C19: Mapping a range of the Sv39 space with two free pages for each of its pages ends and returns
  0.  Then the \<open>i\<close>-th page of the range translates to the \<open>i\<close>-th page of the physical range, and every
  address outside the range translates as before.
\<close>

theorem vpage_map_range_maps:
  assumes "vm_inv ps fr s root" and "flags < 1024" and "\<not> is_a_next_lvl_ptr flags"
    and "k = (unat sz + 4095) div 4096" and "2 * k \<le> length fr" and "unat va + 4096 * k \<le> 2 ^ 39"
  shows "\<exists>s'. vpage_map_range s root va pa sz flags = Some (Ret (s', 0)) \<and>
    (\<forall>i < k. lookup s' root (va + word_of_nat (4096 * i)) = Some (mk_pte (pa + word_of_nat (4096 * i)) (leaf_flags flags))) \<and>
    (\<forall>va'. (\<forall>i < k. \<not> same_vpn va' (va + word_of_nat (4096 * i))) \<longrightarrow> lookup s' root va' = lookup s root va') \<and>
    (\<exists>fr'. vm_inv ps fr' s' root)"
proof -
  let ?ms = "range_pages va pa 0 k"
  have len: "length ?ms = k" by (simp add: range_pages_def)
  have room: "vm_room ps root s (2 * length ?ms + 0) \<and> user_flags flags"
    using assms(1-3,5) len by (auto simp: vm_room_def user_flags_def)
  obtain s' where s': "foldl (\<lambda>r m. Option.bind r (\<lambda>s. map_step root flags s m)) (Some s) ?ms = Some s'" "vm_room ps root s' 0"
    "\<And>b. lookup s' root b = (case find (\<lambda>(a, p). same_vpn b a) (rev ?ms) of
       Some (a, p) \<Rightarrow> Some (mk_pte p (leaf_flags flags)) | None \<Rightarrow> lookup s root b)"
    using vt.steps_ok [OF room] by blast
  have each: "lookup s' root (fst (?ms ! i)) = Some (mk_pte (snd (?ms ! i)) (leaf_flags flags))" if "i < k" for i
    using vt.steps_each [OF room, of i] range_pages_sep [OF assms(6) that, of _ pa] s'(1) that len by auto
  have "lookup s' root va' = lookup s root va'" if "\<forall>i < k. \<not> same_vpn va' (va + word_of_nat (4096 * i))" for va'
  proof -
    have "find (\<lambda>(a, p). same_vpn va' a) (rev ?ms) = None"
      using that by (auto simp: find_None_iff range_pages_def)
    then show ?thesis using s'(3) by simp
  qed
  moreover have "vpage_map_range s root va pa sz flags = Some (Ret (s', 0))"
    unfolding vpage_map_range_def using assms(4,6) by (intro map_range_loop_steps [OF _ _ _ s'(1)]) auto
  moreover have "\<exists>fr'. vm_inv ps fr' s' root" using s'(2) by (auto simp: vm_room_def)
  moreover have "lookup s' root (va + word_of_nat (4096 * i)) = Some (mk_pte (pa + word_of_nat (4096 * i)) (leaf_flags flags))" if "i < k" for i
    using each [OF that] that by (simp add: range_pages_def)
  ultimately show ?thesis by blast
qed

theorem vpage_map_range_maps_witness:
  "\<exists>s'. vpage_map_range vm_phys 0x80403000 0x1000 0x80404000 0x800 (PTE_R OR PTE_U) = Some (Ret (s', 0)) \<and>
    lookup s' 0x80403000 0x1000 = Some (mk_pte 0x80404000 (leaf_flags (PTE_R OR PTE_U)))"
proof -
  have f: "PTE_R OR PTE_U < 1024" "\<not> is_a_next_lvl_ptr (PTE_R OR PTE_U)"
    by (simp_all add: is_a_next_lvl_ptr_def has_def layout_defs)
  show ?thesis
    using vpage_map_range_maps [OF vm_phys_inv(1) f, of 1 "0x800" "0x1000" "0x80404000"] by fastforce
qed

text \<open>
  C21: Unmapping a mapped page drops one reference on the physical page and removes the
  translation of this page and of no other address; the tree stays well formed.
\<close>

theorem vpage_unmmap_unmaps:
  assumes "vm_inv ps fr s root" and "lookup s root va = Some e"
    and "ram_page ps (get_next_lvl_pte e)" and "page_get_ref_count s (get_next_lvl_pte e) \<noteq> 0"
    and "\<forall>q t. path q \<longrightarrow> tab s root q = Some t \<longrightarrow> t \<noteq> get_next_lvl_pte e"
  shows "\<exists>s' fr'. vpage_unmmap s root va = Ret (s', 0) \<and> vm_inv ps fr' s' root \<and>
    (\<forall>va'. lookup s' root va' = (if same_vpn va' va then None else lookup s root va')) \<and>
    page_get_ref_count s' (get_next_lvl_pte e) = page_get_ref_count s (get_next_lvl_pte e) - 1"
  using vpage_unmap_correct [OF assms(1-4)] assms(5) by blast

text \<open>The machine of before with a page held twice that is mapped for copying on write.\<close>

definition cow_flags :: u64 where
  "cow_flags = PTE_R OR PTE_U OR PTE_COW"

definition cow_phys :: phys where
  "cow_phys = fst (ret_val (vpage_map vm_phys 0x80403000 0x1000 0x80404000 cow_flags))"

lemma cow_phys_inv:
  "\<exists>n fr. vm_inv 0x80400000 (n # fr) cow_phys 0x80403000"
  "lookup cow_phys 0x80403000 0x1000 = Some (mk_pte 0x80404000 (leaf_flags cow_flags))"
  "path q \<Longrightarrow> tab cow_phys 0x80403000 q = Some t \<Longrightarrow> t \<noteq> 0x80404000"
  "page_get_ref_count cow_phys 0x80404000 = 2"
proof -
  have f: "cow_flags < 1024" "\<not> is_a_next_lvl_ptr cow_flags"
    by (simp_all add: cow_flags_def is_a_next_lvl_ptr_def has_def layout_defs)
  obtain us fr' where m: "[0x80402000, 0x80401000, 0x80400000] = us @ fr'" "length us \<le> 2"
    "vm_inv 0x80400000 fr' cow_phys 0x80403000" "takes 0x80400000 us vm_phys cow_phys 0x80403000"
    "lookup cow_phys 0x80403000 0x1000 = Some (mk_pte 0x80404000 (leaf_flags cow_flags))"
    using vpage_map_correct [OF vm_phys_inv(1) f, of "0x1000" "0x80404000"] same_vpn_def by (auto simp: cow_phys_def)
  then have sub: "set us \<subseteq> {0x80402000, 0x80401000, 0x80400000}" by (metis list.set(1,2) set_append Un_upper1)
  have ns: "0x80404000 \<notin> set us" using sub by auto
  have p: "ram_page 0x80400000 0x80404000" by (simp add: ram_page_def layout_defs)
  show "lookup cow_phys 0x80403000 0x1000 = Some (mk_pte 0x80404000 (leaf_flags cow_flags))" by (rule m(5))
  show "path q \<Longrightarrow> tab cow_phys 0x80403000 q = Some t \<Longrightarrow> t \<noteq> 0x80404000"
    using m(4) sub vm_phys_inv(3) unfolding takes_def by fastforce
  show "page_get_ref_count cow_phys 0x80404000 = 2"
    using m(4) ns p vm_phys_inv(4) unfolding takes_def by auto
  show "\<exists>n fr. vm_inv 0x80400000 (n # fr) cow_phys 0x80403000"
    using m(1-3) by (cases fr') auto
qed

lemma cow_phys_page:
  "get_next_lvl_pte (mk_pte 0x80404000 (leaf_flags cow_flags)) = 0x80404000" "ram_page 0x80400000 0x80404000"
  "has (mk_pte 0x80404000 (leaf_flags cow_flags)) PTE_COW"
  by (auto simp: cow_flags_def leaf_flags_def Let_def has_def mk_pte_def page_get_num_def get_next_lvl_pte_def ram_page_def layout_defs)

theorem vpage_unmmap_unmaps_witness:
  "\<exists>s'. vpage_unmmap cow_phys 0x80403000 0x1000 = Ret (s', 0) \<and> lookup s' 0x80403000 0x1000 = None \<and>
    page_get_ref_count s' 0x80404000 = 1"
proof -
  obtain fr where I: "vm_inv 0x80400000 fr cow_phys 0x80403000" using cow_phys_inv(1) by blast
  have "same_vpn 0x1000 0x1000" by (simp add: same_vpn_def)
  then show ?thesis
    using vpage_unmmap_unmaps [OF I cow_phys_inv(2)] cow_phys_inv(3,4) cow_phys_page by fastforce
qed

text \<open>
  C14: The first write to a page that is shared for copying on write gives the writer a page of its
  own: the address then translates to a fresh page, writable and no longer marked, that holds the
  bytes of the shared page and one reference.  The shared page keeps its bytes and loses one
  reference, and all other addresses translate as before.
\<close>

theorem vpage_handle_cow_copies:
  assumes "vm_inv ps (n # fr) s root" and "lookup s root va = Some e" and "has e PTE_COW"
    and "ram_page ps (get_next_lvl_pte e)" and "1 < page_get_ref_count s (get_next_lvl_pte e)"
    and "\<forall>q t. path q \<longrightarrow> tab s root q = Some t \<longrightarrow> t \<noteq> get_next_lvl_pte e"
  shows "\<exists>s' e'. vpage_handle_cow s root va = Ret (s', 0) \<and> vm_inv ps fr s' root \<and>
    get_next_lvl_pte e' = n \<and> has e' PTE_W \<and> \<not> has e' PTE_COW \<and>
    (\<forall>va'. lookup s' root va' = (if same_vpn va' va then Some e' else lookup s root va')) \<and>
    page_bytes s' n = page_bytes s (get_next_lvl_pte e) \<and>
    page_bytes s' (get_next_lvl_pte e) = page_bytes s (get_next_lvl_pte e) \<and>
    page_get_ref_count s' (get_next_lvl_pte e) = page_get_ref_count s (get_next_lvl_pte e) - 1 \<and>
    page_get_ref_count s' n = 1"
proof -
  have V: "has e PTE_V" using assms(2) by (auto simp: lookup_def Let_def simp del: tab.simps split: option.splits if_splits)
  have n: "page_aligned n" using assms(1) by (auto simp: vm_inv_def pages_rep_def ram_page_def)
  show ?thesis
    using cow_copy [OF assms(1-5)] assms(6) cow_pte_leaf(3,4) [OF V, of n] cow_pte_leaf(5) [OF V n] by blast
qed

theorem vpage_handle_cow_copies_witness:
  "\<exists>s' e'. vpage_handle_cow cow_phys 0x80403000 0x1000 = Ret (s', 0) \<and> lookup s' 0x80403000 0x1000 = Some e' \<and>
    has e' PTE_W \<and> page_get_ref_count s' 0x80404000 = 1"
proof -
  obtain n fr where I: "vm_inv 0x80400000 (n # fr) cow_phys 0x80403000" using cow_phys_inv(1) by blast
  have "same_vpn 0x1000 0x1000" by (simp add: same_vpn_def)
  then show ?thesis
    using vpage_handle_cow_copies [OF I cow_phys_inv(2) cow_phys_page(3)] cow_phys_inv(3,4) cow_phys_page by fastforce
qed

text \<open>
  C25: When \<^verbatim>\<open>vpage_map\<close> can allocate the first missing table but not the second, it returns \<^verbatim>\<open>-ENOMEM\<close>
  with the first table back on the free list, while the root table still holds a valid pointer to it.
\<close>

theorem vpage_map_fails_dangling:
  assumes "vm_inv ps [n] s root" and "tab s root [get_va_vpn va 2] = None"
  shows "\<exists>s'. vpage_map s root va pa flags = Ret (s', - ENOMEM) \<and> pages_rep ps s' [n] \<and>
    tab s' root [get_va_vpn va 2] = Some n \<and> \<not> vm_inv ps [n] s' root"
proof -
  obtain s' where s': "vpage_map s root va pa flags = Ret (s', - ENOMEM)" "pages_rep ps s' [n]"
    "tab s' root [get_va_vpn va 2] = Some n" using map_fails_dangling [OF assms] by blast
  then have "\<not> vm_inv ps [n] s' root" using wf_treeD(2) [of "{n}" s' root] path_vpns(2) [of va 2] by (auto simp: vm_inv_def simp del: tab.simps)
  then show ?thesis using s' by blast
qed

definition low_phys :: phys where
  "low_phys = fst (page_alloc (ret_val (fold_out page_put [0x80400000, 0x80401000] full_phys)))"

theorem vpage_map_fails_dangling_witness:
  "\<exists>s'. vpage_map low_phys 0x80401000 0x1000 0x80402000 PTE_R = Ret (s', - ENOMEM) \<and>
    tab s' 0x80401000 [get_va_vpn 0x1000 2] = Some 0x80400000 \<and> pages_rep 0x80400000 s' [0x80400000]"
proof -
  let ?us = "[0x80400000, 0x80401000] :: u64 list"
  have ok: "page_start_ok 0x80400000" by (simp add: page_start_ok_def layout_defs)
  have "\<forall>u \<in> set ?us. ram_page 0x80400000 u \<and> page_get_ref_count full_phys u = 1"
    by (simp add: ram_page_def layout_defs page_get_ref_count_def full_phys_def)
  then obtain s where s: "fold_out page_put ?us full_phys = Ret s" "pages_rep 0x80400000 s [0x80401000, 0x80400000]"
    using put_list [OF full_phys_rep [OF ok], of ?us] by auto
  have I: "vm_inv 0x80400000 [0x80400000] low_phys 0x80401000" and T: "\<And>q t. path q \<Longrightarrow> tab low_phys 0x80401000 q = Some t \<Longrightarrow> q = []"
    using new_root_inv [OF s(2)] s(1) by (auto simp: low_phys_def simp del: fold_out.simps)
  have "tab low_phys 0x80401000 [get_va_vpn 0x1000 2] = None"
    using T [OF path_vpns(2)] by (cases "tab low_phys 0x80401000 [get_va_vpn 0x1000 2]") (auto simp del: tab.simps)
  from vpage_map_fails_dangling [OF I this] show ?thesis by blast
qed

end
