(* ===== verification/Bcache.thy ===== *)
theory Bcache
  imports Prelude Bitmap
begin

text \<open>
  The block cache of \<^verbatim>\<open>kernel/core/fs/bcache.c\<close> and the layout constants of
  \<^verbatim>\<open>include/kernel/fs_layout.h\<close> it uses.  The state is the one of a task that runs file system code:
  a buffer's mutex is its \<^verbatim>\<open>locked\<close> flag, and taking a mutex that is held is the outcome \<open>Wait\<close>.  The list
  \<^verbatim>\<open>buf_list\<close> is the list of the slots it links.  A section between \<^verbatim>\<open>spinlock_lock\<close> and
  \<^verbatim>\<open>spinlock_unlock\<close> runs without interruption on the single hart, so these calls leave no trace in
  this state.  The disk maps the first sector of a block to its bytes; \<open>io_err\<close> tells on which
  sectors the device refuses a request.
\<close>

section \<open>State\<close>

definition FS_BLK_SIZE :: nat where [layout_defs]: "FS_BLK_SIZE = 4096"
definition VIRTIO_BLK_SIZE :: nat where [layout_defs]: "VIRTIO_BLK_SIZE = 512"
definition NBUF :: nat where [layout_defs]: "NBUF = 64"
definition UINT32_MAX :: u32 where "UINT32_MAX = - 1"

definition CBLK_FLAGS_DIRTY :: u8 where "CBLK_FLAGS_DIRTY = 1"
definition CBLK_FLAGS_VALID :: u8 where "CBLK_FLAGS_VALID = 2"

record cblk =
  blkno :: u32
  refcnt :: u32
  locked :: bool
  flags :: u8
  buf :: "u8 list"

record bsys =
  disk :: "u64 \<Rightarrow> u8 list"
  io_err :: "u64 \<Rightarrow> bool"
  bufs :: "nat \<Rightarrow> cblk"
  buf_list :: "nat list"

definition upd_blk :: "nat \<Rightarrow> (cblk \<Rightarrow> cblk) \<Rightarrow> 'a bsys_scheme \<Rightarrow> 'a bsys_scheme" where
  "upd_blk i f s = s\<lparr>bufs := (bufs s)(i := f (bufs s i))\<rparr>"

section \<open>Operations\<close>

definition get_sector :: "u32 \<Rightarrow> u64" where
  "get_sector b = scast (b * word_of_nat (FS_BLK_SIZE div VIRTIO_BLK_SIZE))"

definition is_dirty_locked :: "cblk \<Rightarrow> bool" where
  "is_dirty_locked b \<longleftrightarrow> flags b AND CBLK_FLAGS_DIRTY \<noteq> 0"

definition is_valid_locked :: "cblk \<Rightarrow> bool" where
  "is_valid_locked b \<longleftrightarrow> flags b AND CBLK_FLAGS_VALID \<noteq> 0"

definition set_dirty_locked :: "cblk \<Rightarrow> cblk" where
  "set_dirty_locked b = b\<lparr>flags := flags b OR CBLK_FLAGS_DIRTY\<rparr>"

definition clear_dirty_locked :: "cblk \<Rightarrow> cblk" where
  "clear_dirty_locked b = b\<lparr>flags := flags b AND NOT CBLK_FLAGS_DIRTY\<rparr>"

definition set_valid_locked :: "cblk \<Rightarrow> cblk" where
  "set_valid_locked b = b\<lparr>flags := flags b OR CBLK_FLAGS_VALID\<rparr>"

definition clear_valid_locked :: "cblk \<Rightarrow> cblk" where
  "clear_valid_locked b = b\<lparr>flags := flags b AND NOT CBLK_FLAGS_VALID\<rparr>"

definition bcache_init :: "'a bsys_scheme \<Rightarrow> 'a bsys_scheme" where
  "bcache_init s =
    fold (\<lambda>i s. (upd_blk i (\<lambda>b. b\<lparr>blkno := UINT32_MAX, locked := False\<rparr>) s)\<lparr>buf_list := i # buf_list s\<rparr>) [0..<NBUF] s"

text \<open>\<^verbatim>\<open>clist_find\<close> from the most recently used end, \<^verbatim>\<open>clist_find_rev\<close> from the other one.\<close>

definition cache_request_locked :: "'a bsys_scheme \<Rightarrow> u32 \<Rightarrow> nat option" where
  "cache_request_locked s n = find (\<lambda>i. blkno (bufs s i) = n) (buf_list s)"

definition find_reusable_locked :: "'a bsys_scheme \<Rightarrow> nat option" where
  "find_reusable_locked s = find (\<lambda>i. refcnt (bufs s i) = 0 \<and> \<not> is_dirty_locked (bufs s i)) (rev (buf_list s))"

definition bcache_invalidate :: "'a bsys_scheme \<Rightarrow> u32 \<Rightarrow> 'a bsys_scheme" where
  "bcache_invalidate s n =
    (case cache_request_locked s n of
       None \<Rightarrow> s
     | Some i \<Rightarrow> upd_blk i (\<lambda>b. (clear_valid_locked (clear_dirty_locked b))\<lparr>blkno := UINT32_MAX\<rparr>) s)"

definition lock_blk :: "'a bsys_scheme \<Rightarrow> nat \<Rightarrow> (nat \<times> 'a bsys_scheme) outcome" where
  "lock_blk s i = (if locked (bufs s i) then Wait else Ret (i, upd_blk i (\<lambda>b. b\<lparr>locked := True\<rparr>) s))"

definition bcache_getblk :: "'a bsys_scheme \<Rightarrow> u32 \<Rightarrow> (nat \<times> 'a bsys_scheme) outcome" where
  "bcache_getblk s n =
    (case cache_request_locked s n of
       Some i \<Rightarrow> lock_blk (upd_blk i (\<lambda>b. b\<lparr>refcnt := refcnt b + 1\<rparr>) s) i
     | None \<Rightarrow>
         (case find_reusable_locked s of
            None \<Rightarrow> Panic
          | Some i \<Rightarrow>
              (let s1 = upd_blk i (\<lambda>b. clear_valid_locked (b\<lparr>blkno := n\<rparr>)) s
               in lock_blk (upd_blk i (\<lambda>b. b\<lparr>refcnt := refcnt b + 1\<rparr>) s1) i)))"

definition bcache_release :: "'a bsys_scheme \<Rightarrow> nat \<Rightarrow> 'a bsys_scheme" where
  "bcache_release s i =
    (let s1 = upd_blk i (\<lambda>b. b\<lparr>locked := False\<rparr>) s;
         s2 = upd_blk i (\<lambda>b. b\<lparr>refcnt := refcnt b - 1\<rparr>) s1
     in s2\<lparr>buf_list := i # remove1 i (buf_list s2)\<rparr>)"

definition bcache_read :: "'a bsys_scheme \<Rightarrow> u32 \<Rightarrow> (nat option \<times> 'a bsys_scheme) outcome" where
  "bcache_read s n =
    bind_out (bcache_getblk s n) (\<lambda>(i, s1).
      if is_valid_locked (bufs s1 i) then Ret (Some i, s1)
      else if io_err s1 (get_sector n) then Ret (None, bcache_release s1 i)
      else Ret (Some i, upd_blk i (\<lambda>b. set_valid_locked (b\<lparr>buf := disk s1 (get_sector n)\<rparr>)) s1))"

definition bcache_mark_dirty :: "'a bsys_scheme \<Rightarrow> nat \<Rightarrow> 'a bsys_scheme" where
  "bcache_mark_dirty s i = upd_blk i set_dirty_locked s"

definition bcache_sync :: "'a bsys_scheme \<Rightarrow> nat \<Rightarrow> int \<times> 'a bsys_scheme" where
  "bcache_sync s i =
    (if \<not> is_dirty_locked (bufs s i) then (0, s)
     else let sec = get_sector (blkno (bufs s i)) in
       if io_err s sec then (- EIO, s)
       else (0, upd_blk i clear_dirty_locked (s\<lparr>disk := (disk s)(sec := buf (bufs s i))\<rparr>)))"

section \<open>Flags and slots\<close>

lemma dirty_bit: "is_dirty_locked b \<longleftrightarrow> bit (flags b) 0"
  by (simp add: is_dirty_locked_def CBLK_FLAGS_DIRTY_def bit_iff_and_push_bit_not_eq_0)

lemma valid_bit: "is_valid_locked b \<longleftrightarrow> bit (flags b) 1"
  by (simp add: is_valid_locked_def CBLK_FLAGS_VALID_def bit_iff_and_push_bit_not_eq_0)

lemma flag_simps [simp]:
  "is_dirty_locked (set_dirty_locked b)" "is_valid_locked (set_dirty_locked b) = is_valid_locked b"
  "\<not> is_dirty_locked (clear_dirty_locked b)" "is_valid_locked (clear_dirty_locked b) = is_valid_locked b"
  "is_valid_locked (set_valid_locked b)" "is_dirty_locked (set_valid_locked b) = is_dirty_locked b"
  "\<not> is_valid_locked (clear_valid_locked b)" "is_dirty_locked (clear_valid_locked b) = is_dirty_locked b"
  unfolding dirty_bit valid_bit
  by (simp_all add: set_dirty_locked_def clear_dirty_locked_def set_valid_locked_def clear_valid_locked_def
      CBLK_FLAGS_DIRTY_def CBLK_FLAGS_VALID_def bit_or_iff bit_and_iff)

lemma flag_fields [simp]:
  "blkno (set_dirty_locked b) = blkno b" "refcnt (set_dirty_locked b) = refcnt b" "locked (set_dirty_locked b) = locked b" "buf (set_dirty_locked b) = buf b"
  "blkno (clear_dirty_locked b) = blkno b" "refcnt (clear_dirty_locked b) = refcnt b" "locked (clear_dirty_locked b) = locked b" "buf (clear_dirty_locked b) = buf b"
  "blkno (set_valid_locked b) = blkno b" "refcnt (set_valid_locked b) = refcnt b" "locked (set_valid_locked b) = locked b" "buf (set_valid_locked b) = buf b"
  "blkno (clear_valid_locked b) = blkno b" "refcnt (clear_valid_locked b) = refcnt b" "locked (clear_valid_locked b) = locked b" "buf (clear_valid_locked b) = buf b"
  by (simp_all add: set_dirty_locked_def clear_dirty_locked_def set_valid_locked_def clear_valid_locked_def)

lemma field_flags [simp]:
  "is_dirty_locked (b\<lparr>blkno := x\<rparr>) = is_dirty_locked b" "is_valid_locked (b\<lparr>blkno := x\<rparr>) = is_valid_locked b"
  "is_dirty_locked (b\<lparr>refcnt := y\<rparr>) = is_dirty_locked b" "is_valid_locked (b\<lparr>refcnt := y\<rparr>) = is_valid_locked b"
  "is_dirty_locked (b\<lparr>locked := z\<rparr>) = is_dirty_locked b" "is_valid_locked (b\<lparr>locked := z\<rparr>) = is_valid_locked b"
  "is_dirty_locked (b\<lparr>buf := v\<rparr>) = is_dirty_locked b" "is_valid_locked (b\<lparr>buf := v\<rparr>) = is_valid_locked b"
  by (simp_all add: is_dirty_locked_def is_valid_locked_def)

lemma upd_blk_sel [simp]:
  "bufs (upd_blk i f s) = (bufs s)(i := f (bufs s i))" "buf_list (upd_blk i f s) = buf_list s"
  "disk (upd_blk i f s) = disk s" "io_err (upd_blk i f s) = io_err s" "bsys.more (upd_blk i f s) = bsys.more s"
  by (simp_all add: upd_blk_def)

section \<open>The invariant and what the cache stands for\<close>

definition good_no :: "u32 \<Rightarrow> bool" where
  "good_no n \<longleftrightarrow> n < 2 ^ 28"

text \<open>
  The slots are linked once, hold distinct blocks, and a valid buffer that is not dirty equals the
  disk.  A buffer counts one reference while its mutex is held and none otherwise.
\<close>

definition bc_inv :: "'a bsys_scheme \<Rightarrow> bool" where
  "bc_inv s \<longleftrightarrow> distinct (buf_list s) \<and> set (buf_list s) = {..<NBUF} \<and>
    (\<forall>i < NBUF. \<forall>j < NBUF. blkno (bufs s i) = blkno (bufs s j) \<longrightarrow> blkno (bufs s i) = UINT32_MAX \<or> i = j) \<and>
    (\<forall>i < NBUF. blkno (bufs s i) = UINT32_MAX \<and> \<not> is_valid_locked (bufs s i) \<and> \<not> is_dirty_locked (bufs s i) \<or> good_no (blkno (bufs s i))) \<and>
    (\<forall>i < NBUF. is_valid_locked (bufs s i) \<longrightarrow> length (buf (bufs s i)) = FS_BLK_SIZE) \<and>
    (\<forall>i < NBUF. is_dirty_locked (bufs s i) \<longrightarrow> is_valid_locked (bufs s i)) \<and>
    (\<forall>i < NBUF. is_valid_locked (bufs s i) \<longrightarrow> \<not> is_dirty_locked (bufs s i) \<longrightarrow> buf (bufs s i) = disk s (get_sector (blkno (bufs s i)))) \<and>
    (\<forall>i < NBUF. refcnt (bufs s i) = (if locked (bufs s i) then 1 else 0)) \<and>
    (\<forall>x. length (disk s x) = FS_BLK_SIZE)"

text \<open>The contents a reader of a block gets.\<close>

definition view :: "'a bsys_scheme \<Rightarrow> u32 \<Rightarrow> u8 list" where
  "view s n =
    (case cache_request_locked s n of
       Some i \<Rightarrow> if is_valid_locked (bufs s i) then buf (bufs s i) else disk s (get_sector n)
     | None \<Rightarrow> disk s (get_sector n))"

definition held :: "'a bsys_scheme \<Rightarrow> u32 set" where
  "held s = {blkno (bufs s i) | i. i < NBUF \<and> locked (bufs s i)}"

definition reusable :: "'a bsys_scheme \<Rightarrow> nat set" where
  "reusable s = {i. i < NBUF \<and> refcnt (bufs s i) = 0 \<and> \<not> is_dirty_locked (bufs s i)}"

definition holds :: "'a bsys_scheme \<Rightarrow> nat \<Rightarrow> u32 \<Rightarrow> bool" where
  "holds s i n \<longleftrightarrow> i < NBUF \<and> blkno (bufs s i) = n \<and> locked (bufs s i) \<and> is_valid_locked (bufs s i)"

definition dirty_blks :: "'a bsys_scheme \<Rightarrow> u32 set" where
  "dirty_blks s = {blkno (bufs s i) | i. i < NBUF \<and> is_dirty_locked (bufs s i)}"

lemma finite_reusable [simp]: "finite (reusable s)"
  by (simp add: reusable_def)

lemma request_some:
  assumes "bc_inv s" and "good_no n"
  shows "cache_request_locked s n = Some i \<longleftrightarrow> i < NBUF \<and> blkno (bufs s i) = n"
proof
  assume "cache_request_locked s n = Some i"
  then show "i < NBUF \<and> blkno (bufs s i) = n"
    using assms(1) unfolding cache_request_locked_def find_Some_iff bc_inv_def by (metis lessThan_iff nth_mem)
next
  assume i: "i < NBUF \<and> blkno (bufs s i) = n"
  have m: "n \<noteq> UINT32_MAX" using assms(2) by (auto simp: good_no_def UINT32_MAX_def)
  have "i \<in> set (buf_list s)" using assms(1) i by (simp add: bc_inv_def)
  then obtain j where j: "cache_request_locked s n = Some j" using i
    by (cases "cache_request_locked s n") (auto simp: cache_request_locked_def find_None_iff)
  then have "j < NBUF \<and> blkno (bufs s j) = n"
    using assms(1) unfolding cache_request_locked_def find_Some_iff bc_inv_def by (metis lessThan_iff nth_mem)
  then have "j = i" using assms(1) i m unfolding bc_inv_def by metis
  then show "cache_request_locked s n = Some i" using j by simp
qed

lemma request_none:
  assumes "bc_inv s" and "good_no n"
  shows "cache_request_locked s n = None \<longleftrightarrow> (\<forall>i < NBUF. blkno (bufs s i) \<noteq> n)"
  using request_some [OF assms] by (cases "cache_request_locked s n") auto

lemma find_reusable:
  assumes "bc_inv s"
  shows "find_reusable_locked s = None \<longleftrightarrow> reusable s = {}"
    and "find_reusable_locked s = Some i \<Longrightarrow> i \<in> reusable s"
proof -
  have l: "set (buf_list s) = {..<NBUF}" using assms by (simp add: bc_inv_def)
  then show "find_reusable_locked s = None \<longleftrightarrow> reusable s = {}"
    by (auto simp: find_reusable_locked_def find_None_iff reusable_def)
  show "find_reusable_locked s = Some i \<Longrightarrow> i \<in> reusable s"
    unfolding find_reusable_locked_def find_Some_iff using l by (metis (mono_tags, lifting) lessThan_iff mem_Collect_eq nth_mem reusable_def set_rev)
qed

lemma view_slot:
  assumes "bc_inv s" and "good_no n" and "i < NBUF" and "blkno (bufs s i) = n"
  shows "view s n = (if is_valid_locked (bufs s i) then buf (bufs s i) else disk s (get_sector n))"
  using request_some [OF assms(1,2), of i] assms(3,4) by (simp add: view_def)

text \<open>Replacing the contents of one slot by a valid buffer.\<close>

lemma slot_upd:
  assumes I: "bc_inv s" and i: "i < NBUF"
    and s': "bufs s' = (bufs s)(i := b)" "disk s' = disk s" "distinct (buf_list s')" "set (buf_list s') = set (buf_list s)"
    and b: "good_no (blkno b)" "is_valid_locked b" "length (buf b) = FS_BLK_SIZE" "refcnt b = (if locked b then 1 else 0)"
      "\<not> is_dirty_locked b \<Longrightarrow> buf b = disk s (get_sector (blkno b))"
    and u: "\<And>j. j < NBUF \<Longrightarrow> j \<noteq> i \<Longrightarrow> blkno (bufs s j) \<noteq> blkno b"
  shows "bc_inv s'" and "good_no n \<Longrightarrow> view s' n =
    (if n = blkno b then buf b else if n = blkno (bufs s i) then disk s (get_sector n) else view s n)"
proof -
  show I': "bc_inv s'"
    unfolding bc_inv_def
  proof (intro conjI allI impI)
    show "distinct (buf_list s')" "set (buf_list s') = {..<NBUF}" using s' I by (simp_all add: bc_inv_def)
    show "length (disk s' x) = FS_BLK_SIZE" for x using s'(2) I by (simp add: bc_inv_def)
    show "blkno (bufs s' j) = UINT32_MAX \<or> j = k"
      if "j < NBUF" "k < NBUF" "blkno (bufs s' j) = blkno (bufs s' k)" for j k
      using that I u [of j] u [of k] unfolding s' bc_inv_def by (auto split: if_splits)
  qed (use I b s' in \<open>auto simp: bc_inv_def\<close>)
  show "view s' n = (if n = blkno b then buf b else if n = blkno (bufs s i) then disk s (get_sector n) else view s n)" if n: "good_no n"
  proof (cases "cache_request_locked s' n")
    case (Some j)
    then have j: "j < NBUF" "blkno (bufs s' j) = n" using request_some [OF I' n] by auto
    show ?thesis
    proof (cases "j = i")
      case True
      then show ?thesis using view_slot [OF I' n j] j s'(1) b(2) by auto
    next
      case False
      then have "blkno (bufs s j) = n" "n \<noteq> blkno b" using j s'(1) u by auto
      moreover have "n \<noteq> blkno (bufs s i)"
        using I n j(1) i False calculation(1) unfolding bc_inv_def good_no_def UINT32_MAX_def by (metis word_order.extremum not_less)
      ultimately show ?thesis using view_slot [OF I' n j] view_slot [OF I n j(1)] False s' by simp
    qed
  next
    case None
    then have no: "\<forall>j < NBUF. blkno (bufs s' j) \<noteq> n" using request_none [OF I' n] by simp
    then have "n \<noteq> blkno b" using i s'(1) by auto
    moreover have "view s n = disk s (get_sector n)" if "n \<noteq> blkno (bufs s i)"
    proof -
      have "\<forall>j < NBUF. blkno (bufs s j) \<noteq> n" using no that s'(1) by (metis fun_upd_other)
      then show ?thesis using request_none [OF I n] by (simp add: view_def)
    qed
    ultimately show ?thesis using None s'(2) by (simp add: view_def)
  qed
qed

text \<open>
  The state of the cache for its clients: what every block holds, which blocks they keep locked,
  and how many slots can still be taken.
\<close>

definition bstate :: "'a bsys_scheme \<Rightarrow> (u32 \<Rightarrow> u8 list) \<Rightarrow> u32 set \<Rightarrow> nat \<Rightarrow> bool" where
  "bstate s V H k \<longleftrightarrow> bc_inv s \<and> (\<forall>x. \<not> io_err s x) \<and> (\<forall>n. good_no n \<longrightarrow> view s n = V n) \<and> held s = H \<and> k \<le> card (reusable s)"

lemma getblk_slot:
  assumes I: "bc_inv s" and n: "good_no n" "n \<notin> held s" and r: "reusable s \<noteq> {} \<or> n \<in> dirty_blks s"
  shows "\<exists>i s1. bcache_getblk s n = Ret (i, s1) \<and> i < NBUF \<and> disk s1 = disk s \<and> io_err s1 = io_err s \<and> buf_list s1 = buf_list s \<and> bsys.more s1 = bsys.more s \<and>
    (\<exists>b. bufs s1 = (bufs s)(i := b) \<and> blkno b = n \<and> locked b \<and> refcnt b = 1 \<and>
      (is_dirty_locked b = is_dirty_locked (bufs s i)) \<and>
      (if blkno (bufs s i) = n then is_valid_locked b = is_valid_locked (bufs s i) \<and> buf b = buf (bufs s i)
       else \<not> is_valid_locked b \<and> i \<in> reusable s \<and> (\<forall>j < NBUF. blkno (bufs s j) \<noteq> n)))"
proof (cases "cache_request_locked s n")
  case (Some i)
  then have i: "i < NBUF" "blkno (bufs s i) = n" using request_some [OF I n(1)] by auto
  then have "\<not> locked (bufs s i)" using n(2) by (auto simp: held_def)
  moreover from this have "refcnt (bufs s i) = 0" using I i by (simp add: bc_inv_def)
  ultimately show ?thesis using Some i
    by (intro exI [of _ i]) (auto simp: bcache_getblk_def lock_blk_def)
next
  case None
  then have no: "\<forall>j < NBUF. blkno (bufs s j) \<noteq> n" using request_none [OF I n(1)] by simp
  then have "reusable s \<noteq> {}" using r by (auto simp: dirty_blks_def)
  then obtain i where f: "find_reusable_locked s = Some i" "i \<in> reusable s" using find_reusable [OF I] by fastforce
  then have i: "i < NBUF" "refcnt (bufs s i) = 0" "\<not> is_dirty_locked (bufs s i)" by (auto simp: reusable_def)
  then have "\<not> locked (bufs s i)" using I by (auto simp: bc_inv_def split: if_splits)
  then show ?thesis using None f i no
    by (intro exI [of _ i]) (auto simp: bcache_getblk_def lock_blk_def Let_def)
qed

lemma bread:
  assumes B: "bstate s V H k" and n: "good_no n" "n \<notin> H" and room: "0 < k \<or> n \<in> dirty_blks s"
  shows "\<exists>i s'. bcache_read s n = Ret (Some i, s') \<and> bstate s' V (insert n H) (k - 1) \<and> holds s' i n \<and> buf (bufs s' i) = V n \<and>
    (is_dirty_locked (bufs s' i) \<longrightarrow> bstate s' V (insert n H) k) \<and> bsys.more s' = bsys.more s \<and>
    dirty_blks s' = dirty_blks s \<and> disk s' = disk s \<and> (\<forall>c x. holds s c x \<longrightarrow> holds s' c x)"
proof -
  have I: "bc_inv s" and V: "\<And>m. good_no m \<Longrightarrow> view s m = V m" and H: "held s = H" and c: "k \<le> card (reusable s)"
    and e: "\<And>x. \<not> io_err s x" using B by (auto simp: bstate_def)
  have "reusable s \<noteq> {} \<or> n \<in> dirty_blks s" "n \<notin> held s" using c n(2) H room by auto
  then obtain i s1 b where g: "bcache_getblk s n = Ret (i, s1)" "i < NBUF" "disk s1 = disk s" "io_err s1 = io_err s" "buf_list s1 = buf_list s"
    "bufs s1 = (bufs s)(i := b)" "blkno b = n" "locked b" "refcnt b = 1" "is_dirty_locked b = is_dirty_locked (bufs s i)"
    and mo: "bsys.more s1 = bsys.more s"
    and hm: "if blkno (bufs s i) = n then is_valid_locked b = is_valid_locked (bufs s i) \<and> buf b = buf (bufs s i)
      else \<not> is_valid_locked b \<and> i \<in> reusable s \<and> (\<forall>j < NBUF. blkno (bufs s j) \<noteq> n)"
    using getblk_slot [OF I n(1)] by blast
  have h: "is_valid_locked b = is_valid_locked (bufs s i) \<and> buf b = buf (bufs s i)" if "blkno (bufs s i) = n" using hm that by simp
  have m: "\<not> is_valid_locked b \<and> i \<in> reusable s \<and> (\<forall>j < NBUF. blkno (bufs s j) \<noteq> n)" if "blkno (bufs s i) \<noteq> n" using hm that by simp
  let ?b = "if is_valid_locked b then b else set_valid_locked (b\<lparr>buf := disk s (get_sector n)\<rparr>)"
  let ?s = "if is_valid_locked b then s1 else upd_blk i (\<lambda>b. set_valid_locked (b\<lparr>buf := disk s1 (get_sector n)\<rparr>)) s1"
  have r: "bcache_read s n = Ret (Some i, ?s)" using g e by (simp add: bcache_read_def)
  have bs: "bufs ?s = (bufs s)(i := ?b)" using g by simp
  have u: "blkno (bufs s j) \<noteq> n" if "j < NBUF" "j \<noteq> i" for j
    using I n(1) g(2) that m unfolding bc_inv_def good_no_def UINT32_MAX_def by (metis word_order.extremum not_less)
  have nd: "\<not> is_dirty_locked (bufs s i)" if "blkno (bufs s i) \<noteq> n" using m that by (auto simp: reusable_def)
  have old: "view s (blkno (bufs s i)) = disk s (get_sector (blkno (bufs s i)))"
    if "good_no (blkno (bufs s i))" "blkno (bufs s i) \<noteq> n"
    using view_slot [OF I that(1) g(2) refl] I g(2) nd [OF that(2)] by (simp add: bc_inv_def)
  have Vn: "V n = buf ?b"
  proof (cases "blkno (bufs s i) = n")
    case True
    then show ?thesis using view_slot [OF I n(1) g(2) True] V [OF n(1)] h by auto
  next
    case False
    then have "cache_request_locked s n = None" using request_none [OF I n(1)] m by simp
    then show ?thesis using V [OF n(1)] m False by (simp add: view_def)
  qed
  have cl: "buf ?b = disk s (get_sector n)" if "\<not> is_dirty_locked ?b"
    using that h m I g by (cases "blkno (bufs s i) = n") (auto simp: bc_inv_def)
  have ln: "length (buf ?b) = FS_BLK_SIZE" using I g h m by (cases "blkno (bufs s i) = n") (auto simp: bc_inv_def)
  have SU: "bc_inv ?s" "\<And>q. good_no q \<Longrightarrow> view ?s q =
    (if q = n then buf ?b else if q = blkno (bufs s i) then disk s (get_sector q) else view s q)"
    using slot_upd [OF I g(2) bs] g n(1) ln cl u I by (auto simp: bc_inv_def)
  have "view ?s q = V q" if "good_no q" for q using SU(2) [OF that] V [OF that] Vn old that by auto
  moreover have nl: "\<not> locked (bufs s i)" using H n(2) g(2) m I
    by (cases "blkno (bufs s i) = n") (auto simp: held_def reusable_def bc_inv_def split: if_splits)
  then have "held ?s = insert n H" using bs g unfolding held_def H [symmetric] by auto
  moreover have "k - 1 \<le> card (reusable ?s)" "is_dirty_locked ?b \<Longrightarrow> k \<le> card (reusable ?s)"
  proof -
    have r: "reusable ?s = reusable s - {i}" unfolding reusable_def bs using g(9) by auto
    show "k - 1 \<le> card (reusable ?s)" unfolding r using c by (cases "i \<in> reusable s") (simp_all add: card_Diff_singleton)
    show "k \<le> card (reusable ?s)" if "is_dirty_locked ?b"
    proof -
      have "is_dirty_locked (bufs s i)" using that g(10) by (simp split: if_splits)
      then have "i \<notin> reusable s" by (simp add: reusable_def)
      then show ?thesis unfolding r using c by simp
    qed
  qed
  moreover have "holds ?s i n" using bs g by (simp add: holds_def)
  moreover have "buf (bufs ?s i) = V n" "bufs ?s i = ?b" using bs Vn by simp_all
  moreover have "\<not> io_err ?s x" "bsys.more ?s = bsys.more s" for x using e g mo by simp_all
  ultimately have "bstate ?s V (insert n H) (k - 1)" "holds ?s i n" "buf (bufs ?s i) = V n" "bsys.more ?s = bsys.more s"
    "is_dirty_locked (bufs ?s i) \<longrightarrow> bstate ?s V (insert n H) k" using SU(1) unfolding bstate_def by simp_all
  moreover have "disk ?s = disk s" using g(3) by simp
  moreover have "\<forall>c x. holds s c x \<longrightarrow> holds ?s c x" unfolding holds_def bs using nl by auto
  moreover have "dirty_blks ?s = dirty_blks s"
  proof -
    have "is_dirty_locked ?b = is_dirty_locked (bufs s i)" "blkno ?b = n" using g by auto
    then have "is_dirty_locked (bufs ?s j) = is_dirty_locked (bufs s j)"
      "is_dirty_locked (bufs s j) \<Longrightarrow> blkno (bufs ?s j) = blkno (bufs s j)" for j
      unfolding bs using nd by (cases "j = i"; auto)+
    then show ?thesis unfolding dirty_blks_def by (metis (no_types, lifting))
  qed
  ultimately show ?thesis using r by blast
qed

text \<open>Writing into a buffer that is held and marking it dirty, and letting it go.\<close>

definition fill :: "nat \<Rightarrow> (u8 list \<Rightarrow> u8 list) \<Rightarrow> 'a bsys_scheme \<Rightarrow> 'a bsys_scheme" where
  "fill i f s = upd_blk i (\<lambda>b. b\<lparr>buf := f (buf b)\<rparr>) s"

lemma bwrite:
  assumes B: "bstate s V H k" and h: "holds s i n" and f: "length (f (buf (bufs s i))) = FS_BLK_SIZE"
  shows "bstate (bcache_mark_dirty (fill i f s) i) (V(n := f (buf (bufs s i)))) H k"
    and "holds (bcache_mark_dirty (fill i f s) i) i n"
proof -
  let ?b = "set_dirty_locked ((bufs s i)\<lparr>buf := f (buf (bufs s i))\<rparr>)"
  let ?s = "bcache_mark_dirty (fill i f s) i"
  have I: "bc_inv s" and V: "\<And>m. good_no m \<Longrightarrow> view s m = V m" and H: "held s = H" using B by (auto simp: bstate_def)
  have i: "i < NBUF" "blkno (bufs s i) = n" "locked (bufs s i)" "is_valid_locked (bufs s i)" using h by (auto simp: holds_def)
  have n: "good_no n" using I i by (auto simp: bc_inv_def)
  have bs: "bufs ?s = (bufs s)(i := ?b)" by (simp add: bcache_mark_dirty_def fill_def)
  have u: "blkno (bufs s j) \<noteq> n" if "j < NBUF" "j \<noteq> i" for j
    using I n i that unfolding bc_inv_def good_no_def UINT32_MAX_def by (metis word_order.extremum not_less)
  have SU: "bc_inv ?s" "\<And>q. good_no q \<Longrightarrow> view ?s q = (if q = n then f (buf (bufs s i)) else view s q)"
    using slot_upd [OF I i(1) bs] i n f u I by (auto simp: bc_inv_def bcache_mark_dirty_def fill_def)
  have "held ?s = H" using bs i unfolding held_def H [symmetric] by auto
  moreover have "reusable ?s = reusable s" using bs i I by (auto simp: reusable_def bc_inv_def)
  ultimately show "bstate ?s (V(n := f (buf (bufs s i)))) H k"
    using SU V B by (auto simp: bstate_def) (simp_all add: bcache_mark_dirty_def fill_def)
  show "holds ?s i n" using bs i by (simp add: holds_def)
qed

lemma brelease:
  assumes B: "bstate s V H k" and h: "holds s i n"
  shows "bstate (bcache_release s i) V (H - {n}) k"
    and "\<not> is_dirty_locked (bufs s i) \<Longrightarrow> bstate (bcache_release s i) V (H - {n}) (Suc k)"
proof -
  let ?b = "(bufs s i)\<lparr>locked := False, refcnt := refcnt (bufs s i) - 1\<rparr>"
  let ?s = "bcache_release s i"
  have I: "bc_inv s" and V: "\<And>m. good_no m \<Longrightarrow> view s m = V m" and H: "held s = H" and c: "k \<le> card (reusable s)"
    using B by (auto simp: bstate_def)
  have i: "i < NBUF" "blkno (bufs s i) = n" "locked (bufs s i)" "is_valid_locked (bufs s i)" "refcnt (bufs s i) = 1"
    using h I by (auto simp: holds_def bc_inv_def)
  have n: "good_no n" using I i by (auto simp: bc_inv_def)
  have bs: "bufs ?s = (bufs s)(i := ?b)" by (simp add: bcache_release_def Let_def)
  have sl: "disk ?s = disk s" "io_err ?s = io_err s" "buf_list ?s = i # remove1 i (buf_list s)" by (simp_all add: bcache_release_def Let_def)
  have mem: "i \<in> set (buf_list s)" "distinct (buf_list s)" using I i(1) by (simp_all add: bc_inv_def)
  then have L: "distinct (buf_list ?s)" "set (buf_list ?s) = set (buf_list s)" by (auto simp: sl)
  have u: "blkno (bufs s j) \<noteq> n" if "j < NBUF" "j \<noteq> i" for j
    using I n i that unfolding bc_inv_def good_no_def UINT32_MAX_def by (metis word_order.extremum not_less)
  have SU: "bc_inv ?s" "\<And>q. good_no q \<Longrightarrow> view ?s q = (if q = n then buf (bufs s i) else view s q)"
    using slot_upd [OF I i(1) bs sl(1) L] i n u I by (auto simp: bc_inv_def)
  have vw: "view ?s q = V q" if "good_no q" for q
    using SU(2) [OF that] V [OF that] view_slot [OF I n i(1,2)] i(4) by (auto split: if_splits)
  have hd: "held ?s = H - {n}" using bs i u unfolding held_def H [symmetric] by (auto, metis)
  have "reusable ?s = (if is_dirty_locked (bufs s i) then reusable s else insert i (reusable s))"
    using bs i by (auto simp: reusable_def)
  moreover have "i \<notin> reusable s" using i by (simp add: reusable_def)
  ultimately have cd: "k \<le> card (reusable ?s)" "\<not> is_dirty_locked (bufs s i) \<Longrightarrow> Suc k \<le> card (reusable ?s)" using c by auto
  have e: "\<not> io_err ?s x" for x using B sl by (simp add: bstate_def)
  show "bstate ?s V (H - {n}) k" "\<not> is_dirty_locked (bufs s i) \<Longrightarrow> bstate ?s V (H - {n}) (Suc k)"
    using SU(1) vw hd cd e by (auto simp: bstate_def)
qed

lemma more_frames [simp]:
  "bsys.more (bcache_release s i) = bsys.more s" "bsys.more (bcache_mark_dirty s i) = bsys.more s" "bsys.more (fill i f s) = bsys.more s"
  by (simp_all add: bcache_release_def bcache_mark_dirty_def fill_def Let_def)

section \<open>The cache for its clients\<close>

text \<open>
  A store of blocks that are read into a slot, may be overwritten there, and are released: \<open>st s V H k\<close>
  says that the blocks hold \<open>V\<close>, that \<open>H\<close> are locked and that \<open>k\<close> more slots can be taken.
\<close>

locale block_store =
  fixes st :: "'s \<Rightarrow> ('n \<Rightarrow> 'b list) \<Rightarrow> 'n set \<Rightarrow> nat \<Rightarrow> bool"
    and good :: "'n \<Rightarrow> bool"
    and size_b :: nat
    and own :: "'s \<Rightarrow> 'i \<Rightarrow> 'n \<Rightarrow> bool"
    and cont :: "'s \<Rightarrow> 'i \<Rightarrow> 'b list"
    and dirty :: "'s \<Rightarrow> 'i \<Rightarrow> bool"
    and frame :: "'s \<Rightarrow> 'f"
    and rd :: "'s \<Rightarrow> 'n \<Rightarrow> ('i option \<times> 's) outcome"
    and wr :: "'i \<Rightarrow> ('b list \<Rightarrow> 'b list) \<Rightarrow> 's \<Rightarrow> 's"
    and rel :: "'s \<Rightarrow> 'i \<Rightarrow> 's"
  assumes rd_law: "st s V H (Suc k) \<Longrightarrow> good n \<Longrightarrow> n \<notin> H \<Longrightarrow>
      \<exists>i s'. rd s n = Ret (Some i, s') \<and> st s' V (insert n H) k \<and> own s' i n \<and> cont s' i = V n \<and>
        (dirty s' i \<longrightarrow> st s' V (insert n H) (Suc k)) \<and> frame s' = frame s \<and> (\<forall>c x. own s c x \<longrightarrow> own s' c x)"
    and wr_law: "st s V H k \<Longrightarrow> own s i n \<Longrightarrow> length (f (cont s i)) = size_b \<Longrightarrow>
      st (wr i f s) (V(n := f (cont s i))) H k \<and> frame (wr i f s) = frame s \<and> (\<forall>c x. own s c x \<longrightarrow> own (wr i f s) c x)"
    and rel_law: "st s V H k \<Longrightarrow> own s i n \<Longrightarrow>
      st (rel s i) V (H - {n}) (if dirty s i then k else Suc k) \<and> frame (rel s i) = frame s \<and>
      (\<forall>c x. own s c x \<longrightarrow> x \<noteq> n \<longrightarrow> own (rel s i) c x)"
    and own_law: "st s V H k \<Longrightarrow> own s c x \<Longrightarrow> x \<in> H \<and> cont s c = V x"
    and st_mono: "st s V H (Suc k) \<Longrightarrow> st s V H k"
begin

text \<open>A block that is read can be released as it was or with new contents.\<close>

lemma access:
  assumes "st s V H (Suc k)" and "good n" and "n \<notin> H"
  shows "\<exists>i s1. rd s n = Ret (Some i, s1) \<and> own s1 i n \<and> cont s1 i = V n \<and> frame s1 = frame s \<and> st s1 V (insert n H) k \<and>
    (\<forall>c x. own s c x \<longrightarrow> own s1 c x) \<and>
    st (rel s1 i) V H (Suc k) \<and> frame (rel s1 i) = frame s \<and> (\<forall>c x. own s c x \<longrightarrow> own (rel s1 i) c x) \<and>
    (\<forall>f. length (f (V n)) = size_b \<longrightarrow> st (rel (wr i f s1) i) (V(n := f (V n))) H k \<and> frame (rel (wr i f s1) i) = frame s \<and>
      (\<forall>c x. own s c x \<longrightarrow> own (rel (wr i f s1) i) c x))"
proof -
  obtain i s1 where r: "rd s n = Ret (Some i, s1)" "st s1 V (insert n H) k" "own s1 i n" "cont s1 i = V n"
    "dirty s1 i \<longrightarrow> st s1 V (insert n H) (Suc k)" "frame s1 = frame s" "\<forall>c x. own s c x \<longrightarrow> own s1 c x" using rd_law [OF assms] by blast
  have H: "insert n H - {n} = H" using assms(3) by simp
  have x: "x \<noteq> n" if "own s c x" for c x using own_law [OF assms(1) that] assms(3) by auto
  have a: "st (rel s1 i) V H (Suc k)" "frame (rel s1 i) = frame s" "\<forall>c x. own s c x \<longrightarrow> own (rel s1 i) c x"
    using rel_law [OF r(2,3)] rel_law [of s1 V "insert n H" "Suc k" i n] r(3,5,6,7) H x by (auto split: if_splits)
  have b: "st (rel (wr i f s1) i) (V(n := f (V n))) H k \<and> frame (rel (wr i f s1) i) = frame s \<and> (\<forall>c x. own s c x \<longrightarrow> own (rel (wr i f s1) i) c x)"
    if "length (f (V n)) = size_b" for f
  proof -
    have w: "st (wr i f s1) (V(n := f (V n))) (insert n H) k" "own (wr i f s1) i n" "frame (wr i f s1) = frame s" "\<forall>c x. own s c x \<longrightarrow> own (wr i f s1) c x"
      using wr_law [OF r(2,3), of f] that r(3,4,6,7) by simp_all
    then show ?thesis using rel_law [OF w(1,2)] H st_mono x by (auto split: if_splits)
  qed
  show ?thesis using r(1-4,6,7) a b by (intro exI [of _ i] exI [of _ s1]) simp
qed

end

interpretation bs: block_store bstate good_no FS_BLK_SIZE holds "\<lambda>s i. buf (bufs s i)" "\<lambda>s i. is_dirty_locked (bufs s i)"
  bsys.more bcache_read "\<lambda>i f s. bcache_mark_dirty (fill i f s) i" bcache_release
proof unfold_locales
  fix s :: "'a bsys_scheme" and V H k n i c x and f :: "u8 list \<Rightarrow> u8 list"
  show "bstate (bcache_release s i) V (H - {n}) (if is_dirty_locked (bufs s i) then k else Suc k) \<and> bsys.more (bcache_release s i) = bsys.more s \<and>
      (\<forall>c x. holds s c x \<longrightarrow> x \<noteq> n \<longrightarrow> holds (bcache_release s i) c x)"
    if "bstate s V H k" "holds s i n" using brelease [OF that] that(2) by (auto simp: holds_def bcache_release_def Let_def)
  show "bstate s V H k" if "bstate s V H (Suc k)" using that by (simp add: bstate_def)
  show "\<exists>i s'. bcache_read s n = Ret (Some i, s') \<and> bstate s' V (insert n H) k \<and> holds s' i n \<and> buf (bufs s' i) = V n \<and>
      (is_dirty_locked (bufs s' i) \<longrightarrow> bstate s' V (insert n H) (Suc k)) \<and> bsys.more s' = bsys.more s \<and> (\<forall>c x. holds s c x \<longrightarrow> holds s' c x)"
    if "bstate s V H (Suc k)" "good_no n" "n \<notin> H" using bread [OF that] by auto
  show "bstate (bcache_mark_dirty (fill i f s) i) (V(n := f (buf (bufs s i)))) H k \<and> bsys.more (bcache_mark_dirty (fill i f s) i) = bsys.more s \<and>
      (\<forall>c x. holds s c x \<longrightarrow> holds (bcache_mark_dirty (fill i f s) i) c x)"
    if "bstate s V H k" "holds s i n" "length (f (buf (bufs s i))) = FS_BLK_SIZE"
    using bwrite [OF that(1,2), of f] that(3) by (auto simp: holds_def bcache_mark_dirty_def fill_def)
  show "x \<in> H \<and> buf (bufs s c) = V x" if "bstate s V H k" "holds s c x"
  proof -
    have c: "bc_inv s" "c < NBUF" "blkno (bufs s c) = x" "is_valid_locked (bufs s c)" using that by (auto simp: bstate_def holds_def)
    then have "good_no x" by (auto simp: bc_inv_def)
    then show ?thesis using view_slot [OF c(1) _ c(2,3)] c(4) that by (auto simp: bstate_def holds_def held_def)
  qed
qed

section \<open>Dirty blocks\<close>

lemma dirty_slots:
  assumes "bc_inv s"
  shows "inj_on (\<lambda>i. blkno (bufs s i)) {i. i < NBUF \<and> is_dirty_locked (bufs s i)}"
    and "n \<in> dirty_blks s \<Longrightarrow> good_no n"
proof -
  have g: "good_no (blkno (bufs s i))" if "i < NBUF" "is_dirty_locked (bufs s i)" for i
    using assms that by (auto simp: bc_inv_def)
  then show "n \<in> dirty_blks s \<Longrightarrow> good_no n" by (auto simp: dirty_blks_def)
  have "blkno (bufs s i) \<noteq> UINT32_MAX" if "i < NBUF" "is_dirty_locked (bufs s i)" for i
    using g [OF that] by (auto simp: good_no_def UINT32_MAX_def)
  then show "inj_on (\<lambda>i. blkno (bufs s i)) {i. i < NBUF \<and> is_dirty_locked (bufs s i)}"
    using assms by (auto simp: inj_on_def bc_inv_def)
qed

lemma card_reusable:
  assumes "bc_inv s" and "held s = {}"
  shows "card (reusable s) + card (dirty_blks s) = NBUF"
proof -
  let ?D = "{i. i < NBUF \<and> is_dirty_locked (bufs s i)}"
  have "\<not> locked (bufs s i)" if "i < NBUF" for i using assms(2) that by (auto simp: held_def)
  then have "reusable s = {..<NBUF} - ?D" using assms(1) by (auto simp: reusable_def bc_inv_def)
  moreover have "dirty_blks s = (\<lambda>i. blkno (bufs s i)) ` ?D" by (auto simp: dirty_blks_def)
  then have "card (dirty_blks s) = card ?D" using card_image [OF dirty_slots(1) [OF assms(1)]] by simp
  moreover have "?D \<subseteq> {..<NBUF}" by auto
  ultimately show ?thesis using card_mono [of "{..<NBUF}" ?D] by (simp add: card_Diff_subset)
qed

lemma finite_dirty [simp]: "finite (dirty_blks s)"
  by (simp add: dirty_blks_def)

lemma get_sector_inj:
  assumes "good_no m" "good_no n" and "get_sector m = get_sector n"
  shows "m = n"
proof -
  have m: "unat m < 2 ^ 28" and n: "unat n < 2 ^ 28" using assms(1,2) by (simp_all add: good_no_def word_less_nat_alt)
  have u: "sint (scast w :: u64) = sint w" for w :: u32 by (rule sint_up_scast) (simp add: is_up)
  have "scast (m * 8) = (scast (n * 8) :: u64)" using assms(3) by (simp add: get_sector_def FS_BLK_SIZE_def VIRTIO_BLK_SIZE_def)
  then have "sint (m * 8) = sint (n * 8)" by (metis u)
  then have "m * 8 = n * 8" by (simp add: signed_word_eqI)
  then have "unat (m * 8) = unat (n * 8)" by simp
  moreover have "unat (m * 8) = unat m * 8" "unat (n * 8) = unat n * 8" using m n by (simp_all add: unat_word_ariths)
  ultimately show ?thesis by (simp add: word_unat_eq_iff)
qed

lemma bwrite_dirty:
  assumes "holds s i n"
  shows "dirty_blks (bcache_mark_dirty (fill i f s) i) = insert n (dirty_blks s)" and "disk (bcache_mark_dirty (fill i f s) i) = disk s"
  using assms by (auto simp: dirty_blks_def holds_def bcache_mark_dirty_def fill_def)

lemma brelease_dirty:
  "dirty_blks (bcache_release s i) = dirty_blks s" "disk (bcache_release s i) = disk s"
  by (auto simp: dirty_blks_def bcache_release_def Let_def)

lemma bsync:
  assumes B: "bstate s V H k" and h: "holds s i n"
  shows "\<exists>s'. bcache_sync s i = (0, s') \<and> bstate s' V H k \<and> holds s' i n \<and> buf (bufs s' i) = buf (bufs s i) \<and>
    dirty_blks s' = dirty_blks s - {n} \<and> disk s' = (disk s)(get_sector n := V n) \<and> bsys.more s' = bsys.more s"
proof -
  have I: "bc_inv s" and V: "\<And>m. good_no m \<Longrightarrow> view s m = V m" and H: "held s = H" and e: "\<And>x. \<not> io_err s x" using B by (auto simp: bstate_def)
  have i: "i < NBUF" "blkno (bufs s i) = n" "locked (bufs s i)" "is_valid_locked (bufs s i)" using h by (auto simp: holds_def)
  have n: "good_no n" using I i by (auto simp: bc_inv_def)
  have Vn: "V n = buf (bufs s i)" using view_slot [OF I n i(1,2)] V [OF n] i(4) by simp
  have u: "blkno (bufs s j) \<noteq> n" if "j < NBUF" "j \<noteq> i" for j
    using I n i that unfolding bc_inv_def good_no_def UINT32_MAX_def by (metis word_order.extremum not_less)
  show ?thesis
  proof (cases "is_dirty_locked (bufs s i)")
    case False
    then have "disk s (get_sector n) = V n" using I i Vn by (auto simp: bc_inv_def)
    then have "(disk s)(get_sector n := V n) = disk s" by auto
    moreover have "n \<notin> dirty_blks s" using False i u by (auto simp: dirty_blks_def) (metis)
    ultimately show ?thesis using False B h by (auto simp: bcache_sync_def)
  next
    case True
    let ?s = "upd_blk i clear_dirty_locked (s\<lparr>disk := (disk s)(get_sector n := buf (bufs s i))\<rparr>)"
    have r: "bcache_sync s i = (0, ?s)" using True i e by (simp add: bcache_sync_def Let_def)
    have sec: "get_sector (blkno (bufs s j)) \<noteq> get_sector n" if "j < NBUF" "j \<noteq> i" "is_valid_locked (bufs s j)" for j
      using get_sector_inj [of "blkno (bufs s j)" n] u [OF that(1,2)] n I that by (auto simp: bc_inv_def)
    have inv: "bc_inv ?s" using I i n sec by (auto simp: bc_inv_def)
    have "view ?s q = V q" if q: "good_no q" for q
    proof (cases "cache_request_locked s q")
      case (Some j)
      then have j: "j < NBUF" "blkno (bufs s j) = q" using request_some [OF I q] by auto
      have jj: "blkno (bufs ?s j) = q" using j by (cases "j = i") simp_all
      show ?thesis
      proof (cases "j = i")
        case True
        then show ?thesis using view_slot [OF inv q j(1) jj] i j Vn by simp
      next
        case False
        then have "q \<noteq> n" using u j by auto
        then have "get_sector q \<noteq> get_sector n" using get_sector_inj [OF q n] by auto
        then show ?thesis using view_slot [OF inv q j(1) jj] view_slot [OF I q j] False V [OF q] by simp
      qed
    next
      case None
      then have no: "\<forall>j < NBUF. blkno (bufs s j) \<noteq> q" using request_none [OF I q] by simp
      then have "cache_request_locked ?s q = None" using request_none [OF inv q] by simp
      moreover have "get_sector q \<noteq> get_sector n" using get_sector_inj [OF q n] no i by auto
      ultimately show ?thesis using None V [OF q] by (simp add: view_def)
    qed
    moreover have "held ?s = H" unfolding H [symmetric] held_def by auto
    moreover have "reusable ?s = reusable s" using i I by (auto simp: reusable_def bc_inv_def)
    moreover have "dirty_blks ?s = dirty_blks s - {n}" using i u by (auto simp: dirty_blks_def) metis
    moreover have "holds ?s i n" using i by (simp add: holds_def)
    ultimately show ?thesis using r inv B Vn by (auto simp: bstate_def)
  qed
qed


section \<open>Runs\<close>

text \<open>
  What the file system does with a block: read it, overwrite it, or write it back to the disk.
\<close>

datatype bop = Bread u32 | Bwrite u32 "u8 list" | Bflush u32

fun blk_of :: "bop \<Rightarrow> u32" where
  "blk_of (Bread n) = n"
| "blk_of (Bwrite n bs) = n"
| "blk_of (Bflush n) = n"

definition blk_do :: "bop \<Rightarrow> 'a bsys_scheme \<Rightarrow> nat \<Rightarrow> 'a bsys_scheme" where
  "blk_do op s i =
    (case op of
       Bread _ \<Rightarrow> s
     | Bwrite _ bs \<Rightarrow> bcache_mark_dirty (fill i (\<lambda>_. bs) s) i
     | Bflush _ \<Rightarrow> snd (bcache_sync s i))"

definition blk_op :: "bop \<Rightarrow> 'a bsys_scheme \<Rightarrow> (u8 list option \<times> 'a bsys_scheme) outcome" where
  "blk_op op s =
    bind_out (bcache_read s (blk_of op)) (\<lambda>(r, s1).
      case r of
        None \<Rightarrow> Ret (None, s1)
      | Some i \<Rightarrow> (let s2 = blk_do op s1 i in Ret (Some (buf (bufs s2 i)), bcache_release s2 i)))"

fun blk_run :: "bop list \<Rightarrow> 'a bsys_scheme \<Rightarrow> (u8 list option list \<times> 'a bsys_scheme) outcome" where
  "blk_run [] s = Ret ([], s)"
| "blk_run (op # ops) s = bind_out (blk_op op s) (\<lambda>(r, s1). bind_out (blk_run ops s1) (\<lambda>(rs, s2). Ret (r # rs, s2)))"

text \<open>
  The specification: one map for what readers see, one for what is on the disk, and the set of the blocks
  in which they differ or may differ.
\<close>

record blk_spec =
  seen :: "u32 \<Rightarrow> u8 list"
  saved :: "u32 \<Rightarrow> u8 list"
  pending :: "u32 set"

fun spec_op :: "bop \<Rightarrow> blk_spec \<Rightarrow> blk_spec" where
  "spec_op (Bread n) a = a"
| "spec_op (Bwrite n bs) a = a\<lparr>seen := (seen a)(n := bs), pending := insert n (pending a)\<rparr>"
| "spec_op (Bflush n) a = a\<lparr>saved := (saved a)(n := seen a n), pending := pending a - {n}\<rparr>"

fun spec_run :: "bop list \<Rightarrow> blk_spec \<Rightarrow> (u8 list option list \<times> blk_spec) outcome" where
  "spec_run [] a = Ret ([], a)"
| "spec_run (op # ops) a =
    (if blk_of op \<notin> pending a \<and> NBUF \<le> card (pending a) then Panic
     else bind_out (spec_run ops (spec_op op a)) (\<lambda>(rs, a'). Ret (Some (seen (spec_op op a) (blk_of op)) # rs, a')))"

definition blk_rel :: "'a bsys_scheme \<Rightarrow> blk_spec \<Rightarrow> bool" where
  "blk_rel s a \<longleftrightarrow> bstate s (seen a) {} 0 \<and> (\<forall>n. good_no n \<longrightarrow> disk s (get_sector n) = saved a n) \<and> dirty_blks s = pending a"

definition good_op :: "bop \<Rightarrow> bool" where
  "good_op op \<longleftrightarrow> good_no (blk_of op) \<and> (\<forall>n bs. op = Bwrite n bs \<longrightarrow> length bs = FS_BLK_SIZE)"

lemma blk_op_panics:
  assumes R: "blk_rel s a" and n: "good_no n" "n \<notin> pending a" and full: "NBUF \<le> card (pending a)"
  shows "bcache_read s n = Panic"
proof -
  have I: "bc_inv s" "held s = {}" "dirty_blks s = pending a" using R by (auto simp: blk_rel_def bstate_def)
  have "card (reusable s) = 0" using card_reusable [OF I(1,2)] full unfolding I(3) by linarith
  then have r: "reusable s = {}" by simp
  have "is_dirty_locked (bufs s i)" if "i < NBUF" for i
    using r that I(1,2) by (auto simp: reusable_def bc_inv_def held_def split: if_splits)
  then have "cache_request_locked s n = None" using request_none [OF I(1) n(1)] n(2) I(3) by (auto simp: dirty_blks_def)
  moreover have "find_reusable_locked s = None" using find_reusable(1) [OF I(1)] r by simp
  ultimately show ?thesis by (simp add: bcache_read_def bcache_getblk_def)
qed

lemma blk_op_refines:
  assumes R: "blk_rel s a" and op: "good_op op" and room: "blk_of op \<in> pending a \<or> card (pending a) < NBUF"
  shows "\<exists>s'. blk_op op s = Ret (Some (seen (spec_op op a) (blk_of op)), s') \<and> blk_rel s' (spec_op op a)"
proof -
  let ?n = "blk_of op"
  have d: "dirty_blks s = pending a" and D: "\<And>n. good_no n \<Longrightarrow> disk s (get_sector n) = saved a n" using R by (auto simp: blk_rel_def)
  have I: "bc_inv s" "held s = {}" using R by (auto simp: blk_rel_def bstate_def)
  have B: "bstate s (seen a) {} (card (reusable s))" using R by (simp add: blk_rel_def bstate_def)
  have n: "good_no ?n" using op by (simp add: good_op_def)
  have "0 < card (reusable s) \<or> ?n \<in> dirty_blks s" using room card_reusable [OF I] d by auto
  then obtain i s1 where r: "bcache_read s ?n = Ret (Some i, s1)" "bstate s1 (seen a) {?n} (card (reusable s) - 1)" "holds s1 i ?n"
    "buf (bufs s1 i) = seen a ?n" "dirty_blks s1 = pending a" "disk s1 = disk s" using bread [OF B n] d by auto
  let ?s2 = "blk_do op s1 i"
  have B1: "bstate s1 (seen a) {?n} 0" using r(2) by (simp add: bstate_def)
  have "holds ?s2 i ?n \<and> bstate ?s2 (seen (spec_op op a)) {?n} 0 \<and> dirty_blks ?s2 = pending (spec_op op a) \<and>
    buf (bufs ?s2 i) = seen (spec_op op a) ?n \<and> (\<forall>m. good_no m \<longrightarrow> disk ?s2 (get_sector m) = saved (spec_op op a) m)"
  proof (cases op)
    case (Bread m)
    then show ?thesis using r B1 D by (simp add: blk_do_def)
  next
    case (Bwrite m bs)
    then have "length bs = FS_BLK_SIZE" using op by (simp add: good_op_def)
    then show ?thesis using bwrite [OF B1 r(3), of "\<lambda>_. bs"] bwrite_dirty [OF r(3), of "\<lambda>_. bs"] r D Bwrite
      by (simp add: blk_do_def) (simp add: bcache_mark_dirty_def fill_def)
  next
    case (Bflush m)
    obtain s2 where "bcache_sync s1 i = (0, s2)" "bstate s2 (seen a) {?n} 0" "holds s2 i ?n" "buf (bufs s2 i) = buf (bufs s1 i)"
      "dirty_blks s2 = dirty_blks s1 - {?n}" "disk s2 = (disk s1)(get_sector ?n := seen a ?n)" using bsync [OF B1 r(3)] by blast
    moreover have "get_sector q \<noteq> get_sector m" if "good_no q" "q \<noteq> m" for q using get_sector_inj [OF that(1)] n that(2) Bflush by auto
    ultimately show ?thesis using r D Bflush by (auto simp: blk_do_def)
  qed
  then have h: "holds ?s2 i ?n" "bstate ?s2 (seen (spec_op op a)) {?n} 0" "dirty_blks ?s2 = pending (spec_op op a)"
    "buf (bufs ?s2 i) = seen (spec_op op a) ?n" "\<And>m. good_no m \<Longrightarrow> disk ?s2 (get_sector m) = saved (spec_op op a) m" by auto
  have "blk_rel (bcache_release ?s2 i) (spec_op op a)"
    using brelease(1) [OF h(2,1)] h(3,5) brelease_dirty [of ?s2 i] by (simp add: blk_rel_def)
  then show ?thesis using r(1) h(4) by (simp add: blk_op_def Let_def)
qed

lemma blk_run_refines:
  assumes "blk_rel s a" and "\<forall>op \<in> set ops. good_op op"
  shows "case spec_run ops a of
      Ret (rs, a') \<Rightarrow> \<exists>s'. blk_run ops s = Ret (rs, s') \<and> blk_rel s' a'
    | _ \<Rightarrow> blk_run ops s = Panic"
  using assms
proof (induction ops arbitrary: s a)
  case (Cons op ops)
  show ?case
  proof (cases "blk_of op \<notin> pending a \<and> NBUF \<le> card (pending a)")
    case True
    then have "bcache_read s (blk_of op) = Panic" using blk_op_panics [OF Cons.prems(1)] Cons.prems(2) by (simp add: good_op_def)
    then show ?thesis using True by (simp add: blk_op_def)
  next
    case False
    obtain s1 where s1: "blk_op op s = Ret (Some (seen (spec_op op a) (blk_of op)), s1)" "blk_rel s1 (spec_op op a)"
      using blk_op_refines [OF Cons.prems(1)] Cons.prems(2) False by (auto simp: not_le)
    have IH: "case spec_run ops (spec_op op a) of Ret (rs, a') \<Rightarrow> \<exists>s'. blk_run ops s1 = Ret (rs, s') \<and> blk_rel s' a' | _ \<Rightarrow> blk_run ops s1 = Panic"
      using Cons.IH [OF s1(2)] Cons.prems(2) by simp
    show ?thesis using IH s1(1) False by (cases "spec_run ops (spec_op op a)") auto
  qed
qed simp


text \<open>The cache before it is set up: the static array is zero, and the device answers every request.\<close>

definition cold :: "'a bsys_scheme \<Rightarrow> bool" where
  "cold s \<longleftrightarrow> buf_list s = [] \<and> (\<forall>i < NBUF. flags (bufs s i) = 0 \<and> refcnt (bufs s i) = 0) \<and>
    (\<forall>x. length (disk s x) = FS_BLK_SIZE \<and> \<not> io_err s x)"

definition fresh_spec :: "'a bsys_scheme \<Rightarrow> blk_spec" where
  "fresh_spec s = \<lparr>seen = (\<lambda>n. disk s (get_sector n)), saved = (\<lambda>n. disk s (get_sector n)), pending = {}\<rparr>"

lemma init_fold:
  fixes s :: "'a bsys_scheme"
  defines "f \<equiv> (\<lambda>i s. (upd_blk i (\<lambda>b. b\<lparr>blkno := UINT32_MAX, locked := False\<rparr>) s)\<lparr>buf_list := i # buf_list s\<rparr>)"
  shows "distinct xs \<Longrightarrow> bufs (fold f xs s) = (\<lambda>i. if i \<in> set xs then (bufs s i)\<lparr>blkno := UINT32_MAX, locked := False\<rparr> else bufs s i) \<and>
    buf_list (fold f xs s) = rev xs @ buf_list s \<and> disk (fold f xs s) = disk s \<and> io_err (fold f xs s) = io_err s"
  by (induction xs arbitrary: s) (auto simp: f_def fun_eq_iff)

lemma bcache_init_rel:
  assumes "cold s"
  shows "blk_rel (bcache_init s) (fresh_spec s)"
proof -
  let ?s = "bcache_init s"
  have b: "bufs ?s = (\<lambda>i. if i < NBUF then (bufs s i)\<lparr>blkno := UINT32_MAX, locked := False\<rparr> else bufs s i)"
    "buf_list ?s = rev [0..<NBUF]" "disk ?s = disk s" "io_err ?s = io_err s"
    using init_fold [of "[0..<NBUF]" s] assms unfolding bcache_init_def cold_def by (simp_all add: fun_eq_iff)
  have fl: "\<not> is_dirty_locked (bufs ?s i)" "\<not> is_valid_locked (bufs ?s i)" "blkno (bufs ?s i) = UINT32_MAX" "\<not> locked (bufs ?s i)"
    "refcnt (bufs ?s i) = 0" if "i < NBUF" for i
    using assms that unfolding b(1) by (simp_all add: cold_def dirty_bit valid_bit)
  have I: "bc_inv ?s" unfolding bc_inv_def using fl b(2,3) assms by (auto simp: cold_def)
  have "cache_request_locked ?s n = None" if "good_no n" for n
    using request_none [OF I that] fl that by (auto simp: good_no_def UINT32_MAX_def)
  then have "view ?s n = disk s (get_sector n)" if "good_no n" for n using that b(3) by (simp add: view_def)
  moreover have "held ?s = {}" "dirty_blks ?s = {}" using fl by (auto simp: held_def dirty_blks_def)
  ultimately show ?thesis using I b assms by (simp add: blk_rel_def bstate_def fresh_spec_def cold_def)
qed

lemma spec_run_append:
  "spec_run (xs @ ys) a = bind_out (spec_run xs a) (\<lambda>(rs, b). bind_out (spec_run ys b) (\<lambda>(rs', c). Ret (rs @ rs', c)))"
proof (induction xs arbitrary: a)
  case Nil
  show ?case by (cases "spec_run ys a") auto
next
  case (Cons op xs)
  show ?case by (simp add: Cons.IH bind_out_assoc split_def)
qed

lemma spec_writes:
  assumes "finite (pending a)" and "distinct ns" and "set ns \<inter> pending a = {}" and "card (pending a) + length ns \<le> NBUF"
  shows "\<exists>rs b. spec_run (map (\<lambda>n. Bwrite n (C n)) ns) a = Ret (rs, b) \<and> pending b = pending a \<union> set ns"
  using assms
proof (induction ns arbitrary: a)
  case (Cons n ns)
  let ?a = "spec_op (Bwrite n (C n)) a"
  have "\<exists>rs b. spec_run (map (\<lambda>n. Bwrite n (C n)) ns) ?a = Ret (rs, b) \<and> pending b = pending ?a \<union> set ns"
    using Cons.prems by (intro Cons.IH) auto
  then show ?case using Cons.prems by (auto split: if_splits)
qed simp


section \<open>Properties\<close>

text \<open>
  C6: The block cache implements a pair of maps.  From a cache that has just been set up, every sequence of
  reads, overwrites and write-backs of blocks returns what the maps return: a read gives the last contents
  written, and the disk holds of every block what it had at its last write-back.  The machine stops
  exactly when a block without unsaved changes is wanted while all 64 buffers hold unsaved changes.
\<close>

theorem bcache_refines_maps:
  assumes "cold s" and "\<forall>op \<in> set ops. good_op op"
  shows "case spec_run ops (fresh_spec s) of
      Ret (rs, a) \<Rightarrow> \<exists>s'. blk_run ops (bcache_init s) = Ret (rs, s') \<and>
        (\<forall>n. good_no n \<longrightarrow> view s' n = seen a n \<and> disk s' (get_sector n) = saved a n)
    | _ \<Rightarrow> blk_run ops (bcache_init s) = Panic"
proof (cases "spec_run ops (fresh_spec s)")
  case (Ret p)
  then show ?thesis using blk_run_refines [OF bcache_init_rel [OF assms(1)] assms(2)]
    by (cases p) (auto simp: blk_rel_def bstate_def)
qed (use blk_run_refines [OF bcache_init_rel [OF assms(1)] assms(2)] in auto)

definition cold_sys :: bsys where
  "cold_sys = \<lparr>disk = (\<lambda>_. replicate FS_BLK_SIZE 0), io_err = (\<lambda>_. False),
    bufs = (\<lambda>_. \<lparr>blkno = 0, refcnt = 0, locked = False, flags = 0, buf = []\<rparr>), buf_list = []\<rparr>"

lemma cold_cold_sys: "cold cold_sys"
  by (simp add: cold_def cold_sys_def)

theorem bcache_refines_maps_witness:
  "\<exists>s'. blk_run [Bwrite 3 (replicate FS_BLK_SIZE 7), Bflush 3, Bwrite 3 (replicate FS_BLK_SIZE 8), Bread 3] (bcache_init cold_sys) =
      Ret ([Some (replicate FS_BLK_SIZE 7), Some (replicate FS_BLK_SIZE 7), Some (replicate FS_BLK_SIZE 8), Some (replicate FS_BLK_SIZE 8)], s') \<and>
    disk s' (get_sector 3) = replicate FS_BLK_SIZE 7"
  using bcache_refines_maps [OF cold_cold_sys, of "[Bwrite 3 (replicate FS_BLK_SIZE 7), Bflush 3, Bwrite 3 (replicate FS_BLK_SIZE 8), Bread 3]"]
  by (auto simp: good_op_def good_no_def fresh_spec_def NBUF_def)

text \<open>
  C24: Nothing in the kernel writes blocks back, so the cache fills up: after 64 different blocks have been
  written, the next access to any other block stops the machine.
\<close>

theorem bcache_overflows:
  assumes "cold s" and "distinct ns" and "length ns = NBUF" and "\<forall>n \<in> set ns. good_no n \<and> length (C n) = FS_BLK_SIZE"
    and "good_no m" and "m \<notin> set ns"
  shows "(\<exists>r. blk_run (map (\<lambda>n. Bwrite n (C n)) ns) (bcache_init s) = Ret r) \<and>
    blk_run (map (\<lambda>n. Bwrite n (C n)) ns @ [Bread m]) (bcache_init s) = Panic"
proof -
  let ?W = "map (\<lambda>n. Bwrite n (C n)) ns"
  obtain rs b where r: "spec_run ?W (fresh_spec s) = Ret (rs, b)" "pending b = set ns"
    using spec_writes [of "fresh_spec s" ns C] assms(2,3) by (auto simp: fresh_spec_def)
  have "card (pending b) = NBUF" using r(2) assms(2,3) by (simp add: distinct_card)
  then have p: "spec_run (?W @ [Bread m]) (fresh_spec s) = Panic" using r assms(6) by (simp add: spec_run_append)
  have g: "\<forall>op \<in> set (?W @ [Bread m]). good_op op" using assms(4,5) by (auto simp: good_op_def)
  show ?thesis
    using blk_run_refines [OF bcache_init_rel [OF assms(1)], of ?W] blk_run_refines [OF bcache_init_rel [OF assms(1)] g] r(1) p g by auto
qed

theorem bcache_overflows_witness:
  "blk_run (map (\<lambda>n. Bwrite n (replicate FS_BLK_SIZE 1)) (map word_of_nat [0..<NBUF]) @ [Bread 64]) (bcache_init cold_sys) = Panic"
proof -
  have "inj_on (word_of_nat :: nat \<Rightarrow> u32) {0..<NBUF}" by (auto simp: inj_on_def NBUF_def word_unat_eq_iff unat_of_nat)
  moreover have k: "good_no (word_of_nat k)" "(64 :: u32) \<noteq> word_of_nat k" if "k < NBUF" for k
    using that by (auto simp: good_no_def NBUF_def word_less_nat_alt unat_of_nat word_unat_eq_iff)
  moreover have "(64 :: u32) \<notin> word_of_nat ` {0..<NBUF}" using k(2) by (metis atLeastLessThan_iff imageE)
  ultimately show ?thesis
    using bcache_overflows [OF cold_cold_sys, of "map word_of_nat [0..<NBUF]" "\<lambda>_. replicate FS_BLK_SIZE 1" 64]
    by (auto simp: distinct_map good_no_def)
qed

end
