(* ===== verification/Balloc.thy ===== *)
theory Balloc
  imports Prelude Bitmap Bcache "HOL-Library.Signed_Division"
begin

text \<open>
  The superblock of \<^verbatim>\<open>include/kernel/fs_layout.h\<close> and the block allocator of \<^verbatim>\<open>kernel/core/fs/balloc.c\<close>,
  which keeps one bit for each data block in bitmap blocks it reads through the cache.
\<close>

section \<open>Layout\<close>

definition FS_SUPERBLK :: u32 where [layout_defs]: "FS_SUPERBLK = 1"
definition FS_MAGIC_NUMBER :: u32 where [layout_defs]: "FS_MAGIC_NUMBER = 69"
definition FS_ROOT_INODE_ID :: u32 where [layout_defs]: "FS_ROOT_INODE_ID = 1"
definition FS_BM_BITS_PER_BLK :: nat where [layout_defs]: "FS_BM_BITS_PER_BLK = 4096 * 8"

record fs_meta =
  magic :: u32
  nb_blk :: u32
  blk_size :: u32
  nb_ibm :: u32
  nb_dbm :: u32
  nb_itab :: u32
  nb_dblk :: u32
  ibm_start :: u32
  dbm_start :: u32
  itab_start :: u32
  data_start :: u32

record msys = bsys +
  sb :: fs_meta

section \<open>Operations\<close>

definition bit_to_blkno :: "fs_meta \<Rightarrow> u32 \<Rightarrow> u32 \<Rightarrow> u32" where
  "bit_to_blkno m bit_idx bbm_nb = bit_idx + bbm_nb * word_of_nat FS_BM_BITS_PER_BLK + data_start m"

text \<open>The loop of \<^verbatim>\<open>bbm_alloc\<close> over the numbers of the bitmap blocks that are left.\<close>

fun bbm_scan :: "'a msys_scheme \<Rightarrow> nat list \<Rightarrow> (int \<times> 'a msys_scheme) outcome" where
  "bbm_scan s [] = Ret (- ENOSPC, s)"
| "bbm_scan s (i # is) =
    bind_out (bcache_read s (dbm_start (sb s) + word_of_nat i)) (\<lambda>(r, s1).
      case r of
        None \<Rightarrow> Ret (- EIO, s1)
      | Some c \<Rightarrow>
          (case bm_find_first_zero (buf (bufs s1 c)) (word_of_nat FS_BM_BITS_PER_BLK) of
             None \<Rightarrow> Undef
           | Some bit_idx \<Rightarrow>
               if 0 \<le> bit_idx then
                 (let n = bit_to_blkno (sb s1) (word_of_int bit_idx) (word_of_nat i) in
                  if nb_blk (sb s1) \<le> n then Ret (- ENOSPC, bcache_release s1 c)
                  else case bm_set_bit (buf (bufs s1 c)) bit_idx of
                    None \<Rightarrow> Undef
                  | Some b \<Rightarrow> Ret (sint n, bcache_release (bcache_mark_dirty (fill c (\<lambda>_. b) s1) c) c))
               else bbm_scan (bcache_release s1 c) is))"

definition bbm_alloc :: "'a msys_scheme \<Rightarrow> (int \<times> 'a msys_scheme) outcome" where
  "bbm_alloc s = bbm_scan s [0..<unat (nb_dbm (sb s))]"

definition bbm_free :: "'a msys_scheme \<Rightarrow> u32 \<Rightarrow> (int \<times> 'a msys_scheme) outcome" where
  "bbm_free s n =
    (if n < data_start (sb s) \<or> data_start (sb s) + nb_dblk (sb s) \<le> n then Ret (- EINVAL, s)
     else
       (let idx = sint (n - data_start (sb s)) in
        bind_out (bcache_read s (dbm_start (sb s) + word_of_int (idx sdiv int FS_BM_BITS_PER_BLK))) (\<lambda>(r, s1).
          case r of
            None \<Rightarrow> Ret (- EIO, s1)
          | Some c \<Rightarrow>
              (case bm_clear_bit (buf (bufs s1 c)) (idx smod int FS_BM_BITS_PER_BLK) of
                 None \<Rightarrow> Undef
               | Some b \<Rightarrow> Ret (0, bcache_release (bcache_mark_dirty (fill c (\<lambda>_. b) s1) c) c)))))"

definition balloc :: "'a msys_scheme \<Rightarrow> (int \<times> 'a msys_scheme) outcome" where
  "balloc s =
    bind_out (bbm_alloc s) (\<lambda>(n, s1).
      if n < 0 then Ret (n, s1)
      else bind_out (bcache_read s1 (word_of_int n)) (\<lambda>(r, s2).
        case r of
          None \<Rightarrow> bind_out (bbm_free s2 (word_of_int n)) (\<lambda>(_, s3). Ret (- EIO, s3))
        | Some c \<Rightarrow>
            Ret (n, bcache_release (bcache_mark_dirty (fill c (\<lambda>_. replicate FS_BLK_SIZE 0) s2) c) c)))"

definition bfree :: "'a msys_scheme \<Rightarrow> u32 \<Rightarrow> (int \<times> 'a msys_scheme) outcome" where
  "bfree s n = bbm_free (bcache_invalidate s n) n"


section \<open>The layout and the bitmap\<close>

text \<open>The regions follow one another, the data blocks last.\<close>

definition fs_ok :: "fs_meta \<Rightarrow> bool" where
  "fs_ok m \<longleftrightarrow> 2 \<le> unat (ibm_start m) \<and> unat (ibm_start m) + unat (nb_ibm m) \<le> unat (dbm_start m) \<and>
    unat (dbm_start m) + unat (nb_dbm m) \<le> unat (itab_start m) \<and>
    unat (itab_start m) + unat (nb_itab m) \<le> unat (data_start m) \<and>
    unat (data_start m) + unat (nb_dblk m) = unat (nb_blk m) \<and>
    unat (nb_blk m) < 2 ^ 28 \<and> unat (nb_dbm m) * FS_BM_BITS_PER_BLK < 2 ^ 28"

definition bm_blk :: "fs_meta \<Rightarrow> nat \<Rightarrow> u32" where
  "bm_blk m idx = dbm_start m + word_of_nat (idx div FS_BM_BITS_PER_BLK)"

definition data_blk :: "fs_meta \<Rightarrow> nat \<Rightarrow> u32" where
  "data_blk m idx = data_start m + word_of_nat idx"

text \<open>The data block of an index is marked as used.\<close>

definition used :: "(u32 \<Rightarrow> u8 list) \<Rightarrow> fs_meta \<Rightarrow> nat \<Rightarrow> bool" where
  "used V m idx \<longleftrightarrow> bm_bit (V (bm_blk m idx)) (idx mod FS_BM_BITS_PER_BLK)"

definition data_idx :: "fs_meta \<Rightarrow> nat \<Rightarrow> bool" where
  "data_idx m idx \<longleftrightarrow> idx < unat (nb_dblk m) \<and> idx < unat (nb_dbm m) * FS_BM_BITS_PER_BLK"

lemma sb_more: "bsys.more s = bsys.more s' \<Longrightarrow> sb s = sb s'"
  by (cases s; cases s') simp

lemma find_zero_blk:
  assumes "length b = FS_BLK_SIZE"
  shows "bm_find_first_zero b (word_of_nat FS_BM_BITS_PER_BLK) = Some (- 1) \<and> (\<forall>j < FS_BM_BITS_PER_BLK. bm_bit b j) \<or>
    (\<exists>k < FS_BM_BITS_PER_BLK. bm_find_first_zero b (word_of_nat FS_BM_BITS_PER_BLK) = Some (int k) \<and> \<not> bm_bit b k \<and> (\<forall>j < k. bm_bit b j))"
  using bm_scan_spec [of 512 b 0] assms by (simp add: bm_find_first_zero_def FS_BM_BITS_PER_BLK_def FS_BLK_SIZE_def)

lemma bm_blk_good:
  assumes "fs_ok m" and "i < unat (nb_dbm m)"
  shows "good_no (dbm_start m + word_of_nat i)" "unat (dbm_start m + word_of_nat i) = unat (dbm_start m) + i"
proof -
  have "unat (word_of_nat i :: u32) = i" using assms by (simp add: unat_of_nat fs_ok_def FS_BM_BITS_PER_BLK_def take_bit_nat_eq_self_iff)
  then show u: "unat (dbm_start m + word_of_nat i) = unat (dbm_start m) + i" using assms
    by (simp add: fs_ok_def unat_word_ariths(1))
  show "good_no (dbm_start m + word_of_nat i)" using assms u by (simp add: good_no_def word_less_nat_alt fs_ok_def)
qed

lemma data_blk_good:
  assumes "fs_ok m" and "idx < unat (nb_dblk m)"
  shows "good_no (data_blk m idx)" "unat (data_blk m idx) = unat (data_start m) + idx"
proof -
  have "unat (word_of_nat idx :: u32) = idx" using assms by (simp add: unat_of_nat fs_ok_def take_bit_nat_eq_self_iff)
  then show u: "unat (data_blk m idx) = unat (data_start m) + idx" using assms
    by (simp add: data_blk_def fs_ok_def unat_word_ariths(1))
  show "good_no (data_blk m idx)" using assms u by (simp add: good_no_def word_less_nat_alt fs_ok_def)
qed

lemma bit_to_blkno_val:
  assumes "fs_ok m" and "k < FS_BM_BITS_PER_BLK" and "i < unat (nb_dbm m)"
  shows "bit_to_blkno m (word_of_nat k) (word_of_nat i) = data_blk m (i * FS_BM_BITS_PER_BLK + k)"
    and "unat (data_blk m (i * FS_BM_BITS_PER_BLK + k)) = unat (data_start m) + (i * FS_BM_BITS_PER_BLK + k)"
proof -
  have c: "i * FS_BM_BITS_PER_BLK + k < unat (nb_dbm m) * FS_BM_BITS_PER_BLK"
    using assms(2) mult_le_mono1 [of "Suc i" "unat (nb_dbm m)" FS_BM_BITS_PER_BLK] assms(3) by simp
  show "bit_to_blkno m (word_of_nat k) (word_of_nat i) = data_blk m (i * FS_BM_BITS_PER_BLK + k)"
    by (simp add: bit_to_blkno_def data_blk_def)
  have "unat (word_of_nat x :: u32) = x" if "x < 2 ^ 28" for x
    using that by (simp add: unat_of_nat take_bit_nat_eq_self_iff)
  then have "unat (word_of_nat (i * FS_BM_BITS_PER_BLK + k) :: u32) = i * FS_BM_BITS_PER_BLK + k"
    using assms(1) c unfolding fs_ok_def by (meson less_trans)
  then show "unat (data_blk m (i * FS_BM_BITS_PER_BLK + k)) = unat (data_start m) + (i * FS_BM_BITS_PER_BLK + k)"
    unfolding data_blk_def using assms(1) c by (simp add: fs_ok_def unat_word_ariths(1) del: of_nat_add of_nat_mult)
qed

lemma used_at:
  assumes "k < FS_BM_BITS_PER_BLK"
  shows "used V m (i * FS_BM_BITS_PER_BLK + k) \<longleftrightarrow> bm_bit (V (dbm_start m + word_of_nat i)) k"
  using assms by (simp add: used_def bm_blk_def)


section \<open>Allocation\<close>

lemma view_len:
  assumes "bstate s V H k" and "good_no n"
  shows "length (V n) = FS_BLK_SIZE"
proof -
  have I: "bc_inv s" and v: "V n = view s n" using assms by (auto simp: bstate_def)
  show ?thesis
  proof (cases "cache_request_locked s n")
    case (Some i)
    then have i: "i < NBUF" "blkno (bufs s i) = n" using request_some [OF I assms(2)] by auto
    then show ?thesis using view_slot [OF I assms(2) i] v I by (auto simp: bc_inv_def)
  qed (use v I in \<open>auto simp: view_def bc_inv_def\<close>)
qed

text \<open>A search that ends without a free block, and one that marks the first free block.\<close>

definition no_free :: "(u32 \<Rightarrow> u8 list) \<Rightarrow> fs_meta \<Rightarrow> bool" where
  "no_free V m \<longleftrightarrow> (\<forall>idx. data_idx m idx \<longrightarrow> used V m idx)"

definition first_free :: "(u32 \<Rightarrow> u8 list) \<Rightarrow> fs_meta \<Rightarrow> nat \<Rightarrow> bool" where
  "first_free V m idx \<longleftrightarrow> data_idx m idx \<and> \<not> used V m idx \<and> (\<forall>j < idx. used V m j)"

definition bm_marked :: "(u32 \<Rightarrow> u8 list) \<Rightarrow> fs_meta \<Rightarrow> nat \<Rightarrow> u8 list \<Rightarrow> bool" where
  "bm_marked V m idx b \<longleftrightarrow> length b = FS_BLK_SIZE \<and>
    (\<forall>j. bm_bit b j \<longleftrightarrow> j = idx mod FS_BM_BITS_PER_BLK \<or> bm_bit (V (bm_blk m idx)) j)"

lemma bbm_scan_spec:
  assumes "bstate s V H (Suc k)" and "fs_ok m" and "sb s = m" and "i \<le> unat (nb_dbm m)" and "\<forall>j < i * FS_BM_BITS_PER_BLK. used V m j"
    and "\<forall>i < unat (nb_dbm m). dbm_start m + word_of_nat i \<notin> H"
  shows "(\<exists>s'. bbm_scan s [i..<unat (nb_dbm m)] = Ret (- ENOSPC, s') \<and> bstate s' V H (Suc k) \<and> bsys.more s' = bsys.more s \<and> no_free V m) \<or>
    (\<exists>idx s' b. first_free V m idx \<and> bm_marked V m idx b \<and> bbm_scan s [i..<unat (nb_dbm m)] = Ret (sint (data_blk m idx), s') \<and>
      bstate s' (V(bm_blk m idx := b)) H k \<and> bsys.more s' = bsys.more s \<and> (\<forall>c x. holds s c x \<longrightarrow> holds s' c x))"
  using assms
proof (induction "unat (nb_dbm m) - i" arbitrary: s i)
  case 0
  then have "i = unat (nb_dbm m)" by simp
  then show ?case using 0 by (auto simp: no_free_def data_idx_def)
next
  case (Suc d)
  let ?B = FS_BM_BITS_PER_BLK and ?n = "dbm_start m + word_of_nat i"
  have i: "i < unat (nb_dbm m)" using Suc.hyps(2) by simp
  then have u: "[i..<unat (nb_dbm m)] = i # [Suc i..<unat (nb_dbm m)]" by (simp add: upt_conv_Cons)
  have g: "good_no ?n" using bm_blk_good [OF Suc.prems(2) i] by simp
  obtain c s1 where a: "bcache_read s ?n = Ret (Some c, s1)" "buf (bufs s1 c) = V ?n" "bsys.more s1 = bsys.more s"
    "bstate (bcache_release s1 c) V H (Suc k)" "bsys.more (bcache_release s1 c) = bsys.more s"
    "\<And>f. length (f (V ?n)) = FS_BLK_SIZE \<Longrightarrow> bstate (bcache_release (bcache_mark_dirty (fill c f s1) c) c) (V(?n := f (V ?n))) H k \<and>
      (\<forall>c' x. holds s c' x \<longrightarrow> holds (bcache_release (bcache_mark_dirty (fill c f s1) c) c) c' x)"
    "\<forall>c' x. holds s c' x \<longrightarrow> holds (bcache_release s1 c) c' x"
    using bs.access [OF Suc.prems(1) g] Suc.prems(6) i by blast
  have sb1: "sb s1 = m" "sb (bcache_release s1 c) = m" using sb_more [OF a(3)] sb_more [OF a(5)] Suc.prems(3) by simp_all
  have len: "length (V ?n) = FS_BLK_SIZE" using view_len [OF Suc.prems(1) g] .
  consider (full) "bm_find_first_zero (V ?n) (word_of_nat ?B) = Some (- 1)" "\<forall>j < ?B. bm_bit (V ?n) j" |
    (zero) z where "z < ?B" "bm_find_first_zero (V ?n) (word_of_nat ?B) = Some (int z)" "\<not> bm_bit (V ?n) z" "\<forall>j < z. bm_bit (V ?n) j"
    using find_zero_blk [OF len] by blast
  then show ?case
  proof cases
    case full
    have "\<forall>j < Suc i * ?B. used V m j"
    proof (intro allI impI)
      fix j assume j: "j < Suc i * ?B"
      show "used V m j"
      proof (cases "j < i * ?B")
        case False
        then have "j = i * ?B + (j - i * ?B)" "j - i * ?B < ?B" using j by auto
        then show ?thesis using used_at [of "j - i * ?B" V m i] full(2) by simp
      qed (use Suc.prems(5) in simp)
    qed
    moreover have "d = unat (nb_dbm m) - Suc i" "Suc i \<le> unat (nb_dbm m)" using Suc.hyps(2) i by simp_all
    ultimately have "?thesis" if "bbm_scan s [i..<unat (nb_dbm m)] = bbm_scan (bcache_release s1 c) [Suc i..<unat (nb_dbm m)]"
      using Suc.hyps(1) [of "Suc i" "bcache_release s1 c"] a(4,5,7) Suc.prems(2,6) sb1(2) that by (simp, blast)
    moreover have "bbm_scan s [i..<unat (nb_dbm m)] = bbm_scan (bcache_release s1 c) [Suc i..<unat (nb_dbm m)]"
      unfolding u using a(1,2) full(1) Suc.prems(3) by simp
    ultimately show ?thesis by simp
  next
    case (zero z)
    let ?x = "i * ?B + z"
    have sc: "bbm_scan s [i..<unat (nb_dbm m)] = (if nb_blk m \<le> data_blk m ?x then Ret (- ENOSPC, bcache_release s1 c)
        else case bm_set_bit (V ?n) (int z) of None \<Rightarrow> Undef
          | Some b \<Rightarrow> Ret (sint (data_blk m ?x), bcache_release (bcache_mark_dirty (fill c (\<lambda>_. b) s1) c) c))"
      unfolding u using a(1,2) zero(2) Suc.prems(3) sb1(1) bit_to_blkno_val(1) [OF Suc.prems(2) zero(1) i] by simp
    have ux: "unat (data_blk m ?x) = unat (data_start m) + ?x" using bit_to_blkno_val(2) [OF Suc.prems(2) zero(1) i] .
    have before: "used V m j" if "j < ?x" for j
    proof (cases "j < i * ?B")
      case False
      then have "j = i * ?B + (j - i * ?B)" "j - i * ?B < z" using that by auto
      then show ?thesis using used_at [of "j - i * ?B" V m i] zero(1,4) by simp
    qed (use Suc.prems(5) in simp)
    show ?thesis
    proof (cases "nb_blk m \<le> data_blk m ?x")
      case True
      then have "unat (nb_dblk m) \<le> ?x" using ux Suc.prems(2) by (simp add: word_le_nat_alt fs_ok_def)
      then have "no_free V m" using before by (auto simp: no_free_def data_idx_def)
      then show ?thesis using sc True a(4,5) by auto
    next
      case False
      have "?x < unat (nb_dbm m) * ?B" using zero(1) mult_le_mono1 [of "Suc i" "unat (nb_dbm m)" ?B] i by simp
      then have "data_idx m ?x" using False ux Suc.prems(2) by (simp add: word_le_nat_alt fs_ok_def data_idx_def)
      then have ff: "first_free V m ?x" using before used_at [OF zero(1), of V m i] zero(3) by (simp add: first_free_def)
      have bx: "bm_blk m ?x = ?n" "?x mod ?B = z" using zero(1) by (simp_all add: bm_blk_def)
      obtain b where b: "bm_set_bit (V ?n) (int z) = Some b" "length b = length (V ?n)" "\<And>j. bm_bit b j \<longleftrightarrow> j = z \<or> bm_bit (V ?n) j"
        using bm_set_bit_spec [of z "V ?n"] zero(1) len by (auto simp: FS_BM_BITS_PER_BLK_def FS_BLK_SIZE_def)
      have "bm_marked V m ?x b" using b(2,3) len bx by (simp add: bm_marked_def)
      moreover have "bstate (bcache_release (bcache_mark_dirty (fill c (\<lambda>_. b) s1) c) c) (V(bm_blk m ?x := b)) H k"
        "\<forall>c' x. holds s c' x \<longrightarrow> holds (bcache_release (bcache_mark_dirty (fill c (\<lambda>_. b) s1) c) c) c' x"
        using a(6) [of "\<lambda>_. b"] b(2) len bx by simp_all
      ultimately show ?thesis using sc False ff b(1) a(3) by (intro disjI2 exI [of _ ?x]) auto
    qed
  qed
qed


lemma sint_data_blk:
  assumes "fs_ok m" and "idx < unat (nb_dblk m)"
  shows "sint (data_blk m idx) = int (unat (data_blk m idx))"
proof -
  have "unat (data_blk m idx) < 2 ^ 28" using data_blk_good(1) [OF assms] by (simp add: good_no_def word_less_nat_alt)
  then show ?thesis using sint_small [of "unat (data_blk m idx)"] by simp
qed

text \<open>A search for a block while the blocks of \<open>H\<close> are held.\<close>

lemma balloc_spec:
  assumes B: "bstate s V H (Suc (Suc k))" and ok: "fs_ok (sb s)"
    and hb: "\<forall>i < unat (nb_dbm (sb s)). dbm_start (sb s) + word_of_nat i \<notin> H"
    and hd: "\<forall>idx. first_free V (sb s) idx \<longrightarrow> data_blk (sb s) idx \<notin> H"
  shows "(no_free V (sb s) \<and> (\<exists>s'. balloc s = Ret (- ENOSPC, s') \<and> bstate s' V H (Suc (Suc k)) \<and> bsys.more s' = bsys.more s)) \<or>
    (\<exists>idx s' b. first_free V (sb s) idx \<and> bm_marked V (sb s) idx b \<and> balloc s = Ret (int (unat (data_blk (sb s) idx)), s') \<and>
      bstate s' (V(bm_blk (sb s) idx := b, data_blk (sb s) idx := replicate FS_BLK_SIZE 0)) H k \<and> bsys.more s' = bsys.more s \<and> (\<forall>c x. holds s c x \<longrightarrow> holds s' c x))"
proof -
  let ?m = "sb s"
  consider (none) s' where "bbm_alloc s = Ret (- ENOSPC, s')" "bstate s' V H (Suc (Suc k))" "bsys.more s' = bsys.more s" "no_free V ?m" |
    (some) idx s' b where "first_free V ?m idx" "bm_marked V ?m idx b" "bbm_alloc s = Ret (sint (data_blk ?m idx), s')"
      "bstate s' (V(bm_blk ?m idx := b)) H (Suc k)" "bsys.more s' = bsys.more s" "\<forall>c x. holds s c x \<longrightarrow> holds s' c x"
    using bbm_scan_spec [OF B ok refl, of 0] hb unfolding bbm_alloc_def by auto
  then show ?thesis
  proof cases
    case none
    then show ?thesis by (simp add: balloc_def ENOSPC_def)
  next
    case (some idx s' b)
    have x: "idx < unat (nb_dblk ?m)" using some(1) by (simp add: first_free_def data_idx_def)
    have n: "good_no (data_blk ?m idx)" "data_blk ?m idx \<notin> H" using data_blk_good [OF ok x] hd some(1) by auto
    obtain c s1 where ac: "bcache_read s' (data_blk ?m idx) = Ret (Some c, s1)"
      "bstate (bcache_release (bcache_mark_dirty (fill c (\<lambda>_. replicate FS_BLK_SIZE 0) s1) c) c)
         (V(bm_blk ?m idx := b, data_blk ?m idx := replicate FS_BLK_SIZE 0)) H k"
      "bsys.more (bcache_release (bcache_mark_dirty (fill c (\<lambda>_. replicate FS_BLK_SIZE 0) s1) c) c) = bsys.more s'"
      "\<forall>c' x. holds s' c' x \<longrightarrow> holds (bcache_release (bcache_mark_dirty (fill c (\<lambda>_. replicate FS_BLK_SIZE 0) s1) c) c) c' x"
      using bs.access [OF some(4) n] by (metis length_replicate)
    have "word_of_int (int (unat (data_blk ?m idx))) = data_blk ?m idx" by simp
    then have "balloc s = Ret (int (unat (data_blk ?m idx)), bcache_release (bcache_mark_dirty (fill c (\<lambda>_. replicate FS_BLK_SIZE 0) s1) c) c)"
      using some(3) ac(1) sint_data_blk [OF ok x] by (simp add: balloc_def)
    moreover have "bsys.more (bcache_release (bcache_mark_dirty (fill c (\<lambda>_. replicate FS_BLK_SIZE 0) s1) c) c) = bsys.more s"
      using ac(3) some(5) by (rule trans)
    ultimately show ?thesis using some(1,2,6) ac(2,4) by blast
  qed
qed

lemma used_marked:
  assumes "fs_ok m" and "data_idx m idx" and "data_idx m j" and "bm_marked V m idx b"
  shows "used (V(bm_blk m idx := b, data_blk m idx := z)) m j \<longleftrightarrow> used V m j \<or> j = idx"
proof -
  have lt: "j div FS_BM_BITS_PER_BLK < unat (nb_dbm m)" "idx div FS_BM_BITS_PER_BLK < unat (nb_dbm m)"
    using assms(2,3) by (simp_all add: data_idx_def less_mult_imp_div_less)
  note bj = bm_blk_good(2) [OF assms(1) lt(1)] and bi = bm_blk_good(2) [OF assms(1) lt(2)]
  have "unat (data_blk m idx) = unat (data_start m) + idx" using data_blk_good(2) [OF assms(1)] assms(2) by (simp add: data_idx_def)
  then have "unat (bm_blk m j) < unat (data_blk m idx)" using bj lt(1) assms(1) unfolding bm_blk_def fs_ok_def by linarith
  then have nd: "bm_blk m j \<noteq> data_blk m idx" by auto
  have same: "bm_blk m j = bm_blk m idx \<longleftrightarrow> j div FS_BM_BITS_PER_BLK = idx div FS_BM_BITS_PER_BLK"
    using bi bj unfolding bm_blk_def by (metis add_left_imp_eq)
  show ?thesis
  proof (cases "j div FS_BM_BITS_PER_BLK = idx div FS_BM_BITS_PER_BLK")
    case True
    then have "j mod FS_BM_BITS_PER_BLK = idx mod FS_BM_BITS_PER_BLK \<longleftrightarrow> j = idx" by (metis mult_div_mod_eq)
    then show ?thesis using True same nd assms(4) by (auto simp: used_def bm_marked_def)
  qed (use same nd in \<open>auto simp: used_def\<close>)
qed


section \<open>Release\<close>

lemma binvalidate:
  assumes B: "bstate s V H k" and n: "good_no n" "n \<notin> H"
  shows "bstate (bcache_invalidate s n) (V(n := disk s (get_sector n))) H k" and "bsys.more (bcache_invalidate s n) = bsys.more s"
proof -
  have I: "bc_inv s" and V: "\<And>m. good_no m \<Longrightarrow> view s m = V m" and H: "held s = H" and c: "k \<le> card (reusable s)" using B by (auto simp: bstate_def)
  show "bsys.more (bcache_invalidate s n) = bsys.more s" by (simp add: bcache_invalidate_def split: option.split)
  show "bstate (bcache_invalidate s n) (V(n := disk s (get_sector n))) H k"
  proof (cases "cache_request_locked s n")
    case None
    then have "bcache_invalidate s n = s" "V n = disk s (get_sector n)" using V [OF n(1)] by (simp_all add: bcache_invalidate_def view_def)
    then show ?thesis using B by (simp add: fun_upd_idem)
  next
    case (Some i)
    let ?s = "upd_blk i (\<lambda>b. (clear_valid_locked (clear_dirty_locked b))\<lparr>blkno := UINT32_MAX\<rparr>) s"
    have i: "i < NBUF" "blkno (bufs s i) = n" using request_some [OF I n(1)] Some by auto
    have s': "bcache_invalidate s n = ?s" using Some by (simp add: bcache_invalidate_def)
    have max: "good_no q \<Longrightarrow> q \<noteq> UINT32_MAX" for q by (auto simp: good_no_def UINT32_MAX_def)
    have u: "blkno (bufs s j) \<noteq> n" if "j < NBUF" "j \<noteq> i" for j using I n(1) i that max unfolding bc_inv_def by metis
    have inv: "bc_inv ?s" using I i by (auto simp: bc_inv_def)
    have rq: "cache_request_locked ?s q = (if q = n then None else cache_request_locked s q)" if q: "good_no q" for q
    proof (cases "cache_request_locked s q")
      case None
      then have "blkno (bufs ?s j) \<noteq> q" if "j < NBUF" for j using request_none [OF I q] max [OF q] that by (cases "j = i") auto
      then show ?thesis using None request_none [OF inv q] by simp
    next
      case (Some j)
      then have j: "j < NBUF" "blkno (bufs s j) = q" using request_some [OF I q] by auto
      show ?thesis
      proof (cases "q = n")
        case True
        then show ?thesis using request_none [OF inv q] u max [OF q] by auto
      next
        case False
        then have "j \<noteq> i" using i j by auto
        then show ?thesis using request_some [OF inv q, of j] j Some False by simp
      qed
    qed
    have "view ?s q = (V(n := disk s (get_sector n))) q" if q: "good_no q" for q
    proof (cases "q = n")
      case True
      then show ?thesis using rq [OF q] by (simp add: view_def)
    next
      case False
      then have "j \<noteq> i" if "cache_request_locked s q = Some j" for j using request_some [OF I q, of j] that i by auto
      then have "view ?s q = view s q" using rq [OF q] False by (cases "cache_request_locked s q") (simp_all add: view_def)
      then show ?thesis using V [OF q] False by simp
    qed
    moreover have "\<not> locked (bufs s i)" using n(2) H i by (auto simp: held_def)
    then have "held ?s = H" unfolding H [symmetric] held_def by auto
    moreover have "reusable s \<subseteq> reusable ?s" by (auto simp: reusable_def)
    then have "k \<le> card (reusable ?s)" by (rule order_trans [OF c card_mono [OF finite_reusable]])
    ultimately show ?thesis using s' inv B by (simp add: bstate_def)
  qed
qed

lemma sdiv_nat: "(int a) sdiv (int b) = int (a div b)" "(int a) smod (int b) = int (a mod b)"
proof -
  have "sgn (int a) * sgn (int b) * (int a div int b) = int a div int b" by (cases "a = 0"; cases "b = 0") simp_all
  then show "(int a) sdiv (int b) = int (a div b)" by (simp add: signed_divide_int_def of_nat_div)
  then show "(int a) smod (int b) = int (a mod b)" by (cases "a = 0") (simp_all add: signed_modulo_int_def of_nat_mod)
qed

lemma bfree_spec:
  assumes B: "bstate s V H (Suc k)" and ok: "fs_ok (sb s)" and idx: "data_idx (sb s) idx"
    and hb: "\<forall>i < unat (nb_dbm (sb s)). dbm_start (sb s) + word_of_nat i \<notin> H" and hn: "data_blk (sb s) idx \<notin> H"
  shows "\<exists>s' V'. bfree s (data_blk (sb s) idx) = Ret (0, s') \<and> bstate s' V' H k \<and> bsys.more s' = bsys.more s \<and>
    (\<forall>n. n \<noteq> data_blk (sb s) idx \<and> n \<noteq> bm_blk (sb s) idx \<longrightarrow> V' n = V n) \<and>
    (\<forall>j. data_idx (sb s) j \<longrightarrow> used V' (sb s) j = (used V (sb s) j \<and> j \<noteq> idx))"
proof -
  let ?m = "sb s" and ?B = FS_BM_BITS_PER_BLK and ?n = "data_blk (sb s) idx"
  let ?s = "bcache_invalidate s ?n" and ?V = "V(?n := disk s (get_sector ?n))"
  have x: "idx < unat (nb_dblk ?m)" "idx div ?B < unat (nb_dbm ?m)" using idx by (simp_all add: data_idx_def less_mult_imp_div_less)
  have n: "good_no ?n" "unat ?n = unat (data_start ?m) + idx" using data_blk_good [OF ok x(1)] by auto
  have B1: "bstate ?s ?V H (Suc k)" and mo: "bsys.more ?s = bsys.more s" using binvalidate [OF B n(1) hn] by auto
  have sb: "sb ?s = ?m" using sb_more [OF mo] .
  have bb: "good_no (bm_blk ?m idx)" "unat (bm_blk ?m idx) = unat (dbm_start ?m) + idx div ?B" "bm_blk ?m idx \<notin> H"
    using bm_blk_good [OF ok x(2)] hb x(2) by (simp_all add: bm_blk_def)
  then have "unat (bm_blk ?m idx) < unat ?n" using n(2) x(2) ok unfolding fs_ok_def by linarith
  then have nb: "bm_blk ?m idx \<noteq> ?n" by auto
  obtain c s1 where a: "bcache_read ?s (bm_blk ?m idx) = Ret (Some c, s1)" "buf (bufs s1 c) = ?V (bm_blk ?m idx)"
    "\<And>f. length (f (?V (bm_blk ?m idx))) = FS_BLK_SIZE \<Longrightarrow>
      bstate (bcache_release (bcache_mark_dirty (fill c f s1) c) c) (?V(bm_blk ?m idx := f (?V (bm_blk ?m idx)))) H k \<and>
      bsys.more (bcache_release (bcache_mark_dirty (fill c f s1) c) c) = bsys.more ?s"
    using bs.access [OF B1 bb(1,3)] by blast
  have len: "length (V (bm_blk ?m idx)) = FS_BLK_SIZE" using view_len [OF B bb(1)] .
  have "idx mod ?B < ?B" by (simp add: FS_BM_BITS_PER_BLK_def)
  then have mb: "idx mod ?B < 32768" "idx mod ?B < 2 ^ 31" by (simp_all add: FS_BM_BITS_PER_BLK_def)
  obtain b where b: "bm_clear_bit (V (bm_blk ?m idx)) (int (idx mod ?B)) = Some b" "length b = FS_BLK_SIZE"
    "\<And>j. bm_bit b j \<longleftrightarrow> j \<noteq> idx mod ?B \<and> bm_bit (V (bm_blk ?m idx)) j"
    using bm_clear_bit_spec [of "idx mod ?B" "V (bm_blk ?m idx)"] len mb by (auto simp: FS_BLK_SIZE_def)
  let ?s' = "bcache_release (bcache_mark_dirty (fill c (\<lambda>_. b) s1) c) c" and ?V' = "?V(bm_blk ?m idx := b)"
  have u: "unat (?n - data_start ?m) = idx" using x(1) ok by (simp add: fs_ok_def data_blk_def unat_of_nat)
  have si: "sint (?n - data_start ?m) = int idx"
    using sint_small [of idx] u x(1) ok by (simp add: fs_ok_def data_blk_def)
  have rng: "\<not> (?n < data_start ?m \<or> data_start ?m + nb_dblk ?m \<le> ?n)"
  proof -
    have "unat (data_start ?m + nb_dblk ?m) = unat (data_start ?m) + unat (nb_dblk ?m)" using ok by (simp add: fs_ok_def unat_word_ariths(1))
    then show ?thesis using n(2) x(1) by (simp add: word_less_nat_alt word_le_nat_alt)
  qed
  have "bfree s ?n = Ret (0, ?s')" using rng a(1,2) b(1) nb sb si
    by (simp add: bfree_def bbm_free_def sdiv_nat bm_blk_def)
  moreover have "bstate ?s' ?V' H k" "bsys.more ?s' = bsys.more s" using a(3) [of "\<lambda>_. b"] b(2) mo by simp_all
  moreover have "used ?V' ?m j \<longleftrightarrow> used V ?m j \<and> j \<noteq> idx" if j: "data_idx ?m j" for j
  proof -
    have lj: "j div ?B < unat (nb_dbm ?m)" using j by (simp add: data_idx_def less_mult_imp_div_less)
    have bj: "unat (bm_blk ?m j) = unat (dbm_start ?m) + j div ?B" using bm_blk_good(2) [OF ok lj] by (simp add: bm_blk_def)
    then have "unat (bm_blk ?m j) < unat ?n" using n(2) lj ok unfolding fs_ok_def by linarith
    then have nj: "bm_blk ?m j \<noteq> ?n" by auto
    have same: "bm_blk ?m j = bm_blk ?m idx \<longleftrightarrow> j div ?B = idx div ?B" using bj bb(2) by (metis add_left_imp_eq bm_blk_def)
    show ?thesis
    proof (cases "j div ?B = idx div ?B")
      case True
      then have "j mod ?B = idx mod ?B \<longleftrightarrow> j = idx" by (metis mult_div_mod_eq)
      then show ?thesis using True same b(3) by (auto simp: used_def)
    qed (use same nj in \<open>auto simp: used_def\<close>)
  qed
  ultimately show ?thesis by (intro exI [of _ ?s'] exI [of _ ?V']) auto
qed


section \<open>Properties\<close>

lemma clean_bstate:
  assumes "cold s"
  shows "bstate (bcache_init s) (\<lambda>n. disk s (get_sector n)) {} NBUF"
proof -
  have R: "blk_rel (bcache_init s) (fresh_spec s)" using bcache_init_rel [OF assms] .
  then have "bc_inv (bcache_init s)" "held (bcache_init s) = {}" "dirty_blks (bcache_init s) = {}"
    by (auto simp: blk_rel_def bstate_def fresh_spec_def)
  then have "card (reusable (bcache_init s)) = NBUF" using card_reusable [of "bcache_init s"] by simp
  then show ?thesis using R by (simp add: blk_rel_def bstate_def fresh_spec_def)
qed

text \<open>
  C18: The block allocator takes the first data block whose bit is clear: it sets that bit and no other,
  fills the block with zeros, leaves all other blocks as they are, and fails with \<^verbatim>\<open>-ENOSPC\<close>
  exactly when no bit is clear.  Releasing the block clears its bit again.
\<close>

theorem balloc_allocates:
  assumes "bstate s V {} (k + 3)" and "fs_ok (sb s)"
  shows "if \<exists>idx. first_free V (sb s) idx then
      (\<exists>idx s' V'. first_free V (sb s) idx \<and> balloc s = Ret (int (unat (data_start (sb s)) + idx), s') \<and> bstate s' V' {} (k + 1) \<and>
        V' (data_blk (sb s) idx) = replicate FS_BLK_SIZE 0 \<and>
        (\<forall>n. n \<noteq> data_blk (sb s) idx \<and> n \<noteq> bm_blk (sb s) idx \<longrightarrow> V' n = V n) \<and>
        (\<forall>j. data_idx (sb s) j \<longrightarrow> used V' (sb s) j = (used V (sb s) j \<or> j = idx)) \<and>
        (\<exists>s'' V''. bfree s' (data_blk (sb s) idx) = Ret (0, s'') \<and> bstate s'' V'' {} k \<and>
          (\<forall>j. data_idx (sb s) j \<longrightarrow> used V'' (sb s) j = used V (sb s) j)))
    else \<exists>s'. balloc s = Ret (- ENOSPC, s') \<and> bstate s' V {} (k + 3)"
proof -
  let ?m = "sb s"
  have B: "bstate s V {} (Suc (Suc (Suc k)))" using assms(1) by (simp add: numeral_3_eq_3)
  consider (none) s' where "no_free V ?m" "balloc s = Ret (- ENOSPC, s')" "bstate s' V {} (Suc (Suc (Suc k)))" |
    (some) idx s' b where "first_free V ?m idx" "bm_marked V ?m idx b" "balloc s = Ret (int (unat (data_blk ?m idx)), s')"
      "bstate s' (V(bm_blk ?m idx := b, data_blk ?m idx := replicate FS_BLK_SIZE 0)) {} (Suc k)" "bsys.more s' = bsys.more s"
    using balloc_spec [OF B assms(2)] by auto
  then show ?thesis
  proof cases
    case none
    then show ?thesis by (auto simp: no_free_def first_free_def numeral_3_eq_3)
  next
    case (some idx s' b)
    let ?V = "V(bm_blk ?m idx := b, data_blk ?m idx := replicate FS_BLK_SIZE 0)"
    have d: "data_idx ?m idx" "\<not> used V ?m idx" using some(1) by (simp_all add: first_free_def)
    have sb: "sb s' = ?m" using sb_more [OF some(5)] .
    have u: "used ?V ?m j = (used V ?m j \<or> j = idx)" if "data_idx ?m j" for j using used_marked [OF assms(2) d(1) that some(2)] .
    obtain s'' V'' where f: "bfree s' (data_blk ?m idx) = Ret (0, s'')" "bstate s'' V'' {} k"
      "\<forall>j. data_idx ?m j \<longrightarrow> used V'' ?m j = (used ?V ?m j \<and> j \<noteq> idx)"
      using bfree_spec [OF some(4), of idx] assms(2) d(1) sb by auto
    have "unat (data_blk ?m idx) = unat (data_start ?m) + idx" using data_blk_good(2) [OF assms(2)] d(1) by (simp add: data_idx_def)
    then have "balloc s = Ret (int (unat (data_start ?m) + idx), s')" using some(3) by simp
    moreover have "\<exists>s'' V''. bfree s' (data_blk ?m idx) = Ret (0, s'') \<and> bstate s'' V'' {} k \<and> (\<forall>j. data_idx ?m j \<longrightarrow> used V'' ?m j = used V ?m j)"
      using f u d(2) by (intro exI [of _ s''] exI [of _ V'']) auto
    ultimately show ?thesis using some(1,4) u by (auto intro!: exI [of _ idx] exI [of _ s'] exI [of _ ?V])
  qed
qed

definition small_meta :: fs_meta where
  "small_meta = \<lparr>magic = FS_MAGIC_NUMBER, nb_blk = 111, blk_size = 4096, nb_ibm = 2, nb_dbm = 2, nb_itab = 5, nb_dblk = 100,
    ibm_start = 2, dbm_start = 4, itab_start = 6, data_start = 11\<rparr>"

definition small_sys :: msys where
  "small_sys = bcache_init (bsys.extend cold_sys (msys.fields small_meta))"

lemma bcache_init_more: "bsys.more (bcache_init s) = bsys.more s"
proof -
  have "bsys.more (fold (\<lambda>i s. (upd_blk i (\<lambda>b. b\<lparr>blkno := UINT32_MAX, locked := False\<rparr>) s)\<lparr>buf_list := i # buf_list s\<rparr>) xs s) = bsys.more s" for xs
    by (induction xs arbitrary: s) simp_all
  then show ?thesis by (simp add: bcache_init_def)
qed

lemma small_sys_ok:
  shows "bstate small_sys (\<lambda>_. replicate FS_BLK_SIZE 0) {} 64" and "fs_ok small_meta" and "sb small_sys = small_meta"
proof -
  let ?s = "bsys.extend cold_sys (msys.fields small_meta)"
  have c: "cold ?s" using cold_cold_sys by (simp add: cold_def bsys.defs cold_sys_def)
  show "bstate small_sys (\<lambda>_. replicate FS_BLK_SIZE 0) {} 64"
    using clean_bstate [OF c] by (simp add: small_sys_def NBUF_def) (simp add: bsys.defs cold_sys_def)
  show "fs_ok small_meta" by (simp add: fs_ok_def small_meta_def FS_BM_BITS_PER_BLK_def)
  have "sb small_sys = sb ?s" unfolding small_sys_def by (rule sb_more) (rule bcache_init_more)
  then show "sb small_sys = small_meta" by (simp add: bsys.defs msys.defs)
qed

lemma small_unused: "idx < 100 \<Longrightarrow> \<not> used (\<lambda>_. replicate FS_BLK_SIZE 0) small_meta idx"
  by (simp add: used_def bm_bit_def FS_BM_BITS_PER_BLK_def FS_BLK_SIZE_def)

theorem balloc_allocates_witness:
  "\<exists>s' V'. balloc small_sys = Ret (11, s') \<and> bstate s' V' {} 62 \<and> used V' small_meta 0 \<and> \<not> used V' small_meta 1"
proof -
  have d: "data_idx small_meta 0" "data_idx small_meta 1" by (simp_all add: data_idx_def small_meta_def FS_BM_BITS_PER_BLK_def)
  have "first_free (\<lambda>_. replicate FS_BLK_SIZE 0) small_meta idx \<longleftrightarrow> idx = 0" for idx
    using small_unused [of 0] d by (auto simp: first_free_def)
  moreover have "unat (data_start small_meta) = 11" by (simp add: small_meta_def)
  ultimately obtain s' V' where "balloc small_sys = Ret (11, s')" "bstate s' V' {} 62"
    "\<forall>j. data_idx small_meta j \<longrightarrow> used V' small_meta j = (used (\<lambda>_. replicate FS_BLK_SIZE 0) small_meta j \<or> j = 0)"
    using balloc_allocates [of small_sys "\<lambda>_. replicate FS_BLK_SIZE 0" 61] small_sys_ok by auto
  then show ?thesis using d small_unused [of 1] by (intro exI [of _ s'] exI [of _ V']) simp
qed

end
