(* ===== verification/Inode.thy ===== *)
theory Inode
  imports Prelude Bitmap Vpages Bcache Balloc
begin

text \<open>
  The inodes of \<^verbatim>\<open>kernel/core/fs/inode.c\<close>: their cache, their allocation, the blocks of a file and
  reading and writing it.  A caller of \<^verbatim>\<open>inode_read\<close> and \<^verbatim>\<open>inode_write\<close> gives a kernel buffer, here its bytes,
  or an address of the running task, whose page table translates it.  The locks are treated as in
  the theory of the block cache.
\<close>

section \<open>State\<close>

type_synonym inode_type = u8

definition INODE_FREE :: inode_type where "INODE_FREE = 0"
definition INODE_DIRECTORY :: inode_type where "INODE_DIRECTORY = 1"
definition INODE_FILE :: inode_type where "INODE_FILE = 2"
definition INODE_SPECIAL_FILE :: inode_type where "INODE_SPECIAL_FILE = 3"
definition INODE_DEVICE :: inode_type where "INODE_DEVICE = 4"

definition FS_INODE_DIR_DBLKNO :: nat where [layout_defs]: "FS_INODE_DIR_DBLKNO = 12"
definition FS_INODE_INDIR_DBLKNO :: nat where [layout_defs]: "FS_INODE_INDIR_DBLKNO = 1024"
definition FS_MAX_FILE_SIZE :: u64 where
  "FS_MAX_FILE_SIZE = word_of_nat ((FS_INODE_DIR_DBLKNO + FS_INODE_INDIR_DBLKNO) * FS_BLK_SIZE)"
definition INODE_CACHE_SIZE :: nat where [layout_defs]: "INODE_CACHE_SIZE = 64"
definition INODES_PER_BLK :: nat where [layout_defs]: "INODES_PER_BLK = 64"

record dinode =
  size_d :: u32
  type_d :: inode_type
  dev_id :: u8
  nblink :: u32
  dirblkno :: "u32 list"
  indir :: u32

record inode =
  i_refcnt :: u32
  ino :: u32
  i_locked :: bool
  i_valid :: bool
  content :: dinode

record isys = msys +
  islots :: "nat \<Rightarrow> inode"
  icache :: "nat list"
  mem :: phys
  uroot :: u64

definition upd_ino :: "nat \<Rightarrow> (inode \<Rightarrow> inode) \<Rightarrow> 'a isys_scheme \<Rightarrow> 'a isys_scheme" where
  "upd_ino i f s = s\<lparr>islots := (islots s)(i := f (islots s i))\<rparr>"

definition upd_content :: "nat \<Rightarrow> (dinode \<Rightarrow> dinode) \<Rightarrow> 'a isys_scheme \<Rightarrow> 'a isys_scheme" where
  "upd_content i f = upd_ino i (\<lambda>n. n\<lparr>content := f (content n)\<rparr>)"

section \<open>Inodes on the disk\<close>

text \<open>
  The layout of \<^verbatim>\<open>struct dinode\<close>, 64 bytes with two bytes of padding behind \<^verbatim>\<open>dev_id\<close>, which a store
  sets to zero here.
\<close>

definition le_bytes :: "nat \<Rightarrow> 'a :: len word \<Rightarrow> u8 list" where
  "le_bytes n w = map (\<lambda>i. ucast (drop_bit (8 * i) w)) [0..<n]"

definition le32_at :: "u8 list \<Rightarrow> nat \<Rightarrow> u32" where
  "le32_at bs off = le_word (take 4 (drop off bs))"

definition dinode_bytes :: "dinode \<Rightarrow> u8 list" where
  "dinode_bytes d = le_bytes 4 (size_d d) @ [type_d d, dev_id d, 0, 0] @ le_bytes 4 (nblink d) @
    concat (map (le_bytes 4) (dirblkno d)) @ le_bytes 4 (indir d)"

definition dinode_of :: "u8 list \<Rightarrow> dinode" where
  "dinode_of bs = \<lparr>size_d = le32_at bs 0, type_d = bs ! 4, dev_id = bs ! 5, nblink = le32_at bs 8,
    dirblkno = map (\<lambda>k. le32_at bs (12 + 4 * k)) [0..<FS_INODE_DIR_DBLKNO], indir = le32_at bs 60\<rparr>"

text \<open>The entry of a table of inodes, and the table with an entry replaced.\<close>

definition tab_entry :: "u8 list \<Rightarrow> nat \<Rightarrow> dinode" where
  "tab_entry bs idx = dinode_of (take 64 (drop (64 * idx) bs))"

definition splice :: "u8 list \<Rightarrow> nat \<Rightarrow> u8 list \<Rightarrow> u8 list" where
  "splice bs off xs = take off bs @ xs @ drop (off + length xs) bs"

definition set_tab_entry :: "nat \<Rightarrow> dinode \<Rightarrow> u8 list \<Rightarrow> u8 list" where
  "set_tab_entry idx d bs = splice bs (64 * idx) (dinode_bytes d)"

definition get_itab_blkno :: "fs_meta \<Rightarrow> u32 \<Rightarrow> int" where
  "get_itab_blkno m n =
    (let tab_blkno = itab_start m + n div word_of_nat INODES_PER_BLK in
     if nb_itab m + itab_start m \<le> tab_blkno then - EINVAL else sint tab_blkno)"

definition get_tab_idx :: "u32 \<Rightarrow> nat" where
  "get_tab_idx n = unat n mod INODES_PER_BLK"

definition bit_to_inode_id :: "u32 \<Rightarrow> u32 \<Rightarrow> u32" where
  "bit_to_inode_id bit_idx bm_nb = bit_idx + bm_nb * word_of_nat FS_BM_BITS_PER_BLK"

section \<open>Allocation of inodes\<close>

definition inode_init :: "'a isys_scheme \<Rightarrow> 'a isys_scheme \<times> int" where
  "inode_init s =
    (fold (\<lambda>i s. (upd_ino i (\<lambda>n. n\<lparr>ino := UINT32_MAX, i_locked := False\<rparr>) s)\<lparr>icache := i # icache s\<rparr>) [0..<INODE_CACHE_SIZE] s, 0)"

definition nb_inodes :: "fs_meta \<Rightarrow> u32" where
  "nb_inodes m = nb_itab m * word_of_nat INODES_PER_BLK"

fun ibm_scan :: "'a msys_scheme \<Rightarrow> nat list \<Rightarrow> (int \<times> 'a msys_scheme) outcome" where
  "ibm_scan s [] = Ret (- ENOSPC, s)"
| "ibm_scan s (i # is) =
    bind_out (bcache_read s (ibm_start (sb s) + word_of_nat i)) (\<lambda>(r, s1).
      case r of
        None \<Rightarrow> Ret (- EIO, s1)
      | Some c \<Rightarrow>
          (case bm_find_first_zero (buf (bufs s1 c)) (word_of_nat FS_BM_BITS_PER_BLK) of
             None \<Rightarrow> Undef
           | Some bit_idx \<Rightarrow>
               if 0 \<le> bit_idx then
                 (let n = bit_to_inode_id (word_of_int bit_idx) (word_of_nat i) in
                  if nb_inodes (sb s1) \<le> n then Ret (- ENOSPC, bcache_release s1 c)
                  else case bm_set_bit (buf (bufs s1 c)) bit_idx of
                    None \<Rightarrow> Undef
                  | Some b \<Rightarrow> Ret (sint n, bcache_release (bcache_mark_dirty (fill c (\<lambda>_. b) s1) c) c))
               else ibm_scan (bcache_release s1 c) is))"

definition ibm_alloc :: "'a msys_scheme \<Rightarrow> (int \<times> 'a msys_scheme) outcome" where
  "ibm_alloc s = ibm_scan s [0..<unat (nb_ibm (sb s))]"

definition ibm_free :: "'a msys_scheme \<Rightarrow> u32 \<Rightarrow> (int \<times> 'a msys_scheme) outcome" where
  "ibm_free s n =
    (if nb_inodes (sb s) \<le> n then Ret (- EINVAL, s)
     else bind_out (bcache_read s (ibm_start (sb s) + n div word_of_nat FS_BM_BITS_PER_BLK)) (\<lambda>(r, s1).
       case r of
         None \<Rightarrow> Ret (- EIO, s1)
       | Some c \<Rightarrow>
           (case bm_clear_bit (buf (bufs s1 c)) (int (unat n mod FS_BM_BITS_PER_BLK)) of
              None \<Rightarrow> Undef
            | Some b \<Rightarrow> Ret (0, bcache_release (bcache_mark_dirty (fill c (\<lambda>_. b) s1) c) c))))"

section \<open>The cache of inodes\<close>

definition icache_request_locked :: "'a isys_scheme \<Rightarrow> u32 \<Rightarrow> nat option" where
  "icache_request_locked s n = find (\<lambda>i. ino (islots s i) = n) (icache s)"

definition ifind_reusable_locked :: "'a isys_scheme \<Rightarrow> nat option" where
  "ifind_reusable_locked s = find (\<lambda>i. i_refcnt (islots s i) = 0) (rev (icache s))"

definition inode_get :: "'a isys_scheme \<Rightarrow> u32 \<Rightarrow> (nat \<times> 'a isys_scheme) outcome" where
  "inode_get s n =
    (case icache_request_locked s n of
       Some i \<Rightarrow>
         (let s1 = upd_ino i (\<lambda>x. x\<lparr>i_refcnt := i_refcnt x + 1\<rparr>) s
          in Ret (i, s1\<lparr>icache := i # remove1 i (icache s1)\<rparr>))
     | None \<Rightarrow>
         (case ifind_reusable_locked s of
            None \<Rightarrow> Panic
          | Some i \<Rightarrow> Ret (i, upd_ino i (\<lambda>x. x\<lparr>ino := n, i_refcnt := 1, i_valid := False\<rparr>) s)))"

definition inode_mutex_lock :: "'a isys_scheme \<Rightarrow> nat \<Rightarrow> 'a isys_scheme outcome" where
  "inode_mutex_lock s i = (if i_locked (islots s i) then Wait else Ret (upd_ino i (\<lambda>x. x\<lparr>i_locked := True\<rparr>) s))"

definition inode_unlock :: "'a isys_scheme \<Rightarrow> nat \<Rightarrow> 'a isys_scheme" where
  "inode_unlock s i = upd_ino i (\<lambda>x. x\<lparr>i_locked := False\<rparr>) s"

definition inode_lock :: "'a isys_scheme \<Rightarrow> nat \<Rightarrow> (int \<times> 'a isys_scheme) outcome" where
  "inode_lock s i =
    bind_out (inode_mutex_lock s i) (\<lambda>s1.
      if i_valid (islots s1 i) then Ret (0, s1)
      else
        (let itab_blkno = get_itab_blkno (sb s1) (ino (islots s1 i)) in
         if itab_blkno < 0 then Ret (itab_blkno, s1)
         else bind_out (bcache_read s1 (word_of_int itab_blkno)) (\<lambda>(r, s2).
           case r of
             None \<Rightarrow> Ret (- EIO, inode_unlock s2 i)
           | Some c \<Rightarrow>
               (let d = tab_entry (buf (bufs s2 c)) (get_tab_idx (ino (islots s2 i)))
                in Ret (0, upd_ino i (\<lambda>x. x\<lparr>i_valid := True\<rparr>) (bcache_release (upd_content i (\<lambda>_. d) s2) c))))))"

definition mark_dirty_locked :: "'a isys_scheme \<Rightarrow> nat \<Rightarrow> (int \<times> 'a isys_scheme) outcome" where
  "mark_dirty_locked s i =
    (let itab_blkno = get_itab_blkno (sb s) (ino (islots s i)) in
     if itab_blkno < 0 then Ret (itab_blkno, s)
     else bind_out (bcache_read s (word_of_int itab_blkno)) (\<lambda>(r, s1).
       case r of
         None \<Rightarrow> Ret (- EIO, s1)
       | Some c \<Rightarrow>
           (let x = islots s1 i
            in Ret (0, bcache_release (bcache_mark_dirty (fill c (set_tab_entry (get_tab_idx (ino x)) (content x)) s1) c) c))))"

definition inode_mark_dirty :: "'a isys_scheme \<Rightarrow> nat \<Rightarrow> (int \<times> 'a isys_scheme) outcome" where
  "inode_mark_dirty s i = (if \<not> i_locked (islots s i) then Panic else mark_dirty_locked s i)"

section \<open>Blocks of a file\<close>

fun release_dir_loop :: "'a isys_scheme \<Rightarrow> nat \<Rightarrow> nat list \<Rightarrow> (int \<times> 'a isys_scheme) outcome" where
  "release_dir_loop s i [] = Ret (0, s)"
| "release_dir_loop s i (idx # is) =
    (let n = dirblkno (content (islots s i)) ! idx in
     if n = 0 then release_dir_loop s i is
     else
       (let s1 = upd_content i (\<lambda>d. d\<lparr>dirblkno := (dirblkno d)[idx := 0]\<rparr>) s
        in bind_out (bfree s1 n) (\<lambda>(res, s2). if res < 0 then Ret (res, s2) else release_dir_loop s2 i is)))"

definition release_dir_blk_locked :: "'a isys_scheme \<Rightarrow> nat \<Rightarrow> (int \<times> 'a isys_scheme) outcome" where
  "release_dir_blk_locked s i = release_dir_loop s i [0..<FS_INODE_DIR_DBLKNO]"

text \<open>The entry \<open>k\<close> of an indirect block, and the block with it replaced.\<close>

definition blk_entry :: "u8 list \<Rightarrow> nat \<Rightarrow> u32" where
  "blk_entry bs k = le32_at bs (4 * k)"

definition set_blk_entry :: "nat \<Rightarrow> u32 \<Rightarrow> u8 list \<Rightarrow> u8 list" where
  "set_blk_entry k n bs = splice bs (4 * k) (le_bytes 4 n)"

fun release_indir_loop :: "'a isys_scheme \<Rightarrow> nat \<Rightarrow> nat list \<Rightarrow> 'a isys_scheme outcome" where
  "release_indir_loop s c [] = Ret s"
| "release_indir_loop s c (k # ks) =
    (let n = blk_entry (buf (bufs s c)) k in
     if n = 0 then release_indir_loop s c ks
     else bind_out (bfree (fill c (set_blk_entry k 0) s) n) (\<lambda>(_, s1). release_indir_loop s1 c ks))"

definition release_indir_locked :: "'a isys_scheme \<Rightarrow> nat \<Rightarrow> (int \<times> 'a isys_scheme) outcome" where
  "release_indir_locked s i =
    bind_out (bcache_read s (indir (content (islots s i)))) (\<lambda>(r, s1).
      case r of
        None \<Rightarrow> Ret (- EIO, s1)
      | Some c \<Rightarrow>
          bind_out (release_indir_loop s1 c [0..<FS_INODE_INDIR_DBLKNO]) (\<lambda>s2.
            Ret (0, bcache_release (bcache_mark_dirty s2 c) c)))"

text \<open>
  The variable \<^verbatim>\<open>blkno\<close> of the next two functions is unsigned, so that the test for a negative result of
  \<^verbatim>\<open>balloc\<close> never holds and an error number is stored as a block number.
\<close>

definition get_dir_blk :: "'a isys_scheme \<Rightarrow> nat \<Rightarrow> nat \<Rightarrow> (int \<times> 'a isys_scheme) outcome" where
  "get_dir_blk s i nth_b =
    (let n = dirblkno (content (islots s i)) ! nth_b in
     if n = 0 then
       bind_out (balloc s) (\<lambda>(r, s1).
         let n' = (word_of_int r :: u32) in
         if uint n' < 0 then Ret (sint n', s1)
         else Ret (sint n', upd_content i (\<lambda>d. d\<lparr>dirblkno := (dirblkno d)[nth_b := n']\<rparr>) s1))
     else Ret (sint n, s))"

definition get_indir_blk :: "'a isys_scheme \<Rightarrow> nat \<Rightarrow> nat \<Rightarrow> (int \<times> 'a isys_scheme) outcome" where
  "get_indir_blk s i nth_f =
    (let nth_b = nth_f - FS_INODE_DIR_DBLKNO in
     bind_out (bcache_read s (indir (content (islots s i)))) (\<lambda>(r, s1).
       case r of
         None \<Rightarrow> Ret (- EIO, s1)
       | Some c \<Rightarrow>
           (let n = blk_entry (buf (bufs s1 c)) nth_b in
            if n = 0 then
              bind_out (balloc s1) (\<lambda>(res, s2).
                let n' = (word_of_int res :: u32) in
                if uint n' < 0 then Ret (sint n', bcache_release s2 c)
                else Ret (sint n', bcache_release (bcache_mark_dirty (fill c (set_blk_entry nth_b n') s2) c) c))
            else Ret (sint n, bcache_release s1 c))))"

definition get_data_locked :: "'a isys_scheme \<Rightarrow> nat \<Rightarrow> nat \<Rightarrow> (int \<times> 'a isys_scheme) outcome" where
  "get_data_locked s i nth_b =
    (if FS_INODE_DIR_DBLKNO + FS_INODE_INDIR_DBLKNO \<le> nth_b then Ret (- EFBIG, s)
     else if nth_b < FS_INODE_DIR_DBLKNO then get_dir_blk s i nth_b
     else get_indir_blk s i nth_b)"

definition inode_truncate_locked :: "'a isys_scheme \<Rightarrow> nat \<Rightarrow> (int \<times> 'a isys_scheme) outcome" where
  "inode_truncate_locked s i =
    bind_out (release_dir_blk_locked s i) (\<lambda>(res, s1).
      if res < 0 then Ret (res, s1)
      else bind_out (release_indir_locked s1 i) (\<lambda>(res, s2).
        if res < 0 then Ret (res, s2)
        else Ret (0, upd_content i (\<lambda>d. d\<lparr>size_d := 0\<rparr>) s2)))"

definition inode_truncate :: "'a isys_scheme \<Rightarrow> nat \<Rightarrow> (int \<times> 'a isys_scheme) outcome" where
  "inode_truncate s i =
    bind_out (inode_lock s i) (\<lambda>(res, s1).
      if res < 0 then Ret (res, s1)
      else bind_out (inode_truncate_locked s1 i) (\<lambda>(res, s2).
        if res < 0 then Ret (res, inode_unlock s2 i)
        else bind_out (mark_dirty_locked s2 i) (\<lambda>(res, s3). Ret (res, inode_unlock s3 i))))"

definition inode_put :: "'a isys_scheme \<Rightarrow> nat \<Rightarrow> 'a isys_scheme outcome" where
  "inode_put s i =
    bind_out
      (if i_refcnt (islots s i) = 1 then
         bind_out (inode_mutex_lock s i) (\<lambda>s1.
           bind_out
             (if i_valid (islots s1 i) \<and> nblink (content (islots s1 i)) = 0 then
                bind_out (inode_truncate_locked s1 i) (\<lambda>(res, s2).
                  if res < 0 then Panic
                  else bind_out (mark_dirty_locked (upd_content i (\<lambda>d. d\<lparr>type_d := INODE_FREE\<rparr>) s2) i) (\<lambda>(res, s3).
                    if res < 0 then Panic
                    else bind_out (ibm_free s3 (ino (islots s3 i))) (\<lambda>(_, s4).
                      Ret (upd_ino i (\<lambda>x. x\<lparr>i_valid := False\<rparr>) s4))))
              else Ret s1)
             (\<lambda>s5. Ret (inode_unlock s5 i)))
       else Ret s)
      (\<lambda>s6. Ret (upd_ino i (\<lambda>x. x\<lparr>i_refcnt := i_refcnt x - 1\<rparr>) s6))"

definition inode_create :: "'a isys_scheme \<Rightarrow> inode_type \<Rightarrow> ((int + nat) \<times> 'a isys_scheme) outcome" where
  "inode_create s ty =
    bind_out (ibm_alloc s) (\<lambda>(n, s1).
      if n < 0 then Ret (Inl n, s1)
      else bind_out (inode_get s1 (word_of_int n)) (\<lambda>(i, s2).
        bind_out (inode_lock s2 i) (\<lambda>(res, s3).
          let fail = (\<lambda>res s'. bind_out (inode_put s' i) (\<lambda>s''.
                bind_out (ibm_free s'' (word_of_int n)) (\<lambda>(_, s'''). Ret (Inl res, s'''))))
          in if res < 0 then fail res s3
             else
               (let s4 = upd_content i (\<lambda>d. d\<lparr>type_d := ty, nblink := 1\<rparr>) s3
                in bind_out (mark_dirty_locked s4 i) (\<lambda>(res, s5).
                     if res < 0 then fail res (inode_unlock (upd_ino i (\<lambda>x. x\<lparr>i_valid := False\<rparr>) s5) i)
                     else Ret (Inr i, inode_unlock s5 i))))))"

section \<open>Reading and writing\<close>

datatype kbuf = Kernel "u8 list" | User u64

text \<open>The bytes \<open>done\<close> to \<open>done + m\<close> of a source, and such bytes stored in a destination.\<close>

definition src_bytes :: "'a isys_scheme \<Rightarrow> kbuf \<Rightarrow> nat \<Rightarrow> nat \<Rightarrow> ((int + u8 list) \<times> 'a isys_scheme) outcome" where
  "src_bytes s src done m =
    (case src of
       Kernel bs \<Rightarrow> if done + m \<le> length bs then Ret (Inr (take m (drop done bs)), s) else Undef
     | User va \<Rightarrow>
         bind_out (get_pa_from_va (mem s) (uroot s) (va + word_of_nat done) (PTE_V OR PTE_U OR PTE_R)) (\<lambda>(p, pa).
           case pa of
             None \<Rightarrow> Ret (Inl (- EFAULT), s\<lparr>mem := p\<rparr>)
           | Some a \<Rightarrow> Ret (Inr (map (\<lambda>k. pmem p (a + word_of_nat k)) [0..<m]), s\<lparr>mem := p\<rparr>)))"

definition dst_bytes :: "'a isys_scheme \<Rightarrow> kbuf \<Rightarrow> nat \<Rightarrow> u8 list \<Rightarrow> (int \<times> kbuf \<times> 'a isys_scheme) outcome" where
  "dst_bytes s dst done xs =
    (case dst of
       Kernel bs \<Rightarrow> if done + length xs \<le> length bs then Ret (0, Kernel (splice bs done xs), s) else Undef
     | User va \<Rightarrow>
         bind_out (get_pa_from_va (mem s) (uroot s) (va + word_of_nat done) (PTE_V OR PTE_U OR PTE_W)) (\<lambda>(p, pa).
           case pa of
             None \<Rightarrow> Ret (- EFAULT, dst, s\<lparr>mem := p\<rparr>)
           | Some a \<Rightarrow>
               Ret (0, dst, s\<lparr>mem := p\<lparr>pmem := (\<lambda>b. if unat (b - a) < length xs then xs ! unat (b - a) else pmem p b)\<rparr>\<rparr>)))"

text \<open>
  The loops of \<^verbatim>\<open>inode_write\<close> and \<^verbatim>\<open>inode_read\<close>, with the number of bytes that are left; each round does
  at least one byte.  They end with the offset and the count they reached and the value of \<^verbatim>\<open>res\<close>.
\<close>

function inode_write_loop :: "'a isys_scheme \<Rightarrow> nat \<Rightarrow> kbuf \<Rightarrow> u32 \<Rightarrow> nat \<Rightarrow> nat \<Rightarrow> (u32 \<times> nat \<times> int \<times> 'a isys_scheme) outcome" where
  "inode_write_loop s i src off rem done =
    (if rem = 0 then Ret (off, done, 0, s)
     else
       (let blk_off = unat off mod FS_BLK_SIZE; m = min rem (FS_BLK_SIZE - blk_off) in
        bind_out (get_data_locked s i (unat off div FS_BLK_SIZE)) (\<lambda>(dblkno, s1).
          if dblkno < 0 then Ret (off, done, dblkno, s1)
          else bind_out (bcache_read s1 (word_of_int dblkno)) (\<lambda>(r, s2).
            case r of
              None \<Rightarrow> Ret (off, done, - EIO, s2)
            | Some c \<Rightarrow>
                bind_out (src_bytes s2 src done m) (\<lambda>(x, s3).
                  case x of
                    Inl res \<Rightarrow> Ret (off, done, res, bcache_release s3 c)
                  | Inr xs \<Rightarrow>
                      inode_write_loop (bcache_release (bcache_mark_dirty (fill c (\<lambda>b. splice b blk_off xs) s3) c) c)
                        i src (off + word_of_nat m) (rem - m) (done + m))))))"
  by pat_completeness auto
termination
  by (relation "measure (\<lambda>(s, i, src, off, rem, done). rem)") (auto simp: FS_BLK_SIZE_def)

declare inode_write_loop.simps [simp del]

definition inode_write :: "'a isys_scheme \<Rightarrow> nat \<Rightarrow> kbuf \<Rightarrow> u32 \<Rightarrow> u64 \<Rightarrow> (int \<times> 'a isys_scheme) outcome" where
  "inode_write s i src off count =
    (if size_d (content (islots s i)) < off then Ret (- EINVAL, s)
     else if FS_MAX_FILE_SIZE < ucast off + count then Ret (- EFBIG, s)
     else bind_out (inode_write_loop s i src off (unat count) 0) (\<lambda>(off', done, res, s1).
       bind_out
         (if size_d (content (islots s1 i)) < off'
          then bind_out (inode_mark_dirty (upd_content i (\<lambda>d. d\<lparr>size_d := off'\<rparr>) s1) i) (\<lambda>(_, s2). Ret s2)
          else Ret s1)
         (\<lambda>s3. Ret (if done \<noteq> 0 then int done else res, s3))))"

function inode_read_loop :: "'a isys_scheme \<Rightarrow> nat \<Rightarrow> kbuf \<Rightarrow> u32 \<Rightarrow> nat \<Rightarrow> nat \<Rightarrow> (nat \<times> int \<times> kbuf \<times> 'a isys_scheme) outcome" where
  "inode_read_loop s i dst off rem done =
    (if rem = 0 then Ret (done, 0, dst, s)
     else
       (let blk_off = unat off mod FS_BLK_SIZE; m = min rem (FS_BLK_SIZE - blk_off) in
        bind_out (get_data_locked s i (unat off div FS_BLK_SIZE)) (\<lambda>(dblkno, s1).
          if dblkno < 0 then Ret (done, dblkno, dst, s1)
          else bind_out (bcache_read s1 (word_of_int dblkno)) (\<lambda>(r, s2).
            case r of
              None \<Rightarrow> Ret (done, - EIO, dst, s2)
            | Some c \<Rightarrow>
                bind_out (dst_bytes s2 dst done (take m (drop blk_off (buf (bufs s2 c))))) (\<lambda>(res, dst', s3).
                  if res < 0 then Ret (done, res, dst', bcache_release s3 c)
                  else inode_read_loop (bcache_release s3 c) i dst' (off + word_of_nat m) (rem - m) (done + m))))))"
  by pat_completeness auto
termination
  by (relation "measure (\<lambda>(s, i, dst, off, rem, done). rem)") (auto simp: FS_BLK_SIZE_def)

declare inode_read_loop.simps [simp del]

definition inode_read :: "'a isys_scheme \<Rightarrow> nat \<Rightarrow> kbuf \<Rightarrow> u32 \<Rightarrow> u64 \<Rightarrow> (int \<times> kbuf \<times> 'a isys_scheme) outcome" where
  "inode_read s i dst off count =
    (if ucast (size_d (content (islots s i))) < (ucast off + count :: u64) then Ret (- EINVAL, dst, s)
     else bind_out (inode_read_loop s i dst off (unat count) 0) (\<lambda>(done, res, dst', s1).
       Ret (if done \<noteq> 0 then int done else res, dst', s1)))"


section \<open>Frames\<close>

lemma more_isys:
  assumes "bsys.more s = bsys.more s'"
  shows "sb s = sb s'" "islots s = islots s'" "icache s = icache s'" "mem s = mem s'" "uroot s = uroot s'" "isys.more s = isys.more s'"
  using assms by (cases s; cases s'; simp)+

lemma upd_ino_bsys [simp]:
  "bufs (upd_ino i f s) = bufs s" "disk (upd_ino i f s) = disk s" "io_err (upd_ino i f s) = io_err s" "buf_list (upd_ino i f s) = buf_list s"
  "sb (upd_ino i f s) = sb s" "islots (upd_ino i f s) = (islots s)(i := f (islots s i))"
  by (simp_all add: upd_ino_def)

lemma upd_content_sel [simp]:
  "content (islots (upd_content i f s) i) = f (content (islots s i))" "ino (islots (upd_content i f s) j) = ino (islots s j)"
  "i_locked (islots (upd_content i f s) j) = i_locked (islots s j)" "sb (upd_content i f s) = sb s"
  by (auto simp: upd_content_def)

lemma bstate_upd_ino [simp]: "bstate (upd_ino i f s) V H k = bstate s V H k"
proof -
  have "view (upd_ino i f s) = view s" by (simp add: fun_eq_iff view_def cache_request_locked_def split: option.split)
  moreover have "bc_inv (upd_ino i f s) = bc_inv s" by (simp add: bc_inv_def)
  ultimately show ?thesis by (simp add: bstate_def held_def reusable_def)
qed

lemma bstate_upd_content [simp]: "bstate (upd_content i f s) V H k = bstate s V H k"
  by (simp add: upd_content_def)

lemma more_upd_ino:
  assumes "bsys.more s = bsys.more s'"
  shows "bsys.more (upd_ino i f s) = bsys.more (upd_ino i f s')"
  using assms by (cases s; cases s') (simp add: upd_ino_def)

lemma upd_content_twice [simp]: "upd_content i f (upd_content i g s) = upd_content i (\<lambda>d. f (g d)) s"
  by (simp add: upd_content_def upd_ino_def)

lemma upd_content_same: "upd_content i (\<lambda>_. content (islots s i)) s = s"
  by (simp add: upd_content_def upd_ino_def)

section \<open>The contents of a file\<close>

definition DIR_BYTES :: nat where "DIR_BYTES = FS_INODE_DIR_DBLKNO * FS_BLK_SIZE"

text \<open>
  The blocks of an inode are different data blocks that are marked as used; an entry 0 is a hole, and a
  hole reads as zeros.
\<close>

definition ifile :: "(u32 \<Rightarrow> u8 list) \<Rightarrow> fs_meta \<Rightarrow> dinode \<Rightarrow> bool" where
  "ifile V m d \<longleftrightarrow> length (dirblkno d) = FS_INODE_DIR_DBLKNO \<and>
    (\<forall>k < FS_INODE_DIR_DBLKNO. dirblkno d ! k \<noteq> 0 \<longrightarrow> (\<exists>idx. data_idx m idx \<and> used V m idx \<and> dirblkno d ! k = data_blk m idx)) \<and>
    (\<forall>j < FS_INODE_DIR_DBLKNO. \<forall>k < FS_INODE_DIR_DBLKNO. dirblkno d ! j = dirblkno d ! k \<longrightarrow> dirblkno d ! j \<noteq> 0 \<longrightarrow> j = k)"

definition fbyte :: "(u32 \<Rightarrow> u8 list) \<Rightarrow> dinode \<Rightarrow> nat \<Rightarrow> u8" where
  "fbyte V d p = (if dirblkno d ! (p div FS_BLK_SIZE) = 0 then 0 else V (dirblkno d ! (p div FS_BLK_SIZE)) ! (p mod FS_BLK_SIZE))"

definition free_idx :: "(u32 \<Rightarrow> u8 list) \<Rightarrow> fs_meta \<Rightarrow> nat set" where
  "free_idx V m = {idx. data_idx m idx \<and> \<not> used V m idx}"

text \<open>There is a free block for every hole.\<close>

definition room :: "(u32 \<Rightarrow> u8 list) \<Rightarrow> fs_meta \<Rightarrow> dinode \<Rightarrow> bool" where
  "room V m d \<longleftrightarrow> card {k. k < FS_INODE_DIR_DBLKNO \<and> dirblkno d ! k = 0} \<le> card (free_idx V m)"

text \<open>The step from \<open>V\<close> to \<open>V'\<close> changes only blocks of \<open>A\<close>, bitmap blocks and blocks that were free, and frees nothing.\<close>

definition keeps :: "fs_meta \<Rightarrow> u32 set \<Rightarrow> (u32 \<Rightarrow> u8 list) \<Rightarrow> (u32 \<Rightarrow> u8 list) \<Rightarrow> bool" where
  "keeps m A V V' \<longleftrightarrow> (\<forall>idx. data_idx m idx \<longrightarrow> used V m idx \<longrightarrow> used V' m idx) \<and>
    (\<forall>n. n \<notin> A \<longrightarrow> (\<forall>i < unat (nb_dbm m). n \<noteq> dbm_start m + word_of_nat i) \<longrightarrow> n \<notin> data_blk m ` free_idx V m \<longrightarrow> V' n = V n)"

lemma finite_free_idx [simp]: "finite (free_idx V m)"
  by (rule finite_subset [of _ "{..<unat (nb_dblk m)}"]) (auto simp: free_idx_def data_idx_def)

lemma keeps_refl [simp]: "keeps m A V V"
  by (simp add: keeps_def)

lemma keeps_trans:
  assumes "keeps m A V V1" and "keeps m B V1 V2" and "B \<subseteq> A \<union> data_blk m ` free_idx V m"
  shows "keeps m A V V2"
proof -
  have "free_idx V1 m \<subseteq> free_idx V m" using assms(1) by (auto simp: keeps_def free_idx_def)
  then have "n \<notin> data_blk m ` free_idx V1 m" if "n \<notin> data_blk m ` free_idx V m" for n using that by auto
  moreover have "n \<notin> B" if "n \<notin> A" "n \<notin> data_blk m ` free_idx V m" for n using that assms(3) by auto
  ultimately show ?thesis using assms(1,2) by (simp add: keeps_def)
qed

lemma data_blk_inj:
  assumes "fs_ok m" and "data_idx m i" and "data_idx m j" and "data_blk m i = data_blk m j"
  shows "i = j"
proof -
  have "unat (data_blk m i) = unat (data_start m) + i" "unat (data_blk m j) = unat (data_start m) + j"
    using data_blk_good(2) [OF assms(1)] assms(2,3) by (auto simp: data_idx_def)
  then show ?thesis unfolding assms(4) by linarith
qed

lemma data_blk_pos:
  assumes "fs_ok m" and "data_idx m idx"
  shows "data_blk m idx \<noteq> 0" and "i < unat (nb_dbm m) \<Longrightarrow> data_blk m idx \<noteq> dbm_start m + word_of_nat i"
proof -
  have u: "unat (data_blk m idx) = unat (data_start m) + idx" using data_blk_good(2) [OF assms(1)] assms(2) by (simp add: data_idx_def)
  then have "unat (data_blk m idx) \<noteq> 0" using assms(1) by (simp add: fs_ok_def)
  then show "data_blk m idx \<noteq> 0" by auto
  assume i: "i < unat (nb_dbm m)"
  have "unat (dbm_start m + word_of_nat i) < unat (data_blk m idx)"
    using bm_blk_good(2) [OF assms(1) i] u i assms(1) unfolding fs_ok_def by linarith
  then show "data_blk m idx \<noteq> dbm_start m + word_of_nat i" by auto
qed


lemma used_blk:
  assumes "fs_ok m" and "data_idx m idx" and "used V m idx"
  shows "data_blk m idx \<notin> data_blk m ` free_idx V m"
proof
  assume "data_blk m idx \<in> data_blk m ` free_idx V m"
  then obtain j where "data_idx m j" "\<not> used V m j" "data_blk m idx = data_blk m j" by (auto simp: free_idx_def)
  then show False using data_blk_inj [OF assms(1,2)] assms(3) by auto
qed

text \<open>A file whose blocks are not those of another keeps its contents.\<close>

lemma keeps_file:
  assumes "keeps m A V V'" and "fs_ok m" and "ifile V m d" and "\<forall>k < FS_INODE_DIR_DBLKNO. dirblkno d ! k \<noteq> 0 \<longrightarrow> dirblkno d ! k \<notin> A"
  shows "ifile V' m d" and "p < DIR_BYTES \<Longrightarrow> fbyte V' d p = fbyte V d p"
proof -
  show "ifile V' m d" using assms(1,3) unfolding ifile_def keeps_def by metis
  assume "p < DIR_BYTES"
  then have k: "p div FS_BLK_SIZE < FS_INODE_DIR_DBLKNO" by (simp add: DIR_BYTES_def less_mult_imp_div_less)
  show "fbyte V' d p = fbyte V d p"
  proof (cases "dirblkno d ! (p div FS_BLK_SIZE) = 0")
    case False
    then obtain idx where i: "data_idx m idx" "used V m idx" "dirblkno d ! (p div FS_BLK_SIZE) = data_blk m idx"
      using assms(3) k unfolding ifile_def by blast
    have "V' (data_blk m idx) = V (data_blk m idx)"
      using assms(1,4) i k False used_blk [OF assms(2) i(1,2)] data_blk_pos(2) [OF assms(2) i(1)] unfolding keeps_def by metis
    then show ?thesis using i(3) by (simp add: fbyte_def)
  qed (simp add: fbyte_def)
qed

section \<open>The block of an offset\<close>

lemma get_dir_blk_spec:
  fixes s :: "'a isys_scheme"
  assumes B: "bstate s V {} (Suc (Suc k))" and ok: "fs_ok (sb s)" and f: "ifile V (sb s) (content (islots s i))"
    and r: "room V (sb s) (content (islots s i))" and n: "nth_b < FS_INODE_DIR_DBLKNO"
  shows "\<exists>s' V' x. let d = content (islots s i); d' = d\<lparr>dirblkno := (dirblkno d)[nth_b := x]\<rparr> in
    get_dir_blk s i nth_b = Ret (sint x, s') \<and> x \<noteq> 0 \<and> (\<exists>idx. data_idx (sb s) idx \<and> x = data_blk (sb s) idx) \<and>
    bstate s' V' {} k \<and> bsys.more s' = bsys.more (upd_content i (\<lambda>_. d') s) \<and>
    ifile V' (sb s) d' \<and> room V' (sb s) d' \<and> (\<forall>p < DIR_BYTES. fbyte V' d' p = fbyte V d p) \<and> keeps (sb s) {} V V' \<and>
    (if dirblkno d ! nth_b \<noteq> 0 then x = dirblkno d ! nth_b else x \<in> data_blk (sb s) ` free_idx V (sb s))"
proof -
  let ?m = "sb s" and ?d = "content (islots s i)"
  show ?thesis
  proof (cases "dirblkno ?d ! nth_b = 0")
    case False
    then obtain idx where "data_idx ?m idx" "dirblkno ?d ! nth_b = data_blk ?m idx" using f n unfolding ifile_def by blast
    moreover have "bstate s V {} k" using B by (simp add: bstate_def)
    moreover have "get_dir_blk s i nth_b = Ret (sint (dirblkno ?d ! nth_b), s)" using False by (simp add: get_dir_blk_def)
    moreover have "?d\<lparr>dirblkno := (dirblkno ?d)[nth_b := dirblkno ?d ! nth_b]\<rparr> = ?d" by simp
    ultimately show ?thesis using False f r unfolding Let_def
      by (intro exI [of _ s] exI [of _ V] exI [of _ "dirblkno ?d ! nth_b"]) (simp only: upd_content_same, auto)
  next
    case True
    let ?Z = "{k. k < FS_INODE_DIR_DBLKNO \<and> dirblkno ?d ! k = 0}"
    have Z: "finite ?Z" "nth_b \<in> ?Z" using n True by auto
    then have "card ?Z \<noteq> 0" by auto
    then have "card (free_idx V ?m) \<noteq> 0" using r by (auto simp: room_def)
    then have nf: "\<not> no_free V ?m" by (auto simp: no_free_def free_idx_def card_eq_0_iff)
    then obtain idx s1 b where a: "first_free V ?m idx" "bm_marked V ?m idx b" "balloc s = Ret (int (unat (data_blk ?m idx)), s1)"
      "bstate s1 (V(bm_blk ?m idx := b, data_blk ?m idx := replicate FS_BLK_SIZE 0)) {} k" "bsys.more s1 = bsys.more s"
      using balloc_spec [OF B ok] by auto
    let ?x = "data_blk ?m idx" and ?V = "V(bm_blk ?m idx := b, data_blk ?m idx := replicate FS_BLK_SIZE 0)"
    let ?d' = "?d\<lparr>dirblkno := (dirblkno ?d)[nth_b := ?x]\<rparr>"
    have di: "data_idx ?m idx" "\<not> used V ?m idx" using a(1) by (simp_all add: first_free_def)
    have u: "used ?V ?m j = (used V ?m j \<or> j = idx)" if "data_idx ?m j" for j using used_marked [OF ok di(1) that a(2)] .
    have len: "length (dirblkno ?d) = FS_INODE_DIR_DBLKNO" using f by (simp add: ifile_def)
    have g: "get_dir_blk s i nth_b = Ret (sint ?x, upd_content i (\<lambda>d. d\<lparr>dirblkno := (dirblkno d)[nth_b := ?x]\<rparr>) s1)"
      using True a(3) by (simp add: get_dir_blk_def Let_def)
    have mo: "bsys.more (upd_content i (\<lambda>d. d\<lparr>dirblkno := (dirblkno d)[nth_b := ?x]\<rparr>) s1) = bsys.more (upd_content i (\<lambda>_. ?d') s)"
      using more_upd_ino [OF a(5), of i "\<lambda>x. x\<lparr>content := ?d'\<rparr>"] more_isys(2) [OF a(5)] by (simp add: upd_content_def upd_ino_def)
    have fresh: "dirblkno ?d ! j \<noteq> ?x" if "j < FS_INODE_DIR_DBLKNO" for j
      using f that di data_blk_inj [OF ok] data_blk_pos(1) [OF ok di(1)] unfolding ifile_def by metis
    have kp: "keeps ?m {} V ?V"
    proof -
      have "bm_blk ?m idx = dbm_start ?m + word_of_nat (idx div FS_BM_BITS_PER_BLK)" "idx div FS_BM_BITS_PER_BLK < unat (nb_dbm ?m)"
        using di(1) by (simp_all add: bm_blk_def data_idx_def less_mult_imp_div_less)
      moreover have "?x \<in> data_blk ?m ` free_idx V ?m" using di by (simp add: free_idx_def)
      ultimately show ?thesis using u unfolding keeps_def by auto
    qed
    have f': "ifile ?V ?m ?d'"
      using f u di fresh len n unfolding ifile_def by (auto simp: nth_list_update split: if_splits) (metis)+
    have "{k. k < FS_INODE_DIR_DBLKNO \<and> dirblkno ?d' ! k = 0} = ?Z - {nth_b}"
      using len n data_blk_pos(1) [OF ok di(1)] by (auto simp: nth_list_update)
    moreover have "free_idx ?V ?m = free_idx V ?m - {idx}" "idx \<in> free_idx V ?m" using u di by (auto simp: free_idx_def)
    ultimately have r': "room ?V ?m ?d'" using r Z unfolding room_def by (simp add: card_Diff_singleton)
    have bt: "fbyte ?V ?d' p = fbyte V ?d p" if p: "p < DIR_BYTES" for p
    proof (cases "p div FS_BLK_SIZE = nth_b")
      case True
      have "p mod FS_BLK_SIZE < FS_BLK_SIZE" by (simp add: FS_BLK_SIZE_def)
      then show ?thesis using True \<open>dirblkno ?d ! nth_b = 0\<close> n len by (simp add: fbyte_def)
    next
      case False
      then have "fbyte ?V ?d' p = fbyte ?V ?d p" by (simp add: fbyte_def)
      then show ?thesis using keeps_file(2) [OF kp ok f _ p] by simp
    qed
    have "bstate (upd_content i (\<lambda>d. d\<lparr>dirblkno := (dirblkno d)[nth_b := ?x]\<rparr>) s1) ?V {} k" using a(4) by simp
    then show ?thesis using True g mo f' r' bt kp di data_blk_pos(1) [OF ok di(1)] unfolding Let_def
      by (intro exI [of _ "upd_content i (\<lambda>d. d\<lparr>dirblkno := (dirblkno d)[nth_b := ?x]\<rparr>) s1"] exI [of _ ?V] exI [of _ ?x])
        (auto simp: free_idx_def)
  qed
qed


section \<open>Writing\<close>

lemma length_splice [simp]: "off + length xs \<le> length bs \<Longrightarrow> length (splice bs off xs) = length bs"
  by (simp add: splice_def)

lemma nth_splice:
  assumes "off + length xs \<le> length bs" and "p < length bs"
  shows "splice bs off xs ! p = (if off \<le> p \<and> p < off + length xs then xs ! (p - off) else bs ! p)"
  using assms by (auto simp: splice_def nth_append not_less)

lemma used_upd_data:
  assumes "fs_ok m" and "data_idx m idx" and "data_idx m j"
  shows "used (V(data_blk m idx := z)) m j = used V m j"
proof -
  have "j div FS_BM_BITS_PER_BLK < unat (nb_dbm m)" using assms(3) by (simp add: data_idx_def less_mult_imp_div_less)
  then have "bm_blk m j \<noteq> data_blk m idx" using data_blk_pos(2) [OF assms(1,2)] by (metis bm_blk_def)
  then show ?thesis by (simp add: used_def)
qed

lemma write_blk:
  assumes ok: "fs_ok m" and f: "ifile V m d" and k: "k < FS_INODE_DIR_DBLKNO" "dirblkno d ! k \<noteq> 0"
    and len: "length (V (dirblkno d ! k)) = FS_BLK_SIZE" "boff + length xs \<le> FS_BLK_SIZE"
  defines "V' \<equiv> V(dirblkno d ! k := splice (V (dirblkno d ! k)) boff xs)"
  shows "ifile V' m d" and "room V' m d = room V m d" and "keeps m {dirblkno d ! k} V V'"
    and "p < DIR_BYTES \<Longrightarrow> fbyte V' d p =
      (if k * FS_BLK_SIZE + boff \<le> p \<and> p < k * FS_BLK_SIZE + boff + length xs then xs ! (p - (k * FS_BLK_SIZE + boff)) else fbyte V d p)"
proof -
  obtain idx where i: "data_idx m idx" "used V m idx" "dirblkno d ! k = data_blk m idx" using f k unfolding ifile_def by blast
  have u: "used V' m j = used V m j" if "data_idx m j" for j using used_upd_data [OF ok i(1) that] i(3) by (simp add: V'_def)
  show "ifile V' m d" using f u unfolding ifile_def by metis
  have "free_idx V' m = free_idx V m" using u by (auto simp: free_idx_def)
  then show "room V' m d = room V m d" by (simp add: room_def)
  show "keeps m {dirblkno d ! k} V V'" using u by (auto simp: keeps_def V'_def)
  assume p: "p < DIR_BYTES"
  let ?q = "p div FS_BLK_SIZE"
  have q: "?q < FS_INODE_DIR_DBLKNO" using p by (simp add: DIR_BYTES_def less_mult_imp_div_less)
  have pm: "p mod FS_BLK_SIZE < FS_BLK_SIZE" "p = ?q * FS_BLK_SIZE + p mod FS_BLK_SIZE" by (simp_all add: FS_BLK_SIZE_def)
  show "fbyte V' d p =
      (if k * FS_BLK_SIZE + boff \<le> p \<and> p < k * FS_BLK_SIZE + boff + length xs then xs ! (p - (k * FS_BLK_SIZE + boff)) else fbyte V d p)"
  proof (cases "?q = k")
    case True
    have "fbyte V' d p = splice (V (dirblkno d ! k)) boff xs ! (p mod FS_BLK_SIZE)" using k(2) True by (simp add: fbyte_def V'_def)
    also have "\<dots> = (if boff \<le> p mod FS_BLK_SIZE \<and> p mod FS_BLK_SIZE < boff + length xs then xs ! (p mod FS_BLK_SIZE - boff) else fbyte V d p)"
      using nth_splice [of boff xs "V (dirblkno d ! k)" "p mod FS_BLK_SIZE"] len pm(1) k(2) True by (simp add: fbyte_def)
    also have "p mod FS_BLK_SIZE = p - k * FS_BLK_SIZE" "k * FS_BLK_SIZE \<le> p" using pm(2) True by simp_all
    ultimately show ?thesis by (auto simp: algebra_simps)
  next
    case False
    have "dirblkno d ! ?q = 0 \<or> dirblkno d ! ?q \<noteq> dirblkno d ! k" using f q k False unfolding ifile_def by metis
    then have "fbyte V' d p = fbyte V d p" by (auto simp: fbyte_def V'_def)
    moreover have "\<not> (k * FS_BLK_SIZE + boff \<le> p \<and> p < k * FS_BLK_SIZE + boff + length xs)"
    proof
      assume a: "k * FS_BLK_SIZE + boff \<le> p \<and> p < k * FS_BLK_SIZE + boff + length xs"
      then have "k * FS_BLK_SIZE \<le> p" "p < Suc k * FS_BLK_SIZE" using len(2) by simp_all
      then have "?q = k" by (simp add: div_nat_eqI mult.commute)
      then show False using False by simp
    qed
    ultimately show ?thesis by auto
  qed
qed

definition rounds :: "nat \<Rightarrow> nat \<Rightarrow> nat" where
  "rounds off rem = (if rem = 0 then 0 else (off + rem + (FS_BLK_SIZE - 1)) div FS_BLK_SIZE - off div FS_BLK_SIZE)"

lemma rounds_step:
  fixes rem off :: nat
  assumes "0 < rem"
  defines "n \<equiv> min rem (FS_BLK_SIZE - off mod FS_BLK_SIZE)"
  shows "rounds off rem = Suc (rounds (off + n) (rem - n))" and "0 < n" and "n \<le> rem"
    and "off mod FS_BLK_SIZE + n \<le> FS_BLK_SIZE"
proof -
  show "0 < n" "n \<le> rem" "off mod FS_BLK_SIZE + n \<le> FS_BLK_SIZE" using assms(1) by (auto simp: n_def FS_BLK_SIZE_def)
  define q r where "q = off div 4096" and "r = off mod 4096"
  then have o: "off = 4096 * q + r" "r < 4096" "off div FS_BLK_SIZE = q" "off mod FS_BLK_SIZE = r" by (simp_all add: FS_BLK_SIZE_def)
  show "rounds off rem = Suc (rounds (off + n) (rem - n))"
  proof (cases "rem \<le> FS_BLK_SIZE - off mod FS_BLK_SIZE")
    case True
    then have n: "n = rem" "rem \<le> 4096 - r" using o by (simp_all add: n_def FS_BLK_SIZE_def)
    have "(off + rem + 4095) div 4096 = Suc q" by (rule div_nat_eqI) (use n(2) o(1,2) assms(1) in simp_all)
    then show ?thesis using n(1) o(3) assms(1) by (simp add: rounds_def FS_BLK_SIZE_def)
  next
    case False
    then have n: "n = 4096 - r" "4096 - r < rem" using o by (simp_all add: n_def FS_BLK_SIZE_def)
    have "(off + n) div 4096 = Suc q" by (rule div_nat_eqI) (use n o(1,2) in simp_all)
    moreover have "Suc q * 4096 \<le> off + rem + 4095" using n(2) o(1,2) by simp
    then have "Suc q \<le> (off + rem + 4095) div 4096" by (simp add: less_eq_div_iff_mult_less_eq)
    moreover have "off + n + (rem - n) = off + rem" "rem - n \<noteq> 0" using n by simp_all
    ultimately show ?thesis using assms(1) o(3) by (simp add: rounds_def FS_BLK_SIZE_def)
  qed
qed

definition blks :: "dinode \<Rightarrow> u32 set" where
  "blks d = set (dirblkno d) - {0}"

lemma keeps_mono: "keeps m A V V' \<Longrightarrow> A \<subseteq> B \<Longrightarrow> keeps m B V V'"
  by (auto simp: keeps_def)

lemma good_sint:
  assumes "good_no n"
  shows "sint n = int (unat n)" "0 \<le> sint n" "(word_of_int (sint n) :: u32) = n"
proof -
  have "unat n < 2 ^ 28" using assms by (simp add: good_no_def word_less_nat_alt)
  then show "sint n = int (unat n)" using sint_small [of "unat n"] by simp
  then show "0 \<le> sint n" "(word_of_int (sint n) :: u32) = n" by simp_all
qed

text \<open>One round of the loop of \<^verbatim>\<open>inode_write\<close>.\<close>

lemma write_round:
  fixes s :: "'a isys_scheme"
  assumes B: "bstate s V {} (k + 3)" and ok: "fs_ok (sb s)" and f: "ifile V (sb s) (content (islots s i))"
    and r: "room V (sb s) (content (islots s i))" and n: "nth_b < FS_INODE_DIR_DBLKNO" and len: "boff + length xs \<le> FS_BLK_SIZE"
  shows "\<exists>s1 c s2 s3 V' x. let d = content (islots s i); d' = d\<lparr>dirblkno := (dirblkno d)[nth_b := x]\<rparr> in
    get_dir_blk s i nth_b = Ret (sint x, s1) \<and> good_no x \<and> bcache_read s1 x = Ret (Some c, s2) \<and>
    s3 = bcache_release (bcache_mark_dirty (fill c (\<lambda>b. splice b boff xs) s2) c) c \<and>
    bstate s3 V' {} k \<and> bsys.more s3 = bsys.more (upd_content i (\<lambda>_. d') s) \<and> x \<noteq> 0 \<and> dirblkno d' ! nth_b = x \<and>
    (if dirblkno d ! nth_b \<noteq> 0 then x = dirblkno d ! nth_b else x \<in> data_blk (sb s) ` free_idx V (sb s)) \<and>
    ifile V' (sb s) d' \<and> room V' (sb s) d' \<and> keeps (sb s) (blks d) V V' \<and>
    (\<forall>p < DIR_BYTES. fbyte V' d' p =
      (if nth_b * FS_BLK_SIZE + boff \<le> p \<and> p < nth_b * FS_BLK_SIZE + boff + length xs then xs ! (p - (nth_b * FS_BLK_SIZE + boff)) else fbyte V d p))"
proof -
  let ?d = "content (islots s i)"
  have B': "bstate s V {} (Suc (Suc (Suc k)))" using B by (simp add: numeral_3_eq_3)
  obtain s1 V1 x where g: "get_dir_blk s i nth_b = Ret (sint x, s1)" "x \<noteq> 0" "\<exists>idx. data_idx (sb s) idx \<and> x = data_blk (sb s) idx"
    "bstate s1 V1 {} (Suc k)" "bsys.more s1 = bsys.more (upd_content i (\<lambda>_. ?d\<lparr>dirblkno := (dirblkno ?d)[nth_b := x]\<rparr>) s)"
    "ifile V1 (sb s) (?d\<lparr>dirblkno := (dirblkno ?d)[nth_b := x]\<rparr>)" "room V1 (sb s) (?d\<lparr>dirblkno := (dirblkno ?d)[nth_b := x]\<rparr>)"
    "\<forall>p < DIR_BYTES. fbyte V1 (?d\<lparr>dirblkno := (dirblkno ?d)[nth_b := x]\<rparr>) p = fbyte V ?d p" "keeps (sb s) {} V V1"
    "if dirblkno ?d ! nth_b \<noteq> 0 then x = dirblkno ?d ! nth_b else x \<in> data_blk (sb s) ` free_idx V (sb s)"
    using get_dir_blk_spec [OF B' ok f r n] unfolding Let_def by blast
  let ?d' = "?d\<lparr>dirblkno := (dirblkno ?d)[nth_b := x]\<rparr>"
  have x: "good_no x" using g(3) data_blk_good(1) [OF ok] by (auto simp: data_idx_def)
  have nx: "dirblkno ?d' ! nth_b = x" using n f by (simp add: ifile_def)
  have lx: "length (V1 x) = FS_BLK_SIZE" using view_len [OF g(4) x] .
  have ls: "length (splice (V1 x) boff xs) = FS_BLK_SIZE" using lx len by simp
  obtain c s2 where a: "bcache_read s1 x = Ret (Some c, s2)"
    "\<And>f. length (f (V1 x)) = FS_BLK_SIZE \<Longrightarrow> bstate (bcache_release (bcache_mark_dirty (fill c f s2) c) c) (V1(x := f (V1 x))) {} k \<and>
      bsys.more (bcache_release (bcache_mark_dirty (fill c f s2) c) c) = bsys.more s1"
    using bs.access [OF g(4) x] by blast
  have w: "ifile (V1(x := splice (V1 x) boff xs)) (sb s) ?d'" "room (V1(x := splice (V1 x) boff xs)) (sb s) ?d'" "keeps (sb s) {x} V1 (V1(x := splice (V1 x) boff xs))"
    "\<forall>p < DIR_BYTES. fbyte (V1(x := splice (V1 x) boff xs)) ?d' p =
      (if nth_b * FS_BLK_SIZE + boff \<le> p \<and> p < nth_b * FS_BLK_SIZE + boff + length xs then xs ! (p - (nth_b * FS_BLK_SIZE + boff)) else fbyte V1 ?d' p)"
    using write_blk [OF ok g(6) n, of boff xs] g(2,7) lx len unfolding nx by simp_all
  have "keeps (sb s) (blks ?d) V (V1(x := splice (V1 x) boff xs))"
  proof (rule keeps_trans [OF keeps_mono [OF g(9)] w(3)])
    show "{x} \<subseteq> blks ?d \<union> data_blk (sb s) ` free_idx V (sb s)" using g(2,10) n f by (auto simp: blks_def ifile_def split: if_splits)
  qed simp
  then show ?thesis using g(1,2,5,8,10) x a(1) a(2) [of "\<lambda>b. splice b boff xs"] ls nx w unfolding Let_def
    by (intro exI [of _ s1] exI [of _ c] exI [of _ s2] exI [of _ "bcache_release (bcache_mark_dirty (fill c (\<lambda>b. splice b boff xs) s2) c) c"]
        exI [of _ "V1(x := splice (V1 x) boff xs)"] exI [of _ x] conjI) simp_all
qed


lemma write_loop_spec:
  fixes s :: "'a isys_scheme"
  assumes "bstate s V {} (k + 3 * rounds off rem)" and "fs_ok (sb s)" and "ifile V (sb s) (content (islots s i))"
    and "room V (sb s) (content (islots s i))" and "off + rem \<le> DIR_BYTES" and "dn + rem \<le> length bs"
  shows "\<exists>s' V' L. let d = content (islots s i); d' = d\<lparr>dirblkno := L\<rparr> in
    inode_write_loop s i (Kernel bs) (word_of_nat off) rem dn = Ret (word_of_nat (off + rem), dn + rem, 0, s') \<and>
    bstate s' V' {} k \<and> bsys.more s' = bsys.more (upd_content i (\<lambda>_. d') s) \<and>
    ifile V' (sb s) d' \<and> room V' (sb s) d' \<and> keeps (sb s) (blks d) V V' \<and>
    (\<forall>k < FS_INODE_DIR_DBLKNO. dirblkno d ! k \<noteq> 0 \<longrightarrow> L ! k = dirblkno d ! k) \<and>
    (\<forall>p. off \<le> p \<longrightarrow> p < off + rem \<longrightarrow> L ! (p div FS_BLK_SIZE) \<noteq> 0) \<and>
    (\<forall>p < DIR_BYTES. fbyte V' d' p = (if off \<le> p \<and> p < off + rem then bs ! (dn + (p - off)) else fbyte V d p))"
  using assms
proof (induction rem arbitrary: s V off dn rule: less_induct)
  case (less rem)
  let ?m = "sb s" and ?d = "content (islots s i)"
  show ?case
  proof (cases "rem = 0")
    case True
    have "inode_write_loop s i (Kernel bs) (word_of_nat off) rem dn = Ret (word_of_nat (off + rem), dn + rem, 0, s)"
      using True by (simp add: inode_write_loop.simps)
    moreover have "?d\<lparr>dirblkno := dirblkno ?d\<rparr> = ?d" by simp
    ultimately show ?thesis using less.prems True unfolding Let_def
      by (intro exI [of _ s] exI [of _ V] exI [of _ "dirblkno ?d"]) (auto simp: upd_content_same rounds_def)
  next
    case False
    define nb boff n where "nb = off div FS_BLK_SIZE" and "boff = off mod FS_BLK_SIZE" and "n = min rem (FS_BLK_SIZE - boff)"
    have st: "rounds off rem = Suc (rounds (off + n) (rem - n))" "0 < n" "n \<le> rem" "boff + n \<le> FS_BLK_SIZE"
      using rounds_step [of rem off] False unfolding n_def boff_def by simp_all
    have eo: "off = nb * FS_BLK_SIZE + boff" by (simp add: nb_def boff_def)
    have nb: "nb < FS_INODE_DIR_DBLKNO" using less.prems(5) False by (simp add: nb_def DIR_BYTES_def less_mult_imp_div_less)
    let ?xs = "take n (drop dn bs)"
    have lx: "length ?xs = n" using less.prems(6) st(3) by simp
    have B: "bstate s V {} (k + 3 * rounds (off + n) (rem - n) + 3)" using less.prems(1) st(1) by (simp add: add.commute add.left_commute)
    obtain s1 c s2 V1 x where w: "get_dir_blk s i nb = Ret (sint x, s1)" "good_no x" "bcache_read s1 x = Ret (Some c, s2)" "x \<noteq> 0"
      "bstate (bcache_release (bcache_mark_dirty (fill c (\<lambda>b. splice b boff ?xs) s2) c) c) V1 {} (k + 3 * rounds (off + n) (rem - n))"
      "bsys.more (bcache_release (bcache_mark_dirty (fill c (\<lambda>b. splice b boff ?xs) s2) c) c) = bsys.more (upd_content i (\<lambda>_. ?d\<lparr>dirblkno := (dirblkno ?d)[nb := x]\<rparr>) s)"
      "if dirblkno ?d ! nb \<noteq> 0 then x = dirblkno ?d ! nb else x \<in> data_blk ?m ` free_idx V ?m"
      "ifile V1 ?m (?d\<lparr>dirblkno := (dirblkno ?d)[nb := x]\<rparr>)" "room V1 ?m (?d\<lparr>dirblkno := (dirblkno ?d)[nb := x]\<rparr>)" "keeps ?m (blks ?d) V V1"
      "\<forall>p < DIR_BYTES. fbyte V1 (?d\<lparr>dirblkno := (dirblkno ?d)[nb := x]\<rparr>) p = (if off \<le> p \<and> p < off + n then ?xs ! (p - off) else fbyte V ?d p)"
      using write_round [OF B less.prems(2-4) nb, of boff ?xs] st(4) unfolding Let_def eo [symmetric] lx by blast
    let ?s = "bcache_release (bcache_mark_dirty (fill c (\<lambda>b. splice b boff ?xs) s2) c) c"
    let ?d1 = "?d\<lparr>dirblkno := (dirblkno ?d)[nb := x]\<rparr>"
    have m1: "sb ?s = ?m" "content (islots ?s i) = ?d1" using more_isys(1,2) [OF w(6)] by simp_all
    have off32: "unat (word_of_nat off :: u32) = off" using less.prems(5)
      by (simp add: unat_of_nat take_bit_nat_eq_self_iff DIR_BYTES_def FS_INODE_DIR_DBLKNO_def FS_BLK_SIZE_def)
    have step: "inode_write_loop s i (Kernel bs) (word_of_nat off) rem dn = inode_write_loop ?s i (Kernel bs) (word_of_nat (off + n)) (rem - n) (dn + n)"
      using False w(1,3) good_sint [OF w(2)] nb less.prems(6) st(3)
      by (subst inode_write_loop.simps) (simp add: Let_def off32 nb_def [symmetric] boff_def [symmetric] n_def [symmetric] get_data_locked_def src_bytes_def not_less)
    have IHp: "rem - n < rem" "off + n + (rem - n) = off + rem" "dn + n + (rem - n) = dn + rem" using st(2,3) by simp_all
    obtain s' V' L where h: "inode_write_loop ?s i (Kernel bs) (word_of_nat (off + n)) (rem - n) (dn + n) = Ret (word_of_nat (off + rem), dn + rem, 0, s')"
      "bstate s' V' {} k" "bsys.more s' = bsys.more (upd_content i (\<lambda>_. ?d1\<lparr>dirblkno := L\<rparr>) ?s)" "ifile V' ?m (?d1\<lparr>dirblkno := L\<rparr>)" "room V' ?m (?d1\<lparr>dirblkno := L\<rparr>)"
      "keeps ?m (blks ?d1) V1 V'" "\<forall>k < FS_INODE_DIR_DBLKNO. dirblkno ?d1 ! k \<noteq> 0 \<longrightarrow> L ! k = dirblkno ?d1 ! k"
      "\<forall>p. off + n \<le> p \<longrightarrow> p < off + rem \<longrightarrow> L ! (p div FS_BLK_SIZE) \<noteq> 0"
      "\<forall>p < DIR_BYTES. fbyte V' (?d1\<lparr>dirblkno := L\<rparr>) p = (if off + n \<le> p \<and> p < off + rem then bs ! (dn + n + (p - (off + n))) else fbyte V1 ?d1 p)"
      using less.IH [OF IHp(1), of ?s V1 "off + n" "dn + n"] w(5,8,9) less.prems(2,5,6) m1 IHp(2,3) unfolding Let_def by force
    let ?d' = "?d\<lparr>dirblkno := L\<rparr>"
    have d': "?d1\<lparr>dirblkno := L\<rparr> = ?d'" by simp
    have len: "length (dirblkno ?d) = FS_INODE_DIR_DBLKNO" using less.prems(3) by (simp add: ifile_def)
    have x1: "dirblkno ?d1 ! nb = x" "L ! nb = x" using h(7) nb len w(4) by auto
    have mo: "bsys.more s' = bsys.more (upd_content i (\<lambda>_. ?d') s)"
      using h(3) more_upd_ino [OF w(6), of i "\<lambda>y. y\<lparr>content := ?d'\<rparr>"] by (simp add: upd_content_def upd_ino_def)
    have kp: "keeps ?m (blks ?d) V V'"
    proof (rule keeps_trans [OF w(10) h(6)])
      show "blks ?d1 \<subseteq> blks ?d \<union> data_blk ?m ` free_idx V ?m"
        using set_update_subset_insert [of "dirblkno ?d" nb x] w(7) nb len by (auto simp: blks_def split: if_splits)
    qed
    have old: "\<forall>k < FS_INODE_DIR_DBLKNO. dirblkno ?d ! k \<noteq> 0 \<longrightarrow> L ! k = dirblkno ?d ! k"
    proof (intro allI impI)
      fix k assume k: "k < FS_INODE_DIR_DBLKNO" "dirblkno ?d ! k \<noteq> 0"
      show "L ! k = dirblkno ?d ! k"
      proof (cases "k = nb")
        case True
        then show ?thesis using x1(2) w(7) k(2) by simp
      qed (use h(7) k in auto)
    qed
    have nz: "L ! (p div FS_BLK_SIZE) \<noteq> 0" if "off \<le> p" "p < off + rem" for p
    proof (cases "p < off + n")
      case True
      have "p div FS_BLK_SIZE = nb" by (rule div_nat_eqI) (use True that(1) st(4) eo in \<open>simp_all add: mult.commute\<close>)
      then show ?thesis using x1(2) w(4) by simp
    qed (use h(8) that in simp)
    have bt: "fbyte V' ?d' p = (if off \<le> p \<and> p < off + rem then bs ! (dn + (p - off)) else fbyte V ?d p)" if "p < DIR_BYTES" for p
      using h(9) w(11) that st(2,3) less.prems(6) by (auto simp: d')
    show ?thesis unfolding step using h(1,2,4,5) mo kp old nz bt d' unfolding Let_def
      by (intro exI [of _ s'] exI [of _ V'] exI [of _ L] conjI) simp_all
  qed
qed


section \<open>Reading\<close>

lemma read_loop_spec:
  fixes s :: "'a isys_scheme"
  assumes "bstate s V {} (Suc k)" and "fs_ok (sb s)" and "ifile V (sb s) (content (islots s i))"
    and "off + rem \<le> DIR_BYTES" and "\<forall>p. off \<le> p \<longrightarrow> p < off + rem \<longrightarrow> dirblkno (content (islots s i)) ! (p div FS_BLK_SIZE) \<noteq> 0"
    and "dn + rem \<le> length b"
  shows "\<exists>s'. inode_read_loop s i (Kernel b) (word_of_nat off) rem dn =
      Ret (dn + rem, 0, Kernel (splice b dn (map (fbyte V (content (islots s i))) [off..<off + rem])), s') \<and>
    bstate s' V {} (Suc k) \<and> bsys.more s' = bsys.more s"
  using assms
proof (induction rem arbitrary: s off dn b rule: less_induct)
  case (less rem)
  let ?m = "sb s" and ?d = "content (islots s i)"
  show ?case
  proof (cases "rem = 0")
    case True
    then show ?thesis using less.prems(1) by (simp add: inode_read_loop.simps splice_def)
  next
    case False
    define nb boff n where "nb = off div FS_BLK_SIZE" and "boff = off mod FS_BLK_SIZE" and "n = min rem (FS_BLK_SIZE - boff)"
    have st: "0 < n" "n \<le> rem" "boff + n \<le> FS_BLK_SIZE" using rounds_step [of rem off] False unfolding n_def boff_def by simp_all
    have eo: "off = nb * FS_BLK_SIZE + boff" by (simp add: nb_def boff_def)
    have nb: "nb < FS_INODE_DIR_DBLKNO" using less.prems(4) False by (simp add: nb_def DIR_BYTES_def less_mult_imp_div_less)
    let ?x = "dirblkno ?d ! nb"
    have x0: "?x \<noteq> 0" using less.prems(5) False by (simp add: nb_def)
    then obtain idx where idx: "data_idx ?m idx" "?x = data_blk ?m idx" using less.prems(3) nb unfolding ifile_def by blast
    then have x: "good_no ?x" using data_blk_good(1) [OF less.prems(2)] by (simp add: data_idx_def)
    obtain c s1 where a: "bcache_read s ?x = Ret (Some c, s1)" "buf (bufs s1 c) = V ?x"
      "bstate (bcache_release s1 c) V {} (Suc k)" "bsys.more (bcache_release s1 c) = bsys.more s"
      using bs.access [OF less.prems(1) x] by blast
    let ?xs = "take n (drop boff (V ?x))" and ?s = "bcache_release s1 c"
    have lv: "length (V ?x) = FS_BLK_SIZE" using view_len [OF less.prems(1) x] .
    then have lx: "length ?xs = n" using st(3) by simp
    have xs: "?xs = map (fbyte V ?d) [off..<off + n]"
    proof (rule nth_equalityI)
      fix q assume "q < length ?xs"
      then have q: "q < n" using lx by simp
      have "(off + q) div FS_BLK_SIZE = nb" by (rule div_nat_eqI) (use q st(3) eo in \<open>simp_all add: mult.commute\<close>)
      moreover have "(off + q) mod FS_BLK_SIZE = boff + q" using q st(3) eo by (simp add: add.assoc)
      ultimately show "?xs ! q = map (fbyte V ?d) [off..<off + n] ! q" using q lv st(3) x0 by (simp add: fbyte_def)
    qed (use lx in simp)
    have m1: "sb ?s = ?m" "content (islots ?s i) = ?d" using more_isys(1,2) [OF a(4)] by simp_all
    have off32: "unat (word_of_nat off :: u32) = off" using less.prems(4)
      by (simp add: unat_of_nat take_bit_nat_eq_self_iff DIR_BYTES_def FS_INODE_DIR_DBLKNO_def FS_BLK_SIZE_def)
    have gd: "get_data_locked s i nb = Ret (sint ?x, s)" using x0 nb by (simp add: get_data_locked_def get_dir_blk_def)
    have step: "inode_read_loop s i (Kernel b) (word_of_nat off) rem dn = inode_read_loop ?s i (Kernel (splice b dn ?xs)) (word_of_nat (off + n)) (rem - n) (dn + n)"
      using False gd a(1,2) good_sint [OF x] less.prems(6) st(2) lx
      by (subst inode_read_loop.simps) (simp add: Let_def off32 nb_def [symmetric] boff_def [symmetric] n_def [symmetric] dst_bytes_def not_less)
    have ls: "length (splice b dn ?xs) = length b" using lx less.prems(6) st(2) by simp
    have IHp: "rem - n < rem" "off + n + (rem - n) = off + rem" "dn + n + (rem - n) = dn + rem" using st(1,2) by simp_all
    obtain s' where h: "inode_read_loop ?s i (Kernel (splice b dn ?xs)) (word_of_nat (off + n)) (rem - n) (dn + n) =
      Ret (dn + rem, 0, Kernel (splice (splice b dn ?xs) (dn + n) (map (fbyte V ?d) [off + n..<off + rem])), s')"
      "bstate s' V {} (Suc k)" "bsys.more s' = bsys.more ?s"
      using less.IH [OF IHp(1), of ?s "off + n" "dn + n" "splice b dn ?xs"] a(3) less.prems(2-6) m1 IHp(2,3) ls by force
    have "splice (splice b dn ?xs) (dn + n) (map (fbyte V ?d) [off + n..<off + rem]) = splice b dn (map (fbyte V ?d) [off..<off + rem])"
    proof -
      have "[off..<off + rem] = [off..<off + n] @ [off + n..<off + rem]" using upt_add_eq_append [of off "off + n" "rem - n"] st(2) by simp
      moreover have "splice (splice b dn ys) (dn + length ys) zs = splice b dn (ys @ zs)" if "dn \<le> length b" for ys zs
        using that by (simp add: splice_def ac_simps)
      from this [of "map (fbyte V ?d) [off..<off + n]" "map (fbyte V ?d) [off + n..<off + rem]"]
      have "splice (splice b dn (map (fbyte V ?d) [off..<off + n])) (dn + n) (map (fbyte V ?d) [off + n..<off + rem]) =
        splice b dn (map (fbyte V ?d) [off..<off + n] @ map (fbyte V ?d) [off + n..<off + rem])" using less.prems(6) by simp
      ultimately show ?thesis unfolding xs by simp
    qed
    then show ?thesis using step h a(4) by auto
  qed
qed


section \<open>The inode table\<close>

lemma le_word_bytes: "le_word (le_bytes 4 (w :: u32)) = w"
proof (rule bit_word_eqI)
  fix n assume "n < LENGTH(32)"
  then have "n div 8 < 4" "n < 32" by auto
  then show "bit (le_word (le_bytes 4 w) :: u32) n = bit w n"
    by (simp add: bit_le_word le_bytes_def bit_ucast_iff bit_drop_bit_eq)
qed

lemma length_le_bytes [simp]: "length (le_bytes n w) = n"
  by (simp add: le_bytes_def)

lemma concat_bytes:
  assumes "k < length ws"
  shows "take 4 (drop (4 * k) (concat (map (le_bytes 4) ws))) = le_bytes 4 (ws ! k)"
  using assms
proof (induction ws arbitrary: k)
  case (Cons w ws)
  then show ?case by (cases k) simp_all
qed simp

lemma length_concat_bytes [simp]: "length (concat (map (le_bytes 4) ws)) = 4 * length ws"
  by (induction ws) simp_all

lemma dinode_roundtrip:
  assumes "length (dirblkno d) = FS_INODE_DIR_DBLKNO"
  shows "length (dinode_bytes d) = 64" and "dinode_of (dinode_bytes d) = d"
proof -
  have l: "length (dirblkno d) = 12" using assms by (simp add: FS_INODE_DIR_DBLKNO_def)
  show "length (dinode_bytes d) = 64" using l by (simp add: dinode_bytes_def)
  have "le32_at (dinode_bytes d) (12 + 4 * k) = dirblkno d ! k" if "k < 12" for k
  proof -
    have "drop 12 (dinode_bytes d) = concat (map (le_bytes 4) (dirblkno d)) @ le_bytes 4 (indir d)"
      by (simp add: dinode_bytes_def drop_Cons')
    then have "take 4 (drop (12 + 4 * k) (dinode_bytes d)) = take 4 (drop (4 * k) (concat (map (le_bytes 4) (dirblkno d)) @ le_bytes 4 (indir d)))"
      by (metis add.commute drop_drop)
    also have "\<dots> = take 4 (drop (4 * k) (concat (map (le_bytes 4) (dirblkno d))))" using that l by simp
    finally have "take 4 (drop (12 + 4 * k) (dinode_bytes d)) = take 4 (drop (4 * k) (concat (map (le_bytes 4) (dirblkno d))))" .
    then show ?thesis using that l concat_bytes [of k "dirblkno d"] by (simp add: le32_at_def le_word_bytes)
  qed
  then have "map (\<lambda>k. le32_at (dinode_bytes d) (12 + 4 * k)) [0..<FS_INODE_DIR_DBLKNO] = dirblkno d"
    using l by (intro nth_equalityI) (simp_all add: FS_INODE_DIR_DBLKNO_def)
  moreover have "le32_at (dinode_bytes d) 0 = size_d d" "le32_at (dinode_bytes d) 8 = nblink d" "le32_at (dinode_bytes d) 60 = indir d"
    "dinode_bytes d ! 4 = type_d d" "dinode_bytes d ! 5 = dev_id d"
    using l by (simp_all add: dinode_bytes_def le32_at_def le_word_bytes nth_append)
  ultimately show "dinode_of (dinode_bytes d) = d" by (simp add: dinode_of_def)
qed

lemma tab_entry_set:
  assumes "length (dirblkno d) = FS_INODE_DIR_DBLKNO" and "length bs = FS_BLK_SIZE" and "idx < INODES_PER_BLK" and "j < INODES_PER_BLK"
  shows "tab_entry (set_tab_entry idx d bs) j = (if j = idx then d else tab_entry bs j)" and "length (set_tab_entry idx d bs) = FS_BLK_SIZE"
proof -
  have c: "idx < 64" "j < 64" "length bs = 4096" using assms by (simp_all add: INODES_PER_BLK_def FS_BLK_SIZE_def)
  note l = dinode_roundtrip [OF assms(1)]
  show "length (set_tab_entry idx d bs) = FS_BLK_SIZE" using c l(1) assms(2) by (simp add: set_tab_entry_def)
  have "take 64 (drop (64 * j) (set_tab_entry idx d bs)) = (if j = idx then dinode_bytes d else take 64 (drop (64 * j) bs))"
  proof (rule nth_equalityI)
    show "length (take 64 (drop (64 * j) (set_tab_entry idx d bs))) = length (if j = idx then dinode_bytes d else take 64 (drop (64 * j) bs))"
      using c l(1) by (simp add: set_tab_entry_def)
    fix q assume "q < length (take 64 (drop (64 * j) (set_tab_entry idx d bs)))"
    then have q: "q < 64" by simp
    have "set_tab_entry idx d bs ! (64 * j + q) = (if 64 * idx \<le> 64 * j + q \<and> 64 * j + q < 64 * idx + 64 then dinode_bytes d ! (64 * j + q - 64 * idx) else bs ! (64 * j + q))"
      using nth_splice [of "64 * idx" "dinode_bytes d" bs "64 * j + q"] c l(1) q by (simp add: set_tab_entry_def)
    moreover have "64 * idx \<le> 64 * j + q \<and> 64 * j + q < 64 * idx + 64 \<longleftrightarrow> j = idx" using q by auto
    ultimately show "take 64 (drop (64 * j) (set_tab_entry idx d bs)) ! q = (if j = idx then dinode_bytes d else take 64 (drop (64 * j) bs)) ! q"
      using c l(1) q by (auto simp: set_tab_entry_def)
  qed
  then show "tab_entry (set_tab_entry idx d bs) j = (if j = idx then d else tab_entry bs j)" using l(2) by (simp add: tab_entry_def)
qed

text \<open>The block of the table that holds an inode.\<close>

definition itab_blk :: "fs_meta \<Rightarrow> u32 \<Rightarrow> u32" where
  "itab_blk m n = itab_start m + n div word_of_nat INODES_PER_BLK"

definition ino_ok :: "fs_meta \<Rightarrow> u32 \<Rightarrow> bool" where
  "ino_ok m n \<longleftrightarrow> unat n < unat (nb_itab m) * INODES_PER_BLK"

lemma itab_blk_good:
  assumes "fs_ok m" and "ino_ok m n"
  shows "good_no (itab_blk m n)" "get_itab_blkno m n = sint (itab_blk m n)" "data_idx m idx \<Longrightarrow> itab_blk m n \<noteq> data_blk m idx"
    "i < unat (nb_dbm m) \<Longrightarrow> itab_blk m n \<noteq> dbm_start m + word_of_nat i"
proof -
  have d: "unat (n div 64) = unat n div 64" by (simp add: unat_div)
  have lt: "unat n div 64 < unat (nb_itab m)" using assms(2) by (simp add: ino_ok_def INODES_PER_BLK_def less_mult_imp_div_less)
  have u: "unat (itab_blk m n) = unat (itab_start m) + unat n div 64"
    using assms(1) lt d unfolding itab_blk_def INODES_PER_BLK_def by (simp add: unat_word_ariths(1) fs_ok_def)
  show "good_no (itab_blk m n)" using u lt assms(1) unfolding fs_ok_def good_no_def by (simp add: word_less_nat_alt)
  have "unat (nb_itab m + itab_start m) = unat (nb_itab m) + unat (itab_start m)" using assms(1) by (simp add: unat_word_ariths(1) fs_ok_def)
  then have "\<not> nb_itab m + itab_start m \<le> itab_blk m n" using u lt by (simp add: word_le_nat_alt)
  then show "get_itab_blkno m n = sint (itab_blk m n)" by (simp add: get_itab_blkno_def Let_def itab_blk_def)
  have "unat (itab_blk m n) < unat (data_start m)" using u lt assms(1) unfolding fs_ok_def by linarith
  then show "itab_blk m n \<noteq> data_blk m idx" if "data_idx m idx" using data_blk_good(2) [OF assms(1), of idx] that by (auto simp: data_idx_def)
  show "itab_blk m n \<noteq> dbm_start m + word_of_nat i" if "i < unat (nb_dbm m)"
  proof -
    have "unat (dbm_start m + word_of_nat i) < unat (itab_blk m n)"
      using bm_blk_good(2) [OF assms(1) that] that u assms(1) unfolding fs_ok_def by linarith
    then show ?thesis by auto
  qed
qed

lemma mark_dirty_spec:
  fixes s :: "'a isys_scheme"
  assumes B: "bstate s V H (Suc k)" and ok: "fs_ok (sb s)" and n: "ino_ok (sb s) (ino (islots s i))" and h: "itab_blk (sb s) (ino (islots s i)) \<notin> H"
    and l: "length (dirblkno (content (islots s i))) = FS_INODE_DIR_DBLKNO"
  shows "\<exists>s'. mark_dirty_locked s i = Ret (0, s') \<and> bsys.more s' = bsys.more s \<and>
    bstate s' (V(itab_blk (sb s) (ino (islots s i)) :=
      set_tab_entry (get_tab_idx (ino (islots s i))) (content (islots s i)) (V (itab_blk (sb s) (ino (islots s i)))))) H k"
proof -
  let ?b = "itab_blk (sb s) (ino (islots s i))"
  note g = itab_blk_good [OF ok n]
  obtain c s1 where a: "bcache_read s ?b = Ret (Some c, s1)" "bsys.more s1 = bsys.more s"
    "\<And>f. length (f (V ?b)) = FS_BLK_SIZE \<Longrightarrow> bstate (bcache_release (bcache_mark_dirty (fill c f s1) c) c) (V(?b := f (V ?b))) H k \<and>
      bsys.more (bcache_release (bcache_mark_dirty (fill c f s1) c) c) = bsys.more s"
    using bs.access [OF B g(1) h] by blast
  have "get_tab_idx (ino (islots s i)) < INODES_PER_BLK" by (simp add: get_tab_idx_def INODES_PER_BLK_def)
  then have "length (set_tab_entry (get_tab_idx (ino (islots s i))) (content (islots s i)) (V ?b)) = FS_BLK_SIZE"
    using tab_entry_set(2) [OF l view_len [OF B g(1)]] by blast
  then show ?thesis using a(1) a(3) [of "set_tab_entry (get_tab_idx (ino (islots s i))) (content (islots s i))"] g(2) good_sint [OF g(1)] more_isys(2) [OF a(2)]
    by (simp add: mark_dirty_locked_def Let_def not_less)
qed


section \<open>Files as sequences of bytes\<close>

text \<open>
  An inode whose file fills its direct blocks up to its size, and the bytes of that file.
\<close>

definition dense :: "dinode \<Rightarrow> bool" where
  "dense d \<longleftrightarrow> unat (size_d d) \<le> DIR_BYTES \<and> (\<forall>p < unat (size_d d). dirblkno d ! (p div FS_BLK_SIZE) \<noteq> 0)"

definition fbytes :: "(u32 \<Rightarrow> u8 list) \<Rightarrow> dinode \<Rightarrow> u8 list" where
  "fbytes V d = map (fbyte V d) [0..<unat (size_d d)]"

lemma keeps_itab:
  assumes "fs_ok m" and "ino_ok m n"
  shows "keeps m {itab_blk m n} V (V(itab_blk m n := z))"
proof -
  have "bm_blk m idx \<noteq> itab_blk m n" if "data_idx m idx" for idx
    using itab_blk_good(4) [OF assms, of "idx div FS_BM_BITS_PER_BLK"] that by (auto simp: bm_blk_def data_idx_def less_mult_imp_div_less)
  then show ?thesis by (auto simp: keeps_def used_def)
qed

lemma inode_write_spec:
  fixes s :: "'a isys_scheme"
  assumes B: "bstate s V {} (k + 3 * rounds off len + 1)" and ok: "fs_ok (sb s)" and f: "ifile V (sb s) (content (islots s i))"
    and r: "room V (sb s) (content (islots s i))" and d: "dense (content (islots s i))"
    and o: "off \<le> unat (size_d (content (islots s i)))" "off + len \<le> DIR_BYTES" and bs: "len \<le> length bs"
    and lk: "i_locked (islots s i)" and n: "ino_ok (sb s) (ino (islots s i))"
  shows "\<exists>s' V' d'. inode_write s i (Kernel bs) (word_of_nat off) (word_of_nat len) = Ret (int len, s') \<and>
    bstate s' V' {} k \<and> bsys.more s' = bsys.more (upd_content i (\<lambda>_. d') s) \<and> ifile V' (sb s) d' \<and> dense d' \<and>
    unat (size_d d') = max (unat (size_d (content (islots s i)))) (off + len) \<and>
    keeps (sb s) (insert (itab_blk (sb s) (ino (islots s i))) (blks (content (islots s i)))) V V' \<and>
    (\<forall>p < DIR_BYTES. fbyte V' d' p = (if off \<le> p \<and> p < off + len then bs ! (p - off) else fbyte V (content (islots s i)) p)) \<and>
    type_d d' = type_d (content (islots s i))"
proof -
  let ?m = "sb s" and ?d = "content (islots s i)" and ?t = "itab_blk (sb s) (ino (islots s i))"
  have small: "DIR_BYTES = 49152" by (simp add: DIR_BYTES_def FS_INODE_DIR_DBLKNO_def FS_BLK_SIZE_def)
  have B': "bstate s V {} (Suc k + 3 * rounds off len)" using B by (simp add: ac_simps)
  obtain s1 V1 L where w: "inode_write_loop s i (Kernel bs) (word_of_nat off) len 0 = Ret (word_of_nat (off + len), len, 0, s1)"
    "bstate s1 V1 {} (Suc k)" "bsys.more s1 = bsys.more (upd_content i (\<lambda>_. ?d\<lparr>dirblkno := L\<rparr>) s)" "ifile V1 ?m (?d\<lparr>dirblkno := L\<rparr>)"
    "keeps ?m (blks ?d) V V1" "\<forall>k < FS_INODE_DIR_DBLKNO. dirblkno ?d ! k \<noteq> 0 \<longrightarrow> L ! k = dirblkno ?d ! k"
    "\<forall>p. off \<le> p \<longrightarrow> p < off + len \<longrightarrow> L ! (p div FS_BLK_SIZE) \<noteq> 0"
    "\<forall>p < DIR_BYTES. fbyte V1 (?d\<lparr>dirblkno := L\<rparr>) p = (if off \<le> p \<and> p < off + len then bs ! (p - off) else fbyte V ?d p)"
    using write_loop_spec [OF B' ok f r o(2), of 0 bs] bs unfolding Let_def by auto
  have sz: "unat (word_of_nat off :: u32) = off" "unat (word_of_nat len :: u64) = len" "unat (word_of_nat (off + len) :: u32) = off + len"
    using o(2) small by (simp_all add: unat_of_nat del: of_nat_add)
  have g1: "\<not> size_d ?d < word_of_nat off" using o(1) sz(1) by (simp add: word_less_nat_alt)
  have up: "unat (ucast w :: u64) = unat w" for w :: u32 unfolding unat_eq_nat_uint by (subst uint_up_ucast) (simp_all add: is_up)
  have "unat (ucast (word_of_nat off :: u32) + word_of_nat len :: u64) = off + len" using o(2) small sz(1,2)
    by (simp add: unat_word_ariths(1) up)
  then have g2: "\<not> FS_MAX_FILE_SIZE < ucast (word_of_nat off :: u32) + word_of_nat len" using o(2) small
    by (simp add: word_less_nat_alt FS_MAX_FILE_SIZE_def FS_INODE_DIR_DBLKNO_def FS_INODE_INDIR_DBLKNO_def FS_BLK_SIZE_def)
  have i1: "sb s1 = ?m" "content (islots s1 i) = ?d\<lparr>dirblkno := L\<rparr>" "i_locked (islots s1 i)" "ino (islots s1 i) = ino (islots s i)"
    using more_isys(1,2) [OF w(3)] lk by simp_all
  have lL: "length L = FS_INODE_DIR_DBLKNO" using w(4) by (simp add: ifile_def)
  have wr: "inode_write s i (Kernel bs) (word_of_nat off) (word_of_nat len) =
    bind_out (if size_d ?d < word_of_nat (off + len)
          then bind_out (mark_dirty_locked (upd_content i (\<lambda>d. d\<lparr>size_d := word_of_nat (off + len)\<rparr>) s1) i) (\<lambda>(_, s2). Ret s2) else Ret s1)
      (\<lambda>s3. Ret (int len, s3))"
    using w(1) g1 g2 sz(2) i1 unfolding inode_write_def inode_mark_dirty_def by (simp del: of_nat_add)
  have nz: "L ! (p div FS_BLK_SIZE) \<noteq> 0" if "p < max (unat (size_d ?d)) (off + len)" for p
  proof (cases "p < unat (size_d ?d)")
    case True
    then have "p div FS_BLK_SIZE < FS_INODE_DIR_DBLKNO" "dirblkno ?d ! (p div FS_BLK_SIZE) \<noteq> 0"
      using d by (auto simp: dense_def DIR_BYTES_def less_mult_imp_div_less)
    then show ?thesis using w(6) by simp
  qed (use w(7) that o(1) in auto)
  show ?thesis
  proof (cases "size_d ?d < word_of_nat (off + len)")
    case False
    then have le: "off + len \<le> unat (size_d ?d)" using sz(3) by (simp add: word_less_nat_alt del: of_nat_add)
    moreover have "dense (?d\<lparr>dirblkno := L\<rparr>)" using nz d le by (simp add: dense_def)
    moreover have "keeps ?m (insert ?t (blks ?d)) V V1" using keeps_mono [OF w(5)] by auto
    moreover have "bstate s1 V1 {} k" using w(2) by (simp add: bstate_def)
    ultimately show ?thesis using wr False w by (intro exI [of _ s1] exI [of _ V1] exI [of _ "?d\<lparr>dirblkno := L\<rparr>"]) (auto simp del: of_nat_add)
  next
    case True
    then have lt: "unat (size_d ?d) < off + len" using sz(3) by (simp add: word_less_nat_alt del: of_nat_add)
    let ?s2 = "upd_content i (\<lambda>d. d\<lparr>size_d := word_of_nat (off + len)\<rparr>) s1" and ?d2 = "?d\<lparr>dirblkno := L, size_d := word_of_nat (off + len)\<rparr>"
    have c2: "content (islots ?s2 i) = ?d2" "sb ?s2 = ?m" "ino (islots ?s2 i) = ino (islots s i)" using i1 by simp_all
    let ?V2 = "V1(?t := set_tab_entry (get_tab_idx (ino (islots s i))) ?d2 (V1 ?t))"
    obtain s' where md: "mark_dirty_locked ?s2 i = Ret (0, s')" "bsys.more s' = bsys.more ?s2" "bstate s' ?V2 {} k"
      using mark_dirty_spec [of ?s2 V1 "{}" k i] w(2) ok n lL unfolding c2 by auto
    have kt: "keeps ?m {?t} V1 ?V2" by (rule keeps_itab [OF ok n])
    have f1: "ifile V1 ?m ?d2" using w(4) by (simp add: ifile_def)
    have nt: "\<forall>k < FS_INODE_DIR_DBLKNO. dirblkno ?d2 ! k \<noteq> 0 \<longrightarrow> dirblkno ?d2 ! k \<notin> {?t}"
      using f1 itab_blk_good(3) [OF ok n] unfolding ifile_def by (metis singletonD)
    have f2: "ifile ?V2 ?m ?d2" "\<And>p. p < DIR_BYTES \<Longrightarrow> fbyte ?V2 ?d2 p = fbyte V1 ?d2 p" using keeps_file [OF kt ok f1 nt] by auto
    have kp: "keeps ?m (insert ?t (blks ?d)) V ?V2"
      by (rule keeps_trans [OF keeps_mono [OF w(5)] kt]) auto
    have mo: "bsys.more s' = bsys.more (upd_content i (\<lambda>_. ?d2) s)"
      using md(2) more_upd_ino [OF w(3), of i "\<lambda>y. y\<lparr>content := ?d2\<rparr>"] i1(2) by (simp add: upd_content_def upd_ino_def)
    have ds: "dense ?d2" "unat (size_d ?d2) = max (unat (size_d ?d)) (off + len)" using nz lt o(2) sz(3) by (simp_all add: dense_def del: of_nat_add)
    have bt: "fbyte ?V2 ?d2 p = (if off \<le> p \<and> p < off + len then bs ! (p - off) else fbyte V ?d p)" if "p < DIR_BYTES" for p
    proof -
      have "fbyte V1 ?d2 p = fbyte V1 (?d\<lparr>dirblkno := L\<rparr>) p" by (simp add: fbyte_def)
      then show ?thesis using f2(2) [OF that] w(8) that by presburger
    qed
    show ?thesis using wr True md(1,3) mo f2(1) ds kp bt
      by (intro exI [of _ s'] exI [of _ ?V2] exI [of _ ?d2] conjI) (simp_all del: of_nat_add)
  qed
qed


lemma inode_read_spec:
  fixes s :: "'a isys_scheme"
  assumes B: "bstate s V {} (Suc k)" and ok: "fs_ok (sb s)" and f: "ifile V (sb s) (content (islots s i))"
    and d: "dense (content (islots s i))" and o: "off + len \<le> unat (size_d (content (islots s i)))" and b: "length b = len"
  shows "\<exists>s'. inode_read s i (Kernel b) (word_of_nat off) (word_of_nat len) =
      Ret (int len, Kernel (take len (drop off (fbytes V (content (islots s i))))), s') \<and> bstate s' V {} (Suc k) \<and> bsys.more s' = bsys.more s"
proof -
  let ?d = "content (islots s i)"
  have small: "unat (size_d ?d) \<le> 49152" using d by (simp add: dense_def DIR_BYTES_def FS_INODE_DIR_DBLKNO_def FS_BLK_SIZE_def)
  have nz: "\<forall>p. off \<le> p \<longrightarrow> p < off + len \<longrightarrow> dirblkno ?d ! (p div FS_BLK_SIZE) \<noteq> 0" using d o by (auto simp: dense_def)
  obtain s' where r: "inode_read_loop s i (Kernel b) (word_of_nat off) len 0 = Ret (len, 0, Kernel (splice b 0 (map (fbyte V ?d) [off..<off + len])), s')"
    "bstate s' V {} (Suc k)" "bsys.more s' = bsys.more s"
    using read_loop_spec [OF B ok f _ nz, of 0 b] d o b by (auto simp: dense_def)
  have bytes: "splice b 0 (map (fbyte V ?d) [off..<off + len]) = take len (drop off (fbytes V ?d))"
    using o b by (simp add: splice_def fbytes_def take_map drop_map)
  have sz: "unat (word_of_nat off :: u32) = off" "unat (word_of_nat len :: u64) = len" using o small by (simp_all add: unat_of_nat)
  have up: "unat (ucast w :: u64) = unat w" for w :: u32 unfolding unat_eq_nat_uint by (subst uint_up_ucast) (simp_all add: is_up)
  have "unat (ucast (word_of_nat off :: u32) + word_of_nat len :: u64) = off + len" using o small sz by (simp add: unat_word_ariths(1) up)
  then have "\<not> ucast (size_d ?d) < (ucast (word_of_nat off :: u32) + word_of_nat len :: u64)" using o by (simp add: word_less_nat_alt up)
  then show ?thesis using r sz(2) by (simp add: inode_read_def bytes)
qed

section \<open>Properties\<close>

lemma rounds_max: "off + len \<le> DIR_BYTES \<Longrightarrow> rounds off len \<le> FS_INODE_DIR_DBLKNO"
proof -
  assume "off + len \<le> DIR_BYTES"
  then have "(off + len + 4095) div 4096 \<le> (49152 + 4095) div 4096" unfolding DIR_BYTES_def FS_INODE_DIR_DBLKNO_def FS_BLK_SIZE_def
    by (intro div_le_mono) simp
  then have "(off + len + 4095) div 4096 - off div 4096 \<le> 12" by (simp add: le_trans [OF diff_le_self])
  then show ?thesis by (simp add: rounds_def FS_BLK_SIZE_def FS_INODE_DIR_DBLKNO_def)
qed

lemma fbytes_written:
  assumes "unat (size_d d') = max (unat (size_d d)) (off + length bs)" and "off \<le> unat (size_d d)" and "off + length bs \<le> DIR_BYTES" and "unat (size_d d) \<le> DIR_BYTES"
    and "\<forall>p < DIR_BYTES. fbyte V' d' p = (if off \<le> p \<and> p < off + length bs then bs ! (p - off) else fbyte V d p)"
  shows "fbytes V' d' = take off (fbytes V d) @ bs @ drop (off + length bs) (fbytes V d)"
proof (rule nth_equalityI)
  show "length (fbytes V' d') = length (take off (fbytes V d) @ bs @ drop (off + length bs) (fbytes V d))" using assms(1,2) by (simp add: fbytes_def)
  fix p assume "p < length (fbytes V' d')"
  then have p: "p < max (unat (size_d d)) (off + length bs)" "p < DIR_BYTES" using assms(1,3,4) by (auto simp: fbytes_def)
  then show "fbytes V' d' ! p = (take off (fbytes V d) @ bs @ drop (off + length bs) (fbytes V d)) ! p"
    using assms(1,2,5) by (auto simp: fbytes_def nth_append)
qed

lemma bstate_le: "bstate s V H k \<Longrightarrow> j \<le> k \<Longrightarrow> bstate s V H j"
  by (simp add: bstate_def)

text \<open>
  C7: What is written to a file is read back.  A write of kernel bytes inside or at the end of a file that
  stays within its direct blocks succeeds completely; afterwards every read returns the old contents with
  the written bytes in place, the size is that of the longer one, and every file that shares no block
  with this one keeps its contents.
\<close>

theorem inode_write_read:
  fixes s :: "'a isys_scheme"
  assumes "bstate s V {} (k + 38)" and "fs_ok (sb s)" and "ifile V (sb s) (content (islots s i))" and "room V (sb s) (content (islots s i))"
    and "dense (content (islots s i))" and "i_locked (islots s i)" and "ino_ok (sb s) (ino (islots s i))"
    and "off \<le> unat (size_d (content (islots s i)))" and "off + length bs \<le> DIR_BYTES"
  shows "\<exists>s' V'. inode_write s i (Kernel bs) (word_of_nat off) (word_of_nat (length bs)) = Ret (int (length bs), s') \<and> bstate s' V' {} (Suc k) \<and>
    fbytes V' (content (islots s' i)) = take off (fbytes V (content (islots s i))) @ bs @ drop (off + length bs) (fbytes V (content (islots s i))) \<and>
    (\<forall>o' b. o' + length b \<le> length (fbytes V' (content (islots s' i))) \<longrightarrow>
      (\<exists>s''. inode_read s' i (Kernel b) (word_of_nat o') (word_of_nat (length b)) =
        Ret (int (length b), Kernel (take (length b) (drop o' (fbytes V' (content (islots s' i))))), s''))) \<and>
    (\<forall>d2. ifile V (sb s) d2 \<longrightarrow> unat (size_d d2) \<le> DIR_BYTES \<longrightarrow> blks d2 \<inter> blks (content (islots s i)) = {} \<longrightarrow> fbytes V' d2 = fbytes V d2)"
proof -
  let ?d = "content (islots s i)" and ?n = "length bs" and ?t = "itab_blk (sb s) (ino (islots s i))"
  have "bstate s V {} (Suc k + 3 * rounds off ?n + 1)" using bstate_le [OF assms(1)] rounds_max [OF assms(9)] by (simp add: FS_INODE_DIR_DBLKNO_def)
  then obtain s' V' d' where w: "inode_write s i (Kernel bs) (word_of_nat off) (word_of_nat ?n) = Ret (int ?n, s')" "bstate s' V' {} (Suc k)"
    "bsys.more s' = bsys.more (upd_content i (\<lambda>_. d') s)" "ifile V' (sb s) d'" "dense d'" "unat (size_d d') = max (unat (size_d ?d)) (off + ?n)"
    "keeps (sb s) (insert ?t (blks ?d)) V V'"
    "\<forall>p < DIR_BYTES. fbyte V' d' p = (if off \<le> p \<and> p < off + ?n then bs ! (p - off) else fbyte V ?d p)"
    using inode_write_spec [OF _ assms(2-5,8,9) _ assms(6,7)] by blast
  have c: "sb s' = sb s" "content (islots s' i) = d'" using more_isys(1,2) [OF w(3)] by simp_all
  have sz: "unat (size_d ?d) \<le> DIR_BYTES" using assms(5) by (simp add: dense_def)
  have bytes: "fbytes V' d' = take off (fbytes V ?d) @ bs @ drop (off + ?n) (fbytes V ?d)"
    using fbytes_written [OF w(6) assms(8,9) sz w(8)] .
  have rd: "\<exists>s''. inode_read s' i (Kernel b) (word_of_nat o') (word_of_nat (length b)) = Ret (int (length b), Kernel (take (length b) (drop o' (fbytes V' d'))), s'')"
    if "o' + length b \<le> length (fbytes V' d')" for o' b
    using inode_read_spec [of s' V' k i o' "length b" b] w(2,4,5) assms(2) c that by (auto simp: fbytes_def)
  have other: "fbytes V' d2 = fbytes V d2" if d2: "ifile V (sb s) d2" "unat (size_d d2) \<le> DIR_BYTES" "blks d2 \<inter> blks ?d = {}" for d2
  proof -
    have "\<forall>k < FS_INODE_DIR_DBLKNO. dirblkno d2 ! k \<noteq> 0 \<longrightarrow> dirblkno d2 ! k \<notin> insert ?t (blks ?d)"
    proof (intro allI impI)
      fix k assume k: "k < FS_INODE_DIR_DBLKNO" "dirblkno d2 ! k \<noteq> 0"
      then obtain idx where "data_idx (sb s) idx" "dirblkno d2 ! k = data_blk (sb s) idx" using d2(1) unfolding ifile_def by blast
      then have "dirblkno d2 ! k \<noteq> ?t" using itab_blk_good(3) [OF assms(2,7)] by metis
      moreover have "dirblkno d2 ! k \<in> blks d2" using k d2(1) by (simp add: blks_def ifile_def)
      ultimately show "dirblkno d2 ! k \<notin> insert ?t (blks ?d)" using d2(3) by auto
    qed
    then show ?thesis using keeps_file(2) [OF w(7) assms(2) d2(1)] d2(2) by (simp add: fbytes_def)
  qed
  show ?thesis using w(1,2) bytes rd other c(2) by (intro exI [of _ s'] exI [of _ V']) simp
qed


definition empty_dinode :: dinode where
  "empty_dinode = \<lparr>size_d = 0, type_d = INODE_FILE, dev_id = 0, nblink = 1, dirblkno = replicate FS_INODE_DIR_DBLKNO 0, indir = 0\<rparr>"

definition cold_isys :: isys where
  "cold_isys = \<lparr>disk = disk cold_sys, io_err = io_err cold_sys, bufs = bufs cold_sys, buf_list = [], sb = small_meta,
    islots = (\<lambda>_. \<lparr>i_refcnt = 1, ino = 2, i_locked = True, i_valid = True, content = empty_dinode\<rparr>), icache = [0..<INODE_CACHE_SIZE],
    mem = \<lparr>pmem = (\<lambda>_. 0), page_rc = (\<lambda>_. 0), pnodes = (\<lambda>n. \<lparr>nxt = n, prv = n, in_list = False\<rparr>)\<rparr>, uroot = 0\<rparr>"

definition small_isys :: isys where
  "small_isys = bcache_init cold_isys"

lemma small_isys_ok:
  shows "bstate small_isys (\<lambda>_. replicate FS_BLK_SIZE 0) {} 64" and "sb small_isys = small_meta" and "islots small_isys = islots cold_isys"
proof -
  have c: "cold cold_isys" using cold_cold_sys by (simp add: cold_def cold_isys_def cold_sys_def)
  show "bstate small_isys (\<lambda>_. replicate FS_BLK_SIZE 0) {} 64"
    using clean_bstate [OF c] by (simp add: small_isys_def NBUF_def) (simp add: cold_isys_def cold_sys_def)
  show "sb small_isys = small_meta" "islots small_isys = islots cold_isys"
    using more_isys(1,2) [OF bcache_init_more [of cold_isys]] by (simp_all add: small_isys_def cold_isys_def)
qed

lemma empty_file:
  shows "ifile (\<lambda>_. replicate FS_BLK_SIZE 0) small_meta empty_dinode" and "room (\<lambda>_. replicate FS_BLK_SIZE 0) small_meta empty_dinode" and "dense empty_dinode"
proof -
  show "ifile (\<lambda>_. replicate FS_BLK_SIZE 0) small_meta empty_dinode" "dense empty_dinode" by (simp_all add: ifile_def dense_def empty_dinode_def)
  have "data_idx small_meta idx \<longleftrightarrow> idx < 100" for idx by (auto simp: data_idx_def small_meta_def FS_BM_BITS_PER_BLK_def)
  then have "free_idx (\<lambda>_. replicate FS_BLK_SIZE 0) small_meta = {..<100}" unfolding free_idx_def using small_unused by blast
  moreover have "{k. k < FS_INODE_DIR_DBLKNO \<and> dirblkno empty_dinode ! k = 0} \<subseteq> {..<12}" by (auto simp: FS_INODE_DIR_DBLKNO_def)
  then have "card {k. k < FS_INODE_DIR_DBLKNO \<and> dirblkno empty_dinode ! k = 0} \<le> 12" using card_mono [of "{..<12}" "{k. k < FS_INODE_DIR_DBLKNO \<and> dirblkno empty_dinode ! k = 0}"] by simp
  ultimately show "room (\<lambda>_. replicate FS_BLK_SIZE 0) small_meta empty_dinode" by (simp add: room_def)
qed

theorem inode_write_read_witness:
  "\<exists>s' s''. inode_write small_isys 0 (Kernel [7, 8, 9]) 0 3 = Ret (3, s') \<and> inode_read s' 0 (Kernel [0, 0]) 1 2 = Ret (2, Kernel [8, 9], s'')"
proof -
  have i: "content (islots small_isys 0) = empty_dinode" "i_locked (islots small_isys 0)" "ino_ok small_meta (ino (islots small_isys 0))"
    by (simp_all add: small_isys_ok(3) cold_isys_def ino_ok_def small_meta_def INODES_PER_BLK_def)
  have dir3: "0 + length [7, 8, 9 :: u8] \<le> DIR_BYTES" by (simp add: DIR_BYTES_def FS_INODE_DIR_DBLKNO_def FS_BLK_SIZE_def)
  have e: "fbytes (\<lambda>_. replicate FS_BLK_SIZE 0) empty_dinode = []" by (simp add: fbytes_def empty_dinode_def)
  obtain s' V' where w: "inode_write small_isys 0 (Kernel [7, 8, 9]) 0 3 = Ret (3, s')" "fbytes V' (content (islots s' 0)) = [7, 8, 9]"
    "\<forall>o' b. o' + length b \<le> length (fbytes V' (content (islots s' 0))) \<longrightarrow>
      (\<exists>s''. inode_read s' 0 (Kernel b) (word_of_nat o') (word_of_nat (length b)) =
        Ret (int (length b), Kernel (take (length b) (drop o' (fbytes V' (content (islots s' 0))))), s''))"
    using inode_write_read [of small_isys "\<lambda>_. replicate FS_BLK_SIZE 0" 26 0 0 "[7, 8, 9]"] small_isys_ok(1,2) small_sys_ok(2) i empty_file e
    dir3 by auto
  have "\<exists>s''. inode_read s' 0 (Kernel [0, 0]) 1 2 = Ret (2, Kernel [8, 9], s'')"
    using w(3) [rule_format, of 1 "[0, 0]"] w(2) by (simp add: numeral_2_eq_2)
  then show ?thesis using w(1) by blast
qed


lemma neg_enospc: "(word_of_int (- ENOSPC) :: u32) = 0xffffffe4" "sint (0xffffffe4 :: u32) = - ENOSPC" "(- word_of_int ENOSPC :: u32) = 0xffffffe4"
  by (simp_all add: ENOSPC_def)

lemma not_cached:
  assumes "bc_inv s" and "\<not> good_no n" and "n \<noteq> UINT32_MAX"
  shows "cache_request_locked s n = None"
proof (cases "cache_request_locked s n")
  case (Some i)
  then have "i < NBUF \<and> blkno (bufs s i) = n"
    using assms(1) unfolding cache_request_locked_def find_Some_iff bc_inv_def by (metis lessThan_iff nth_mem)
  then show ?thesis using assms unfolding bc_inv_def by metis
qed

text \<open>
  C23: A full disk spoils a file for good.  When no block is free, the error number itself is stored as the
  block number of the file: the request fails with \<^verbatim>\<open>-ENOSPC\<close>, but so does every later request for this
  place of the file, no matter how many blocks are free by then, and giving the file's blocks back fails with
  \<^verbatim>\<open>-EINVAL\<close>.
\<close>

theorem get_dir_blk_keeps_error:
  fixes s :: "'a isys_scheme"
  assumes "bstate s V {} (Suc (Suc k))" and "fs_ok (sb s)" and "no_free V (sb s)" and "length (dirblkno (content (islots s i))) = FS_INODE_DIR_DBLKNO"
    and "n < FS_INODE_DIR_DBLKNO" and "dirblkno (content (islots s i)) ! n = 0"
  shows "\<exists>s'. get_dir_blk s i n = Ret (- ENOSPC, s') \<and> dirblkno (content (islots s' i)) ! n = word_of_int (- ENOSPC) \<and>
    (\<forall>t :: 'a isys_scheme. dirblkno (content (islots t i)) ! n = word_of_int (- ENOSPC) \<longrightarrow> get_dir_blk t i n = Ret (- ENOSPC, t)) \<and>
    (\<exists>s''. bfree s' (word_of_int (- ENOSPC)) = Ret (- EINVAL, s''))"
proof -
  have "\<not> first_free V (sb s) idx" for idx using assms(3) by (auto simp: first_free_def no_free_def)
  then obtain s1 where b: "balloc s = Ret (- ENOSPC, s1)" "bstate s1 V {} (Suc (Suc k))" "bsys.more s1 = bsys.more s"
    using balloc_spec [OF assms(1,2)] by auto
  let ?s = "upd_content i (\<lambda>d. d\<lparr>dirblkno := (dirblkno d)[n := word_of_int (- ENOSPC)]\<rparr>) s1"
  have c: "sb ?s = sb s" "content (islots s1 i) = content (islots s i)" using more_isys(1,2) [OF b(3)] by simp_all
  have g: "get_dir_blk s i n = Ret (- ENOSPC, ?s)" unfolding get_dir_blk_def assms(6) b(1) by (simp add: Let_def ENOSPC_def)
  have t: "get_dir_blk t i n = Ret (- ENOSPC, t)" if "dirblkno (content (islots t i)) ! n = word_of_int (- ENOSPC)" for t :: "'a isys_scheme"
    unfolding get_dir_blk_def Let_def that neg_enospc by simp
  have "bstate ?s V {} (Suc (Suc k))" using b(2) by simp
  then have "bc_inv ?s" by (simp only: bstate_def)
  then have "cache_request_locked ?s 0xffffffe4 = None" by (rule not_cached) (simp_all add: good_no_def UINT32_MAX_def)
  moreover have "data_start (sb s) + nb_dblk (sb s) \<le> 0xffffffe4"
  proof -
    have "unat (data_start (sb s) + nb_dblk (sb s)) < 2 ^ 28" using assms(2) by (simp add: fs_ok_def unat_word_ariths(1))
    then show ?thesis by (simp add: word_le_nat_alt)
  qed
  ultimately have "bfree ?s (word_of_int (- ENOSPC)) = Ret (- EINVAL, ?s)"
    using c(1) by (simp add: neg_enospc bfree_def bcache_invalidate_def bbm_free_def)
  then show ?thesis using g t assms(4,5) c(2) by (intro exI [of _ ?s]) simp
qed


definition full_isys :: isys where
  "full_isys = bcache_init (cold_isys\<lparr>disk := (\<lambda>_. replicate FS_BLK_SIZE 255)\<rparr>)"

theorem get_dir_blk_keeps_error_witness:
  "\<exists>s'. get_dir_blk full_isys 0 5 = Ret (- ENOSPC, s') \<and> dirblkno (content (islots s' 0)) ! 5 = word_of_int (- ENOSPC)"
proof -
  have "cold (cold_isys\<lparr>disk := (\<lambda>_. replicate FS_BLK_SIZE 255)\<rparr>)" by (simp add: cold_def cold_isys_def cold_sys_def)
  then have b: "bstate full_isys (\<lambda>_. replicate FS_BLK_SIZE 255) {} 64" using clean_bstate by (fastforce simp: full_isys_def NBUF_def)
  have sb: "sb full_isys = small_meta" "content (islots full_isys 0) = empty_dinode"
    using more_isys(1,2) [OF bcache_init_more [of "cold_isys\<lparr>disk := (\<lambda>_. replicate FS_BLK_SIZE 255)\<rparr>"]] by (simp_all add: full_isys_def cold_isys_def)
  have "bit (255 :: u8) k" if "k < 8" for k
  proof -
    have "(255 :: u8) = - 1" by simp
    then show ?thesis using that by (simp only: bit_minus_1_iff possible_bit_word) simp
  qed
  moreover have "(idx mod FS_BM_BITS_PER_BLK) div 8 < FS_BLK_SIZE" for idx
    by (rule less_mult_imp_div_less) (simp add: FS_BM_BITS_PER_BLK_def FS_BLK_SIZE_def)
  ultimately have "no_free (\<lambda>_. replicate FS_BLK_SIZE 255) small_meta" by (simp add: no_free_def used_def bm_bit_def)
  then show ?thesis
    using get_dir_blk_keeps_error [of full_isys "\<lambda>_. replicate FS_BLK_SIZE 255" 62 0 5] b sb small_sys_ok(2)
    by (auto simp: empty_dinode_def FS_INODE_DIR_DBLKNO_def)
qed

section \<open>Indirect blocks\<close>

lemma blk_entry_set:
  assumes "length b = FS_BLK_SIZE" and "k < FS_INODE_INDIR_DBLKNO"
  shows "blk_entry (set_blk_entry k n b) k = n" and "length (set_blk_entry k n b) = FS_BLK_SIZE"
proof -
  have c: "4 * k + 4 \<le> length b" using assms by (simp add: FS_BLK_SIZE_def FS_INODE_INDIR_DBLKNO_def)
  then show "length (set_blk_entry k n b) = FS_BLK_SIZE" using assms(1) by (simp add: set_blk_entry_def)
  have "take 4 (drop (4 * k) (set_blk_entry k n b)) = le_bytes 4 n" using c by (simp add: set_blk_entry_def splice_def)
  then show "blk_entry (set_blk_entry k n b) k = n" by (simp add: blk_entry_def le32_at_def le_word_bytes)
qed

lemma get_indir_blk_fresh:
  fixes s :: "'a isys_scheme"
  assumes B: "bstate s V {} (Suc (Suc (Suc k)))" and ok: "fs_ok (sb s)" and free: "\<not> no_free V (sb s)" and e: "e < FS_INODE_INDIR_DBLKNO"
    and z: "blk_entry (V 0) e = 0" "indir (content (islots s i)) = 0"
  shows "\<exists>x V' s'. good_no x \<and> x \<noteq> 0 \<and> get_indir_blk s i (FS_INODE_DIR_DBLKNO + e) = Ret (sint x, s') \<and> bstate s' V' {} k \<and>
    blk_entry (V' 0) e = x \<and> bsys.more s' = bsys.more s"
proof -
  let ?m = "sb s"
  have g0: "good_no 0" by (simp add: good_no_def)
  obtain c s1 where r: "bcache_read s 0 = Ret (Some c, s1)" "bstate s1 V {0} (Suc (Suc k))" "holds s1 c 0" "buf (bufs s1 c) = V 0" "bsys.more s1 = bsys.more s"
    using bs.rd_law [OF B g0] by auto
  have m: "sb s1 = ?m" using sb_more [OF r(5)] .
  have hb: "dbm_start ?m + word_of_nat i \<notin> {0}" if "i < unat (nb_dbm ?m)" for i
    using bm_blk_good(2) [OF ok that] ok by (auto simp: fs_ok_def)
  have hd: "data_blk ?m idx \<notin> {0}" if "first_free V ?m idx" for idx
    using data_blk_pos(1) [OF ok] that by (auto simp: first_free_def)
  obtain idx s2 b where a: "first_free V ?m idx" "balloc s1 = Ret (int (unat (data_blk ?m idx)), s2)" "holds s2 c 0"
    "bstate s2 (V(bm_blk ?m idx := b, data_blk ?m idx := replicate FS_BLK_SIZE 0)) {0} k" "bsys.more s2 = bsys.more s1"
    using balloc_spec [OF r(2), unfolded m, OF ok] hb hd free r(3) by blast
  let ?x = "data_blk ?m idx" let ?V = "V(bm_blk ?m idx := b, data_blk ?m idx := replicate FS_BLK_SIZE 0)"
  have x: "good_no ?x" "?x \<noteq> 0" using data_blk_good(1) [OF ok] hd [OF a(1)] a(1) by (auto simp: first_free_def data_idx_def)
  let ?f = "set_blk_entry e ?x"
  have buf: "buf (bufs s2 c) = ?V 0" using bs.own_law [OF a(4,3)] by simp
  have l: "blk_entry (?f (?V 0)) e = ?x" "length (?f (?V 0)) = FS_BLK_SIZE" using blk_entry_set [OF view_len [OF a(4) g0] e] by blast+
  let ?s3 = "bcache_mark_dirty (fill c ?f s2) c"
  have w: "bstate ?s3 (?V(0 := ?f (?V 0))) {0} k" "bsys.more ?s3 = bsys.more s2" "holds ?s3 c 0"
    using bs.wr_law [OF a(4,3), of ?f] l(2) a(3) unfolding buf by blast+
  have f: "bstate (bcache_release ?s3 c) (?V(0 := ?f (?V 0))) {} k" "bsys.more (bcache_release ?s3 c) = bsys.more s"
    using bs.rel_law [OF w(1,3)] bs.st_mono w(2) a(5) r(5) by (auto split: if_splits)
  have "(word_of_int (int (unat ?x)) :: u32) = ?x" by simp
  then have "get_indir_blk s i (FS_INODE_DIR_DBLKNO + e) = Ret (sint ?x, bcache_release ?s3 c)"
    using r(1,4) a(2) z by (simp add: get_indir_blk_def Let_def)
  then show ?thesis using x f l(1) by (intro exI [of _ ?x] exI [of _ "?V(0 := ?f (?V 0))"] exI [of _ "bcache_release ?s3 c"]) (simp only: fun_upd_same simp_thms)
qed

text \<open>
  C22: The kernel never gives a file an indirect block of its own, so the indirect block of all files it
  creates is block 0 of the disk: when two such files ask for the same block behind their twelfth, they get
  the same data block.
\<close>

theorem indirect_blocks_shared:
  fixes s :: "'a isys_scheme"
  assumes "bstate s V {} (Suc (Suc (Suc (Suc k))))" and "fs_ok (sb s)" and "\<not> no_free V (sb s)" and "e < FS_INODE_INDIR_DBLKNO" and "blk_entry (V 0) e = 0"
    and "indir (content (islots s i)) = 0" and "indir (content (islots s j)) = 0"
  shows "\<exists>n s1 s2. 0 < n \<and> get_data_locked s i (FS_INODE_DIR_DBLKNO + e) = Ret (n, s1) \<and>
    get_data_locked s1 j (FS_INODE_DIR_DBLKNO + e) = Ret (n, s2)"
proof -
  obtain x V' s1 where a: "good_no x" "x \<noteq> 0" "get_indir_blk s i (FS_INODE_DIR_DBLKNO + e) = Ret (sint x, s1)" "bstate s1 V' {} (Suc k)"
    "blk_entry (V' 0) e = x" "bsys.more s1 = bsys.more s"
    using get_indir_blk_fresh [OF assms(1-6)] by blast
  have "indir (content (islots s1 j)) = 0" using assms(7) more_isys(2) [OF a(6)] by simp
  moreover obtain c s2 where "bcache_read s1 0 = Ret (Some c, s2)" "buf (bufs s2 c) = V' 0"
    using bs.rd_law [OF a(4), of 0] by (auto simp: good_no_def)
  ultimately have "get_indir_blk s1 j (FS_INODE_DIR_DBLKNO + e) = Ret (sint x, bcache_release s2 c)"
    using a(2,5) by (simp add: get_indir_blk_def)
  moreover have "0 < sint x" using good_sint(1) [OF a(1)] a(2) by (simp only: unat_gt_0 of_nat_0_less_iff) simp
  ultimately show ?thesis using a(3) assms(4) by (simp add: get_data_locked_def)
qed

theorem indirect_blocks_shared_witness:
  "\<exists>n s1 s2. 0 < n \<and> get_data_locked small_isys 0 12 = Ret (n, s1) \<and> get_data_locked s1 1 12 = Ret (n, s2)"
proof -
  have "\<not> no_free (\<lambda>_. replicate FS_BLK_SIZE 0) small_meta"
    using small_unused [of 0] unfolding no_free_def data_idx_def by (force simp: small_meta_def FS_BM_BITS_PER_BLK_def)
  moreover have "blk_entry (replicate FS_BLK_SIZE 0) 0 = 0" by (simp add: blk_entry_def le32_at_def take_replicate FS_BLK_SIZE_def numeral_eq_Suc)
  moreover have "indir (content (islots small_isys i)) = 0" for i by (simp add: small_isys_ok(3) cold_isys_def empty_dinode_def)
  ultimately show ?thesis
    using indirect_blocks_shared [of small_isys "\<lambda>_. replicate FS_BLK_SIZE 0" 60 0 0 1] small_isys_ok(1,2) small_sys_ok(2)
    by (simp add: FS_INODE_INDIR_DBLKNO_def FS_INODE_DIR_DBLKNO_def FS_BLK_SIZE_def)
qed

end
