(* ===== verification/Files.thy ===== *)
theory Files
  imports Prelude Strings Bcache Balloc Inode
begin

text \<open>
  Directories and paths of \<^verbatim>\<open>kernel/core/fs/fs.c\<close> and the open files of \<^verbatim>\<open>kernel/core/fs/file.c\<close>.  A
  path and a name are the bytes in front of their terminator.  The field \<open>junk\<close> stands for what the
  stack holds where a local structure is not initialised.
\<close>

section \<open>State\<close>

definition MAXNAME :: nat where [layout_defs]: "MAXNAME = 16"
definition FS_MAX_PATH :: nat where [layout_defs]: "FS_MAX_PATH = 10 * (MAXNAME + 2)"
definition SIZEOF_DIRENT :: nat where [layout_defs]: "SIZEOF_DIRENT = 20"
definition FILE_MAX_NUM :: nat where [layout_defs]: "FILE_MAX_NUM = 100"
definition O_MODE_MASK :: u64 where [layout_defs]: "O_MODE_MASK = 7"
definition O_R :: u64 where [layout_defs]: "O_R = 1"
definition O_W :: u64 where [layout_defs]: "O_W = 2"
definition O_X :: u64 where [layout_defs]: "O_X = 4"
definition O_CREAT :: u64 where [layout_defs]: "O_CREAT = 8"
definition SEEK_SET :: int where [layout_defs]: "SEEK_SET = 1"
definition SEEK_CUR :: int where [layout_defs]: "SEEK_CUR = 2"
definition SEEK_END :: int where [layout_defs]: "SEEK_END = 4"

text \<open>A routine a file reads or writes with: none, the ones of this file, or one of a driver.\<close>

datatype fop = No_op | File_op | Dev_op nat

record ofile =
  f_refcnt :: u32
  f_inode :: nat
  f_off :: int
  f_mode :: u8
  w_op :: fop
  r_op :: fop

record dev_info =
  dev_w :: fop
  dev_r :: fop

text \<open>
  \<^verbatim>\<open>dev_map\<close> has \<^verbatim>\<open>FILE_MAX_DEV\<close> entries and the source indexes it without a test; here it is a function on all numbers, which stands for
  the array only at the numbers below that bound.
\<close>

record fsys = isys +
  root_i :: nat
  ftable :: "nat \<Rightarrow> ofile"
  dev_map :: "nat \<Rightarrow> dev_info"
  junk :: "u8 list"

definition upd_file :: "nat \<Rightarrow> (ofile \<Rightarrow> ofile) \<Rightarrow> 'a fsys_scheme \<Rightarrow> 'a fsys_scheme" where
  "upd_file f g s = s\<lparr>ftable := (ftable s)(f := g (ftable s f))\<rparr>"

section \<open>Mounting\<close>

definition fs_meta_of :: "u8 list \<Rightarrow> fs_meta" where
  "fs_meta_of bs = \<lparr>magic = le32_at bs 0, nb_blk = le32_at bs 4, blk_size = le32_at bs 8, nb_ibm = le32_at bs 12,
    nb_dbm = le32_at bs 16, nb_itab = le32_at bs 20, nb_dblk = le32_at bs 24, ibm_start = le32_at bs 28,
    dbm_start = le32_at bs 32, itab_start = le32_at bs 36, data_start = le32_at bs 40\<rparr>"

text \<open>A superblock that cannot be read is released all the same, through a null pointer.\<close>

definition check_format :: "'a fsys_scheme \<Rightarrow> (int \<times> 'a fsys_scheme) outcome" where
  "check_format s =
    bind_out (bcache_read s FS_SUPERBLK) (\<lambda>(r, s1).
      case r of
        None \<Rightarrow> Undef
      | Some c \<Rightarrow>
          (let s2 = s1\<lparr>sb := fs_meta_of (buf (bufs s1 c))\<rparr>;
               res = (if magic (sb s2) \<noteq> FS_MAGIC_NUMBER then - EIO
                      else if blk_size (sb s2) \<noteq> word_of_nat FS_BLK_SIZE then - EIO else 0)
           in Ret (res, bcache_release s2 c)))"

definition set_root :: "'a fsys_scheme \<Rightarrow> (int \<times> 'a fsys_scheme) outcome" where
  "set_root s =
    bind_out (inode_get s FS_ROOT_INODE_ID) (\<lambda>(i, s1).
      let s2 = s1\<lparr>root_i := i\<rparr> in
      bind_out (inode_lock s2 i) (\<lambda>(res, s3).
        if res < 0 then Ret (res, s3)
        else if type_d (content (islots s3 i)) \<noteq> INODE_DIRECTORY then Ret (- EIO, inode_unlock s3 i)
        else Ret (0, inode_unlock s3 i)))"

definition fs_init :: "'a fsys_scheme \<Rightarrow> (int \<times> 'a fsys_scheme) outcome" where
  "fs_init s =
    bind_out (check_format (bcache_init s)) (\<lambda>(res, s1).
      if res < 0 then Ret (res, s1)
      else
        (let (s2, res) = inode_init s1 in
         if res < 0 then Ret (res, s2)
         else bind_out (set_root s2) (\<lambda>(res, s3). if res < 0 then Ret (res, s3) else Ret (0, s3))))"

section \<open>Directories\<close>

text \<open>\<^verbatim>\<open>strncpy\<close> writes the name with its terminator and leaves the rest of the field as it is.\<close>

definition dirent_bytes :: "u8 list \<Rightarrow> u8 list \<Rightarrow> u32 \<Rightarrow> u8 list" where
  "dirent_bytes stack name inum = name @ [0] @ drop (length name + 1) (take MAXNAME stack) @ le_bytes 4 inum"

definition dirent_name :: "u8 list \<Rightarrow> u8 list" where
  "dirent_name e = take MAXNAME e"

definition dirent_inum :: "u8 list \<Rightarrow> u32" where
  "dirent_inum e = le32_at e MAXNAME"

definition dir_add_entry :: "'a fsys_scheme \<Rightarrow> nat \<Rightarrow> u8 list \<Rightarrow> u32 \<Rightarrow> (int \<times> 'a fsys_scheme) outcome" where
  "dir_add_entry s dir name inum =
    (if MAXNAME < length name + 1 then Ret (- ENAMETOOLONG, s)
     else bind_out (inode_lock s dir) (\<lambda>(res, s1).
       if res < 0 then Ret (res, s1)
       else bind_out (inode_write s1 dir (Kernel (dirent_bytes (junk s1) name inum)) (size_d (content (islots s1 dir)))
           (word_of_nat SIZEOF_DIRENT)) (\<lambda>(res, s2). Ret (res, inode_unlock s2 dir))))"

text \<open>\<^verbatim>\<open>strncmp\<close> on the name field of an entry and the name that is looked for.\<close>

definition name_cmp :: "u8 list \<Rightarrow> u8 list \<Rightarrow> int" where
  "name_cmp e name = strncmp (mwrite (mwrite (\<lambda>_. 0) 0 (dirent_name e)) 1024 (name @ [0])) 0 1024 MAXNAME"

text \<open>The loop of \<^verbatim>\<open>dir_lookup\<close> over the offsets of the entries; the directory is locked, so its size stays.\<close>

fun dir_scan :: "'a fsys_scheme \<Rightarrow> nat \<Rightarrow> u8 list \<Rightarrow> nat list \<Rightarrow> (int \<times> nat option \<times> 'a fsys_scheme) outcome" where
  "dir_scan s dir name [] = Ret (- ENOENT, None, s)"
| "dir_scan s dir name (off # offs) =
    bind_out (inode_read s dir (Kernel (take SIZEOF_DIRENT (junk s))) (word_of_nat off) (word_of_nat SIZEOF_DIRENT)) (\<lambda>(res, e, s1).
      if res < 0 then Ret (res, None, s1)
      else case e of
        User _ \<Rightarrow> Undef
      | Kernel e \<Rightarrow>
          if dirent_inum e = 0 then dir_scan s1 dir name offs
          else if name_cmp e name = 0 then bind_out (inode_get s1 (dirent_inum e)) (\<lambda>(i, s2). Ret (0, Some i, s2))
          else dir_scan s1 dir name offs)"

definition dir_offsets :: "u32 \<Rightarrow> nat list" where
  "dir_offsets sz = map (\<lambda>k. k * SIZEOF_DIRENT) [0..<(unat sz + (SIZEOF_DIRENT - 1)) div SIZEOF_DIRENT]"

definition dir_lookup :: "'a fsys_scheme \<Rightarrow> nat \<Rightarrow> u8 list \<Rightarrow> (int \<times> nat option \<times> 'a fsys_scheme) outcome" where
  "dir_lookup s dir name =
    bind_out (inode_lock s dir) (\<lambda>(res, s1).
      if res < 0 then Ret (res, None, s1)
      else if type_d (content (islots s1 dir)) \<noteq> INODE_DIRECTORY then Ret (- ENOTDIR, None, inode_unlock s1 dir)
      else bind_out (dir_scan s1 dir name (dir_offsets (size_d (content (islots s1 dir))))) (\<lambda>(res, i, s2).
        Ret (res, i, inode_unlock s2 dir)))"

section \<open>Paths\<close>

text \<open>The tokens \<^verbatim>\<open>strtok\<close> delivers one after the other: the non-empty runs between slashes.\<close>

fun split_at :: "'b \<Rightarrow> 'b list \<Rightarrow> 'b list list" where
  "split_at d [] = [[]]"
| "split_at d (c # cs) = (if c = d then [] # split_at d cs else (c # hd (split_at d cs)) # tl (split_at d cs))"

definition path_tokens :: "u8 list \<Rightarrow> u8 list list" where
  "path_tokens p = filter (\<lambda>t. t \<noteq> []) (split_at 47 p)"

fun path_walk :: "'a fsys_scheme \<Rightarrow> nat \<Rightarrow> u8 list list \<Rightarrow> u64 \<Rightarrow> inode_type \<Rightarrow> ((int + nat) \<times> 'a fsys_scheme) outcome" where
  "path_walk s cur [] fl leaf_type = Ret (Inr cur, s)"
| "path_walk s cur (token # rest) fl leaf_type =
    (let fail = (\<lambda>res s'. bind_out (inode_put s' cur) (\<lambda>s''. Ret (Inl res, s'')));
         next_curr = (\<lambda>i s'. bind_out (inode_put s' cur) (\<lambda>s''. path_walk s'' i rest fl leaf_type))
     in bind_out (dir_lookup s cur token) (\<lambda>(res, i, s1).
       if res = - ENOENT then
         (if fl AND O_CREAT = 0 then fail res s1
          else bind_out (inode_create s1 (if rest \<noteq> [] then INODE_DIRECTORY else leaf_type)) (\<lambda>(c, s2).
            case c of
              Inl e \<Rightarrow> fail e s2
            | Inr i \<Rightarrow>
                bind_out (dir_add_entry s2 cur token (ino (islots s2 i))) (\<lambda>(res, s3).
                  if res < 0 then fail res s3 else next_curr i s3)))
       else if res < 0 then fail res s1
       else case i of None \<Rightarrow> Undef | Some i \<Rightarrow> next_curr i s1))"

definition fs_inode_from_path :: "'a fsys_scheme \<Rightarrow> u8 list \<Rightarrow> u64 \<Rightarrow> inode_type \<Rightarrow> ((int + nat) \<times> 'a fsys_scheme) outcome" where
  "fs_inode_from_path s pth fl leaf_type =
    (if length pth < 1 then Ret (Inl (- EINVAL), s)
     else if hd pth \<noteq> 47 then Ret (Inl (- EINVAL), s)
     else if FS_MAX_PATH < length pth + 1 then Undef
     else bind_out (inode_get s (ino (islots s (root_i s)))) (\<lambda>(cur, s1). path_walk s1 cur (path_tokens pth) fl leaf_type))"

definition fs_mknod :: "'a fsys_scheme \<Rightarrow> u8 list \<Rightarrow> int \<Rightarrow> (int \<times> 'a fsys_scheme) outcome" where
  "fs_mknod s pth dev =
    bind_out (fs_inode_from_path s pth O_CREAT INODE_DEVICE) (\<lambda>(r, s1).
      case r of
        Inl e \<Rightarrow> Ret (e, s1)
      | Inr i \<Rightarrow>
          bind_out (inode_lock s1 i) (\<lambda>(res, s2).
            if res < 0 then bind_out (inode_put s2 i) (\<lambda>s3. Ret (res, s3))
            else bind_out (inode_mark_dirty (upd_content i (\<lambda>d. d\<lparr>dev_id := word_of_int dev\<rparr>) s2) i) (\<lambda>(_, s3).
              bind_out (inode_put (inode_unlock s3 i) i) (\<lambda>s4. Ret (0, s4)))))"

section \<open>Open files\<close>

definition file_alloc :: "'a fsys_scheme \<Rightarrow> nat option" where
  "file_alloc s = find (\<lambda>k. f_refcnt (ftable s k) = 0) [0..<FILE_MAX_NUM]"

definition file_clone :: "'a fsys_scheme \<Rightarrow> nat \<Rightarrow> (nat option \<times> 'a fsys_scheme) outcome" where
  "file_clone s f =
    (case file_alloc s of
       None \<Rightarrow> Ret (None, s)
     | Some n \<Rightarrow>
         (let s1 = upd_file n (\<lambda>_. ftable s f) s
          in bind_out (inode_get s1 (ino (islots s1 (f_inode (ftable s1 f))))) (\<lambda>(i, s2).
            Ret (Some n, upd_file n (\<lambda>x. x\<lparr>f_inode := i, f_refcnt := 1\<rparr>) s2))))"

definition file_put :: "'a fsys_scheme \<Rightarrow> nat \<Rightarrow> 'a fsys_scheme outcome" where
  "file_put s f =
    (let old = f_refcnt (ftable s f); s1 = upd_file f (\<lambda>x. x\<lparr>f_refcnt := f_refcnt x - 1\<rparr>) s
     in if old = 1 then inode_put s1 (f_inode (ftable s1 f)) else Ret s1)"

definition file_get :: "'a fsys_scheme \<Rightarrow> nat \<Rightarrow> nat \<times> 'a fsys_scheme" where
  "file_get s f = (f, upd_file f (\<lambda>x. x\<lparr>f_refcnt := f_refcnt x + 1\<rparr>) s)"

definition file_map_dev_cb :: "'a fsys_scheme \<Rightarrow> nat \<Rightarrow> fop \<Rightarrow> fop \<Rightarrow> 'a fsys_scheme" where
  "file_map_dev_cb s dev w r = s\<lparr>dev_map := (dev_map s)(dev := \<lparr>dev_w = w, dev_r = r\<rparr>)\<rparr>"

text \<open>
  The next two functions keep the result of \<^verbatim>\<open>inode_lock\<close>, which is 0, when the transfer fails, and
  pass the offset of 64 bits as one of 32 bits.
\<close>

definition file_reader :: "'a fsys_scheme \<Rightarrow> nat \<Rightarrow> kbuf \<Rightarrow> u64 \<Rightarrow> (int \<times> kbuf \<times> 'a fsys_scheme) outcome" where
  "file_reader s f dst count =
    (let i = f_inode (ftable s f) in
     bind_out (inode_lock s i) (\<lambda>(res, s1).
       if res < 0 then Ret (- EIO, dst, s1)
       else bind_out (inode_read s1 i dst (word_of_int (f_off (ftable s1 f))) count) (\<lambda>(readed, dst', s2).
         if readed < 0 then Ret (res, dst', inode_unlock s2 i)
         else Ret (readed, dst', inode_unlock (upd_file f (\<lambda>x. x\<lparr>f_off := f_off x + readed\<rparr>) s2) i))))"

definition file_writer :: "'a fsys_scheme \<Rightarrow> nat \<Rightarrow> kbuf \<Rightarrow> u64 \<Rightarrow> (int \<times> 'a fsys_scheme) outcome" where
  "file_writer s f src count =
    (let i = f_inode (ftable s f) in
     bind_out (inode_lock s i) (\<lambda>(res, s1).
       if res < 0 then Ret (- EIO, s1)
       else bind_out (inode_write s1 i src (word_of_int (f_off (ftable s1 f))) count) (\<lambda>(written, s2).
         if written < 0 then Ret (res, inode_unlock s2 i)
         else bind_out (inode_mark_dirty s2 i) (\<lambda>(res, s3).
           if res < 0 then Ret (res, inode_unlock s3 i)
           else Ret (written, inode_unlock (upd_file f (\<lambda>x. x\<lparr>f_off := f_off x + written\<rparr>) s3) i)))))"

definition link_dev_cb :: "'a fsys_scheme \<Rightarrow> nat \<Rightarrow> nat \<Rightarrow> 'a fsys_scheme" where
  "link_dev_cb s f dev = upd_file f (\<lambda>x. x\<lparr>w_op := dev_w (dev_map s dev), r_op := dev_r (dev_map s dev)\<rparr>) s"

text \<open>The routines of the drivers are parameters of \<^verbatim>\<open>file_write\<close> and \<^verbatim>\<open>file_read\<close>.\<close>

definition file_write ::
  "(nat \<Rightarrow> 'a fsys_scheme \<Rightarrow> nat \<Rightarrow> kbuf \<Rightarrow> u64 \<Rightarrow> (int \<times> 'a fsys_scheme) outcome) \<Rightarrow>
    'a fsys_scheme \<Rightarrow> nat \<Rightarrow> kbuf \<Rightarrow> u64 \<Rightarrow> (int \<times> 'a fsys_scheme) outcome" where
  "file_write drv s f src count =
    (if f_mode (ftable s f) AND ucast O_W = 0 then Ret (- EBADF, s)
     else case w_op (ftable s f) of No_op \<Rightarrow> Undef | File_op \<Rightarrow> file_writer s f src count | Dev_op d \<Rightarrow> drv d s f src count)"

definition file_read ::
  "(nat \<Rightarrow> 'a fsys_scheme \<Rightarrow> nat \<Rightarrow> kbuf \<Rightarrow> u64 \<Rightarrow> (int \<times> kbuf \<times> 'a fsys_scheme) outcome) \<Rightarrow>
    'a fsys_scheme \<Rightarrow> nat \<Rightarrow> kbuf \<Rightarrow> u64 \<Rightarrow> (int \<times> kbuf \<times> 'a fsys_scheme) outcome" where
  "file_read drv s f dst count =
    (if f_mode (ftable s f) AND ucast O_R = 0 then Ret (- EBADF, dst, s)
     else case r_op (ftable s f) of No_op \<Rightarrow> Undef | File_op \<Rightarrow> file_reader s f dst count | Dev_op d \<Rightarrow> drv d s f dst count)"

definition file_open :: "'a fsys_scheme \<Rightarrow> u8 list \<Rightarrow> u64 \<Rightarrow> ((int + nat) \<times> 'a fsys_scheme) outcome" where
  "file_open s pth fl =
    bind_out (fs_inode_from_path s pth fl INODE_FILE) (\<lambda>(r, s1).
      case r of
        Inl e \<Rightarrow> Ret (Inl e, s1)
      | Inr i \<Rightarrow>
          (let fail = (\<lambda>res s'. bind_out (inode_put s' i) (\<lambda>s''. Ret (Inl res, s''))) in
           case file_alloc s1 of
             None \<Rightarrow> fail (- ENFILE) s1
           | Some f \<Rightarrow>
               bind_out (inode_lock s1 i) (\<lambda>(res, s2).
                 if res < 0 then fail res s2
                 else
                   (let d = content (islots s2 i);
                        s3 = (if type_d d = INODE_DEVICE then link_dev_cb s2 f (unat (dev_id d))
                              else upd_file f (\<lambda>x. x\<lparr>r_op := File_op, w_op := File_op\<rparr>) s2);
                        s4 = inode_unlock s3 i
                    in Ret (Inr f, upd_file f (\<lambda>x. x\<lparr>f_inode := i, f_mode := ucast (fl AND O_MODE_MASK), f_off := 0, f_refcnt := 1\<rparr>) s4)))))"

definition file_seek :: "'a fsys_scheme \<Rightarrow> nat \<Rightarrow> int \<Rightarrow> int \<Rightarrow> (int \<times> 'a fsys_scheme) outcome" where
  "file_seek s f offset whence =
    (let fin = (\<lambda>nxt s'. if nxt < 0 then Ret (- EINVAL, s') else Ret (nxt, upd_file f (\<lambda>x. x\<lparr>f_off := nxt\<rparr>) s')) in
     if whence = SEEK_SET then fin offset s
     else if whence = SEEK_CUR then fin (f_off (ftable s f) + offset) s
     else if whence = SEEK_END then
       (let i = f_inode (ftable s f) in
        bind_out (inode_lock s i) (\<lambda>(res, s1).
          if res < 0 then Ret (res, s1)
          else fin (uint (size_d (content (islots s1 i))) + offset) (inode_unlock s1 i)))
     else Ret (- EINVAL, s))"

end
