(* ===== verification/Sched.thy ===== *)
theory Sched
  imports Prelude Clist Tinyalloc Files
begin

text \<open>
  The scheduler of \<^verbatim>\<open>kernel/core/sched/scheduler.c\<close> with the operations on tasks it uses from
  \<^verbatim>\<open>kernel/core/task/task.c\<close>, and the spin locks of \<^verbatim>\<open>kernel/core/sync/spinlock.c\<close>.  All queues are lists of the
  one heap \<open>nodes\<close>, whose nodes are the sentinels of the queues and the nodes inside the tasks.

  A call of \<^verbatim>\<open>ctx_sw\<close> leaves the running code in the middle: the model then answers \<open>Switch s k\<close>, where \<open>s\<close> is
  the state in which the other task takes over and \<open>k\<close> is the rest of the code, to be run on the state
  in which the task gets the processor back.
\<close>

section \<open>Code that can be switched out\<close>

datatype ('s, 'a) proc =
    Done 'a 's
  | Switch 's "'s \<Rightarrow> ('s, 'a) proc"
  | Stop
  | Spin
  | Bad

text \<open>\<open>Stop\<close> is a panic, \<open>Spin\<close> an endless loop or a sleep inside the file system, \<open>Bad\<close> a wild access.\<close>

primrec bindp :: "('s, 'a) proc \<Rightarrow> ('a \<Rightarrow> 's \<Rightarrow> ('s, 'b) proc) \<Rightarrow> ('s, 'b) proc" where
  "bindp (Done x s) f = f x s"
| "bindp (Switch s k) f = Switch s (\<lambda>s'. bindp (k s') f)"
| "bindp Stop f = Stop"
| "bindp Spin f = Spin"
| "bindp Bad f = Bad"

lemma bindp_Done [simp]: "bindp m Done = m"
  by (induction m) auto

lemma bindp_assoc: "bindp (bindp m f) g = bindp m (\<lambda>x s. bindp (f x s) g)"
  by (induction m) auto

section \<open>State\<close>

datatype tstate = NEW | RUNNING | READY | SLEEPING | BLOCKED | TERMINATED | ZOMBIE

text \<open>Priorities are the numbers of the enumeration, 0 the highest.\<close>

definition HIGH :: nat where [layout_defs]: "HIGH = 0"
definition NORMAL :: nat where [layout_defs]: "NORMAL = 1"
definition LOW :: nat where [layout_defs]: "LOW = 2"
definition IDLE :: nat where [layout_defs]: "IDLE = 3"
definition PRIORITY_COUNT :: nat where [layout_defs]: "PRIORITY_COUNT = 4"

type_synonym tid = u64

datatype sync_id = Sem nat | Mutex nat | Lock nat

datatype knode =
    Ready_queue nat
  | Sleeping_head
  | Task_head
  | Wait_queue sync_id
  | Zombies tid
  | Zombie_wq tid
  | Task_node tid
  | Ready_node tid
  | Wait_node tid
  | Sleep_node tid

text \<open>Where a task starts when it is switched to for the first time.\<close>

datatype tentry = No_entry | Entry_code nat | Ktask_launcher | Trap_return_to_user

record task =
  t_pid :: u8
  t_tgid :: u8
  t_code :: nat
  t_name :: "u8 list"
  t_state :: tstate
  t_ra :: tentry
  t_sp :: u64
  t_root :: u64
  t_user :: bool
  t_frame_pa :: u64
  t_frame_va :: u64
  t_wake :: u64
  t_parent :: "tid option"
  t_exit :: u8
  t_prio :: nat
  t_fds :: "nat option list"

record ksys = fsys +
  nodes :: "knode heap"
  tasks :: "tid \<Rightarrow> task"
  active :: "tid option"
  next_pid :: u8
  active_task :: u8
  preempt_count :: u32
  need_resched :: bool
  highest_ready_tracking :: nat
  ticks :: u32
  irq :: bool
  slock :: "sync_id \<Rightarrow> bool"
  sem_count :: "nat \<Rightarrow> 32 word"
  m_locked :: "nat \<Rightarrow> bool"
  m_owner :: "nat \<Rightarrow> tid option"
  kheap :: ta_heap
  kroot :: u64
  satp :: u64
  sstatus :: u64
  trampoline_start :: u64
  trampoline_end :: u64

definition upd_task :: "tid \<Rightarrow> (task \<Rightarrow> task) \<Rightarrow> ksys \<Rightarrow> ksys" where
  "upd_task t f s = s\<lparr>tasks := (tasks s)(t := f (tasks s t))\<rparr>"

definition upd_nodes :: "(knode heap \<Rightarrow> knode heap) \<Rightarrow> ksys \<Rightarrow> ksys" where
  "upd_nodes f s = s\<lparr>nodes := f (nodes s)\<rparr>"

text \<open>\<^verbatim>\<open>container_of\<close>: the task around a node.\<close>

fun ready_of :: "knode option \<Rightarrow> tid option" where
  "ready_of (Some (Ready_node t)) = Some t"
| "ready_of _ = None"

fun wait_of :: "knode option \<Rightarrow> tid option" where
  "wait_of (Some (Wait_node t)) = Some t"
| "wait_of _ = None"

fun sleep_of :: "knode option \<Rightarrow> tid option" where
  "sleep_of (Some (Sleep_node t)) = Some t"
| "sleep_of _ = None"

definition irq_save :: "ksys \<Rightarrow> bool \<times> ksys" where
  "irq_save s = (irq s, if irq s then s\<lparr>irq := False\<rparr> else s)"

definition irq_restore :: "bool \<Rightarrow> ksys \<Rightarrow> ksys" where
  "irq_restore fl s = (if fl then s\<lparr>irq := True\<rparr> else s)"

text \<open>A section with interrupts off.\<close>

definition with_irq_off :: "(ksys \<Rightarrow> (ksys, 'a) proc) \<Rightarrow> ksys \<Rightarrow> (ksys, 'a) proc" where
  "with_irq_off m s = (let (fl, s1) = irq_save s in bindp (m s1) (\<lambda>x s2. Done x (irq_restore fl s2)))"

section \<open>Tasks\<close>

definition ITFREQ :: u32 where "ITFREQ = 20"

definition time_seconds :: "ksys \<Rightarrow> u32" where
  "time_seconds s = ticks s div ITFREQ"

definition priority_higher :: "nat \<Rightarrow> nat \<Rightarrow> bool" where
  "priority_higher prior other \<longleftrightarrow> prior < other"

definition task_switch_active :: "tid \<Rightarrow> ksys \<Rightarrow> ksys option" where
  "task_switch_active nx s =
    (case active s of
       None \<Rightarrow> None
     | Some a \<Rightarrow>
         (let s1 = (if t_state (tasks s a) = RUNNING then upd_task a (\<lambda>t. t\<lparr>t_state := READY\<rparr>) s else s)
          in Some ((upd_task nx (\<lambda>t. t\<lparr>t_state := RUNNING\<rparr>) s1)\<lparr>active := Some nx\<rparr>)))"

definition task_sleep :: "tid \<Rightarrow> u32 \<Rightarrow> ksys \<Rightarrow> ksys" where
  "task_sleep t delay s = upd_task t (\<lambda>x. x\<lparr>t_state := SLEEPING, t_wake := ucast (delay + time_seconds s)\<rparr>) s"

definition task_block :: "tid \<Rightarrow> ksys \<Rightarrow> ksys" where
  "task_block t = upd_task t (\<lambda>x. x\<lparr>t_state := BLOCKED\<rparr>)"

definition remove_node :: "knode \<Rightarrow> ksys \<Rightarrow> ksys" where
  "remove_node n s = (if clist_is_in_list (nodes s) n then upd_nodes (\<lambda>h. clist_remove h (Some n)) s else s)"

definition remove_from_blocking_queues :: "tid \<Rightarrow> ksys \<Rightarrow> ksys" where
  "remove_from_blocking_queues t s = remove_node (Wait_node t) (remove_node (Sleep_node t) s)"

definition remove_from_sched_queues :: "tid \<Rightarrow> ksys \<Rightarrow> ksys" where
  "remove_from_sched_queues t s = remove_from_blocking_queues t (remove_node (Ready_node t) s)"

definition remove_from_all_queues :: "tid \<Rightarrow> ksys \<Rightarrow> ksys" where
  "remove_from_all_queues t s = remove_from_sched_queues t (remove_node (Task_node t) s)"

text \<open>Interrupts are off inside, and the calls between change no more than the task.\<close>

definition task_wake :: "tid \<Rightarrow> ksys \<Rightarrow> ksys" where
  "task_wake t s =
    (let (fl, s1) = irq_save s;
         s2 = (if t_state (tasks s1 t) = SLEEPING \<or> t_state (tasks s1 t) = BLOCKED
               then upd_task t (\<lambda>x. x\<lparr>t_state := RUNNING\<rparr>) (remove_from_blocking_queues t s1) else s1)
     in irq_restore fl s2)"

section \<open>Ready queues\<close>

definition preempt_disabled :: "ksys \<Rightarrow> bool" where
  "preempt_disabled s \<longleftrightarrow> 0 < preempt_count s"

definition delay_schedule :: "ksys \<Rightarrow> ksys" where
  "delay_schedule s = s\<lparr>need_resched := True\<rparr>"

definition init_ready_queues :: "ksys \<Rightarrow> ksys" where
  "init_ready_queues s =
    (fold (\<lambda>i. upd_nodes (\<lambda>h. clist_init_node h (Ready_queue i))) [0..<PRIORITY_COUNT] s)\<lparr>highest_ready_tracking := IDLE\<rparr>"

definition init_sleep_queue :: "ksys \<Rightarrow> ksys" where
  "init_sleep_queue = upd_nodes (\<lambda>h. clist_init_node h Sleeping_head)"

definition scheduler_init :: "ksys \<Rightarrow> ksys" where
  "scheduler_init s = init_sleep_queue (init_ready_queues s)"

definition ready_queue_enqueue :: "tid \<Rightarrow> ksys \<Rightarrow> ksys" where
  "ready_queue_enqueue t s = upd_nodes (\<lambda>h. clist_push_back h (Ready_queue (t_prio (tasks s t))) (Ready_node t)) s"

definition ready_queue_remove :: "tid \<Rightarrow> ksys \<Rightarrow> ksys" where
  "ready_queue_remove t s = remove_node (Ready_node t) s"

definition rotate_ready_queue :: "knode \<Rightarrow> ksys \<Rightarrow> tid option \<times> ksys" where
  "rotate_ready_queue rq s =
    (let h = nodes s in
     if clist_empty h rq \<or> nxt (h (nxt (h rq))) = rq then (ready_of (clist_first h rq), s)
     else
       (let (first, h1) = clist_pop_front h rq;
            h2 = (case first of None \<Rightarrow> h1 | Some n \<Rightarrow> clist_push_back h1 rq n)
        in (ready_of (clist_first h2 rq), s\<lparr>nodes := h2\<rparr>)))"

definition pick_highest :: "ksys \<Rightarrow> knode" where
  "pick_highest s = Ready_queue (highest_ready_tracking s)"

definition refresh_highest_prio :: "ksys \<Rightarrow> ksys" where
  "refresh_highest_prio s =
    (if \<not> clist_empty (nodes s) (Ready_queue (highest_ready_tracking s)) then s
     else case find (\<lambda>p. \<not> clist_empty (nodes s) (Ready_queue p)) [highest_ready_tracking s + 1..<PRIORITY_COUNT] of
       None \<Rightarrow> s
     | Some p \<Rightarrow> s\<lparr>highest_ready_tracking := p\<rparr>)"

definition update_highest :: "tid \<Rightarrow> ksys \<Rightarrow> ksys" where
  "update_highest t s =
    (let p = t_prio (tasks s t) in
     if priority_higher p (highest_ready_tracking s) then s\<lparr>highest_ready_tracking := p\<rparr> else s)"

section \<open>Switching\<close>

text \<open>A switch to the running task itself saves its registers and loads them again.\<close>

definition do_ctx_switch :: "tid option \<Rightarrow> ksys \<Rightarrow> (ksys, unit) proc" where
  "do_ctx_switch nx s =
    (case nx of
       None \<Rightarrow> Bad
     | Some t \<Rightarrow>
         (case task_switch_active t s of
            None \<Rightarrow> Bad
          | Some s1 \<Rightarrow> if active s = Some t then Done () s1 else Switch s1 (Done ())))"

definition check_and_preempt :: "tid \<Rightarrow> ksys \<Rightarrow> (ksys, unit) proc" where
  "check_and_preempt t s =
    (case active s of
       None \<Rightarrow> Done () s
     | Some cur \<Rightarrow>
         if priority_higher (t_prio (tasks s t)) (t_prio (tasks s cur)) then
           (if preempt_disabled s then Done () (delay_schedule s) else do_ctx_switch (Some t) s)
         else Done () s)"

definition switch_out_active :: "ksys \<Rightarrow> (ksys, unit) proc" where
  "switch_out_active =
    with_irq_off (\<lambda>s. let s1 = refresh_highest_prio s in do_ctx_switch (ready_of (clist_first (nodes s1) (pick_highest s1))) s1)"

definition scheduler_admit :: "tid \<Rightarrow> ksys \<Rightarrow> (ksys, unit) proc" where
  "scheduler_admit t = with_irq_off (\<lambda>s. check_and_preempt t (update_highest t (ready_queue_enqueue t s)))"

definition scheduler_disable_preempt :: "ksys \<Rightarrow> ksys" where
  "scheduler_disable_preempt s = s\<lparr>preempt_count := preempt_count s + 1\<rparr>"

definition scheduler_rotate :: "ksys \<Rightarrow> (ksys, unit) proc" where
  "scheduler_rotate s =
    (if 0 < preempt_count s then Done () s
     else with_irq_off (\<lambda>s.
       let (nx, s1) = rotate_ready_queue (pick_highest s) s
       in if nx \<noteq> active s1 then do_ctx_switch nx s1 else Done () s1) s)"

definition scheduler_enable_preempt :: "ksys \<Rightarrow> (ksys, unit) proc" where
  "scheduler_enable_preempt s =
    (let s1 = s\<lparr>preempt_count := preempt_count s - 1\<rparr> in
     if preempt_count s1 = 0 \<and> need_resched s1 then scheduler_rotate (s1\<lparr>need_resched := False\<rparr>) else Done () s1)"

definition scheduler_ready_task :: "tid \<Rightarrow> ksys \<Rightarrow> (ksys, unit) proc" where
  "scheduler_ready_task t =
    with_irq_off (\<lambda>s. check_and_preempt t (ready_queue_enqueue t (update_highest t (task_wake t s))))"

section \<open>Spin locks\<close>

definition spinlock_init :: "sync_id \<Rightarrow> ksys \<Rightarrow> ksys" where
  "spinlock_init l s = s\<lparr>slock := (slock s)(l := False)\<rparr>"

text \<open>On the one hart, with preemption off, nobody releases a lock that is found taken.\<close>

definition spinlock_lock :: "sync_id \<Rightarrow> ksys \<Rightarrow> (ksys, unit) proc" where
  "spinlock_lock l s =
    (let s1 = scheduler_disable_preempt s in
     if slock s1 l then Spin else Done () (s1\<lparr>slock := (slock s1)(l := True)\<rparr>))"

definition spinlock_unlock :: "sync_id \<Rightarrow> ksys \<Rightarrow> (ksys, unit) proc" where
  "spinlock_unlock l s = scheduler_enable_preempt (s\<lparr>slock := (slock s)(l := False)\<rparr>)"

definition spinlock_lock_irq_save :: "sync_id \<Rightarrow> ksys \<Rightarrow> (ksys, bool) proc" where
  "spinlock_lock_irq_save l s = (let (fl, s1) = irq_save s in bindp (spinlock_lock l s1) (\<lambda>_ s2. Done fl s2))"

definition spinlock_unlock_irq_restore :: "sync_id \<Rightarrow> bool \<Rightarrow> ksys \<Rightarrow> (ksys, unit) proc" where
  "spinlock_unlock_irq_restore l fl s = bindp (spinlock_unlock l s) (\<lambda>_ s1. Done () (irq_restore fl s1))"

section \<open>Sleeping\<close>

definition wake_up_cmp :: "ksys \<Rightarrow> knode \<Rightarrow> knode \<Rightarrow> int" where
  "wake_up_cmp s cur other =
    (case (sleep_of (Some cur), sleep_of (Some other)) of
       (Some a, Some b) \<Rightarrow> if t_wake (tasks s a) > t_wake (tasks s b) then 1 else 0
     | _ \<Rightarrow> 0)"

definition insert_sleep :: "tid \<Rightarrow> ksys \<Rightarrow> (ksys, unit) proc" where
  "insert_sleep t s =
    (case clist_insert_sorted (nodes s) Sleeping_head (Sleep_node t) (wake_up_cmp s) of
       None \<Rightarrow> Spin
     | Some h \<Rightarrow> Done () (s\<lparr>nodes := h\<rparr>))"

definition with_active :: "(tid \<Rightarrow> ksys \<Rightarrow> (ksys, 'a) proc) \<Rightarrow> ksys \<Rightarrow> (ksys, 'a) proc" where
  "with_active f s = (case active s of None \<Rightarrow> Bad | Some t \<Rightarrow> f t s)"

definition scheduler_sleep :: "u32 \<Rightarrow> ksys \<Rightarrow> (ksys, unit) proc" where
  "scheduler_sleep secs =
    with_irq_off (with_active (\<lambda>t s.
      bindp (insert_sleep t (task_sleep t secs (ready_queue_remove t s))) (\<lambda>_. switch_out_active)))"

definition wake_up_sleeping_cb :: "u32 \<Rightarrow> knode \<Rightarrow> ksys \<Rightarrow> (ksys, bool) proc" where
  "wake_up_sleeping_cb now node s =
    (case sleep_of (Some node) of
       None \<Rightarrow> Bad
     | Some t \<Rightarrow>
         if ucast now < t_wake (tasks s t) then Done False s
         else bindp (scheduler_ready_task t (upd_nodes (\<lambda>h. clist_remove h (Some node)) s)) (\<lambda>_. Done False))"

text \<open>\<^verbatim>\<open>clist_for_each\<close> and \<^verbatim>\<open>clist_for_each_and_del\<close> with a callback that can be switched out; the first
  argument bounds the number of rounds.\<close>

fun for_each_p :: "nat \<Rightarrow> (knode \<Rightarrow> ksys \<Rightarrow> (ksys, bool) proc) \<Rightarrow> knode \<Rightarrow> knode \<Rightarrow> ksys \<Rightarrow> (ksys, unit) proc" where
  "for_each_p 0 cb head cur s = Spin"
| "for_each_p (Suc n) cb head cur s =
    (if cur \<noteq> head then
       (let nx = nxt (nodes s cur)
        in bindp (cb cur s) (\<lambda>stop s1. if stop then Done () s1 else for_each_p n cb head nx s1))
     else Done () s)"

fun for_each_and_del_p :: "nat \<Rightarrow> (knode \<Rightarrow> ksys \<Rightarrow> (ksys, bool) proc) \<Rightarrow> knode \<Rightarrow> knode \<Rightarrow> ksys \<Rightarrow> (ksys, unit) proc" where
  "for_each_and_del_p 0 cb head cur s = Spin"
| "for_each_and_del_p (Suc n) cb head cur s =
    (if cur \<noteq> head then
       (let nx = nxt (nodes s cur)
        in bindp (cb cur (upd_nodes (\<lambda>h. clist_remove h (Some cur)) s)) (\<lambda>_ s1. for_each_and_del_p n cb head nx s1))
     else Done () s)"

definition scheduler_wake_sleeping :: "nat \<Rightarrow> ksys \<Rightarrow> (ksys, unit) proc" where
  "scheduler_wake_sleeping n =
    with_irq_off (\<lambda>s. for_each_p n (wake_up_sleeping_cb (time_seconds s)) Sleeping_head (nxt (nodes s Sleeping_head)) s)"

section \<open>Wait queues (kernel/core/sync/waitqueue.c)\<close>

definition wq_init :: "knode \<Rightarrow> ksys \<Rightarrow> ksys" where
  "wq_init wq = upd_nodes (\<lambda>h. clist_init_node h wq)"

definition wq_peek_head :: "ksys \<Rightarrow> knode \<Rightarrow> knode option" where
  "wq_peek_head s wq = clist_first (nodes s) wq"

definition wq_enqueue :: "knode \<Rightarrow> knode \<Rightarrow> ksys \<Rightarrow> ksys" where
  "wq_enqueue wq n = upd_nodes (\<lambda>h. clist_push_back h wq n)"

definition wq_remove :: "knode \<Rightarrow> ksys \<Rightarrow> ksys" where
  "wq_remove n = upd_nodes (\<lambda>h. clist_remove h (Some n))"

definition wq_pop_head :: "knode \<Rightarrow> ksys \<Rightarrow> knode option \<times> ksys" where
  "wq_pop_head wq s = (let (n, h) = clist_pop_front (nodes s) wq in (n, s\<lparr>nodes := h\<rparr>))"

definition wq_is_empty :: "ksys \<Rightarrow> knode \<Rightarrow> bool" where
  "wq_is_empty s wq = clist_empty (nodes s) wq"

definition wq_for_each_and_del :: "nat \<Rightarrow> knode \<Rightarrow> (knode \<Rightarrow> ksys \<Rightarrow> (ksys, bool) proc) \<Rightarrow> ksys \<Rightarrow> (ksys, unit) proc" where
  "wq_for_each_and_del n wq cb s = for_each_and_del_p n cb wq (nxt (nodes s wq)) (wq_init wq s)"

section \<open>Blocking\<close>

definition move_to_wq :: "tid \<Rightarrow> knode \<Rightarrow> ksys \<Rightarrow> ksys" where
  "move_to_wq t wq s = wq_enqueue wq (Wait_node t) (task_block t (ready_queue_remove t s))"

definition wake_up_waiting_cb :: "knode \<Rightarrow> ksys \<Rightarrow> (ksys, bool) proc" where
  "wake_up_waiting_cb cur s =
    (case wait_of (Some cur) of None \<Rightarrow> Bad | Some t \<Rightarrow> bindp (scheduler_ready_task t s) (\<lambda>_. Done False))"

definition scheduler_block_on :: "knode \<Rightarrow> ksys \<Rightarrow> (ksys, unit) proc" where
  "scheduler_block_on wq = with_irq_off (with_active (\<lambda>t s. switch_out_active (move_to_wq t wq s)))"

definition scheduler_block_on_locked :: "knode \<Rightarrow> sync_id \<Rightarrow> ksys \<Rightarrow> (ksys, unit) proc" where
  "scheduler_block_on_locked wq l =
    with_irq_off (with_active (\<lambda>t s. bindp (spinlock_unlock l (move_to_wq t wq s)) (\<lambda>_. switch_out_active)))"

definition scheduler_block_on_with_timeout :: "knode \<Rightarrow> u32 \<Rightarrow> ksys \<Rightarrow> (ksys, unit) proc" where
  "scheduler_block_on_with_timeout wq secs =
    with_irq_off (with_active (\<lambda>t s.
      let s1 = move_to_wq t wq s
      in bindp (if 0 < secs then insert_sleep t (task_sleep t secs s1) else Done () s1) (\<lambda>_. switch_out_active)))"

definition scheduler_wake_waiting_queue :: "nat \<Rightarrow> knode \<Rightarrow> ksys \<Rightarrow> (ksys, unit) proc" where
  "scheduler_wake_waiting_queue n wq =
    with_irq_off (wq_for_each_and_del n wq wake_up_waiting_cb)"

end
