(* ===== verification/Sync.thy ===== *)
theory Sync
  imports Prelude Clist Sched
begin

text \<open>
  Semaphores and mutexes (\<^verbatim>\<open>kernel/core/sync/semaphore.c\<close>, \<^verbatim>\<open>kernel/core/sync/mutex.c\<close>) and the timer
  interrupt that posts two semaphores (\<^verbatim>\<open>kernel/core/time/time.c\<close>).  Semaphore \<open>k\<close> is \<open>sem_count s k\<close> with the wait
  queue \<open>Wait_queue (Sem k)\<close> and the spin lock \<open>Sem k\<close>; mutex \<open>k\<close> likewise.
\<close>

section \<open>Semaphores\<close>

definition sem_init :: "nat \<Rightarrow> 32 word \<Rightarrow> ksys \<Rightarrow> ksys" where
  "sem_init k v s =
    (let s1 = wq_init (Wait_queue (Sem k)) (spinlock_init (Sem k) s) in s1\<lparr>sem_count := (sem_count s1)(k := v)\<rparr>)"

definition sem_try_take_unlocked :: "nat \<Rightarrow> ksys \<Rightarrow> int \<times> ksys" where
  "sem_try_take_unlocked k s =
    (if sint (sem_count s k) \<le> 0 then (- EAGAIN, s)
     else (0, s\<lparr>sem_count := (sem_count s)(k := sem_count s k - 1)\<rparr>))"

definition sem_try_take :: "nat \<Rightarrow> ksys \<Rightarrow> (ksys, int) proc" where
  "sem_try_take k s =
    bindp (spinlock_lock_irq_save (Sem k) s) (\<lambda>fl s1.
      let (res, s2) = sem_try_take_unlocked k s1
      in bindp (spinlock_unlock_irq_restore (Sem k) fl s2) (\<lambda>_. Done res))"

definition sem_wait :: "nat \<Rightarrow> ksys \<Rightarrow> (ksys, unit) proc" where
  "sem_wait k s =
    bindp (spinlock_lock_irq_save (Sem k) s) (\<lambda>fl s1.
      let (res, s2) = sem_try_take_unlocked k s1
      in if res < 0 then
           bindp (scheduler_block_on_locked (Wait_queue (Sem k)) (Sem k) s2) (\<lambda>_ s3. Done () (irq_restore fl s3))
         else spinlock_unlock_irq_restore (Sem k) fl s2)"

definition sem_post :: "nat \<Rightarrow> ksys \<Rightarrow> (ksys, unit) proc" where
  "sem_post k s =
    bindp (spinlock_lock_irq_save (Sem k) s) (\<lambda>fl s1.
      bindp
        (if \<not> wq_is_empty s1 (Wait_queue (Sem k)) then
           (let (node, s2) = wq_pop_head (Wait_queue (Sem k)) s1
            in case wait_of node of None \<Rightarrow> Bad | Some t \<Rightarrow> scheduler_ready_task t s2)
         else Done () (s1\<lparr>sem_count := (sem_count s1)(k := sem_count s1 k + 1)\<rparr>))
        (\<lambda>_. spinlock_unlock_irq_restore (Sem k) fl))"

section \<open>Mutexes\<close>

definition mutex_init :: "nat \<Rightarrow> ksys \<Rightarrow> ksys" where
  "mutex_init k s =
    (let s1 = wq_init (Wait_queue (Mutex k)) (spinlock_init (Mutex k) s)
     in s1\<lparr>m_locked := (m_locked s1)(k := False), m_owner := (m_owner s1)(k := None)\<rparr>)"

definition mutex_is_lock :: "ksys \<Rightarrow> nat \<Rightarrow> bool" where
  "mutex_is_lock s k = m_locked s k"

definition mutex_owner :: "ksys \<Rightarrow> nat \<Rightarrow> tid option" where
  "mutex_owner s k = m_owner s k"

definition mutex_trylock_unlocked :: "nat \<Rightarrow> ksys \<Rightarrow> int \<times> ksys" where
  "mutex_trylock_unlocked k s =
    (if m_locked s k then (- EBUSY, s)
     else (0, s\<lparr>m_locked := (m_locked s)(k := True), m_owner := (m_owner s)(k := active s)\<rparr>))"

definition mutex_trylock :: "nat \<Rightarrow> ksys \<Rightarrow> (ksys, int) proc" where
  "mutex_trylock k s =
    bindp (spinlock_lock (Mutex k) s) (\<lambda>_ s1.
      let (res, s2) = mutex_trylock_unlocked k s1
      in bindp (spinlock_unlock (Mutex k) s2) (\<lambda>_. Done res))"

definition mutex_lock :: "nat \<Rightarrow> ksys \<Rightarrow> (ksys, unit) proc" where
  "mutex_lock k s =
    bindp (spinlock_lock (Mutex k) s) (\<lambda>_ s1.
      let (res, s2) = mutex_trylock_unlocked k s1
      in if res < 0 then scheduler_block_on_locked (Wait_queue (Mutex k)) (Mutex k) s2
         else spinlock_unlock (Mutex k) s2)"

definition mutex_unlock :: "nat \<Rightarrow> ksys \<Rightarrow> (ksys, unit) proc" where
  "mutex_unlock k s =
    bindp (spinlock_lock (Mutex k) s) (\<lambda>_ s1.
      bindp
        (if \<not> m_locked s1 k \<or> m_owner s1 k \<noteq> active s1 then Done () s1
         else if \<not> wq_is_empty s1 (Wait_queue (Mutex k)) then
           (let (node, s2) = wq_pop_head (Wait_queue (Mutex k)) s1
            in case wait_of node of
                 None \<Rightarrow> Bad
               | Some t \<Rightarrow> scheduler_ready_task t (s2\<lparr>m_owner := (m_owner s2)(k := Some t)\<rparr>))
         else Done () (s1\<lparr>m_locked := (m_locked s1)(k := False), m_owner := (m_owner s1)(k := None)\<rparr>))
        (\<lambda>_. spinlock_unlock (Mutex k)))"

section \<open>Time\<close>

text \<open>The two semaphores of the timer; acknowledging the timer is a device access.\<close>

definition clock :: nat where "clock = 0"
definition tick :: nat where "tick = 1"

definition time_irq_handler :: "ksys \<Rightarrow> (ksys, unit) proc" where
  "time_irq_handler s =
    (let s1 = s\<lparr>ticks := ticks s + 1\<rparr>
     in bindp (if ticks s1 mod ITFREQ = 0 then sem_post clock s1 else Done () s1) (\<lambda>_. sem_post tick))"

text \<open>One round of the daemon that handles ticks, and the text the clock daemon displays.\<close>

definition tick_round :: "nat \<Rightarrow> ksys \<Rightarrow> (ksys, unit) proc" where
  "tick_round n s = bindp (sem_wait tick s) (\<lambda>_ s1. bindp (scheduler_wake_sleeping n s1) (\<lambda>_. scheduler_rotate))"

definition clock_fields :: "ksys \<Rightarrow> u32 \<times> u32 \<times> u32" where
  "clock_fields s = (let t = time_seconds s in (t div 3600, (t div 60) mod 60, t mod 60))"

end
