(* ===== verification/Mmap.thy ===== *)
theory Mmap
  imports Prelude Pages Vpages Sched
begin

unbundle bit_operations_syntax

text \<open>
  The address spaces of the kernel and of the tasks (\<^verbatim>\<open>kernel/core/memory/mmap.c\<close>) and the trap frames
  (\<^verbatim>\<open>arch/trap.c\<close>, \<^verbatim>\<open>include/arch/trap.h\<close>).  The addresses the linker gives to the trampoline page are components
  of the state.
\<close>

section \<open>Constants\<close>

definition UART_BASE :: u64 where [layout_defs]: "UART_BASE = 0x10000000"
definition PLIC_MMIO_BASE :: u64 where [layout_defs]: "PLIC_MMIO_BASE = 0x0c000000"
definition PLIC_MMIO_SIZE :: u64 where [layout_defs]: "PLIC_MMIO_SIZE = 0x202000"
definition PCI_ECAM_BASE_ADDRESS :: u64 where [layout_defs]: "PCI_ECAM_BASE_ADDRESS = 0x30000000"
definition PCI_ECAM_SIZE :: u64 where [layout_defs]: "PCI_ECAM_SIZE = 0x100000"
definition USTACK_TOP :: u64 where [layout_defs]: "USTACK_TOP = MAX_VA - 3 * PAGE_SIZE"
definition USTACK :: u64 where [layout_defs]: "USTACK = MAX_VA - 2 * PAGE_SIZE"
definition SATP_SV39_MODE :: u64 where [layout_defs]: "SATP_SV39_MODE = 8"
definition SATP_MODE_SHIFT :: nat where [layout_defs]: "SATP_MODE_SHIFT = 60"

definition THREAD_TRAPFRAME :: "u8 \<Rightarrow> u64" where
  "THREAD_TRAPFRAME pid = MAX_VA - (4 + ucast pid) * PAGE_SIZE"

section \<open>Address spaces\<close>

definition mmap_satp :: "u64 \<Rightarrow> u64" where
  "mmap_satp pt = push_bit SATP_MODE_SHIFT SATP_SV39_MODE OR page_get_num pt"

definition mmap_kernel_satp :: "ksys \<Rightarrow> u64" where
  "mmap_kernel_satp s = mmap_satp (kroot s)"

definition mmap_switch_to_kernel :: "ksys \<Rightarrow> ksys" where
  "mmap_switch_to_kernel s = s\<lparr>satp := mmap_kernel_satp s\<rparr>"

text \<open>
  A function on the physical memory applied to the memory of the state.  A loop that does not end is a
  \<open>Wait\<close>: the caller never gets an answer.
\<close>

definition on_mem :: "(phys \<Rightarrow> (phys \<times> 'b) outcome) \<Rightarrow> ksys \<Rightarrow> ('b \<times> ksys) outcome" where
  "on_mem f s = bind_out (f (mem s)) (\<lambda>(m, r). Ret (r, s\<lparr>mem := m\<rparr>))"

definition or_wait :: "'b outcome option \<Rightarrow> 'b outcome" where
  "or_wait r = (case r of None \<Rightarrow> Wait | Some x \<Rightarrow> x)"

definition map_range :: "u64 \<Rightarrow> u64 \<Rightarrow> u64 \<Rightarrow> u64 \<Rightarrow> u64 \<Rightarrow> ksys \<Rightarrow> (int \<times> ksys) outcome" where
  "map_range root va pa sz fl = on_mem (\<lambda>m. or_wait (vpage_map_range m root va pa sz fl))"

definition put_page :: "u64 \<Rightarrow> ksys \<Rightarrow> ksys outcome" where
  "put_page p s = bind_out (page_put (mem s) p) (\<lambda>m. Ret (s\<lparr>mem := m\<rparr>))"

definition free_tree :: "u64 option \<Rightarrow> ksys \<Rightarrow> ksys outcome" where
  "free_tree r s = bind_out (vpage_tree_free (mem s) r) (\<lambda>m. Ret (s\<lparr>mem := m\<rparr>))"

definition new_page :: "ksys \<Rightarrow> u64 option \<times> ksys" where
  "new_page s = (let (m, p) = page_alloc (mem s) in (p, s\<lparr>mem := m\<rparr>))"

definition iommap_kernel :: "u64 \<Rightarrow> u64 \<Rightarrow> ksys \<Rightarrow> (int \<times> ksys) outcome" where
  "iommap_kernel ad sz s =
    bind_out (map_range (kroot s) ad ad sz (PTE_R OR PTE_W) s) (\<lambda>(res, s1).
      if res < 0 then Ret (res, s1) else Ret (0, s1))"

text \<open>The ranges \<^verbatim>\<open>mmap_kernel\<close> maps, in its order; on a failure it releases the root.  The page of
  the UART is mapped alone, as a range of one page is.\<close>

definition kernel_ranges :: "ksys \<Rightarrow> (u64 \<times> u64 \<times> u64 \<times> u64) list" where
  "kernel_ranges s =
    [(ram_start, ram_start, ram_end - ram_start, PTE_R OR PTE_W OR PTE_X),
     (TRAMPOLINE, trampoline_start s, trampoline_end s - trampoline_start s, PTE_X OR PTE_R),
     (UART_BASE, UART_BASE, PAGE_SIZE, PTE_R OR PTE_W),
     (PCI_ECAM_BASE_ADDRESS, PCI_ECAM_BASE_ADDRESS, PCI_ECAM_SIZE, PTE_R OR PTE_W),
     (PLIC_MMIO_BASE, PLIC_MMIO_BASE, PLIC_MMIO_SIZE, PTE_R OR PTE_W)]"

fun map_ranges :: "u64 \<Rightarrow> (u64 \<times> u64 \<times> u64 \<times> u64) list \<Rightarrow> ksys \<Rightarrow> (int \<times> ksys) outcome" where
  "map_ranges root [] s = Ret (0, s)"
| "map_ranges root ((va, pa, sz, fl) # rs) s =
    bind_out (map_range root va pa sz fl s) (\<lambda>(res, s1). if res < 0 then Ret (res, s1) else map_ranges root rs s1)"

definition mmap_kernel :: "ksys \<Rightarrow> (int \<times> ksys) outcome" where
  "mmap_kernel s =
    (case new_page s of
       (None, s1) \<Rightarrow> Ret (- ENOMEM, s1\<lparr>kroot := 0\<rparr>)
     | (Some root, s1) \<Rightarrow>
         bind_out (map_ranges root (kernel_ranges s1) (s1\<lparr>kroot := root\<rparr>)) (\<lambda>(res, s2).
           if res < 0 then bind_out (put_page root s2) (\<lambda>s3. Ret (res, s3))
           else Ret (0, mmap_switch_to_kernel s2)))"

definition mmap_uspace :: "tid \<Rightarrow> ksys \<Rightarrow> (int \<times> ksys) outcome" where
  "mmap_uspace p s =
    (if \<not> t_user (tasks s p) then Ret (- EINVAL, s)
     else case new_page s of
       (None, s1) \<Rightarrow> Ret (- ENOMEM, s1)
     | (Some root, s1) \<Rightarrow>
         (case new_page s1 of
            (None, s2) \<Rightarrow> bind_out (free_tree (Some root) s2) (\<lambda>s3. Ret (- ENOMEM, s3))
          | (Some t, s2) \<Rightarrow>
              bind_out (on_mem (\<lambda>m. vpage_map m root TRAPFRAME t (PTE_R OR PTE_W)) s2) (\<lambda>(res, s3).
                if res < 0 then
                  bind_out (put_page t s3) (\<lambda>s4. bind_out (free_tree (Some root) s4) (\<lambda>s5. Ret (res, s5)))
                else Ret (0, upd_task p (\<lambda>x. x\<lparr>t_root := root, t_frame_pa := t, t_frame_va := TRAPFRAME\<rparr>) s3))))"

definition mmap_uimage :: "tid \<Rightarrow> ksys \<Rightarrow> (int \<times> ksys) outcome" where
  "mmap_uimage p s =
    bind_out (mmap_uspace p s) (\<lambda>(res, s1).
      if res < 0 then Ret (res, s1)
      else
        (let root = t_root (tasks s1 p);
             fail = (\<lambda>res s'. bind_out (free_tree (Some root) s') (\<lambda>s''.
               Ret (res, upd_task p (\<lambda>x. x\<lparr>t_root := 0, t_frame_pa := 0\<rparr>) s'')))
         in bind_out (map_range root TRAMPOLINE (trampoline_start s1) (trampoline_end s1 - trampoline_start s1)
               (PTE_X OR PTE_R OR PTE_G) s1) (\<lambda>(res, s2).
              if res < 0 then fail res s2
              else case new_page s2 of
                (None, s3) \<Rightarrow> fail (- ENOMEM) s3
              | (Some stack, s3) \<Rightarrow>
                  bind_out (on_mem (\<lambda>m. vpage_map_user m root USTACK_TOP stack (PTE_R OR PTE_W)) s3) (\<lambda>(res, s4).
                    if res < 0 then bind_out (put_page stack s4) (\<lambda>s5. fail res s5) else Ret (0, s4)))))"

section \<open>Trap frames\<close>

definition FRAME_SP :: u64 where [layout_defs]: "FRAME_SP = 0"
definition FRAME_A :: "nat \<Rightarrow> u64" where "FRAME_A i = 16 + 8 * word_of_nat i"
definition FRAME_SEPC :: u64 where [layout_defs]: "FRAME_SEPC = 232"
definition FRAME_SCAUSE :: u64 where [layout_defs]: "FRAME_SCAUSE = 240"
definition FRAME_SSTATUS :: u64 where [layout_defs]: "FRAME_SSTATUS = 248"
definition FRAME_SATP :: u64 where [layout_defs]: "FRAME_SATP = 256"
definition FRAME_KSTACK :: u64 where [layout_defs]: "FRAME_KSTACK = 264"
definition FRAME_KSATP :: u64 where [layout_defs]: "FRAME_KSATP = 272"
definition SIZEOF_TFRAME :: u64 where [layout_defs]: "SIZEOF_TFRAME = 280"

definition SSTATUS_SIE :: u64 where [layout_defs]: "SSTATUS_SIE = 2"
definition SSTATUS_SPIE :: u64 where [layout_defs]: "SSTATUS_SPIE = 0x20"
definition SSTATUS_SPP :: u64 where [layout_defs]: "SSTATUS_SPP = 0x100"

definition poke :: "u64 \<Rightarrow> u64 \<Rightarrow> ksys \<Rightarrow> ksys" where
  "poke a w s = s\<lparr>mem := store (mem s) a w\<rparr>"

definition peek :: "ksys \<Rightarrow> u64 \<Rightarrow> u64" where
  "peek s a = load (mem s) a"

text \<open>The status register; its interrupt bit is the component \<open>irq\<close> of the state.\<close>

definition read_sstatus :: "ksys \<Rightarrow> u64" where
  "read_sstatus s = (sstatus s AND NOT SSTATUS_SIE) OR (if irq s then SSTATUS_SIE else 0)"

definition get_user_sstatus :: "ksys \<Rightarrow> u64" where
  "get_user_sstatus s = (read_sstatus s AND NOT SSTATUS_SPP) OR SSTATUS_SPIE"

definition tframe_init :: "u64 \<Rightarrow> u64 \<Rightarrow> u64 \<Rightarrow> ksys \<Rightarrow> ksys" where
  "tframe_init t root kstack_top s =
    poke (t + FRAME_KSATP) (mmap_kernel_satp s)
      (poke (t + FRAME_KSTACK) kstack_top
        (poke (t + FRAME_SATP) (mmap_satp root) (poke (t + FRAME_SSTATUS) (get_user_sstatus s) s)))"

definition tframe_start :: "u64 \<Rightarrow> u64 \<Rightarrow> u64 \<Rightarrow> ksys \<Rightarrow> ksys" where
  "tframe_start t ent ustack s = poke (t + FRAME_SEPC) ent (poke (t + FRAME_SP) ustack s)"

definition tframe_set_arg :: "u64 \<Rightarrow> nat \<Rightarrow> u64 \<Rightarrow> ksys \<Rightarrow> ksys" where
  "tframe_set_arg t idx v = poke (t + FRAME_A idx) v"

definition tframe_set_return_val :: "u64 \<Rightarrow> u64 \<Rightarrow> ksys \<Rightarrow> ksys" where
  "tframe_set_return_val t v = poke (t + FRAME_A 0) v"

end
