(* ===== verification/Elf.thy ===== *)
theory Elf
  imports Prelude Files Mmap
begin

unbundle bit_operations_syntax

text \<open>
  The loader of executables (\<^verbatim>\<open>kernel/core/memory/elf.c\<close>).  The headers are read as bytes, and their fields are
  taken from the offsets of the structures of \<^verbatim>\<open>include/kernel/elf.h\<close> and \<^verbatim>\<open>elf.c\<close>.  The routines of the drivers
  that \<^verbatim>\<open>file_read\<close> may call are the parameter \<open>drv\<close>.
\<close>

section \<open>Headers\<close>

definition ELF_MAX_PHDR :: u16 where [layout_defs]: "ELF_MAX_PHDR = 16"
definition ELF_MAGIC_STR :: "u8 list" where [layout_defs]: "ELF_MAGIC_STR = [0x7f, 0x45, 0x4c, 0x46]"
definition ELF_HDR_IDENT_CLASS_64 :: u8 where [layout_defs]: "ELF_HDR_IDENT_CLASS_64 = 2"
definition ELF_HDR_IDENT_DATA_2LSB :: u8 where [layout_defs]: "ELF_HDR_IDENT_DATA_2LSB = 1"
definition ELF_HDR_TYPE_EXEC :: u16 where [layout_defs]: "ELF_HDR_TYPE_EXEC = 2"
definition ELF_HDR_MACHINE_RISCV :: u16 where [layout_defs]: "ELF_HDR_MACHINE_RISCV = 243"
definition ELF_PHDR_TYPE_LOAD :: u32 where [layout_defs]: "ELF_PHDR_TYPE_LOAD = 1"
definition ELF_PHDR_FLAG_X :: u32 where [layout_defs]: "ELF_PHDR_FLAG_X = 1"
definition ELF_PHDR_FLAG_W :: u32 where [layout_defs]: "ELF_PHDR_FLAG_W = 2"
definition ELF_PHDR_FLAG_R :: u32 where [layout_defs]: "ELF_PHDR_FLAG_R = 4"
definition SIZEOF_ELF_HDR :: nat where [layout_defs]: "SIZEOF_ELF_HDR = 64"
definition SIZEOF_ELF_PHDR :: nat where [layout_defs]: "SIZEOF_ELF_PHDR = 56"

record elf_hdr =
  ident :: "u8 list"
  e_type :: u16
  e_machine :: u16
  e_version :: u32
  e_entry :: u64
  phdroff :: u64
  e_shdroff :: u64
  e_flags :: u32
  e_size :: u16
  phdr_size :: u16
  phdr_num :: u16

record elf_phdr =
  p_type :: u32
  p_flags :: u32
  p_offset :: u64
  p_va :: u64
  p_pa :: u64
  p_filesz :: u64
  p_memsz :: u64
  p_align :: u64

definition elf_hdr_of :: "u8 list \<Rightarrow> elf_hdr" where
  "elf_hdr_of bs =
    \<lparr>ident = take 16 bs, e_type = le_word (take 2 (drop 16 bs)), e_machine = le_word (take 2 (drop 18 bs)),
     e_version = le_word (take 4 (drop 20 bs)), e_entry = le_word (take 8 (drop 24 bs)),
     phdroff = le_word (take 8 (drop 32 bs)), e_shdroff = le_word (take 8 (drop 40 bs)),
     e_flags = le_word (take 4 (drop 48 bs)), e_size = le_word (take 2 (drop 52 bs)),
     phdr_size = le_word (take 2 (drop 54 bs)), phdr_num = le_word (take 2 (drop 56 bs))\<rparr>"

definition elf_phdr_of :: "u8 list \<Rightarrow> elf_phdr" where
  "elf_phdr_of bs =
    \<lparr>p_type = le_word (take 4 bs), p_flags = le_word (take 4 (drop 4 bs)), p_offset = le_word (take 8 (drop 8 bs)),
     p_va = le_word (take 8 (drop 16 bs)), p_pa = le_word (take 8 (drop 24 bs)), p_filesz = le_word (take 8 (drop 32 bs)),
     p_memsz = le_word (take 8 (drop 40 bs)), p_align = le_word (take 8 (drop 48 bs))\<rparr>"

text \<open>A result of 64 bits kept in an \<^verbatim>\<open>int\<close>.\<close>

definition to_int :: "int \<Rightarrow> int" where
  "to_int r = sint (word_of_int r :: 32 word)"

type_synonym read_drv = "nat \<Rightarrow> ksys \<Rightarrow> nat \<Rightarrow> kbuf \<Rightarrow> u64 \<Rightarrow> (int \<times> kbuf \<times> ksys) outcome"

text \<open>The header lies on the stack: what the file does not fill of it is what was there.\<close>

definition elf_load_hdr :: "read_drv \<Rightarrow> nat \<Rightarrow> ksys \<Rightarrow> (int \<times> elf_hdr \<times> ksys) outcome" where
  "elf_load_hdr drv f s =
    (let raw = take SIZEOF_ELF_HDR (junk s) in
     bind_out (file_seek s f 0 SEEK_SET) (\<lambda>(r, s1).
       let res = to_int r in
       if res < 0 then Ret (res, elf_hdr_of raw, s1)
       else bind_out (file_read drv s1 f (Kernel raw) (word_of_nat SIZEOF_ELF_HDR)) (\<lambda>(res, b, s2).
         case b of
           User _ \<Rightarrow> Undef
         | Kernel bs \<Rightarrow> Ret (if res < 0 then res else 0, elf_hdr_of bs, s2))))"

definition elf_verify_file_format :: "elf_hdr \<Rightarrow> int" where
  "elf_verify_file_format hdr =
    (if take 4 (ident hdr) \<noteq> ELF_MAGIC_STR then - ENOEXEC
     else if ident hdr ! 4 \<noteq> ELF_HDR_IDENT_CLASS_64 then - ENOEXEC
     else if ident hdr ! 5 \<noteq> ELF_HDR_IDENT_DATA_2LSB then - ENOEXEC
     else if e_type hdr \<noteq> ELF_HDR_TYPE_EXEC then - ENOEXEC
     else if e_machine hdr \<noteq> ELF_HDR_MACHINE_RISCV then - ENOEXEC
     else 0)"

definition load_phdr :: "read_drv \<Rightarrow> nat \<Rightarrow> elf_hdr \<Rightarrow> ksys \<Rightarrow> (int \<times> elf_phdr list \<times> ksys) outcome" where
  "load_phdr drv f hdr s =
    (if phdr_num hdr = 0 \<or> phdr_num hdr > ELF_MAX_PHDR then Ret (- ENOEXEC, [], s)
     else if phdr_size hdr \<noteq> word_of_nat SIZEOF_ELF_PHDR then Ret (- ENOEXEC, [], s)
     else bind_out (file_seek s f (sint (phdroff hdr)) SEEK_SET) (\<lambda>(r, s1).
       let res = to_int r in
       if res < 0 then Ret (res, [], s1)
       else
         (let n = unat (phdr_num hdr);
              raw = take (unat ELF_MAX_PHDR * SIZEOF_ELF_PHDR) (junk s1)
          in bind_out (file_read drv s1 f (Kernel raw) (word_of_nat (n * SIZEOF_ELF_PHDR))) (\<lambda>(res, b, s2).
               case b of
                 User _ \<Rightarrow> Undef
               | Kernel bs \<Rightarrow>
                   if res < 0 then Ret (res, [], s2)
                   else Ret (int n, map (\<lambda>k. elf_phdr_of (take SIZEOF_ELF_PHDR (drop (k * SIZEOF_ELF_PHDR) bs))) [0..<n], s2)))))"

definition is_load_phdr :: "elf_phdr \<Rightarrow> bool" where
  "is_load_phdr ph \<longleftrightarrow> p_type ph = ELF_PHDR_TYPE_LOAD"

definition is_valid_phdr :: "elf_phdr \<Rightarrow> bool" where
  "is_valid_phdr ph =
    (if p_memsz ph < p_filesz ph then False
     else if p_va ph mod PAGE_SIZE \<noteq> 0 then False
     else if p_va ph + p_memsz ph > ram_start then False
     else True)"

definition phdr_flag_to_pte_flag :: "u32 \<Rightarrow> u64" where
  "phdr_flag_to_pte_flag fl =
    (if fl AND ELF_PHDR_FLAG_X \<noteq> 0 then PTE_X else 0) OR
    (if fl AND ELF_PHDR_FLAG_W \<noteq> 0 then PTE_W else 0) OR
    (if fl AND ELF_PHDR_FLAG_R \<noteq> 0 then PTE_R else 0)"

section \<open>Segments\<close>

definition page_content :: "ksys \<Rightarrow> u64 \<Rightarrow> u8 list" where
  "page_content s p = map (\<lambda>k. pmem (mem s) (p + word_of_nat k)) [0..<unat PAGE_SIZE]"

definition set_page :: "u64 \<Rightarrow> u8 list \<Rightarrow> ksys \<Rightarrow> ksys" where
  "set_page p bs s =
    s\<lparr>mem := (mem s)\<lparr>pmem := (\<lambda>a. if unat (a - p) < length bs then bs ! unat (a - p) else pmem (mem s) a)\<rparr>\<rparr>"

text \<open>The read of one page of a segment: nothing beyond the part that is in the file.\<close>

definition fill_page :: "read_drv \<Rightarrow> nat \<Rightarrow> elf_phdr \<Rightarrow> u64 \<Rightarrow> u64 \<Rightarrow> ksys \<Rightarrow> (int \<times> ksys) outcome" where
  "fill_page drv f ph off pg s =
    (if off < p_filesz ph then
       (let n = (if p_filesz ph - off < PAGE_SIZE then p_filesz ph - off else PAGE_SIZE)
        in bind_out (file_read drv s f (Kernel (page_content s pg)) n) (\<lambda>(res, b, s1).
             case b of User _ \<Rightarrow> Undef | Kernel bs \<Rightarrow> Ret (res, set_page pg bs s1)))
     else Ret (0, s))"

partial_function (option) map_phdr_loop :: "read_drv \<Rightarrow> u64 \<Rightarrow> nat \<Rightarrow> elf_phdr \<Rightarrow> u64 \<Rightarrow> ksys \<Rightarrow> (int \<times> ksys) outcome option" where
  "map_phdr_loop drv root f ph off s =
    (if off < p_memsz ph then
       (case new_page s of
          (None, s1) \<Rightarrow> Some (Ret (- ENOMEM, s1))
        | (Some pg, s1) \<Rightarrow>
            (case fill_page drv f ph off pg s1 of
               Ret (res, s2) \<Rightarrow>
                 (if res < 0 then Some (Ret (res, s2))
                  else case on_mem (\<lambda>m. vpage_map_user m root (p_va ph + off) pg (phdr_flag_to_pte_flag (p_flags ph))) s2 of
                    Ret (res, s3) \<Rightarrow>
                      (if res < 0 then Some (bind_out (put_page pg s3) (\<lambda>s4. Ret (res, s4)))
                       else map_phdr_loop drv root f ph (off + PAGE_SIZE) s3)
                  | r \<Rightarrow> Some r)
             | r \<Rightarrow> Some r))
     else Some (Ret (0, s)))"

definition map_phdr :: "read_drv \<Rightarrow> u64 \<Rightarrow> nat \<Rightarrow> elf_phdr \<Rightarrow> ksys \<Rightarrow> (int \<times> ksys) outcome" where
  "map_phdr drv root f ph s =
    bind_out (file_seek s f (sint (p_offset ph)) SEEK_SET) (\<lambda>(r, s1).
      let res = to_int r in
      if res < 0 then Ret (res, s1) else or_wait (map_phdr_loop drv root f ph 0 s1))"

fun map_segments :: "read_drv \<Rightarrow> u64 \<Rightarrow> nat \<Rightarrow> elf_phdr list \<Rightarrow> ksys \<Rightarrow> (int \<times> ksys) outcome" where
  "map_segments drv root f [] s = Ret (0, s)"
| "map_segments drv root f (ph # phs) s =
    (if \<not> is_load_phdr ph then map_segments drv root f phs s
     else if \<not> is_valid_phdr ph then Ret (- ENOEXEC, s)
     else bind_out (map_phdr drv root f ph s) (\<lambda>(res, s1). if res < 0 then Ret (res, s1) else map_segments drv root f phs s1))"

definition elf_map :: "read_drv \<Rightarrow> u64 \<Rightarrow> nat \<Rightarrow> elf_hdr \<Rightarrow> ksys \<Rightarrow> (int \<times> ksys) outcome" where
  "elf_map drv root f hdr s =
    bind_out (load_phdr drv f hdr s) (\<lambda>(nb, phs, s1). if nb < 0 then Ret (nb, s1) else map_segments drv root f phs s1)"

section \<open>The loop over the pages of a segment\<close>

lemma map_phdr_loop_returns:
  assumes "p_memsz ph \<le> - PAGE_SIZE"
  shows "\<exists>r. map_phdr_loop drv root f ph off s = Some r"
proof (induction "unat (p_memsz ph) - unat off" arbitrary: off s rule: less_induct)
  case less
  have "\<exists>r. map_phdr_loop drv root f ph (off + PAGE_SIZE) s' = Some r" if "off < p_memsz ph" for s'
  proof (rule less)
    have "unat (off + PAGE_SIZE) = unat off + 4096"
      using that assms by (subst unat_plus_small) (auto simp: PAGE_SIZE_def word_less_nat_alt word_le_nat_alt)
    then show "unat (p_memsz ph) - unat (off + PAGE_SIZE) < unat (p_memsz ph) - unat off"
      using that by (simp add: word_less_nat_alt)
  qed
  then show ?case by (subst map_phdr_loop.simps) (auto split: prod.splits option.splits outcome.splits)
qed

lemma page_multiple_bound: "4096 dvd unat off \<Longrightarrow> off \<le> - PAGE_SIZE"
proof -
  assume "4096 dvd unat off"
  then obtain k where k: "unat off = 4096 * k" by blast
  have "unat off < 2 ^ 64" using unsigned_less [of off] by simp
  then have "unat off \<le> 2 ^ 64 - 4096" unfolding k by (simp add: dvd_def)
  then show ?thesis by (simp add: PAGE_SIZE_def word_le_nat_alt)
qed

lemma page_multiple_step: "4096 dvd unat off \<Longrightarrow> 4096 dvd unat (off + PAGE_SIZE)"
  by (simp add: PAGE_SIZE_def unat_word_ariths dvd_mod_iff)

lemma map_phdr_loop_fails:
  assumes "map_phdr_loop drv root f ph off s = Some (Ret (res, s'))" and "4096 dvd unat off" and "- PAGE_SIZE < p_memsz ph"
  shows "res < 0"
proof -
  have "4096 dvd unat off \<longrightarrow> - PAGE_SIZE < p_memsz ph \<longrightarrow> (\<forall>res s'. r = Ret (res, s') \<longrightarrow> res < 0)"
    if "map_phdr_loop drv root f ph off s = Some r" for r
  proof (rule map_phdr_loop.raw_induct [OF _ that], goal_cases)
    case (1 loop drv root f ph off s r)
    have "off < p_memsz ph" if "4096 dvd unat off" "- PAGE_SIZE < p_memsz ph"
      using page_multiple_bound [OF that(1)] that(2) by simp
    then show ?case
      using 1(2) 1(1) [of drv root f ph "off + PAGE_SIZE"] page_multiple_step [of off]
      by (auto split: if_splits prod.splits option.splits outcome.splits simp: ENOMEM_def bind_out_def)
  qed
  then show ?thesis using assms by blast
qed

text \<open>
  C20: the loop that maps a segment comes to an end, whatever the file, the driver and the state, when its size in memory is
  at most \<^verbatim>\<open>-PAGE_SIZE\<close>: it returns, or it stops in a panic or a wait of one of the calls it makes.  For a larger size the offset wraps around before it reaches the size: the loop can then end
  only with an error, and \<^verbatim>\<open>is_valid_phdr\<close>, whose own sum wraps around too, accepts headers of such a size.
\<close>

theorem map_phdr_ends:
  "(p_memsz ph \<le> - PAGE_SIZE \<longrightarrow> (\<exists>r. map_phdr_loop drv root f ph 0 s = Some r)) \<and>
   (- PAGE_SIZE < p_memsz ph \<longrightarrow> (\<forall>res s'. map_phdr_loop drv root f ph 0 s = Some (Ret (res, s')) \<longrightarrow> res < 0)) \<and>
   (\<exists>ph'. is_valid_phdr ph' \<and> - PAGE_SIZE < p_memsz ph')"
proof -
  have "is_valid_phdr \<lparr>p_type = 0, p_flags = 0, p_offset = 0, p_va = 0x2000, p_pa = 0, p_filesz = 0,
      p_memsz = - 4000, p_align = 0\<rparr>"
    by (simp add: is_valid_phdr_def PAGE_SIZE_def ram_start_def)
  moreover have "- PAGE_SIZE < (- 4000 :: u64)" by (simp add: PAGE_SIZE_def)
  ultimately have "\<exists>ph'. is_valid_phdr ph' \<and> - PAGE_SIZE < p_memsz ph'" by (metis elf_phdr.select_convs(7))
  moreover have "p_memsz ph \<le> - PAGE_SIZE \<Longrightarrow> \<exists>r. map_phdr_loop drv root f ph 0 s = Some r"
    by (rule map_phdr_loop_returns)
  ultimately show ?thesis using map_phdr_loop_fails [of drv root f ph 0 s] by auto
qed

theorem map_phdr_ends_witness:
  "\<forall>drv root f s. \<exists>r. map_phdr_loop drv root f
     \<lparr>p_type = 1, p_flags = 5, p_offset = 0, p_va = 0x1000, p_pa = 0, p_filesz = 0x1234, p_memsz = 0x3000, p_align = 0\<rparr> 0 s = Some r"
  using map_phdr_ends [of "\<lparr>p_type = 1, p_flags = 5, p_offset = 0, p_va = 0x1000, p_pa = 0, p_filesz = 0x1234,
      p_memsz = 0x3000, p_align = 0\<rparr>"]
  by (simp add: PAGE_SIZE_def)

end
