(* ===== verification/Tasks.thy ===== *)
theory Tasks
  imports Prelude Tinyalloc Sync Mmap Elf
begin

unbundle bit_operations_syntax

text \<open>
  The life of a task (\<^verbatim>\<open>kernel/core/task/task.c\<close>, and the exits of \<^verbatim>\<open>kernel/core/sched/scheduler.c\<close>): creation of
  kernel and user tasks, cloning, execution of a file, termination, and the table of its files.  A task
  is identified by the address the allocator gives to its control block.
\<close>

definition MAX_TASK :: u8 where [layout_defs]: "MAX_TASK = 32"
definition NOFILE :: nat where [layout_defs]: "NOFILE = 16"
definition SIZEOF_TASK :: u64 where [layout_defs]: "SIZEOF_TASK = 4576"
definition KSTACK_END :: u64 where [layout_defs]: "KSTACK_END = 4248"
definition CLONE_VM :: u64 where [layout_defs]: "CLONE_VM = 1"
definition CLONE_FILES :: u64 where [layout_defs]: "CLONE_FILES = 2"
definition EXEC_MAX_ARGS :: nat where [layout_defs]: "EXEC_MAX_ARGS = 7"
definition STACK_ALIGN :: u64 where [layout_defs]: "STACK_ALIGN = 16"
definition STDOUT :: nat where [layout_defs]: "STDOUT = 0"
definition STDIN :: nat where [layout_defs]: "STDIN = 1"

text \<open>Code of the file system and of the memory inside code that can be switched out.\<close>

definition lift_out :: "'a outcome \<Rightarrow> ('a \<Rightarrow> (ksys, 'b) proc) \<Rightarrow> (ksys, 'b) proc" where
  "lift_out r f = (case r of Ret x \<Rightarrow> f x | Panic \<Rightarrow> Stop | Wait \<Rightarrow> Spin | Undef \<Rightarrow> Bad)"

section \<open>The task table\<close>

definition init_task_table :: "ksys \<Rightarrow> ksys" where
  "init_task_table s = (upd_nodes (\<lambda>h. clist_init_node h Task_head) s)\<lparr>next_pid := 0, active_task := 0\<rparr>"

definition init_task_queues :: "tid \<Rightarrow> ksys \<Rightarrow> ksys" where
  "init_task_queues t =
    fold (\<lambda>n. upd_nodes (\<lambda>h. clist_init_node h n))
      [Task_node t, Ready_node t, Wait_node t, Sleep_node t, Zombies t, Zombie_wq t]"

text \<open>A control block that is all zero.\<close>

definition zero_task :: task where
  "zero_task = \<lparr>t_pid = 0, t_tgid = 0, t_code = 0, t_name = replicate MAXNAME 0, t_state = NEW, t_ra = No_entry, t_sp = 0,
     t_root = 0, t_user = False, t_frame_pa = 0, t_frame_va = 0, t_wake = 0, t_parent = None, t_exit = 0, t_prio = HIGH,
     t_fds = replicate NOFILE None\<rparr>"

text \<open>\<^verbatim>\<open>strncpy(task->name, name, sizeof(task->name) - 1)\<close> on a field of zeros.\<close>

definition task_name :: "u8 list \<Rightarrow> u8 list" where
  "task_name name = (let n = take (MAXNAME - 1) name in n @ replicate (MAXNAME - length n) 0)"

definition alloc_squeletton :: "u8 list \<Rightarrow> nat \<Rightarrow> bool \<Rightarrow> tid option \<Rightarrow> ksys \<Rightarrow> (int + tid) \<times> ksys" where
  "alloc_squeletton name prior user parent s =
    (if active_task s \<ge> MAX_TASK then (Inl (- EAGAIN), s)
     else case calloc (kheap s) (pmem (mem s)) 1 SIZEOF_TASK of
       (h, m, None) \<Rightarrow> (Inl (- ENOMEM), s\<lparr>kheap := h, mem := (mem s)\<lparr>pmem := m\<rparr>\<rparr>)
     | (h, m, Some t) \<Rightarrow>
         (let s1 = init_task_queues t (s\<lparr>kheap := h, mem := (mem s)\<lparr>pmem := m\<rparr>\<rparr>);
              s2 = upd_task t (\<lambda>_. zero_task\<lparr>t_name := task_name name, t_user := user, t_parent := parent, t_prio := prior,
                     t_pid := next_pid s1, t_tgid := next_pid s1, t_state := NEW\<rparr>) s1
          in (Inr t, s2\<lparr>next_pid := next_pid s2 + 1\<rparr>)))"

definition activate_task :: "tid \<Rightarrow> ksys \<Rightarrow> (ksys, unit) proc" where
  "activate_task t s =
    (let s1 = upd_nodes (\<lambda>h. clist_push_back h Task_head (Task_node t)) (upd_task t (\<lambda>x. x\<lparr>t_state := READY\<rparr>) s)
     in scheduler_admit t (s1\<lparr>active_task := active_task s1 + 1\<rparr>))"

section \<open>Files of a task\<close>

definition set_fd :: "tid \<Rightarrow> nat \<Rightarrow> nat option \<Rightarrow> ksys \<Rightarrow> ksys" where
  "set_fd t fd v = upd_task t (\<lambda>x. x\<lparr>t_fds := (t_fds x)[fd := v]\<rparr>)"

fun put_files :: "nat option list \<Rightarrow> ksys \<Rightarrow> ksys outcome" where
  "put_files [] s = Ret s"
| "put_files (None # fs) s = put_files fs s"
| "put_files (Some f # fs) s = bind_out (file_put s f) (\<lambda>s1. put_files fs s1)"

definition release_fds :: "tid \<Rightarrow> ksys \<Rightarrow> ksys outcome" where
  "release_fds t s = put_files (t_fds (tasks s t)) s"

fun copy_files :: "tid \<Rightarrow> bool \<Rightarrow> nat \<Rightarrow> nat option list \<Rightarrow> ksys \<Rightarrow> ksys outcome" where
  "copy_files child clone i [] s = Ret s"
| "copy_files child clone i (None # fs) s = copy_files child clone (Suc i) fs s"
| "copy_files child clone i (Some f # fs) s =
    (if clone then bind_out (file_clone s f) (\<lambda>(n, s1). copy_files child clone (Suc i) fs (set_fd child i n s1))
     else (let (n, s1) = file_get s f in copy_files child clone (Suc i) fs (set_fd child i (Some n) s1)))"

definition copy_fds :: "tid \<Rightarrow> tid option \<Rightarrow> bool \<Rightarrow> ksys \<Rightarrow> ksys outcome" where
  "copy_fds child parent clone s =
    (case parent of None \<Rightarrow> Ret s | Some p \<Rightarrow> copy_files child clone 0 (t_fds (tasks s p)) s)"

definition task_give_fd :: "tid \<Rightarrow> nat \<Rightarrow> ksys \<Rightarrow> int \<times> ksys" where
  "task_give_fd t f s =
    (case find (\<lambda>fd. t_fds (tasks s t) ! fd = None) [0..<NOFILE] of
       None \<Rightarrow> (- EMFILE, s)
     | Some fd \<Rightarrow> (int fd, set_fd t fd (Some f) s))"

definition task_get_fd :: "ksys \<Rightarrow> tid \<Rightarrow> int \<Rightarrow> nat option" where
  "task_get_fd s t fd = (if fd \<ge> int NOFILE \<or> fd < 0 then None else t_fds (tasks s t) ! nat fd)"

text \<open>There is no check of the descriptor: outside the table it is a wild access.\<close>

definition task_release_fd :: "tid \<Rightarrow> int \<Rightarrow> ksys \<Rightarrow> (int \<times> ksys) outcome" where
  "task_release_fd t fd s =
    (if fd < 0 \<or> int NOFILE \<le> fd then Undef
     else case t_fds (tasks s t) ! nat fd of
       None \<Rightarrow> Ret (- EBADF, s)
     | Some f \<Rightarrow> bind_out (file_put (set_fd t (nat fd) None s) f) (\<lambda>s1. Ret (0, s1)))"

definition console_path :: "u8 list" where
  "console_path = [47, 100, 101, 118, 47, 99, 111, 110, 115, 111, 108, 101]"

definition task_map_console :: "int \<Rightarrow> tid \<Rightarrow> ksys \<Rightarrow> (int \<times> ksys) outcome" where
  "task_map_console dev t s =
    bind_out (fs_mknod s console_path dev) (\<lambda>(res, s1).
      if res < 0 then Ret (res, s1)
      else bind_out (file_open s1 console_path O_W) (\<lambda>(r, s2).
        case r of
          Inl e \<Rightarrow> Ret (e, s2)
        | Inr f \<Rightarrow>
            bind_out (file_open (set_fd t STDOUT (Some f) s2) console_path O_R) (\<lambda>(r, s3).
              case r of Inl e \<Rightarrow> Ret (e, s3) | Inr f \<Rightarrow> Ret (0, set_fd t STDIN (Some f) s3))))"

section \<open>The end of a task\<close>

definition task_zombify :: "nat \<Rightarrow> tid \<Rightarrow> int \<Rightarrow> ksys \<Rightarrow> (ksys, unit) proc" where
  "task_zombify n t code =
    with_irq_off (\<lambda>s.
      case t_parent (tasks s t) of
        None \<Rightarrow> Stop
      | Some parent \<Rightarrow>
          (let s1 = remove_from_sched_queues t (upd_task t (\<lambda>x. x\<lparr>t_state := ZOMBIE, t_exit := word_of_int code\<rparr>) s)
           in lift_out (release_fds t s1) (\<lambda>s2.
                let s3 = upd_nodes (\<lambda>h. clist_push_back h (Zombies parent) (Wait_node t)) s2
                in if t_state (tasks s3 parent) = BLOCKED
                   then scheduler_wake_waiting_queue n (Zombie_wq parent) s3 else Done () s3)))"

definition task_destroy :: "tid \<Rightarrow> ksys \<Rightarrow> ksys outcome" where
  "task_destroy t s =
    (let (fl, s0) = irq_save s in
     if active s0 = Some t then Panic
     else
       (let s1 = remove_from_all_queues t (upd_task t (\<lambda>x. x\<lparr>t_state := TERMINATED\<rparr>) s0);
            root = t_root (tasks s1 t)
        in bind_out
             (if t_user (tasks s1 t) \<and> root \<noteq> 0 then
                bind_out (on_mem (\<lambda>m. vpage_unmmap m root (t_frame_va (tasks s1 t))) s1) (\<lambda>(_, s2).
                  if page_get_ref_count (mem s2) root = 1 then free_tree (Some root) s2 else put_page root s2)
              else Ret s1)
             (\<lambda>s3. Ret (irq_restore fl (s3\<lparr>kheap := free (kheap s3) t, active_task := active_task s3 - 1\<rparr>)))))"

definition task_reap :: "tid \<Rightarrow> ksys \<Rightarrow> ksys outcome" where
  "task_reap t s = (if t_state (tasks s t) \<noteq> ZOMBIE then Ret s else task_destroy t s)"

definition scheduler_exit :: "nat \<Rightarrow> int \<Rightarrow> ksys \<Rightarrow> (ksys, unit) proc" where
  "scheduler_exit n code s =
    with_active (\<lambda>t s1.
      bindp (task_zombify n t code s1) (\<lambda>_ s2. bindp (switch_out_active s2) (\<lambda>_ _. Stop))) (snd (irq_save s))"

fun task_of :: "knode \<Rightarrow> tid option" where
  "task_of (Task_node t) = Some t"
| "task_of _ = None"

definition exit_tgid_cb :: "u8 \<Rightarrow> knode \<Rightarrow> ksys \<Rightarrow> (ksys, bool) proc" where
  "exit_tgid_cb tgid node s =
    (case task_of node of
       None \<Rightarrow> Bad
     | Some p \<Rightarrow>
         if tgid = t_tgid (tasks s p) \<and> Some p \<noteq> active s then lift_out (task_destroy p s) (Done False)
         else Done False s)"

definition scheduler_exit_group :: "nat \<Rightarrow> int \<Rightarrow> ksys \<Rightarrow> (ksys, unit) proc" where
  "scheduler_exit_group n code s =
    with_active (\<lambda>t s1.
      bindp (for_each_p n (exit_tgid_cb (t_tgid (tasks s1 t))) Task_head (nxt (nodes s1 Task_head)) s1)
        (\<lambda>_. scheduler_exit n code)) (snd (irq_save s))"

section \<open>Images and arguments\<close>

definition load_elf_image :: "read_drv \<Rightarrow> tid \<Rightarrow> nat \<Rightarrow> ksys \<Rightarrow> (int \<times> u64 \<times> ksys) outcome" where
  "load_elf_image drv p elf s =
    bind_out (elf_load_hdr drv elf s) (\<lambda>(res, hdr, s1).
      if res < 0 then Ret (res, 0, s1)
      else if elf_verify_file_format hdr < 0 then Ret (elf_verify_file_format hdr, 0, s1)
      else bind_out (mmap_uimage p s1) (\<lambda>(res, s2).
        if res < 0 then Ret (res, 0, s2)
        else bind_out (elf_map drv (t_root (tasks s2 p)) elf hdr s2) (\<lambda>(res, s3).
          if res < 0 then bind_out (free_tree (Some (t_root (tasks s3 p))) s3) (\<lambda>s4. Ret (res, 0, s4))
          else Ret (0, e_entry hdr, s3))))"

text \<open>
  The arrays \<^verbatim>\<open>argv_k\<close> and \<^verbatim>\<open>argv_tmp\<close>, the buffer \<^verbatim>\<open>arg\<close> and the counter \<^verbatim>\<open>argc\<close> are locals on the kernel
  stack: they lie in the memory at the parameter \<open>fp\<close>.
\<close>

definition ARGV_TMP :: u64 where [layout_defs]: "ARGV_TMP = 56"
definition ARG_BUF :: u64 where [layout_defs]: "ARG_BUF = 112"
definition ARGC_VAR :: u64 where [layout_defs]: "ARGC_VAR = 128"

fun get_argc_loop :: "u64 \<Rightarrow> u64 \<Rightarrow> u64 \<Rightarrow> nat \<Rightarrow> nat \<Rightarrow> ksys \<Rightarrow> (int \<times> ksys) outcome" where
  "get_argc_loop fp old argv argc 0 s = Ret (- E2BIG, s)"
| "get_argc_loop fp old argv argc (Suc left) s =
    (let slot = fp + 8 * word_of_nat argc in
     bind_out (on_mem (\<lambda>m. vpage_copyin m old slot (argv + 8 * word_of_nat argc) 8) s) (\<lambda>(res, s1).
       if res < 0 then Ret (res, s1)
       else if peek s1 slot = 0 then Ret (int argc, s1)
       else get_argc_loop fp old argv (Suc argc) left s1))"

definition get_argc :: "u64 \<Rightarrow> u64 \<Rightarrow> u64 \<Rightarrow> ksys \<Rightarrow> (int \<times> ksys) outcome" where
  "get_argc fp old argv s = (if argv = 0 then Ret (0, s) else get_argc_loop fp old argv 0 EXEC_MAX_ARGS s)"

fun push_args :: "u64 \<Rightarrow> u64 \<Rightarrow> u64 \<Rightarrow> nat \<Rightarrow> u64 \<Rightarrow> ksys \<Rightarrow> (int \<times> u64 \<times> ksys) outcome" where
  "push_args fp old new 0 sp s = Ret (0, sp, s)"
| "push_args fp old new (Suc i) sp s =
    bind_out (on_mem (\<lambda>m. vpage_copyinstr m old (fp + ARG_BUF) (peek s (fp + 8 * word_of_nat i)) (word_of_nat MAXNAME)) s) (\<lambda>(len, s1).
      if len < 0 then Ret (len, sp, s1)
      else
        (let sp1 = ALIGN_DOWN (sp - word_of_int len) STACK_ALIGN
         in bind_out (on_mem (\<lambda>m. vpage_copyoutstr m new sp1 (fp + ARG_BUF) (word_of_int len)) s1) (\<lambda>(len, s2).
              if len < 0 then Ret (len, sp1, s2)
              else push_args fp old new i sp1 (poke (fp + ARGV_TMP + 8 * word_of_nat i) sp1 s2))))"

definition transfer_argv :: "u64 \<Rightarrow> u64 \<Rightarrow> u64 \<Rightarrow> u64 \<Rightarrow> ksys \<Rightarrow> (int \<times> u64 \<times> ksys) outcome" where
  "transfer_argv fp old new argv s =
    bind_out (get_argc fp old argv s) (\<lambda>(argc, s1).
      if argc < 0 then Ret (argc, 0, s1)
      else bind_out (push_args fp old new (nat argc) USTACK (poke (fp + ARGV_TMP + 8 * word_of_int argc) 0 s1)) (\<lambda>(res, sp, s2).
        if res < 0 then Ret (res, 0, s2)
        else
          (let argv_size = (word_of_int argc + 1) * 8;
               sp1 = ALIGN_DOWN (sp - argv_size) STACK_ALIGN
           in bind_out (on_mem (\<lambda>m. vpage_copyout m new sp1 (fp + ARGV_TMP) argv_size) s2) (\<lambda>(res, s3).
                if res < 0 then Ret (res, 0, s3)
                else
                  (let sp2 = ALIGN_DOWN (sp1 - 4) STACK_ALIGN;
                       s4 = poke (fp + ARGC_VAR) (word_of_int argc) s3
                   in bind_out (on_mem (\<lambda>m. vpage_copyout m new sp2 (fp + ARGC_VAR) 4) s4) (\<lambda>(res, s5).
                        if res < 0 then Ret (res, 0, s5) else Ret (0, sp2, s5)))))))"

section \<open>Creation\<close>

definition kstack_top :: "tid \<Rightarrow> u64" where
  "kstack_top t = t + KSTACK_END"

definition free_task :: "tid \<Rightarrow> ksys \<Rightarrow> ksys" where
  "free_task t s = s\<lparr>kheap := free (kheap s) t\<rparr>"

definition task_start_userland :: "read_drv \<Rightarrow> u64 \<Rightarrow> nat \<Rightarrow> u8 list \<Rightarrow> nat \<Rightarrow> ksys \<Rightarrow> (ksys, int + tid) proc" where
  "task_start_userland drv fp elf name prior =
    with_irq_off (\<lambda>s.
      case alloc_squeletton name prior True (active s) s of
        (Inl e, s1) \<Rightarrow> Done (Inl e) s1
      | (Inr p, s1) \<Rightarrow>
          lift_out (load_elf_image drv p elf (upd_task p (\<lambda>x. x\<lparr>t_sp := kstack_top p, t_ra := Trap_return_to_user\<rparr>) s1))
            (\<lambda>(res, ent, s2).
              if res < 0 then Done (Inl res) (free_task p s2)
              else lift_out (transfer_argv fp 0 (t_root (tasks s2 p)) 0 s2) (\<lambda>(res, sp, s3).
                if res < 0 then Done (Inl res) (free_task p s3)
                else
                  (let x = tasks s3 p;
                       s4 = tframe_start (t_frame_pa x) ent sp (tframe_init (t_frame_pa x) (t_root x) (kstack_top p) s3)
                   in lift_out (copy_fds p (active s4) False s4) (\<lambda>s5.
                        bindp (activate_task p s5) (\<lambda>_. Done (Inr p)))))))"

definition task_kthread :: "nat \<Rightarrow> u8 list \<Rightarrow> nat \<Rightarrow> ksys \<Rightarrow> (ksys, int + tid) proc" where
  "task_kthread code name prior =
    with_irq_off (\<lambda>s.
      case alloc_squeletton name prior False (active s) s of
        (Inl e, s1) \<Rightarrow> Done (Inl e) s1
      | (Inr p, s1) \<Rightarrow>
          (let s2 = upd_task p (\<lambda>x. if t_pid x = 0 then x\<lparr>t_code := code, t_ra := Entry_code code\<rparr>
                     else x\<lparr>t_code := code, t_sp := kstack_top p, t_ra := Ktask_launcher\<rparr>) s1
           in lift_out (copy_fds p (active s2) False s2) (\<lambda>s3. bindp (activate_task p s3) (\<lambda>_. Done (Inr p)))))"

definition clone_fail_task :: "tid \<Rightarrow> int \<Rightarrow> ksys \<Rightarrow> (ksys, int + tid) proc" where
  "clone_fail_task c res s = Done (Inl res) (free_task c s)"

definition clone_fail_tframe :: "tid \<Rightarrow> int \<Rightarrow> ksys \<Rightarrow> (ksys, int + tid) proc" where
  "clone_fail_tframe c res s = lift_out (put_page (t_frame_pa (tasks s c)) s) (clone_fail_task c res)"

definition clone_fail_map :: "u64 \<Rightarrow> tid \<Rightarrow> int \<Rightarrow> ksys \<Rightarrow> (ksys, int + tid) proc" where
  "clone_fail_map fl c res s =
    lift_out
      (if fl AND CLONE_VM \<noteq> 0 then put_page (t_root (tasks s c)) s else free_tree (Some (t_root (tasks s c))) s)
      (clone_fail_tframe c res)"

text \<open>From the mapping of the trap frame on.\<close>

definition clone_finish :: "u64 \<Rightarrow> tid \<Rightarrow> tid \<Rightarrow> u64 \<Rightarrow> ksys \<Rightarrow> (ksys, int + tid) proc" where
  "clone_finish fl parent c t s =
    lift_out (on_mem (\<lambda>m. vpage_map m (t_root (tasks s c)) (t_frame_va (tasks s c)) t (PTE_R OR PTE_W)) s) (\<lambda>(res, s1).
      if res < 0 then clone_fail_map fl c res s1
      else
        (let s2 = tframe_init t (t_root (tasks s1 c)) (kstack_top c) s1;
             s3 = upd_task c (\<lambda>x. x\<lparr>t_ra := Trap_return_to_user, t_sp := kstack_top c\<rparr>) s2
         in lift_out (copy_fds c (Some parent) (fl AND CLONE_FILES \<noteq> 0) s3) (\<lambda>s4.
              bindp (activate_task c s4) (\<lambda>_. Done (Inr c)))))"

definition clone_thread :: "tid \<Rightarrow> tid \<Rightarrow> u64 \<Rightarrow> u64 \<Rightarrow> u64 \<Rightarrow> u64 \<Rightarrow> u64 \<Rightarrow> ksys \<Rightarrow> (ksys, int + tid) proc" where
  "clone_thread parent c t ent args stack fl s =
    (let root = t_root (tasks s parent);
         s1 = upd_task c (\<lambda>x. x\<lparr>t_root := root, t_tgid := t_tgid (tasks s parent)\<rparr>) (s\<lparr>mem := page_get (mem s) root\<rparr>)
     in if stack = 0 \<or> ent = 0 then clone_fail_map fl c (- EINVAL) s1
        else clone_finish fl parent c t
          (upd_task c (\<lambda>x. x\<lparr>t_frame_va := THREAD_TRAPFRAME (t_pid x)\<rparr>) (tframe_set_arg t 0 args (tframe_start t ent stack s1))))"

definition clone_process :: "tid \<Rightarrow> tid \<Rightarrow> u64 \<Rightarrow> u64 \<Rightarrow> ksys \<Rightarrow> (ksys, int + tid) proc" where
  "clone_process parent c t fl s =
    (case new_page s of
       (None, s1) \<Rightarrow> clone_fail_tframe c (- ENOMEM) s1
     | (Some root, s1) \<Rightarrow>
         (let s2 = upd_task c (\<lambda>x. x\<lparr>t_root := root, t_tgid := t_pid x\<rparr>) s1
          in lift_out (on_mem (\<lambda>m. vpage_tree_copy m (Some root) (if t_root (tasks s2 parent) = 0 then None else Some (t_root (tasks s2 parent)))) s2) (\<lambda>(res, s3).
               if res < 0 then clone_fail_map fl c res s3
               else clone_finish fl parent c t
                 (upd_task c (\<lambda>x. x\<lparr>t_frame_va := TRAPFRAME\<rparr>)
                   (tframe_set_return_val t 0 (s3\<lparr>mem := memcpy_phys (mem s3) t (t_frame_pa (tasks s3 parent)) SIZEOF_TFRAME\<rparr>))))))"

definition task_clone :: "tid \<Rightarrow> u64 \<Rightarrow> u64 \<Rightarrow> u64 \<Rightarrow> u64 \<Rightarrow> ksys \<Rightarrow> (ksys, int + tid) proc" where
  "task_clone parent ent args stack fl s =
    (if \<not> t_user (tasks s parent) then Stop
     else with_irq_off (\<lambda>s.
       let px = tasks s parent in
       case alloc_squeletton (takeWhile (\<lambda>c. c \<noteq> 0) (t_name px)) (t_prio px) (t_user px) (Some parent) s of
         (Inl e, s1) \<Rightarrow> Done (Inl e) s1
       | (Inr c, s1) \<Rightarrow>
           (case new_page s1 of
              (None, s2) \<Rightarrow> clone_fail_task c (- ENOMEM) s2
            | (Some t, s2) \<Rightarrow>
                (let s3 = upd_task c (\<lambda>x. x\<lparr>t_frame_pa := t\<rparr>) s2
                 in if fl AND CLONE_VM \<noteq> 0 then clone_thread parent c t ent args stack fl s3
                    else clone_process parent c t fl s3))) s)"

definition task_fork :: "tid \<Rightarrow> ksys \<Rightarrow> (ksys, int + tid) proc" where
  "task_fork parent = task_clone parent 0 0 0 0"

definition task_exec :: "read_drv \<Rightarrow> u64 \<Rightarrow> tid \<Rightarrow> nat \<Rightarrow> u64 \<Rightarrow> ksys \<Rightarrow> (ksys, int) proc" where
  "task_exec drv fp p elf argv s =
    (if \<not> t_user (tasks s p) then Stop
     else with_irq_off (\<lambda>s.
       let old = tasks s p;
           restore = (\<lambda>res s'. Done res (upd_task p (\<lambda>x. x\<lparr>t_root := t_root old, t_frame_pa := t_frame_pa old\<rparr>) s'))
       in lift_out (load_elf_image drv p elf s) (\<lambda>(res, ent, s1).
            if res < 0 then restore res s1
            else lift_out (transfer_argv fp (t_root old) (t_root (tasks s1 p)) argv s1) (\<lambda>(res, sp, s2).
              if res < 0 then restore res s2
              else
                (let x = tasks s2 p;
                     s3 = tframe_start (t_frame_pa x) ent sp (tframe_init (t_frame_pa x) (t_root x) (kstack_top p) s2)
                 in lift_out (free_tree (if t_root old = 0 then None else Some (t_root old)) s3) (\<lambda>s4. Done 0 s4))))) s)"

definition idle_name :: "u8 list" where
  "idle_name = [105, 100, 108, 101]"

definition init_idle :: "nat \<Rightarrow> ksys \<Rightarrow> (ksys, int) proc" where
  "init_idle idle s =
    bindp (task_kthread idle idle_name IDLE s) (\<lambda>r s1.
      case r of
        Inl e \<Rightarrow> Done e s1
      | Inr p \<Rightarrow> Done 0 (upd_task p (\<lambda>x. x\<lparr>t_state := RUNNING\<rparr>) (s1\<lparr>active := Some p\<rparr>)))"

definition task_init :: "nat \<Rightarrow> ksys \<Rightarrow> (ksys, int) proc" where
  "task_init idle s = init_idle idle (scheduler_init (init_task_table s))"

section \<open>Kernel tasks\<close>

text \<open>The entry of a kernel task; \<open>run\<close> is the code behind a number.\<close>

definition ktask_launcher :: "(nat \<Rightarrow> ksys \<Rightarrow> (ksys, unit) proc) \<Rightarrow> nat \<Rightarrow> ksys \<Rightarrow> (ksys, unit) proc" where
  "ktask_launcher run n s =
    with_active (\<lambda>p s1. bindp (run (t_code (tasks s1 p)) s1) (\<lambda>_. scheduler_exit_group n 0)) (s\<lparr>irq := True\<rparr>)"

text \<open>The daemons of the timer; their code has the numbers that are given.\<close>

definition clock_name :: "u8 list" where
  "clock_name = [99, 108, 111, 99, 107, 32, 100, 97, 101, 109, 111, 110]"

definition tick_name :: "u8 list" where
  "tick_name = [116, 105, 99, 107, 32, 100, 97, 101, 109, 111, 110]"

definition time_spawn_daemons :: "nat \<Rightarrow> nat \<Rightarrow> ksys \<Rightarrow> (ksys, int) proc" where
  "time_spawn_daemons clock_daemon tick_daemon s =
    bindp (task_kthread clock_daemon clock_name HIGH s) (\<lambda>r s1.
      case r of
        Inl e \<Rightarrow> Done e s1
      | Inr _ \<Rightarrow>
          bindp (task_kthread tick_daemon tick_name HIGH s1) (\<lambda>r s2.
            case r of Inl e \<Rightarrow> Done e s2 | Inr _ \<Rightarrow> Done 0 s2))"

end
