(* ===== verification/Syscalls.thy ===== *)
theory Syscalls
  imports Prelude Files Tasks
begin

unbundle bit_operations_syntax

text \<open>
  The system calls (\<^verbatim>\<open>kernel/core/syscall\<close>) and the trap that leads to them (\<^verbatim>\<open>arch/trap.c\<close>).  The routines of the
  device drivers are the parameters in \<open>drivers\<close>; \<open>fp\<close> is the address of the locals on the kernel stack, and
  \<open>n\<close> bounds the rounds of the loops over queues.
\<close>

record drivers =
  rdrv :: read_drv
  wdrv :: "nat \<Rightarrow> ksys \<Rightarrow> nat \<Rightarrow> kbuf \<Rightarrow> u64 \<Rightarrow> (int \<times> ksys) outcome"
  plic_handle_irq :: "ksys \<Rightarrow> (ksys, unit) proc"

section \<open>Files\<close>

text \<open>The user memory that files are copied to and from is that of the active task.\<close>

definition enter_user :: "tid \<Rightarrow> ksys \<Rightarrow> ksys" where
  "enter_user t s = s\<lparr>uroot := t_root (tasks s t)\<rparr>"

definition string_at :: "ksys \<Rightarrow> u64 \<Rightarrow> nat \<Rightarrow> u8 list" where
  "string_at s a n = map (\<lambda>k. pmem (mem s) (a + word_of_nat k)) [0..<n]"

definition sys_open :: "u64 \<Rightarrow> u64 \<Rightarrow> u64 \<Rightarrow> ksys \<Rightarrow> (ksys, int) proc" where
  "sys_open fp pth fl =
    with_active (\<lambda>t s.
      lift_out (on_mem (\<lambda>m. vpage_copyinstr m (t_root (tasks s t)) fp pth (word_of_nat FS_MAX_PATH)) s) (\<lambda>(res, s1).
        if res < 0 then Done res s1
        else lift_out (file_open s1 (string_at s1 fp (nat res - 1)) fl) (\<lambda>(r, s2).
          case r of
            Inl e \<Rightarrow> Done e s2
          | Inr f \<Rightarrow>
              (let (fd, s3) = task_give_fd t f s2
               in if fd < 0 then lift_out (file_put s3 f) (Done fd) else Done fd s3))))"

definition sys_write :: "drivers \<Rightarrow> int \<Rightarrow> u64 \<Rightarrow> u64 \<Rightarrow> ksys \<Rightarrow> (ksys, int) proc" where
  "sys_write d fd ubuf count =
    with_active (\<lambda>t s.
      case task_get_fd s t fd of
        None \<Rightarrow> Done (- EBADF) s
      | Some f \<Rightarrow> lift_out (file_write (wdrv d) (enter_user t s) f (User ubuf) count) (\<lambda>(r, s1). Done r s1))"

definition sys_read :: "drivers \<Rightarrow> int \<Rightarrow> u64 \<Rightarrow> u64 \<Rightarrow> ksys \<Rightarrow> (ksys, int) proc" where
  "sys_read d fd ubuf count =
    with_active (\<lambda>t s.
      case task_get_fd s t fd of
        None \<Rightarrow> Done (- EBADF) s
      | Some f \<Rightarrow> lift_out (file_read (rdrv d) (enter_user t s) f (User ubuf) count) (\<lambda>(r, _, s1). Done r s1))"

definition sys_close :: "int \<Rightarrow> ksys \<Rightarrow> (ksys, int) proc" where
  "sys_close fd = with_active (\<lambda>t s. lift_out (task_release_fd t fd s) (\<lambda>(r, s1). Done r s1))"

definition sys_seek :: "int \<Rightarrow> int \<Rightarrow> int \<Rightarrow> ksys \<Rightarrow> (ksys, int) proc" where
  "sys_seek fd off whence =
    with_active (\<lambda>t s.
      case task_get_fd s t fd of
        None \<Rightarrow> Done (- EBADF) s
      | Some f \<Rightarrow> lift_out (file_seek s f off whence) (\<lambda>(r, s1). Done r s1))"

section \<open>Tasks\<close>

text \<open>A value returned as \<^verbatim>\<open>int8_t\<close>.\<close>

definition to_int8 :: "int \<Rightarrow> int" where
  "to_int8 r = sint (word_of_int r :: u8)"

definition sys_getpid :: "ksys \<Rightarrow> (ksys, int) proc" where
  "sys_getpid = with_active (\<lambda>t s. Done (uint (t_pid (tasks s t))) s)"

definition child_pid :: "int + tid \<Rightarrow> ksys \<Rightarrow> (ksys, int) proc" where
  "child_pid r s = (case r of Inl e \<Rightarrow> Done (to_int8 e) s | Inr c \<Rightarrow> Done (to_int8 (uint (t_pid (tasks s c)))) s)"

definition sys_fork :: "ksys \<Rightarrow> (ksys, int) proc" where
  "sys_fork = with_active (\<lambda>t s. bindp (task_fork t s) child_pid)"

definition sys_clone :: "u64 \<Rightarrow> u64 \<Rightarrow> u64 \<Rightarrow> u64 \<Rightarrow> ksys \<Rightarrow> (ksys, int) proc" where
  "sys_clone ent args stack fl = with_active (\<lambda>t s. bindp (task_clone t ent args stack fl s) child_pid)"

definition sys_exec :: "drivers \<Rightarrow> u64 \<Rightarrow> u64 \<Rightarrow> u64 \<Rightarrow> ksys \<Rightarrow> (ksys, int) proc" where
  "sys_exec d fp pth argv =
    with_active (\<lambda>t s.
      lift_out (on_mem (\<lambda>m. vpage_copyinstr m (t_root (tasks s t)) fp pth (word_of_nat MAXNAME)) s) (\<lambda>(res, s1).
        if res < 0 then Done res s1
        else lift_out (file_open s1 (string_at s1 fp (nat res - 1)) O_R) (\<lambda>(r, s2).
          case r of
            Inl e \<Rightarrow> Done e s2
          | Inr f \<Rightarrow> bindp (task_exec (rdrv d) fp t f argv s2) (\<lambda>res s3. lift_out (file_put s3 f) (Done res)))))"

definition sys_exit :: "nat \<Rightarrow> u8 \<Rightarrow> ksys \<Rightarrow> (ksys, unit) proc" where
  "sys_exit n code = scheduler_exit n (uint code)"

definition sys_exit_group :: "nat \<Rightarrow> u8 \<Rightarrow> ksys \<Rightarrow> (ksys, unit) proc" where
  "sys_exit_group n code = scheduler_exit_group n (uint code)"

definition sys_sleep :: "u32 \<Rightarrow> ksys \<Rightarrow> (ksys, unit) proc" where
  "sys_sleep sec = scheduler_sleep sec"

section \<open>Waiting for children\<close>

fun wait_loop :: "nat \<Rightarrow> tid \<Rightarrow> ksys \<Rightarrow> (ksys, unit) proc" where
  "wait_loop 0 parent s = Spin"
| "wait_loop (Suc n) parent s =
    (if clist_empty (nodes s) (Zombies parent) then bindp (scheduler_block_on (Zombie_wq parent) s) (\<lambda>_. wait_loop n parent)
     else Done () s)"

definition sys_wait :: "nat \<Rightarrow> ksys \<Rightarrow> (ksys, int) proc" where
  "sys_wait n =
    with_irq_off (with_active (\<lambda>parent s.
      bindp (wait_loop n parent s) (\<lambda>_ s1.
        let (node, h) = clist_pop_front (nodes s1) (Zombies parent); s2 = s1\<lparr>nodes := h\<rparr>
        in case wait_of node of
             None \<Rightarrow> Bad
           | Some t \<Rightarrow> lift_out (task_reap t s2) (Done (to_int8 (uint (t_pid (tasks s2 t))))))))"

definition find_pid_cb :: "ksys \<Rightarrow> u8 \<Rightarrow> knode \<Rightarrow> bool" where
  "find_pid_cb s pid node = (case wait_of (Some node) of None \<Rightarrow> False | Some t \<Rightarrow> sint pid = uint (t_pid (tasks s t)))"

definition find_zombie :: "tid \<Rightarrow> u8 \<Rightarrow> ksys \<Rightarrow> (ksys, knode option) proc" where
  "find_zombie parent pid s =
    (case clist_find (nodes s) (Zombies parent) (find_pid_cb s pid) of None \<Rightarrow> Spin | Some r \<Rightarrow> Done r s)"

fun waitpid_loop :: "nat \<Rightarrow> tid \<Rightarrow> u8 \<Rightarrow> ksys \<Rightarrow> (ksys, knode) proc" where
  "waitpid_loop 0 parent pid s = Spin"
| "waitpid_loop (Suc n) parent pid s =
    bindp (find_zombie parent pid s) (\<lambda>r s1.
      case r of
        None \<Rightarrow> bindp (scheduler_block_on (Zombie_wq parent) s1) (\<lambda>_. waitpid_loop n parent pid)
      | Some node \<Rightarrow> Done node s1)"

definition sys_waitpid :: "nat \<Rightarrow> u8 \<Rightarrow> ksys \<Rightarrow> (ksys, int) proc" where
  "sys_waitpid n pid =
    with_irq_off (with_active (\<lambda>parent s.
      bindp (waitpid_loop n parent pid s) (\<lambda>node s1.
        let s2 = upd_nodes (\<lambda>h. clist_remove h (Some node)) s1
        in case wait_of (Some node) of None \<Rightarrow> Bad | Some t \<Rightarrow> lift_out (task_reap t s2) (Done (sint pid)))))"

section \<open>Dispatch\<close>

definition SYS_NBR :: nat where [layout_defs]: "SYS_NBR = 14"

text \<open>The register after a call of type \<^verbatim>\<open>void\<close> is not specified: it is the parameter \<open>left\<close>.\<close>

definition syscall_dispatch ::
  "drivers \<Rightarrow> u64 \<Rightarrow> nat \<Rightarrow> u64 \<Rightarrow> u64 \<Rightarrow> u64 \<Rightarrow> u64 \<Rightarrow> u64 \<Rightarrow> u64 \<Rightarrow> ksys \<Rightarrow> (ksys, u64) proc" where
  "syscall_dispatch d fp n left nr a b c e s =
    (let val = (\<lambda>m. bindp m (\<lambda>r. Done (word_of_int r))); void = (\<lambda>m. bindp m (\<lambda>_. Done left)) in
     if nr \<ge> word_of_nat SYS_NBR then Stop
     else
       (if nr = 0 then void (sys_sleep (ucast a) s)
        else if nr = 1 then void (sys_exit n (ucast a) s)
        else if nr = 2 then void (sys_exit_group n (ucast a) s)
        else if nr = 3 then val (sys_wait n s)
        else if nr = 4 then val (sys_waitpid n (ucast a) s)
        else if nr = 5 then val (sys_getpid s)
        else if nr = 6 then val (sys_clone a b c e s)
        else if nr = 7 then val (sys_fork s)
        else if nr = 8 then val (sys_exec d fp a b s)
        else if nr = 9 then val (sys_open fp a b s)
        else if nr = 10 then val (sys_write d (sint (ucast a :: 32 word)) b c s)
        else if nr = 11 then val (sys_read d (sint (ucast a :: 32 word)) b c s)
        else if nr = 12 then val (sys_close (sint (ucast a :: 32 word)) s)
        else val (sys_seek (sint (ucast a :: 32 word)) (sint b) (sint (ucast c :: 32 word)) s)))"

section \<open>Traps from user mode\<close>

definition XCAUSE_IRQ_BIT :: u64 where [layout_defs]: "XCAUSE_IRQ_BIT = 0x8000000000000000"
definition S_IRQ_TMR :: u64 where [layout_defs]: "S_IRQ_TMR = 5"
definition S_IRQ_EXT :: u64 where [layout_defs]: "S_IRQ_EXT = 9"
definition ECALL_UMODE :: u64 where [layout_defs]: "ECALL_UMODE = 8"
definition INSTRUCTION_PAGE_FAULT :: u64 where [layout_defs]: "INSTRUCTION_PAGE_FAULT = 12"
definition LOAD_PAGE_FAULT :: u64 where [layout_defs]: "LOAD_PAGE_FAULT = 13"
definition STORE_PAGE_FAULT :: u64 where [layout_defs]: "STORE_PAGE_FAULT = 15"

definition handler_async_irq :: "drivers \<Rightarrow> u64 \<Rightarrow> ksys \<Rightarrow> (ksys, unit) proc" where
  "handler_async_irq d cause s =
    (if cause = S_IRQ_EXT then plic_handle_irq d s
     else if cause = S_IRQ_TMR then time_irq_handler s
     else Done () s)"

definition ecall :: "drivers \<Rightarrow> u64 \<Rightarrow> nat \<Rightarrow> u64 \<Rightarrow> tid \<Rightarrow> ksys \<Rightarrow> (ksys, unit) proc" where
  "ecall d fp n left p s =
    (let t = t_frame_pa (tasks s p);
         s1 = poke (t + FRAME_SEPC) (peek s (t + FRAME_SEPC) + 4) s;
         a = (\<lambda>i. peek s1 (t + FRAME_A i))
     in bindp (syscall_dispatch d fp n left (a 7) (a 0) (a 1) (a 2) (a 3) s1) (\<lambda>r s2.
          Done () (poke (t_frame_pa (tasks s2 p) + FRAME_A 0) r s2)))"

definition segfault :: "nat \<Rightarrow> ksys \<Rightarrow> (ksys, unit) proc" where
  "segfault n = scheduler_exit n (- 1)"

definition usertrap :: "drivers \<Rightarrow> u64 \<Rightarrow> nat \<Rightarrow> u64 \<Rightarrow> u64 \<Rightarrow> ksys \<Rightarrow> (ksys, unit) proc" where
  "usertrap d fp n left stval =
    with_active (\<lambda>p s.
      let cause = peek s (t_frame_pa (tasks s p) + FRAME_SCAUSE) in
      if cause AND XCAUSE_IRQ_BIT \<noteq> 0 then handler_async_irq d (cause AND NOT XCAUSE_IRQ_BIT) s
      else if cause = ECALL_UMODE then ecall d fp n left p s
      else if cause = STORE_PAGE_FAULT then
        lift_out (on_mem (\<lambda>m. vpage_handle_cow m (t_root (tasks s p)) stval) s) (\<lambda>(res, s1).
          if res = 0 then Done () s1 else segfault n s1)
      else if cause = LOAD_PAGE_FAULT \<or> cause = INSTRUCTION_PAGE_FAULT then segfault n s
      else Stop)"

section \<open>Traps from the kernel\<close>

text \<open>The registers the handler saves and restores around an interrupt keep the interrupt flag of the interrupted code.\<close>

definition kerneltrap :: "drivers \<Rightarrow> u64 \<Rightarrow> ksys \<Rightarrow> (ksys, unit) proc" where
  "kerneltrap d scause s =
    (if scause AND XCAUSE_IRQ_BIT \<noteq> 0 then
       bindp (handler_async_irq d (scause AND NOT XCAUSE_IRQ_BIT) s) (\<lambda>_ s1. Done () (s1\<lparr>irq := irq s, sstatus := sstatus s\<rparr>))
     else Stop)"

end
