(* ===== verification/Queues.thy ===== *)
theory Queues
  imports Prelude Clist Sched Sync
begin

text \<open>
  The queues of the scheduler as lists of tasks, the invariant every operation of the scheduler keeps, the
  round robin of the ready queue, and the semaphores and mutexes on top of them.
\<close>

section \<open>The queues a state holds\<close>

record squeues =
  ready :: "nat \<Rightarrow> tid list"
  sleepers :: "tid list"
  waiters :: "knode \<Rightarrow> tid list option"
  table :: "tid list"

fun lists_of :: "squeues \<Rightarrow> knode \<Rightarrow> knode list option" where
  "lists_of q (Ready_queue p) = (if p < PRIORITY_COUNT then Some (map Ready_node (ready q p)) else None)"
| "lists_of q Sleeping_head = Some (map Sleep_node (sleepers q))"
| "lists_of q Task_head = Some (map Task_node (table q))"
| "lists_of q (Wait_queue i) = map_option (map Wait_node) (waiters q (Wait_queue i))"
| "lists_of q (Zombies t) = map_option (map Wait_node) (waiters q (Zombies t))"
| "lists_of q (Zombie_wq t) = map_option (map Wait_node) (waiters q (Zombie_wq t))"
| "lists_of q _ = None"

fun is_wq :: "knode \<Rightarrow> bool" where
  "is_wq (Wait_queue i) = True"
| "is_wq (Zombies t) = True"
| "is_wq (Zombie_wq t) = True"
| "is_wq _ = False"

text \<open>
  Ready tasks are runnable and stand in the queue of their priority, sleeping tasks are sorted by the time
  they wake, tasks in a wait queue are blocked or sleep, those in a list of zombies do not run; one task at least is always ready at the lowest
  priority, and no queue above \<^verbatim>\<open>highest_ready_tracking\<close> holds a task.
\<close>

definition runnable :: "(tid \<Rightarrow> task) \<Rightarrow> tid \<Rightarrow> bool" where
  "runnable T t \<longleftrightarrow> t_state (T t) = READY \<or> t_state (T t) = RUNNING"

definition parked :: "(tid \<Rightarrow> task) \<Rightarrow> tid \<Rightarrow> bool" where
  "parked T t \<longleftrightarrow> (t_state (T t) = SLEEPING \<or> t_state (T t) = BLOCKED) \<and> t_prio (T t) < PRIORITY_COUNT"

fun wait_ok :: "(tid \<Rightarrow> task) \<Rightarrow> knode \<Rightarrow> tid \<Rightarrow> bool" where
  "wait_ok T (Zombies u) t = (\<not> runnable T t)"
| "wait_ok T _ t = parked T t"

definition sched_ok :: "ksys \<Rightarrow> squeues \<Rightarrow> bool" where
  "sched_ok s q \<longleftrightarrow> clists (nodes s) (lists_of q) \<and>
    (\<forall>p < PRIORITY_COUNT. \<forall>t \<in> set (ready q p). t_prio (tasks s t) = p \<and> runnable (tasks s) t) \<and>
    (\<forall>t \<in> set (sleepers q). t_state (tasks s t) = SLEEPING \<and> t_prio (tasks s t) < PRIORITY_COUNT) \<and> sorted (map (\<lambda>t. unat (t_wake (tasks s t))) (sleepers q)) \<and>
    (\<forall>w ts. waiters q w = Some ts \<longrightarrow> is_wq w \<and> (\<forall>t \<in> set ts. wait_ok (tasks s) w t)) \<and>
    ready q IDLE \<noteq> [] \<and> highest_ready_tracking s < PRIORITY_COUNT \<and> (\<forall>p < highest_ready_tracking s. ready q p = [])"

text \<open>
  The active task is ready and runs; it is of the highest priority, unless preemption is off and a
  switch is due.
\<close>

definition running :: "ksys \<Rightarrow> squeues \<Rightarrow> bool" where
  "running s q \<longleftrightarrow> (\<exists>a. active s = Some a \<and> t_prio (tasks s a) < PRIORITY_COUNT \<and> a \<in> set (ready q (t_prio (tasks s a))) \<and>
    t_state (tasks s a) = RUNNING \<and> highest_ready_tracking s \<le> t_prio (tasks s a) \<and>
    (need_resched s \<longleftrightarrow> highest_ready_tracking s < t_prio (tasks s a)) \<and> ready q (highest_ready_tracking s) \<noteq> [] \<and>
    (preempt_count s = 0 \<longrightarrow> \<not> need_resched s))"

section \<open>Queue operations on the lists\<close>

lemma clists_remove_node:
  assumes "clists h L" and "n \<notin> dom L"
  shows "clists (if in_list (h n) then clist_remove h (Some n) else h) (\<lambda>a. map_option (remove1 n) (L a))"
proof (cases "in_list (h n)")
  case True
  then obtain a xs where a: "L a = Some xs" "n \<in> set xs" using clists_in_list [OF assms(1)] by blast
  then obtain us vs where x: "xs = us @ n # vs" "n \<notin> set us" by (meson split_list_first)
  have "(\<lambda>b. map_option (remove1 n) (L b)) = L(a \<mapsto> us @ vs)"
  proof
    fix b
    have "n \<notin> set ys" if "L b = Some ys" "b \<noteq> a" for ys using clists_disjoint [OF assms(1) a(1) that(1)] that(2) a(2) by blast
    then show "map_option (remove1 n) (L b) = (L(a \<mapsto> us @ vs)) b"
      using a(1) x by (cases "L b") (auto simp: remove1_append remove1_idem)
  qed
  then show ?thesis using clists_remove [OF assms(1)] a(1) x True by simp
next
  case False
  have "map_option (remove1 n) (L b) = L b" for b
    using False clists_in_list [OF assms(1), of n] by (cases "L b") (auto simp: remove1_idem)
  then show ?thesis using False assms(1) by simp
qed

lemma remove1_map_inj: "inj f \<Longrightarrow> remove1 (f x) (map f xs) = map f (remove1 x xs)"
  by (induction xs) (auto dest: injD)

lemma remove1_map_other: "(\<And>y. f y \<noteq> n) \<Longrightarrow> remove1 n (map f xs) = map f xs"
  by (rule remove1_idem) auto

lemma inj_nodes [simp]: "inj Ready_node" "inj Sleep_node" "inj Wait_node" "inj Task_node"
  by (auto intro!: injI)

lemma lists_of_dom [simp]: "Ready_node t \<notin> dom (lists_of q)" "Sleep_node t \<notin> dom (lists_of q)" "Wait_node t \<notin> dom (lists_of q)"
  by auto

definition unready :: "tid \<Rightarrow> squeues \<Rightarrow> squeues" where
  "unready t q = q\<lparr>ready := (\<lambda>p. remove1 t (ready q p))\<rparr>"

definition awake :: "tid \<Rightarrow> squeues \<Rightarrow> squeues" where
  "awake t q = q\<lparr>sleepers := remove1 t (sleepers q), waiters := (\<lambda>w. map_option (remove1 t) (waiters q w))\<rparr>"

lemma lists_of_unready: "lists_of (unready t q) = (\<lambda>a. map_option (remove1 (Ready_node t)) (lists_of q a))"
proof
  fix a
  show "lists_of (unready t q) a = map_option (remove1 (Ready_node t)) (lists_of q a)"
    by (cases a) (auto simp: unready_def remove1_map_inj remove1_map_other option.map_comp comp_def intro: option.map_cong)
qed

lemma lists_of_awake:
  "lists_of (awake t q) = (\<lambda>a. map_option (remove1 (Wait_node t)) (map_option (remove1 (Sleep_node t)) (lists_of q a)))"
proof
  fix a
  show "lists_of (awake t q) a = map_option (remove1 (Wait_node t)) (map_option (remove1 (Sleep_node t)) (lists_of q a))"
    by (cases a) (auto simp: awake_def remove1_map_inj remove1_map_other option.map_comp comp_def intro: option.map_cong)
qed

text \<open>Removing a node if it is linked.\<close>

definition drop_node :: "knode \<Rightarrow> knode heap \<Rightarrow> knode heap" where
  "drop_node n h = (if in_list (h n) then clist_remove h (Some n) else h)"

lemma ksys_same [simp]: "s\<lparr>nodes := nodes s\<rparr> = s" "s\<lparr>tasks := tasks s\<rparr> = s" "s\<lparr>irq := irq s\<rparr> = s" for s :: ksys
  by (cases s; simp)+

lemma remove_node_state: "remove_node n s = s\<lparr>nodes := drop_node n (nodes s)\<rparr>"
  by (simp add: remove_node_def drop_node_def clist_is_in_list_def upd_nodes_def)

lemma remove_from_blocking_queues_state:
  "remove_from_blocking_queues t s = s\<lparr>nodes := drop_node (Wait_node t) (drop_node (Sleep_node t) (nodes s))\<rparr>"
  by (simp add: remove_from_blocking_queues_def remove_node_state)

lemma clists_unready: "clists h (lists_of q) \<Longrightarrow> clists (drop_node (Ready_node t) h) (lists_of (unready t q))"
  unfolding lists_of_unready drop_node_def by (rule clists_remove_node) simp_all

lemma clists_awake:
  assumes "clists h (lists_of q)"
  shows "clists (drop_node (Wait_node t) (drop_node (Sleep_node t) h)) (lists_of (awake t q))"
proof -
  have "clists (drop_node (Sleep_node t) h) (\<lambda>a. map_option (remove1 (Sleep_node t)) (lists_of q a))"
    unfolding drop_node_def by (rule clists_remove_node [OF assms]) simp
  then show ?thesis unfolding drop_node_def [of "Wait_node t"] lists_of_awake by (rule clists_remove_node) auto
qed

lemma ready_node_in:
  assumes "clists h (lists_of q)"
  shows "in_list (h (Ready_node t)) \<longleftrightarrow> (\<exists>p < PRIORITY_COUNT. t \<in> set (ready q p))"
proof -
  have "(\<exists>a xs. lists_of q a = Some xs \<and> Ready_node t \<in> set xs) \<longleftrightarrow> (\<exists>p < PRIORITY_COUNT. t \<in> set (ready q p))"
    (is "?l \<longleftrightarrow> ?r")
  proof
    assume ?l
    then obtain a xs where "lists_of q a = Some xs" "Ready_node t \<in> set xs" by blast
    then show ?r by (cases a) (auto split: if_splits)
  next
    assume ?r
    then obtain p where "p < PRIORITY_COUNT" "t \<in> set (ready q p)" by blast
    then show ?l by (intro exI [of _ "Ready_queue p"]) auto
  qed
  then show ?thesis using clists_in_list [OF assms] by blast
qed

lemma sleep_node_in:
  assumes "clists h (lists_of q)"
  shows "in_list (h (Sleep_node t)) \<longleftrightarrow> t \<in> set (sleepers q)"
proof -
  have "(\<exists>a xs. lists_of q a = Some xs \<and> Sleep_node t \<in> set xs) \<longleftrightarrow> t \<in> set (sleepers q)" (is "?l \<longleftrightarrow> ?r")
  proof
    assume ?l
    then obtain a xs where "lists_of q a = Some xs" "Sleep_node t \<in> set xs" by blast
    then show ?r by (cases a) (auto split: if_splits)
  next
    assume ?r
    then show ?l by (intro exI [of _ Sleeping_head]) auto
  qed
  then show ?thesis using clists_in_list [OF assms] by blast
qed

lemma wait_node_in:
  assumes "clists h (lists_of q)"
  shows "in_list (h (Wait_node t)) \<longleftrightarrow> (\<exists>w ts. is_wq w \<and> waiters q w = Some ts \<and> t \<in> set ts)"
proof -
  have "(\<exists>a xs. lists_of q a = Some xs \<and> Wait_node t \<in> set xs) \<longleftrightarrow> (\<exists>w ts. is_wq w \<and> waiters q w = Some ts \<and> t \<in> set ts)" (is "?l \<longleftrightarrow> ?r")
  proof
    assume ?l
    then obtain a xs where "lists_of q a = Some xs" "Wait_node t \<in> set xs" by blast
    then show ?r by (intro exI [of _ a], cases a) (auto split: if_splits)
  next
    assume ?r
    then obtain w ts where "is_wq w" "waiters q w = Some ts" "t \<in> set ts" by blast
    then show ?l by (intro exI [of _ w]) (cases w; auto)
  qed
  then show ?thesis using clists_in_list [OF assms] by blast
qed

section \<open>What the operations do to the lists\<close>

definition enq :: "tid \<Rightarrow> nat \<Rightarrow> squeues \<Rightarrow> squeues" where
  "enq t p q = q\<lparr>ready := (ready q)(p := ready q p @ [t])\<rparr>"

definition await :: "tid \<Rightarrow> knode \<Rightarrow> squeues \<Rightarrow> squeues" where
  "await t w q = q\<lparr>waiters := (waiters q)(w := map_option (\<lambda>ts. ts @ [t]) (waiters q w))\<rparr>"

lemma clists_enq:
  assumes "clists h (lists_of q)" and "\<forall>p < PRIORITY_COUNT. t \<notin> set (ready q p)" and "p < PRIORITY_COUNT"
  shows "clists (clist_push_back h (Ready_queue p) (Ready_node t)) (lists_of (enq t p q))"
proof -
  have "\<not> in_list (h (Ready_node t))" using assms(2) unfolding ready_node_in [OF assms(1)] by blast
  then have "clists (clist_push_back h (Ready_queue p) (Ready_node t)) ((lists_of q)(Ready_queue p \<mapsto> map Ready_node (ready q p) @ [Ready_node t]))"
    using clists_push_back [OF assms(1)] assms(3) by simp
  moreover have "(lists_of q)(Ready_queue p \<mapsto> map Ready_node (ready q p) @ [Ready_node t]) = lists_of (enq t p q)"
  proof
    fix a show "((lists_of q)(Ready_queue p \<mapsto> map Ready_node (ready q p) @ [Ready_node t])) a = lists_of (enq t p q) a"
      using assms(3) by (cases a) (auto simp: enq_def)
  qed
  ultimately show ?thesis by simp
qed

lemma clists_await:
  assumes "clists h (lists_of q)" and "\<forall>w ts. waiters q w = Some ts \<longrightarrow> t \<notin> set ts" and "is_wq w" and "waiters q w = Some xs"
  shows "clists (clist_push_back h w (Wait_node t)) (lists_of (await t w q))"
proof -
  have "\<not> in_list (h (Wait_node t))" using assms(2) unfolding wait_node_in [OF assms(1)] by blast
  moreover have l: "lists_of q w = Some (map Wait_node xs)" using assms(3,4) by (cases w) auto
  ultimately have "clists (clist_push_back h w (Wait_node t)) ((lists_of q)(w \<mapsto> map Wait_node xs @ [Wait_node t]))"
    using clists_push_back [OF assms(1)] by simp
  moreover have "(lists_of q)(w \<mapsto> map Wait_node xs @ [Wait_node t]) = lists_of (await t w q)"
  proof
    fix a show "((lists_of q)(w \<mapsto> map Wait_node xs @ [Wait_node t])) a = lists_of (await t w q) a"
      using assms(3,4) by (cases a; cases w) (auto simp: await_def)
  qed
  ultimately show ?thesis by simp
qed

text \<open>The states the operations lead to, with every other component unchanged.\<close>

lemma irq_save_state: "irq_save s = (irq s, s\<lparr>irq := False\<rparr>)"
  by (cases s) (simp add: irq_save_def)

lemma irq_restore_state: "irq_restore fl s = s\<lparr>irq := fl \<or> irq s\<rparr>"
  by (cases s) (simp add: irq_restore_def)

lemma task_wake_state:
  assumes "t_state (tasks s t) = SLEEPING \<or> t_state (tasks s t) = BLOCKED"
  shows "task_wake t s = s\<lparr>nodes := drop_node (Wait_node t) (drop_node (Sleep_node t) (nodes s)), tasks := (tasks s)(t := (tasks s t)\<lparr>t_state := RUNNING\<rparr>)\<rparr>"
  using assms
  by (cases s) (auto simp: task_wake_def irq_save_state irq_restore_state upd_task_def Let_def remove_from_blocking_queues_state)

section \<open>The invariant step by step\<close>

lemma idle_prio [simp]: "IDLE < PRIORITY_COUNT"
  by (simp add: layout_defs)

lemma sched_okD:
  assumes "sched_ok s q"
  shows "clists (nodes s) (lists_of q)" and "p < PRIORITY_COUNT \<Longrightarrow> t \<in> set (ready q p) \<Longrightarrow> t_prio (tasks s t) = p"
    and "p < PRIORITY_COUNT \<Longrightarrow> t \<in> set (ready q p) \<Longrightarrow> runnable (tasks s) t"
    and "t \<in> set (sleepers q) \<Longrightarrow> t_state (tasks s t) = SLEEPING"
    and "sorted (map (\<lambda>t. unat (t_wake (tasks s t))) (sleepers q))"
    and "waiters q w = Some ts \<Longrightarrow> is_wq w" and "waiters q w = Some ts \<Longrightarrow> t \<in> set ts \<Longrightarrow> \<not> runnable (tasks s) t"
    and "ready q IDLE \<noteq> []" and "highest_ready_tracking s < PRIORITY_COUNT" and "p < highest_ready_tracking s \<Longrightarrow> ready q p = []"
    and "waiters q w = Some ts \<Longrightarrow> t \<in> set ts \<Longrightarrow> wait_ok (tasks s) w t" and "t \<in> set (sleepers q) \<Longrightarrow> t_prio (tasks s t) < PRIORITY_COUNT"
proof -
  have w: "wait_ok (tasks s) w t \<Longrightarrow> \<not> runnable (tasks s) t" for w t by (cases w) (auto simp: parked_def runnable_def)
  show "waiters q w = Some ts \<Longrightarrow> t \<in> set ts \<Longrightarrow> \<not> runnable (tasks s) t" using assms w unfolding sched_ok_def by blast
qed (use assms in \<open>unfold sched_ok_def, blast+\<close>)

lemma wait_ok_cong: "t_state (T t) = t_state (T' t) \<Longrightarrow> t_prio (T t) = t_prio (T' t) \<Longrightarrow> wait_ok T w t = wait_ok T' w t"
  by (cases w) (simp_all add: parked_def runnable_def)

lemma queues_distinct:
  assumes "clists h (lists_of q)"
  shows "distinct (sleepers q)" and "p < PRIORITY_COUNT \<Longrightarrow> distinct (ready q p)"
    and "is_wq w \<Longrightarrow> waiters q w = Some ts \<Longrightarrow> distinct ts"
    and "is_wq w \<Longrightarrow> waiters q w = Some ts \<Longrightarrow> is_wq w' \<Longrightarrow> waiters q w' = Some ts' \<Longrightarrow> w \<noteq> w' \<Longrightarrow> set ts \<inter> set ts' = {}"
proof -
  have m: "distinct (map f xs) \<Longrightarrow> distinct xs" for f :: "tid \<Rightarrow> knode" and xs by (simp add: distinct_map)
  have w: "lists_of q w = Some (map Wait_node ts)" if "is_wq w" "waiters q w = Some ts" for w ts using that by (cases w) auto
  show "distinct (sleepers q)" using clists_distinct [OF assms, of Sleeping_head] m by simp
  show "distinct (ready q p)" if "p < PRIORITY_COUNT" using clists_distinct [OF assms, of "Ready_queue p"] that m by simp
  show "distinct ts" if "is_wq w" "waiters q w = Some ts" using clists_distinct [OF assms w [OF that]] m by simp
  show "set ts \<inter> set ts' = {}" if "is_wq w" "waiters q w = Some ts" "is_wq w'" "waiters q w' = Some ts'" "w \<noteq> w'"
    using clists_disjoint [OF assms w [OF that(1,2)] w [OF that(3,4)] that(5)] by auto
qed

definition made_ready :: "tid \<Rightarrow> ksys \<Rightarrow> ksys" where
  "made_ready t s = ready_queue_enqueue t (update_highest t (task_wake t s))"

lemma made_ready_state:
  assumes "t_state (tasks s t) = SLEEPING \<or> t_state (tasks s t) = BLOCKED"
  shows "made_ready t s = s\<lparr>
    nodes := clist_push_back (drop_node (Wait_node t) (drop_node (Sleep_node t) (nodes s))) (Ready_queue (t_prio (tasks s t))) (Ready_node t),
    tasks := (tasks s)(t := (tasks s t)\<lparr>t_state := RUNNING\<rparr>),
    highest_ready_tracking := min (t_prio (tasks s t)) (highest_ready_tracking s)\<rparr>"
  unfolding made_ready_def task_wake_state [OF assms]
  by (cases s) (auto simp: ready_queue_enqueue_def update_highest_def Let_def upd_nodes_def priority_higher_def min_def)

lemma sorted_remove1_map: "sorted (map f xs) \<Longrightarrow> sorted (map f (remove1 x xs))"
  by (induction xs) (auto dest: set_remove1_subset [THEN subsetD])

lemma made_ready_ok:
  assumes ok: "sched_ok s q" and st: "t_state (tasks s t) = SLEEPING \<or> t_state (tasks s t) = BLOCKED" and p: "t_prio (tasks s t) < PRIORITY_COUNT"
  shows "sched_ok (made_ready t s) (enq t (t_prio (tasks s t)) (awake t q))"
proof -
  let ?p = "t_prio (tasks s t)" let ?q = "awake t q" let ?s = "made_ready t s"
  have C: "clists (nodes s) (lists_of q)" using ok by (simp add: sched_ok_def)
  have nr: "t \<notin> set (ready q p)" if "p < PRIORITY_COUNT" for p using sched_okD(3) [OF ok that, of t] st by (auto simp: runnable_def)
  have r: "ready ?q = ready q" by (simp add: awake_def)
  have sl: "t \<notin> set (sleepers ?q)" "set (sleepers ?q) \<subseteq> set (sleepers q)" using queues_distinct(1) [OF C] by (auto simp: awake_def)
  have w: "is_wq w \<and> (\<forall>u \<in> set ts. u \<noteq> t \<and> wait_ok (tasks s) w u)" if "waiters ?q w = Some ts" for w ts
  proof -
    from that obtain us where us: "waiters q w = Some us" "ts = remove1 t us" by (auto simp: awake_def)
    then have i: "is_wq w" "\<forall>u \<in> set us. wait_ok (tasks s) w u" using ok by (auto simp: sched_ok_def)
    then show ?thesis using us queues_distinct(3) [OF C i(1) us(1)] by auto
  qed
  have "clists (nodes ?s) (lists_of (enq t ?p ?q))"
    using clists_enq [OF clists_awake [OF C], of t t ?p] nr p r by (simp add: made_ready_state [OF st])
  moreover have "sorted (map (\<lambda>u. unat (t_wake (tasks ?s u))) (sleepers ?q))"
  proof -
    have "map (\<lambda>u. unat (t_wake (tasks ?s u))) (sleepers ?q) = map (\<lambda>u. unat (t_wake (tasks s u))) (sleepers ?q)"
      by (simp add: made_ready_state [OF st])
    moreover have "sorted (map (\<lambda>u. unat (t_wake (tasks s u))) (sleepers ?q))"
      unfolding awake_def using ok sorted_remove1_map [of "\<lambda>u. unat (t_wake (tasks s u))" "sleepers q" t] by (simp add: sched_ok_def)
    ultimately show ?thesis by (simp only:)
  qed
  moreover have e: "tasks ?s = (tasks s)(t := (tasks s t)\<lparr>t_state := RUNNING\<rparr>)" "highest_ready_tracking ?s = min ?p (highest_ready_tracking s)"
    by (simp_all add: made_ready_state [OF st])
  have "t_prio (tasks ?s u) = p' \<and> runnable (tasks ?s) u" if "p' < PRIORITY_COUNT" "u \<in> set (ready (enq t ?p ?q) p')" for p' u
    using that sched_okD(2,3) [OF ok that(1), of u] by (cases "u = t") (auto simp: enq_def r e runnable_def split: if_splits)
  moreover have "t_state (tasks ?s u) = SLEEPING \<and> t_prio (tasks ?s u) < PRIORITY_COUNT" if "u \<in> set (sleepers ?q)" for u
    using that sl sched_okD(4,12) [OF ok, of u] by (auto simp: e)
  moreover have "is_wq w \<and> (\<forall>u \<in> set ts. wait_ok (tasks ?s) w u)" if "waiters ?q w = Some ts" for w ts
    using w [OF that] wait_ok_cong [of "tasks ?s" _ "tasks s" w] by (auto simp: e)
  moreover have "ready (enq t ?p ?q) p' = []" if "p' < highest_ready_tracking ?s" for p'
    using that sched_okD(10) [OF ok, of p'] by (simp add: e enq_def r)
  ultimately show ?thesis using sched_okD(8,9) [OF ok] p unfolding sched_ok_def by (simp add: e(2) enq_def r min_less_iff_disj)
qed

lemma unready_ok:
  assumes ok: "sched_ok s q" and i: "ready q IDLE \<noteq> [t]"
  shows "sched_ok (ready_queue_remove t s) (unready t q)" and "\<forall>p < PRIORITY_COUNT. t \<notin> set (ready (unready t q) p)"
proof -
  have "remove1 t (ready q IDLE) \<noteq> []" using i sched_okD(8) [OF ok] by (cases "ready q IDLE") (auto split: if_splits)
  moreover have "clists (nodes (ready_queue_remove t s)) (lists_of (unready t q))"
    using clists_unready [OF sched_okD(1) [OF ok]] by (simp add: ready_queue_remove_def remove_node_state)
  ultimately show "sched_ok (ready_queue_remove t s) (unready t q)"
    using ok unfolding sched_ok_def by (auto simp: unready_def ready_queue_remove_def remove_node_state dest: notin_set_remove1)
  show "\<forall>p < PRIORITY_COUNT. t \<notin> set (ready (unready t q) p)"
    using queues_distinct(2) [OF sched_okD(1) [OF ok]] by (simp add: unready_def)
qed

lemma block_ok:
  assumes ok: "sched_ok s q" and t: "\<forall>p < PRIORITY_COUNT. t \<notin> set (ready q p)" "t \<notin> set (sleepers q)" "\<forall>w ts. waiters q w = Some ts \<longrightarrow> t \<notin> set ts"
    and w: "waiters q w = Some xs" and p: "t_prio (tasks s t) < PRIORITY_COUNT"
  shows "sched_ok (wq_enqueue w (Wait_node t) (task_block t s)) (await t w q)"
proof -
  have "clists (clist_push_back (nodes s) w (Wait_node t)) (lists_of (await t w q))"
    using clists_await [OF sched_okD(1) [OF ok] _ sched_okD(6) [OF ok w] w] t(3) by blast
  moreover have "sorted (map (\<lambda>u. unat (t_wake (tasks (task_block t s) u))) (sleepers q))"
  proof -
    have "(\<lambda>u. unat (t_wake (tasks (task_block t s) u))) = (\<lambda>u. unat (t_wake (tasks s u)))" by (auto simp: task_block_def upd_task_def)
    then show ?thesis using sched_okD(5) [OF ok] by simp
  qed
  moreover have "wait_ok (tasks (wq_enqueue w (Wait_node t) (task_block t s))) w' u" if "waiters (await t w q) w' = Some ts" "u \<in> set ts" for w' ts u
  proof (cases "u = t")
    case True
    then show ?thesis using p by (cases w') (auto simp: parked_def runnable_def wq_enqueue_def task_block_def upd_task_def upd_nodes_def)
  next
    case False
    then have "wait_ok (tasks s) w' u" using that ok w by (auto simp: await_def sched_ok_def split: if_splits)
    then show ?thesis using False wait_ok_cong [of "tasks s" u "tasks (wq_enqueue w (Wait_node t) (task_block t s))" w']
      by (simp add: wq_enqueue_def task_block_def upd_task_def upd_nodes_def)
  qed
  ultimately show ?thesis using ok t w unfolding sched_ok_def
    by (auto simp: await_def wq_enqueue_def task_block_def upd_task_def upd_nodes_def runnable_def)
qed

definition doze :: "tid \<Rightarrow> ksys \<Rightarrow> tid list \<Rightarrow> tid list" where
  "doze t s us = takeWhile (\<lambda>u. t_wake (tasks s u) \<le> t_wake (tasks s t)) us @ t # dropWhile (\<lambda>u. t_wake (tasks s u) \<le> t_wake (tasks s t)) us"

lemma set_doze [simp]: "set (doze t s us) = insert t (set us)"
proof -
  have "set (takeWhile P us) \<union> set (dropWhile P us) = set us" for P by (metis set_append takeWhile_dropWhile_id)
  then show ?thesis by (auto simp: doze_def)
qed

lemma sorted_doze: "sorted (map f us) \<Longrightarrow> sorted (map f (takeWhile (\<lambda>u. f u \<le> f t) us @ t # dropWhile (\<lambda>u. f u \<le> f t) us))"
  for f :: "tid \<Rightarrow> nat"
proof (induction us)
  case (Cons u us)
  moreover have "\<forall>x \<in> set (takeWhile (\<lambda>u. f u \<le> f t) us) \<union> set (dropWhile (\<lambda>u. f u \<le> f t) us). f u \<le> f x"
    using Cons.prems by (auto dest: set_takeWhileD set_dropWhileD)
  ultimately show ?case by (auto dest: set_dropWhileD)
qed simp

lemma doze_ok:
  assumes ok: "sched_ok s q" and t: "\<forall>p < PRIORITY_COUNT. t \<notin> set (ready q p)" "t \<notin> set (sleepers q)" and p: "t_prio (tasks s t) < PRIORITY_COUNT"
  shows "\<exists>h. insert_sleep t (task_sleep t n s) = Done () ((task_sleep t n s)\<lparr>nodes := h\<rparr>) \<and>
    sched_ok ((task_sleep t n s)\<lparr>nodes := h\<rparr>) (q\<lparr>sleepers := doze t (task_sleep t n s) (sleepers q)\<rparr>)"
proof -
  let ?s = "task_sleep t n s" let ?f = "\<lambda>u. unat (t_wake (tasks ?s u))" let ?us = "sleepers q"
  have C: "clists (nodes ?s) (lists_of q)" using sched_okD(1) [OF ok] by (simp add: task_sleep_def upd_task_def)
  have P: "(\<lambda>x. wake_up_cmp ?s x (Sleep_node t) \<le> 0) \<circ> Sleep_node = (\<lambda>u. t_wake (tasks ?s u) \<le> t_wake (tasks ?s t))"
    by (auto simp: wake_up_cmp_def fun_eq_iff)
  have "\<not> in_list (nodes ?s (Sleep_node t))" using t(2) unfolding sleep_node_in [OF C] .
  then obtain h where h: "clist_insert_sorted (nodes ?s) Sleeping_head (Sleep_node t) (wake_up_cmp ?s) = Some h"
    "clists h ((lists_of q)(Sleeping_head \<mapsto> map Sleep_node (doze t ?s ?us)))"
    using clists_insert_sorted [OF C, of Sleeping_head "map Sleep_node ?us" "Sleep_node t" "wake_up_cmp ?s"]
    by (auto simp: takeWhile_map dropWhile_map P doze_def)
  have "(lists_of q)(Sleeping_head \<mapsto> map Sleep_node (doze t ?s ?us)) = lists_of (q\<lparr>sleepers := doze t ?s ?us\<rparr>)"
  proof
    fix a show "((lists_of q)(Sleeping_head \<mapsto> map Sleep_node (doze t ?s ?us))) a = lists_of (q\<lparr>sleepers := doze t ?s ?us\<rparr>) a"
      by (cases a) simp_all
  qed
  then have "clists h (lists_of (q\<lparr>sleepers := doze t ?s ?us\<rparr>))" using h(2) by simp
  moreover have "sorted (map ?f (doze t ?s ?us))"
  proof -
    have "map ?f ?us = map (\<lambda>u. unat (t_wake (tasks s u))) ?us" using t(2) by (auto simp: task_sleep_def upd_task_def)
    then have "sorted (map ?f ?us)" using sched_okD(5) [OF ok] by (simp only:)
    then show ?thesis using sorted_doze [of ?f ?us t] by (simp add: doze_def word_le_nat_alt)
  qed
  moreover have "insert_sleep t ?s = Done () (?s\<lparr>nodes := h\<rparr>)" using h(1) by (simp add: insert_sleep_def)
  moreover have "wait_ok (tasks (?s\<lparr>nodes := h\<rparr>)) w u" if "wait_ok (tasks s) w u" for w u
    using that p by (cases w) (auto simp: parked_def runnable_def task_sleep_def upd_task_def)
  moreover have "t_prio (tasks ?s u) = p' \<and> runnable (tasks ?s) u" if "p' < PRIORITY_COUNT" "u \<in> set (ready q p')" for p' u
    using that t(1) sched_okD(2,3) [OF ok that] by (cases "u = t") (auto simp: task_sleep_def upd_task_def runnable_def)
  moreover have "t_state (tasks ?s u) = SLEEPING \<and> t_prio (tasks ?s u) < PRIORITY_COUNT" if "u \<in> set (doze t ?s ?us)" for u
    using that p sched_okD(4,12) [OF ok, of u] by (auto simp: task_sleep_def upd_task_def)
  moreover have "highest_ready_tracking ?s = highest_ready_tracking s" by (simp add: task_sleep_def upd_task_def)
  ultimately show ?thesis using sched_okD(6,8-11) [OF ok] unfolding sched_ok_def by (intro exI [of _ h]) simp
qed

section \<open>Switching\<close>

definition switched :: "tid \<Rightarrow> tid \<Rightarrow> ksys \<Rightarrow> ksys" where
  "switched a t s = s\<lparr>tasks := (let T = (if t_state (tasks s a) = RUNNING then (tasks s)(a := (tasks s a)\<lparr>t_state := READY\<rparr>) else tasks s)
     in T(t := (T t)\<lparr>t_state := RUNNING\<rparr>)), active := Some t\<rparr>"

lemma do_ctx_switch_state:
  "active s = Some a \<Longrightarrow> do_ctx_switch (Some t) s = (if a = t then Done () (switched a t s) else Switch (switched a t s) (Done ()))"
  by (simp add: do_ctx_switch_def task_switch_active_def switched_def upd_task_def Let_def)

lemma switched_tasks [simp]:
  "t_prio (tasks (switched a t s) u) = t_prio (tasks s u)" "t_wake (tasks (switched a t s) u) = t_wake (tasks s u)"
  "t_state (tasks (switched a t s) t) = RUNNING" "active (switched a t s) = Some t" "nodes (switched a t s) = nodes s"
  "highest_ready_tracking (switched a t s) = highest_ready_tracking s" "preempt_count (switched a t s) = preempt_count s"
  "need_resched (switched a t s) = need_resched s"
  by (simp_all add: switched_def Let_def)

lemma switched_ok:
  assumes ok: "sched_ok s q" and t: "p < PRIORITY_COUNT" "t \<in> set (ready q p)"
  shows "sched_ok (switched a t s) q"
proof -
  have r: "runnable (tasks (switched a t s)) u = runnable (tasks s) u" for u
    using sched_okD(3) [OF ok t] by (auto simp: runnable_def switched_def Let_def)
  have "t_state (tasks (switched a t s) u) = SLEEPING" if "t_state (tasks s u) = SLEEPING" for u
    using that sched_okD(3) [OF ok t] by (auto simp: runnable_def switched_def Let_def)
  moreover have "wait_ok (tasks (switched a t s)) w u" if "wait_ok (tasks s) w u" for w u
    using that sched_okD(3) [OF ok t] by (cases w) (auto simp: parked_def runnable_def switched_def Let_def)
  ultimately show ?thesis using ok unfolding sched_ok_def r switched_tasks by blast
qed

lemma refresh_ok:
  assumes "sched_ok s q"
  shows "\<exists>H. refresh_highest_prio s = s\<lparr>highest_ready_tracking := H\<rparr> \<and> sched_ok (s\<lparr>highest_ready_tracking := H\<rparr>) q \<and> ready q H \<noteq> [] \<and> H < PRIORITY_COUNT"
proof -
  let ?h = "highest_ready_tracking s"
  have e: "clist_empty (nodes s) (Ready_queue p) \<longleftrightarrow> ready q p = []" if "p < PRIORITY_COUNT" for p
    using clists_empty_iff [OF sched_okD(1) [OF assms], of "Ready_queue p"] that by simp
  have h: "?h < PRIORITY_COUNT" using sched_okD(9) [OF assms] .
  show ?thesis
  proof (cases "ready q ?h = []")
    case False
    then show ?thesis using e [OF h] assms h by (intro exI [of _ ?h]) (cases s, simp add: refresh_highest_prio_def)
  next
    case True
    then have "?h < IDLE" using sched_okD(8) [OF assms] h by (cases "?h = IDLE") (auto simp: layout_defs)
    then have m: "IDLE \<in> set [?h + 1..<PRIORITY_COUNT]" by (simp add: layout_defs)
    have "find (\<lambda>p. \<not> clist_empty (nodes s) (Ready_queue p)) [?h + 1..<PRIORITY_COUNT] \<noteq> None"
      unfolding find_None_iff using m sched_okD(8) [OF assms] e [OF idle_prio] by blast
    then obtain H where H: "find (\<lambda>p. \<not> clist_empty (nodes s) (Ready_queue p)) [?h + 1..<PRIORITY_COUNT] = Some H" by auto
    then obtain i where i: "i < PRIORITY_COUNT - (?h + 1)" "H = ?h + 1 + i" "\<not> clist_empty (nodes s) (Ready_queue H)"
      "\<forall>j < i. clist_empty (nodes s) (Ready_queue (?h + 1 + j))" unfolding find_Some_iff by auto
    have "ready q p = []" if "p < H" for p
    proof (cases "p \<le> ?h")
      case True
      then show ?thesis using \<open>ready q ?h = []\<close> sched_okD(10) [OF assms, of p] by (cases "p = ?h") auto
    next
      case False
      then have "clist_empty (nodes s) (Ready_queue p)" using i(4) [rule_format, of "p - (?h + 1)"] that i(2) by simp
      then show ?thesis using e [of p] that i(1,2) by simp
    qed
    moreover have "H < PRIORITY_COUNT" using i(1,2) by simp
    ultimately show ?thesis using True e [OF h] e [of H] i(3) H assms
      by (intro exI [of _ H]) (auto simp: refresh_highest_prio_def sched_ok_def)
  qed
qed

section \<open>What the scheduler promises\<close>

text \<open>
  What the clients of the scheduler see of a state: which tasks can run, which sleep, who waits where and in
  which order, and the values of the semaphores, mutexes and locks.  Which of the runnable tasks has the
  processor, and in which order they get it, is left open.
\<close>

record world =
  w_ready :: "tid set"
  w_sleep :: "tid list"
  w_wait :: "knode \<Rightarrow> tid list option"
  w_sem :: "nat \<Rightarrow> 32 word"
  w_locked :: "nat \<Rightarrow> bool"
  w_owner :: "nat \<Rightarrow> tid option"
  w_slock :: "sync_id \<Rightarrow> bool"
  w_count :: u32

definition ready_set :: "squeues \<Rightarrow> tid set" where
  "ready_set q = (\<Union>p < PRIORITY_COUNT. set (ready q p))"

definition world_of :: "ksys \<Rightarrow> squeues \<Rightarrow> world" where
  "world_of s q = \<lparr>w_ready = ready_set q, w_sleep = sleepers q, w_wait = waiters q, w_sem = sem_count s, w_locked = m_locked s,
    w_owner = m_owner s, w_slock = slock s, w_count = preempt_count s\<rparr>"

definition sinv :: "world \<Rightarrow> ksys \<Rightarrow> bool" where
  "sinv w s \<longleftrightarrow> (\<exists>q. sched_ok s q \<and> running s q \<and> world_of s q = w)"

text \<open>
  Code acts: it brings the world to \<open>w\<close>, either at once or at the point where it is switched out; when it gets
  the processor back, whatever the world is then, it returns \<open>v\<close> without a further change.  Nobody is
  switched out while preemption is off.
\<close>

primrec acts :: "(ksys, 'a) proc \<Rightarrow> 'a \<Rightarrow> world \<Rightarrow> bool" where
  "acts (Done x s) v w = (x = v \<and> sinv w s)"
| "acts (Switch s k) v w = (w_count w = 0 \<and> sinv w s \<and> (\<forall>w' s'. w_count w' = 0 \<longrightarrow> sinv w' s' \<longrightarrow> acts (k s') v w'))"
| "acts Stop v w = False"
| "acts Spin v w = False"
| "acts Bad v w = False"

lemma sched_ok_irq [simp]: "sched_ok (s\<lparr>irq := b\<rparr>) q = sched_ok s q"
  by (simp add: sched_ok_def)

lemma running_irq [simp]: "running (s\<lparr>irq := b\<rparr>) q = running s q"
  by (simp add: running_def)

lemma world_of_irq [simp]: "world_of (s\<lparr>irq := b\<rparr>) q = world_of s q"
  by (simp add: world_of_def)

lemma sinv_irq [simp]: "sinv w (s\<lparr>irq := b\<rparr>) = sinv w s"
  by (simp add: sinv_def)

lemma acts_bindp:
  assumes "acts m u w" and "\<And>w' s'. w' = w \<or> w_count w' = 0 \<Longrightarrow> sinv w' s' \<Longrightarrow> acts (f u s') v w'"
  shows "acts (bindp m f) v w"
  using assms
proof (induction m arbitrary: w)
  case (Switch s k)
  have "acts (bindp (k s') f) v w'" if "w_count w' = 0" "sinv w' s'" for w' s'
    by (rule Switch.IH [OF rangeI]) (use Switch.prems that in auto)
  then show ?case using Switch.prems(1) by simp
qed auto

lemma acts_irq:
  assumes "acts (m (s\<lparr>irq := False\<rparr>)) v w"
  shows "acts (with_irq_off m s) v w"
  unfolding with_irq_off_def irq_save_state
  by (simp, rule acts_bindp [OF assms]) (simp add: irq_restore_state)

text \<open>The head of the highest ready queue gets the processor.\<close>

lemma switched_running:
  assumes "sched_ok s q" and "p < PRIORITY_COUNT" and "t \<in> set (ready q p)" and "p = highest_ready_tracking s" and "\<not> need_resched s"
  shows "running (switched a t s) q"
  using assms sched_okD(2) [OF assms(1-3)] by (auto simp: running_def)

lemma world_of_switched [simp]: "world_of (switched a t s) q = world_of s q"
  by (simp add: world_of_def switched_def)

lemma ready_first:
  assumes "sched_ok s q" and "p < PRIORITY_COUNT" and "ready q p \<noteq> []"
  shows "ready_of (clist_first (nodes s) (Ready_queue p)) = Some (hd (ready q p))"
  using clists_first [OF sched_okD(1) [OF assms(1)], of "Ready_queue p"] assms(2,3) by (cases "ready q p") auto

lemma do_ctx_switch_acts:
  assumes "sched_ok s q" and "active s = Some a" and "preempt_count s = 0" and "\<not> need_resched s"
    and "t \<in> set (ready q (highest_ready_tracking s))"
  shows "acts (do_ctx_switch (Some t) s) () (world_of s q)"
proof -
  have h: "highest_ready_tracking s < PRIORITY_COUNT" using sched_okD(9) [OF assms(1)] .
  have "sinv (world_of s q) (switched a t s)" unfolding sinv_def
    using switched_ok [OF assms(1) h assms(5)] switched_running [OF assms(1) h assms(5) refl assms(4)] by auto
  then show ?thesis using assms(3) by (auto simp: do_ctx_switch_state [OF assms(2)] world_of_def)
qed

lemma switch_out_active_acts:
  assumes "sched_ok s q" and "active s = Some a" and "preempt_count s = 0" and "\<not> need_resched s"
  shows "acts (switch_out_active s) () (world_of s q)"
  unfolding switch_out_active_def
proof (rule acts_irq)
  let ?s = "s\<lparr>irq := False\<rparr>"
  obtain H where H: "refresh_highest_prio ?s = ?s\<lparr>highest_ready_tracking := H\<rparr>" "sched_ok (?s\<lparr>highest_ready_tracking := H\<rparr>) q" "ready q H \<noteq> []" "H < PRIORITY_COUNT"
    using refresh_ok [of ?s q] assms(1) by auto
  have "acts (do_ctx_switch (Some (hd (ready q H))) (?s\<lparr>highest_ready_tracking := H\<rparr>)) () (world_of (?s\<lparr>highest_ready_tracking := H\<rparr>) q)"
    by (rule do_ctx_switch_acts [OF H(2)]) (use assms H in auto)
  moreover have "world_of (?s\<lparr>highest_ready_tracking := H\<rparr>) q = world_of s q" by (simp add: world_of_def)
  ultimately show "acts (let s1 = refresh_highest_prio ?s in do_ctx_switch (ready_of (clist_first (nodes s1) (pick_highest s1))) s1) () (world_of s q)"
    using ready_first [OF H(2,4,3)] H(1) by (simp add: pick_highest_def)
qed

text \<open>A task that became ready gets the processor if it is of higher priority, unless preemption is off.\<close>

lemma check_and_preempt_acts:
  assumes ok: "sched_ok s q" and a: "active s = Some a" "t_prio (tasks s a) < PRIORITY_COUNT" "a \<in> set (ready q (t_prio (tasks s a)))" "t_state (tasks s a) = RUNNING"
    and t: "t \<in> set (ready q (t_prio (tasks s t)))"
    and h: "highest_ready_tracking s = min (t_prio (tasks s t)) h" "h \<le> t_prio (tasks s a)" "need_resched s \<longleftrightarrow> h < t_prio (tasks s a)"
    and n: "ready q (highest_ready_tracking s) \<noteq> []" and c: "preempt_count s = 0 \<longrightarrow> \<not> need_resched s"
  shows "acts (check_and_preempt t s) () (world_of s q)"
proof (cases "t_prio (tasks s t) < t_prio (tasks s a)")
  case False
  then have "running s q" using a h n c by (auto simp: running_def)
  then show ?thesis using ok a False by (auto simp: check_and_preempt_def priority_higher_def sinv_def)
next
  case True
  show ?thesis
  proof (cases "preempt_count s = 0")
    case z: True
    then have "highest_ready_tracking s = t_prio (tasks s t)" using h c True by auto
    then show ?thesis using do_ctx_switch_acts [OF ok a(1) z] c z t a True by (simp add: check_and_preempt_def priority_higher_def preempt_disabled_def)
  next
    case z: False
    then have p: "preempt_disabled s" by (simp add: preempt_disabled_def word_gt_0)
    have "sched_ok (delay_schedule s) q" using ok by (simp add: sched_ok_def delay_schedule_def)
    moreover have "running (delay_schedule s) q" using a h n z True by (auto simp: running_def delay_schedule_def)
    moreover have "world_of (delay_schedule s) q = world_of s q" by (simp add: world_of_def delay_schedule_def)
    ultimately show ?thesis using a True p by (auto simp: check_and_preempt_def priority_higher_def sinv_def)
  qed
qed

lemma runningD:
  assumes "running s q"
  obtains a where "active s = Some a" "t_prio (tasks s a) < PRIORITY_COUNT" "a \<in> set (ready q (t_prio (tasks s a)))" "t_state (tasks s a) = RUNNING"
    "highest_ready_tracking s \<le> t_prio (tasks s a)" "need_resched s \<longleftrightarrow> highest_ready_tracking s < t_prio (tasks s a)"
    "ready q (highest_ready_tracking s) \<noteq> []" "preempt_count s = 0 \<longrightarrow> \<not> need_resched s"
  using assms unfolding running_def by blast

lemma ready_set_enq: "p < PRIORITY_COUNT \<Longrightarrow> ready_set (enq t p q) = insert t (ready_set q)"
  by (auto simp: ready_set_def enq_def split: if_splits)

definition w_awake :: "tid \<Rightarrow> world \<Rightarrow> world" where
  "w_awake t w = w\<lparr>w_ready := insert t (w_ready w), w_sleep := remove1 t (w_sleep w), w_wait := (\<lambda>x. map_option (remove1 t) (w_wait w x))\<rparr>"

lemma scheduler_ready_task_acts:
  assumes ok: "sched_ok s q" and run: "running s q" and st: "t_state (tasks s t) = SLEEPING \<or> t_state (tasks s t) = BLOCKED"
    and p: "t_prio (tasks s t) < PRIORITY_COUNT"
  shows "acts (scheduler_ready_task t s) () (w_awake t (world_of s q))"
  unfolding scheduler_ready_task_def
proof (rule acts_irq)
  let ?s = "s\<lparr>irq := False\<rparr>" let ?s1 = "made_ready t ?s" let ?q = "enq t (t_prio (tasks s t)) (awake t q)"
  obtain a where a: "active s = Some a" "t_prio (tasks s a) < PRIORITY_COUNT" "a \<in> set (ready q (t_prio (tasks s a)))" "t_state (tasks s a) = RUNNING"
    "highest_ready_tracking s \<le> t_prio (tasks s a)" "need_resched s \<longleftrightarrow> highest_ready_tracking s < t_prio (tasks s a)"
    "ready q (highest_ready_tracking s) \<noteq> []" "preempt_count s = 0 \<longrightarrow> \<not> need_resched s" using runningD [OF run] .
  have st': "t_state (tasks ?s t) = SLEEPING \<or> t_state (tasks ?s t) = BLOCKED" using st by simp
  have ok': "sched_ok ?s1 ?q" using made_ready_ok [OF _ st', of q] ok p by simp
  have ne: "t \<noteq> a" using a(4) st by auto
  have "acts (check_and_preempt t ?s1) () (world_of ?s1 ?q)"
    by (rule check_and_preempt_acts [OF ok', of a _ "highest_ready_tracking s"])
      (use a ne in \<open>auto simp: made_ready_state [OF st'] enq_def awake_def min_def\<close>)
  moreover have "world_of ?s1 ?q = w_awake t (world_of s q)"
    by (simp add: world_of_def w_awake_def made_ready_state [OF st'] ready_set_enq [OF p]) (simp add: enq_def awake_def ready_set_def)
  ultimately show "acts (check_and_preempt t (ready_queue_enqueue t (update_highest t (task_wake t ?s)))) () (w_awake t (world_of s q))"
    by (simp add: made_ready_def)
qed

lemma scheduler_admit_acts:
  assumes ok: "sched_ok s q" and run: "running s q" and st: "t_state (tasks s t) = READY" and p: "t_prio (tasks s t) < PRIORITY_COUNT"
    and nr: "t \<notin> ready_set q"
  shows "acts (scheduler_admit t s) () ((world_of s q)\<lparr>w_ready := insert t (ready_set q)\<rparr>)"
  unfolding scheduler_admit_def
proof (rule acts_irq)
  let ?s = "s\<lparr>irq := False\<rparr>" let ?p = "t_prio (tasks s t)" let ?q = "enq t ?p q"
  let ?s1 = "?s\<lparr>nodes := clist_push_back (nodes s) (Ready_queue ?p) (Ready_node t), highest_ready_tracking := min ?p (highest_ready_tracking s)\<rparr>"
  obtain a where a: "active s = Some a" "t_prio (tasks s a) < PRIORITY_COUNT" "a \<in> set (ready q (t_prio (tasks s a)))" "t_state (tasks s a) = RUNNING"
    "highest_ready_tracking s \<le> t_prio (tasks s a)" "need_resched s \<longleftrightarrow> highest_ready_tracking s < t_prio (tasks s a)"
    "ready q (highest_ready_tracking s) \<noteq> []" "preempt_count s = 0 \<longrightarrow> \<not> need_resched s" using runningD [OF run] .
  have e: "update_highest t (ready_queue_enqueue t ?s) = ?s1"
    by (cases s) (auto simp: ready_queue_enqueue_def update_highest_def Let_def upd_nodes_def priority_higher_def min_def)
  have "clists (nodes ?s1) (lists_of ?q)" using clists_enq [OF sched_okD(1) [OF ok] _ p, of t] nr by (auto simp: ready_set_def)
  moreover have "\<forall>p' < PRIORITY_COUNT. \<forall>u \<in> set (ready ?q p'). t_prio (tasks s u) = p' \<and> runnable (tasks s) u"
    using sched_okD(2,3) [OF ok] st by (auto simp: enq_def runnable_def split: if_splits)
  moreover have "runnable (tasks ?s1) = runnable (tasks s)" "sleepers ?q = sleepers q" "waiters ?q = waiters q" "ready ?q IDLE \<noteq> []"
    "highest_ready_tracking ?s1 < PRIORITY_COUNT" "tasks ?s1 = tasks s"
    using sched_okD(8) [OF ok] p by (auto simp: enq_def runnable_def fun_eq_iff min_less_iff_disj)
  moreover have "\<forall>p' < highest_ready_tracking ?s1. ready ?q p' = []" using sched_okD(10) [OF ok] by (simp add: enq_def)
  ultimately have ok': "sched_ok ?s1 ?q" using ok unfolding sched_ok_def by metis
  have "acts (check_and_preempt t ?s1) () (world_of ?s1 ?q)"
    by (rule check_and_preempt_acts [OF ok', of a _ "highest_ready_tracking s"]) (use a in \<open>auto simp: enq_def min_def\<close>)
  moreover have "world_of ?s1 ?q = (world_of s q)\<lparr>w_ready := insert t (ready_set q)\<rparr>"
    by (simp add: world_of_def ready_set_enq [OF p]) (simp add: enq_def)
  ultimately show "acts (check_and_preempt t (update_highest t (ready_queue_enqueue t ?s))) () ((world_of s q)\<lparr>w_ready := insert t (ready_set q)\<rparr>)"
    unfolding e by simp
qed

section \<open>Round robin\<close>

definition turn :: "nat \<Rightarrow> squeues \<Rightarrow> squeues" where
  "turn p q = q\<lparr>ready := (ready q)(p := rotate1 (ready q p))\<rparr>"

lemma set_ready_turn [simp]: "set (ready (turn p q) p') = set (ready q p')"
  by (simp add: turn_def)

lemma ready_set_turn [simp]: "ready_set (turn p q) = ready_set q"
  by (simp add: ready_set_def)

lemma turn_frame [simp]: "sleepers (turn p q) = sleepers q" "waiters (turn p q) = waiters q" "table (turn p q) = table q"
  by (simp_all add: turn_def)

lemma ready_turn_empty [simp]: "ready (turn p q) p' = [] \<longleftrightarrow> ready q p' = []"
  by (simp add: turn_def)

lemma turn_ok: "sched_ok s q \<Longrightarrow> clists h (lists_of (turn p q)) \<Longrightarrow> sched_ok (s\<lparr>nodes := h\<rparr>) (turn p q)"
  unfolding sched_ok_def by (simp add: runnable_def)

lemma rotate_ready_queue_state:
  assumes ok: "sched_ok s q" and n: "ready q (highest_ready_tracking s) \<noteq> []"
  shows "\<exists>h. rotate_ready_queue (pick_highest s) s = (Some (hd (rotate1 (ready q (highest_ready_tracking s)))), s\<lparr>nodes := h\<rparr>) \<and>
    sched_ok (s\<lparr>nodes := h\<rparr>) (turn (highest_ready_tracking s) q)"
proof -
  let ?p = "highest_ready_tracking s" let ?r = "Ready_queue ?p" let ?h = "nodes s"
  have p: "?p < PRIORITY_COUNT" using sched_okD(9) [OF ok] .
  obtain x xs where x: "ready q ?p = x # xs" using n by (cases "ready q ?p") auto
  have C: "clists ?h (lists_of q)" using sched_okD(1) [OF ok] .
  have l: "lists_of q ?r = Some (Ready_node x # map Ready_node xs)" using p x by simp
  have e: "\<not> clist_empty ?h ?r" using clists_empty_iff [OF C l] by simp
  have nx: "nxt (?h (nxt (?h ?r))) = ?r \<longleftrightarrow> xs = []"
    using clists_links [OF C l] clists_head_notin [OF C l] by (cases xs) auto
  show ?thesis
  proof (cases "xs = []")
    case True
    have "turn ?p q = q" using x True by (cases q) (simp add: turn_def fun_upd_idem)
    then show ?thesis using True ok e nx ready_first [OF ok p n] x by (intro exI [of _ ?h]) (simp add: rotate_ready_queue_def pick_highest_def)
  next
    case False
    let ?h2 = "clist_push_back (snd (clist_pop_front ?h ?r)) ?r (Ready_node x)"
    have r: "fst (clist_pop_front ?h ?r) = Some (Ready_node x)" "clists ?h2 ((lists_of q)(?r \<mapsto> map Ready_node xs @ [Ready_node x]))"
      using cl.rep_rotate [OF C l] by simp_all
    have "(lists_of q)(?r \<mapsto> map Ready_node xs @ [Ready_node x]) = lists_of (turn ?p q)"
    proof
      fix a show "((lists_of q)(?r \<mapsto> map Ready_node xs @ [Ready_node x])) a = lists_of (turn ?p q) a" using x p by (cases a) (auto simp: turn_def)
    qed
    then have c: "clists ?h2 (lists_of (turn ?p q))" using r(2) by simp
    then have k: "sched_ok (s\<lparr>nodes := ?h2\<rparr>) (turn ?p q)" by (rule turn_ok [OF ok])
    have "ready_of (clist_first ?h2 ?r) = Some (hd (rotate1 (ready q ?p)))"
      using ready_first [OF k p] x by (simp add: turn_def)
    then show ?thesis using k e nx False r(1) by (intro exI [of _ ?h2]) (simp add: rotate_ready_queue_def pick_highest_def Let_def split_beta)
  qed
qed

lemma scheduler_rotate_acts:
  assumes ok: "sched_ok s q" and a: "active s = Some a" and c: "preempt_count s = 0" and nr: "\<not> need_resched s"
    and n: "ready q (highest_ready_tracking s) \<noteq> []" and run: "a \<in> set (ready q (highest_ready_tracking s)) \<longrightarrow> running s q"
  shows "acts (scheduler_rotate s) () (world_of s q)"
proof -
  let ?s = "s\<lparr>irq := False\<rparr>" let ?p = "highest_ready_tracking s" let ?t = "hd (rotate1 (ready q ?p))" let ?q = "turn ?p q"
  obtain h where h: "rotate_ready_queue (pick_highest ?s) ?s = (Some ?t, ?s\<lparr>nodes := h\<rparr>)" "sched_ok (?s\<lparr>nodes := h\<rparr>) ?q"
    using rotate_ready_queue_state [of ?s q] ok n by auto
  have t: "?t \<in> set (ready q ?p)" using n by (metis hd_in_set rotate1_is_Nil_conv set_rotate1)
  have w: "world_of (?s\<lparr>nodes := h\<rparr>) ?q = world_of s q" by (simp add: world_of_def)
  have "acts (let (nx, s1) = rotate_ready_queue (pick_highest ?s) ?s in if nx \<noteq> active s1 then do_ctx_switch nx s1 else Done () s1) () (world_of s q)"
  proof (cases "?t = a")
    case False
    then show ?thesis using do_ctx_switch_acts [OF h(2), of a ?t] w a c nr t by (simp add: h(1))
  next
    case True
    then have "running s q" using run t by simp
    then have "running (?s\<lparr>nodes := h\<rparr>) ?q" by (simp add: running_def)
    then show ?thesis using w h True a by (auto simp: sinv_def)
  qed
  then show ?thesis using c acts_irq [of "\<lambda>s. let (nx, s1) = rotate_ready_queue (pick_highest s) s in if nx \<noteq> active s1 then do_ctx_switch nx s1 else Done () s1" s]
    by (simp add: scheduler_rotate_def)
qed

section \<open>Blocking and sleeping\<close>

definition w_block :: "tid \<Rightarrow> knode \<Rightarrow> world \<Rightarrow> world" where
  "w_block a x w = w\<lparr>w_ready := w_ready w - {a}, w_wait := (w_wait w)(x := map_option (\<lambda>ts. ts @ [a]) (w_wait w x))\<rparr>"

lemma ready_set_unready: "clists h (lists_of q) \<Longrightarrow> ready_set (unready a q) = ready_set q - {a}"
  using queues_distinct(2) by (auto simp: ready_set_def unready_def)

lemma not_waiting:
  assumes "sched_ok s q" and "runnable (tasks s) a"
  shows "a \<notin> set (sleepers q)" and "waiters q w = Some ts \<Longrightarrow> a \<notin> set ts"
  using sched_okD(4,7) [OF assms(1)] assms(2) by (auto simp: runnable_def)

lemma leave_ready:
  assumes ok: "sched_ok s q" and run: "running s q" and a: "active s = Some a" and i: "t_prio (tasks s a) \<noteq> IDLE"
  shows "sched_ok (ready_queue_remove a s) (unready a q)" and "\<forall>p < PRIORITY_COUNT. a \<notin> set (ready (unready a q) p)"
    and "runnable (tasks s) a" and "need_resched s \<longrightarrow> ready (unready a q) (highest_ready_tracking s) \<noteq> []"
proof -
  have r: "t_state (tasks s a) = RUNNING" using run a by (simp add: running_def)
  then show "runnable (tasks s) a" by (simp add: runnable_def)
  have n: "a \<notin> set (ready q IDLE)" using sched_okD(2) [OF ok, of IDLE a] i by auto
  then have "ready q IDLE \<noteq> [a]" by auto
  then show "sched_ok (ready_queue_remove a s) (unready a q)" "\<forall>p < PRIORITY_COUNT. a \<notin> set (ready (unready a q) p)"
    using unready_ok [OF ok] by blast+
  show "need_resched s \<longrightarrow> ready (unready a q) (highest_ready_tracking s) \<noteq> []"
  proof
    assume "need_resched s"
    then have "highest_ready_tracking s < t_prio (tasks s a)" "ready q (highest_ready_tracking s) \<noteq> []" using run a by (auto simp: running_def)
    moreover have "a \<notin> set (ready q (highest_ready_tracking s))"
      using sched_okD(2) [OF ok sched_okD(9) [OF ok], of a] calculation(1) by auto
    ultimately show "ready (unready a q) (highest_ready_tracking s) \<noteq> []" by (simp add: unready_def remove1_idem)
  qed
qed

lemma move_to_wq_ok:
  assumes ok: "sched_ok s q" and run: "running s q" and a: "active s = Some a" and i: "t_prio (tasks s a) \<noteq> IDLE" and x: "waiters q x = Some xs"
  shows "sched_ok (move_to_wq a x s) (await a x (unready a q))" and "world_of (move_to_wq a x s) (await a x (unready a q)) = w_block a x (world_of s q)"
    and "active (move_to_wq a x s) = Some a" and "preempt_count (move_to_wq a x s) = preempt_count s" and "need_resched (move_to_wq a x s) = need_resched s"
    and "highest_ready_tracking (move_to_wq a x s) = highest_ready_tracking s" and "ready (await a x (unready a q)) = ready (unready a q)"
    and "slock (move_to_wq a x s) = slock s"
proof -
  note l = leave_ready [OF ok run a i]
  have "a \<notin> set (sleepers (unready a q))" "\<forall>w ts. waiters (unready a q) w = Some ts \<longrightarrow> a \<notin> set ts"
    using not_waiting [OF ok l(3)] by (auto simp: unready_def)
  moreover have "t_prio (tasks (ready_queue_remove a s) a) < PRIORITY_COUNT" using run a by (simp add: running_def ready_queue_remove_def remove_node_state)
  ultimately show "sched_ok (move_to_wq a x s) (await a x (unready a q))" unfolding move_to_wq_def
    using block_ok [OF l(1,2)] x by (simp add: unready_def)
  show "world_of (move_to_wq a x s) (await a x (unready a q)) = w_block a x (world_of s q)"
    using ready_set_unready [OF sched_okD(1) [OF ok], of a]
    by (simp add: world_of_def w_block_def move_to_wq_def wq_enqueue_def upd_nodes_def task_block_def upd_task_def ready_queue_remove_def remove_node_state)
      (simp add: await_def unready_def ready_set_def)
  show "active (move_to_wq a x s) = Some a" "preempt_count (move_to_wq a x s) = preempt_count s" "need_resched (move_to_wq a x s) = need_resched s"
    "highest_ready_tracking (move_to_wq a x s) = highest_ready_tracking s" "ready (await a x (unready a q)) = ready (unready a q)" "slock (move_to_wq a x s) = slock s"
    using a by (simp_all add: move_to_wq_def wq_enqueue_def upd_nodes_def task_block_def upd_task_def ready_queue_remove_def remove_node_state await_def)
qed

lemma scheduler_block_on_acts:
  assumes "sched_ok s q" and "running s q" and "active s = Some a" and "t_prio (tasks s a) \<noteq> IDLE" and "waiters q x = Some xs" and "preempt_count s = 0"
  shows "acts (scheduler_block_on x s) () (w_block a x (world_of s q))"
  unfolding scheduler_block_on_def
proof (rule acts_irq)
  let ?s = "s\<lparr>irq := False\<rparr>"
  have p: "sched_ok ?s q" "running ?s q" "active ?s = Some a" "t_prio (tasks ?s a) \<noteq> IDLE" using assms by simp_all
  note m = move_to_wq_ok [OF p assms(5)]
  have "\<not> need_resched s" using assms(2,6) by (auto simp: running_def)
  then show "acts (with_active (\<lambda>t s. switch_out_active (move_to_wq t x s)) ?s) () (w_block a x (world_of s q))"
    using switch_out_active_acts [OF m(1,3)] m(2,4,5) assms(3,6) by (simp add: with_active_def)
qed

lemma spinlock_unlock_state:
  assumes "preempt_count s = 1"
  shows "spinlock_unlock l s = (if need_resched s then scheduler_rotate (s\<lparr>slock := (slock s)(l := False), preempt_count := 0, need_resched := False\<rparr>)
    else Done () (s\<lparr>slock := (slock s)(l := False), preempt_count := 0, need_resched := False\<rparr>))"
  using assms by (cases s) (auto simp: spinlock_unlock_def scheduler_enable_preempt_def Let_def)

text \<open>With a lock held, preemption comes back on between the move to the queue and the switch.\<close>

lemma scheduler_block_on_locked_acts:
  assumes ok: "sched_ok s q" and run: "running s q" and a: "active s = Some a" and i: "t_prio (tasks s a) \<noteq> IDLE" and x: "waiters q x = Some xs"
    and c: "preempt_count s = 1"
  shows "acts (scheduler_block_on_locked x l s) () ((w_block a x (world_of s q))\<lparr>w_slock := (slock s)(l := False), w_count := 0\<rparr>)" (is "acts _ _ ?w")
  unfolding scheduler_block_on_locked_def
proof (rule acts_irq)
  let ?s = "s\<lparr>irq := False\<rparr>" let ?q = "await a x (unready a q)"
  have p: "sched_ok ?s q" "running ?s q" "active ?s = Some a" "t_prio (tasks ?s a) \<noteq> IDLE" using ok run a i by simp_all
  note m = move_to_wq_ok [OF p x] let ?m = "move_to_wq a x ?s"
  let ?s2 = "?m\<lparr>slock := (slock ?m)(l := False), preempt_count := 0, need_resched := False\<rparr>"
  have ok2: "sched_ok ?s2 ?q" using m(1) by (simp add: sched_ok_def)
  have w2: "world_of ?s2 ?q = ?w" using m(2,8) by (simp add: world_of_def w_block_def)
  have u: "spinlock_unlock l ?m = (if need_resched s then scheduler_rotate ?s2 else Done () ?s2)"
    using spinlock_unlock_state [of ?m l] m(4,5) c by simp
  have out: "acts (switch_out_active s') () w'" if c0: "w_count w' = 0" and i0: "sinv w' s'" for s' w'
  proof -
    obtain q' where q': "sched_ok s' q'" "running s' q'" "world_of s' q' = w'" using i0 by (auto simp: sinv_def)
    then obtain b where "active s' = Some b" "preempt_count s' = 0" "\<not> need_resched s'" using c0 by (auto simp: running_def world_of_def)
    then show ?thesis using switch_out_active_acts [OF q'(1)] q'(3) by simp
  qed
  have "acts (bindp (spinlock_unlock l ?m) (\<lambda>_. switch_out_active)) () ?w"
  proof (cases "need_resched s")
    case False
    then show ?thesis using u switch_out_active_acts [OF ok2, of a] m(3) w2 by simp
  next
    case True
    have n: "ready ?q (highest_ready_tracking ?s2) \<noteq> []" using leave_ready(4) [OF p] True m(6,7) by simp
    have "\<forall>p' < PRIORITY_COUNT. a \<notin> set (ready ?q p')" using leave_ready(2) [OF p] m(7) by simp
    then have "acts (scheduler_rotate ?s2) () ?w"
      using scheduler_rotate_acts [OF ok2, of a] m(3,6) n w2 sched_okD(9) [OF ok2] by simp
    then show ?thesis using True u by (simp, intro acts_bindp) (auto intro: out)
  qed
  then show "acts (with_active (\<lambda>t s. bindp (spinlock_unlock l (move_to_wq t x s)) (\<lambda>_. switch_out_active)) ?s) () ?w"
    using a by (simp add: with_active_def)
qed

lemma scheduler_enable_preempt_acts:
  assumes ok: "sched_ok s q" and run: "running s q" and c: "preempt_count s \<noteq> 0"
  shows "acts (scheduler_enable_preempt s) () ((world_of s q)\<lparr>w_count := preempt_count s - 1\<rparr>)"
proof -
  obtain a where a: "active s = Some a" "t_prio (tasks s a) < PRIORITY_COUNT" "a \<in> set (ready q (t_prio (tasks s a)))" "t_state (tasks s a) = RUNNING"
    "highest_ready_tracking s \<le> t_prio (tasks s a)" "need_resched s \<longleftrightarrow> highest_ready_tracking s < t_prio (tasks s a)"
    "ready q (highest_ready_tracking s) \<noteq> []" "preempt_count s = 0 \<longrightarrow> \<not> need_resched s" using runningD [OF run] .
  let ?s = "s\<lparr>preempt_count := preempt_count s - 1\<rparr>"
  show ?thesis
  proof (cases "preempt_count s - 1 = 0 \<and> need_resched s")
    case True
    let ?s2 = "?s\<lparr>need_resched := False\<rparr>"
    have ok2: "sched_ok ?s2 q" using ok by (simp add: sched_ok_def)
    have w: "world_of ?s2 q = (world_of s q)\<lparr>w_count := preempt_count s - 1\<rparr>" by (simp add: world_of_def)
    have "a \<notin> set (ready q (highest_ready_tracking s))" using sched_okD(2) [OF ok sched_okD(9) [OF ok], of a] a(6) True by auto
    then have "acts (scheduler_rotate ?s2) () (world_of ?s2 q)" using scheduler_rotate_acts [OF ok2, of a] a True by simp
    then show ?thesis using True w by (simp add: scheduler_enable_preempt_def Let_def)
  next
    case False
    have "sched_ok ?s q" using ok by (simp add: sched_ok_def)
    moreover have "running ?s q" using a False by (auto simp: running_def)
    moreover have "world_of ?s q = (world_of s q)\<lparr>w_count := preempt_count s - 1\<rparr>" by (simp add: world_of_def)
    ultimately show ?thesis using False by (auto simp: scheduler_enable_preempt_def Let_def sinv_def)
  qed
qed

lemma spinlock_unlock_acts:
  assumes "sched_ok s q" and "running s q" and "preempt_count s = 1"
  shows "acts (spinlock_unlock l s) () ((world_of s q)\<lparr>w_slock := (slock s)(l := False), w_count := 0\<rparr>)"
proof -
  let ?s = "s\<lparr>slock := (slock s)(l := False)\<rparr>"
  have "sched_ok ?s q" "running ?s q" using assms(1,2) by (simp_all add: sched_ok_def running_def)
  then have "acts (scheduler_enable_preempt ?s) () ((world_of ?s q)\<lparr>w_count := preempt_count ?s - 1\<rparr>)"
    by (rule scheduler_enable_preempt_acts) (simp add: assms(3))
  then show ?thesis using assms(3) by (simp add: spinlock_unlock_def world_of_def)
qed

text \<open>A task that goes to sleep, or waits for at most some seconds.\<close>

definition w_sleep_on :: "tid \<Rightarrow> tid list \<Rightarrow> world \<Rightarrow> world" where
  "w_sleep_on a us w = w\<lparr>w_ready := w_ready w - {a}, w_sleep := us\<rparr>"

lemma fall_asleep:
  assumes ok: "sched_ok s q" and t: "\<forall>p < PRIORITY_COUNT. a \<notin> set (ready q p)" "a \<notin> set (sleepers q)" "t_prio (tasks s a) < PRIORITY_COUNT"
    and a: "active s = Some a" "preempt_count s = 0" "\<not> need_resched s"
  shows "acts (bindp (insert_sleep a (task_sleep a n s)) (\<lambda>_. switch_out_active)) () ((world_of s q)\<lparr>w_sleep := doze a (task_sleep a n s) (sleepers q)\<rparr>)"
proof -
  let ?s = "task_sleep a n s" let ?q = "q\<lparr>sleepers := doze a ?s (sleepers q)\<rparr>"
  obtain h where h: "insert_sleep a ?s = Done () (?s\<lparr>nodes := h\<rparr>)" "sched_ok (?s\<lparr>nodes := h\<rparr>) ?q" using doze_ok [OF ok t] by blast
  have "acts (switch_out_active (?s\<lparr>nodes := h\<rparr>)) () (world_of (?s\<lparr>nodes := h\<rparr>) ?q)"
    by (rule switch_out_active_acts [OF h(2), of a]) (use a in \<open>simp_all add: task_sleep_def upd_task_def\<close>)
  moreover have "world_of (?s\<lparr>nodes := h\<rparr>) ?q = (world_of s q)\<lparr>w_sleep := doze a ?s (sleepers q)\<rparr>"
    by (simp add: world_of_def task_sleep_def upd_task_def ready_set_def)
  ultimately show ?thesis using h(1) by simp
qed

lemma doze_cong:
  assumes "\<forall>u \<in> set us. t_wake (tasks s u) = t_wake (tasks s' u)" and "t_wake (tasks s t) = t_wake (tasks s' t)"
  shows "doze t s us = doze t s' us"
proof -
  have "takeWhile (\<lambda>u. t_wake (tasks s u) \<le> t_wake (tasks s t)) us = takeWhile (\<lambda>u. t_wake (tasks s' u) \<le> t_wake (tasks s' t)) us"
    "dropWhile (\<lambda>u. t_wake (tasks s u) \<le> t_wake (tasks s t)) us = dropWhile (\<lambda>u. t_wake (tasks s' u) \<le> t_wake (tasks s' t)) us"
    using assms by (auto intro: takeWhile_cong dropWhile_cong)
  then show ?thesis by (simp add: doze_def)
qed

lemma scheduler_sleep_acts:
  assumes ok: "sched_ok s q" and run: "running s q" and a: "active s = Some a" and i: "t_prio (tasks s a) \<noteq> IDLE" and c: "preempt_count s = 0"
  shows "acts (scheduler_sleep n s) () (w_sleep_on a (doze a (task_sleep a n s) (sleepers q)) (world_of s q))"
  unfolding scheduler_sleep_def
proof (rule acts_irq)
  let ?s = "s\<lparr>irq := False\<rparr>" let ?r = "ready_queue_remove a ?s" let ?q = "unready a q"
  have p: "sched_ok ?s q" "running ?s q" "active ?s = Some a" "t_prio (tasks ?s a) \<noteq> IDLE" using ok run a i by simp_all
  note l = leave_ready [OF p]
  have r: "sleepers ?q = sleepers q" by (simp add: unready_def)
  have f: "active ?r = Some a" "preempt_count ?r = 0" "\<not> need_resched ?r"
    using a c run by (auto simp: ready_queue_remove_def remove_node_state running_def)
  have ns: "a \<notin> set (sleepers ?q)" using not_waiting(1) [OF p(1) l(3)] r by simp
  have pr: "t_prio (tasks ?r a) < PRIORITY_COUNT" using run a by (simp add: running_def ready_queue_remove_def remove_node_state)
  have d: "doze a (task_sleep a n ?r) (sleepers q) = doze a (task_sleep a n s) (sleepers q)"
    by (rule doze_cong) (auto simp: task_sleep_def upd_task_def ready_queue_remove_def remove_node_state time_seconds_def)
  have e: "(world_of ?r ?q)\<lparr>w_sleep := doze a (task_sleep a n ?r) (sleepers ?q)\<rparr> = w_sleep_on a (doze a (task_sleep a n s) (sleepers q)) (world_of s q)"
    using ready_set_unready [OF sched_okD(1) [OF ok], of a] d r
    by (simp add: world_of_def w_sleep_on_def ready_queue_remove_def remove_node_state unready_def)
  show "acts (with_active (\<lambda>t s. bindp (insert_sleep t (task_sleep t n (ready_queue_remove t s))) (\<lambda>_. switch_out_active)) ?s) ()
      (w_sleep_on a (doze a (task_sleep a n s) (sleepers q)) (world_of s q))"
    using fall_asleep [OF l(1,2) ns pr f, of n, unfolded e] a by (simp add: with_active_def)
qed

lemma scheduler_block_on_with_timeout_acts:
  assumes ok: "sched_ok s q" and run: "running s q" and a: "active s = Some a" and i: "t_prio (tasks s a) \<noteq> IDLE" and x: "waiters q x = Some xs"
    and c: "preempt_count s = 0"
  shows "acts (scheduler_block_on_with_timeout x n s) ()
    ((w_block a x (world_of s q))\<lparr>w_sleep := (if 0 < n then doze a (task_sleep a n s) (sleepers q) else sleepers q)\<rparr>)"
  unfolding scheduler_block_on_with_timeout_def
proof (rule acts_irq)
  let ?s = "s\<lparr>irq := False\<rparr>" let ?m = "move_to_wq a x ?s" let ?q = "await a x (unready a q)"
  let ?w = "(w_block a x (world_of s q))\<lparr>w_sleep := (if 0 < n then doze a (task_sleep a n s) (sleepers q) else sleepers q)\<rparr>"
  have p: "sched_ok ?s q" "running ?s q" "active ?s = Some a" "t_prio (tasks ?s a) \<noteq> IDLE" using ok run a i by simp_all
  note m = move_to_wq_ok [OF p x]
  have f: "preempt_count ?m = 0" "\<not> need_resched ?m" using m(4,5) c run by (auto simp: running_def)
  have sl: "sleepers ?q = sleepers q" by (simp add: await_def unready_def)
  have ns: "a \<notin> set (sleepers ?q)" using not_waiting(1) [OF p(1) leave_ready(3) [OF p]] sl by simp
  have pr: "t_prio (tasks ?m a) < PRIORITY_COUNT"
    using run a by (simp add: running_def move_to_wq_def wq_enqueue_def upd_nodes_def task_block_def upd_task_def ready_queue_remove_def remove_node_state)
  have nr: "\<forall>p' < PRIORITY_COUNT. a \<notin> set (ready ?q p')" using leave_ready(2) [OF p] m(7) by simp
  have d: "doze a (task_sleep a n ?m) (sleepers q) = doze a (task_sleep a n s) (sleepers q)"
    by (rule doze_cong) (auto simp: task_sleep_def upd_task_def move_to_wq_def wq_enqueue_def upd_nodes_def task_block_def ready_queue_remove_def remove_node_state time_seconds_def)
  have "acts (bindp (if 0 < n then insert_sleep a (task_sleep a n ?m) else Done () ?m) (\<lambda>_. switch_out_active)) () ?w"
  proof (cases "0 < n")
    case True
    then show ?thesis using fall_asleep [OF m(1) nr ns pr m(3) f, of n] m(2) sl d by simp
  next
    case False
    have "world_of ?m ?q = ?w" using False m(2) by (simp add: w_block_def world_of_def)
    then show ?thesis using switch_out_active_acts [OF m(1,3) f] False by simp
  qed
  then show "acts (with_active (\<lambda>t s. let s1 = move_to_wq t x s in bindp (if 0 < n then insert_sleep t (task_sleep t n s1) else Done () s1) (\<lambda>_. switch_out_active)) ?s) () ?w"
    using a by (cases "0 < n") (simp_all add: with_active_def)
qed

section \<open>Waking\<close>

lemma world_of_made_ready:
  assumes "t_state (tasks s t) = SLEEPING \<or> t_state (tasks s t) = BLOCKED" and "t_prio (tasks s t) < PRIORITY_COUNT"
  shows "world_of (made_ready t s) (enq t (t_prio (tasks s t)) (awake t q)) = w_awake t (world_of s q)"
  by (simp add: world_of_def w_awake_def made_ready_state [OF assms(1)] ready_set_enq [OF assms(2)]) (simp add: enq_def awake_def ready_set_def)

lemma made_ready_running:
  assumes run: "running s q" and st: "t_state (tasks s t) = SLEEPING \<or> t_state (tasks s t) = BLOCKED"
    and a: "active s = Some a" "t_prio (tasks s a) \<le> t_prio (tasks s t)"
  shows "running (made_ready t s) (enq t (t_prio (tasks s t)) (awake t q))" and "scheduler_ready_task t s = Done () (made_ready t s)"
proof -
  have "t \<noteq> a" using run st a by (auto simp: running_def)
  then show "running (made_ready t s) (enq t (t_prio (tasks s t)) (awake t q))"
    using run a by (auto simp: running_def made_ready_state [OF st] enq_def awake_def)
  let ?s = "s\<lparr>irq := False\<rparr>"
  have st': "t_state (tasks ?s t) = SLEEPING \<or> t_state (tasks ?s t) = BLOCKED" using st by simp
  have e: "(made_ready t ?s)\<lparr>irq := irq s \<or> irq (made_ready t ?s)\<rparr> = made_ready t s"
    unfolding made_ready_state [OF st] made_ready_state [OF st'] by (cases s) simp
  have "check_and_preempt t (made_ready t ?s) = Done () (made_ready t ?s)"
    using a by (auto simp: check_and_preempt_def made_ready_state [OF st'] priority_higher_def)
  then have "bindp (check_and_preempt t (made_ready t ?s)) (\<lambda>x s2. Done x (irq_restore (irq s) s2)) = Done () (made_ready t s)"
    using e by (simp add: irq_restore_state)
  then show "scheduler_ready_task t s = Done () (made_ready t s)"
    by (simp add: scheduler_ready_task_def with_irq_off_def irq_save_state made_ready_def)
qed

definition due :: "ksys \<Rightarrow> u32 \<Rightarrow> tid \<Rightarrow> bool" where
  "due s now t \<longleftrightarrow> t_wake (tasks s t) \<le> ucast now"

lemma wake_up_sleeping_cb_done:
  assumes ok: "sched_ok s q" and run: "running s q" and a: "active s = Some a" "t_prio (tasks s a) = HIGH" and t: "t \<in> set (sleepers q)"
  shows "wake_up_sleeping_cb now (Sleep_node t) s = Done False (if due s now t then made_ready t s else s)"
proof -
  have st: "t_state (tasks s t) = SLEEPING \<or> t_state (tasks s t) = BLOCKED" using sched_okD(4) [OF ok t] by simp
  let ?s = "upd_nodes (\<lambda>h. clist_remove h (Some (Sleep_node t))) s"
  have i: "in_list (nodes s (Sleep_node t))" using t sleep_node_in [OF sched_okD(1) [OF ok]] by blast
  then have n: "nodes ?s = drop_node (Sleep_node t) (nodes s)" by (simp add: upd_nodes_def drop_node_def)
  have "clists (drop_node (Sleep_node t) (nodes s)) (\<lambda>a. map_option (remove1 (Sleep_node t)) (lists_of q a))"
    unfolding drop_node_def by (rule clists_remove_node [OF sched_okD(1) [OF ok]]) simp
  moreover have "Sleep_node t \<notin> set (remove1 (Sleep_node t) xs)" if "lists_of q b = Some xs" for b xs
    using clists_distinct [OF sched_okD(1) [OF ok] that] by simp
  ultimately have "\<not> in_list (drop_node (Sleep_node t) (nodes s) (Sleep_node t))" using clists_in_list by fastforce
  then have "drop_node (Sleep_node t) (nodes ?s) = drop_node (Sleep_node t) (nodes s)" using n by (simp add: drop_node_def)
  moreover have "tasks ?s = tasks s" by (simp add: upd_nodes_def)
  ultimately have m: "made_ready t ?s = made_ready t s"
    using made_ready_state [of ?s t] made_ready_state [OF st] st by (simp add: upd_nodes_def)
  have "running ?s q" using run by (simp add: running_def upd_nodes_def)
  then have "scheduler_ready_task t ?s = Done () (made_ready t ?s)"
    using made_ready_running(2) [of ?s q t a] a st by (simp add: upd_nodes_def HIGH_def)
  then show ?thesis by (auto simp: wake_up_sleeping_cb_def due_def m not_less)
qed

text \<open>The walk over the sleeping queue readies the tasks that are due and leaves the others.\<close>

lemma sleep_next:
  assumes "sched_ok s q" and "sleepers q = ks @ t # us"
  shows "nxt (nodes s (Sleep_node t)) = hd (map Sleep_node us @ [Sleeping_head])"
  using clists_neighbours(1) [OF sched_okD(1) [OF assms(1)], of Sleeping_head "map Sleep_node (ks @ [t])" "map Sleep_node us"] assms(2) by simp

lemma wake_loop:
  assumes "sched_ok s q" and "running s q" and "active s = Some a" and "t_prio (tasks s a) = HIGH" and "sleepers q = ks @ us" and "length us < n"
  shows "\<exists>s' q'. for_each_p n (wake_up_sleeping_cb now) Sleeping_head (hd (map Sleep_node us @ [Sleeping_head])) s = Done () s' \<and>
    sched_ok s' q' \<and> running s' q' \<and> world_of s' q' = fold w_awake (filter (due s now) us) (world_of s q)"
  using assms
proof (induction us arbitrary: n s q ks)
  case Nil
  then show ?case by (cases n) auto
next
  case (Cons t us)
  then obtain m where m: "n = Suc m" "length us < m" by (cases n) auto
  note ok = Cons.prems(1)
  have t: "t \<in> set (sleepers q)" using Cons.prems(5) by simp
  then have st: "t_state (tasks s t) = SLEEPING \<or> t_state (tasks s t) = BLOCKED" using sched_okD(4) [OF ok] by simp
  note cb = wake_up_sleeping_cb_done [OF Cons.prems(1-4) t, of now]
  note nx = sleep_next [OF ok, of ks t us]
  have step: "for_each_p n (wake_up_sleeping_cb now) Sleeping_head (Sleep_node t) s =
    for_each_p m (wake_up_sleeping_cb now) Sleeping_head (hd (map Sleep_node us @ [Sleeping_head])) (if due s now t then made_ready t s else s)"
    using cb nx Cons.prems(5) by (simp add: m(1) Let_def)
  show ?case
  proof (cases "due s now t")
    case False
    then show ?thesis using Cons.IH [OF Cons.prems(1-4), of "ks @ [t]" m] Cons.prems(5) m(2) step by simp
  next
    case True
    let ?s = "made_ready t s" let ?q = "enq t (t_prio (tasks s t)) (awake t q)"
    have p: "t_prio (tasks s t) < PRIORITY_COUNT" using sched_okD(12) [OF ok t] .
    have d: "distinct (ks @ t # us)" using queues_distinct(1) [OF sched_okD(1) [OF ok]] Cons.prems(5) by simp
    have f: "due ?s now = due s now" by (simp add: due_def made_ready_state [OF st] fun_eq_iff)
    have "sched_ok ?s ?q" "running ?s ?q" using made_ready_ok [OF ok st p] made_ready_running(1) [OF Cons.prems(2) st Cons.prems(3)] Cons.prems(4) by (simp_all add: HIGH_def)
    moreover have "active ?s = Some a" "t_prio (tasks ?s a) = HIGH" using Cons.prems(3,4) by (auto simp: made_ready_state [OF st])
    moreover have "sleepers ?q = ks @ us" using Cons.prems(5) d by (simp add: enq_def awake_def remove1_append)
    ultimately show ?thesis
      using Cons.IH [of ?s ?q ks m] m(2) step True f world_of_made_ready [OF st p, of q] by simp
  qed
qed

lemma scheduler_wake_sleeping_acts:
  assumes "sched_ok s q" and "running s q" and "active s = Some a" and "t_prio (tasks s a) = HIGH" and "length (sleepers q) < n"
  shows "acts (scheduler_wake_sleeping n s) () (fold w_awake (filter (due s (time_seconds s)) (sleepers q)) (world_of s q))"
  unfolding scheduler_wake_sleeping_def
proof (rule acts_irq)
  let ?s = "s\<lparr>irq := False\<rparr>" let ?us = "sleepers q"
  have "nxt (nodes s Sleeping_head) = hd (map Sleep_node ?us @ [Sleeping_head])"
    using clists_neighbours(1) [OF sched_okD(1) [OF assms(1)], of Sleeping_head "[]" "map Sleep_node ?us"] by simp
  moreover have "due ?s (time_seconds ?s) = due s (time_seconds s)" by (simp add: due_def time_seconds_def fun_eq_iff)
  ultimately show "acts (for_each_p n (wake_up_sleeping_cb (time_seconds ?s)) Sleeping_head (nxt (nodes ?s Sleeping_head)) ?s) ()
      (fold w_awake (filter (due s (time_seconds s)) ?us) (world_of s q))"
    using wake_loop [of ?s q a "[]" ?us n "time_seconds ?s"] assms by (auto simp: sinv_def)
qed

text \<open>
  Draining a wait queue.  \<^verbatim>\<open>wq_for_each_and_del\<close> resets the sentinel first, so during the walk the heap holds the queues but for the
  fields of the sentinel.  Making a task ready does not look at them.
\<close>

lemma made_ready_apart:
  assumes C: "clists H (lists_of q)" and w: "is_wq w" "w \<in> dom (lists_of q)" and t: "\<not> in_list (H (Wait_node t))" and p: "p < PRIORITY_COUNT"
  defines "F \<equiv> \<lambda>h. clist_push_back (drop_node (Wait_node t) (drop_node (Sleep_node t) h)) (Ready_queue p) (Ready_node t)"
  shows "F (H(w := c)) = (F H)(w := c)"
proof -
  let ?K = "drop_node (Sleep_node t) H" let ?L = "\<lambda>a. map_option (remove1 (Sleep_node t)) (lists_of q a)"
  have ne: "w \<noteq> Sleep_node t" "w \<noteq> Wait_node t" "w \<noteq> Ready_node t" "w \<noteq> Sleeping_head" "w \<noteq> Ready_queue p" using w(1) by auto
  have K: "clists ?K ?L" unfolding drop_node_def by (rule clists_remove_node [OF C]) simp
  have "drop_node (Sleep_node t) (H(w := c)) = ?K(w := c)"
  proof (cases "in_list (H (Sleep_node t))")
    case True
    then have "t \<in> set (sleepers q)" using sleep_node_in [OF C] by blast
    then have "clist_remove (H(w := c)) (Some (Sleep_node t)) = (clist_remove H (Some (Sleep_node t)))(w := c)"
      by (intro clist_remove_apart [OF C, of Sleeping_head]) (use w(2) ne in auto)
    then show ?thesis using True ne by (simp add: drop_node_def)
  qed (use ne in \<open>simp add: drop_node_def\<close>)
  moreover have "\<not> in_list (?K (Wait_node t))"
    using t notin_set_remove1 unfolding clists_in_list [OF K] clists_in_list [OF C] by fastforce
  ultimately have "F (H(w := c)) = clist_push_back (?K(w := c)) (Ready_queue p) (Ready_node t)" "F H = clist_push_back ?K (Ready_queue p) (Ready_node t)"
    using ne by (simp_all add: F_def drop_node_def [of "Wait_node t"])
  moreover have "clist_push_back (?K(w := c)) (Ready_queue p) (Ready_node t) = (clist_push_back ?K (Ready_queue p) (Ready_node t))(w := c)"
    by (rule clist_push_back_apart [OF K]) (use p w(2) ne in auto)
  ultimately show ?thesis by simp
qed

lemma lists_of_wq: "is_wq w \<Longrightarrow> waiters q w = Some ts \<Longrightarrow> lists_of q w = Some (map Wait_node ts)"
  by (cases w) auto

lemma drain_wq_step:
  assumes ok: "sched_ok (s\<lparr>nodes := closed (nodes s) w (map Wait_node (t # us))\<rparr>) q" and wq: "waiters q w = Some (t # us)"
    and pk: "parked (tasks s) t" and h: "\<not> in_list (nodes s w)"
  defines "s2 \<equiv> made_ready t (upd_nodes (\<lambda>h. clist_remove h (Some (Wait_node t))) s)" and "q2 \<equiv> enq t (t_prio (tasks s t)) (awake t q)"
  shows "nxt (nodes s (Wait_node t)) = hd (map Wait_node us @ [w])" and "sched_ok (s2\<lparr>nodes := closed (nodes s2) w (map Wait_node us)\<rparr>) q2"
    and "waiters q2 w = Some us" and "\<not> in_list (nodes s2 w)" and "us = [] \<Longrightarrow> closed (nodes s2) w [] = nodes s2"
proof -
  let ?us = "map Wait_node us" let ?S = "s\<lparr>nodes := closed (nodes s) w (Wait_node t # ?us)\<rparr>"
  have C: "clists (closed (nodes s) w (Wait_node t # ?us)) (lists_of q)" using sched_okD(1) [OF ok] by simp
  have i: "is_wq w" using sched_okD(6) [OF ok wq] .
  note l = lists_of_wq [OF i wq, simplified]
  have d: "distinct (t # us)" by (rule queues_distinct(3) [OF C i wq])
  have w: "w \<noteq> Wait_node t" using i by auto
  show "nxt (nodes s (Wait_node t)) = hd (?us @ [w])" using clists_neighbours(1) [OF C, of w "[Wait_node t]" ?us] l w by (simp add: closed_off)
  let ?h = "clist_remove (nodes s) (Some (Wait_node t))" let ?K = "closed ?h w ?us"
  note o1 = remove_open_first [OF C l]
  let ?q = "q\<lparr>waiters := (waiters q)(w \<mapsto> us)\<rparr>" let ?S1 = "s\<lparr>nodes := ?K\<rparr>"
  have lq: "lists_of ?q = (lists_of q)(w \<mapsto> ?us)"
  proof
    fix a show "lists_of ?q a = ((lists_of q)(w \<mapsto> ?us)) a" using i by (cases a; cases w) auto
  qed
  have ok1: "sched_ok ?S1 ?q" using ok o1(2) wq by (auto simp: sched_ok_def lq)
  have st: "t_state (tasks s t) = SLEEPING \<or> t_state (tasks s t) = BLOCKED" and p: "t_prio (tasks s t) < PRIORITY_COUNT" using pk by (auto simp: parked_def)
  have others: "t \<notin> set ts" if "waiters q x = Some ts" "x \<noteq> w" for x ts
    using queues_distinct(4) [OF C i wq sched_okD(6) [OF ok that(1)] that(1)] that(2) by auto
  have aw: "awake t ?q = awake t q"
  proof -
    have "map_option (remove1 t) (waiters ?q x) = map_option (remove1 t) (waiters q x)" for x using wq d by (auto simp: remove1_idem)
    then show ?thesis unfolding awake_def by simp
  qed
  have "sched_ok (made_ready t ?S1) q2" using made_ready_ok [OF ok1, of t] st p aw by (simp add: q2_def)
  moreover show q2w: "waiters q2 w = Some us" using wq by (simp add: q2_def enq_def awake_def)
  have nw: "\<not> in_list (?K (Wait_node t))"
    unfolding wait_node_in [OF o1(2) [folded lq]] using d others by (auto split: if_splits)
  have hk: "?K(w := ?h w) = ?h" by (simp add: closed_def)
  have e: "nodes s2 = (nodes (made_ready t ?S1))(w := ?h w)"
    using made_ready_apart [OF o1(2) [folded lq] i _ nw p, of "?h w", unfolded hk] st
    by (simp add: s2_def made_ready_state upd_nodes_def lq)
  have "clists (nodes (made_ready t ?S1)) (lists_of q2)" using sched_okD(1) [OF calculation] .
  from closed_idem [OF this lists_of_wq [OF i q2w]] have k: "closed (nodes s2) w ?us = nodes (made_ready t ?S1)" using e by (auto simp: closed_def)
  moreover have "s2\<lparr>nodes := nodes (made_ready t ?S1)\<rparr> = made_ready t ?S1" using st by (simp add: s2_def made_ready_state upd_nodes_def)
  ultimately show "sched_ok (s2\<lparr>nodes := closed (nodes s2) w ?us\<rparr>) q2" by simp
  show "\<not> in_list (nodes s2 w)" using e o1(3) [OF h] by simp
  show "closed (nodes s2) w [] = nodes s2" if "us = []" using e fun_cong [OF o1(4) [OF h], of w] that by (simp add: closed_def)
qed

lemma drain_wq_loop:
  assumes "sched_ok (s\<lparr>nodes := closed (nodes s) w (map Wait_node us)\<rparr>) q" and "running s q" and "active s = Some a" and "waiters q w = Some us"
    and "\<forall>t \<in> set us. parked (tasks s) t \<and> t_prio (tasks s a) \<le> t_prio (tasks s t)" and "length us < n"
    and "\<not> in_list (nodes s w)" and "us = [] \<longrightarrow> closed (nodes s) w [] = nodes s"
  shows "\<exists>s' q'. for_each_and_del_p n wake_up_waiting_cb w (hd (map Wait_node us @ [w])) s = Done () s' \<and>
    sched_ok s' q' \<and> running s' q' \<and> world_of s' q' = fold w_awake us (world_of s q)"
  using assms
proof (induction us arbitrary: n s q)
  case Nil
  then show ?case by (cases n) auto
next
  case (Cons t us)
  then obtain m where m: "n = Suc m" "length us < m" by (cases n) auto
  let ?s1 = "upd_nodes (\<lambda>h. clist_remove h (Some (Wait_node t))) s" let ?s2 = "made_ready t ?s1" let ?q = "enq t (t_prio (tasks s t)) (awake t q)"
  have pk: "parked (tasks s) t" using Cons.prems(5) by simp
  note D = drain_wq_step [OF Cons.prems(1,4) pk Cons.prems(7)]
  have st: "t_state (tasks ?s1 t) = SLEEPING \<or> t_state (tasks ?s1 t) = BLOCKED" and p: "t_prio (tasks s t) < PRIORITY_COUNT" using pk by (auto simp: parked_def upd_nodes_def)
  have "running ?s1 q" using Cons.prems(2) by (simp add: running_def upd_nodes_def)
  note R = made_ready_running [OF this st, of a]
  have r: "running ?s2 ?q" "scheduler_ready_task t ?s1 = Done () ?s2" using R Cons.prems(3,5) by (simp_all add: upd_nodes_def)
  have iw: "is_wq w" using sched_okD(6) [OF Cons.prems(1,4)] .
  have step: "for_each_and_del_p n wake_up_waiting_cb w (Wait_node t) s = for_each_and_del_p m wake_up_waiting_cb w (hd (map Wait_node us @ [w])) ?s2"
    using D(1) r(2) iw by (auto simp: m(1) Let_def wake_up_waiting_cb_def)
  have tn: "t \<notin> set us" using queues_distinct(3) [OF sched_okD(1) [OF Cons.prems(1)] iw Cons.prems(4)] by simp
  have tk: "tasks ?s2 = (tasks s)(t := (tasks s t)\<lparr>t_state := RUNNING\<rparr>)" "active ?s2 = active s" using st by (simp_all add: made_ready_state upd_nodes_def)
  have "t_prio (tasks ?s2 u) = t_prio (tasks s u)" for u by (simp add: tk)
  moreover have "parked (tasks ?s2) u" if "u \<in> set us" for u using that tn Cons.prems(5) by (auto simp: tk parked_def)
  ultimately have "\<forall>u \<in> set us. parked (tasks ?s2) u \<and> t_prio (tasks ?s2 a) \<le> t_prio (tasks ?s2 u)" using Cons.prems(5) by auto
  then obtain s' q' where "for_each_and_del_p m wake_up_waiting_cb w (hd (map Wait_node us @ [w])) ?s2 = Done () s'" "sched_ok s' q'" "running s' q'"
    "world_of s' q' = fold w_awake us (world_of ?s2 ?q)"
    using Cons.IH [OF D(2) r(1) _ D(3) _ m(2) D(4)] D(5) Cons.prems(3) tk(2) by auto
  moreover have "world_of ?s2 ?q = w_awake t (world_of s q)"
    using world_of_made_ready [OF st, of q] p by (simp add: upd_nodes_def world_of_def)
  ultimately show ?case using step by auto
qed

lemma scheduler_wake_waiting_queue_acts:
  assumes ok: "sched_ok s q" and run: "running s q" and a: "active s = Some a" and w: "waiters q w = Some us" "\<forall>u. w \<noteq> Zombies u"
    and p: "\<forall>t \<in> set us. t_prio (tasks s a) \<le> t_prio (tasks s t)" and n: "length us < n"
  shows "acts (scheduler_wake_waiting_queue n w s) () (fold w_awake us (world_of s q))"
  unfolding scheduler_wake_waiting_queue_def
proof (rule acts_irq)
  let ?s = "s\<lparr>irq := False\<rparr>" let ?i = "wq_init w ?s"
  have i: "is_wq w" using sched_okD(6) [OF ok w(1)] .
  note l = lists_of_wq [OF i w(1)]
  have pk: "parked (tasks s) t" if "t \<in> set us" for t using sched_okD(11) [OF ok w(1) that] w(2) by (cases w) auto
  have c: "closed (nodes ?i) w (map Wait_node us) = nodes s"
    using closed_init [of "nodes s" w] closed_idem [OF sched_okD(1) [OF ok] l] by (simp add: wq_init_def upd_nodes_def)
  have "sched_ok (?i\<lparr>nodes := closed (nodes ?i) w (map Wait_node us)\<rparr>) q" "running ?i q"
    unfolding c using ok run by (simp_all add: wq_init_def upd_nodes_def sched_ok_def running_def)
  moreover have "\<not> in_list (nodes ?i w)" "closed (nodes ?i) w [] = nodes ?i"
    by (simp_all add: wq_init_def upd_nodes_def init_node_fields closed_init_Nil)
  moreover have "nxt (nodes s w) = hd (map Wait_node us @ [w])" using clists_neighbours(1) [OF sched_okD(1) [OF ok], of w "[]" "map Wait_node us"] l by simp
  moreover have "world_of ?i q = world_of s q" "tasks ?i = tasks s" "active ?i = Some a" using a by (simp_all add: wq_init_def upd_nodes_def world_of_def)
  ultimately show "acts (wq_for_each_and_del n w wake_up_waiting_cb ?s) () (fold w_awake us (world_of s q))"
    using drain_wq_loop [of ?i w us q a n] w(1) p pk n by (auto simp: wq_for_each_and_del_def sinv_def)
qed

section \<open>The scheduler implements its specification\<close>

datatype sched_call =
    Admit tid
  | Make_ready tid
  | Rotate
  | Sleep_for u32
  | Block_on knode
  | Block_on_locked knode sync_id
  | Block_for knode u32
  | Wake_sleeping nat
  | Wake_waiting nat knode
  | Disable_preempt
  | Enable_preempt

fun sched_run :: "sched_call \<Rightarrow> ksys \<Rightarrow> (ksys, unit) proc" where
  "sched_run (Admit t) s = scheduler_admit t s"
| "sched_run (Make_ready t) s = scheduler_ready_task t s"
| "sched_run Rotate s = scheduler_rotate s"
| "sched_run (Sleep_for n) s = scheduler_sleep n s"
| "sched_run (Block_on x) s = scheduler_block_on x s"
| "sched_run (Block_on_locked x l) s = scheduler_block_on_locked x l s"
| "sched_run (Block_for x n) s = scheduler_block_on_with_timeout x n s"
| "sched_run (Wake_sleeping n) s = scheduler_wake_sleeping n s"
| "sched_run (Wake_waiting n x) s = scheduler_wake_waiting_queue n x s"
| "sched_run Disable_preempt s = Done () (scheduler_disable_preempt s)"
| "sched_run Enable_preempt s = scheduler_enable_preempt s"

text \<open>
  When a call is allowed: a task is admitted once, a task that is woken sleeps or is blocked, the idle task
  does not block, nobody blocks while preemption is off but for the lock that the call releases, and the daemon that wakes sleepers is of
  the highest priority, as the kernel starts it.  A wait queue is woken by a task that none of its waiters preempts, so that the walk over
  the queue is not interrupted, and the zombies of a task are not woken.
\<close>

fun sched_pre :: "sched_call \<Rightarrow> tid \<Rightarrow> ksys \<Rightarrow> world \<Rightarrow> bool" where
  "sched_pre (Admit t) a s w = (t_state (tasks s t) = READY \<and> t_prio (tasks s t) < PRIORITY_COUNT \<and> t \<notin> w_ready w)"
| "sched_pre (Make_ready t) a s w = ((t_state (tasks s t) = SLEEPING \<or> t_state (tasks s t) = BLOCKED) \<and> t_prio (tasks s t) < PRIORITY_COUNT)"
| "sched_pre Rotate a s w = True"
| "sched_pre (Sleep_for n) a s w = (t_prio (tasks s a) \<noteq> IDLE \<and> w_count w = 0)"
| "sched_pre (Block_on x) a s w = (t_prio (tasks s a) \<noteq> IDLE \<and> w_count w = 0 \<and> w_wait w x \<noteq> None)"
| "sched_pre (Block_on_locked x l) a s w = (t_prio (tasks s a) \<noteq> IDLE \<and> w_count w = 1 \<and> w_wait w x \<noteq> None)"
| "sched_pre (Block_for x n) a s w = (t_prio (tasks s a) \<noteq> IDLE \<and> w_count w = 0 \<and> w_wait w x \<noteq> None)"
| "sched_pre (Wake_sleeping n) a s w = (t_prio (tasks s a) = HIGH \<and> length (w_sleep w) < n)"
| "sched_pre (Wake_waiting n x) a s w =
    (case w_wait w x of None \<Rightarrow> False
     | Some us \<Rightarrow> length us < n \<and> (\<forall>u. x \<noteq> Zombies u) \<and> (\<forall>t \<in> set us. t_prio (tasks s a) \<le> t_prio (tasks s t)))"
| "sched_pre Disable_preempt a s w = (w_count w + 1 \<noteq> 0)"
| "sched_pre Enable_preempt a s w = (w_count w \<noteq> 0)"

fun sched_spec :: "sched_call \<Rightarrow> tid \<Rightarrow> ksys \<Rightarrow> world \<Rightarrow> world" where
  "sched_spec (Admit t) a s w = w\<lparr>w_ready := insert t (w_ready w)\<rparr>"
| "sched_spec (Make_ready t) a s w = w_awake t w"
| "sched_spec Rotate a s w = w"
| "sched_spec (Sleep_for n) a s w = w_sleep_on a (doze a (task_sleep a n s) (w_sleep w)) w"
| "sched_spec (Block_on x) a s w = w_block a x w"
| "sched_spec (Block_on_locked x l) a s w = (w_block a x w)\<lparr>w_slock := (w_slock w)(l := False), w_count := 0\<rparr>"
| "sched_spec (Block_for x n) a s w = (w_block a x w)\<lparr>w_sleep := (if 0 < n then doze a (task_sleep a n s) (w_sleep w) else w_sleep w)\<rparr>"
| "sched_spec (Wake_sleeping n) a s w = fold w_awake (filter (due s (time_seconds s)) (w_sleep w)) w"
| "sched_spec (Wake_waiting n x) a s w = fold w_awake (the (w_wait w x)) w"
| "sched_spec Disable_preempt a s w = w\<lparr>w_count := w_count w + 1\<rparr>"
| "sched_spec Enable_preempt a s w = w\<lparr>w_count := w_count w - 1\<rparr>"

lemma rotate_acts:
  assumes "sched_ok s q" and "running s q"
  shows "acts (scheduler_rotate s) () (world_of s q)"
proof (cases "preempt_count s = 0")
  case True
  then show ?thesis using scheduler_rotate_acts [OF assms(1)] assms(2) by (auto simp: running_def)
next
  case False
  then have "scheduler_rotate s = Done () s" by (simp add: scheduler_rotate_def word_gt_0)
  then show ?thesis using assms by (auto simp: sinv_def)
qed

lemma disable_acts:
  assumes "sched_ok s q" and "running s q" and "preempt_count s + 1 \<noteq> 0"
  shows "sinv ((world_of s q)\<lparr>w_count := preempt_count s + 1\<rparr>) (scheduler_disable_preempt s)"
proof -
  have "sched_ok (scheduler_disable_preempt s) q" "running (scheduler_disable_preempt s) q"
    "world_of (scheduler_disable_preempt s) q = (world_of s q)\<lparr>w_count := preempt_count s + 1\<rparr>"
    using assms by (simp add: scheduler_disable_preempt_def sched_ok_def, auto simp: scheduler_disable_preempt_def running_def world_of_def)
  then show ?thesis unfolding sinv_def by blast
qed

lemma world_of_sel [simp]:
  "w_ready (world_of s q) = ready_set q" "w_sleep (world_of s q) = sleepers q" "w_wait (world_of s q) = waiters q" "w_sem (world_of s q) = sem_count s"
  "w_locked (world_of s q) = m_locked s" "w_owner (world_of s q) = m_owner s" "w_slock (world_of s q) = slock s" "w_count (world_of s q) = preempt_count s"
  by (simp_all add: world_of_def)

lemmas scheduler_acts = scheduler_admit_acts scheduler_ready_task_acts rotate_acts scheduler_sleep_acts scheduler_block_on_acts
  scheduler_block_on_with_timeout_acts scheduler_wake_sleeping_acts scheduler_enable_preempt_acts disable_acts
  scheduler_block_on_locked_acts scheduler_wake_waiting_queue_acts

section \<open>A small system\<close>

lemma clists_fresh_heads:
  assumes "clists h L" and "distinct hs" and "\<forall>a \<in> set hs. \<not> in_list (h a) \<and> a \<notin> dom L"
  shows "clists (fold (\<lambda>a h. clist_init_node h a) hs h) (\<lambda>a. if a \<in> set hs then Some [] else L a)"
  using assms
proof (induction hs arbitrary: h L)
  case (Cons a hs)
  let ?L = "L(a \<mapsto> [])"
  have "clists (clist_init_node h a) ?L" using clists_init_head [OF Cons.prems(1)] Cons.prems(3) by simp
  moreover have "\<forall>b \<in> set hs. \<not> in_list (clist_init_node h a b) \<and> b \<notin> dom ?L"
    using Cons.prems(2,3) by (auto simp: init_node_fields)
  moreover have "distinct hs" using Cons.prems(2) by simp
  ultimately have "clists (fold (\<lambda>a h. clist_init_node h a) hs (clist_init_node h a)) (\<lambda>b. if b \<in> set hs then Some [] else ?L b)"
    using Cons.IH by blast
  moreover have "(\<lambda>b. if b \<in> set hs then Some [] else (L(a \<mapsto> [])) b) = (\<lambda>b. if b \<in> set (a # hs) then Some [] else L b)" by auto
  ultimately show ?case by (simp del: fun_upd_apply)
qed simp

text \<open>Task 1 is idle, tasks 2 and 3 are ready at the normal priority, 2 runs; nobody sleeps or waits.\<close>

definition demo_heads :: "knode list" where
  "demo_heads = [Ready_queue 0, Ready_queue 1, Ready_queue 2, Ready_queue 3, Sleeping_head, Task_head, Wait_queue (Sem 0), Wait_queue (Mutex 0)]"

definition demo_heap :: "knode heap" where
  "demo_heap = fold (\<lambda>(p, t) h. clist_push_back h (Ready_queue p) (Ready_node t)) [(3, 1), (1, 2), (1, 3)]
     (fold (\<lambda>a h. clist_init_node h a) demo_heads (\<lambda>n. \<lparr>nxt = n, prv = n, in_list = False\<rparr>))"

definition demo_empty :: squeues where
  "demo_empty = \<lparr>ready = (\<lambda>_. []), sleepers = [], waiters = [Wait_queue (Sem 0) \<mapsto> [], Wait_queue (Mutex 0) \<mapsto> []], table = []\<rparr>"

definition demo_queues :: squeues where
  "demo_queues = demo_empty\<lparr>ready := (\<lambda>_. [])(3 := [1], 1 := [2, 3])\<rparr>"

lemma demo_heap_clists: "clists demo_heap (lists_of demo_queues)"
proof -
  let ?h = "fold (\<lambda>a h. clist_init_node h a) demo_heads (\<lambda>n. \<lparr>nxt = n, prv = n, in_list = False\<rparr>)"
  have "(\<lambda>a. if a \<in> set demo_heads then Some [] else None) = lists_of demo_empty"
  proof
    fix a show "(if a \<in> set demo_heads then Some [] else None) = lists_of demo_empty a"
      by (cases a) (auto simp: demo_heads_def demo_empty_def PRIORITY_COUNT_def)
  qed
  moreover have "clists ?h (\<lambda>a. if a \<in> set demo_heads then Some [] else None)"
    by (rule clists_fresh_heads [OF clists_none]) (auto simp: demo_heads_def)
  ultimately have "clists ?h (lists_of demo_empty)" by simp
  then have 1: "clists (clist_push_back ?h (Ready_queue 3) (Ready_node 1)) (lists_of (enq 1 3 demo_empty))"
    by (rule clists_enq) (auto simp: demo_empty_def PRIORITY_COUNT_def)
  have 2: "clists (clist_push_back (clist_push_back ?h (Ready_queue 3) (Ready_node 1)) (Ready_queue 1) (Ready_node 2)) (lists_of (enq 2 1 (enq 1 3 demo_empty)))"
    by (rule clists_enq [OF 1]) (auto simp: demo_empty_def enq_def PRIORITY_COUNT_def)
  have "clists demo_heap (lists_of (enq 3 1 (enq 2 1 (enq 1 3 demo_empty))))"
    unfolding demo_heap_def fold.simps comp_def split_beta fst_conv snd_conv id_def
    by (rule clists_enq [OF 2]) (auto simp: demo_empty_def enq_def PRIORITY_COUNT_def)
  moreover have "enq 3 1 (enq 2 1 (enq 1 3 demo_empty)) = demo_queues" by (simp add: demo_queues_def enq_def demo_empty_def fun_eq_iff)
  ultimately show ?thesis by simp
qed

definition demo_task :: "nat \<Rightarrow> tstate \<Rightarrow> task" where
  "demo_task p st = \<lparr>t_pid = 0, t_tgid = 0, t_code = 0, t_name = [], t_state = st, t_ra = No_entry, t_sp = 0, t_root = 0, t_user = False,
    t_frame_pa = 0, t_frame_va = 0, t_wake = 0, t_parent = None, t_exit = 0, t_prio = p, t_fds = []\<rparr>"

definition demo_sys :: ksys where
  "demo_sys = \<lparr>disk = disk cold_isys, io_err = io_err cold_isys, bufs = bufs cold_isys, buf_list = [], sb = small_meta,
    islots = islots cold_isys, icache = icache cold_isys, mem = mem cold_isys, uroot = 0,
    root_i = 0, ftable = (\<lambda>_. \<lparr>f_refcnt = 0, f_inode = 0, f_off = 0, f_mode = 0, w_op = No_op, r_op = No_op\<rparr>), dev_map = (\<lambda>_. \<lparr>dev_w = No_op, dev_r = No_op\<rparr>), junk = [],
    nodes = demo_heap, tasks = (\<lambda>t. if t = 1 then demo_task IDLE READY else if t = 2 then demo_task NORMAL RUNNING else demo_task NORMAL READY),
    active = Some 2, next_pid = 4, active_task = 3, preempt_count = 0, need_resched = False, highest_ready_tracking = NORMAL, ticks = 40, irq = True,
    slock = (\<lambda>_. False), sem_count = (\<lambda>_. 0), m_locked = (\<lambda>_. False), m_owner = (\<lambda>_. None), kheap = \<lparr>free_b = [], used_b = [], fresh_b = [], top = 0, heap_limit = 0, heap_split_thresh = 16, heap_alignment = 8, heap_max_blocks = 0\<rparr>, kroot = 0, satp = 0, sstatus = 0,
    trampoline_start = 0, trampoline_end = 0\<rparr>"


lemma demo_ok:
  shows "sched_ok demo_sys demo_queues" and "running demo_sys demo_queues"
proof -
  have "clists (nodes demo_sys) (lists_of demo_queues)" using demo_heap_clists by (simp add: demo_sys_def)
  then show "sched_ok demo_sys demo_queues" unfolding sched_ok_def
    by (auto simp: demo_sys_def demo_queues_def demo_empty_def demo_task_def runnable_def layout_defs split: if_splits)
  show "running demo_sys demo_queues"
    by (auto simp: running_def demo_sys_def demo_queues_def demo_empty_def demo_task_def layout_defs)
qed

definition demo_world :: world where
  "demo_world = world_of demo_sys demo_queues"

lemma demo_sinv: "sinv demo_world demo_sys"
  unfolding sinv_def demo_world_def using demo_ok by blast

text \<open>
  C4: The scheduler calls of admission, waking one task, rotation, sleeping, blocking on a wait queue (plainly, releasing a spin lock, or with a
  timeout), waking the sleepers that are due, waking a wait queue, and turning preemption off and on, within the conditions of
  \<open>sched_pre\<close>, keep the queues well formed, and each does to the world what its specification says: it never fails or spins, whoever runs afterwards is a ready task of the highest priority
  unless preemption is off and a switch is noted as due, and code that was switched out returns, when it runs
  again, without a further change.
\<close>

theorem scheduler_refines:
  assumes "sinv w s" and "active s = Some a" and "sched_pre c a s w"
  shows "acts (sched_run c s) () (sched_spec c a s w)"
proof -
  obtain q where q: "sched_ok s q" "running s q" "world_of s q = w" using assms(1) by (auto simp: sinv_def)
  show ?thesis
  proof (cases c)
    case (Block_for x n)
    then obtain xs where x: "waiters q x = Some xs" using assms(3) q(3) by auto
    have "acts (scheduler_block_on_with_timeout x n s) ()
      ((w_block a x (world_of s q))\<lparr>w_sleep := (if 0 < n then doze a (task_sleep a n s) (sleepers q) else sleepers q)\<rparr>)"
      by (rule scheduler_acts(6) [OF q(1,2) assms(2) _ x]) (use assms(3) q(3) Block_for in auto)
    then show ?thesis using Block_for q(3) by auto
  next
    case (Block_on_locked x l)
    then obtain xs where x: "waiters q x = Some xs" using assms(3) q(3) by auto
    have "acts (scheduler_block_on_locked x l s) () ((w_block a x (world_of s q))\<lparr>w_slock := (slock s)(l := False), w_count := 0\<rparr>)"
      by (rule scheduler_acts(10) [OF q(1,2) assms(2) _ x]) (use assms(3) q(3) Block_on_locked in auto)
    then show ?thesis using Block_on_locked q(3) by auto
  next
    case (Wake_waiting n x)
    then obtain us where x: "waiters q x = Some us" using assms(3) q(3) by (auto split: option.splits)
    have "acts (scheduler_wake_waiting_queue n x s) () (fold w_awake us (world_of s q))"
      by (rule scheduler_acts(11) [OF q(1,2) assms(2) x]) (use assms(3) q(3) Wake_waiting x in auto)
    then show ?thesis using Wake_waiting q(3) x by auto
  qed (use assms(2,3) q(3) scheduler_acts(1-5,7-9) [OF q(1,2)] in auto)
qed

theorem scheduler_refines_witness:
  "acts (scheduler_sleep 5 demo_sys) () (w_sleep_on 2 [2] demo_world)"
proof -
  have "sched_pre (Sleep_for 5) 2 demo_sys demo_world" by (simp add: demo_world_def demo_sys_def demo_task_def layout_defs)
  moreover have "active demo_sys = Some 2" by (simp add: demo_sys_def)
  moreover have "w_sleep demo_world = []" by (simp add: demo_world_def demo_queues_def demo_empty_def)
  ultimately show ?thesis using scheduler_refines [OF demo_sinv, of 2 "Sleep_for 5"] by (simp add: doze_def)
qed

section \<open>Round robin\<close>

text \<open>The state after the given number of time slices, each ended by a rotation.\<close>

fun landed :: "(ksys, unit) proc \<Rightarrow> ksys option" where
  "landed (Done _ s) = Some s"
| "landed (Switch s _) = Some s"
| "landed _ = None"

fun slices :: "nat \<Rightarrow> ksys \<Rightarrow> ksys option" where
  "slices 0 s = Some s"
| "slices (Suc n) s = Option.bind (landed (scheduler_rotate s)) (slices n)"

lemma one_slice:
  assumes ok: "sched_ok s q" and run: "running s q" and c: "preempt_count s = 0"
  defines "h \<equiv> highest_ready_tracking s"
  shows "\<exists>s'. landed (scheduler_rotate s) = Some s' \<and> sched_ok s' (turn h q) \<and> running s' (turn h q) \<and> preempt_count s' = 0 \<and>
    highest_ready_tracking s' = h \<and> active s' = Some (hd (rotate1 (ready q h)))"
proof -
  let ?s = "s\<lparr>irq := False\<rparr>" let ?t = "hd (rotate1 (ready q h))" let ?q = "turn h q"
  have nr: "\<not> need_resched s" "ready q h \<noteq> []" using run c by (auto simp: running_def h_def)
  obtain a where a: "active s = Some a" using run by (auto simp: running_def)
  obtain N where N: "rotate_ready_queue (pick_highest ?s) ?s = (Some ?t, ?s\<lparr>nodes := N\<rparr>)" "sched_ok (?s\<lparr>nodes := N\<rparr>) ?q"
    using rotate_ready_queue_state [of ?s q] ok nr(2) by (auto simp: h_def)
  have t: "?t \<in> set (ready ?q h)" using nr(2) by (metis hd_in_set rotate1_is_Nil_conv set_ready_turn set_rotate1)
  have h: "h < PRIORITY_COUNT" using sched_okD(9) [OF ok] by (simp add: h_def)
  show ?thesis
  proof (cases "?t = a")
    case False
    let ?s1 = "switched a ?t (?s\<lparr>nodes := N\<rparr>)"
    have "landed (scheduler_rotate s) = Some ?s1" using False N(1) a c
      by (simp add: scheduler_rotate_def with_irq_off_def irq_save_state do_ctx_switch_state)
    moreover have "sched_ok ?s1 ?q" by (rule switched_ok [OF N(2) h t])
    moreover have "running ?s1 ?q" by (rule switched_running [OF N(2) h t]) (simp_all add: h_def nr)
    ultimately show ?thesis using c by (simp add: h_def)
  next
    case True
    let ?s1 = "?s\<lparr>nodes := N, irq := irq s\<rparr>"
    have "landed (scheduler_rotate s) = Some ?s1" using True N(1) a c
      by (cases s) (simp add: scheduler_rotate_def with_irq_off_def irq_save_state irq_restore_state)
    moreover have "sched_ok ?s1 ?q" using N(2) by (simp add: sched_ok_def)
    moreover have "running ?s1 ?q" using run by (simp add: running_def)
    ultimately show ?thesis using c True a by (simp add: h_def)
  qed
qed

lemma slices_rotate:
  assumes "sched_ok s q" and "running s q" and "preempt_count s = 0"
  shows "\<exists>s'. slices (Suc n) s = Some s' \<and> active s' = Some (hd (rotate (Suc n) (ready q (highest_ready_tracking s))))"
  using assms
proof (induction n arbitrary: s q)
  case 0
  then show ?case using one_slice [OF 0] by auto
next
  case (Suc n)
  obtain s1 where s1: "landed (scheduler_rotate s) = Some s1" "sched_ok s1 (turn (highest_ready_tracking s) q)"
    "running s1 (turn (highest_ready_tracking s) q)" "preempt_count s1 = 0" "highest_ready_tracking s1 = highest_ready_tracking s"
    using one_slice [OF Suc.prems] by blast
  have "ready (turn (highest_ready_tracking s) q) (highest_ready_tracking s1) = rotate1 (ready q (highest_ready_tracking s))"
    by (simp add: turn_def s1(5))
  moreover have "rotate (Suc n) (rotate1 xs) = rotate (Suc (Suc n)) xs" for xs :: "tid list" by (simp add: rotate1_rotate_swap)
  ultimately show ?case using Suc.IH [OF s1(2-4)] s1(1) by (simp only: slices.simps(2) [of "Suc n"] Option.bind.simps)
qed

text \<open>
  C11: Round robin: while no task blocks or becomes ready, every task of the highest ready priority gets
  the processor within as many time slices as there are such tasks, in the order of the queue.
\<close>

theorem round_robin:
  assumes "sched_ok s q" and "running s q" and "preempt_count s = 0"
  shows "let xs = ready q (highest_ready_tracking s) in
    (\<forall>n > 0. \<exists>s'. slices n s = Some s' \<and> active s' = Some (xs ! (n mod length xs))) \<and>
    (\<forall>t \<in> set xs. \<exists>n s'. 0 < n \<and> n \<le> length xs \<and> slices n s = Some s' \<and> active s' = Some t)"
proof -
  let ?xs = "ready q (highest_ready_tracking s)"
  have ne: "?xs \<noteq> []" using assms(2) by (auto simp: running_def)
  have a: "\<exists>s'. slices n s = Some s' \<and> active s' = Some (?xs ! (n mod length ?xs))" if "0 < n" for n
    using slices_rotate [OF assms, of "n - 1"] that hd_rotate_conv_nth [OF ne, of n] by simp
  have "\<exists>n s'. 0 < n \<and> n \<le> length ?xs \<and> slices n s = Some s' \<and> active s' = Some t" if m: "t \<in> set ?xs" for t
  proof -
    obtain i where i: "i < length ?xs" "?xs ! i = t" using m by (auto simp: in_set_conv_nth)
    let ?n = "if i = 0 then length ?xs else i"
    have n: "0 < ?n" "?n \<le> length ?xs" "?n mod length ?xs = i" using i(1) ne by auto
    then show ?thesis using a [OF n(1)] n i(2) by metis
  qed
  then show ?thesis using a by (simp add: Let_def)
qed

theorem round_robin_witness:
  "\<exists>s'. slices 1 demo_sys = Some s' \<and> active s' = Some 3"
proof -
  have "ready demo_queues (highest_ready_tracking demo_sys) = [2, 3]" "preempt_count demo_sys = 0"
    by (simp_all add: demo_queues_def demo_empty_def demo_sys_def NORMAL_def)
  then show ?thesis using round_robin [OF demo_ok] by (auto simp: Let_def dest: spec [of _ 1])
qed

end
