(* ===== verification/Locks.thy ===== *)
theory Locks
  imports Prelude Clist Sched Sync Queues
begin

text \<open>
  Semaphores and mutexes against the promises of the scheduler: what each operation does to the world, and that a
  mutex excludes.
\<close>

section \<open>Taking a spin lock\<close>

text \<open>The state in which a spin lock was free and is taken: preemption is off, interrupts may be.\<close>

definition lock_taken :: "sync_id \<Rightarrow> ksys \<Rightarrow> ksys" where
  "lock_taken l s = s\<lparr>preempt_count := preempt_count s + 1, slock := (slock s)(l := True)\<rparr>"

lemma spinlock_lock_held: "\<not> slock s l \<Longrightarrow> spinlock_lock l s = Done () (lock_taken l s)"
  by (simp add: spinlock_lock_def scheduler_disable_preempt_def lock_taken_def)

lemma lock_taken_ok:
  assumes "sched_ok s q" and "running s q" and "preempt_count s = 0"
  shows "sched_ok (lock_taken l s) q" and "running (lock_taken l s) q" and "preempt_count (lock_taken l s) = 1"
  using assms by (simp add: lock_taken_def sched_ok_def, auto simp: lock_taken_def running_def)

text \<open>The end of a section under a lock: the world is the one reached inside, with the lock free.\<close>

lemma unlock_held:
  assumes "sched_ok s q" and "running s q" and "preempt_count s = 1"
  shows "acts (spinlock_unlock l s) () ((world_of s q)\<lparr>w_slock := (slock s)(l := False), w_count := 0\<rparr>)"
  using spinlock_unlock_acts [OF assms] .

text \<open>Inside a section preemption is off, so readying a task never switches.\<close>

lemma ready_task_delayed:
  assumes ok: "sched_ok s q" and run: "running s q" and t: "parked (tasks s) t" and c: "preempt_count s = 1"
  shows "\<exists>s' q'. scheduler_ready_task t s = Done () s' \<and> sched_ok s' q' \<and> running s' q' \<and> world_of s' q' = w_awake t (world_of s q)"
proof -
  have "acts (scheduler_ready_task t s) () (w_awake t (world_of s q))"
    using scheduler_ready_task_acts [OF ok run] t by (simp add: parked_def)
  moreover have "w_count (w_awake t (world_of s q)) \<noteq> 0" using c by (simp add: w_awake_def)
  ultimately show ?thesis by (cases "scheduler_ready_task t s") (auto simp: sinv_def)
qed

section \<open>Semaphores\<close>

lemma pop_waiter:
  assumes ok: "sched_ok s q" and w: "waiters q x = Some (t # ts)"
  defines "h \<equiv> snd (clist_pop_front (nodes s) x)"
  shows "wq_pop_head x s = (Some (Wait_node t), s\<lparr>nodes := h\<rparr>)" and "sched_ok (s\<lparr>nodes := h\<rparr>) (q\<lparr>waiters := (waiters q)(x \<mapsto> ts)\<rparr>)"
proof -
  let ?q = "q\<lparr>waiters := (waiters q)(x \<mapsto> ts)\<rparr>" let ?h = "snd (clist_pop_front (nodes s) x)"
  have wq: "is_wq x" using sched_okD(6) [OF ok w] .
  have l: "lists_of q x = Some (map Wait_node (t # ts))" using wq w by (cases x) auto
  have "(lists_of q)(x \<mapsto> map Wait_node ts) = lists_of ?q"
  proof
    fix a show "((lists_of q)(x \<mapsto> map Wait_node ts)) a = lists_of ?q a" using wq by (cases a; cases x) auto
  qed
  then have c: "clists ?h (lists_of ?q)" using clists_pop_front(2) [OF sched_okD(1) [OF ok] l] by simp
  then show "sched_ok (s\<lparr>nodes := h\<rparr>) ?q" using ok w unfolding sched_ok_def h_def by (auto split: if_splits)
  show "wq_pop_head x s = (Some (Wait_node t), s\<lparr>nodes := h\<rparr>)" unfolding h_def
    using clists_pop_front(1) [OF sched_okD(1) [OF ok] l] by (simp add: wq_pop_head_def split_beta Let_def)
qed

lemma waiters_empty:
  assumes "sched_ok s q" and "waiters q x = Some ts"
  shows "wq_is_empty s x \<longleftrightarrow> ts = []"
proof -
  have "lists_of q x = Some (map Wait_node ts)" using sched_okD(6) [OF assms] assms(2) by (cases x) auto
  then show ?thesis using clists_empty_iff [OF sched_okD(1) [OF assms(1)]] by (simp add: wq_is_empty_def)
qed

text \<open>A waiter taken out of its queue waits nowhere else.\<close>

lemma awake_popped:
  assumes ok: "sched_ok s q" and w: "waiters q x = Some (t # ts)"
  shows "(\<lambda>y. map_option (remove1 t) (((waiters q)(x \<mapsto> ts)) y)) = (waiters q)(x \<mapsto> ts)"
proof
  fix y
  note d = queues_distinct(3,4) [OF sched_okD(1) [OF ok] sched_okD(6) [OF ok w] w]
  have "t \<notin> set us" if "waiters q y = Some us" "y \<noteq> x" for us
    using d(2) [OF sched_okD(6) [OF ok that(1)] that(1)] that(2) by auto
  then show "map_option (remove1 t) (((waiters q)(x \<mapsto> ts)) y) = ((waiters q)(x \<mapsto> ts)) y"
    using d(1) by (cases "waiters q y") (auto simp: remove1_idem)
qed

text \<open>The specification: a counter, and a queue that is served first in, first out.\<close>

definition hand_over :: "knode \<Rightarrow> tid \<Rightarrow> tid list \<Rightarrow> world \<Rightarrow> world" where
  "hand_over x t ts w = w\<lparr>w_ready := insert t (w_ready w), w_sleep := remove1 t (w_sleep w), w_wait := (w_wait w)(x \<mapsto> ts)\<rparr>"

definition spec_try_take :: "nat \<Rightarrow> world \<Rightarrow> int \<times> world" where
  "spec_try_take k w = (if 0 < sint (w_sem w k) then (0, w\<lparr>w_sem := (w_sem w)(k := w_sem w k - 1)\<rparr>) else (- EAGAIN, w))"

definition spec_wait :: "nat \<Rightarrow> tid \<Rightarrow> world \<Rightarrow> world" where
  "spec_wait k a w = (if 0 < sint (w_sem w k) then w\<lparr>w_sem := (w_sem w)(k := w_sem w k - 1)\<rparr> else w_block a (Wait_queue (Sem k)) w)"

definition spec_post :: "nat \<Rightarrow> world \<Rightarrow> world" where
  "spec_post k w =
    (case w_wait w (Wait_queue (Sem k)) of
       Some (t # ts) \<Rightarrow> hand_over (Wait_queue (Sem k)) t ts w
     | _ \<Rightarrow> w\<lparr>w_sem := (w_sem w)(k := w_sem w k + 1)\<rparr>)"

text \<open>A state with no lock held in which the semaphore or mutex exists.\<close>

definition open_world :: "sync_id \<Rightarrow> world \<Rightarrow> bool" where
  "open_world l w \<longleftrightarrow> w_count w = 0 \<and> \<not> w_slock w l \<and> w_wait w (Wait_queue l) \<noteq> None"

lemma handed_over:
  assumes ok: "sched_ok s q" and run: "running s q" and c: "preempt_count s = 1" and w: "waiters q (Wait_queue l) = Some (t # ts)"
  defines "h \<equiv> snd (clist_pop_front (nodes s) (Wait_queue l))"
  shows "\<exists>s' q'. scheduler_ready_task t (s\<lparr>nodes := h\<rparr>) = Done () s' \<and> sched_ok s' q' \<and> running s' q' \<and>
    world_of s' q' = hand_over (Wait_queue l) t ts (world_of s q)"
proof -
  let ?x = "Wait_queue l" let ?q = "q\<lparr>waiters := (waiters q)(?x \<mapsto> ts)\<rparr>"
  have h: "sched_ok (s\<lparr>nodes := h\<rparr>) ?q" using pop_waiter(2) [OF ok w] by (simp add: h_def)
  have p: "parked (tasks (s\<lparr>nodes := h\<rparr>)) t" using sched_okD(11) [OF ok w] by simp
  have r: "running (s\<lparr>nodes := h\<rparr>) ?q" using run by (simp add: running_def)
  obtain s' q' where s': "scheduler_ready_task t (s\<lparr>nodes := h\<rparr>) = Done () s'" "sched_ok s' q'" "running s' q'"
    "world_of s' q' = w_awake t (world_of (s\<lparr>nodes := h\<rparr>) ?q)" using ready_task_delayed [OF h r p] c by auto
  have "w_awake t (world_of (s\<lparr>nodes := h\<rparr>) ?q) = hand_over ?x t ts (world_of s q)"
    using awake_popped [OF ok w] by (simp add: w_awake_def hand_over_def world_of_def ready_set_def)
  then show ?thesis using s' by auto
qed

lemma unlock_irq_held:
  assumes "sched_ok s q" and "running s q" and "preempt_count s = 1"
  shows "acts (spinlock_unlock_irq_restore l fl s) () ((world_of s q)\<lparr>w_slock := (slock s)(l := False), w_count := 0\<rparr>)"
  unfolding spinlock_unlock_irq_restore_def by (rule acts_bindp [OF unlock_held [OF assms]]) (simp add: irq_restore_state)

lemma lock_irq_held:
  "\<not> slock s l \<Longrightarrow> spinlock_lock_irq_save l s = Done (irq s) (lock_taken l (s\<lparr>irq := False\<rparr>))"
  by (simp add: spinlock_lock_irq_save_def irq_save_state spinlock_lock_held)

lemma sinvE:
  assumes "sinv w s" and "open_world l w"
  obtains q ts where "sched_ok s q" "running s q" "world_of s q = w" "preempt_count s = 0" "\<not> slock s l" "waiters q (Wait_queue l) = Some ts"
  using assms unfolding sinv_def open_world_def by auto

lemma lock_taken_fields [simp]:
  "sem_count (lock_taken l s) = sem_count s" "m_locked (lock_taken l s) = m_locked s" "m_owner (lock_taken l s) = m_owner s" "active (lock_taken l s) = active s"
  "tasks (lock_taken l s) = tasks s" "nodes (lock_taken l s) = nodes s" "slock (lock_taken l s) = (slock s)(l := True)"
  by (simp_all add: lock_taken_def)

text \<open>The world inside a section with the lock given back is the world before, but for what the section changed.\<close>

lemma world_unheld: "\<not> slock s l \<Longrightarrow> preempt_count s = 0 \<Longrightarrow>
    (world_of (lock_taken l s) q)\<lparr>w_slock := ((slock s)(l := True))(l := False), w_count := 0\<rparr> = world_of s q"
  by (simp add: world_of_def lock_taken_def fun_upd_idem)

definition with_sem :: "(nat \<Rightarrow> 32 word) \<Rightarrow> ksys \<Rightarrow> ksys" where
  "with_sem f s = s\<lparr>sem_count := f\<rparr>"

lemma with_sem_ok:
  assumes "sched_ok s q" and "running s q"
  shows "sched_ok (with_sem f s) q" and "running (with_sem f s) q" and "world_of (with_sem f s) q = (world_of s q)\<lparr>w_sem := f\<rparr>"
  using assms by (simp_all add: with_sem_def sched_ok_def running_def world_of_def)

lemma leave_sem:
  assumes "sched_ok s q" and "running s q" and "preempt_count s = 0" and "\<not> slock s l"
  shows "acts (spinlock_unlock_irq_restore l fl (with_sem f (lock_taken l (s\<lparr>irq := False\<rparr>)))) () ((world_of s q)\<lparr>w_sem := f\<rparr>)"
proof -
  let ?s = "s\<lparr>irq := False\<rparr>" let ?h = "lock_taken l ?s"
  have p: "sched_ok ?s q" "running ?s q" "preempt_count ?s = 0" using assms(1-3) by simp_all
  note h = lock_taken_ok [OF p, of l]
  have "acts (spinlock_unlock_irq_restore l fl (with_sem f ?h)) () ((world_of (with_sem f ?h) q)\<lparr>w_slock := (slock (with_sem f ?h))(l := False), w_count := 0\<rparr>)"
    by (rule unlock_irq_held [OF with_sem_ok(1,2) [OF h(1,2)]]) (simp add: with_sem_def h(3))
  moreover have "(world_of (with_sem f ?h) q)\<lparr>w_slock := (slock (with_sem f ?h))(l := False), w_count := 0\<rparr> = (world_of s q)\<lparr>w_sem := f\<rparr>"
    using assms(3,4) by (simp add: world_of_def with_sem_def fun_upd_idem)
  ultimately show ?thesis by simp
qed

lemma with_sem_same: "with_sem (sem_count s) s = s"
  by (cases s) (simp add: with_sem_def)

lemma sem_try_take_unlocked_state:
  "sem_try_take_unlocked k s = (if 0 < sint (sem_count s k) then (0, with_sem ((sem_count s)(k := sem_count s k - 1)) s) else (- EAGAIN, s))"
  by (simp add: sem_try_take_unlocked_def with_sem_def not_less)

lemma sem_try_take_acts:
  assumes "sinv w s" and "open_world (Sem k) w"
  shows "acts (sem_try_take k s) (fst (spec_try_take k w)) (snd (spec_try_take k w))"
proof -
  obtain q ts where q: "sched_ok s q" "running s q" "world_of s q = w" "preempt_count s = 0" "\<not> slock s (Sem k)" using sinvE [OF assms] .
  let ?h = "lock_taken (Sem k) (s\<lparr>irq := False\<rparr>)"
  have c: "w_sem w k = sem_count s k" "w_sem w = sem_count s" using q(3) by auto
  have v: "acts (bindp m (\<lambda>_. Done v)) v w'" if "acts m () w'" for m v w' using acts_bindp [OF that, of "\<lambda>_. Done v" v] by simp
  show ?thesis
  proof (cases "0 < sint (sem_count s k)")
    case True
    then show ?thesis using v [OF leave_sem [OF q(1,2,4,5), of "irq s" "(sem_count s)(k := sem_count s k - 1)"]] c q(3,5)
      by (simp add: sem_try_take_def lock_irq_held sem_try_take_unlocked_state spec_try_take_def)
  next
    case False
    have "with_sem (sem_count s) ?h = ?h" using with_sem_same [of ?h] by simp
    moreover have e: "(world_of s q)\<lparr>w_sem := sem_count s\<rparr> = w" using q(3) by (auto simp: world_of_def)
    ultimately show ?thesis using v [OF leave_sem [OF q(1,2,4,5), of "irq s" "sem_count s", unfolded e]] False c q(3,5)
      by (simp add: sem_try_take_def lock_irq_held sem_try_take_unlocked_state spec_try_take_def)
  qed
qed

lemma block_held:
  assumes "sched_ok s q" and "running s q" and "preempt_count s = 0" and "\<not> slock s l" and "active s = Some a" and "t_prio (tasks s a) \<noteq> IDLE"
    and "waiters q (Wait_queue l) = Some ts"
  shows "acts (scheduler_block_on_locked (Wait_queue l) l (lock_taken l s)) () (w_block a (Wait_queue l) (world_of s q))"
proof -
  note h = lock_taken_ok [OF assms(1-3), of l]
  have "acts (scheduler_block_on_locked (Wait_queue l) l (lock_taken l s)) ()
    ((w_block a (Wait_queue l) (world_of (lock_taken l s) q))\<lparr>w_slock := (slock (lock_taken l s))(l := False), w_count := 0\<rparr>)"
    by (rule scheduler_block_on_locked_acts [OF h(1,2) _ _ assms(7) h(3)]) (use assms(5,6) in simp_all)
  moreover have "(w_block a (Wait_queue l) (world_of (lock_taken l s) q))\<lparr>w_slock := (slock (lock_taken l s))(l := False), w_count := 0\<rparr> = w_block a (Wait_queue l) (world_of s q)"
    using assms(3,4) by (simp add: world_of_def w_block_def fun_upd_idem)
  ultimately show ?thesis by simp
qed

lemma sem_wait_acts:
  assumes "sinv w s" and "open_world (Sem k) w" and a: "active s = Some a" "t_prio (tasks s a) \<noteq> IDLE"
  shows "acts (sem_wait k s) () (spec_wait k a w)"
proof -
  obtain q ts where q: "sched_ok s q" "running s q" "world_of s q = w" "preempt_count s = 0" "\<not> slock s (Sem k)" "waiters q (Wait_queue (Sem k)) = Some ts"
    using sinvE [OF assms(1,2)] .
  let ?s = "s\<lparr>irq := False\<rparr>"
  have c: "w_sem w = sem_count s" using q(3) by auto
  show ?thesis
  proof (cases "0 < sint (sem_count s k)")
    case True
    then show ?thesis using leave_sem [OF q(1,2,4,5), of "irq s" "(sem_count s)(k := sem_count s k - 1)"] c q(3,5)
      by (simp add: sem_wait_def lock_irq_held sem_try_take_unlocked_state spec_wait_def)
  next
    case False
    have "acts (scheduler_block_on_locked (Wait_queue (Sem k)) (Sem k) (lock_taken (Sem k) ?s)) () (w_block a (Wait_queue (Sem k)) w)"
      using block_held [of ?s q "Sem k" a ts] q a by simp
    then have "acts (bindp (scheduler_block_on_locked (Wait_queue (Sem k)) (Sem k) (lock_taken (Sem k) ?s)) (\<lambda>_ s3. Done () (irq_restore (irq s) s3))) ()
        (w_block a (Wait_queue (Sem k)) w)"
      by (rule acts_bindp) (simp add: irq_restore_state)
    then show ?thesis using False c q(5) by (simp add: sem_wait_def lock_irq_held sem_try_take_unlocked_state spec_wait_def EAGAIN_def)
  qed
qed

lemma sem_post_acts:
  assumes "sinv w s" and "open_world (Sem k) w"
  shows "acts (sem_post k s) () (spec_post k w)"
proof -
  obtain q ts where q: "sched_ok s q" "running s q" "world_of s q = w" "preempt_count s = 0" "\<not> slock s (Sem k)" "waiters q (Wait_queue (Sem k)) = Some ts"
    using sinvE [OF assms] .
  let ?l = "Sem k" let ?s = "s\<lparr>irq := False\<rparr>" let ?h = "lock_taken ?l ?s" let ?x = "Wait_queue ?l"
  have p: "sched_ok ?s q" "running ?s q" "preempt_count ?s = 0" using q by simp_all
  note h = lock_taken_ok [OF p, of ?l]
  have c: "w_sem w = sem_count s" "w_wait w ?x = Some ts" using q(3,6) by auto
  have e: "wq_is_empty ?h ?x \<longleftrightarrow> ts = []" using waiters_empty [OF h(1) q(6)] .
  show ?thesis
  proof (cases ts)
    case Nil
    then show ?thesis using leave_sem [OF q(1,2,4,5), of "irq s" "(sem_count s)(k := sem_count s k + 1)"] c q(3,5) e
      by (simp add: sem_post_def lock_irq_held spec_post_def with_sem_def)
  next
    case (Cons t us)
    then have w: "waiters q ?x = Some (t # us)" using q(6) by simp
    let ?p = "?h\<lparr>nodes := snd (clist_pop_front (nodes ?h) ?x)\<rparr>"
    obtain s' q' where s': "scheduler_ready_task t ?p = Done () s'" "sched_ok s' q'" "running s' q'" "world_of s' q' = hand_over ?x t us (world_of ?h q)"
      using handed_over [OF h w] by blast
    have "preempt_count s' = 1" "slock s' = (slock s)(?l := True)" using arg_cong [OF s'(4), of w_count] arg_cong [OF s'(4), of w_slock] h(3) by (simp_all add: hand_over_def)
    then have "acts (spinlock_unlock_irq_restore ?l (irq s) s') () ((hand_over ?x t us (world_of ?h q))\<lparr>w_slock := ((slock s)(?l := True))(?l := False), w_count := 0\<rparr>)"
      using unlock_irq_held [OF s'(2,3), of ?l "irq s"] s'(4) by simp
    moreover have "(hand_over ?x t us (world_of ?h q))\<lparr>w_slock := ((slock s)(?l := True))(?l := False), w_count := 0\<rparr> = hand_over ?x t us w"
      unfolding q(3) [symmetric] using q(4,5) by (simp add: hand_over_def world_of_def fun_upd_idem)
    ultimately show ?thesis using pop_waiter(1) [OF h(1) w] s'(1) c Cons e q(5)
      by (simp add: sem_post_def lock_irq_held spec_post_def)
  qed
qed

text \<open>No unit is left over while somebody waits.\<close>

definition sem_tight :: "nat \<Rightarrow> world \<Rightarrow> bool" where
  "sem_tight k w \<longleftrightarrow> w_wait w (Wait_queue (Sem k)) = Some [] \<or> sint (w_sem w k) \<le> 0"

text \<open>
  C10: A semaphore is a counter with a queue that is served first in, first out.  Waiting takes a unit, or
  else puts the task at the end of the queue and gives the processor away; posting hands the unit to the first
  in the queue, which becomes ready, or else counts it; trying never waits.  Nothing else of the world changes,
  and no unit is left over while somebody waits.
\<close>

theorem semaphore_refines:
  assumes "sinv w s" and "open_world (Sem k) w" and "active s = Some a"
  shows "acts (sem_try_take k s) (fst (spec_try_take k w)) (snd (spec_try_take k w)) \<and> acts (sem_post k s) () (spec_post k w) \<and>
    (t_prio (tasks s a) \<noteq> IDLE \<longrightarrow> acts (sem_wait k s) () (spec_wait k a w)) \<and>
    (sem_tight k w \<longrightarrow> sem_tight k (snd (spec_try_take k w)) \<and> sem_tight k (spec_post k w) \<and> sem_tight k (spec_wait k a w))"
proof -
  have "sem_tight k (snd (spec_try_take k w)) \<and> sem_tight k (spec_post k w) \<and> sem_tight k (spec_wait k a w)" if "sem_tight k w"
    using that assms(2) by (auto simp: open_world_def sem_tight_def spec_try_take_def spec_post_def spec_wait_def hand_over_def w_block_def split: option.splits list.splits)
  then show ?thesis using sem_try_take_acts [OF assms(1,2)] sem_post_acts [OF assms(1,2)] sem_wait_acts [OF assms(1-3)] by blast
qed

lemma demo_open: "open_world (Sem 0) demo_world" "open_world (Mutex 0) demo_world" "w_wait demo_world (Wait_queue (Sem 0)) = Some []"
  by (simp_all add: open_world_def demo_world_def demo_sys_def demo_queues_def demo_empty_def)

theorem semaphore_refines_witness:
  "acts (sem_post 0 demo_sys) () (demo_world\<lparr>w_sem := (\<lambda>_. 0)(0 := 1)\<rparr>) \<and> acts (sem_wait 0 demo_sys) () (w_block 2 (Wait_queue (Sem 0)) demo_world)"
proof -
  have a: "active demo_sys = Some 2" "t_prio (tasks demo_sys 2) \<noteq> IDLE" by (simp_all add: demo_sys_def demo_task_def layout_defs)
  have "w_sem demo_world = (\<lambda>_. 0)" by (simp add: demo_world_def demo_sys_def)
  then have "spec_post 0 demo_world = demo_world\<lparr>w_sem := (\<lambda>_. 0)(0 := 1)\<rparr>" "spec_wait 0 2 demo_world = w_block 2 (Wait_queue (Sem 0)) demo_world"
    using demo_open(3) by (simp_all add: spec_post_def spec_wait_def)
  then show ?thesis using semaphore_refines [OF demo_sinv demo_open(1) a(1)] a(2) by simp
qed

section \<open>Mutexes\<close>

definition spec_trylock :: "nat \<Rightarrow> tid \<Rightarrow> world \<Rightarrow> int \<times> world" where
  "spec_trylock k a w = (if w_locked w k then (- EBUSY, w) else (0, w\<lparr>w_locked := (w_locked w)(k := True), w_owner := (w_owner w)(k := Some a)\<rparr>))"

definition spec_lock :: "nat \<Rightarrow> tid \<Rightarrow> world \<Rightarrow> world" where
  "spec_lock k a w = (if w_locked w k then w_block a (Wait_queue (Mutex k)) w
     else w\<lparr>w_locked := (w_locked w)(k := True), w_owner := (w_owner w)(k := Some a)\<rparr>)"

definition spec_unlock :: "nat \<Rightarrow> tid \<Rightarrow> world \<Rightarrow> world" where
  "spec_unlock k a w =
    (if \<not> w_locked w k \<or> w_owner w k \<noteq> Some a then w
     else case w_wait w (Wait_queue (Mutex k)) of
       Some (t # ts) \<Rightarrow> (hand_over (Wait_queue (Mutex k)) t ts w)\<lparr>w_owner := (w_owner w)(k := Some t)\<rparr>
     | _ \<Rightarrow> w\<lparr>w_locked := (w_locked w)(k := False), w_owner := (w_owner w)(k := None)\<rparr>)"

definition with_mutex :: "(nat \<Rightarrow> bool) \<Rightarrow> (nat \<Rightarrow> tid option) \<Rightarrow> ksys \<Rightarrow> ksys" where
  "with_mutex f g s = s\<lparr>m_locked := f, m_owner := g\<rparr>"

lemma with_mutex_ok:
  assumes "sched_ok s q" and "running s q"
  shows "sched_ok (with_mutex f g s) q" and "running (with_mutex f g s) q" and "world_of (with_mutex f g s) q = (world_of s q)\<lparr>w_locked := f, w_owner := g\<rparr>"
  using assms by (simp_all add: with_mutex_def sched_ok_def running_def world_of_def)

lemma leave_mutex:
  assumes "sched_ok s q" and "running s q" and "preempt_count s = 0" and "\<not> slock s l"
  shows "acts (spinlock_unlock l (with_mutex f g (lock_taken l s))) () ((world_of s q)\<lparr>w_locked := f, w_owner := g\<rparr>)"
proof -
  let ?h = "lock_taken l s"
  note h = lock_taken_ok [OF assms(1-3), of l]
  have "acts (spinlock_unlock l (with_mutex f g ?h)) () ((world_of (with_mutex f g ?h) q)\<lparr>w_slock := (slock (with_mutex f g ?h))(l := False), w_count := 0\<rparr>)"
    by (rule spinlock_unlock_acts [OF with_mutex_ok(1,2) [OF h(1,2)]]) (simp add: with_mutex_def h(3))
  moreover have "(world_of (with_mutex f g ?h) q)\<lparr>w_slock := (slock (with_mutex f g ?h))(l := False), w_count := 0\<rparr> = (world_of s q)\<lparr>w_locked := f, w_owner := g\<rparr>"
    using assms(3,4) by (simp add: world_of_def with_mutex_def fun_upd_idem)
  ultimately show ?thesis by simp
qed

lemma leave_mutex_same:
  assumes "sched_ok s q" and "running s q" and "preempt_count s = 0" and "\<not> slock s l"
  shows "acts (spinlock_unlock l (lock_taken l s)) () (world_of s q)"
proof -
  have "with_mutex (m_locked s) (m_owner s) (lock_taken l s) = lock_taken l s" by (cases s) (simp add: with_mutex_def lock_taken_def)
  moreover have e: "(world_of s q)\<lparr>w_locked := m_locked s, w_owner := m_owner s\<rparr> = world_of s q" by (simp add: world_of_def)
  ultimately show ?thesis using leave_mutex [OF assms, of "m_locked s" "m_owner s", unfolded e] by simp
qed

lemma mutex_lock_acts:
  assumes "sinv w s" and "open_world (Mutex k) w" and a: "active s = Some a" "t_prio (tasks s a) \<noteq> IDLE"
  shows "acts (mutex_lock k s) () (spec_lock k a w)"
proof -
  obtain q ts where q: "sched_ok s q" "running s q" "world_of s q = w" "preempt_count s = 0" "\<not> slock s (Mutex k)" "waiters q (Wait_queue (Mutex k)) = Some ts"
    using sinvE [OF assms(1,2)] .
  have c: "w_locked w = m_locked s" "w_owner w = m_owner s" using q(3) by auto
  show ?thesis
  proof (cases "m_locked s k")
    case True
    then show ?thesis using block_held [OF q(1,2,4,5) a q(6)] c q(3,5)
      by (simp add: mutex_lock_def spinlock_lock_held mutex_trylock_unlocked_def spec_lock_def EBUSY_def)
  next
    case False
    then show ?thesis using leave_mutex [OF q(1,2,4,5), of "(m_locked s)(k := True)" "(m_owner s)(k := Some a)"] c q(3,5) a
      by (simp add: mutex_lock_def spinlock_lock_held mutex_trylock_unlocked_def spec_lock_def with_mutex_def)
  qed
qed

lemma mutex_trylock_acts:
  assumes "sinv w s" and "open_world (Mutex k) w" and a: "active s = Some a"
  shows "acts (mutex_trylock k s) (fst (spec_trylock k a w)) (snd (spec_trylock k a w))"
proof -
  obtain q ts where q: "sched_ok s q" "running s q" "world_of s q = w" "preempt_count s = 0" "\<not> slock s (Mutex k)" using sinvE [OF assms(1,2)] .
  have c: "w_locked w = m_locked s" "w_owner w = m_owner s" using q(3) by auto
  have v: "acts (bindp m (\<lambda>_. Done v)) v w'" if "acts m () w'" for m v w' using acts_bindp [OF that, of "\<lambda>_. Done v" v] by simp
  show ?thesis
  proof (cases "m_locked s k")
    case True
    then show ?thesis using v [OF leave_mutex_same [OF q(1,2,4,5)]] c q(3,5)
      by (simp add: mutex_trylock_def spinlock_lock_held mutex_trylock_unlocked_def spec_trylock_def)
  next
    case False
    then show ?thesis using v [OF leave_mutex [OF q(1,2,4,5), of "(m_locked s)(k := True)" "(m_owner s)(k := Some a)"]] c q(3,5) a
      by (simp add: mutex_trylock_def spinlock_lock_held mutex_trylock_unlocked_def spec_trylock_def with_mutex_def)
  qed
qed

lemma mutex_unlock_acts:
  assumes "sinv w s" and "open_world (Mutex k) w" and a: "active s = Some a"
  shows "acts (mutex_unlock k s) () (spec_unlock k a w)"
proof -
  obtain q ts where q: "sched_ok s q" "running s q" "world_of s q = w" "preempt_count s = 0" "\<not> slock s (Mutex k)" "waiters q (Wait_queue (Mutex k)) = Some ts"
    using sinvE [OF assms(1,2)] .
  let ?l = "Mutex k" let ?x = "Wait_queue ?l" let ?h = "lock_taken ?l s"
  note h = lock_taken_ok [OF q(1,2,4), of ?l]
  have c: "w_locked w = m_locked s" "w_owner w = m_owner s" "w_wait w ?x = Some ts" using q(3,6) by auto
  have e: "wq_is_empty ?h ?x \<longleftrightarrow> ts = []" using waiters_empty [OF h(1) q(6)] .
  consider (foreign) "\<not> m_locked s k \<or> m_owner s k \<noteq> Some a" | (free) "m_locked s k" "m_owner s k = Some a" "ts = []" |
    (wait) t us where "m_locked s k" "m_owner s k = Some a" "ts = t # us" by (cases ts) auto
  then show ?thesis
  proof cases
    case foreign
    then show ?thesis using leave_mutex_same [OF q(1,2,4,5)] c q(3,5) a by (auto simp: mutex_unlock_def spinlock_lock_held spec_unlock_def)
  next
    case free
    then show ?thesis using leave_mutex [OF q(1,2,4,5), of "(m_locked s)(k := False)" "(m_owner s)(k := None)"] c q(3,5) a e
      by (simp add: mutex_unlock_def spinlock_lock_held spec_unlock_def with_mutex_def)
  next
    case (wait t us)
    let ?m = "with_mutex (m_locked s) ((m_owner s)(k := Some t)) ?h"
    have w: "waiters q ?x = Some (t # us)" using q(6) wait(3) by simp
    note m = with_mutex_ok [OF h(1,2), of "m_locked s" "(m_owner s)(k := Some t)"]
    have mc: "preempt_count ?m = 1" using h(3) by (simp add: with_mutex_def)
    obtain s' q' where s': "scheduler_ready_task t (?m\<lparr>nodes := snd (clist_pop_front (nodes ?m) ?x)\<rparr>) = Done () s'" "sched_ok s' q'" "running s' q'"
      "world_of s' q' = hand_over ?x t us (world_of ?m q)"
      using handed_over [OF m(1,2) mc w] by blast
    have f: "preempt_count s' = 1" "slock s' = (slock s)(?l := True)"
      using arg_cong [OF s'(4), of w_count] arg_cong [OF s'(4), of w_slock] mc by (simp_all add: hand_over_def with_mutex_def)
    have "acts (spinlock_unlock ?l s') () ((hand_over ?x t us (world_of ?m q))\<lparr>w_slock := ((slock s)(?l := True))(?l := False), w_count := 0\<rparr>)"
      using spinlock_unlock_acts [OF s'(2,3) f(1), of ?l] s'(4) f(2) by simp
    moreover have "(hand_over ?x t us (world_of ?m q))\<lparr>w_slock := ((slock s)(?l := True))(?l := False), w_count := 0\<rparr> =
        (hand_over ?x t us w)\<lparr>w_owner := (m_owner s)(k := Some t)\<rparr>"
      unfolding q(3) [symmetric] using q(4,5) by (simp add: hand_over_def world_of_def with_mutex_def fun_upd_idem)
    moreover have "?m\<lparr>nodes := snd (clist_pop_front (nodes ?m) ?x)\<rparr> = (?h\<lparr>nodes := snd (clist_pop_front (nodes ?h) ?x)\<rparr>)\<lparr>m_owner := (m_owner s)(k := Some t)\<rparr>"
      by (cases s) (simp add: with_mutex_def lock_taken_def)
    ultimately show ?thesis using pop_waiter(1) [OF h(1) w] s'(1) c wait e q(5) a
      by (simp add: mutex_unlock_def spinlock_lock_held spec_unlock_def)
  qed
qed

section \<open>A lock that is handed over in order\<close>

datatype phase = Outside | Entering | Inside

definition lock_ok :: "'t option \<Rightarrow> 't list \<Rightarrow> ('t \<Rightarrow> phase) \<Rightarrow> bool" where
  "lock_ok ow qu ph \<longleftrightarrow> distinct qu \<and> (qu \<noteq> [] \<longrightarrow> ow \<noteq> None) \<and>
    (\<forall>t. (ph t = Inside \<longrightarrow> ow = Some t \<and> t \<notin> set qu) \<and> (ph t = Entering \<longrightarrow> (ow = Some t) = (t \<notin> set qu)) \<and> (ph t = Outside \<longrightarrow> ow \<noteq> Some t \<and> t \<notin> set qu))"

locale fifo_lock =
  fixes good :: "'w \<Rightarrow> bool"
    and owner :: "'w \<Rightarrow> 't option"
    and queue :: "'w \<Rightarrow> 't list"
    and enter :: "'t \<Rightarrow> 'w \<Rightarrow> 'w"
    and leave :: "'t \<Rightarrow> 'w \<Rightarrow> 'w"
  assumes enter_free: "good w \<Longrightarrow> owner w = None \<Longrightarrow> good (enter t w) \<and> owner (enter t w) = Some t \<and> queue (enter t w) = queue w"
    and enter_taken: "good w \<Longrightarrow> owner w = Some u \<Longrightarrow> good (enter t w) \<and> owner (enter t w) = Some u \<and> queue (enter t w) = queue w @ [t]"
    and leave_free: "good w \<Longrightarrow> owner w = Some t \<Longrightarrow> queue w = [] \<Longrightarrow> good (leave t w) \<and> owner (leave t w) = None \<and> queue (leave t w) = []"
    and leave_next: "good w \<Longrightarrow> owner w = Some t \<Longrightarrow> queue w = u # us \<Longrightarrow> good (leave t w) \<and> owner (leave t w) = Some u \<and> queue (leave t w) = us"
begin

lemma enter_ok:
  assumes "good w" and "lock_ok (owner w) (queue w) ph" and "ph t = Outside"
  shows "good (enter t w) \<and> lock_ok (owner (enter t w)) (queue (enter t w)) (ph(t := Entering))"
proof (cases "owner w")
  case None
  then have "queue w = []" using assms(2) by (auto simp: lock_ok_def)
  then show ?thesis using enter_free [OF assms(1) None, of t] assms(2,3) None by (auto simp: lock_ok_def)
next
  case (Some u)
  then show ?thesis using enter_taken [OF assms(1) Some, of t] assms(2,3) by (auto simp: lock_ok_def)
qed

lemma leave_ok:
  assumes "good w" and "lock_ok (owner w) (queue w) ph" and "ph t = Inside"
  shows "good (leave t w) \<and> lock_ok (owner (leave t w)) (queue (leave t w)) (ph(t := Outside))"
proof -
  have o: "owner w = Some t" using assms(2,3) by (auto simp: lock_ok_def)
  show ?thesis
  proof (cases "queue w")
    case Nil
    then show ?thesis using leave_free [OF assms(1) o Nil] assms(2) o by (auto simp: lock_ok_def)
  next
    case (Cons u us)
    then have "ph u = Entering" "u \<noteq> t" using assms(2,3) o unfolding lock_ok_def by (metis list.set_intros(1) phase.exhaust)+
    then show ?thesis using leave_next [OF assms(1) o Cons] assms(2) o Cons unfolding lock_ok_def
      by (auto split: if_splits) (metis option.inject phase.distinct(1,3,5) phase.exhaust)+
  qed
qed

lemma served_in_order:
  assumes "good w" and "owner w = Some t" and "queue w = u # us"
  shows "owner (leave t w) = Some u"
  using leave_next [OF assms] by simp

end

lemma lock_ok_arrive: "lock_ok ow qu ph \<Longrightarrow> ph t = Entering \<Longrightarrow> t \<notin> set qu \<Longrightarrow> lock_ok ow qu (ph(t := Inside))"
  by (auto simp: lock_ok_def)

definition mutex_good :: "nat \<Rightarrow> world \<Rightarrow> bool" where
  "mutex_good k w \<longleftrightarrow> open_world (Mutex k) w \<and> w_locked w k = (w_owner w k \<noteq> None)"

definition mutex_queue :: "nat \<Rightarrow> world \<Rightarrow> tid list" where
  "mutex_queue k w = (case w_wait w (Wait_queue (Mutex k)) of None \<Rightarrow> [] | Some ts \<Rightarrow> ts)"

interpretation mx: fifo_lock "mutex_good k" "\<lambda>w. w_owner w k" "mutex_queue k" "spec_lock k" "spec_unlock k" for k
  by unfold_locales (auto simp: mutex_good_def open_world_def mutex_queue_def spec_lock_def spec_unlock_def w_block_def hand_over_def)

section \<open>Mutual exclusion\<close>

text \<open>
  Tasks that use one mutex, preempted at any time slice.  The running task locks or unlocks the mutex, goes to
  sleep, wakes sleepers, or its slice ends; if it is switched out it leaves the rest of its call behind, and
  goes on with it when it runs again.  It is inside the mutex from the return of the lock to the call of the
  unlock.
\<close>

record cfg =
  kst :: ksys
  phase_of :: "tid \<Rightarrow> phase"
  rest_of :: "tid \<Rightarrow> (ksys \<Rightarrow> (ksys, unit) proc) option"

datatype mcall = Lock_it | Unlock_it | Tick | Nap u32 | Wake nat

fun m_run :: "nat \<Rightarrow> mcall \<Rightarrow> ksys \<Rightarrow> (ksys, unit) proc" where
  "m_run k Lock_it s = mutex_lock k s"
| "m_run k Unlock_it s = mutex_unlock k s"
| "m_run k Tick s = scheduler_rotate s"
| "m_run k (Nap n) s = scheduler_sleep n s"
| "m_run k (Wake n) s = scheduler_wake_sleeping n s"

fun m_may :: "mcall \<Rightarrow> tid \<Rightarrow> ksys \<Rightarrow> phase \<Rightarrow> bool" where
  "m_may Lock_it a s ph = (ph = Outside \<and> t_prio (tasks s a) \<noteq> IDLE)"
| "m_may Unlock_it a s ph = (ph = Inside)"
| "m_may Tick a s ph = True"
| "m_may (Nap n) a s ph = (t_prio (tasks s a) \<noteq> IDLE)"
| "m_may (Wake n) a s ph = (t_prio (tasks s a) = HIGH \<and> (\<forall>w. sinv w s \<longrightarrow> length (w_sleep w) < n))"

fun m_entry :: "mcall \<Rightarrow> phase \<Rightarrow> phase" where
  "m_entry Lock_it ph = Entering"
| "m_entry Unlock_it ph = Outside"
| "m_entry _ ph = ph"

fun settle :: "phase \<Rightarrow> phase" where
  "settle Entering = Inside"
| "settle ph = ph"

inductive mstep :: "nat \<Rightarrow> cfg \<Rightarrow> cfg \<Rightarrow> bool" for k :: nat where
  call_done: "active (kst c) = Some a \<Longrightarrow> rest_of c a = None \<Longrightarrow> m_may m a (kst c) (phase_of c a) \<Longrightarrow> m_run k m (kst c) = Done () s' \<Longrightarrow>
    mstep k c (c\<lparr>kst := s', phase_of := (phase_of c)(a := settle (m_entry m (phase_of c a)))\<rparr>)"
| call_switch: "active (kst c) = Some a \<Longrightarrow> rest_of c a = None \<Longrightarrow> m_may m a (kst c) (phase_of c a) \<Longrightarrow> m_run k m (kst c) = Switch s' f \<Longrightarrow>
    mstep k c (c\<lparr>kst := s', phase_of := (phase_of c)(a := m_entry m (phase_of c a)), rest_of := (rest_of c)(a \<mapsto> f)\<rparr>)"
| resume_done: "active (kst c) = Some a \<Longrightarrow> rest_of c a = Some f \<Longrightarrow> f (kst c) = Done () s' \<Longrightarrow>
    mstep k c (c\<lparr>kst := s', phase_of := (phase_of c)(a := settle (phase_of c a)), rest_of := (rest_of c)(a := None)\<rparr>)"
| resume_switch: "active (kst c) = Some a \<Longrightarrow> rest_of c a = Some f \<Longrightarrow> f (kst c) = Switch s' f' \<Longrightarrow>
    mstep k c (c\<lparr>kst := s', rest_of := (rest_of c)(a \<mapsto> f')\<rparr>)"

inductive_cases mstepE: "mstep k c c'"

text \<open>Code of task \<open>a\<close> returns with \<open>a\<close> running, if it is resumed only when \<open>a\<close> runs.\<close>

primrec own :: "(ksys, 'a) proc \<Rightarrow> tid \<Rightarrow> bool" where
  "own (Done x s) a = (active s = Some a)"
| "own (Switch s k) a = (\<forall>s'. active s' = Some a \<longrightarrow> own (k s') a)"
| "own Stop a = True"
| "own Spin a = True"
| "own Bad a = True"

lemma own_bindp:
  assumes "own m a" and "\<And>x s. active s = Some a \<Longrightarrow> own (f x s) a"
  shows "own (bindp m f) a"
  using assms by (induction m) auto

lemma own_irq: "(\<And>s. active s = Some a \<Longrightarrow> own (m s) a) \<Longrightarrow> active s = Some a \<Longrightarrow> own (with_irq_off m s) a"
  unfolding with_irq_off_def irq_save_state by (simp, rule own_bindp) (simp_all add: irq_restore_state)

lemma own_switch: "active s = Some a \<Longrightarrow> own (do_ctx_switch t s) a"
  by (cases t) (simp add: do_ctx_switch_def, simp add: do_ctx_switch_state)

lemma own_scheduler:
  assumes a: "active s = Some a"
  shows "own (switch_out_active s) a" and "own (scheduler_rotate s) a" and "own (scheduler_enable_preempt s) a" and "own (spinlock_unlock l s) a"
    and "own (spinlock_lock l s) a" and "own (check_and_preempt t s) a" and "own (insert_sleep t s) a"
proof -
  show so: "own (switch_out_active s) a" unfolding switch_out_active_def
    by (rule own_irq [OF _ a]) (auto simp: Let_def refresh_highest_prio_def intro!: own_switch split: option.splits)
  have r: "own (scheduler_rotate s) a" if "active s = Some a" for s unfolding scheduler_rotate_def
    using that by (auto simp: rotate_ready_queue_def Let_def split_beta split: option.splits intro!: own_irq own_switch)
  then show "own (scheduler_rotate s) a" using a .
  have e: "own (scheduler_enable_preempt s) a" if "active s = Some a" for s using r that by (simp add: scheduler_enable_preempt_def Let_def)
  then show "own (scheduler_enable_preempt s) a" using a .
  show "own (spinlock_unlock l s) a" using e a by (simp add: spinlock_unlock_def)
  show "own (spinlock_lock l s) a" using a by (simp add: spinlock_lock_def scheduler_disable_preempt_def Let_def)
  show "own (check_and_preempt t s) a" using a own_switch [OF a] by (simp add: check_and_preempt_def delay_schedule_def)
  show "own (insert_sleep t s) a" using a by (simp add: insert_sleep_def split: option.splits)
qed

lemma active_kept [simp]:
  "active (task_wake t s) = active s" "active (update_highest t s) = active s" "active (ready_queue_enqueue t s) = active s"
  "active (move_to_wq t x s) = active s" "active (ready_queue_remove t s) = active s" "active (task_sleep t n s) = active s" "active (upd_nodes f s) = active s"
  by (auto simp: task_wake_def irq_save_state irq_restore_state upd_task_def remove_from_blocking_queues_state update_highest_def Let_def
      ready_queue_enqueue_def upd_nodes_def move_to_wq_def wq_enqueue_def task_block_def ready_queue_remove_def remove_node_state task_sleep_def)

lemma own_ready_task: "active s = Some a \<Longrightarrow> own (scheduler_ready_task t s) a"
  unfolding scheduler_ready_task_def by (rule own_irq) (simp_all add: own_scheduler)

lemma own_block_on_locked: "active s = Some a \<Longrightarrow> own (scheduler_block_on_locked x l s) a"
  unfolding scheduler_block_on_locked_def with_active_def
  by (rule own_irq) (auto intro!: own_bindp own_scheduler)

lemma own_wake_loop: "active s = Some a \<Longrightarrow> own (for_each_p n (wake_up_sleeping_cb now) hd_n cur s) a"
proof (induction n arbitrary: cur s)
  case (Suc n)
  have cb: "own (wake_up_sleeping_cb now cur s) a" using Suc.prems
    by (auto simp: wake_up_sleeping_cb_def split: option.splits intro!: own_bindp own_ready_task)
  show ?case using Suc.IH Suc.prems by (auto simp: Let_def intro!: own_bindp [OF cb])
qed simp

lemma own_m_run:
  assumes "active s = Some a"
  shows "own (m_run k m s) a"
proof (cases m)
  case Lock_it
  then show ?thesis using assms
    by (auto simp: mutex_lock_def mutex_trylock_unlocked_def Let_def intro!: own_bindp own_scheduler own_block_on_locked)
next
  case Unlock_it
  then show ?thesis using assms
    by (auto simp: mutex_unlock_def wq_pop_head_def Let_def split_beta split: option.splits intro!: own_bindp own_scheduler own_ready_task)
next
  case (Nap n)
  then show ?thesis using assms unfolding m_run.simps Nap scheduler_sleep_def with_active_def
    by (auto intro!: own_irq own_bindp own_scheduler)
next
  case (Wake n)
  then show ?thesis using assms unfolding m_run.simps Wake scheduler_wake_sleeping_def by (auto intro!: own_irq own_wake_loop)
qed (use own_scheduler(2) [OF assms] in simp)

text \<open>Code that only returns, whatever the world is when it gets the processor back.\<close>

definition tame :: "(ksys \<Rightarrow> (ksys, unit) proc) \<Rightarrow> bool" where
  "tame f \<longleftrightarrow> (\<forall>w s. w_count w = 0 \<longrightarrow> sinv w s \<longrightarrow> acts (f s) () w)"

definition minv :: "nat \<Rightarrow> cfg \<Rightarrow> world \<Rightarrow> bool" where
  "minv k c w \<longleftrightarrow> sinv w (kst c) \<and> mutex_good k w \<and> lock_ok (w_owner w k) (mutex_queue k w) (phase_of c) \<and>
    set (w_sleep w) \<inter> set (mutex_queue k w) = {} \<and> (\<forall>t f. rest_of c t = Some f \<longrightarrow> tame f \<and> (\<forall>s. active s = Some t \<longrightarrow> own (f s) t)) \<and> (\<forall>t. phase_of c t = Entering \<longrightarrow> rest_of c t \<noteq> None)"

lemma active_not_waiting:
  assumes "sinv w s" and "active s = Some a"
  shows "a \<notin> set (w_sleep w)" and "w_wait w x = Some ts \<Longrightarrow> a \<notin> set ts" and "a \<notin> set (mutex_queue k w)"
proof -
  obtain q where q: "sched_ok s q" "running s q" "world_of s q = w" using assms(1) by (auto simp: sinv_def)
  have "runnable (tasks s) a" using q(2) assms(2) by (auto simp: running_def runnable_def)
  note n = not_waiting [OF q(1) this]
  show "a \<notin> set (w_sleep w)" using n(1) q(3) by auto
  show w: "a \<notin> set ts" if "w_wait w x = Some ts" for x ts using n(2) q(3) that by auto
  then show "a \<notin> set (mutex_queue k w)" by (auto simp: mutex_queue_def split: option.splits)
qed

text \<open>What a call does to the world, and that it keeps the invariant of the mutex.\<close>

fun m_spec :: "nat \<Rightarrow> mcall \<Rightarrow> tid \<Rightarrow> ksys \<Rightarrow> world \<Rightarrow> world" where
  "m_spec k Lock_it a s w = spec_lock k a w"
| "m_spec k Unlock_it a s w = spec_unlock k a w"
| "m_spec k Tick a s w = w"
| "m_spec k (Nap n) a s w = w_sleep_on a (doze a (task_sleep a n s) (w_sleep w)) w"
| "m_spec k (Wake n) a s w = fold w_awake (filter (due s (time_seconds s)) (w_sleep w)) w"

lemma sched_call_acts:
  assumes "sinv w s" and "active s = Some a" and "w_count w = 0"
  shows "acts (scheduler_rotate s) () w" and "t_prio (tasks s a) \<noteq> IDLE \<Longrightarrow> acts (scheduler_sleep n s) () (w_sleep_on a (doze a (task_sleep a n s) (w_sleep w)) w)"
    and "t_prio (tasks s a) = HIGH \<Longrightarrow> length (w_sleep w) < m \<Longrightarrow>
      acts (scheduler_wake_sleeping m s) () (fold w_awake (filter (due s (time_seconds s)) (w_sleep w)) w)"
  using assms scheduler_acts(3,4,7) by (auto simp: sinv_def)

lemma m_run_acts:
  assumes "minv k c w" and a: "active (kst c) = Some a" and "m_may m a (kst c) (phase_of c a)"
  shows "acts (m_run k m (kst c)) () (m_spec k m a (kst c) w)"
proof -
  have i: "sinv w (kst c)" "open_world (Mutex k) w" "w_count w = 0" using assms(1) by (auto simp: minv_def mutex_good_def open_world_def)
  show ?thesis using assms(3) i mutex_lock_acts [OF i(1,2) a] mutex_unlock_acts [OF i(1,2) a] sched_call_acts [OF i(1) a i(3)] by (cases m) auto
qed

lemma fold_awake_frame:
  assumes "set ts \<inter> set (mutex_queue k w) = {}"
  shows "mutex_queue k (fold w_awake ts w) = mutex_queue k w \<and> w_owner (fold w_awake ts w) = w_owner w \<and> w_locked (fold w_awake ts w) = w_locked w \<and>
    w_count (fold w_awake ts w) = w_count w \<and> w_slock (fold w_awake ts w) = w_slock w \<and> set (w_sleep (fold w_awake ts w)) \<subseteq> set (w_sleep w) \<and>
    (w_wait (fold w_awake ts w) x = None \<longleftrightarrow> w_wait w x = None)"
  using assms
proof (induction ts arbitrary: w)
  case (Cons t ts)
  have q: "mutex_queue k (w_awake t w) = mutex_queue k w"
    using Cons.prems(1) by (auto simp: mutex_queue_def w_awake_def remove1_idem split: option.splits)
  then have "set ts \<inter> set (mutex_queue k (w_awake t w)) = {}" using Cons.prems(1) by auto
  moreover have "w_owner (w_awake t w) = w_owner w" "w_locked (w_awake t w) = w_locked w" "w_count (w_awake t w) = w_count w" "w_slock (w_awake t w) = w_slock w"
    "set (w_sleep (w_awake t w)) \<subseteq> set (w_sleep w)" "w_wait (w_awake t w) x = None \<longleftrightarrow> w_wait w x = None"
    using set_remove1_subset [of t "w_sleep w"] by (auto simp: w_awake_def)
  ultimately show ?case using Cons.IH [of "w_awake t w"] q by auto
qed simp

text \<open>The invariant of the mutex after the effect of a call, with the phase it enters.\<close>

lemma m_spec_ok:
  assumes I: "minv k c w" and a: "active (kst c) = Some a" and may: "m_may m a (kst c) (phase_of c a)"
  defines "w' \<equiv> m_spec k m a (kst c) w"
  shows "mutex_good k w' \<and> lock_ok (w_owner w' k) (mutex_queue k w') ((phase_of c)(a := m_entry m (phase_of c a))) \<and>
    set (w_sleep w') \<inter> set (mutex_queue k w') = {}"
proof -
  have i: "sinv w (kst c)" "mutex_good k w" "lock_ok (w_owner w k) (mutex_queue k w) (phase_of c)" "set (w_sleep w) \<inter> set (mutex_queue k w) = {}"
    using I by (auto simp: minv_def)
  note na = active_not_waiting [OF i(1) a]
  show ?thesis
  proof (cases m)
    case Lock_it
    have "set (mutex_queue k (spec_lock k a w)) \<subseteq> insert a (set (mutex_queue k w))" "w_sleep (spec_lock k a w) = w_sleep w"
      by (cases "w_wait w (Wait_queue (Mutex k))"; auto simp: spec_lock_def w_block_def mutex_queue_def)+
    then have "set (w_sleep (spec_lock k a w)) \<inter> set (mutex_queue k (spec_lock k a w)) = {}" using i(4) na(1) by auto
    then show ?thesis using mx.enter_ok [OF i(2,3)] may Lock_it by (simp add: w'_def)
  next
    case Unlock_it
    have "set (mutex_queue k (spec_unlock k a w)) \<subseteq> set (mutex_queue k w)" "set (w_sleep (spec_unlock k a w)) \<subseteq> set (w_sleep w)"
      using set_remove1_subset [of _ "w_sleep w"]
      by (auto simp: spec_unlock_def hand_over_def mutex_queue_def split: option.splits list.splits if_splits)
    then have "set (w_sleep (spec_unlock k a w)) \<inter> set (mutex_queue k (spec_unlock k a w)) = {}" using i(4) by blast
    then show ?thesis using mx.leave_ok [OF i(2,3)] may Unlock_it by (simp add: w'_def)
  next
    case (Nap n)
    have "mutex_queue k w' = mutex_queue k w" "mutex_good k w'" "w_owner w' = w_owner w"
      using i(2) Nap by (auto simp: w'_def w_sleep_on_def mutex_queue_def mutex_good_def open_world_def)
    then show ?thesis using i(3,4) na(3) Nap by (auto simp: w'_def w_sleep_on_def)
  next
    case (Wake n)
    let ?ts = "filter (due (kst c) (time_seconds (kst c))) (w_sleep w)"
    have "set ?ts \<inter> set (mutex_queue k w) = {}" using i(4) by auto
    note f = fold_awake_frame [OF this, of "Wait_queue (Mutex k)"]
    then have "mutex_good k w'" using i(2) Wake by (simp add: w'_def mutex_good_def open_world_def)
    then show ?thesis using f i(3,4) Wake by (auto simp: w'_def)
  qed (use i in \<open>simp add: w'_def\<close>)
qed

text \<open>A task that runs is not in the queue, so the one that comes back from a lock owns the mutex.\<close>

lemma settled_ok:
  assumes "lock_ok (w_owner w k) (mutex_queue k w) (ph(a := p))" and "sinv w s" and "active s = Some a"
  shows "lock_ok (w_owner w k) (mutex_queue k w) (ph(a := settle p))"
proof (cases p)
  case Entering
  then show ?thesis using lock_ok_arrive [OF assms(1), of a] active_not_waiting(3) [OF assms(2,3)] by simp
qed (use assms(1) in auto)

lemma minv_step:
  assumes "mstep k c c'" and I: "minv k c w"
  shows "\<exists>w'. minv k c' w'"
proof -
  have i: "sinv w (kst c)" "mutex_good k w" "lock_ok (w_owner w k) (mutex_queue k w) (phase_of c)" "set (w_sleep w) \<inter> set (mutex_queue k w) = {}"
    "\<And>t f. rest_of c t = Some f \<Longrightarrow> tame f" "\<And>t f s. rest_of c t = Some f \<Longrightarrow> active s = Some t \<Longrightarrow> own (f s) t" "\<And>t. phase_of c t = Entering \<Longrightarrow> rest_of c t \<noteq> None"
    using I by (auto simp: minv_def)
  have z: "w_count w = 0" using i(2) by (simp add: mutex_good_def open_world_def)
  show ?thesis using assms(1)
  proof cases
    case (call_done a m s')
    let ?w = "m_spec k m a (kst c) w"
    have w: "sinv ?w s'" "active s' = Some a" using m_run_acts [OF I call_done(2,4)] own_m_run [OF call_done(2), of k m] call_done(5) by simp_all
    note ok = m_spec_ok [OF I call_done(2,4)]
    have "lock_ok (w_owner ?w k) (mutex_queue k ?w) ((phase_of c)(a := settle (m_entry m (phase_of c a))))" using settled_ok [OF _ w] ok by blast
    moreover have "settle p \<noteq> Entering" for p by (cases p) simp_all
    ultimately show ?thesis using ok w(1) i(5-) by (intro exI [of _ ?w]) (auto simp: minv_def call_done(1))
  next
    case (call_switch a m s' f)
    let ?w = "m_spec k m a (kst c) w"
    have w: "sinv ?w s'" "tame f" "\<And>s. active s = Some a \<Longrightarrow> own (f s) a"
      using m_run_acts [OF I call_switch(2,4)] own_m_run [OF call_switch(2), of k m] call_switch(5) by (auto simp: tame_def)
    show ?thesis using m_spec_ok [OF I call_switch(2,4)] w i(5-) by (intro exI [of _ ?w]) (auto simp: minv_def call_switch(1))
  next
    case (resume_done a f s')
    have "acts (f (kst c)) () w" using i(5) [OF resume_done(3)] i(1) z unfolding tame_def by blast
    then have w: "sinv w s'" using resume_done(4) by simp
    have "lock_ok (w_owner w k) (mutex_queue k w) ((phase_of c)(a := settle (phase_of c a)))" using settled_ok [OF _ i(1) resume_done(2), of k "phase_of c"] i(3) by simp
    moreover have "settle p \<noteq> Entering" for p by (cases p) simp_all
    ultimately show ?thesis using w i by (intro exI [of _ w]) (auto simp: minv_def resume_done(1))
  next
    case (resume_switch a f s' f')
    have "acts (f (kst c)) () w" using i(5) [OF resume_switch(3)] i(1) z unfolding tame_def by blast
    then have w: "sinv w s'" "tame f'" using resume_switch(4) by (simp_all add: tame_def)
    have "own (f' s) a" if "active s = Some a" for s using i(6) [OF resume_switch(3,2)] that resume_switch(4) by simp
    then show ?thesis using w i by (intro exI [of _ w]) (auto simp: minv_def resume_switch(1))
  qed
qed

lemma minv_reach:
  assumes "(mstep k)\<^sup>*\<^sup>* c c'" and "minv k c w"
  shows "\<exists>w'. minv k c' w'"
  using assms(1)
proof (induction rule: rtranclp_induct)
  case (step c1 c2)
  then show ?case using minv_step by blast
qed (use assms(2) in blast)

text \<open>Nobody is stuck: the running task can go on with what it left behind, or with any call it may make.\<close>

lemma minv_progress:
  assumes I: "minv k c w" and a: "active (kst c) = Some a"
  shows "rest_of c a \<noteq> None \<Longrightarrow> \<exists>c'. mstep k c c'" and "rest_of c a = None \<Longrightarrow> m_may m a (kst c) (phase_of c a) \<Longrightarrow> \<exists>c'. mstep k c c'"
proof -
  show "\<exists>c'. mstep k c c'" if p: "rest_of c a \<noteq> None"
  proof -
    obtain f where f: "rest_of c a = Some f" using p by blast
    have "acts (f (kst c)) () w" using I f unfolding minv_def tame_def mutex_good_def open_world_def by blast
    then show ?thesis
    proof (cases "f (kst c)")
      case (Done x s')
      then show ?thesis using mstep.resume_done [OF a f, of s' k] by auto
    next
      case (Switch s' f')
      then show ?thesis using mstep.resume_switch [OF a f, of s' f' k] by auto
    qed simp_all
  qed
  show "\<exists>c'. mstep k c c'" if p: "rest_of c a = None" "m_may m a (kst c) (phase_of c a)"
    using m_run_acts [OF I a p(2)]
  proof (cases "m_run k m (kst c)")
    case (Done x s')
    then show ?thesis using mstep.call_done [OF a p, of k s'] by auto
  next
    case (Switch s' f)
    then show ?thesis using mstep.call_switch [OF a p, of k s' f] by auto
  qed simp_all
qed

definition start :: "ksys \<Rightarrow> cfg" where
  "start s = \<lparr>kst = s, phase_of = (\<lambda>_. Outside), rest_of = (\<lambda>_. None)\<rparr>"

text \<open>
  C2: A mutex excludes: from a state in which it is free, however the tasks that use it are scheduled, at most
  one task is inside at any time, namely the owner; and the running task can always go on, so no lock or unlock
  fails or spins.
\<close>

theorem mutex_excludes:
  assumes "sinv w s" and "open_world (Mutex k) w" and "\<not> w_locked w k" and "w_owner w k = None" and "w_wait w (Wait_queue (Mutex k)) = Some []"
    and "(mstep k)\<^sup>*\<^sup>* (start s) c"
  shows "(\<forall>t u. phase_of c t = Inside \<longrightarrow> phase_of c u = Inside \<longrightarrow> t = u) \<and> (\<forall>t. phase_of c t = Inside \<longrightarrow> mutex_owner (kst c) k = Some t) \<and>
    (\<exists>a. active (kst c) = Some a \<and> (\<forall>m. rest_of c a \<noteq> None \<or> m_may m a (kst c) (phase_of c a) \<longrightarrow> (\<exists>c'. mstep k c c')))"
proof -
  have "minv k (start s) w" using assms(1-5) by (auto simp: minv_def start_def mutex_good_def lock_ok_def mutex_queue_def)
  then obtain w' where I: "minv k c w'" using minv_reach [OF assms(6)] by blast
  then have i: "sinv w' (kst c)" "lock_ok (w_owner w' k) (mutex_queue k w') (phase_of c)" by (auto simp: minv_def)
  have o: "w_owner w' k = mutex_owner (kst c) k" using i(1) by (auto simp: sinv_def mutex_owner_def)
  obtain a where a: "active (kst c) = Some a" using i(1) by (auto simp: sinv_def running_def)
  have "\<exists>c'. mstep k c c'" if "rest_of c a \<noteq> None \<or> m_may m a (kst c) (phase_of c a)" for m
    using minv_progress [OF I a] that by blast
  moreover have in_owner: "mutex_owner (kst c) k = Some t" if "phase_of c t = Inside" for t using i(2) that unfolding lock_ok_def o by blast
  have "t = u" if "phase_of c t = Inside" "phase_of c u = Inside" for t u using in_owner [OF that(1)] in_owner [OF that(2)] by simp
  ultimately show ?thesis using a in_owner by blast
qed

theorem mutex_excludes_witness:
  "\<exists>c s'. mstep 0 (start demo_sys) c \<and> mutex_lock 0 demo_sys = Done () s' \<and> phase_of c 2 = Inside \<and> mutex_owner (kst c) 0 = Some 2"
proof -
  have a: "active demo_sys = Some 2" "t_prio (tasks demo_sys 2) \<noteq> IDLE" by (simp_all add: demo_sys_def demo_task_def layout_defs)
  have w: "\<not> w_locked demo_world 0" "w_owner demo_world 0 = None" "w_wait demo_world (Wait_queue (Mutex 0)) = Some []"
    by (simp_all add: demo_world_def demo_sys_def demo_queues_def demo_empty_def)
  have "\<exists>s'. mutex_lock 0 demo_sys = Done () s'"
    by (simp add: mutex_lock_def spinlock_lock_def scheduler_disable_preempt_def demo_sys_def mutex_trylock_unlocked_def spinlock_unlock_def scheduler_enable_preempt_def Let_def)
  then obtain s' where l: "mutex_lock 0 demo_sys = Done () s'" by blast
  let ?c = "(start demo_sys)\<lparr>kst := s', phase_of := (\<lambda>_. Outside)(2 := Inside)\<rparr>"
  have st: "mstep 0 (start demo_sys) ?c"
    using mstep.call_done [of "start demo_sys" 2 Lock_it 0 s'] a l by (simp add: start_def)
  then have r: "(mstep 0)\<^sup>*\<^sup>* (start demo_sys) ?c" by (rule r_into_rtranclp)
  have "phase_of ?c 2 = Inside" by simp
  then have "mutex_owner (kst ?c) 0 = Some 2" using mutex_excludes [OF demo_sinv demo_open(2) w r] by blast
  then show ?thesis using st l by (intro exI [of _ ?c] exI [of _ s']) simp
qed

end
