(* ===== verification/Dirs.thy ===== *)
theory Dirs
  imports Prelude Strings Bcache Balloc Inode Files
begin

text \<open>
  Directories as lists of entries: what \<^verbatim>\<open>dir_lookup\<close> finds in a directory, and that it finds what
  \<^verbatim>\<open>dir_add_entry\<close> added (\<^verbatim>\<open>kernel/core/fs/fs.c\<close>).
\<close>

section \<open>The entries of a directory\<close>

definition dir_entry :: "(u32 \<Rightarrow> u8 list) \<Rightarrow> dinode \<Rightarrow> nat \<Rightarrow> u8 list" where
  "dir_entry V d k = take SIZEOF_DIRENT (drop (k * SIZEOF_DIRENT) (fbytes V d))"

definition dir_entries :: "(u32 \<Rightarrow> u8 list) \<Rightarrow> dinode \<Rightarrow> u8 list list" where
  "dir_entries V d = map (dir_entry V d) [0..<unat (size_d d) div SIZEOF_DIRENT]"

text \<open>The name in an entry ends at its first zero byte; an entry for inode 0 is free.\<close>

definition entry_name :: "u8 list \<Rightarrow> u8 list" where
  "entry_name e = takeWhile (\<lambda>c. c \<noteq> 0) (dirent_name e)"

definition names :: "u8 list \<Rightarrow> u8 list \<Rightarrow> bool" where
  "names name e \<longleftrightarrow> dirent_inum e \<noteq> 0 \<and> entry_name e = name"

lemma name_cmp_eq:
  assumes "length name < MAXNAME" and "0 \<notin> set name"
  shows "name_cmp e name = 0 \<longleftrightarrow> entry_name e = name"
proof -
  let ?n = "dirent_name e" let ?m = "mwrite (mwrite (\<lambda>_. 0) 0 ?n) 1024 (name @ [0])"
  have l: "length ?n \<le> 16" by (simp add: dirent_name_def MAXNAME_def)
  have tl: "length (entry_name e) \<le> length ?n" by (simp add: entry_name_def length_takeWhile_le)
  have z: "?m b = (if b < length ?n then ?n ! b else 0)" if "b < 1024" for b using that by (simp add: mwrite_def)
  have "is_cstr ?m 0 (entry_name e)"
  proof -
    have "mblock ?m 0 (length (entry_name e)) = entry_name e"
      using z tl l by (auto simp: mblock_def entry_name_def takeWhile_nth intro!: nth_equalityI)
    moreover have "0 \<notin> set (entry_name e)" by (auto simp: entry_name_def dest: set_takeWhileD)
    moreover have "?m (length (entry_name e)) = 0"
      using z [of "length (entry_name e)"] tl l nth_length_takeWhile [of "\<lambda>c. c \<noteq> 0" ?n] by (auto simp: entry_name_def)
    ultimately show ?thesis by (simp add: is_cstr_iff)
  qed
  moreover have "is_cstr ?m 1024 name"
    using assms(2) by (auto simp: is_cstr_iff mblock_def mwrite_def nth_append intro!: nth_equalityI)
  ultimately have "name_cmp e name = 0 \<longleftrightarrow> take MAXNAME (entry_name e) = take MAXNAME name"
    using strncmp_cstr [of ?m 0 "entry_name e" 1024 name MAXNAME] by (simp add: name_cmp_def)
  moreover have "take MAXNAME (entry_name e) = entry_name e" "take MAXNAME name = name" using tl l assms(1) by (simp_all add: MAXNAME_def)
  ultimately show ?thesis by simp
qed

section \<open>Looking up\<close>

lemma more_fsys: "bsys.more s = bsys.more s' \<Longrightarrow> junk s = junk s' \<and> root_i s = root_i s'" for s :: "'a fsys_scheme"
  by (cases s; cases s') simp

text \<open>What the scan makes of the first entry that fits.\<close>

definition scan_result :: "'a fsys_scheme \<Rightarrow> u8 list option \<Rightarrow> (int \<times> nat option \<times> 'a fsys_scheme) outcome" where
  "scan_result s r = (case r of None \<Rightarrow> Ret (- ENOENT, None, s) | Some e \<Rightarrow> bind_out (inode_get s (dirent_inum e)) (\<lambda>(i, s'). Ret (0, Some i, s')))"

lemma dir_scan_spec:
  fixes s :: "'a fsys_scheme"
  assumes "bstate s V {} (Suc k)" and "fs_ok (sb s)" and "ifile V (sb s) (content (islots s i))" and "dense (content (islots s i))"
    and "SIZEOF_DIRENT \<le> length (junk s)" and "\<forall>x \<in> set xs. Suc x * SIZEOF_DIRENT \<le> unat (size_d (content (islots s i)))"
    and "length name < MAXNAME" and "0 \<notin> set name"
  shows "\<exists>s'. bstate s' V {} (Suc k) \<and> bsys.more s' = bsys.more s \<and>
    dir_scan s i name (map (\<lambda>x. x * SIZEOF_DIRENT) xs) = scan_result s' (find (names name) (map (dir_entry V (content (islots s i))) xs))"
  using assms
proof (induction xs arbitrary: s)
  case Nil
  then show ?case by (auto simp: scan_result_def)
next
  case (Cons x xs)
  let ?d = "content (islots s i)" let ?e = "dir_entry V ?d x" let ?b = "take SIZEOF_DIRENT (junk s)"
  have b: "x * SIZEOF_DIRENT + SIZEOF_DIRENT \<le> unat (size_d ?d)" "length ?b = SIZEOF_DIRENT" using Cons.prems(5,6) by simp_all
  obtain s1 where s1: "inode_read s i (Kernel ?b) (word_of_nat (x * SIZEOF_DIRENT)) (word_of_nat SIZEOF_DIRENT) = Ret (int SIZEOF_DIRENT, Kernel ?e, s1)"
    "bstate s1 V {} (Suc k)" "bsys.more s1 = bsys.more s"
    using inode_read_spec [OF Cons.prems(1-4) b] by (auto simp: dir_entry_def)
  have f: "sb s1 = sb s" "islots s1 = islots s" "junk s1 = junk s" using more_isys(1,2) [OF s1(3)] more_fsys [OF s1(3)] by simp_all
  have step: "dir_scan s i name (map (\<lambda>x. x * SIZEOF_DIRENT) (x # xs)) =
    (if names name ?e then bind_out (inode_get s1 (dirent_inum ?e)) (\<lambda>(i, s'). Ret (0, Some i, s')) else dir_scan s1 i name (map (\<lambda>x. x * SIZEOF_DIRENT) xs))"
    using s1(1) name_cmp_eq [OF Cons.prems(7,8), of ?e] by (simp add: names_def)
  show ?case
  proof (cases "names name ?e")
    case True
    then show ?thesis using step s1(2,3) by (intro exI [of _ s1]) (simp add: scan_result_def)
  next
    case False
    then show ?thesis using Cons.IH [of s1] Cons.prems s1(2,3) f step by simp
  qed
qed

text \<open>A directory that is in the cache, not locked, and holds whole entries.\<close>

definition dir_ready :: "'a fsys_scheme \<Rightarrow> (u32 \<Rightarrow> u8 list) \<Rightarrow> nat \<Rightarrow> bool" where
  "dir_ready s V i \<longleftrightarrow> fs_ok (sb s) \<and> ifile V (sb s) (content (islots s i)) \<and> dense (content (islots s i)) \<and>
    type_d (content (islots s i)) = INODE_DIRECTORY \<and> i_valid (islots s i) \<and> \<not> i_locked (islots s i) \<and>
    SIZEOF_DIRENT dvd unat (size_d (content (islots s i))) \<and> SIZEOF_DIRENT \<le> length (junk s)"

lemma lock_valid:
  assumes "i_valid (islots s i)" and "\<not> i_locked (islots s i)"
  shows "inode_lock s i = Ret (0, upd_ino i (\<lambda>x. x\<lparr>i_locked := True\<rparr>) s)"
  using assms by (simp add: inode_lock_def inode_mutex_lock_def)

lemma junk_upd_ino [simp]: "junk (upd_ino i f s) = junk s" for s :: "'a fsys_scheme"
  by (simp add: upd_ino_def)

lemma dir_offsets_whole:
  assumes "SIZEOF_DIRENT dvd unat n"
  shows "dir_offsets n = map (\<lambda>x. x * SIZEOF_DIRENT) [0..<unat n div SIZEOF_DIRENT]"
proof -
  obtain m where "unat n = SIZEOF_DIRENT * m" using assms by blast
  then show ?thesis by (simp add: dir_offsets_def SIZEOF_DIRENT_def)
qed

lemma dir_lookup_spec:
  fixes s :: "'a fsys_scheme"
  assumes B: "bstate s V {} (Suc k)" and r: "dir_ready s V i" and n: "length name < MAXNAME" "0 \<notin> set name"
  shows "\<exists>s'. bstate s' V {} (Suc k) \<and> bsys.more s' = bsys.more (upd_ino i (\<lambda>x. x\<lparr>i_locked := True\<rparr>) s) \<and>
    dir_lookup s i name = bind_out (scan_result s' (find (names name) (dir_entries V (content (islots s i))))) (\<lambda>(res, j, s2). Ret (res, j, inode_unlock s2 i))"
proof -
  let ?s = "upd_ino i (\<lambda>x. x\<lparr>i_locked := True\<rparr>) s" let ?d = "content (islots s i)"
  have d: "content (islots ?s i) = ?d" "bstate ?s V {} (Suc k)" using B by simp_all
  have p: "\<forall>x \<in> set [0..<unat (size_d ?d) div SIZEOF_DIRENT]. Suc x * SIZEOF_DIRENT \<le> unat (size_d ?d)"
  proof
    fix x assume "x \<in> set [0..<unat (size_d ?d) div SIZEOF_DIRENT]"
    then have "Suc x \<le> unat (size_d ?d) div SIZEOF_DIRENT" by simp
    then have "Suc x * SIZEOF_DIRENT \<le> unat (size_d ?d) div SIZEOF_DIRENT * SIZEOF_DIRENT" by (rule mult_le_mono1)
    then show "Suc x * SIZEOF_DIRENT \<le> unat (size_d ?d)" using div_times_less_eq_dividend le_trans by blast
  qed
  obtain s' where s': "bstate s' V {} (Suc k)" "bsys.more s' = bsys.more ?s"
    "dir_scan ?s i name (map (\<lambda>x. x * SIZEOF_DIRENT) [0..<unat (size_d ?d) div SIZEOF_DIRENT]) = scan_result s' (find (names name) (map (dir_entry V ?d) [0..<unat (size_d ?d) div SIZEOF_DIRENT]))"
    using dir_scan_spec [of ?s V k i "[0..<unat (size_d ?d) div SIZEOF_DIRENT]" name] d p r n by (auto simp: dir_ready_def)
  have "dir_lookup s i name = bind_out (dir_scan ?s i name (dir_offsets (size_d ?d))) (\<lambda>(res, j, s2). Ret (res, j, inode_unlock s2 i))"
    using r lock_valid [of s i] by (simp add: dir_lookup_def dir_ready_def)
  then show ?thesis using s' r dir_offsets_whole [of "size_d ?d"] by (intro exI [of _ s']) (simp add: dir_ready_def dir_entries_def)
qed

section \<open>Adding\<close>

lemma dirent_bytes_entry:
  assumes "length name < MAXNAME" and "0 \<notin> set name" and "MAXNAME \<le> length st"
  shows "length (dirent_bytes st name inum) = SIZEOF_DIRENT" and "entry_name (dirent_bytes st name inum) = name" and "dirent_inum (dirent_bytes st name inum) = inum"
proof -
  let ?f = "name @ [0] @ drop (length name + 1) (take MAXNAME st)"
  have f: "length ?f = MAXNAME" using assms(1,3) by simp
  have b: "dirent_bytes st name inum = ?f @ le_bytes 4 inum" by (simp add: dirent_bytes_def)
  show "length (dirent_bytes st name inum) = SIZEOF_DIRENT" unfolding b using f by (simp add: SIZEOF_DIRENT_def MAXNAME_def del: append_assoc)
  have "dirent_name (dirent_bytes st name inum) = ?f" unfolding b dirent_name_def using f by (simp del: append_assoc)
  moreover have "takeWhile (\<lambda>c. c \<noteq> 0) ?f = name" by (subst takeWhile_append2) (use assms(2) in auto)
  ultimately show "entry_name (dirent_bytes st name inum) = name" by (simp only: entry_name_def)
  have "drop MAXNAME (dirent_bytes st name inum) = le_bytes 4 inum" unfolding b using f by (simp del: append_assoc)
  then show "dirent_inum (dirent_bytes st name inum) = inum" by (simp add: dirent_inum_def le32_at_def le_word_bytes)
qed

lemma dir_entries_append:
  assumes "fbytes V' d' = fbytes V d @ e" and "length e = SIZEOF_DIRENT" and "unat (size_d d) = n * SIZEOF_DIRENT"
  shows "dir_entries V' d' = dir_entries V d @ [e]"
proof -
  have l: "length (fbytes V d) = n * SIZEOF_DIRENT" "unat (size_d d') = Suc n * SIZEOF_DIRENT"
    using assms(3) arg_cong [OF assms(1), of length] assms(2) by (simp_all add: fbytes_def)
  have z: "0 < SIZEOF_DIRENT" by (simp add: SIZEOF_DIRENT_def)
  have n: "unat (size_d d) div SIZEOF_DIRENT = n" "unat (size_d d') div SIZEOF_DIRENT = Suc n" using z by (simp_all only: assms(3) l(2) nonzero_mult_div_cancel_right less_imp_neq not_sym)
  have "dir_entry V' d' x = dir_entry V d x" if "x < n" for x
  proof -
    have "Suc x * SIZEOF_DIRENT \<le> n * SIZEOF_DIRENT" using that by (intro mult_le_mono1) simp
    then show ?thesis by (simp add: dir_entry_def assms(1) l(1))
  qed
  moreover have "dir_entry V' d' n = e" by (simp add: dir_entry_def assms(1,2) l(1))
  ultimately show ?thesis by (simp add: dir_entries_def n)
qed

lemma dir_add_spec:
  fixes s :: "'a fsys_scheme"
  assumes B: "bstate s V {} (k + 38)" and r: "dir_ready s V i" and room: "room V (sb s) (content (islots s i))" and ino: "ino_ok (sb s) (ino (islots s i))"
    and n: "length name < MAXNAME" "0 \<notin> set name" and sz: "unat (size_d (content (islots s i))) + SIZEOF_DIRENT \<le> DIR_BYTES"
  shows "\<exists>s' V' e. dir_add_entry s i name inum = Ret (int SIZEOF_DIRENT, s') \<and> bstate s' V' {} (Suc k) \<and> dir_ready s' V' i \<and>
    dir_entries V' (content (islots s' i)) = dir_entries V (content (islots s i)) @ [e] \<and> entry_name e = name \<and> dirent_inum e = inum \<and>
    icache s' = icache s \<and> (\<forall>x. i_refcnt (islots s' x) = i_refcnt (islots s x))"
proof -
  let ?s = "upd_ino i (\<lambda>x. x\<lparr>i_locked := True\<rparr>) s" let ?d = "content (islots s i)" let ?off = "unat (size_d ?d)"
  let ?e = "dirent_bytes (junk s) name inum"
  have st: "MAXNAME \<le> length (junk s)" using r by (simp add: dir_ready_def SIZEOF_DIRENT_def MAXNAME_def)
  note e = dirent_bytes_entry [OF n st, of inum]
  have "bstate ?s V {} (Suc k + 3 * rounds ?off (length ?e) + 1)"
    using bstate_le [OF B] rounds_max [of ?off "length ?e"] sz e(1) by (simp add: FS_INODE_DIR_DBLKNO_def)
  moreover have "fs_ok (sb ?s)" "ifile V (sb ?s) (content (islots ?s i))" "room V (sb ?s) (content (islots ?s i))" "dense (content (islots ?s i))"
    "?off \<le> unat (size_d (content (islots ?s i)))" "?off + length ?e \<le> DIR_BYTES" "i_locked (islots ?s i)" "ino_ok (sb ?s) (ino (islots ?s i))"
    using r room ino sz e(1) by (simp_all add: dir_ready_def)
  ultimately obtain s' V' d' where w: "inode_write ?s i (Kernel ?e) (word_of_nat ?off) (word_of_nat (length ?e)) = Ret (int (length ?e), s')" "bstate s' V' {} (Suc k)"
    "bsys.more s' = bsys.more (upd_content i (\<lambda>_. d') ?s)" "ifile V' (sb ?s) d'" "dense d'" "unat (size_d d') = max ?off (?off + length ?e)"
    "\<forall>p < DIR_BYTES. fbyte V' d' p = (if ?off \<le> p \<and> p < ?off + length ?e then ?e ! (p - ?off) else fbyte V ?d p)"
    "type_d d' = type_d ?d"
    using inode_write_spec [of ?s V "Suc k" ?off "length ?e" i ?e] by auto
  have f: "sb s' = sb s" "islots s' i = (islots ?s i)\<lparr>content := d'\<rparr>" "junk s' = junk s"
    using more_isys(1,2) [OF w(3)] more_fsys [OF w(3)] by (simp_all add: upd_content_def)
  have c: "icache s' = icache s" "i_refcnt (islots s' x) = i_refcnt (islots s x)" for x
    using more_isys(2,3) [OF w(3)] by (simp_all add: upd_content_def upd_ino_def)
  have "fbytes V' d' = take ?off (fbytes V ?d) @ ?e @ drop (?off + length ?e) (fbytes V ?d)"
    using fbytes_written [OF w(6) _ _ _ w(7)] r sz e(1) by (simp add: dir_ready_def dense_def)
  then have b: "fbytes V' d' = fbytes V ?d @ ?e" by (simp add: fbytes_def)
  obtain m where m: "?off = m * SIZEOF_DIRENT" using r by (auto simp: dir_ready_def dvd_def ac_simps)
  let ?s1 = "inode_unlock s' i"
  have ready: "dir_ready ?s1 V' i" using r w(4-6,8) f m e(1) by (auto simp: dir_ready_def inode_unlock_def)
  have "dir_add_entry s i name inum = Ret (int SIZEOF_DIRENT, ?s1)"
    using w(1) n(1) r e(1) lock_valid [of s i] by (simp add: dir_add_entry_def dir_ready_def)
  moreover have "dir_entries V' (content (islots ?s1 i)) = dir_entries V ?d @ [?e]"
    using dir_entries_append [OF b e(1) m] f(2) by (simp add: inode_unlock_def)
  moreover have "icache ?s1 = icache s" "i_refcnt (islots ?s1 x) = i_refcnt (islots s x)" for x
    using c by (simp_all add: inode_unlock_def upd_ino_def)
  ultimately show ?thesis using ready w(2) e(2,3) by (intro exI [of _ ?s1] exI [of _ V'] exI [of _ ?e]) (simp add: inode_unlock_def)
qed

section \<open>The inode that is found\<close>

text \<open>
  Between \<open>s\<close> and \<open>u\<close> a reference to inode \<open>n\<close> was taken, in slot \<open>j\<close> of the inode cache: the slot that already held the inode, or
  one nobody used.  All other slots are as before.
\<close>

definition took :: "'a isys_scheme \<Rightarrow> u32 \<Rightarrow> nat \<Rightarrow> 'a isys_scheme \<Rightarrow> bool" where
  "took s n j u \<longleftrightarrow> j \<in> set (icache s) \<and> ino (islots u j) = n \<and> (ino (islots s j) = n \<or> i_refcnt (islots s j) = 0) \<and>
    i_refcnt (islots u j) = (if ino (islots s j) = n then i_refcnt (islots s j) + 1 else 1) \<and> (\<forall>x. x \<noteq> j \<longrightarrow> islots u x = islots s x)"

lemma find_SomeD: "find P xs = Some x \<Longrightarrow> x \<in> set xs \<and> P x"
  by (induction xs) (auto split: if_splits)

lemma inode_get_took:
  assumes "x \<in> set (icache s)" and "i_refcnt (islots s x) = 0"
  shows "\<exists>j u. inode_get s n = Ret (j, u) \<and> took s n j u"
proof (cases "icache_request_locked s n")
  case (Some j)
  then have "j \<in> set (icache s)" "ino (islots s j) = n" using find_SomeD by (fastforce simp: icache_request_locked_def)+
  then show ?thesis using Some by (simp add: inode_get_def Let_def took_def upd_ino_def)
next
  case None
  then have no: "ino (islots s j) \<noteq> n" if "j \<in> set (icache s)" for j using that by (auto simp: icache_request_locked_def find_None_iff)
  obtain j where j: "ifind_reusable_locked s = Some j"
    using assms find_None_iff [of "\<lambda>i. i_refcnt (islots s i) = 0" "rev (icache s)"] by (cases "ifind_reusable_locked s") (auto simp: ifind_reusable_locked_def)
  then have "j \<in> set (icache s)" "i_refcnt (islots s j) = 0" using find_SomeD by (fastforce simp: ifind_reusable_locked_def)+
  then show ?thesis using None j no by (simp add: inode_get_def took_def upd_ino_def)
qed

lemma dir_lookup_finds:
  fixes s :: "'a fsys_scheme"
  assumes B: "bstate s V {} (Suc k)" and r: "dir_ready s V i" and n: "length name < MAXNAME" "0 \<notin> set name"
    and free: "x \<in> set (icache s)" "i_refcnt (islots s x) = 0"
  shows "case find (names name) (dir_entries V (content (islots s i))) of
      None \<Rightarrow> \<exists>u. dir_lookup s i name = Ret (- ENOENT, None, u) \<and> islots u = islots s
    | Some e \<Rightarrow> \<exists>j u. dir_lookup s i name = Ret (0, Some j, u) \<and> took s (dirent_inum e) j u"
proof -
  let ?s = "upd_ino i (\<lambda>x. x\<lparr>i_locked := True\<rparr>) s"
  obtain t where t: "bsys.more t = bsys.more ?s"
    "dir_lookup s i name = bind_out (scan_result t (find (names name) (dir_entries V (content (islots s i))))) (\<lambda>(res, j, s2). Ret (res, j, inode_unlock s2 i))"
    using dir_lookup_spec [OF B r n] by blast
  have f: "islots t = (islots s)(i := (islots s i)\<lparr>i_locked := True\<rparr>)" "icache t = icache s"
    using more_isys(2,3) [OF t(1)] by (simp_all add: upd_ino_def)
  have l: "(islots s i)\<lparr>i_locked := False\<rparr> = islots s i" using r by (simp add: dir_ready_def)
  have un: "took s m j (inode_unlock u i)" if "took t m j u" for m j u
    using that l by (auto simp: took_def f inode_unlock_def upd_ino_def split: if_splits)
  show ?thesis
  proof (cases "find (names name) (dir_entries V (content (islots s i)))")
    case None
    then show ?thesis using t(2) l by (simp add: scan_result_def inode_unlock_def upd_ino_def f fun_eq_iff)
  next
    case (Some e)
    have "x \<in> set (icache t)" "i_refcnt (islots t x) = 0" using free by (auto simp: f)
    from inode_get_took [OF this] obtain j u where "inode_get t (dirent_inum e) = Ret (j, u)" "took t (dirent_inum e) j u" by blast
    then show ?thesis using Some t(2) un by (simp add: scan_result_def)
  qed
qed

text \<open>
  C12: What is added to a directory is found in it.  A name that is short enough and not yet there is added to a directory
  with room, while the inode cache has an unused slot; a look-up of it then succeeds and takes a reference to the inode it was added
  with, and a look-up of any other name does what the entries of before say: it takes a reference to the inode of the first entry
  of that name, or returns \<^verbatim>\<open>-ENOENT\<close> when there is none.
\<close>

theorem dir_add_lookup:
  fixes s :: "'a fsys_scheme"
  assumes "bstate s V {} (k + 38)" and "dir_ready s V i" and "room V (sb s) (content (islots s i))" and "ino_ok (sb s) (ino (islots s i))"
    and "length name < MAXNAME" and "0 \<notin> set name" and "unat (size_d (content (islots s i))) + SIZEOF_DIRENT \<le> DIR_BYTES" and "inum \<noteq> 0"
    and "\<forall>e \<in> set (dir_entries V (content (islots s i))). \<not> names name e"
    and "x \<in> set (icache s)" and "i_refcnt (islots s x) = 0"
  shows "\<exists>s'. dir_add_entry s i name inum = Ret (int SIZEOF_DIRENT, s') \<and>
    (\<exists>j u. dir_lookup s' i name = Ret (0, Some j, u) \<and> took s' inum j u) \<and>
    (\<forall>other. length other < MAXNAME \<longrightarrow> 0 \<notin> set other \<longrightarrow> other \<noteq> name \<longrightarrow>
      (case find (names other) (dir_entries V (content (islots s i))) of
         None \<Rightarrow> \<exists>u. dir_lookup s' i other = Ret (- ENOENT, None, u) \<and> islots u = islots s'
       | Some e \<Rightarrow> \<exists>j u. dir_lookup s' i other = Ret (0, Some j, u) \<and> took s' (dirent_inum e) j u))"
proof -
  let ?d = "content (islots s i)"
  obtain s' V' e where a: "dir_add_entry s i name inum = Ret (int SIZEOF_DIRENT, s')" "bstate s' V' {} (Suc k)" "dir_ready s' V' i"
    "dir_entries V' (content (islots s' i)) = dir_entries V ?d @ [e]" "entry_name e = name" "dirent_inum e = inum"
    "icache s' = icache s" "\<forall>x. i_refcnt (islots s' x) = i_refcnt (islots s x)"
    using dir_add_spec [OF assms(1-7)] by blast
  have free: "x \<in> set (icache s')" "i_refcnt (islots s' x) = 0" using assms(10,11) a(7,8) by simp_all
  note look = dir_lookup_finds [OF a(2,3) _ _ free, unfolded a(4)]
  have fa: "find P (xs @ [y]) = (case find P xs of None \<Rightarrow> if P y then Some y else None | Some z \<Rightarrow> Some z)" for P and xs :: "u8 list list" and y
    by (induction xs) auto
  have "find (names name) (dir_entries V ?d) = None" using assms(9) by (simp add: find_None_iff)
  then have "find (names name) (dir_entries V ?d @ [e]) = Some e" using a(5,6) assms(8) by (simp add: fa names_def)
  then have "\<exists>j u. dir_lookup s' i name = Ret (0, Some j, u) \<and> took s' inum j u" using look [OF assms(5,6)] a(6) by simp
  moreover have "case find (names y) (dir_entries V ?d) of
      None \<Rightarrow> \<exists>u. dir_lookup s' i y = Ret (- ENOENT, None, u) \<and> islots u = islots s'
    | Some e \<Rightarrow> \<exists>j u. dir_lookup s' i y = Ret (0, Some j, u) \<and> took s' (dirent_inum e) j u" if "length y < MAXNAME" "0 \<notin> set y" "y \<noteq> name" for y
  proof -
    have "find (names y) (dir_entries V ?d @ [e]) = find (names y) (dir_entries V ?d)"
      using that(3) a(5) by (simp add: fa names_def split: option.splits)
    then show ?thesis using look [OF that(1,2)] by simp
  qed
  ultimately show ?thesis using a(1) by blast
qed

text \<open>An empty directory on a small disk, in the first slot of an inode cache without other inodes.\<close>

definition cold_fsys :: fsys where
  "cold_fsys = \<lparr>disk = disk cold_sys, io_err = io_err cold_sys, bufs = bufs cold_sys, buf_list = [], sb = small_meta,
    islots = (\<lambda>x. if x = 0 then \<lparr>i_refcnt = 1, ino = 2, i_locked = False, i_valid = True, content = empty_dinode\<lparr>type_d := INODE_DIRECTORY\<rparr>\<rparr>
      else \<lparr>i_refcnt = 0, ino = 0, i_locked = False, i_valid = False, content = empty_dinode\<rparr>),
    icache = [0..<INODE_CACHE_SIZE], mem = mem cold_isys, uroot = 0, root_i = 0,
    ftable = (\<lambda>_. \<lparr>f_refcnt = 0, f_inode = 0, f_off = 0, f_mode = 0, w_op = No_op, r_op = No_op\<rparr>), dev_map = (\<lambda>_. \<lparr>dev_w = No_op, dev_r = No_op\<rparr>),
    junk = replicate 1024 7\<rparr>"

definition small_fsys :: fsys where
  "small_fsys = bcache_init cold_fsys"

theorem dir_add_lookup_witness:
  "\<exists>s' j u u'. dir_add_entry small_fsys 0 [98, 105, 110] 5 = Ret (20, s') \<and>
    dir_lookup s' 0 [98, 105, 110] = Ret (0, Some j, u) \<and> ino (islots u j) = 5 \<and> dir_lookup s' 0 [98] = Ret (- ENOENT, None, u')"
proof -
  let ?d = "empty_dinode\<lparr>type_d := INODE_DIRECTORY\<rparr>" let ?V = "\<lambda>_ :: u32. replicate FS_BLK_SIZE 0 :: u8 list"
  have "cold cold_fsys" using cold_cold_sys by (simp add: cold_def cold_fsys_def cold_sys_def)
  then have b: "bstate small_fsys ?V {} (26 + 38)"
    using clean_bstate [of cold_fsys] by (simp add: small_fsys_def NBUF_def) (simp add: cold_fsys_def cold_sys_def)
  have f: "sb small_fsys = small_meta" "islots small_fsys = islots cold_fsys" "icache small_fsys = icache cold_fsys" "junk small_fsys = junk cold_fsys"
    using more_isys(1-3) [OF bcache_init_more [of cold_fsys]] more_fsys [OF bcache_init_more [of cold_fsys]] by (simp_all add: small_fsys_def cold_fsys_def)
  have c: "content (islots small_fsys 0) = ?d" by (simp add: f cold_fsys_def)
  have z: "size_d ?d = 0" by (simp add: empty_dinode_def)
  have "ifile ?V small_meta ?d" "dense ?d" "room ?V small_meta ?d" using empty_file by (simp_all add: ifile_def dense_def room_def)
  then have r: "dir_ready small_fsys ?V 0" "room ?V (sb small_fsys) (content (islots small_fsys 0))"
    using small_sys_ok(2) c z by (simp_all add: dir_ready_def f(1)) (simp_all add: f cold_fsys_def SIZEOF_DIRENT_def)
  have n: "ino_ok (sb small_fsys) (ino (islots small_fsys 0))" by (simp add: f cold_fsys_def ino_ok_def small_meta_def INODES_PER_BLK_def)
  have e: "dir_entries ?V ?d = []" by (simp add: dir_entries_def z)
  have "1 \<in> set (icache small_fsys)" "i_refcnt (islots small_fsys 1) = 0" by (simp_all add: f cold_fsys_def INODE_CACHE_SIZE_def)
  then obtain s' where s': "dir_add_entry small_fsys 0 [98, 105, 110] 5 = Ret (int SIZEOF_DIRENT, s')"
    "\<exists>j u. dir_lookup s' 0 [98, 105, 110] = Ret (0, Some j, u) \<and> took s' 5 j u"
    "\<forall>other. length other < MAXNAME \<longrightarrow> 0 \<notin> set other \<longrightarrow> other \<noteq> [98, 105, 110] \<longrightarrow> (\<exists>u. dir_lookup s' 0 other = Ret (- ENOENT, None, u) \<and> islots u = islots s')"
    using dir_add_lookup [OF b r(1,2) n, of "[98, 105, 110]" 5 1] z e
    by (auto simp: c MAXNAME_def SIZEOF_DIRENT_def DIR_BYTES_def FS_INODE_DIR_DBLKNO_def FS_BLK_SIZE_def)
  from s'(3) [rule_format, of "[98]"] s'(1,2) show ?thesis by (auto simp: took_def SIZEOF_DIRENT_def MAXNAME_def)
qed

end
