(* ===== verification/Mount.thy ===== *)
theory Mount
  imports Prelude Bcache Balloc Inode Files Dirs
begin

unbundle bit_operations_syntax

text \<open>
  From the boot of the file system to the bytes of a file: \<^verbatim>\<open>fs_init\<close> reads the superblock and the root directory,
  \<^verbatim>\<open>file_open\<close> finds a file in it and \<^verbatim>\<open>file_read\<close> delivers its bytes (\<^verbatim>\<open>kernel/core/fs\<close>).
\<close>

section \<open>Loading an inode\<close>

lemma release_upd_content: "bcache_release (upd_content i f s) c = upd_content i f (bcache_release s c)" for s :: "'a isys_scheme"
  by (simp add: bcache_release_def upd_content_def upd_ino_def upd_blk_def)

lemma release_sb: "bcache_release (s\<lparr>sb := m\<rparr>) c = (bcache_release s c)\<lparr>sb := m\<rparr>"
  by (simp add: bcache_release_def upd_blk_def)

lemma bstate_cong:
  assumes "bufs s = bufs s'" and "buf_list s = buf_list s'" and "disk s = disk s'" and "io_err s = io_err s'"
  shows "bstate s V H k = bstate s' V H k"
proof -
  have "view s = view s'" using assms by (simp add: fun_eq_iff view_def cache_request_locked_def split: option.split)
  moreover have "bc_inv s = bc_inv s'" using assms by (simp add: bc_inv_def)
  ultimately show ?thesis using assms by (simp add: bstate_def held_def reusable_def)
qed

lemma bstate_sb [simp]: "bstate (s\<lparr>sb := m\<rparr>) V H k = bstate s V H k"
  by (rule bstate_cong) simp_all

definition table_inode :: "(u32 \<Rightarrow> u8 list) \<Rightarrow> fs_meta \<Rightarrow> u32 \<Rightarrow> dinode" where
  "table_inode V m n = tab_entry (V (itab_blk m n)) (get_tab_idx n)"

lemma inode_lock_loads:
  fixes s :: "'a isys_scheme"
  assumes B: "bstate s V {} (Suc k)" and ok: "fs_ok (sb s)" and n: "ino_ok (sb s) (ino (islots s i))"
    and i: "\<not> i_locked (islots s i)" "\<not> i_valid (islots s i)"
  shows "\<exists>s'. inode_lock s i = Ret (0, s') \<and> bstate s' V {} (Suc k) \<and>
    bsys.more s' = bsys.more (upd_ino i (\<lambda>x. x\<lparr>i_locked := True, content := table_inode V (sb s) (ino x), i_valid := True\<rparr>) s)"
proof -
  let ?s = "upd_ino i (\<lambda>x. x\<lparr>i_locked := True\<rparr>) s" let ?b = "itab_blk (sb s) (ino (islots s i))"
  let ?d = "table_inode V (sb s) (ino (islots s i))"
  note g = itab_blk_good [OF ok n]
  have "bstate ?s V {} (Suc k)" using B by simp
  from bs.access [OF this g(1)] obtain c s1 where a: "bcache_read ?s ?b = Ret (Some c, s1)" "buf (bufs s1 c) = V ?b" "bsys.more s1 = bsys.more ?s"
    "bstate (bcache_release s1 c) V {} (Suc k)" "bsys.more (bcache_release s1 c) = bsys.more ?s" by auto
  let ?s' = "upd_ino i (\<lambda>x. x\<lparr>i_valid := True\<rparr>) (upd_content i (\<lambda>_. ?d) (bcache_release s1 c))"
  have f: "ino (islots s1 i) = ino (islots s i)" using more_isys(2) [OF a(3)] by simp
  have "inode_lock s i = Ret (0, ?s')"
    using i a(1,2) g(2) good_sint [OF g(1)] f by (simp add: inode_lock_def inode_mutex_lock_def release_upd_content table_inode_def Let_def not_less)
  moreover have "bstate ?s' V {} (Suc k)" using a(4) by (simp add: upd_content_def)
  moreover have "bsys.more ?s' = bsys.more (upd_ino i (\<lambda>x. x\<lparr>i_valid := True\<rparr>) (upd_content i (\<lambda>_. ?d) ?s))"
    unfolding upd_content_def by (intro more_upd_ino a(5))
  then have "bsys.more ?s' = bsys.more (upd_ino i (\<lambda>x. x\<lparr>i_locked := True, content := table_inode V (sb s) (ino x), i_valid := True\<rparr>) s)"
    by (simp add: upd_content_def upd_ino_def)
  ultimately show ?thesis by blast
qed

section \<open>Mounting\<close>

text \<open>The static state before the kernel starts: no inode and no file is in use.\<close>

definition boot_fsys :: "'a fsys_scheme \<Rightarrow> bool" where
  "boot_fsys s \<longleftrightarrow> cold s \<and> icache s = [] \<and> (\<forall>i. i_refcnt (islots s i) = 0) \<and> (\<forall>f. f_refcnt (ftable s f) = 0) \<and> SIZEOF_DIRENT \<le> length (junk s)"

text \<open>The state after \<^verbatim>\<open>fs_init\<close>: the root directory is in slot 0, all other slots are free.\<close>

definition mounted :: "'a fsys_scheme \<Rightarrow> (u32 \<Rightarrow> u8 list) \<Rightarrow> fs_meta \<Rightarrow> bool" where
  "mounted s V m \<longleftrightarrow> bstate s V {} NBUF \<and> sb s = m \<and> root_i s = 0 \<and> icache s = rev [0..<INODE_CACHE_SIZE] \<and>
    islots s 0 = \<lparr>i_refcnt = 1, ino = FS_ROOT_INODE_ID, i_locked = False, i_valid = True, content = table_inode V m FS_ROOT_INODE_ID\<rparr> \<and>
    (\<forall>i. 0 < i \<and> i < INODE_CACHE_SIZE \<longrightarrow> i_refcnt (islots s i) = 0 \<and> ino (islots s i) = UINT32_MAX \<and> \<not> i_locked (islots s i)) \<and>
    (\<forall>f. f_refcnt (ftable s f) = 0) \<and> SIZEOF_DIRENT \<le> length (junk s)"

lemma inode_init_state:
  fixes s :: "'a isys_scheme"
  assumes "icache s = []"
  shows "inode_init s = (s\<lparr>islots := (\<lambda>i. if i < INODE_CACHE_SIZE then (islots s i)\<lparr>ino := UINT32_MAX, i_locked := False\<rparr> else islots s i),
    icache := rev [0..<INODE_CACHE_SIZE]\<rparr>, 0)"
proof -
  have "distinct xs \<Longrightarrow> fold (\<lambda>i s. (upd_ino i (\<lambda>n. n\<lparr>ino := UINT32_MAX, i_locked := False\<rparr>) s)\<lparr>icache := i # icache s\<rparr>) xs s =
    s\<lparr>islots := (\<lambda>i. if i \<in> set xs then (islots s i)\<lparr>ino := UINT32_MAX, i_locked := False\<rparr> else islots s i), icache := rev xs @ icache s\<rparr>" for xs and s :: "'a isys_scheme"
  proof (induction xs arbitrary: s)
    case (Cons x xs)
    then show ?case by (auto simp: upd_ino_def fun_eq_iff intro!: arg_cong [where f = "\<lambda>z. s\<lparr>islots := z, icache := _\<rparr>"])
  qed simp
  from this [of "[0..<INODE_CACHE_SIZE]" s] show ?thesis using assms by (simp add: inode_init_def)
qed

text \<open>The superblock as \<^verbatim>\<open>check_format\<close> reads it.\<close>

lemma check_format_reads:
  fixes s :: "'a fsys_scheme"
  assumes "bstate s V {} (Suc k)" and m: "m = fs_meta_of (V FS_SUPERBLK)" "magic m = FS_MAGIC_NUMBER" "blk_size m = word_of_nat FS_BLK_SIZE"
  shows "\<exists>s'. check_format s = Ret (0, s') \<and> bstate s' V {} (Suc k) \<and> bsys.more s' = bsys.more (s\<lparr>sb := m\<rparr>)"
proof -
  have g: "good_no FS_SUPERBLK" by (simp add: good_no_def FS_SUPERBLK_def)
  from bs.access [OF assms(1) g] obtain c s1 where a: "bcache_read s FS_SUPERBLK = Ret (Some c, s1)" "buf (bufs s1 c) = V FS_SUPERBLK"
    "bstate (bcache_release s1 c) V {} (Suc k)" "bsys.more (bcache_release s1 c) = bsys.more s" by auto
  have "check_format s = Ret (0, (bcache_release s1 c)\<lparr>sb := m\<rparr>)" using a(1,2) m by (simp add: check_format_def release_sb Let_def)
  moreover have "bsys.more ((bcache_release s1 c)\<lparr>sb := m\<rparr>) = bsys.more (s\<lparr>sb := m\<rparr>)"
    using a(4) by (cases s; cases "bcache_release s1 c") simp
  ultimately show ?thesis using a(3) by simp
qed

lemma more_files: "bsys.more s = bsys.more s' \<Longrightarrow> ftable s = ftable s' \<and> dev_map s = dev_map s'" for s :: "'a fsys_scheme"
  by (cases s; cases s') simp

lemma bstate_slots [simp]: "bstate (s\<lparr>islots := x\<rparr>) V H k = bstate s V H k" "bstate (s\<lparr>icache := y\<rparr>) V H k = bstate s V H k"
  for s :: "'a isys_scheme"
  by (rule bstate_cong; simp)+

lemma bstate_files [simp]: "bstate (s\<lparr>root_i := x\<rparr>) V H k = bstate s V H k" "bstate (upd_file f g s) V H k = bstate s V H k" for s :: "'a fsys_scheme"
  by (rule bstate_cong; simp add: upd_file_def)+

lemma fs_init_mounts:
  fixes s :: "'a fsys_scheme"
  assumes b: "boot_fsys s" and V: "V = (\<lambda>n. disk s (get_sector n))"
    and m: "m = fs_meta_of (V FS_SUPERBLK)" "magic m = FS_MAGIC_NUMBER" "blk_size m = word_of_nat FS_BLK_SIZE" "fs_ok m" "ino_ok m FS_ROOT_INODE_ID"
    and r: "type_d (table_inode V m FS_ROOT_INODE_ID) = INODE_DIRECTORY"
  shows "\<exists>s'. fs_init s = Ret (0, s') \<and> mounted s' V m"
proof -
  have N: "NBUF = Suc 63" by (simp add: NBUF_def)
  have "bstate (bcache_init s) V {} NBUF" using clean_bstate [of s] b by (simp add: V boot_fsys_def)
  from check_format_reads [OF this [unfolded N] m(1-3)] obtain s1 where s1: "check_format (bcache_init s) = Ret (0, s1)" "bstate s1 V {} NBUF"
    "bsys.more s1 = bsys.more ((bcache_init s)\<lparr>sb := m\<rparr>)" by (auto simp: N)
  have "bsys.more ((bcache_init s)\<lparr>sb := m\<rparr>) = bsys.more (s\<lparr>sb := m\<rparr>)"
    using bcache_init_more [of s] by (cases s; cases "bcache_init s") simp
  then have e: "bsys.more s1 = bsys.more (s\<lparr>sb := m\<rparr>)" using s1(3) by simp
  have f: "sb s1 = m" "islots s1 = islots s" "icache s1 = []" "junk s1 = junk s" "ftable s1 = ftable s"
    using more_isys(1-3) [OF e] more_fsys [OF e] more_files [OF e] b by (simp_all add: boot_fsys_def)
  let ?sl = "\<lambda>i. if i < INODE_CACHE_SIZE then (islots s i)\<lparr>ino := UINT32_MAX, i_locked := False\<rparr> else islots s i"
  let ?s2 = "s1\<lparr>islots := ?sl, icache := rev [0..<INODE_CACHE_SIZE]\<rparr>"
  have i2: "inode_init s1 = (?s2, 0)" using inode_init_state [OF f(3)] unfolding f(2) .
  let ?x = "\<lambda>x. x\<lparr>ino := FS_ROOT_INODE_ID, i_refcnt := 1, i_valid := False\<rparr>"
  have "icache_request_locked ?s2 FS_ROOT_INODE_ID = None"
    by (auto simp: icache_request_locked_def find_None_iff FS_ROOT_INODE_ID_def UINT32_MAX_def)
  moreover have "ifind_reusable_locked ?s2 = Some 0"
    using b by (simp add: ifind_reusable_locked_def boot_fsys_def INODE_CACHE_SIZE_def upt_conv_Cons)
  ultimately have g: "inode_get ?s2 FS_ROOT_INODE_ID = Ret (0, upd_ino 0 ?x ?s2)" by (simp add: inode_get_def)
  let ?s3 = "(upd_ino 0 ?x ?s2)\<lparr>root_i := 0\<rparr>"
  have "bstate ?s3 V {} (Suc 63)" using s1(2) by (simp add: N)
  from inode_lock_loads [OF this, of 0] obtain s4 where s4: "inode_lock ?s3 0 = Ret (0, s4)" "bstate s4 V {} NBUF"
    "bsys.more s4 = bsys.more (upd_ino 0 (\<lambda>x. x\<lparr>i_locked := True, content := table_inode V m (ino x), i_valid := True\<rparr>) ?s3)"
    using m(4,5) f(1) by (auto simp: N INODE_CACHE_SIZE_def)
  have f4: "sb s4 = m" "islots s4 = (islots ?s3)(0 := (islots ?s3 0)\<lparr>i_locked := True, content := table_inode V m FS_ROOT_INODE_ID, i_valid := True\<rparr>)"
    "icache s4 = rev [0..<INODE_CACHE_SIZE]" "junk s4 = junk s" "root_i s4 = 0" "ftable s4 = ftable s"
    using more_isys(1-3) [OF s4(3)] more_fsys [OF s4(3)] more_files [OF s4(3)] f by (simp_all add: upd_ino_def)
  have "fs_init s = Ret (0, inode_unlock s4 0)" using s1(1) i2 g s4(1) f4(2) r by (simp add: fs_init_def set_root_def Let_def)
  moreover have "mounted (inode_unlock s4 0) V m"
    using s4(2) f4 b by (auto simp: mounted_def inode_unlock_def boot_fsys_def upd_ino_def INODE_CACHE_SIZE_def)
  ultimately show ?thesis by blast
qed

section \<open>Opening\<close>

lemma split_at_none: "d \<notin> set p \<Longrightarrow> split_at d p = [p]"
  by (induction p) auto

lemma path_tokens_root: "47 \<notin> set name \<Longrightarrow> name \<noteq> [] \<Longrightarrow> path_tokens (47 # name) = [name]"
  by (simp add: path_tokens_def split_at_none)

lemma find_append: "find P (xs @ ys) = (case find P xs of None \<Rightarrow> find P ys | Some x \<Rightarrow> Some x)"
  by (induction xs) auto

lemma slots_split: "rev [0..<INODE_CACHE_SIZE] = rev [1..<INODE_CACHE_SIZE] @ [0]" "[Suc 0..<INODE_CACHE_SIZE] = Suc 0 # [2..<INODE_CACHE_SIZE]"
  by (simp_all add: INODE_CACHE_SIZE_def upt_conv_Cons)

lemma get_root:
  fixes s :: "'a fsys_scheme"
  assumes "mounted s V m"
  shows "inode_get s FS_ROOT_INODE_ID = Ret (0, (upd_ino 0 (\<lambda>x. x\<lparr>i_refcnt := 2\<rparr>) s)\<lparr>icache := 0 # rev [1..<INODE_CACHE_SIZE]\<rparr>)"
proof -
  have "find (\<lambda>i. ino (islots s i) = FS_ROOT_INODE_ID) (rev [1..<INODE_CACHE_SIZE]) = None"
    using assms by (auto simp: mounted_def find_None_iff FS_ROOT_INODE_ID_def UINT32_MAX_def)
  then have "icache_request_locked s FS_ROOT_INODE_ID = Some 0"
    using assms by (simp add: icache_request_locked_def mounted_def slots_split(1) find_append)
  moreover have "remove1 0 (rev [0..<INODE_CACHE_SIZE]) = rev [1..<INODE_CACHE_SIZE]" by (simp add: slots_split(1) remove1_append)
  moreover have "islots s 0\<lparr>i_refcnt := i_refcnt (islots s 0) + 1\<rparr> = islots s 0\<lparr>i_refcnt := 2\<rparr>" using assms by (simp add: mounted_def)
  ultimately show ?thesis using assms by (simp add: inode_get_def mounted_def upd_ino_def)
qed

definition good_dir :: "(u32 \<Rightarrow> u8 list) \<Rightarrow> fs_meta \<Rightarrow> dinode \<Rightarrow> bool" where
  "good_dir V m d \<longleftrightarrow> ifile V m d \<and> dense d \<and> type_d d = INODE_DIRECTORY \<and> SIZEOF_DIRENT dvd unat (size_d d)"

text \<open>A path with one name, for which the root directory has an entry, leads to slot 1.\<close>

lemma path_found:
  fixes s :: "'a fsys_scheme"
  assumes M: "mounted s V m" and ok: "fs_ok m" and d: "good_dir V m (table_inode V m FS_ROOT_INODE_ID)"
    and name: "name \<noteq> []" "length name < MAXNAME" "0 \<notin> set name" "47 \<notin> set name"
    and e: "find (names name) (dir_entries V (table_inode V m FS_ROOT_INODE_ID)) = Some e" "dirent_inum e \<noteq> FS_ROOT_INODE_ID" "dirent_inum e \<noteq> UINT32_MAX"
  shows "\<exists>s'. fs_inode_from_path s (47 # name) O_R INODE_FILE = Ret (Inr 1, s') \<and> bstate s' V {} NBUF \<and> sb s' = m \<and> ftable s' = ftable s \<and>
    ino (islots s' 1) = dirent_inum e \<and> \<not> i_locked (islots s' 1) \<and> \<not> i_valid (islots s' 1)"
proof -
  let ?s1 = "(upd_ino 0 (\<lambda>x. x\<lparr>i_refcnt := 2\<rparr>) s)\<lparr>icache := 0 # rev [1..<INODE_CACHE_SIZE]\<rparr>"
  have N: "NBUF = Suc 63" by (simp add: NBUF_def)
  have B1: "bstate ?s1 V {} (Suc 63)" using M by (simp add: mounted_def N)
  have c: "content (islots ?s1 0) = table_inode V m FS_ROOT_INODE_ID" using M by (simp add: mounted_def)
  have "dir_ready ?s1 V 0" using M ok d by (simp add: dir_ready_def mounted_def good_dir_def upd_ino_def)
  from dir_lookup_spec [OF B1 this name(2,3)] obtain s2 where s2: "bstate s2 V {} NBUF" "bsys.more s2 = bsys.more (upd_ino 0 (\<lambda>x. x\<lparr>i_locked := True\<rparr>) ?s1)"
    "dir_lookup ?s1 0 name = bind_out (scan_result s2 (Some e)) (\<lambda>(res, j, s2). Ret (res, j, inode_unlock s2 0))"
    unfolding c e(1) by (auto simp: N)
  have f: "icache s2 = 0 # rev [1..<INODE_CACHE_SIZE]" "islots s2 = (islots s)(0 := (islots s 0)\<lparr>i_refcnt := 2, i_locked := True\<rparr>)" "sb s2 = m" "ftable s2 = ftable s"
    using more_isys(1-3) [OF s2(2)] more_files [OF s2(2)] M by (simp_all add: upd_ino_def mounted_def)
  have "icache_request_locked s2 (dirent_inum e) = None"
    using e(2,3) M by (auto simp: icache_request_locked_def f find_None_iff mounted_def)
  moreover have "i_refcnt (islots s 1) = 0" using M by (simp add: mounted_def INODE_CACHE_SIZE_def)
  then have "ifind_reusable_locked s2 = Some 1" by (simp add: ifind_reusable_locked_def f slots_split(2))
  ultimately have g: "inode_get s2 (dirent_inum e) = Ret (1, upd_ino 1 (\<lambda>x. x\<lparr>ino := dirent_inum e, i_refcnt := 1, i_valid := False\<rparr>) s2)"
    by (simp add: inode_get_def)
  let ?s3 = "inode_unlock (upd_ino 1 (\<lambda>x. x\<lparr>ino := dirent_inum e, i_refcnt := 1, i_valid := False\<rparr>) s2) 0"
  let ?s4 = "upd_ino 0 (\<lambda>x. x\<lparr>i_refcnt := i_refcnt x - 1\<rparr>) ?s3"
  have l: "dir_lookup ?s1 0 name = Ret (0, Some 1, ?s3)" using s2(3) g by (simp add: scan_result_def)
  have p: "inode_put ?s3 0 = Ret ?s4" using M by (simp add: inode_put_def inode_unlock_def f)
  have "ino (islots s (root_i s)) = FS_ROOT_INODE_ID" using M by (simp add: mounted_def)
  then have "fs_inode_from_path s (47 # name) O_R INODE_FILE = Ret (Inr 1, ?s4)"
    using get_root [OF M] name l p path_tokens_root [OF name(4,1)]
    by (simp add: fs_inode_from_path_def FS_MAX_PATH_def MAXNAME_def ENOENT_def Let_def)
  moreover have "\<not> i_locked (islots s 1)" using M by (simp add: mounted_def INODE_CACHE_SIZE_def)
  ultimately show ?thesis using s2(1) f by (intro exI [of _ ?s4]) (simp add: inode_unlock_def upd_ino_def)
qed

lemma file_read_first:
  assumes "r_op (ftable s f) = File_op" and "f_mode (ftable s f) AND ucast O_R \<noteq> 0" and "f_inode (ftable s f) = i" and "inode_lock s i = Ret (0, s1)"
    and "f_off (ftable s1 f) = 0" and "inode_read s1 i dst 0 n = Ret (r, dst', s2)" and "0 \<le> r"
  shows "\<exists>s3. file_read drv s f dst n = Ret (r, dst', s3)"
  using assms by (simp add: file_read_def file_reader_def Let_def)

text \<open>Opening such a path and reading from the start delivers the bytes of the file.\<close>

lemma open_and_read:
  fixes s :: "'a fsys_scheme"
  assumes M: "mounted s V m" and ok: "fs_ok m" and d: "good_dir V m (table_inode V m FS_ROOT_INODE_ID)"
    and name: "name \<noteq> []" "length name < MAXNAME" "0 \<notin> set name" "47 \<notin> set name"
    and e: "find (names name) (dir_entries V (table_inode V m FS_ROOT_INODE_ID)) = Some e" "dirent_inum e \<noteq> FS_ROOT_INODE_ID" "dirent_inum e \<noteq> UINT32_MAX"
    and x: "ino_ok m (dirent_inum e)" "ifile V m (table_inode V m (dirent_inum e))" "dense (table_inode V m (dirent_inum e))"
      "type_d (table_inode V m (dirent_inum e)) = INODE_FILE"
    and n: "length b = unat (size_d (table_inode V m (dirent_inum e)))"
  shows "\<exists>f s1 s2. file_open s (47 # name) O_R = Ret (Inr f, s1) \<and>
    file_read drv s1 f (Kernel b) (word_of_nat (length b)) = Ret (int (length b), Kernel (fbytes V (table_inode V m (dirent_inum e))), s2)"
proof -
  let ?d = "table_inode V m (dirent_inum e)"
  have N: "NBUF = Suc 63" by (simp add: NBUF_def)
  obtain s1 where s1: "fs_inode_from_path s (47 # name) O_R INODE_FILE = Ret (Inr 1, s1)" "bstate s1 V {} (Suc 63)" "sb s1 = m" "ftable s1 = ftable s"
    "ino (islots s1 1) = dirent_inum e" "\<not> i_locked (islots s1 1)" "\<not> i_valid (islots s1 1)"
    using path_found [OF M ok d name e] by (auto simp: N)
  from inode_lock_loads [OF s1(2), of 1] obtain s2 where s2: "inode_lock s1 1 = Ret (0, s2)" "bstate s2 V {} (Suc 63)"
    "bsys.more s2 = bsys.more (upd_ino 1 (\<lambda>x. x\<lparr>i_locked := True, content := table_inode V m (ino x), i_valid := True\<rparr>) s1)"
    using ok x(1) s1(3,5-7) by auto
  have f2: "islots s2 1 = (islots s1 1)\<lparr>i_locked := True, content := ?d, i_valid := True\<rparr>" "sb s2 = m"
    using more_isys(1,2) [OF s2(3)] s1(3,5) by simp_all
  have "f_refcnt (ftable s1 0) = 0" using M s1(4) by (simp add: mounted_def)
  then have fa: "file_alloc s1 = Some 0" by (simp add: file_alloc_def FILE_MAX_NUM_def upt_conv_Cons)
  let ?s3 = "upd_file 0 (\<lambda>x. x\<lparr>f_inode := 1, f_mode := 1, f_off := 0, f_refcnt := 1\<rparr>)
    (inode_unlock (upd_file 0 (\<lambda>x. x\<lparr>r_op := File_op, w_op := File_op\<rparr>) s2) 1)"
  have o: "file_open s (47 # name) O_R = Ret (Inr 0, ?s3)"
    using s1(1) fa s2(1) f2(1) x(4) by (simp add: file_open_def O_R_def O_MODE_MASK_def INODE_FILE_def INODE_DEVICE_def Let_def)
  have i3: "islots ?s3 1 = (islots s1 1)\<lparr>i_locked := False, content := ?d, i_valid := True\<rparr>" "sb ?s3 = m"
    using f2 by (simp_all add: upd_file_def inode_unlock_def upd_ino_def)
  let ?s4 = "upd_ino 1 (\<lambda>x. x\<lparr>i_locked := True\<rparr>) ?s3"
  have l: "inode_lock ?s3 1 = Ret (0, ?s4)" by (rule lock_valid; (simp only: i3)?; simp)
  have B4: "bstate ?s4 V {} (Suc 63)" using s2(2) by (simp add: inode_unlock_def)
  have c4: "content (islots ?s4 1) = ?d" "sb ?s4 = m" using i3 by simp_all
  obtain s5 where s5: "inode_read ?s4 1 (Kernel b) 0 (word_of_nat (length b)) = Ret (int (length b), Kernel (take (length b) (fbytes V ?d)), s5)"
    using inode_read_spec [OF B4, of 1 0 "length b" b] ok x(2,3) n unfolding c4 by auto
  have t: "ftable ?s4 0 = (ftable s2 0)\<lparr>r_op := File_op, w_op := File_op, f_inode := 1, f_mode := 1, f_off := 0, f_refcnt := 1\<rparr>"
    by (simp add: upd_file_def inode_unlock_def upd_ino_def)
  have off: "f_off (ftable ?s4 0) = 0" unfolding t by simp
  have t3: "ftable ?s3 0 = ftable ?s4 0" by (simp add: upd_ino_def)
  have tb: "take (length b) (fbytes V ?d) = fbytes V ?d" using n by (simp add: fbytes_def)
  have "r_op (ftable ?s3 0) = File_op" "f_mode (ftable ?s3 0) AND ucast O_R \<noteq> 0" "f_inode (ftable ?s3 0) = 1"
    unfolding t3 t by (simp_all add: O_R_def)
  from file_read_first [OF this l off s5 [unfolded tb]]
  have "\<exists>s6. file_read drv ?s3 0 (Kernel b) (word_of_nat (length b)) = Ret (int (length b), Kernel (fbytes V ?d), s6)" by simp
  then show ?thesis using o by blast
qed

end
