(* ===== verification/Mkfs.thy ===== *)
theory Mkfs
  imports Prelude Strings Bitmap Bcache Balloc Inode Files Dirs Mount
begin

text \<open>
  The tool that makes the disk image (\<^verbatim>\<open>tools/mkfs.c\<close>), and that the kernel finds in the image what the tool
  put there.  The files of the host and the outcomes of its calls are parameters, the record \<open>host\<close>; the size
  of the disk in megabytes, \<^verbatim>\<open>DISK_SIZE_M\<close>, is the parameter \<open>m\<close>.
\<close>

section \<open>The host\<close>

text \<open>
  A file of the host: the size \<^verbatim>\<open>fstat\<close> tells, if it succeeds, what the calls of \<^verbatim>\<open>read\<close> deliver one after the other,
  and whether the last call reports the end of the file or an error.
\<close>

record host_file =
  hf_stat :: "u64 option"
  hf_reads :: "u8 list list"
  hf_end :: bool

text \<open>The result of the \<open>n\<close>-th \<^verbatim>\<open>pwrite\<close>, when it does not write everything.\<close>

record host =
  h_files :: "u8 list \<Rightarrow> host_file option"
  h_open_disk :: bool
  h_ftruncate :: bool
  h_short :: "nat \<Rightarrow> int option"

record mkfs_state =
  img :: "nat \<Rightarrow> u8"
  i_allocated :: int
  blk_allocated :: int
  root_di :: dinode
  nb_writes :: nat

definition pwrite :: "host \<Rightarrow> u8 list \<Rightarrow> int \<Rightarrow> mkfs_state \<Rightarrow> int \<times> mkfs_state" where
  "pwrite h bs off st =
    (let st1 = st\<lparr>nb_writes := nb_writes st + 1\<rparr> in
     case h_short h (nb_writes st) of
       None \<Rightarrow> (int (length bs), st1\<lparr>img := mwrite (img st) (nat off) bs\<rparr>)
     | Some r \<Rightarrow> (r, if r < 0 then st1 else st1\<lparr>img := mwrite (img st) (nat off) (take (nat r) bs)\<rparr>))"

section \<open>The layout\<close>

definition DISK_SIZE :: "int \<Rightarrow> int" where "DISK_SIZE m = m * 2 ^ 20"
definition FS_NB_BLK :: "int \<Rightarrow> int" where "FS_NB_BLK m = DISK_SIZE m div int FS_BLK_SIZE"
definition FS_NB_RESERVED :: int where [layout_defs]: "FS_NB_RESERVED = 1"
definition FS_NB_SUPERBLK :: int where [layout_defs]: "FS_NB_SUPERBLK = 1"
definition FS_NB_IBM :: int where [layout_defs]: "FS_NB_IBM = 2"
definition FS_NB_DBM :: int where [layout_defs]: "FS_NB_DBM = 2"
definition FS_NB_ITAB :: int where [layout_defs]: "FS_NB_ITAB = 5"
definition FS_NB_DBLK :: "int \<Rightarrow> int" where
  "FS_NB_DBLK m = FS_NB_BLK m - FS_NB_ITAB - FS_NB_IBM - FS_NB_DBM - FS_NB_SUPERBLK - FS_NB_RESERVED"
definition FS_NB_INODES :: int where "FS_NB_INODES = FS_NB_ITAB * int FS_BLK_SIZE div 64"

definition superblock :: "int \<Rightarrow> fs_meta" where
  "superblock m =
    \<lparr>magic = FS_MAGIC_NUMBER, nb_blk = word_of_int (FS_NB_BLK m), blk_size = word_of_nat FS_BLK_SIZE,
     nb_ibm = word_of_int FS_NB_IBM, nb_dbm = word_of_int FS_NB_DBM, nb_itab = word_of_int FS_NB_ITAB,
     nb_dblk = word_of_int (FS_NB_DBLK m),
     ibm_start = FS_SUPERBLK + word_of_int FS_NB_SUPERBLK,
     dbm_start = FS_SUPERBLK + word_of_int (FS_NB_SUPERBLK + FS_NB_IBM),
     itab_start = FS_SUPERBLK + word_of_int (FS_NB_SUPERBLK + FS_NB_IBM + FS_NB_DBM),
     data_start = FS_SUPERBLK + word_of_int (FS_NB_SUPERBLK + FS_NB_IBM + FS_NB_DBM + FS_NB_ITAB)\<rparr>"

definition fs_meta_bytes :: "fs_meta \<Rightarrow> u8 list" where
  "fs_meta_bytes m =
    concat (map (le_bytes 4) [magic m, nb_blk m, blk_size m, nb_ibm m, nb_dbm m, nb_itab m, nb_dblk m, ibm_start m,
      dbm_start m, itab_start m, data_start m])"

definition zero_dinode :: dinode where
  "zero_dinode = \<lparr>size_d = 0, type_d = INODE_FREE, dev_id = 0, nblink = 0, dirblkno = replicate FS_INODE_DIR_DBLKNO 0, indir = 0\<rparr>"

text \<open>The variables before the program runs.\<close>

definition mkfs_start :: "int \<Rightarrow> mkfs_state" where
  "mkfs_start m =
    \<lparr>img = (\<lambda>_. 0), i_allocated = 0, blk_allocated = 0,
     root_di = zero_dinode\<lparr>type_d := INODE_DIRECTORY, nblink := 1,
       dirblkno := (replicate FS_INODE_DIR_DBLKNO 0)[0 := data_start (superblock m)]\<rparr>, nb_writes = 0\<rparr>"

section \<open>Operations\<close>

definition mk_alloc_block :: "int \<Rightarrow> mkfs_state \<Rightarrow> int \<times> mkfs_state" where
  "mk_alloc_block m st =
    (let b = blk_allocated st + 1; st1 = st\<lparr>blk_allocated := b\<rparr>
     in if b \<ge> int FS_BM_BITS_PER_BLK \<or> b \<ge> FS_NB_DBLK m then (- 1, st1)
        else (b + uint (data_start (superblock m)), st1))"

definition write_inode :: "host \<Rightarrow> int \<Rightarrow> int \<Rightarrow> dinode \<Rightarrow> mkfs_state \<Rightarrow> int \<times> mkfs_state" where
  "write_inode h m n i st =
    (let off = uint (itab_start (superblock m)) * int FS_BLK_SIZE + n * 64;
         (r, st1) = pwrite h (dinode_bytes i) off st
     in (if r < 0 then - 1 else 0, st1))"

definition alloc_inode :: "host \<Rightarrow> int \<Rightarrow> dinode \<Rightarrow> mkfs_state \<Rightarrow> int \<times> mkfs_state" where
  "alloc_inode h m i st =
    (let n = i_allocated st + 1; st1 = st\<lparr>i_allocated := n\<rparr>
     in if n \<ge> int FS_BM_BITS_PER_BLK \<or> n \<ge> FS_NB_INODES then (- 1, st1)
        else let (r, st2) = write_inode h m n i st1 in (if r < 0 then - 1 else n, st2))"

definition bm_bytes :: "nat \<Rightarrow> u8 list" where
  "bm_bytes nbits =
    (let bm = replicate (nbits div 8) 0xff @ replicate (FS_BLK_SIZE - nbits div 8) 0
     in if nbits mod 8 \<noteq> 0 then bm[nbits div 8 := push_bit (nbits mod 8) 1 - 1] else bm)"

definition write_bm :: "host \<Rightarrow> u32 \<Rightarrow> int \<Rightarrow> mkfs_state \<Rightarrow> int \<times> mkfs_state" where
  "write_bm h start nbits st =
    (let (r, st1) = pwrite h (bm_bytes (nat nbits)) (uint start * int FS_BLK_SIZE) st
     in (if r < 0 then - 1 else 0, st1))"

definition data_off :: "int \<Rightarrow> int" where
  "data_off dblkno = dblkno * int FS_BLK_SIZE"

text \<open>The loop over what \<^verbatim>\<open>read\<close> delivers; the result tells whether it ran to the end.\<close>

fun file_loop :: "host \<Rightarrow> int \<Rightarrow> u8 list list \<Rightarrow> dinode \<Rightarrow> nat \<Rightarrow> nat \<Rightarrow> mkfs_state \<Rightarrow> bool \<times> dinode \<times> mkfs_state" where
  "file_loop h m [] i dir_blk nb_indir st = (True, i, st)"
| "file_loop h m (chunk # chunks) i dir_blk nb_indir st =
    (let (blkno, st1) = mk_alloc_block m st in
     if blkno < 0 then (False, i, st1)
     else
       (let (n, st2) = pwrite h chunk (data_off blkno) st1 in
        if n \<noteq> int (length chunk) then (False, i, st2)
        else if dir_blk = FS_INODE_DIR_DBLKNO then
          (let (ind, st3) = (if indir i = 0 then mk_alloc_block m st2 else (uint (indir i), st2)) in
           if ind < 0 then (False, i, st3)
           else
             (let i1 = i\<lparr>indir := word_of_int ind\<rparr>;
                  (w, st4) = pwrite h (le_bytes 4 (word_of_int blkno :: u32)) (data_off ind + int nb_indir * 4) st3
              in if w \<noteq> 4 then (False, i1, st4)
                 else file_loop h m chunks (i1\<lparr>size_d := size_d i1 + word_of_int n\<rparr>) dir_blk (nb_indir + 1) st4))
        else
          file_loop h m chunks (i\<lparr>dirblkno := (dirblkno i)[dir_blk := word_of_int blkno], size_d := size_d i + word_of_int n\<rparr>)
            (dir_blk + 1) nb_indir st2))"

definition alloc_file :: "host \<Rightarrow> int \<Rightarrow> u8 list \<Rightarrow> mkfs_state \<Rightarrow> int \<times> dinode \<times> mkfs_state" where
  "alloc_file h m name st =
    (case h_files h name of
       None \<Rightarrow> (- 1, zero_dinode, st)
     | Some f \<Rightarrow>
         (case hf_stat f of
            None \<Rightarrow> (- 1, zero_dinode, st)
          | Some sz \<Rightarrow>
              if sz > FS_MAX_FILE_SIZE then (- 1, zero_dinode, st)
              else
                (let (ok, i, st1) = file_loop h m (hf_reads f) (zero_dinode\<lparr>type_d := INODE_FILE, nblink := 1\<rparr>) 0 0 st
                 in if ok \<and> hf_end f then (0, i, st1) else (- 1, i, st1))))"

definition base_name :: "u8 list \<Rightarrow> u8 list" where
  "base_name pth = rev (takeWhile (\<lambda>c. c \<noteq> 47) (rev pth))"

definition mk_dir_add_entry :: "host \<Rightarrow> u8 list \<Rightarrow> int \<Rightarrow> mkfs_state \<Rightarrow> int \<times> mkfs_state" where
  "mk_dir_add_entry h pth n st =
    (let dir = root_di st; name = base_name pth in
     if length name \<ge> MAXNAME then (- 1, st)
     else if unat (size_d dir) + SIZEOF_DIRENT > FS_BLK_SIZE then (- 1, st)
     else
       (let ent = name @ replicate (MAXNAME - length name) 0 @ le_bytes 4 (word_of_int n :: u32);
            (r, st1) = pwrite h ent (data_off (uint (dirblkno dir ! 0)) + uint (size_d dir)) st
        in if r < 0 then (- 1, st1)
           else (0, st1\<lparr>root_di := dir\<lparr>size_d := size_d dir + word_of_nat SIZEOF_DIRENT\<rparr>\<rparr>)))"

fun add_files :: "host \<Rightarrow> int \<Rightarrow> u8 list list \<Rightarrow> mkfs_state \<Rightarrow> bool \<times> mkfs_state" where
  "add_files h m [] st = (True, st)"
| "add_files h m (arg # args) st =
    (let (res, file_i, st1) = alloc_file h m arg st in
     if res < 0 then (False, st1)
     else
       (let (res, st2) = alloc_inode h m file_i st1 in
        if res < 0 then (False, st2)
        else
          (let (res, st3) = mk_dir_add_entry h arg res st2
           in if res < 0 then (False, st3) else add_files h m args st3)))"

definition EXIT_SUCCESS :: int where "EXIT_SUCCESS = 0"
definition EXIT_FAILURE :: int where "EXIT_FAILURE = 1"

definition mkfs_main :: "host \<Rightarrow> int \<Rightarrow> u8 list list \<Rightarrow> int \<times> mkfs_state" where
  "mkfs_main h m argv =
    (let st = mkfs_start m in
     if length argv < 2 then (EXIT_FAILURE, st)
     else if \<not> h_open_disk h \<or> \<not> h_ftruncate h then (EXIT_FAILURE, st)
     else
       (let (r, st1) = pwrite h (fs_meta_bytes (superblock m)) (uint FS_SUPERBLK * int FS_BLK_SIZE) st in
        if r < 0 then (EXIT_FAILURE, st1)
        else
          (let (r, st2) = alloc_inode h m (root_di st1) st1 in
           if r < 0 then (EXIT_FAILURE, st2)
           else
             (let (ok, st3) = add_files h m (drop 2 argv) st2 in
              if \<not> ok then (EXIT_FAILURE, st3)
              else
                (let (r, st4) = write_inode h m (uint FS_ROOT_INODE_ID) (root_di st3) st3 in
                 if r < 0 then (EXIT_FAILURE, st4)
                 else
                   (let (r, st5) = write_bm h (ibm_start (superblock m)) (i_allocated st4 + 1) st4 in
                    if r < 0 then (EXIT_FAILURE, st5)
                    else
                      (let (r, st6) = write_bm h (dbm_start (superblock m)) (blk_allocated st5 + 1) st5
                       in if r < 0 then (EXIT_FAILURE, st6) else (EXIT_SUCCESS, st6))))))))"

section \<open>Bytes of the image\<close>

definition at_img :: "(nat \<Rightarrow> u8) \<Rightarrow> nat \<Rightarrow> u8 list \<Rightarrow> bool" where
  "at_img I a bs \<longleftrightarrow> (\<forall>k < length bs. I (a + k) = bs ! k)"

lemma at_img_same: "at_img (mwrite I a bs) a bs"
  by (simp add: at_img_def mwrite_def)

lemma at_img_other: "at_img I a bs \<Longrightarrow> b + length cs \<le> a \<or> a + length bs \<le> b \<Longrightarrow> at_img (mwrite I b cs) a bs"
  by (auto simp: at_img_def mwrite_def)

text \<open>A host on which every call succeeds.\<close>

definition reliable :: "host \<Rightarrow> bool" where
  "reliable h \<longleftrightarrow> h_open_disk h \<and> h_ftruncate h \<and> h_short h = (\<lambda>_. None)"

lemma pwrite_reliable:
  "reliable h \<Longrightarrow> pwrite h bs off st = (int (length bs), st\<lparr>nb_writes := nb_writes st + 1, img := mwrite (img st) (nat off) bs\<rparr>)"
  by (simp add: pwrite_def reliable_def)

lemma superblock_starts:
  "ibm_start (superblock m) = 2" "dbm_start (superblock m) = 4" "itab_start (superblock m) = 6" "data_start (superblock m) = 11"
  "nb_ibm (superblock m) = 2" "nb_dbm (superblock m) = 2" "nb_itab (superblock m) = 5"
  by (simp_all add: superblock_def FS_SUPERBLK_def FS_NB_SUPERBLK_def FS_NB_IBM_def FS_NB_DBM_def FS_NB_ITAB_def)

section \<open>One file\<close>

text \<open>The blocks of a file behind the first \<open>b\<close> blocks that are taken; block 0 is that of the root directory.\<close>

fun data_img :: "nat \<Rightarrow> u8 list list \<Rightarrow> (nat \<Rightarrow> u8) \<Rightarrow> nat \<Rightarrow> u8" where
  "data_img b [] I = I"
| "data_img b (c # cs) I = data_img (b + 1) cs (mwrite I ((12 + b) * FS_BLK_SIZE) c)"

definition packed :: "nat \<Rightarrow> u8 list list \<Rightarrow> dinode" where
  "packed b cs = zero_dinode\<lparr>type_d := INODE_FILE, nblink := 1, size_d := word_of_nat (length (concat cs)),
     dirblkno := map (\<lambda>i. if i < length cs then word_of_nat (12 + b + i) else 0) [0..<FS_INODE_DIR_DBLKNO]\<rparr>"

lemma mk_alloc_block_next:
  assumes "blk_allocated st = int b" and "Suc b < FS_BM_BITS_PER_BLK" and "int (Suc b) < FS_NB_DBLK m"
  shows "mk_alloc_block m st = (int (12 + b), st\<lparr>blk_allocated := int (Suc b)\<rparr>)"
  using assms by (simp add: mk_alloc_block_def superblock_starts Let_def)

lemma file_loop_packs:
  assumes "reliable h" and "blk_allocated st = int b" and "b + length cs < FS_BM_BITS_PER_BLK" and "int (b + length cs) < FS_NB_DBLK m"
    and "d + length cs \<le> FS_INODE_DIR_DBLKNO" and "length (dirblkno i) = FS_INODE_DIR_DBLKNO"
  shows "\<exists>ds. file_loop h m cs i d k st =
      (True, i\<lparr>dirblkno := ds, size_d := size_d i + word_of_nat (length (concat cs))\<rparr>,
       st\<lparr>blk_allocated := int (b + length cs), nb_writes := nb_writes st + length cs, img := data_img b cs (img st)\<rparr>) \<and>
    length ds = FS_INODE_DIR_DBLKNO \<and>
    (\<forall>j < FS_INODE_DIR_DBLKNO. ds ! j = (if d \<le> j \<and> j < d + length cs then word_of_nat (12 + b + (j - d)) else dirblkno i ! j))"
  using assms
proof (induction cs arbitrary: b d i st)
  case Nil
  then show ?case by (intro exI [of _ "dirblkno i"]) auto
next
  case (Cons c cs)
  let ?i = "i\<lparr>dirblkno := (dirblkno i)[d := word_of_nat (12 + b)], size_d := size_d i + word_of_nat (length c)\<rparr>"
  let ?st = "st\<lparr>blk_allocated := int (Suc b), nb_writes := nb_writes st + 1, img := mwrite (img st) ((12 + b) * FS_BLK_SIZE) c\<rparr>"
  have a: "mk_alloc_block m st = (int (12 + b), st\<lparr>blk_allocated := int (Suc b)\<rparr>)"
    using Cons.prems by (intro mk_alloc_block_next) auto
  have "data_off (int (12 + b)) = int ((12 + b) * FS_BLK_SIZE)" by (simp add: data_off_def)
  then have o: "nat (data_off (int (12 + b))) = (12 + b) * FS_BLK_SIZE" by (metis nat_int)
  have step: "file_loop h m (c # cs) i d k st = file_loop h m cs ?i (d + 1) k ?st"
    using Cons.prems(5) a o pwrite_reliable [OF Cons.prems(1)] by (simp add: Let_def)
  obtain ds where ds: "file_loop h m cs ?i (d + 1) k ?st =
      (True, ?i\<lparr>dirblkno := ds, size_d := size_d ?i + word_of_nat (length (concat cs))\<rparr>,
       ?st\<lparr>blk_allocated := int (Suc b + length cs), nb_writes := nb_writes ?st + length cs, img := data_img (Suc b) cs (img ?st)\<rparr>)"
    "length ds = FS_INODE_DIR_DBLKNO"
    "\<forall>j < FS_INODE_DIR_DBLKNO. ds ! j = (if d + 1 \<le> j \<and> j < d + 1 + length cs then word_of_nat (12 + Suc b + (j - (d + 1))) else dirblkno ?i ! j)"
    using Cons.IH [of ?st "Suc b" "d + 1" ?i] Cons.prems by auto
  have "ds ! j = (if d \<le> j \<and> j < d + length (c # cs) then word_of_nat (12 + b + (j - d)) else dirblkno i ! j)" if "j < FS_INODE_DIR_DBLKNO" for j
    using ds(3) that Cons.prems(5,6) by (cases "j = d") (auto simp: Suc_diff_le nth_list_update)
  then show ?case using step ds(1,2) by (intro exI [of _ ds]) (simp add: add.assoc)
qed

text \<open>The host has a file at a path, and reading it delivers the pieces \<open>cs\<close>.\<close>

definition offers :: "host \<Rightarrow> u8 list \<Rightarrow> u8 list list \<Rightarrow> bool" where
  "offers h p cs \<longleftrightarrow> (\<exists>f sz. h_files h p = Some f \<and> hf_stat f = Some sz \<and> sz \<le> FS_MAX_FILE_SIZE \<and> hf_reads f = cs \<and> hf_end f)"

lemma alloc_file_packs:
  assumes "reliable h" and "offers h p cs" and "blk_allocated st = int b" and "b + length cs < FS_BM_BITS_PER_BLK"
    and "int (b + length cs) < FS_NB_DBLK m" and "length cs \<le> FS_INODE_DIR_DBLKNO"
  shows "alloc_file h m p st = (0, packed b cs,
    st\<lparr>blk_allocated := int (b + length cs), nb_writes := nb_writes st + length cs, img := data_img b cs (img st)\<rparr>)"
proof -
  let ?i = "zero_dinode\<lparr>type_d := INODE_FILE, nblink := 1\<rparr>"
  have l: "length (dirblkno ?i) = FS_INODE_DIR_DBLKNO" by (simp add: zero_dinode_def)
  obtain ds where ds: "file_loop h m cs ?i 0 0 st = (True, ?i\<lparr>dirblkno := ds, size_d := size_d ?i + word_of_nat (length (concat cs))\<rparr>,
      st\<lparr>blk_allocated := int (b + length cs), nb_writes := nb_writes st + length cs, img := data_img b cs (img st)\<rparr>)"
    "length ds = FS_INODE_DIR_DBLKNO"
    "\<forall>j < FS_INODE_DIR_DBLKNO. ds ! j = (if j < length cs then word_of_nat (12 + b + j) else dirblkno ?i ! j)"
    using file_loop_packs [OF assms(1,3-5) _ l, of 0 0] assms(6) by auto
  have "ds = map (\<lambda>i. if i < length cs then word_of_nat (12 + b + i) else 0) [0..<FS_INODE_DIR_DBLKNO]"
    using ds(2,3) by (intro nth_equalityI) (auto simp: zero_dinode_def)
  then have "?i\<lparr>dirblkno := ds, size_d := size_d ?i + word_of_nat (length (concat cs))\<rparr> = packed b cs"
    by (simp add: packed_def zero_dinode_def)
  then show ?thesis using ds(1) assms(2) by (auto simp: offers_def alloc_file_def Let_def)
qed

section \<open>All files\<close>

definition ent_bytes :: "u8 list \<Rightarrow> nat \<Rightarrow> u8 list" where
  "ent_bytes name n = name @ replicate (MAXNAME - length name) 0 @ le_bytes 4 (word_of_nat n :: u32)"

text \<open>The image when the files from number \<open>j\<close> on are added behind \<open>b\<close> data blocks; file \<open>j\<close> has the inode \<open>j + 2\<close>.\<close>

fun pack_img :: "nat \<Rightarrow> nat \<Rightarrow> (u8 list \<times> u8 list list) list \<Rightarrow> (nat \<Rightarrow> u8) \<Rightarrow> nat \<Rightarrow> u8" where
  "pack_img j b [] I = I"
| "pack_img j b ((p, cs) # fs) I =
    pack_img (Suc j) (b + length cs) fs
      (mwrite (mwrite (data_img b cs I) (24576 + (j + 2) * 64) (dinode_bytes (packed b cs))) (45056 + 20 * j) (ent_bytes (base_name p) (j + 2)))"

definition nb_chunks :: "(u8 list \<times> u8 list list) list \<Rightarrow> nat" where
  "nb_chunks fs = sum_list (map (\<lambda>f. length (snd f)) fs)"

lemma nb_chunks_simps [simp]: "nb_chunks [] = 0" "nb_chunks (f # fs) = length (snd f) + nb_chunks fs"
  by (simp_all add: nb_chunks_def)

text \<open>Files that fit: short names, no more than the direct blocks, and room in the directory, the table of inodes and the data blocks.\<close>

definition fits :: "host \<Rightarrow> int \<Rightarrow> nat \<Rightarrow> nat \<Rightarrow> (u8 list \<times> u8 list list) list \<Rightarrow> bool" where
  "fits h m j b fs \<longleftrightarrow> (\<forall>(p, cs) \<in> set fs. offers h p cs \<and> length (base_name p) < MAXNAME \<and> length cs \<le> FS_INODE_DIR_DBLKNO \<and>
      (\<forall>c \<in> set cs. length c \<le> FS_BLK_SIZE)) \<and>
    (j + length fs) * SIZEOF_DIRENT \<le> FS_BLK_SIZE \<and> b + nb_chunks fs < FS_BM_BITS_PER_BLK \<and> int (b + nb_chunks fs) < FS_NB_DBLK m"

lemma fits_Cons:
  assumes "fits h m j b ((p, cs) # fs)"
  shows "offers h p cs" "length (base_name p) < MAXNAME" "length cs \<le> FS_INODE_DIR_DBLKNO" "\<forall>c \<in> set cs. length c \<le> FS_BLK_SIZE"
    "fits h m (Suc j) (b + length cs) fs" "b + length cs < FS_BM_BITS_PER_BLK" "int (b + length cs) < FS_NB_DBLK m" "j < 204"
  using assms by (auto simp: fits_def SIZEOF_DIRENT_def FS_BLK_SIZE_def)

lemma alloc_inode_next:
  assumes "reliable h" and "i_allocated st = int n" and "n < 319"
  shows "alloc_inode h m d st = (int (Suc n), st\<lparr>i_allocated := int (Suc n), nb_writes := nb_writes st + 1,
    img := mwrite (img st) (24576 + Suc n * 64) (dinode_bytes d)\<rparr>)"
proof -
  have "nat (24576 + int (Suc n) * 64) = 24576 + Suc n * 64" by simp
  then show ?thesis using assms pwrite_reliable [OF assms(1)]
    by (simp add: alloc_inode_def write_inode_def superblock_starts FS_BM_BITS_PER_BLK_def FS_NB_INODES_def FS_NB_ITAB_def FS_BLK_SIZE_def Let_def)
qed

lemma mk_dir_add_entry_next:
  assumes "reliable h" and "length (base_name p) < MAXNAME" and "unat (size_d (root_di st)) = 20 * j" and "j < 204" and "dirblkno (root_di st) ! 0 = 11"
  shows "mk_dir_add_entry h p (int n) st = (0, st\<lparr>nb_writes := nb_writes st + 1, img := mwrite (img st) (45056 + 20 * j) (ent_bytes (base_name p) n),
    root_di := (root_di st)\<lparr>size_d := size_d (root_di st) + 20\<rparr>\<rparr>)"
proof -
  have "uint (size_d (root_di st)) = int (20 * j)" using assms(3) by (metis uint_nat)
  then have "nat (data_off (uint (dirblkno (root_di st) ! 0)) + uint (size_d (root_di st))) = 45056 + 20 * j"
    by (simp add: assms(5) data_off_def FS_BLK_SIZE_def nat_add_distrib)
  then show ?thesis using assms pwrite_reliable [OF assms(1)]
    by (simp add: mk_dir_add_entry_def ent_bytes_def SIZEOF_DIRENT_def FS_BLK_SIZE_def Let_def)
qed

lemma add_files_packs:
  assumes "reliable h" and "fits h m j b fs" and "i_allocated st = int (Suc j)" and "blk_allocated st = int b"
    and "unat (size_d (root_di st)) = 20 * j" and "dirblkno (root_di st) ! 0 = 11"
  shows "\<exists>w. add_files h m (map fst fs) st = (True, st\<lparr>i_allocated := int (Suc (j + length fs)), blk_allocated := int (b + nb_chunks fs),
    nb_writes := w, img := pack_img j b fs (img st), root_di := (root_di st)\<lparr>size_d := word_of_nat (20 * (j + length fs))\<rparr>\<rparr>)"
  using assms(2-)
proof (induction fs arbitrary: j b st)
  case Nil
  then have "size_d (root_di st) = word_of_nat (20 * j)" by (metis word_of_unat)
  then show ?case using Nil by (intro exI [of _ "nb_writes st"]) simp
next
  case (Cons f fs)
  obtain p cs where f: "f = (p, cs)" by force
  note c = fits_Cons [OF Cons.prems(1) [unfolded f]]
  let ?s1 = "st\<lparr>blk_allocated := int (b + length cs), nb_writes := nb_writes st + length cs, img := data_img b cs (img st)\<rparr>"
  let ?s2 = "?s1\<lparr>i_allocated := int (Suc (Suc j)), nb_writes := nb_writes ?s1 + 1, img := mwrite (img ?s1) (24576 + Suc (Suc j) * 64) (dinode_bytes (packed b cs))\<rparr>"
  let ?s3 = "?s2\<lparr>nb_writes := nb_writes ?s2 + 1, img := mwrite (img ?s2) (45056 + 20 * j) (ent_bytes (base_name p) (Suc (Suc j))),
    root_di := (root_di ?s2)\<lparr>size_d := size_d (root_di ?s2) + 20\<rparr>\<rparr>"
  have 1: "alloc_file h m p st = (0, packed b cs, ?s1)" using alloc_file_packs [OF assms(1) c(1) Cons.prems(3) c(6,7,3)] .
  have 2: "alloc_inode h m (packed b cs) ?s1 = (int (Suc (Suc j)), ?s2)"
    using alloc_inode_next [OF assms(1), of ?s1 "Suc j" m "packed b cs"] Cons.prems(2) c(8) by simp
  have 3: "mk_dir_add_entry h p (int (Suc (Suc j))) ?s2 = (0, ?s3)"
    using mk_dir_add_entry_next [OF assms(1) c(2), of ?s2 j "Suc (Suc j)"] Cons.prems(4,5) c(8) by simp
  have sz: "unat (size_d (root_di ?s3)) = 20 * Suc j" using Cons.prems(4) c(8) by (simp add: unat_word_ariths)
  obtain w where w: "add_files h m (map fst fs) ?s3 = (True, ?s3\<lparr>i_allocated := int (Suc (Suc j + length fs)), blk_allocated := int (b + length cs + nb_chunks fs),
    nb_writes := w, img := pack_img (Suc j) (b + length cs) fs (img ?s3), root_di := (root_di ?s3)\<lparr>size_d := word_of_nat (20 * (Suc j + length fs))\<rparr>\<rparr>)"
    using Cons.IH [OF c(5), of ?s3] sz Cons.prems(5) by auto
  have "add_files h m (map fst (f # fs)) st = add_files h m (map fst fs) ?s3" using 1 2 3 by (simp add: f Let_def)
  then show ?case using w by (intro exI [of _ w]) (simp add: f ac_simps)
qed

section \<open>What is where\<close>

text \<open>A range of bytes that the files from number \<open>j\<close> on do not touch.\<close>

definition safe :: "nat \<Rightarrow> nat \<Rightarrow> nat \<Rightarrow> nat \<Rightarrow> bool" where
  "safe j b a n \<longleftrightarrow> a + n \<le> 24576 + (j + 2) * 64 \<or> 45056 \<le> a \<and> a + n \<le> 45056 + 20 * j \<or> 49152 \<le> a \<and> a + n \<le> (12 + b) * 4096"

lemma data_img_other:
  assumes "at_img I a bs" and "\<forall>c \<in> set cs. length c \<le> FS_BLK_SIZE" and "a + length bs \<le> (12 + b) * 4096"
  shows "at_img (data_img b cs I) a bs"
  using assms
proof (induction cs arbitrary: b I)
  case (Cons c cs)
  have "at_img (mwrite I ((12 + b) * FS_BLK_SIZE) c) a bs" using Cons.prems(1,3) by (intro at_img_other) (auto simp: FS_BLK_SIZE_def)
  then show ?case using Cons.IH [of _ "b + 1"] Cons.prems(2,3) by simp
qed simp

lemma data_img_same:
  assumes "\<forall>c \<in> set cs. length c \<le> FS_BLK_SIZE" and "i < length cs"
  shows "at_img (data_img b cs I) ((12 + b + i) * 4096) (cs ! i)"
  using assms
proof (induction cs arbitrary: b I i)
  case (Cons c cs)
  show ?case
  proof (cases i)
    case 0
    then show ?thesis using Cons.prems
      by (simp add: FS_BLK_SIZE_def) (intro data_img_other at_img_same, auto simp: FS_BLK_SIZE_def)
  next
    case (Suc k)
    then show ?thesis using Cons.IH [of k "b + 1"] Cons.prems by (simp add: ac_simps)
  qed
qed simp

lemma length_dinode_bytes [simp]: "length (dirblkno d) = FS_INODE_DIR_DBLKNO \<Longrightarrow> length (dinode_bytes d) = 64"
  by (simp add: dinode_bytes_def length_concat_bytes FS_INODE_DIR_DBLKNO_def)

lemma length_packed [simp]: "length (dirblkno (packed b cs)) = FS_INODE_DIR_DBLKNO"
  by (simp add: packed_def)

lemma length_ent_bytes: "length name < MAXNAME \<Longrightarrow> length (ent_bytes name n) = 20"
  by (simp add: ent_bytes_def MAXNAME_def)

lemma pack_img_safe:
  assumes "at_img I a bs" and "safe j b a (length bs)" and "fits h m j b fs"
  shows "at_img (pack_img j b fs I) a bs"
  using assms
proof (induction fs arbitrary: j b I)
  case (Cons f fs)
  obtain p cs where f: "f = (p, cs)" by force
  note c = fits_Cons [OF Cons.prems(3) [unfolded f]]
  have j: "j < 204" by (rule c(8))
  have "a + length bs \<le> (12 + b) * 4096" using Cons.prems(2) j by (auto simp: safe_def)
  then have "at_img (data_img b cs I) a bs" using data_img_other [OF Cons.prems(1) c(4)] by simp
  moreover have "a + length bs \<le> 24576 + (j + 2) * 64 \<or> 24576 + (j + 2) * 64 + 64 \<le> a"
    "a + length bs \<le> 45056 + 20 * j \<or> 45056 + 20 * j + 20 \<le> a" using Cons.prems(2) j by (auto simp: safe_def)
  ultimately have "at_img (mwrite (mwrite (data_img b cs I) (24576 + (j + 2) * 64) (dinode_bytes (packed b cs))) (45056 + 20 * j) (ent_bytes (base_name p) (j + 2))) a bs"
    using length_ent_bytes [OF c(2)] by (intro at_img_other) auto
  moreover have "safe (Suc j) (b + length cs) a (length bs)" using Cons.prems(2) by (auto simp: safe_def)
  ultimately show ?case using Cons.IH [OF _ _ c(5)] by (simp add: f)
qed simp

lemma pack_img_file:
  assumes "fits h m j b fs" and "k < length fs" and "fs ! k = (p, cs)"
  shows "at_img (pack_img j b fs I) (24576 + (j + k + 2) * 64) (dinode_bytes (packed (b + nb_chunks (take k fs)) cs)) \<and>
    at_img (pack_img j b fs I) (45056 + 20 * (j + k)) (ent_bytes (base_name p) (j + k + 2)) \<and>
    (\<forall>i < length cs. at_img (pack_img j b fs I) ((12 + (b + nb_chunks (take k fs)) + i) * 4096) (cs ! i))"
  using assms
proof (induction fs arbitrary: j b k I)
  case (Cons f fs)
  obtain q ds where f: "f = (q, ds)" by force
  note c = fits_Cons [OF Cons.prems(1) [unfolded f]]
  let ?D = "data_img b ds I" let ?N = "mwrite ?D (24576 + (j + 2) * 64) (dinode_bytes (packed b ds))"
  let ?I = "mwrite ?N (45056 + 20 * j) (ent_bytes (base_name q) (j + 2))"
  have st: "pack_img j b (f # fs) I = pack_img (Suc j) (b + length ds) fs ?I" by (simp add: f)
  note keep = pack_img_safe [OF _ _ c(5)]
  show ?case
  proof (cases k)
    case 0
    have pc: "p = q" "cs = ds" using Cons.prems(3) 0 f by simp_all
    have l: "length (ent_bytes (base_name q) (j + 2)) = 20" by (rule length_ent_bytes [OF c(2)])
    have "at_img ?I (24576 + (j + 2) * 64) (dinode_bytes (packed b ds))" using c(8) l by (intro at_img_other at_img_same) auto
    then have 1: "at_img (pack_img j b (f # fs) I) (24576 + (j + 2) * 64) (dinode_bytes (packed b ds))"
      unfolding st by (rule keep) (simp add: safe_def)
    have 2: "at_img (pack_img j b (f # fs) I) (45056 + 20 * j) (ent_bytes (base_name q) (j + 2))"
      unfolding st by (rule keep [OF at_img_same]) (simp add: safe_def length_ent_bytes c(2))
    have 3: "at_img (pack_img j b (f # fs) I) ((12 + b + i) * 4096) (ds ! i)" if i: "i < length ds" for i
    proof -
      have n: "length (ds ! i) \<le> 4096" using c(4) i by (auto simp: FS_BLK_SIZE_def)
      have "at_img ?I ((12 + b + i) * 4096) (ds ! i)"
        using data_img_same [OF c(4) i] c(8) l by (intro at_img_other) auto
      then show ?thesis unfolding st by (rule keep) (use i n in \<open>auto simp: safe_def\<close>)
    qed
    show ?thesis using 1 2 3 pc 0 by simp
  next
    case (Suc k')
    then show ?thesis using Cons.IH [OF c(5), of k' ?I] Cons.prems(2,3) unfolding st by (simp add: f ac_simps)
  qed
qed simp

definition root_dinode :: "nat \<Rightarrow> dinode" where
  "root_dinode n = zero_dinode\<lparr>type_d := INODE_DIRECTORY, nblink := 1, dirblkno := 11 # replicate 11 0, size_d := word_of_nat (20 * n)\<rparr>"

text \<open>The image the program leaves: the superblock, the root directory, the bitmap of the data blocks, and for each file its inode, its entry and its blocks.\<close>

definition holds_files :: "(nat \<Rightarrow> u8) \<Rightarrow> int \<Rightarrow> (u8 list \<times> u8 list list) list \<Rightarrow> bool" where
  "holds_files I m fs \<longleftrightarrow> at_img I 4096 (fs_meta_bytes (superblock m)) \<and> at_img I 24640 (dinode_bytes (root_dinode (length fs))) \<and>
    at_img I 16384 (bm_bytes (nb_chunks fs + 1)) \<and>
    (\<forall>k < length fs. at_img I (24576 + (k + 2) * 64) (dinode_bytes (packed (nb_chunks (take k fs)) (snd (fs ! k)))) \<and>
      at_img I (45056 + 20 * k) (ent_bytes (base_name (fst (fs ! k))) (k + 2)) \<and>
      (\<forall>i < length (snd (fs ! k)). at_img I ((12 + nb_chunks (take k fs) + i) * 4096) (snd (fs ! k) ! i)))"

lemma length_fs_meta_bytes: "length (fs_meta_bytes m) = 44"
  by (simp add: fs_meta_bytes_def length_le_bytes)

lemma length_bm_bytes: "n \<le> 32768 \<Longrightarrow> length (bm_bytes n) = 4096"
  by (simp add: bm_bytes_def FS_BLK_SIZE_def Let_def)

lemma final_image:
  assumes "fits h m 0 0 fs" and "at_img I 4096 (fs_meta_bytes (superblock m))"
  shows "holds_files (mwrite (mwrite (mwrite (pack_img 0 0 fs I) 24640 (dinode_bytes (root_dinode (length fs)))) 8192 (bm_bytes (length fs + 2)))
    16384 (bm_bytes (nb_chunks fs + 1))) m fs"
proof -
  let ?P = "pack_img 0 0 fs I" let ?r = "dinode_bytes (root_dinode (length fs))"
  let ?W = "\<lambda>J. mwrite (mwrite J 8192 (bm_bytes (length fs + 2))) 16384 (bm_bytes (nb_chunks fs + 1))"
  have n: "length fs \<le> 204" "nb_chunks fs + 1 \<le> 32768" using assms(1) by (simp_all add: fits_def SIZEOF_DIRENT_def FS_BLK_SIZE_def FS_BM_BITS_PER_BLK_def)
  have l: "length (bm_bytes (length fs + 2)) = 4096" "length (bm_bytes (nb_chunks fs + 1)) = 4096" "length ?r = 64"
    using n by (simp_all add: length_bm_bytes root_dinode_def zero_dinode_def FS_INODE_DIR_DBLKNO_def)
  have W: "at_img (?W J) a bs" if "at_img J a bs" "a + length bs \<le> 8192 \<or> 20480 \<le> a" for J a bs
    using that l by (intro at_img_other) auto
  have hi: "at_img (?W (mwrite ?P 24640 ?r)) a bs" if "at_img ?P a bs" "24704 \<le> a" for a bs
    using that l by (intro W at_img_other) auto
  have "at_img ?P 4096 (fs_meta_bytes (superblock m))" by (rule pack_img_safe [OF assms(2) _ assms(1)]) (simp add: safe_def length_fs_meta_bytes)
  then have "at_img (?W (mwrite ?P 24640 ?r)) 4096 (fs_meta_bytes (superblock m))" by (intro W at_img_other) (simp_all add: length_fs_meta_bytes)
  moreover have "at_img (?W (mwrite ?P 24640 ?r)) 24640 ?r" by (intro W at_img_same) simp
  moreover have "at_img (?W (mwrite ?P 24640 ?r)) 16384 (bm_bytes (nb_chunks fs + 1))" by (rule at_img_same)
  moreover have "at_img (?W (mwrite ?P 24640 ?r)) (24576 + (k + 2) * 64) (dinode_bytes (packed (nb_chunks (take k fs)) (snd (fs ! k)))) \<and>
      at_img (?W (mwrite ?P 24640 ?r)) (45056 + 20 * k) (ent_bytes (base_name (fst (fs ! k))) (k + 2)) \<and>
      (\<forall>i < length (snd (fs ! k)). at_img (?W (mwrite ?P 24640 ?r)) ((12 + nb_chunks (take k fs) + i) * 4096) (snd (fs ! k) ! i))" if "k < length fs" for k
    using pack_img_file [OF assms(1) that, of "fst (fs ! k)" "snd (fs ! k)" I] by (intro conjI allI impI hi) auto
  ultimately show ?thesis by (simp add: holds_files_def)
qed

lemma mkfs_main_image:
  assumes "reliable h" and "fits h m 0 0 fs" and "drop 2 argv = map fst fs" and "2 \<le> length argv"
  shows "\<exists>st. mkfs_main h m argv = (EXIT_SUCCESS, st) \<and> holds_files (img st) m fs"
proof -
  note pw = pwrite_reliable [OF assms(1)]
  let ?s1 = "(mkfs_start m)\<lparr>nb_writes := 1, img := mwrite (\<lambda>_. 0) 4096 (fs_meta_bytes (superblock m))\<rparr>"
  let ?s2 = "?s1\<lparr>i_allocated := 1, nb_writes := 2, img := mwrite (img ?s1) 24640 (dinode_bytes (root_dinode 0))\<rparr>"
  have z: "mkfs_start m = \<lparr>img = (\<lambda>_. 0), i_allocated = 0, blk_allocated = 0, root_di = root_dinode 0, nb_writes = 0\<rparr>"
    by (simp add: mkfs_start_def root_dinode_def superblock_starts FS_INODE_DIR_DBLKNO_def zero_dinode_def numeral_eq_Suc)
  have 1: "pwrite h (fs_meta_bytes (superblock m)) (uint FS_SUPERBLK * int FS_BLK_SIZE) (mkfs_start m) = (44, ?s1)"
    using pw by (simp add: z length_fs_meta_bytes FS_SUPERBLK_def FS_BLK_SIZE_def)
  have 2: "alloc_inode h m (root_di ?s1) ?s1 = (1, ?s2)" using alloc_inode_next [OF assms(1), of ?s1 0 m "root_dinode 0"] by (simp add: z)
  obtain w where 3: "add_files h m (map fst fs) ?s2 = (True, ?s2\<lparr>i_allocated := int (Suc (length fs)), blk_allocated := int (nb_chunks fs), nb_writes := w,
      img := pack_img 0 0 fs (img ?s2), root_di := root_dinode (length fs)\<rparr>)" (is "_ = (True, ?s3)")
    using add_files_packs [OF assms(1,2), of ?s2] by (auto simp: z root_dinode_def)
  let ?A = "mwrite (img ?s3) 24640 (dinode_bytes (root_dinode (length fs)))"
  let ?B = "mwrite ?A 8192 (bm_bytes (length fs + 2))" let ?C = "mwrite ?B 16384 (bm_bytes (nb_chunks fs + 1))"
  have 4: "write_inode h m (uint FS_ROOT_INODE_ID) (root_di ?s3) ?s3 = (0, ?s3\<lparr>nb_writes := w + 1, img := ?A\<rparr>)"
    using pw by (simp add: write_inode_def superblock_starts FS_ROOT_INODE_ID_def FS_BLK_SIZE_def Let_def)
  have 5: "write_bm h (ibm_start (superblock m)) (int (Suc (length fs)) + 1) (?s3\<lparr>nb_writes := w + 1, img := ?A\<rparr>) = (0, ?s3\<lparr>nb_writes := w + 2, img := ?B\<rparr>)"
    using pw by (simp add: write_bm_def superblock_starts FS_BLK_SIZE_def nat_add_distrib Let_def)
  have 6: "write_bm h (dbm_start (superblock m)) (int (nb_chunks fs) + 1) (?s3\<lparr>nb_writes := w + 2, img := ?B\<rparr>) = (0, ?s3\<lparr>nb_writes := w + 3, img := ?C\<rparr>)"
    using pw by (simp add: write_bm_def superblock_starts FS_BLK_SIZE_def nat_add_distrib Let_def)
  have "mkfs_main h m argv = (EXIT_SUCCESS, ?s3\<lparr>nb_writes := w + 3, img := ?C\<rparr>)"
    using assms(1,3,4) 1 2 3 4 5 6 by (simp add: mkfs_main_def reliable_def Let_def)
  moreover have "at_img (img ?s2) 4096 (fs_meta_bytes (superblock m))" by (simp add: at_img_other at_img_same length_fs_meta_bytes)
  then have "holds_files ?C m fs" using final_image [OF assms(2), of "img ?s2"] by simp
  ultimately show ?thesis by fastforce
qed

section \<open>The image as the kernel sees it\<close>

definition on_disk :: "(u32 \<Rightarrow> u8 list) \<Rightarrow> (nat \<Rightarrow> u8) \<Rightarrow> int \<Rightarrow> bool" where
  "on_disk V I m \<longleftrightarrow> (\<forall>n. int (unat n) < FS_NB_BLK m \<longrightarrow> V n = map (\<lambda>k. I (unat n * FS_BLK_SIZE + k)) [0..<FS_BLK_SIZE])"

lemma nb_blk_eq: "FS_NB_BLK m = 256 * m" "FS_NB_DBLK m = 256 * m - 11"
  by (simp_all add: FS_NB_BLK_def FS_NB_DBLK_def DISK_SIZE_def FS_BLK_SIZE_def FS_NB_ITAB_def FS_NB_IBM_def FS_NB_DBM_def FS_NB_SUPERBLK_def FS_NB_RESERVED_def)

lemma block_bytes:
  assumes "on_disk V I m" and "int (unat n) < FS_NB_BLK m" and "at_img I (unat n * 4096 + off) bs" and "off + length bs \<le> 4096"
  shows "take (length bs) (drop off (V n)) = bs"
proof (rule nth_equalityI)
  have V: "V n = map (\<lambda>k. I (unat n * 4096 + k)) [0..<4096]" using assms(1,2) by (simp add: on_disk_def FS_BLK_SIZE_def)
  show "length (take (length bs) (drop off (V n))) = length bs" using assms(4) by (simp add: V)
  fix k assume "k < length (take (length bs) (drop off (V n)))"
  then have "k < length bs" by simp
  then show "take (length bs) (drop off (V n)) ! k = bs ! k" using assms(3,4) by (simp add: V at_img_def add.assoc)
qed

lemma unat_of_small: "n < 2 ^ 32 \<Longrightarrow> unat (word_of_nat n :: u32) = n"
  by (simp add: unat_of_nat take_bit_nat_eq_self_iff)

lemma unat_of_int: "0 \<le> x \<Longrightarrow> x < 2 ^ 32 \<Longrightarrow> unat (word_of_int x :: u32) = nat x"
  by (simp add: unat_eq_nat_uint uint_word_of_int_eq take_bit_int_eq_self)

lemma superblock_ok:
  assumes "1 \<le> m" and "m < 2048"
  shows "fs_ok (superblock m)" "unat (nb_blk (superblock m)) = nat (256 * m)" "unat (nb_dblk (superblock m)) = nat (256 * m - 11)"
proof -
  show n: "unat (nb_blk (superblock m)) = nat (256 * m)" "unat (nb_dblk (superblock m)) = nat (256 * m - 11)"
    using assms unat_of_int [of "256 * m"] unat_of_int [of "256 * m - 11"] by (simp_all add: superblock_def nb_blk_eq)
  show "fs_ok (superblock m)" using assms by (simp add: fs_ok_def superblock_starts n FS_BM_BITS_PER_BLK_def) linarith
qed

lemma superblock_reads:
  assumes "take 44 bs = fs_meta_bytes m"
  shows "fs_meta_of bs = m"
proof -
  let ?ws = "[magic m, nb_blk m, blk_size m, nb_ibm m, nb_dbm m, nb_itab m, nb_dblk m, ibm_start m, dbm_start m, itab_start m, data_start m]"
  have "le32_at bs (4 * k) = ?ws ! k" if "k < 11" for k
  proof -
    have "take 4 (drop (4 * k) bs) = take 4 (drop (4 * k) (take 44 bs))" using that by (simp add: drop_take min_def)
    also have "\<dots> = le_bytes 4 (?ws ! k)" using concat_bytes [of k ?ws] that by (simp add: assms fs_meta_bytes_def)
    finally show ?thesis by (simp add: le32_at_def le_word_bytes)
  qed
  from this [of 0] this [of 1] this [of 2] this [of 3] this [of 4] this [of 5] this [of 6] this [of 7] this [of 8] this [of 9] this [of 10]
  show ?thesis by (simp add: fs_meta_of_def)
qed

lemma table_reads:
  assumes "on_disk V I m" and "1 \<le> m" and "unat n < 320" and "at_img I (24576 + unat n * 64) (dinode_bytes d)" and "length (dirblkno d) = FS_INODE_DIR_DBLKNO"
  shows "table_inode V (superblock m) n = d"
proof -
  have b: "unat (6 + n div 64) = 6 + unat n div 64" using assms(3) by (simp add: unat_word_ariths unat_div)
  have "(6 + q) * 4096 + 64 * r = 24576 + x * 64" if "q * 64 + r = x" for q r x :: nat by (simp add: that [symmetric] algebra_simps)
  then have "unat (6 + n div 64) * 4096 + 64 * (unat n mod 64) = 24576 + unat n * 64" unfolding b using div_mult_mod_eq by blast
  then have a: "at_img I (unat (6 + n div 64) * 4096 + 64 * (unat n mod 64)) (dinode_bytes d)" using assms(4) by (simp only:)
  have "64 * (unat n mod 64) + 64 \<le> 4096" using mod_less_divisor [of 64 "unat n"] by linarith
  then have "take (length (dinode_bytes d)) (drop (64 * (unat n mod 64)) (V (6 + n div 64))) = dinode_bytes d"
    using assms(2,3,5) b by (intro block_bytes [OF assms(1) _ a]) (simp_all add: nb_blk_eq)
  then have "take 64 (drop (64 * (unat n mod 64)) (V (6 + n div 64))) = dinode_bytes d" using assms(5) by simp
  then show ?thesis using assms(5)
    by (simp add: table_inode_def tab_entry_def itab_blk_def superblock_starts INODES_PER_BLK_def get_tab_idx_def dinode_roundtrip)
qed

lemma bm_bit_bytes:
  assumes "i < n" and "n \<le> 32768"
  shows "bm_bit (bm_bytes n) i"
proof (cases "i div 8 < n div 8")
  case True
  have "(255 :: u8) = mask 8" by (simp add: mask_eq_exp_minus_1)
  then have "bit (255 :: u8) (i mod 8)" using bit_mask_iff [of 8 "i mod 8", where 'a = "8 word"] by (simp del: bit_numeral_simps)
  then show ?thesis using True assms(2) by (simp add: bm_bit_def bm_bytes_def FS_BLK_SIZE_def Let_def nth_append)
next
  case False
  then have e: "i div 8 = n div 8" "i mod 8 < n mod 8" using assms(1) div_le_mono [of i n 8] div_mult_mod_eq [of i 8] div_mult_mod_eq [of n 8] by linarith+
  have "n div 8 < 4096" using assms e by linarith
  moreover have "bit (push_bit (n mod 8) 1 - 1 :: u8) (i mod 8)" using e(2) by (simp add: bit_mask_iff flip: mask_eq_exp_minus_1)
  ultimately show ?thesis using e by (simp add: bm_bit_def bm_bytes_def FS_BLK_SIZE_def Let_def)
qed

section \<open>The files as the kernel reads them\<close>

lemma image_used:
  assumes "on_disk V I m" and "1 \<le> m" and "at_img I 16384 (bm_bytes n)" and "n \<le> 32768" and "i < n"
  shows "used V (superblock m) i"
proof -
  have "V 4 = map (\<lambda>k. I (unat (4 :: u32) * FS_BLK_SIZE + k)) [0..<FS_BLK_SIZE]" using assms(1,2) unfolding on_disk_def nb_blk_eq by force
  then have l: "length (V 4) = 4096" by (simp add: FS_BLK_SIZE_def)
  have "take (length (bm_bytes n)) (drop 0 (V 4)) = bm_bytes n"
    by (rule block_bytes [OF assms(1)]) (use assms in \<open>simp_all add: nb_blk_eq length_bm_bytes\<close>)
  then have "V 4 = bm_bytes n" using l assms(4) by (simp add: length_bm_bytes)
  then show ?thesis using bm_bit_bytes [OF assms(5,4)] assms(4,5) by (simp add: used_def bm_blk_def superblock_starts FS_BM_BITS_PER_BLK_def)
qed

text \<open>A file is read a block at a time, and only the last block may be shorter.\<close>

definition full_blocks :: "u8 list list \<Rightarrow> bool" where
  "full_blocks cs \<longleftrightarrow> (\<forall>i. Suc i < length cs \<longrightarrow> length (cs ! i) = FS_BLK_SIZE)"

lemma concat_blocks:
  assumes "full_blocks cs" and "\<forall>c \<in> set cs. length c \<le> FS_BLK_SIZE" and "p < length (concat cs)"
  shows "p div 4096 < length cs \<and> p mod 4096 < length (cs ! (p div 4096)) \<and> cs ! (p div 4096) ! (p mod 4096) = concat cs ! p"
  using assms
proof (induction cs arbitrary: p)
  case (Cons c cs)
  show ?case
  proof (cases "p < length c")
    case True
    then have "p < 4096" using Cons.prems(2) by (simp add: FS_BLK_SIZE_def)
    then show ?thesis using True by (simp add: nth_append)
  next
    case False
    then have "cs \<noteq> []" using Cons.prems(3) by auto
    then have c: "length c = 4096" and f: "full_blocks cs" using Cons.prems(1) by (auto simp: full_blocks_def FS_BLK_SIZE_def dest: spec [of _ 0] spec [of _ "Suc _"])
    have "p div 4096 = Suc ((p - 4096) div 4096)" "p mod 4096 = (p - 4096) mod 4096" using False c by (simp_all add: le_div_geq le_mod_geq)
    then show ?thesis using Cons.IH [OF f, of "p - 4096"] Cons.prems(2,3) False c by (auto simp: nth_append)
  qed
qed simp

lemma concat_bound: "\<forall>c \<in> set cs. length c \<le> n \<Longrightarrow> length (concat cs) \<le> length cs * n"
  by (induction cs) auto

lemma nb_chunks_take:
  "k < length fs \<Longrightarrow> nb_chunks (take k fs) + length (snd (fs ! k)) \<le> nb_chunks fs"
proof (induction fs arbitrary: k)
  case (Cons f fs)
  then show ?case by (cases k) auto
qed simp

lemma packed_file:
  assumes V: "on_disk V I m" and m: "1 \<le> m" "m < 2048" and H: "holds_files I m fs" and F: "fits h m 0 0 fs" and k: "k < length fs"
    and cs: "cs = snd (fs ! k)" and full: "full_blocks cs" and d: "d = packed (nb_chunks (take k fs)) cs"
  shows "ifile V (superblock m) d" "dense d" "unat (size_d d) = length (concat cs)" "fbytes V d = concat cs"
proof -
  let ?b = "nb_chunks (take k fs)"
  have "(fst (fs ! k), cs) \<in> set fs" using k cs by (metis nth_mem prod.collapse)
  then have c: "length cs \<le> 12" "\<forall>c \<in> set cs. length c \<le> FS_BLK_SIZE" using F by (auto simp: fits_def FS_INODE_DIR_DBLKNO_def)
  have n: "?b + length cs \<le> nb_chunks fs" "nb_chunks fs < 32768" "int (nb_chunks fs) < 256 * m - 11"
    using nb_chunks_take [OF k] F cs by (simp_all add: fits_def FS_BM_BITS_PER_BLK_def nb_blk_eq)
  have ds: "dirblkno d ! i = (if i < length cs then word_of_nat (12 + ?b + i) else 0)" if "i < 12" for i
    using that by (simp add: d packed_def FS_INODE_DIR_DBLKNO_def)
  have u: "unat (word_of_nat (12 + ?b + i) :: u32) = 12 + ?b + i" if "i < length cs" for i
    by (rule unat_of_small) (use that n in simp)
  have nz: "(word_of_nat (12 + ?b + i) :: u32) \<noteq> 0" if "i < length cs" for i
    using u [OF that] by (metis add_is_0 unat_0 zero_neq_numeral)
  have sz: "length (concat cs) \<le> 49152" using concat_bound [OF c(2)] c(1) by (simp add: FS_BLK_SIZE_def)
  show s: "unat (size_d d) = length (concat cs)" using sz unat_of_small [of "length (concat cs)"] by (simp add: d packed_def del: length_concat)
  have idx: "data_idx (superblock m) (1 + ?b + i)" "used V (superblock m) (1 + ?b + i)" "dirblkno d ! i = data_blk (superblock m) (1 + ?b + i)" if "i < length cs" for i
  proof -
    show "data_idx (superblock m) (1 + ?b + i)" using that n by (simp add: data_idx_def superblock_ok [OF m] superblock_starts FS_BM_BITS_PER_BLK_def)
    show "used V (superblock m) (1 + ?b + i)" using that n H by (intro image_used [OF V m(1), of "nb_chunks fs + 1"]) (auto simp: holds_files_def)
    show "dirblkno d ! i = data_blk (superblock m) (1 + ?b + i)" using that c(1) ds [of i] by (simp add: data_blk_def superblock_starts)
  qed
  have "\<exists>idx. data_idx (superblock m) idx \<and> used V (superblock m) idx \<and> dirblkno d ! i = data_blk (superblock m) idx"
    if "i < 12" "dirblkno d ! i \<noteq> 0" for i
    using idx [of i] that ds [of i] by (cases "i < length cs") auto
  moreover have "i = j" if "i < 12" "j < 12" "dirblkno d ! i = dirblkno d ! j" "dirblkno d ! i \<noteq> 0" for i j
  proof -
    have l: "i < length cs" "j < length cs" by (metis that ds)+
    then have "12 + ?b + i = 12 + ?b + j" using that(1-3) ds [of i] ds [of j] u [of i] u [of j] by metis
    then show ?thesis by simp
  qed
  ultimately show "ifile V (superblock m) d" by (auto simp: ifile_def FS_INODE_DIR_DBLKNO_def d packed_def)
  have pos: "p div 4096 < length cs \<and> p mod 4096 < length (cs ! (p div 4096)) \<and> cs ! (p div 4096) ! (p mod 4096) = concat cs ! p"
    if "p < length (concat cs)" for p using concat_blocks [OF full c(2) that] .
  show "dense d" using pos ds nz c(1) sz by (auto simp: dense_def s DIR_BYTES_def FS_BLK_SIZE_def FS_INODE_DIR_DBLKNO_def simp del: length_concat)
  have "fbyte V d p = concat cs ! p" if "p < length (concat cs)" for p
  proof -
    let ?i = "p div 4096"
    have i: "?i < length cs" "dirblkno d ! ?i = word_of_nat (12 + ?b + ?i)" using pos [OF that] ds [of ?i] c(1) by auto
    have "at_img I ((12 + ?b + ?i) * 4096) (cs ! ?i)" using H k i(1) by (simp add: holds_files_def cs)
    then have "take (length (cs ! ?i)) (drop 0 (V (word_of_nat (12 + ?b + ?i)))) = cs ! ?i"
      using u [OF i(1)] n i(1) c by (intro block_bytes [OF V]) (auto simp: nb_blk_eq FS_BLK_SIZE_def)
    then have "V (word_of_nat (12 + ?b + ?i)) ! (p mod 4096) = cs ! ?i ! (p mod 4096)" using pos [OF that] by (metis drop_0 nth_take)
    then show ?thesis using i nz [OF i(1)] pos [OF that] by (simp add: fbyte_def FS_BLK_SIZE_def)
  qed
  then show "fbytes V d = concat cs" by (intro nth_equalityI) (auto simp: fbytes_def s simp del: length_concat)
qed

section \<open>The root directory\<close>

lemma root_reads:
  assumes V: "on_disk V I m" and m: "1 \<le> m" "m < 2048" and H: "holds_files I m fs" and F: "fits h m 0 0 fs"
  shows "good_dir V (superblock m) (root_dinode (length fs))"
    "dir_entries V (root_dinode (length fs)) = map (\<lambda>k. ent_bytes (base_name (fst (fs ! k))) (k + 2)) [0..<length fs]"
proof -
  let ?d = "root_dinode (length fs)"
  have n: "20 * length fs \<le> 4096" "nb_chunks fs < 32768" using F by (simp_all add: fits_def SIZEOF_DIRENT_def FS_BLK_SIZE_def FS_BM_BITS_PER_BLK_def)
  have s: "unat (size_d ?d) = 20 * length fs" using n(1) unat_of_small [of "20 * length fs"] by (simp add: root_dinode_def)
  have ds: "dirblkno ?d ! i = (if i = 0 then 11 else 0)" if "i < 12" for i using that by (cases i) (simp_all add: root_dinode_def)
  have "used V (superblock m) 0" using H n(2) by (intro image_used [OF V m(1), of "nb_chunks fs + 1"]) (simp_all add: holds_files_def)
  moreover have "data_idx (superblock m) 0" "11 = data_blk (superblock m) 0"
    using m by (simp_all add: data_idx_def superblock_ok [OF m] superblock_starts FS_BM_BITS_PER_BLK_def data_blk_def)
  ultimately have "ifile V (superblock m) ?d" using ds by (auto simp: ifile_def FS_INODE_DIR_DBLKNO_def) (simp add: root_dinode_def)
  moreover have "dense ?d" using n(1) ds by (simp add: dense_def s DIR_BYTES_def FS_BLK_SIZE_def FS_INODE_DIR_DBLKNO_def)
  ultimately show "good_dir V (superblock m) ?d" by (simp add: good_dir_def s SIZEOF_DIRENT_def) (simp add: root_dinode_def)
  have "V 11 = map (\<lambda>k. I (unat (11 :: u32) * FS_BLK_SIZE + k)) [0..<FS_BLK_SIZE]" using V m(1) unfolding on_disk_def nb_blk_eq by force
  then have l: "length (V 11) = 4096" by (simp add: FS_BLK_SIZE_def)
  have f: "fbytes V ?d = take (20 * length fs) (V 11)"
    using n(1) l ds by (intro nth_equalityI) (auto simp: fbytes_def s fbyte_def FS_BLK_SIZE_def)
  have "dir_entry V ?d k = ent_bytes (base_name (fst (fs ! k))) (k + 2)" if k: "k < length fs" for k
  proof -
    let ?e = "ent_bytes (base_name (fst (fs ! k))) (k + 2)"
    have "(fst (fs ! k), snd (fs ! k)) \<in> set fs" using k by simp
    then have e: "length ?e = 20" using F by (intro length_ent_bytes) (auto simp: fits_def)
    have "at_img I (45056 + 20 * k) ?e" using H k by (simp add: holds_files_def)
    then have "take (length ?e) (drop (20 * k) (V 11)) = ?e" using k n(1) m(1) e by (intro block_bytes [OF V]) (simp_all add: nb_blk_eq)
    moreover have "min 20 (20 * length fs - 20 * k) = 20" using k by simp
    ultimately show ?thesis using e by (simp add: dir_entry_def f SIZEOF_DIRENT_def drop_take mult.commute [of k])
  qed
  then show "dir_entries V ?d = map (\<lambda>k. ent_bytes (base_name (fst (fs ! k))) (k + 2)) [0..<length fs]"
    by (simp add: dir_entries_def s SIZEOF_DIRENT_def)
qed

lemma ent_bytes_entry:
  assumes "length name < MAXNAME" and "0 \<notin> set name"
  shows "entry_name (ent_bytes name n) = name" "dirent_inum (ent_bytes name n) = word_of_nat n"
proof -
  have e: "replicate (MAXNAME - length name) (0 :: u8) = [0] @ drop (length name + 1) (take MAXNAME (replicate MAXNAME 0))"
    using assms(1) by (simp add: Suc_diff_Suc flip: replicate_Suc)
  have "ent_bytes name n = dirent_bytes (replicate MAXNAME 0) name (word_of_nat n)" by (simp add: ent_bytes_def dirent_bytes_def e)
  then show "entry_name (ent_bytes name n) = name" "dirent_inum (ent_bytes name n) = word_of_nat n"
    using dirent_bytes_entry [OF assms] by simp_all
qed

lemma entry_found:
  assumes F: "fits h m 0 0 fs" and "distinct (map (base_name \<circ> fst) fs)" and "\<forall>f \<in> set fs. 0 \<notin> set (base_name (fst f))" and k: "k < length fs"
  shows "find (names (base_name (fst (fs ! k)))) (map (\<lambda>k. ent_bytes (base_name (fst (fs ! k))) (k + 2)) [0..<length fs]) =
    Some (ent_bytes (base_name (fst (fs ! k))) (k + 2))"
proof -
  have l: "length (base_name (fst (fs ! j))) < MAXNAME" "0 \<notin> set (base_name (fst (fs ! j)))" if "j < length fs" for j
  proof -
    have "(fst (fs ! j), snd (fs ! j)) \<in> set fs" using that by simp
    then show "length (base_name (fst (fs ! j))) < MAXNAME" using F by (auto simp: fits_def)
    show "0 \<notin> set (base_name (fst (fs ! j)))" using assms(3) that by simp
  qed
  have "length fs \<le> 204" using F by (simp add: fits_def SIZEOF_DIRENT_def FS_BLK_SIZE_def)
  then have nz: "(word_of_nat (j + 2) :: u32) \<noteq> 0" if "j < length fs" for j using unat_of_small [of "j + 2"] that by force
  have nm: "names (base_name (fst (fs ! k))) (ent_bytes (base_name (fst (fs ! j))) (j + 2)) \<longleftrightarrow> j = k" if "j < length fs" for j
  proof -
    have "base_name (fst (fs ! j)) = base_name (fst (fs ! k)) \<longleftrightarrow> j = k" using nth_eq_iff_index_eq [OF assms(2), of j k] that k by simp
    then show ?thesis using ent_bytes_entry [OF l [OF that], of "j + 2"] nz [OF that] by (simp only: names_def) blast
  qed
  show ?thesis using k nm by (auto simp: find_Some_iff intro!: exI [of _ k])
qed

lemma root_table:
  assumes "on_disk V I m" and "1 \<le> m" and "holds_files I m fs"
  shows "table_inode V (superblock m) FS_ROOT_INODE_ID = root_dinode (length fs)"
  using assms by (intro table_reads [OF assms(1,2)]) (simp_all add: holds_files_def FS_ROOT_INODE_ID_def root_dinode_def FS_INODE_DIR_DBLKNO_def)

lemma image_mounts:
  fixes s :: "'a fsys_scheme"
  assumes "boot_fsys s" and d: "on_disk (\<lambda>n. disk s (get_sector n)) I m" and m: "1 \<le> m" "m < 2048" and H: "holds_files I m fs"
  shows "\<exists>s1. fs_init s = Ret (0, s1) \<and> mounted s1 (\<lambda>n. disk s (get_sector n)) (superblock m)"
proof -
  let ?V = "\<lambda>n. disk s (get_sector n)"
  have "take (length (fs_meta_bytes (superblock m))) (drop 0 (?V FS_SUPERBLK)) = fs_meta_bytes (superblock m)"
    using H m by (intro block_bytes [OF d]) (simp_all add: holds_files_def FS_SUPERBLK_def nb_blk_eq length_fs_meta_bytes)
  then have "superblock m = fs_meta_of (?V FS_SUPERBLK)" using superblock_reads by (simp add: length_fs_meta_bytes)
  moreover have "magic (superblock m) = FS_MAGIC_NUMBER" "blk_size (superblock m) = word_of_nat FS_BLK_SIZE" by (simp_all add: superblock_def)
  moreover have "ino_ok (superblock m) FS_ROOT_INODE_ID" by (simp add: ino_ok_def superblock_starts FS_ROOT_INODE_ID_def INODES_PER_BLK_def)
  moreover have "type_d (table_inode ?V (superblock m) FS_ROOT_INODE_ID) = INODE_DIRECTORY" using root_table [OF d m(1) H] by (simp add: root_dinode_def)
  ultimately show ?thesis using fs_init_mounts [OF assms(1) refl] superblock_ok(1) [OF m] by simp
qed

lemma image_file:
  fixes s1 :: "'a fsys_scheme"
  assumes d: "on_disk V I m" and m: "1 \<le> m" "m < 2048" and H: "holds_files I m fs" and F: "fits h m 0 0 fs" and dn: "distinct (map (base_name \<circ> fst) fs)"
    and nm: "\<forall>f \<in> set fs. 0 \<notin> set (base_name (fst f)) \<and> base_name (fst f) \<noteq> [] \<and> full_blocks (snd f)"
    and M: "mounted s1 V (superblock m)" and f: "(p, cs) \<in> set fs" and n: "length b = length (concat cs)"
  shows "\<exists>f s2 s3. file_open s1 (47 # base_name p) O_R = Ret (Inr f, s2) \<and>
    file_read drv s2 f (Kernel b) (word_of_nat (length b)) = Ret (int (length b), Kernel (concat cs), s3)"
proof -
  obtain k where k: "k < length fs" "fs ! k = (p, cs)" using f by (auto simp: in_set_conv_nth)
  let ?e = "ent_bytes (base_name p) (k + 2)" and ?d = "packed (nb_chunks (take k fs)) cs"
  have full: "full_blocks cs" using nm f by force
  have pl: "p \<in> fst ` set fs" using f by force
  have nb: "length (base_name p) < MAXNAME" "0 \<notin> set (base_name p)" "base_name p \<noteq> []" "47 \<notin> set (base_name p)"
    using F f nm by (auto simp: fits_def base_name_def dest: set_takeWhileD)
  have "length fs \<le> 204" using F by (simp add: fits_def SIZEOF_DIRENT_def FS_BLK_SIZE_def)
  then have i: "dirent_inum ?e = word_of_nat (k + 2)" "unat (word_of_nat (k + 2) :: u32) = k + 2" "k < 204"
    using ent_bytes_entry(2) [OF nb(1,2), of "k + 2"] unat_of_small [of "k + 2"] k(1) by simp_all
  have "unat FS_ROOT_INODE_ID \<noteq> k + 2" "unat UINT32_MAX \<noteq> k + 2" using i(3) by (simp_all add: FS_ROOT_INODE_ID_def UINT32_MAX_def unsigned_minus_1_eq_mask mask_eq_exp_minus_1)
  then have ne: "dirent_inum ?e \<noteq> FS_ROOT_INODE_ID" "dirent_inum ?e \<noteq> UINT32_MAX" using i(1,2) by metis+
  have t: "table_inode V (superblock m) (dirent_inum ?e) = ?d"
    unfolding i(1) using H k i(2,3) by (intro table_reads [OF d m(1)]) (auto simp: holds_files_def)
  have fd: "find (names (base_name p)) (dir_entries V (table_inode V (superblock m) FS_ROOT_INODE_ID)) = Some ?e"
    using entry_found [OF F dn _ k(1)] nm k(2) by (simp add: root_table [OF d m(1) H] root_reads(2) [OF d m H F])
  have gd: "good_dir V (superblock m) (table_inode V (superblock m) FS_ROOT_INODE_ID)" using root_reads(1) [OF d m H F] by (simp add: root_table [OF d m(1) H])
  have cs: "cs = snd (fs ! k)" using k(2) by simp
  note pf = packed_file [OF d m H F k(1) cs full refl]
  have ok: "ino_ok (superblock m) (dirent_inum ?e)" unfolding i(1) ino_ok_def i(2) using i(3) by (simp add: superblock_starts INODES_PER_BLK_def)
  have ty: "type_d ?d = INODE_FILE" by (simp add: packed_def)
  have "length b = unat (size_d ?d)" using pf(3) n by (simp only:)
  from open_and_read [OF M superblock_ok(1) [OF m] gd nb(3,1,2,4) fd ne ok, unfolded t, OF pf(1,2) ty this, of drv]
  show ?thesis unfolding pf(4) .
qed

text \<open>C1: An image that \<^verbatim>\<open>mkfs\<close> builds from files with distinct names boots: the tool exits with success, \<^verbatim>\<open>fs_init\<close> mounts
  a disk that holds the image, and opening \<^verbatim>\<open>/name\<close> and reading as many bytes as the file has delivers the bytes
  that the host's file has.\<close>

theorem mkfs_files_open:
  fixes drv :: "nat \<Rightarrow> 'a fsys_scheme \<Rightarrow> nat \<Rightarrow> kbuf \<Rightarrow> u64 \<Rightarrow> (int \<times> kbuf \<times> 'a fsys_scheme) outcome"
  assumes "reliable h" and "1 \<le> m" and "m < 2048" and "fits h m 0 0 fs" and "drop 2 argv = map fst fs" and "2 \<le> length argv"
    and "distinct (map (base_name \<circ> fst) fs)" and "\<forall>f \<in> set fs. 0 \<notin> set (base_name (fst f)) \<and> base_name (fst f) \<noteq> [] \<and> full_blocks (snd f)"
  shows "\<exists>st. mkfs_main h m argv = (EXIT_SUCCESS, st) \<and>
    (\<forall>s :: 'a fsys_scheme. boot_fsys s \<and> on_disk (\<lambda>n. disk s (get_sector n)) (img st) m \<longrightarrow>
      (\<exists>s1. fs_init s = Ret (0, s1) \<and>
        (\<forall>(p, cs) \<in> set fs. \<forall>b. length b = length (concat cs) \<longrightarrow>
          (\<exists>f s2 s3. file_open s1 (47 # base_name p) O_R = Ret (Inr f, s2) \<and>
            file_read drv s2 f (Kernel b) (word_of_nat (length b)) = Ret (int (length b), Kernel (concat cs), s3)))))"
proof -
  obtain st where st: "mkfs_main h m argv = (EXIT_SUCCESS, st)" "holds_files (img st) m fs"
    using mkfs_main_image [OF assms(1,4-6)] by blast
  have "\<exists>s1. fs_init s = Ret (0, s1) \<and> (\<forall>(p, cs) \<in> set fs. \<forall>b. length b = length (concat cs) \<longrightarrow>
      (\<exists>f s2 s3. file_open s1 (47 # base_name p) O_R = Ret (Inr f, s2) \<and>
        file_read drv s2 f (Kernel b) (word_of_nat (length b)) = Ret (int (length b), Kernel (concat cs), s3)))"
    if s: "boot_fsys s" and d: "on_disk (\<lambda>n. disk s (get_sector n)) (img st) m" for s :: "'a fsys_scheme"
    using image_mounts [OF s d assms(2,3) st(2)] image_file [OF d assms(2,3) st(2) assms(4,7,8)] by blast
  then show ?thesis using st(1) by blast
qed

text \<open>Two files: \<^verbatim>\<open>b/sh\<close> with three bytes and \<^verbatim>\<open>ls\<close> with none; the disk of the machine holds the image.\<close>

definition two_files :: "(u8 list \<times> u8 list list) list" where
  "two_files = [([98, 47, 115, 104], [[1, 2, 3]]), ([108, 115], [])]"

definition small_host :: host where
  "small_host = \<lparr>h_files = (\<lambda>p. map_option (\<lambda>cs. \<lparr>hf_stat = Some 3, hf_reads = cs, hf_end = True\<rparr>) (map_of two_files p)),
    h_open_disk = True, h_ftruncate = True, h_short = (\<lambda>_. None)\<rparr>"

definition image_fsys :: "(nat \<Rightarrow> u8) \<Rightarrow> fsys" where
  "image_fsys I = cold_fsys\<lparr>disk := (\<lambda>x. map (\<lambda>k. I (unat x * 512 + k)) [0..<FS_BLK_SIZE]), icache := [],
    islots := (\<lambda>_. \<lparr>i_refcnt = 0, ino = 0, i_locked = False, i_valid = False, content = empty_dinode\<rparr>)\<rparr>"

lemma image_fsys_boots: "boot_fsys (image_fsys I)"
  by (simp add: boot_fsys_def cold_def image_fsys_def cold_fsys_def cold_sys_def SIZEOF_DIRENT_def)

lemma image_fsys_disk: "on_disk (\<lambda>n. disk (image_fsys I) (get_sector n)) I 1"
proof -
  have j: "signed_take_bit 31 (int (j * 8)) = int (j * 8)" if "j < 256" for j :: nat using that by (intro signed_take_bit_int_eq_self) simp_all
  have "unat (get_sector n) = unat n * 8" if "int (unat n) < 256" for n
  proof -
    have u: "unat n < 256" using that by linarith
    have "n * 8 = word_of_nat (unat n * 8)" by simp
    then have "sint (n * 8) = sint (word_of_nat (unat n * 8) :: u32)" by (rule arg_cong)
    also have "\<dots> = signed_take_bit 31 (int (unat n * 8))" by (simp only: signed_of_nat) simp
    also have "\<dots> = int (unat n * 8)" using j [OF u] .
    finally have "sint (n * 8) = int (unat n * 8)" .
    then have "get_sector n = word_of_nat (unat n * 8)" by (simp add: get_sector_def FS_BLK_SIZE_def VIRTIO_BLK_SIZE_def scast_eq)
    then show ?thesis using u by (simp only: unat_of_nat) simp
  qed
  then show ?thesis by (auto simp: on_disk_def nb_blk_eq image_fsys_def FS_BLK_SIZE_def mult.commute)
qed

theorem mkfs_files_open_witness:
  "\<exists>st s1 f s2 s3. mkfs_main small_host 1 [[], [], [98, 47, 115, 104], [108, 115]] = (EXIT_SUCCESS, st) \<and>
    fs_init (image_fsys (img st)) = Ret (0, s1) \<and> file_open s1 [47, 115, 104] O_R = Ret (Inr f, s2) \<and>
    file_read (\<lambda>_ s _ b _. Ret (0, b, s)) s2 f (Kernel [0, 0, 0]) 3 = Ret (3, Kernel [1, 2, 3], s3)"
proof -
  have "reliable small_host" by (simp add: reliable_def small_host_def)
  moreover have "fits small_host 1 0 0 two_files"
    by (simp add: fits_def offers_def small_host_def two_files_def base_name_def nb_blk_eq MAXNAME_def SIZEOF_DIRENT_def FS_BLK_SIZE_def
      FS_BM_BITS_PER_BLK_def FS_INODE_DIR_DBLKNO_def FS_INODE_INDIR_DBLKNO_def FS_MAX_FILE_SIZE_def)
  moreover have "distinct (map (base_name \<circ> fst) two_files)"
    "\<forall>f \<in> set two_files. 0 \<notin> set (base_name (fst f)) \<and> base_name (fst f) \<noteq> [] \<and> full_blocks (snd f)"
    by (simp_all add: two_files_def base_name_def full_blocks_def)
  moreover have "drop 2 [[], [], [98, 47, 115, 104], [108, 115]] = map fst two_files" by (simp add: two_files_def)
  ultimately obtain st where st: "mkfs_main small_host 1 [[], [], [98, 47, 115, 104], [108, 115]] = (EXIT_SUCCESS, st)"
    "\<forall>s. boot_fsys s \<and> on_disk (\<lambda>n. disk s (get_sector n)) (img st) 1 \<longrightarrow>
      (\<exists>s1. fs_init s = Ret (0, s1) \<and> (\<forall>(p, cs) \<in> set two_files. \<forall>b. length b = length (concat cs) \<longrightarrow>
        (\<exists>f s2 s3. file_open s1 (47 # base_name p) O_R = Ret (Inr f, s2) \<and>
          file_read (\<lambda>_ (s :: fsys) _ b _. Ret (0, b, s)) s2 f (Kernel b) (word_of_nat (length b)) = Ret (int (length b), Kernel (concat cs), s3))))"
    using mkfs_files_open [of small_host 1 two_files "[[], [], [98, 47, 115, 104], [108, 115]]" "\<lambda>_ (s :: fsys) _ b _. Ret (0, b, s)"] by auto
  from st(2) [rule_format, OF conjI [OF image_fsys_boots image_fsys_disk]]
  obtain s1 where s1: "fs_init (image_fsys (img st)) = Ret (0, s1)" "\<forall>(p, cs) \<in> set two_files. \<forall>b. length b = length (concat cs) \<longrightarrow>
        (\<exists>f s2 s3. file_open s1 (47 # base_name p) O_R = Ret (Inr f, s2) \<and>
          file_read (\<lambda>_ (s :: fsys) _ b _. Ret (0, b, s)) s2 f (Kernel b) (word_of_nat (length b)) = Ret (int (length b), Kernel (concat cs), s3))"
    by blast
  have "\<exists>f s2 s3. file_open s1 (47 # base_name [98, 47, 115, 104]) O_R = Ret (Inr f, s2) \<and>
     file_read (\<lambda>_ (s :: fsys) _ b _. Ret (0, b, s)) s2 f (Kernel [0, 0, 0]) (word_of_nat 3) = Ret (3, Kernel [1, 2, 3], s3)"
    using s1(2) [unfolded two_files_def] by (auto dest: spec [of _ "[0, 0, 0]"])
  then show ?thesis using st(1) s1(1) by (auto simp: base_name_def)
qed

end
