(* ===== verification/Mmio.thy ===== *)
theory Mmio
  imports Prelude Sched Mmap Tasks
begin

text \<open>
  Memory-mapped devices (\<^verbatim>\<open>include/lib/mmio.h\<close>).  The machine around the processor is a parameter of the drivers: the
  record \<open>bus\<close> gives what an access to an address returns and how it changes the state \<open>'d\<close> of the devices.  A driver
  runs on the kernel and the devices, the record \<open>dsys\<close>, which each driver extends by its variables.  The interrupt
  controller (\<^verbatim>\<open>arch/plic.c\<close>) is here but for its dispatcher, which is with the drivers it dispatches to.
\<close>

section \<open>The bus\<close>

record 'd bus =
  rd8 :: "u64 \<Rightarrow> 'd \<Rightarrow> u8 \<times> 'd"
  rd16 :: "u64 \<Rightarrow> 'd \<Rightarrow> u16 \<times> 'd"
  rd32 :: "u64 \<Rightarrow> 'd \<Rightarrow> u32 \<times> 'd"
  rd64 :: "u64 \<Rightarrow> 'd \<Rightarrow> u64 \<times> 'd"
  wr8 :: "u64 \<Rightarrow> u8 \<Rightarrow> 'd \<Rightarrow> 'd"
  wr16 :: "u64 \<Rightarrow> u16 \<Rightarrow> 'd \<Rightarrow> 'd"
  wr32 :: "u64 \<Rightarrow> u32 \<Rightarrow> 'd \<Rightarrow> 'd"
  wr64 :: "u64 \<Rightarrow> u64 \<Rightarrow> 'd \<Rightarrow> 'd"

text \<open>
  The kernel and the devices.  A call into the kernel may switch to another task; when the caller goes on, the
  kernel and the devices are those the other tasks left behind.
\<close>

record 'd dsys =
  kern :: ksys
  devs :: 'd

primrec lift_proc :: "(ksys, 'a) proc \<Rightarrow> ('d, 'z) dsys_scheme \<Rightarrow> (('d, 'z) dsys_scheme, 'a) proc" where
  "lift_proc (Done x k) s = Done x (s\<lparr>kern := k\<rparr>)"
| "lift_proc (Switch k c) s = Switch (s\<lparr>kern := k\<rparr>) (\<lambda>s'. lift_proc (c (kern s')) s')"
| "lift_proc Stop s = Stop"
| "lift_proc Spin s = Spin"
| "lift_proc Bad s = Bad"

definition in_kern :: "(ksys \<Rightarrow> (ksys, 'a) proc) \<Rightarrow> ('d, 'z) dsys_scheme \<Rightarrow> (('d, 'z) dsys_scheme, 'a) proc" where
  "in_kern f s = lift_proc (f (kern s)) s"

text \<open>Composing calls in the kernel and lifting the result is the same as lifting each call.\<close>

lemma lift_kern [simp]: "lift_proc m (s\<lparr>kern := k\<rparr>) = lift_proc m s"
  by (cases m) simp_all

lemma lift_bindp: "lift_proc (bindp m f) s = bindp (lift_proc m s) (\<lambda>x. in_kern (f x))"
  by (induction m arbitrary: s) (simp_all add: in_kern_def)

text \<open>An access to a device.\<close>

definition dev_read :: "('d \<Rightarrow> 'v \<times> 'd) \<Rightarrow> ('d, 'z) dsys_scheme \<Rightarrow> 'v \<times> ('d, 'z) dsys_scheme" where
  "dev_read f s = (let (v, d) = f (devs s) in (v, s\<lparr>devs := d\<rparr>))"

definition dev_write :: "('d \<Rightarrow> 'd) \<Rightarrow> ('d, 'z) dsys_scheme \<Rightarrow> ('d, 'z) dsys_scheme" where
  "dev_write f s = s\<lparr>devs := f (devs s)\<rparr>"

text \<open>A loop that waits for a device may never end.\<close>

definition ended :: "'a option \<Rightarrow> ('a \<Rightarrow> ('s, 'b) proc) \<Rightarrow> ('s, 'b) proc" where
  "ended m f = (case m of None \<Rightarrow> Spin | Some x \<Rightarrow> f x)"

text \<open>\<^verbatim>\<open>iommap_kernel\<close> as the drivers call it.\<close>

definition io_map :: "u64 \<Rightarrow> u64 \<Rightarrow> ('d, 'z) dsys_scheme \<Rightarrow> (('d, 'z) dsys_scheme, int) proc" where
  "io_map ad sz = in_kern (\<lambda>k. lift_out (iommap_kernel ad sz k) (\<lambda>(res, k1). Done res k1))"

section \<open>The screen of the board (include/arch/board.h)\<close>

definition DISPLAY_WIDTH :: nat where [layout_defs]: "DISPLAY_WIDTH = 1024"
definition DISPLAY_HEIGHT :: nat where [layout_defs]: "DISPLAY_HEIGHT = 768"

section \<open>The interrupt controller\<close>

definition PLIC_PRIORITY_BASE :: u64 where [layout_defs]: "PLIC_PRIORITY_BASE = 0x000000"
definition PLIC_PRIORITY_SIZE :: u32 where [layout_defs]: "PLIC_PRIORITY_SIZE = 4"
definition PLIC_ENABLE_BASE :: u64 where [layout_defs]: "PLIC_ENABLE_BASE = 0x002000"
definition PLIC_ENABLE_CTX_STRIDE :: u32 where [layout_defs]: "PLIC_ENABLE_CTX_STRIDE = 0x80"
definition PLIC_THRESHOLD_BASE :: u64 where [layout_defs]: "PLIC_THRESHOLD_BASE = 0x200000"
definition PLIC_THRESHOLD_CTX_STRIDE :: u32 where [layout_defs]: "PLIC_THRESHOLD_CTX_STRIDE = 0x1000"
definition PLIC_CLAIM_COMPLETE_OFF :: u64 where [layout_defs]: "PLIC_CLAIM_COMPLETE_OFF = 0x4"
definition UART_PLIC_ID :: u32 where [layout_defs]: "UART_PLIC_ID = 10"
definition VIRTIO_BLK_PLIC_ID :: u32 where [layout_defs]: "VIRTIO_BLK_PLIC_ID = 33"

definition get_context :: u32 where
  "get_context = 1"

definition priority_reg :: "u32 \<Rightarrow> u64" where
  "priority_reg irq_id = PLIC_MMIO_BASE + PLIC_PRIORITY_BASE + ucast (PLIC_PRIORITY_SIZE * irq_id)"

definition enable_reg :: "u32 \<Rightarrow> u32 \<Rightarrow> u64" where
  "enable_reg ctx irq_id = PLIC_MMIO_BASE + PLIC_ENABLE_BASE + ucast (PLIC_ENABLE_CTX_STRIDE * ctx) + ucast (4 * (irq_id div 32))"

definition threshold_reg :: "u32 \<Rightarrow> u64" where
  "threshold_reg ctx = PLIC_MMIO_BASE + PLIC_THRESHOLD_BASE + ucast (PLIC_THRESHOLD_CTX_STRIDE * ctx)"

definition claim_complete_reg :: "u32 \<Rightarrow> u64" where
  "claim_complete_reg ctx = threshold_reg ctx + PLIC_CLAIM_COMPLETE_OFF"

definition plic_set_pty :: "'d bus \<Rightarrow> u32 \<Rightarrow> u32 \<Rightarrow> 'd \<Rightarrow> 'd" where
  "plic_set_pty B irq_id priority d = wr32 B (priority_reg irq_id) (if priority > 7 then 7 else priority) d"

definition set_priority_treshold :: "'d bus \<Rightarrow> u32 \<Rightarrow> 'd \<Rightarrow> 'd" where
  "set_priority_treshold B threshold d = wr32 B (threshold_reg get_context) (if threshold > 7 then 7 else threshold) d"

definition plic_enable_irq :: "'d bus \<Rightarrow> u32 \<Rightarrow> u32 \<Rightarrow> 'd \<Rightarrow> 'd" where
  "plic_enable_irq B irq_id priority d =
    (let (v, d1) = rd32 B (enable_reg get_context irq_id) d;
         d2 = wr32 B (enable_reg get_context irq_id) (v OR push_bit (unat (irq_id mod 32)) 1) d1
     in plic_set_pty B irq_id priority d2)"

definition claim_plic :: "'d bus \<Rightarrow> 'd \<Rightarrow> u32 \<times> 'd" where
  "claim_plic B d = rd32 B (claim_complete_reg get_context) d"

definition complete_plic :: "'d bus \<Rightarrow> u32 \<Rightarrow> 'd \<Rightarrow> 'd" where
  "complete_plic B i d = wr32 B (claim_complete_reg get_context) i d"

text \<open>The registers are disjoint: setting the priority of a source, enabling it, and the threshold touch different words
  inside the mapped range.\<close>

lemma plic_regs_apart:
  assumes "i < 1024" and "j < 1024"
  shows "priority_reg i < enable_reg get_context j" "enable_reg get_context j < threshold_reg get_context"
    "threshold_reg get_context < claim_complete_reg get_context" "claim_complete_reg get_context < PLIC_MMIO_BASE + PLIC_MMIO_SIZE"
    "priority_reg i = priority_reg j \<longleftrightarrow> i = j"
proof -
  have n: "unat i < 1024" "unat j < 1024" using assms by (simp_all add: word_less_nat_alt)
  have u: "unat (ucast w :: u64) = unat w" for w :: u32
  proof -
    have "unat w < 2 ^ 32" using unsigned_less [of w] by simp
    then show ?thesis by (simp add: unsigned_ucast_eq take_bit_nat_eq_self_iff)
  qed
  have p: "unat (priority_reg k) = 0x0c000000 + 4 * unat k" if "unat k < 1024" for k
    using that by (simp add: priority_reg_def layout_defs unat_word_ariths u)
  have e: "unat (enable_reg get_context j) = 0x0c002080 + 4 * (unat j div 32)"
    using n by (simp add: enable_reg_def get_context_def layout_defs unat_word_ariths u unat_div)
  show "priority_reg i < enable_reg get_context j" using n p [of i] e by (simp add: word_less_nat_alt)
  show "enable_reg get_context j < threshold_reg get_context" using n e by (simp add: word_less_nat_alt threshold_reg_def get_context_def layout_defs)
  show "threshold_reg get_context < claim_complete_reg get_context" "claim_complete_reg get_context < PLIC_MMIO_BASE + PLIC_MMIO_SIZE"
    by (simp_all add: claim_complete_reg_def threshold_reg_def get_context_def layout_defs)
  show "priority_reg i = priority_reg j \<longleftrightarrow> i = j" using p [of i] p [of j] n by (auto simp: word_unat_eq_iff)
qed

end
