(* ===== verification/Pci.thy ===== *)
theory Pci
  imports Prelude Mmio
begin

text \<open>
  The PCI bus (\<^verbatim>\<open>kernel/drivers/pci/pci.c\<close>): the configuration space of a device, its base address registers and
  its list of capabilities.  The devices are behind the parameter \<open>bus\<close>; what the PCI specification says of a base
  address register is the predicate \<open>bar_device\<close>.
\<close>

section \<open>Registers (pci_regs.h)\<close>

definition PCI_BUS_SHIFT :: nat where [layout_defs]: "PCI_BUS_SHIFT = 20"
definition PCI_DEVICE_SHIFT :: nat where [layout_defs]: "PCI_DEVICE_SHIFT = 15"
definition PCI_FUNC_SHIFT :: nat where [layout_defs]: "PCI_FUNC_SHIFT = 12"
definition PCI_VENDOR_ID :: u32 where [layout_defs]: "PCI_VENDOR_ID = 0x00"
definition PCI_DEV_ID :: u32 where [layout_defs]: "PCI_DEV_ID = 0x02"
definition PCI_CMD :: u32 where [layout_defs]: "PCI_CMD = 0x04"
definition PCI_STATUS :: u32 where [layout_defs]: "PCI_STATUS = 0x06"
definition PCI_BAR0 :: u32 where [layout_defs]: "PCI_BAR0 = 0x10"
definition PCI_CAP_PTR :: u32 where [layout_defs]: "PCI_CAP_PTR = 0x34"
definition PCI_CMD_MMIO :: u16 where [layout_defs]: "PCI_CMD_MMIO = 2"
definition PCI_CMD_MASTER :: u16 where [layout_defs]: "PCI_CMD_MASTER = 4"
definition PCI_STATUS_CAP_LIST :: u16 where [layout_defs]: "PCI_STATUS_CAP_LIST = 16"
definition PCI_BAR_COUNT :: u8 where [layout_defs]: "PCI_BAR_COUNT = 6"
definition PCI_BAR_FLAG_MASK :: u32 where [layout_defs]: "PCI_BAR_FLAG_MASK = 15"
definition PCI_BAR_IO :: u32 where [layout_defs]: "PCI_BAR_IO = 1"
definition PCI_BAR_TYPE_MASK :: u32 where [layout_defs]: "PCI_BAR_TYPE_MASK = 6"
definition PCI_BAR_TYPE_64 :: u32 where [layout_defs]: "PCI_BAR_TYPE_64 = 4"
definition PCI_CAP_RESERVED :: u8 where [layout_defs]: "PCI_CAP_RESERVED = 3"

record pci_device =
  ecam_addr :: u32
  cap_ptr :: u8

section \<open>Operations\<close>

definition pci_read_config8 :: "'d bus \<Rightarrow> u64 \<Rightarrow> u32 \<Rightarrow> 'd \<Rightarrow> u8 \<times> 'd" where
  "pci_read_config8 B dev_addr offset = rd8 B (dev_addr + ucast offset)"

definition pci_read_config16 :: "'d bus \<Rightarrow> u64 \<Rightarrow> u32 \<Rightarrow> 'd \<Rightarrow> u16 \<times> 'd" where
  "pci_read_config16 B dev_addr offset = rd16 B (dev_addr + ucast offset)"

definition pci_read_config32 :: "'d bus \<Rightarrow> u64 \<Rightarrow> u32 \<Rightarrow> 'd \<Rightarrow> u32 \<times> 'd" where
  "pci_read_config32 B dev_addr offset = rd32 B (dev_addr + ucast offset)"

definition pci_write_config16 :: "'d bus \<Rightarrow> u64 \<Rightarrow> u32 \<Rightarrow> u16 \<Rightarrow> 'd \<Rightarrow> 'd" where
  "pci_write_config16 B dev_addr offset = wr16 B (dev_addr + ucast offset)"

definition pci_write_config32 :: "'d bus \<Rightarrow> u64 \<Rightarrow> u32 \<Rightarrow> u32 \<Rightarrow> 'd \<Rightarrow> 'd" where
  "pci_write_config32 B dev_addr offset = wr32 B (dev_addr + ucast offset)"

definition pci_make_ecam_addr :: "u32 \<Rightarrow> u32 \<Rightarrow> u32 \<Rightarrow> u32 \<Rightarrow> u64" where
  "pci_make_ecam_addr b dev func offset =
    PCI_ECAM_BASE_ADDRESS OR ucast (push_bit PCI_BUS_SHIFT b OR push_bit PCI_DEVICE_SHIFT dev OR push_bit PCI_FUNC_SHIFT func OR offset)"

definition has_cap_linked_list :: "'d bus \<Rightarrow> u32 \<Rightarrow> 'd \<Rightarrow> bool \<times> 'd" where
  "has_cap_linked_list B dev_ecam d =
    (let (status, d1) = pci_read_config16 B (ucast dev_ecam) PCI_STATUS d in (status AND PCI_STATUS_CAP_LIST \<noteq> 0, d1))"

text \<open>The loop over the devices of bus 0; the result is the error or the descriptor.\<close>

fun find_device_loop :: "'d bus \<Rightarrow> u16 \<Rightarrow> u16 \<Rightarrow> nat list \<Rightarrow> 'd \<Rightarrow> (int + pci_device) \<times> 'd" where
  "find_device_loop B vendor_id device_id [] d = (Inl (- ENODEV), d)"
| "find_device_loop B vendor_id device_id (i # is) d =
    (let ecam = pci_make_ecam_addr 0 (word_of_nat i) 0 0;
         (v_id, d1) = pci_read_config16 B ecam PCI_VENDOR_ID d
     in if v_id = 0xFFFF then find_device_loop B vendor_id device_id is d1
        else
          (let (d_id, d2) = pci_read_config16 B ecam PCI_DEV_ID d1 in
           if v_id = vendor_id \<and> d_id = device_id then
             (let (has, d3) = has_cap_linked_list B (ucast ecam) d2 in
              if has then
                (let (p, d4) = pci_read_config8 B ecam PCI_CAP_PTR d3
                 in (Inr \<lparr>ecam_addr = ucast ecam, cap_ptr = p AND NOT PCI_CAP_RESERVED\<rparr>, d4))
              else (Inr \<lparr>ecam_addr = ucast ecam, cap_ptr = 0\<rparr>, d3))
           else find_device_loop B vendor_id device_id is d2))"

definition pci_find_device :: "'d bus \<Rightarrow> u16 \<Rightarrow> u16 \<Rightarrow> 'd \<Rightarrow> (int + pci_device) \<times> 'd" where
  "pci_find_device B vendor_id device_id = find_device_loop B vendor_id device_id [0..<32]"

definition pci_enable_device :: "'d bus \<Rightarrow> pci_device \<Rightarrow> 'd \<Rightarrow> 'd" where
  "pci_enable_device B dev d =
    (let (cmd, d1) = pci_read_config16 B (ucast (ecam_addr dev)) PCI_CMD d
     in pci_write_config16 B (ucast (ecam_addr dev)) PCI_CMD (cmd OR PCI_CMD_MMIO) d1)"

definition pci_set_master :: "'d bus \<Rightarrow> pci_device \<Rightarrow> 'd \<Rightarrow> 'd" where
  "pci_set_master B dev d =
    (let (cmd, d1) = pci_read_config16 B (ucast (ecam_addr dev)) PCI_CMD d
     in pci_write_config16 B (ucast (ecam_addr dev)) PCI_CMD (cmd OR PCI_CMD_MASTER) d1)"

definition pci_bar_reg :: "u8 \<Rightarrow> u32" where
  "pci_bar_reg n = PCI_BAR0 + 4 * ucast n"

definition pci_bar_is_64 :: "u32 \<Rightarrow> bool" where
  "pci_bar_is_64 bar \<longleftrightarrow> bar AND PCI_BAR_TYPE_MASK = PCI_BAR_TYPE_64"

definition pci_get_bar_size :: "'d bus \<Rightarrow> pci_device \<Rightarrow> u8 \<Rightarrow> 'd \<Rightarrow> int \<times> 'd" where
  "pci_get_bar_size B dev n d =
    (if n \<ge> PCI_BAR_COUNT then (- EINVAL, d)
     else
       (let ecam = ucast (ecam_addr dev); reg = pci_bar_reg n;
            (bar, d1) = pci_read_config32 B ecam reg d
        in if bar AND PCI_BAR_IO \<noteq> 0 then (- EIO, d1)
           else
             (let d2 = pci_write_config32 B ecam reg 0xFFFFFFFF d1;
                  (m, d3) = pci_read_config32 B ecam reg d2;
                  lo = m AND NOT PCI_BAR_FLAG_MASK;
                  d4 = pci_write_config32 B ecam reg bar d3
              in if lo = 0 then (- EINVAL, d4)
                 else if pci_bar_is_64 bar then
                   (if n = PCI_BAR_COUNT - 1 then (- EINVAL, d4)
                    else
                      (let reg_hi = pci_bar_reg (n + 1);
                           (bar_hi, d5) = pci_read_config32 B ecam reg_hi d4;
                           d6 = pci_write_config32 B ecam reg_hi 0xFFFFFFFF d5;
                           (hi_m, d7) = pci_read_config32 B ecam reg_hi d6;
                           d8 = pci_write_config32 B ecam reg_hi bar_hi d7
                       in (sint (NOT (ucast lo OR push_bit 32 (ucast hi_m)) + 1 :: u64), d8)))
                 else (sint (NOT (ucast lo OR push_bit 32 (ucast (0xFFFFFFFF :: u32))) + 1 :: u64), d4))))"

definition pci_set_bar :: "'d bus \<Rightarrow> pci_device \<Rightarrow> u8 \<Rightarrow> u64 \<Rightarrow> 'd \<Rightarrow> int \<times> 'd" where
  "pci_set_bar B dev n ad d =
    (if n \<ge> PCI_BAR_COUNT then (- EINVAL, d)
     else
       (let ecam = ucast (ecam_addr dev); reg = pci_bar_reg n;
            (bar, d1) = pci_read_config32 B ecam reg d
        in if bar AND PCI_BAR_IO \<noteq> 0 then (- EIO, d1)
           else
             (let d2 = pci_write_config32 B ecam reg (ucast ad) d1
              in if pci_bar_is_64 bar then
                   (if n = PCI_BAR_COUNT - 1 then (- EINVAL, d2)
                    else (0, pci_write_config32 B ecam (pci_bar_reg (n + 1)) (ucast (drop_bit 32 ad)) d2))
                 else (0, d2))))"

definition pci_bar_addr :: "'d bus \<Rightarrow> pci_device \<Rightarrow> u8 \<Rightarrow> 'd \<Rightarrow> (int + u64) \<times> 'd" where
  "pci_bar_addr B dev n d =
    (if n \<ge> PCI_BAR_COUNT then (Inl (- EINVAL), d)
     else
       (let ecam = ucast (ecam_addr dev);
            (bar, d1) = pci_read_config32 B ecam (pci_bar_reg n) d
        in if bar AND PCI_BAR_IO \<noteq> 0 then (Inl (- EIO), d1)
           else
             (let res = ucast (bar AND NOT PCI_BAR_FLAG_MASK)
              in if pci_bar_is_64 bar then
                   (if n = PCI_BAR_COUNT - 1 then (Inl (- EINVAL), d1)
                    else
                      (let (hi, d2) = pci_read_config32 B ecam (pci_bar_reg (n + 1)) d1
                       in (Inr (res OR push_bit 32 (ucast hi)), d2)))
                 else (Inr res, d1))))"

text \<open>A capability is its address; \<^verbatim>\<open>cap_vndr\<close> and \<^verbatim>\<open>cap_next\<close> are its first two bytes.  The list comes from the device and may never end.\<close>

partial_function (option) find_cap_loop :: "'d bus \<Rightarrow> u32 \<Rightarrow> u8 \<Rightarrow> u8 \<Rightarrow> 'd \<Rightarrow> (u64 option \<times> 'd) option" where
  "find_cap_loop B ecam cap_id cap_off d =
    (if cap_off = 0 then Some (None, d)
     else
       (let curr = ucast ecam + ucast cap_off;
            (vndr, d1) = rd8 B curr d
        in if vndr = cap_id then Some (Some curr, d1)
           else
             (let (nx, d2) = rd8 B (curr + 1) d1
              in find_cap_loop B ecam cap_id (nx AND NOT PCI_CAP_RESERVED) d2)))"

definition pci_find_cap :: "'d bus \<Rightarrow> pci_device \<Rightarrow> u64 option \<Rightarrow> u8 \<Rightarrow> 'd \<Rightarrow> (u64 option \<times> 'd) option" where
  "pci_find_cap B dev prev cap_id d =
    (case prev of
       None \<Rightarrow> find_cap_loop B (ecam_addr dev) cap_id (cap_ptr dev) d
     | Some p \<Rightarrow>
         (let (nx, d1) = rd8 B (p + 1) d
          in find_cap_loop B (ecam_addr dev) cap_id (nx AND NOT PCI_CAP_RESERVED) d1))"

section \<open>Base address registers\<close>

text \<open>
  The registers 0 to 5 of a device, as the PCI specification has them: a read returns the value, a write changes the
  bits \<open>wm n\<close> of register \<open>n\<close> and nothing else, and the bits \<open>fl n\<close> are fixed.
\<close>

definition bar_device :: "'d bus \<Rightarrow> u32 \<Rightarrow> (u8 \<Rightarrow> u32) \<Rightarrow> (u8 \<Rightarrow> u32) \<Rightarrow> ('d \<Rightarrow> u8 \<Rightarrow> u32) \<Rightarrow> bool" where
  "bar_device B ecam wm fl bar \<longleftrightarrow>
    (\<forall>d. \<forall>n < PCI_BAR_COUNT. rd32 B (ucast ecam + ucast (pci_bar_reg n)) d = (bar d n, d)) \<and>
    (\<forall>d v. \<forall>n < PCI_BAR_COUNT. bar (wr32 B (ucast ecam + ucast (pci_bar_reg n)) v d) = (bar d)(n := (v AND wm n) OR fl n))"

text \<open>Register \<open>n\<close> maps memory of size \<open>2 ^ k\<close>; the next register holds the upper half of a 64-bit address.\<close>

definition memory_bar :: "(u8 \<Rightarrow> u32) \<Rightarrow> (u8 \<Rightarrow> u32) \<Rightarrow> u8 \<Rightarrow> nat \<Rightarrow> bool" where
  "memory_bar wm fl n k \<longleftrightarrow> n < PCI_BAR_COUNT \<and> 4 \<le> k \<and> k < 32 \<and> wm n = NOT (mask k) \<and> fl n AND 14 = fl n \<and>
    (pci_bar_is_64 (fl n) \<longrightarrow> n < PCI_BAR_COUNT - 1 \<and> wm (n + 1) = NOT 0 \<and> fl (n + 1) = 0)"

lemma bar_bits:
  fixes f :: u32 and v :: u32
  assumes "4 \<le> k" and "f AND 14 = f"
  shows "((v AND NOT (mask k)) OR f) AND NOT PCI_BAR_FLAG_MASK = v AND NOT (mask k)" "((v AND NOT (mask k)) OR f) AND PCI_BAR_IO = 0"
    "pci_bar_is_64 ((v AND NOT (mask k)) OR f) \<longleftrightarrow> pci_bar_is_64 f"
proof -
  have n: "bit (14 :: u32) i \<longleftrightarrow> 1 \<le> i \<and> i < 4" for i
  proof -
    have "(14 :: u32) = push_bit 1 (mask 3)" by (simp add: mask_eq_exp_minus_1)
    then show ?thesis by (simp only: bit_push_bit_iff bit_mask_iff) auto
  qed
  have p: "PCI_BAR_FLAG_MASK = mask 4" by (simp add: PCI_BAR_FLAG_MASK_def mask_eq_exp_minus_1)
  have f: "bit f i \<Longrightarrow> 1 \<le> i \<and> i < 4" for i using n [of i] assms(2) by (metis bit_and_iff)
  show "((v AND NOT (mask k)) OR f) AND NOT PCI_BAR_FLAG_MASK = v AND NOT (mask k)"
  proof (rule bit_word_eqI)
    fix i show "bit (((v AND NOT (mask k)) OR f) AND NOT PCI_BAR_FLAG_MASK) i = bit (v AND NOT (mask k)) i"
      using f [of i] assms(1) by (auto simp: p bit_and_iff bit_or_iff bit_not_iff bit_mask_iff)
  qed
  show "((v AND NOT (mask k)) OR f) AND PCI_BAR_IO = 0"
  proof (rule bit_word_eqI)
    fix i show "bit (((v AND NOT (mask k)) OR f) AND PCI_BAR_IO) i = bit 0 i"
      using f [of i] assms(1) by (auto simp: PCI_BAR_IO_def bit_and_iff bit_or_iff bit_not_iff bit_mask_iff bit_1_iff)
  qed
  have "((v AND NOT (mask k)) OR f) AND PCI_BAR_TYPE_MASK = f AND PCI_BAR_TYPE_MASK"
  proof (rule bit_word_eqI)
    have six: "(6 :: u32) = 14 AND mask 3" by (simp add: mask_eq_exp_minus_1)
    fix i show "bit (((v AND NOT (mask k)) OR f) AND PCI_BAR_TYPE_MASK) i = bit (f AND PCI_BAR_TYPE_MASK) i"
      using assms(1) by (auto simp: PCI_BAR_TYPE_MASK_def six bit_and_iff bit_or_iff bit_not_iff bit_mask_iff simp del: bit_numeral_simps and_numerals)
  qed
  then show "pci_bar_is_64 ((v AND NOT (mask k)) OR f) \<longleftrightarrow> pci_bar_is_64 f" by (simp add: pci_bar_is_64_def)
qed

lemma bar_size_word:
  assumes "k < 32"
  shows "sint (NOT (ucast (NOT (mask k) :: u32) OR push_bit 32 (ucast (0xFFFFFFFF :: u32))) + 1 :: u64) = 2 ^ k" "(NOT (mask k) :: u32) \<noteq> 0"
proof -
  have f: "(0xFFFFFFFF :: u32) = mask 32" by (simp add: mask_eq_exp_minus_1)
  have "ucast (NOT (mask k) :: u32) OR push_bit 32 (ucast (0xFFFFFFFF :: u32)) = (NOT (mask k) :: u64)"
    by (rule bit_word_eqI) (use assms in \<open>auto simp: f bit_simps\<close>)
  then have "NOT (ucast (NOT (mask k) :: u32) OR push_bit 32 (ucast (0xFFFFFFFF :: u32))) + 1 = (2 ^ k :: u64)"
    by (simp add: mask_eq_exp_minus_1)
  moreover have "sint (2 ^ k :: u64) = 2 ^ k"
  proof -
    have "(2 :: int) ^ k < 2 ^ 63" using assms by (intro power_strict_increasing) simp_all
    then have "signed_take_bit 63 (2 ^ k :: int) = 2 ^ k" by (intro signed_take_bit_int_eq_self) (simp_all add: order_trans [of _ 0])
    moreover have "sint (2 ^ k :: u64) = sint (word_of_int (2 ^ k) :: u64)" by simp
    ultimately show ?thesis by (simp only: sint_sbintrunc') simp
  qed
  ultimately show "sint (NOT (ucast (NOT (mask k) :: u32) OR push_bit 32 (ucast (0xFFFFFFFF :: u32))) + 1 :: u64) = 2 ^ k" by simp
  have "bit (NOT (mask k) :: u32) 31" using assms by (simp add: bit_simps)
  then show "(NOT (mask k) :: u32) \<noteq> 0" by force
qed

lemma bar_access:
  assumes "bar_device B ecam wm fl bar" and "n < PCI_BAR_COUNT"
  shows "pci_read_config32 B (ucast ecam) (pci_bar_reg n) d = (bar d n, d)"
    "bar (pci_write_config32 B (ucast ecam) (pci_bar_reg n) v d) = (bar d)(n := (v AND wm n) OR fl n)"
  using assms by (simp_all add: bar_device_def pci_read_config32_def pci_write_config32_def)

lemma next_bar:
  assumes "n < PCI_BAR_COUNT - 1"
  shows "n < PCI_BAR_COUNT" "n + 1 < PCI_BAR_COUNT" "n + 1 \<noteq> n" "n \<noteq> PCI_BAR_COUNT - 1"
proof -
  have "unat n < 5" using assms by (simp add: PCI_BAR_COUNT_def word_less_nat_alt)
  then show "n < PCI_BAR_COUNT" "n + 1 < PCI_BAR_COUNT" "n \<noteq> PCI_BAR_COUNT - 1" by (auto simp: PCI_BAR_COUNT_def word_less_nat_alt unat_word_ariths)
qed simp

text \<open>The register of a memory range, whatever was written to it.\<close>

lemma memory_bar_value:
  assumes "memory_bar wm fl n k"
  shows "((v AND wm n) OR fl n) AND NOT PCI_BAR_FLAG_MASK = v AND wm n" "((v AND wm n) OR fl n) AND PCI_BAR_IO = 0"
    "pci_bar_is_64 ((v AND wm n) OR fl n) \<longleftrightarrow> pci_bar_is_64 (fl n)"
  using bar_bits [of k "fl n" v] assms by (simp_all add: memory_bar_def)

lemma get_bar_size_memory:
  assumes D: "bar_device B (ecam_addr dv) wm fl bar" and M: "memory_bar wm fl n k" and held: "\<forall>j < PCI_BAR_COUNT. bar d j = (bar d j AND wm j) OR fl j"
  shows "\<exists>d1. pci_get_bar_size B dv n d = (2 ^ k, d1) \<and> bar d1 = bar d"
proof -
  have n: "n < PCI_BAR_COUNT" and k: "k < 32" and w: "wm n = NOT (mask k)" using M by (simp_all add: memory_bar_def)
  have n': "\<not> PCI_BAR_COUNT \<le> n" using n by (simp add: not_le)
  note acc = bar_access [OF D]
  note val = memory_bar_value [OF M, of "bar d n", folded held [rule_format, OF n]]
  have "(0xFFFFFFFF :: u32) = NOT 0" by simp
  then have all: "0xFFFFFFFF AND v = v" for v :: u32 by (simp only: and.left_neutral bit.compl_zero)
  have lo: "(wm n OR fl n) AND NOT PCI_BAR_FLAG_MASK = wm n" using memory_bar_value(1) [OF M, of "0xFFFFFFFF"] by (simp only: all)
  have keep: "(bar d)(j := (bar d j AND wm j) OR fl j) = bar d" if "j < PCI_BAR_COUNT" for j using held that by (metis fun_upd_triv)
  show ?thesis
  proof (cases "pci_bar_is_64 (fl n)")
    case False
    then show ?thesis using n' n val lo keep [OF n] bar_size_word [OF k] w by (simp add: pci_get_bar_size_def acc all Let_def)
  next
    case True
    then have h: "n < PCI_BAR_COUNT - 1" "wm (n + 1) = NOT 0" "fl (n + 1) = 0" using M by (simp_all add: memory_bar_def)
    note m = next_bar [OF h(1)]
    show ?thesis using True n' n m h val lo keep [OF n] keep [OF m(2)] bar_size_word [OF k] w by (simp add: pci_get_bar_size_def acc all Let_def)
  qed
qed

lemma set_bar_memory:
  assumes D: "bar_device B (ecam_addr dv) wm fl bar" and M: "memory_bar wm fl n k" and held: "bar d n = (bar d n AND wm n) OR fl n"
    and ad: "2 ^ k dvd unat ad" "pci_bar_is_64 (fl n) \<or> unat ad < 2 ^ 32"
  shows "\<exists>d2. pci_set_bar B dv n ad d = (0, d2) \<and> pci_bar_addr B dv n d2 = (Inr ad, d2) \<and>
    bar d2 = (if pci_bar_is_64 (fl n) then (bar d)(n := ucast ad OR fl n, n + 1 := ucast (drop_bit 32 ad)) else (bar d)(n := ucast ad OR fl n))"
proof -
  have n: "n < PCI_BAR_COUNT" and k: "4 \<le> k" "k < 32" and w: "wm n = NOT (mask k)" using M by (simp_all add: memory_bar_def)
  have n': "\<not> PCI_BAR_COUNT \<le> n" using n by (simp add: not_le)
  note acc = bar_access [OF D]
  note val = memory_bar_value [OF M, of "bar d n", folded held]
  note new = memory_bar_value [OF M, of "ucast ad"]
  have low: "\<not> bit ad i" if "i < k" for i
  proof -
    have "take_bit k (unat ad) = 0" using ad(1) by (simp only: take_bit_eq_0_iff)
    then have "\<not> bit (unat ad) i" using that bit_take_bit_iff [of k "unat ad" i] by simp
    then show ?thesis by (simp add: bit_unsigned_iff)
  qed
  have lo: "ucast ad AND wm n = (ucast ad :: u32)" by (rule bit_word_eqI) (use low in \<open>auto simp: w bit_simps\<close>)
  show ?thesis
  proof (cases "pci_bar_is_64 (fl n)")
    case False
    have "bit ad i \<Longrightarrow> i < 32" for i
    proof -
      assume "bit ad i"
      then have "bit (take_bit 32 (unat ad)) i" using False ad(2) by (simp add: take_bit_nat_eq_self bit_unsigned_iff)
      then show "i < 32" by (simp add: bit_take_bit_iff)
    qed
    then have "ucast (ucast ad :: u32) = ad" by (intro bit_word_eqI) (auto simp: bit_simps)
    then show ?thesis using False n' n val new lo by (simp add: pci_set_bar_def pci_bar_addr_def acc Let_def)
  next
    case True
    then have h: "n < PCI_BAR_COUNT - 1" "wm (n + 1) = NOT 0" "fl (n + 1) = 0" using M by (simp_all add: memory_bar_def)
    note m = next_bar [OF h(1)]
    have "ucast (ucast ad :: u32) OR push_bit 32 (ucast (ucast (drop_bit 32 ad) :: u32)) = ad"
      by (rule bit_word_eqI) (auto simp: bit_simps)
    then show ?thesis using True n' n m h val new lo by (simp add: pci_set_bar_def pci_bar_addr_def acc Let_def)
  qed
qed

text \<open>C15: For a memory range of size \<open>2 ^ k\<close> from 16 bytes up to 2 GiB (\<open>4 \<le> k < 32\<close>), \<^verbatim>\<open>pci_get_bar_size\<close> returns the size and leaves
  the registers of the device as they were; programming an address that is a multiple of the size succeeds and the address reads back.
  It writes the register of the range, and the next one exactly for a 64-bit range: all others keep their values.\<close>

theorem pci_bar_programmed:
  assumes "bar_device B (ecam_addr dv) wm fl bar" and "memory_bar wm fl n k" and "\<forall>j < PCI_BAR_COUNT. bar d j = (bar d j AND wm j) OR fl j"
  shows "\<exists>d1. pci_get_bar_size B dv n d = (2 ^ k, d1) \<and> bar d1 = bar d \<and>
    (\<forall>ad. 2 ^ k dvd unat ad \<and> (pci_bar_is_64 (fl n) \<or> unat ad < 2 ^ 32) \<longrightarrow>
      (\<exists>d2. pci_set_bar B dv n ad d1 = (0, d2) \<and> pci_bar_addr B dv n d2 = (Inr ad, d2) \<and>
        bar d2 = (if pci_bar_is_64 (fl n) then (bar d)(n := ucast ad OR fl n, n + 1 := ucast (drop_bit 32 ad)) else (bar d)(n := ucast ad OR fl n))))"
proof -
  obtain d1 where d1: "pci_get_bar_size B dv n d = (2 ^ k, d1)" "bar d1 = bar d" using get_bar_size_memory [OF assms] by blast
  have "n < PCI_BAR_COUNT" using assms(2) by (simp add: memory_bar_def)
  then have "bar d1 n = (bar d1 n AND wm n) OR fl n" using assms(3) d1(2) by simp
  from set_bar_memory [OF assms(1,2) this] show ?thesis using d1 by auto
qed

text \<open>A device with a 64-bit range of 64 KiB in the registers 4 and 5; its state is the six registers.\<close>

definition wide_mask :: "u8 \<Rightarrow> u32" where
  "wide_mask n = (if n = 4 then 0xFFFF0000 else if n = 5 then 0xFFFFFFFF else 0)"

definition wide_flags :: "u8 \<Rightarrow> u32" where
  "wide_flags n = (if n = 4 then 4 else 0)"

definition bar_index :: "u64 \<Rightarrow> u8" where
  "bar_index a = ucast ((a - 0x30000010) div 4)"

definition wide_bus :: "(u8 \<Rightarrow> u32) bus" where
  "wide_bus = \<lparr>rd8 = \<lambda>_ d. (0, d), rd16 = \<lambda>_ d. (0, d), rd32 = \<lambda>a d. (d (bar_index a), d), rd64 = \<lambda>_ d. (0, d),
    wr8 = \<lambda>_ _ d. d, wr16 = \<lambda>_ _ d. d, wr32 = \<lambda>a v d. d(bar_index a := (v AND wide_mask (bar_index a)) OR wide_flags (bar_index a)), wr64 = \<lambda>_ _ d. d\<rparr>"

lemma wide_bus_device: "bar_device wide_bus 0x30000000 wide_mask wide_flags (\<lambda>d. d)"
proof -
  have "bar_index (ucast (0x30000000 :: u32) + ucast (pci_bar_reg n)) = n" if "n < PCI_BAR_COUNT" for n
  proof -
    have "n \<in> {0, 1, 2, 3, 4, 5}" using that by (simp add: PCI_BAR_COUNT_def word_less_nat_alt word_unat_eq_iff) arith
    then show ?thesis by (auto simp: bar_index_def pci_bar_reg_def PCI_BAR0_def)
  qed
  then show ?thesis by (simp add: bar_device_def wide_bus_def)
qed

theorem pci_bar_programmed_witness:
  "\<exists>d1 d2. pci_get_bar_size wide_bus \<lparr>ecam_addr = 0x30000000, cap_ptr = 0\<rparr> 4 wide_flags = (0x10000, d1) \<and>
    pci_set_bar wide_bus \<lparr>ecam_addr = 0x30000000, cap_ptr = 0\<rparr> 4 0x100060000 d1 = (0, d2) \<and>
    pci_bar_addr wide_bus \<lparr>ecam_addr = 0x30000000, cap_ptr = 0\<rparr> 4 d2 = (Inr 0x100060000, d2)"
proof -
  have "memory_bar wide_mask wide_flags 4 16"
    by (simp add: memory_bar_def wide_mask_def wide_flags_def PCI_BAR_COUNT_def pci_bar_is_64_def PCI_BAR_TYPE_MASK_def PCI_BAR_TYPE_64_def mask_eq_exp_minus_1)
  moreover have "\<forall>j < PCI_BAR_COUNT. wide_flags j = (wide_flags j AND wide_mask j) OR wide_flags j" by (simp add: wide_flags_def wide_mask_def)
  ultimately obtain d1 where d1: "pci_get_bar_size wide_bus \<lparr>ecam_addr = 0x30000000, cap_ptr = 0\<rparr> 4 wide_flags = (2 ^ 16, d1)"
    "\<forall>ad. 2 ^ 16 dvd unat ad \<and> (pci_bar_is_64 (wide_flags 4) \<or> unat ad < 2 ^ 32) \<longrightarrow>
      (\<exists>d2. pci_set_bar wide_bus \<lparr>ecam_addr = 0x30000000, cap_ptr = 0\<rparr> 4 ad d1 = (0, d2) \<and>
        pci_bar_addr wide_bus \<lparr>ecam_addr = 0x30000000, cap_ptr = 0\<rparr> 4 d2 = (Inr ad, d2))"
    using pci_bar_programmed [of wide_bus "\<lparr>ecam_addr = 0x30000000, cap_ptr = 0\<rparr>" wide_mask wide_flags "\<lambda>d. d" 4 16 wide_flags] wide_bus_device
    unfolding pci_device.simps by blast
  have "2 ^ 16 dvd unat (0x100060000 :: u64) \<and> (pci_bar_is_64 (wide_flags 4) \<or> unat (0x100060000 :: u64) < 2 ^ 32)"
    by (simp add: wide_flags_def pci_bar_is_64_def PCI_BAR_TYPE_MASK_def PCI_BAR_TYPE_64_def)
  from d1(2) [rule_format, OF this] obtain d2 where "pci_set_bar wide_bus \<lparr>ecam_addr = 0x30000000, cap_ptr = 0\<rparr> 4 0x100060000 d1 = (0, d2)"
    "pci_bar_addr wide_bus \<lparr>ecam_addr = 0x30000000, cap_ptr = 0\<rparr> 4 d2 = (Inr 0x100060000, d2)" by blast
  moreover have "(2 :: int) ^ 16 = 0x10000" by simp
  ultimately show ?thesis using d1(1) by (intro exI [of _ d1] exI [of _ d2]) (simp only:)
qed

text \<open>A 64-bit range of 4 GiB or more has no writable bit in the lower register and counts as missing.\<close>

lemma pci_get_bar_size_huge:
  assumes D: "bar_device B (ecam_addr dv) wm fl bar" and "n < PCI_BAR_COUNT" and "wm n = 0" and "fl n AND 14 = fl n" and "bar d n = fl n"
  shows "\<exists>d1. pci_get_bar_size B dv n d = (- EINVAL, d1)"
proof -
  have n: "\<not> PCI_BAR_COUNT \<le> n" using assms(2) by (simp add: not_le)
  have f: "fl n AND NOT PCI_BAR_FLAG_MASK = 0" "fl n AND PCI_BAR_IO = 0" using bar_bits(1,2) [of 32 "fl n" 0] assms(4) by simp_all
  show ?thesis using n assms(2,3,5) f by (simp add: pci_get_bar_size_def bar_access [OF D] Let_def)
qed

section \<open>Capabilities\<close>

text \<open>Reading a byte of the configuration space of a device, which has 4 KiB, changes nothing.\<close>

definition config_bytes :: "'d bus \<Rightarrow> u32 \<Rightarrow> (u64 \<Rightarrow> u8) \<Rightarrow> bool" where
  "config_bytes B ecam m \<longleftrightarrow> (\<forall>i < 4096. \<forall>d. rd8 B (ucast ecam + i) d = (m (ucast ecam + i), d))"

lemma config_bytes_at:
  assumes "config_bytes B ecam m"
  shows "rd8 B (ucast ecam + ucast (x :: u8)) d = (m (ucast ecam + ucast x), d)" "rd8 B (ucast ecam + ucast x + 1) d = (m (ucast ecam + ucast x + 1), d)"
proof -
  have "unat x < 2 ^ 8" using unsigned_less [of x] by simp
  then have "unat (ucast x :: u64) < 256" by (simp add: unsigned_ucast_eq take_bit_nat_eq_self)
  then have "(ucast x :: u64) < 4096" "(ucast x + 1 :: u64) < 4096" by (simp_all add: word_less_nat_alt unat_word_ariths)
  then show "rd8 B (ucast ecam + ucast x) d = (m (ucast ecam + ucast x), d)" "rd8 B (ucast ecam + ucast x + 1) d = (m (ucast ecam + ucast x + 1), d)"
    using assms by (simp_all add: config_bytes_def add.assoc)
qed

definition next_cap :: "(u64 \<Rightarrow> u8) \<Rightarrow> u32 \<Rightarrow> u8 \<Rightarrow> u8" where
  "next_cap m ecam x = m (ucast ecam + ucast x + 1) AND NOT PCI_CAP_RESERVED"

definition cap_here :: "(u64 \<Rightarrow> u8) \<Rightarrow> u32 \<Rightarrow> u8 \<Rightarrow> u8 \<Rightarrow> bool" where
  "cap_here m ecam cap_id x \<longleftrightarrow> m (ucast ecam + ucast x) = cap_id"

fun cap_path :: "(u64 \<Rightarrow> u8) \<Rightarrow> u32 \<Rightarrow> u8 \<Rightarrow> u8 list \<Rightarrow> bool" where
  "cap_path m ecam off [] \<longleftrightarrow> off = 0"
| "cap_path m ecam off (x # xs) \<longleftrightarrow> x = off \<and> x \<noteq> 0 \<and> cap_path m ecam (next_cap m ecam x) xs"

lemma find_cap_loop_step:
  assumes "config_bytes B ecam m"
  shows "find_cap_loop B ecam cap_id off d =
    (if off = 0 then Some (None, d) else if cap_here m ecam cap_id off then Some (Some (ucast ecam + ucast off), d)
     else find_cap_loop B ecam cap_id (next_cap m ecam off) d)"
  by (subst find_cap_loop.simps) (simp add: config_bytes_at [OF assms] cap_here_def next_cap_def)

lemma find_cap_loop_path:
  assumes "config_bytes B ecam m" and "cap_path m ecam off xs"
  shows "find_cap_loop B ecam cap_id off d = Some (map_option (\<lambda>x. ucast ecam + ucast x) (find (cap_here m ecam cap_id) xs), d)"
  using assms(2)
proof (induction xs arbitrary: off)
  case Nil
  then show ?case by (simp add: find_cap_loop.simps)
next
  case (Cons x xs)
  then show ?case using find_cap_loop_step [OF assms(1), of cap_id off d] by auto
qed

lemma find_cap_loop_stuck:
  assumes "config_bytes B ecam m" and "\<forall>x \<in> S. x \<noteq> 0 \<and> \<not> cap_here m ecam cap_id x \<and> next_cap m ecam x \<in> S" and "off \<in> S"
  shows "find_cap_loop B ecam cap_id off d = None"
proof -
  have "B' = B \<longrightarrow> e = ecam \<longrightarrow> c = cap_id \<longrightarrow> o' \<notin> S" if "find_cap_loop B' e c o' d = Some y" for B' e c o' d y
  proof (rule find_cap_loop.raw_induct [OF _ that], goal_cases)
    case (1 f B' e c o' d y)
    show ?case
    proof (intro impI notI)
      assume e: "B' = B" "e = ecam" "c = cap_id" "o' \<in> S"
      then have "f B ecam cap_id (next_cap m ecam o') d = Some y" using 1(2) assms(2) by (simp add: config_bytes_at [OF assms(1)] cap_here_def next_cap_def)
      then show False using 1(1) e assms(2) by blast
    qed
  qed
  then show ?thesis using assms(3) by (metis not_Some_eq)
qed

lemma cap_path_behind:
  assumes "cap_path m ecam off (xs @ ys)" and "xs \<noteq> []"
  shows "cap_path m ecam (next_cap m ecam (last xs)) ys"
  using assms
proof (induction xs arbitrary: off)
  case (Cons x xs)
  then show ?case by (cases xs) auto
qed simp

text \<open>C33: When the capability list of a device ends, \<^verbatim>\<open>pci_find_cap\<close> returns the first capability with the wanted id, behind a given
  one if there is one, and NULL if there is none.  When the list runs into a cycle with no such capability it never returns.\<close>

theorem pci_find_cap_first:
  assumes "config_bytes B (ecam_addr dv) m"
  shows "(cap_path m (ecam_addr dv) (cap_ptr dv) (xs @ ys) \<longrightarrow>
      pci_find_cap B dv (if xs = [] then None else Some (ucast (ecam_addr dv) + ucast (last xs))) cap_id d =
        Some (map_option (\<lambda>x. ucast (ecam_addr dv) + ucast x) (find (cap_here m (ecam_addr dv) cap_id) ys), d)) \<and>
    ((\<forall>x \<in> S. x \<noteq> 0 \<and> \<not> cap_here m (ecam_addr dv) cap_id x \<and> next_cap m (ecam_addr dv) x \<in> S) \<longrightarrow> cap_ptr dv \<in> S \<longrightarrow>
      pci_find_cap B dv None cap_id d = None)"
proof (intro conjI impI)
  assume p: "cap_path m (ecam_addr dv) (cap_ptr dv) (xs @ ys)"
  show "pci_find_cap B dv (if xs = [] then None else Some (ucast (ecam_addr dv) + ucast (last xs))) cap_id d =
      Some (map_option (\<lambda>x. ucast (ecam_addr dv) + ucast x) (find (cap_here m (ecam_addr dv) cap_id) ys), d)"
  proof (cases "xs = []")
    case True
    then show ?thesis using find_cap_loop_path [OF assms] p by (simp add: pci_find_cap_def)
  next
    case False
    then show ?thesis using find_cap_loop_path [OF assms cap_path_behind [OF p False]]
      by (simp add: pci_find_cap_def config_bytes_at [OF assms] flip: next_cap_def)
  qed
next
  assume "\<forall>x \<in> S. x \<noteq> 0 \<and> \<not> cap_here m (ecam_addr dv) cap_id x \<and> next_cap m (ecam_addr dv) x \<in> S" and "cap_ptr dv \<in> S"
  from find_cap_loop_stuck [OF assms this] show "pci_find_cap B dv None cap_id d = None" by (simp add: pci_find_cap_def)
qed

text \<open>Two capabilities, the second of the wanted kind; and a capability that leads to itself.\<close>

definition byte_bus :: "(u64 \<Rightarrow> u8) \<Rightarrow> unit bus" where
  "byte_bus m = \<lparr>rd8 = \<lambda>a d. (m a, d), rd16 = \<lambda>_ d. (0, d), rd32 = \<lambda>_ d. (0, d), rd64 = \<lambda>_ d. (0, d),
    wr8 = \<lambda>_ _ d. d, wr16 = \<lambda>_ _ d. d, wr32 = \<lambda>_ _ d. d, wr64 = \<lambda>_ _ d. d\<rparr>"

lemma byte_bus_bytes: "config_bytes (byte_bus m) ecam m"
  by (simp add: config_bytes_def byte_bus_def)

theorem pci_find_cap_first_witness:
  "pci_find_cap (byte_bus ((\<lambda>_. 0)(0x40 := 5, 0x41 := 0x50, 0x50 := 9, 0x51 := 0))) \<lparr>ecam_addr = 0, cap_ptr = 0x40\<rparr> None 9 () = Some (Some 0x50, ()) \<and>
    pci_find_cap (byte_bus ((\<lambda>_. 0)(0x40 := 5, 0x41 := 0x40))) \<lparr>ecam_addr = 0, cap_ptr = 0x40\<rparr> None 9 () = None"
proof
  let ?m = "(\<lambda>_. 0)(0x40 := 5, 0x41 := 0x50, 0x50 := 9, 0x51 := 0) :: u64 \<Rightarrow> u8"
  have "cap_path ?m 0 0x40 ([] @ [0x40, 0x50])" by (simp add: next_cap_def PCI_CAP_RESERVED_def)
  moreover have "find (cap_here ?m 0 9) [0x40, 0x50] = Some 0x50" by (simp add: cap_here_def)
  ultimately show "pci_find_cap (byte_bus ?m) \<lparr>ecam_addr = 0, cap_ptr = 0x40\<rparr> None 9 () = Some (Some 0x50, ())"
    using pci_find_cap_first [OF byte_bus_bytes, of ?m "\<lparr>ecam_addr = 0, cap_ptr = 0x40\<rparr>" "[]" "[0x40, 0x50]" 9 "()" "{}"] by simp
next
  let ?m = "(\<lambda>_. 0)(0x40 := 5, 0x41 := 0x40) :: u64 \<Rightarrow> u8"
  have "\<forall>x \<in> {0x40}. x \<noteq> 0 \<and> \<not> cap_here ?m 0 9 x \<and> next_cap ?m 0 x \<in> {0x40}" by (simp add: cap_here_def next_cap_def PCI_CAP_RESERVED_def)
  then show "pci_find_cap (byte_bus ?m) \<lparr>ecam_addr = 0, cap_ptr = 0x40\<rparr> None 9 () = None"
    using pci_find_cap_first [OF byte_bus_bytes, of ?m "\<lparr>ecam_addr = 0, cap_ptr = 0x40\<rparr>" "[]" "[]" 9 "()" "{0x40}"] by simp
qed

end
