(* ===== verification/Uart.thy ===== *)
theory Uart
  imports Prelude Sched Sync Tasks Mmio
begin

text \<open>
  The serial line (\<^verbatim>\<open>kernel/drivers/uart/ns16550.c\<close>): its registers through the bus, and the ring buffer between
  the daemon that receives and the task that reads.  The ring is shared without a lock, so its operations are split at
  their accesses to memory, and the properties are about every interleaving of these parts.
\<close>

section \<open>Registers (ns16550_regs.h)\<close>

definition UART_CLOCK_FREQ :: nat where [layout_defs]: "UART_CLOCK_FREQ = 1843200"
definition UART_BAUD_RATE :: nat where [layout_defs]: "UART_BAUD_RATE = 115200"
definition UART_RBR :: u64 where [layout_defs]: "UART_RBR = 0"
definition UART_THR :: u64 where [layout_defs]: "UART_THR = 0"
definition UART_IER :: u64 where [layout_defs]: "UART_IER = 1"
definition UART_DLL :: u64 where [layout_defs]: "UART_DLL = 0"
definition UART_DLH :: u64 where [layout_defs]: "UART_DLH = 1"
definition UART_FCR :: u64 where [layout_defs]: "UART_FCR = 2"
definition UART_LCR :: u64 where [layout_defs]: "UART_LCR = 3"
definition UART_LSR :: u64 where [layout_defs]: "UART_LSR = 5"
definition UART_IER_RXEN :: u8 where [layout_defs]: "UART_IER_RXEN = 1"
definition UART_LSR_DA :: u8 where [layout_defs]: "UART_LSR_DA = 1"
definition UART_FCR_EWL :: u8 where [layout_defs]: "UART_FCR_EWL = 1"
definition UART_LCR_8BIT :: u8 where [layout_defs]: "UART_LCR_8BIT = 3"
definition UART_LCR_PEN :: u8 where [layout_defs]: "UART_LCR_PEN = 8"
definition UART_LCR_DLAB :: u8 where [layout_defs]: "UART_LCR_DLAB = 128"

definition uart_reg_read :: "'d bus \<Rightarrow> u64 \<Rightarrow> 'd \<Rightarrow> u8 \<times> 'd" where
  "uart_reg_read B reg = rd8 B (UART_BASE + reg)"

definition uart_reg_write :: "'d bus \<Rightarrow> u64 \<Rightarrow> u8 \<Rightarrow> 'd \<Rightarrow> 'd" where
  "uart_reg_write B reg = wr8 B (UART_BASE + reg)"

text \<open>A register is read, changed and written back.\<close>

definition uart_reg_update :: "'d bus \<Rightarrow> u64 \<Rightarrow> (u8 \<Rightarrow> u8) \<Rightarrow> 'd \<Rightarrow> 'd" where
  "uart_reg_update B reg f d = (let (v, d1) = uart_reg_read B reg d in uart_reg_write B reg (f v) d1)"

section \<open>The ring buffer\<close>

definition UART_RX_BUFFER_SIZE :: nat where [layout_defs]: "UART_RX_BUFFER_SIZE = 128"

record uart_ring_buffer =
  rb_buf :: "u8 list"
  rb_head :: u32
  rb_tail :: u32

definition buffer_empty :: "uart_ring_buffer \<Rightarrow> bool" where
  "buffer_empty b \<longleftrightarrow> rb_head b = rb_tail b"

definition buffer_full :: "uart_ring_buffer \<Rightarrow> bool" where
  "buffer_full b \<longleftrightarrow> (rb_head b + 1) mod word_of_nat UART_RX_BUFFER_SIZE = rb_tail b"

definition put_store :: "u8 \<Rightarrow> uart_ring_buffer \<Rightarrow> uart_ring_buffer" where
  "put_store c b = b\<lparr>rb_buf := (rb_buf b)[unat (rb_head b) := c]\<rparr>"

definition put_publish :: "uart_ring_buffer \<Rightarrow> uart_ring_buffer" where
  "put_publish b = b\<lparr>rb_head := (rb_head b + 1) mod word_of_nat UART_RX_BUFFER_SIZE\<rparr>"

definition buffer_put :: "uart_ring_buffer \<Rightarrow> u8 \<Rightarrow> int \<times> uart_ring_buffer" where
  "buffer_put b c = (if buffer_full b then (- ENOSPC, b) else (0, put_publish (put_store c b)))"

definition get_load :: "uart_ring_buffer \<Rightarrow> u8" where
  "get_load b = rb_buf b ! unat (rb_tail b)"

definition get_advance :: "uart_ring_buffer \<Rightarrow> uart_ring_buffer" where
  "get_advance b = b\<lparr>rb_tail := (rb_tail b + 1) mod word_of_nat UART_RX_BUFFER_SIZE\<rparr>"

definition buffer_get :: "uart_ring_buffer \<Rightarrow> u8 \<times> uart_ring_buffer" where
  "buffer_get b = (if \<not> buffer_empty b then (get_load b, get_advance b) else (0, b))"

section \<open>The driver\<close>

record 'd usys = "'d dsys" +
  rx_buffer :: uart_ring_buffer

text \<open>The semaphores of the driver.\<close>

definition rx_count :: nat where "rx_count = 2"
definition fill_signal :: nat where "fill_signal = 3"

definition uart_enable_fifo :: "'d bus \<Rightarrow> 'd \<Rightarrow> 'd" where
  "uart_enable_fifo B = uart_reg_write B UART_FCR UART_FCR_EWL"

definition uart_config_lcr :: "'d bus \<Rightarrow> 'd \<Rightarrow> 'd" where
  "uart_config_lcr B = uart_reg_update B UART_LCR (\<lambda>v. v OR (UART_LCR_8BIT OR UART_LCR_PEN))"

definition uart_set_baud :: "'d bus \<Rightarrow> 'd \<Rightarrow> 'd" where
  "uart_set_baud B d =
    (let rate = word_of_nat (UART_CLOCK_FREQ div (16 * UART_BAUD_RATE)) :: u16;
         d1 = uart_reg_update B UART_LCR (\<lambda>v. v OR UART_LCR_DLAB) d;
         d2 = uart_reg_write B UART_DLL (ucast rate) d1;
         d3 = uart_reg_write B UART_DLH (ucast (drop_bit 8 rate)) d2
     in uart_reg_update B UART_LCR (\<lambda>v. v AND NOT UART_LCR_DLAB) d3)"

definition uart_enable_rxirq :: "'d bus \<Rightarrow> 'd \<Rightarrow> 'd" where
  "uart_enable_rxirq B = uart_reg_update B UART_IER (\<lambda>v. v OR UART_IER_RXEN)"

definition uart_disable_rxirq :: "'d bus \<Rightarrow> 'd \<Rightarrow> 'd" where
  "uart_disable_rxirq B = uart_reg_update B UART_IER (\<lambda>v. v AND NOT UART_IER_RXEN)"

definition uart_init :: "'d bus \<Rightarrow> 'd \<Rightarrow> 'd" where
  "uart_init B d =
    plic_enable_irq B UART_PLIC_ID 3 (uart_enable_rxirq B (uart_config_lcr B (uart_enable_fifo B (uart_set_baud B d))))"

definition uart_putchar :: "'d bus \<Rightarrow> u8 \<Rightarrow> 'd \<Rightarrow> 'd" where
  "uart_putchar B c = uart_reg_write B UART_THR c"

definition uart_getchar :: "'d bus \<Rightarrow> 'd \<Rightarrow> u8 \<times> 'd" where
  "uart_getchar B = uart_reg_read B UART_RBR"

definition uart_rx_data_ready :: "'d bus \<Rightarrow> 'd \<Rightarrow> u8 \<times> 'd" where
  "uart_rx_data_ready B d = (let (v, d1) = uart_reg_read B UART_LSR d in (v AND UART_LSR_DA, d1))"

text \<open>The inner loop of the daemon, with at most \<open>n\<close> characters; a line that never pauses keeps it busy.\<close>

fun fill_loop :: "'d bus \<Rightarrow> nat \<Rightarrow> ('d, 'z) usys_scheme \<Rightarrow> (('d, 'z) usys_scheme, unit) proc" where
  "fill_loop B 0 s = Spin"
| "fill_loop B (Suc n) s =
    (let (ready, s1) = dev_read (uart_rx_data_ready B) s in
     if ready = 0 then Done () s1
     else
       (let (c, s2) = dev_read (uart_getchar B) s1;
            (res, b) = buffer_put (rx_buffer s2) c;
            s3 = s2\<lparr>rx_buffer := b\<rparr>
        in if res = 0 then bindp (in_kern (sem_post rx_count) s3) (\<lambda>_. fill_loop B n) else fill_loop B n s3))"

text \<open>One round of the daemon.\<close>

definition fill_rx_buff_round :: "'d bus \<Rightarrow> nat \<Rightarrow> ('d, 'z) usys_scheme \<Rightarrow> (('d, 'z) usys_scheme, unit) proc" where
  "fill_rx_buff_round B n s =
    bindp (in_kern (sem_wait fill_signal) s) (\<lambda>_ s1.
      bindp (fill_loop B n s1) (\<lambda>_ s2. Done () (dev_write (uart_enable_rxirq B) s2)))"

definition uart_daemon_name :: "u8 list" where
  "uart_daemon_name = [117, 97, 114, 116, 32, 114, 120, 32, 100, 97, 101, 109]"

definition uart_spawn_daemons :: "nat \<Rightarrow> ksys \<Rightarrow> (ksys, int) proc" where
  "uart_spawn_daemons fill_rx_buff_daemon s =
    bindp (task_kthread fill_rx_buff_daemon uart_daemon_name HIGH s) (\<lambda>r s1.
      case r of Inl e \<Rightarrow> Done e s1 | Inr _ \<Rightarrow> Done 0 s1)"

definition uart_read :: "('d, 'z) usys_scheme \<Rightarrow> (('d, 'z) usys_scheme, u8) proc" where
  "uart_read s =
    bindp (in_kern (sem_wait rx_count) s) (\<lambda>_ s1.
      let (c, b) = buffer_get (rx_buffer s1) in Done c (s1\<lparr>rx_buffer := b\<rparr>))"

definition uart_irq_handler :: "'d bus \<Rightarrow> ('d, 'z) usys_scheme \<Rightarrow> (('d, 'z) usys_scheme, unit) proc" where
  "uart_irq_handler B s = in_kern (sem_post fill_signal) (dev_write (uart_disable_rxirq B) s)"

section \<open>The ring as a queue\<close>

definition ring_ok :: "uart_ring_buffer \<Rightarrow> bool" where
  "ring_ok b \<longleftrightarrow> length (rb_buf b) = 128 \<and> unat (rb_head b) < 128 \<and> unat (rb_tail b) < 128"

definition ring_len :: "uart_ring_buffer \<Rightarrow> nat" where
  "ring_len b = (if rb_tail b \<le> rb_head b then unat (rb_head b) - unat (rb_tail b) else 128 + unat (rb_head b) - unat (rb_tail b))"

definition ring_chars :: "uart_ring_buffer \<Rightarrow> u8 list" where
  "ring_chars b = map (\<lambda>i. rb_buf b ! ((unat (rb_tail b) + i) mod 128)) [0..<ring_len b]"

lemma unat_succ_mod: "unat w < 128 \<Longrightarrow> unat ((w + 1) mod word_of_nat UART_RX_BUFFER_SIZE :: u32) = (if unat w = 127 then 0 else unat w + 1)"
  by (simp add: UART_RX_BUFFER_SIZE_def unat_mod unat_word_ariths)

lemma add_mod_128: "x < 128 \<Longrightarrow> y < 128 \<Longrightarrow> (x + y) mod 128 = (if x + y < 128 then x + y else x + y - 128 :: nat)"
  by (simp add: mod_if)

lemma succ_mod_128: "(t + Suc i) mod 128 = ((if t = 127 then 0 else t + 1) + i) mod (128 :: nat)"
proof (cases "t = 127")
  case True
  have "127 + Suc i = i + 128" by simp
  then have "(127 + Suc i) mod 128 = i mod 128" by (simp only: mod_add_self2)
  then show ?thesis unfolding True by (simp only: if_True add_0 refl)
next
  case False
  then show ?thesis by (simp only: if_False add_Suc_right add_Suc One_nat_def add_0_right)
qed

lemmas ring_defs = ring_ok_def ring_len_def word_le_nat_alt

lemma ring_len_less: "ring_ok b \<Longrightarrow> ring_len b < 128"
  by (auto simp: ring_defs)

lemma ring_head: "ring_ok b \<Longrightarrow> (unat (rb_tail b) + ring_len b) mod 128 = unat (rb_head b)"
  by (auto simp: ring_defs)

lemma length_ring_chars [simp]: "length (ring_chars b) = ring_len b"
  by (simp add: ring_chars_def)

lemma buffer_empty_iff: "ring_ok b \<Longrightarrow> buffer_empty b \<longleftrightarrow> ring_len b = 0"
  by (auto simp: buffer_empty_def ring_defs word_unat_eq_iff)

lemma buffer_full_iff: "ring_ok b \<Longrightarrow> buffer_full b \<longleftrightarrow> ring_len b = 127"
  by (auto simp: buffer_full_def ring_defs word_unat_eq_iff unat_succ_mod)

lemma ring_ok_ops [simp]:
  assumes "ring_ok b"
  shows "ring_ok (put_store c b)" "ring_ok (put_publish b)" "ring_ok (get_advance b)"
  using assms by (simp_all add: ring_ok_def put_store_def put_publish_def get_advance_def unat_succ_mod)

lemma ring_store:
  assumes "ring_ok b"
  shows "ring_chars (put_store c b) = ring_chars b" "ring_len (put_store c b) = ring_len b" "rb_buf (put_store c b) ! unat (rb_head (put_store c b)) = c"
proof -
  show l: "ring_len (put_store c b) = ring_len b" by (simp add: put_store_def ring_len_def)
  show "rb_buf (put_store c b) ! unat (rb_head (put_store c b)) = c" using assms by (simp add: put_store_def ring_ok_def)
  have "unat (rb_head b) \<noteq> (unat (rb_tail b) + i) mod 128" if "i < ring_len b" for i
    using that assms ring_len_less [OF assms] by (auto simp: ring_defs mod_if split: if_splits)
  then show "ring_chars (put_store c b) = ring_chars b" unfolding ring_chars_def l by (simp add: put_store_def)
qed

lemma ring_publish:
  assumes "ring_ok b" and "ring_len b < 127"
  shows "ring_len (put_publish b) = Suc (ring_len b)" "ring_chars (put_publish b) = ring_chars b @ [rb_buf b ! unat (rb_head b)]"
proof -
  show l: "ring_len (put_publish b) = Suc (ring_len b)"
    using assms by (auto simp: ring_defs put_publish_def unat_succ_mod split: if_splits)
  show "ring_chars (put_publish b) = ring_chars b @ [rb_buf b ! unat (rb_head b)]"
    unfolding ring_chars_def l using ring_head [OF assms(1)] by (simp add: put_publish_def)
qed

lemma ring_advance:
  assumes "ring_ok b" and "ring_len b > 0"
  shows "ring_len (get_advance b) = ring_len b - 1" "ring_chars b = get_load b # ring_chars (get_advance b)"
proof -
  have t: "unat (rb_tail b) < 128" "unat (rb_tail (get_advance b)) = (if unat (rb_tail b) = 127 then 0 else unat (rb_tail b) + 1)"
    using assms(1) by (simp_all add: ring_ok_def get_advance_def unat_succ_mod)
  show l: "ring_len (get_advance b) = ring_len b - 1"
    using assms by (auto simp: ring_defs get_advance_def unat_succ_mod split: if_splits)
  have u: "[0..<ring_len b] = 0 # map Suc [0..<ring_len b - 1]" using assms(2) by (simp add: map_Suc_upt upt_conv_Cons)
  have n: "(unat (rb_tail b) + Suc i) mod 128 = (unat (rb_tail (get_advance b)) + i) mod 128" for i unfolding t(2) by (rule succ_mod_128)
  have "rb_buf (get_advance b) = rb_buf b" "(unat (rb_tail b) + 0) mod 128 = unat (rb_tail b)" using t(1) by (simp_all add: get_advance_def)
  then show "ring_chars b = get_load b # ring_chars (get_advance b)"
    by (simp only: ring_chars_def l u list.map map_map comp_def n get_load_def)
qed

section \<open>The daemon and a reader\<close>

text \<open>
  Where the daemon is in \<^verbatim>\<open>buffer_put\<close> and the post behind it, where the reader is in \<^verbatim>\<open>uart_read\<close>, the units of
  \<^verbatim>\<open>rx_count\<close>, and the characters that were put and that were delivered.
\<close>

datatype filler = F_idle | F_store u8 | F_publish u8 | F_post
datatype reader = R_idle | R_test | R_load | R_advance u8

record rcfg =
  ring :: uart_ring_buffer
  units :: nat
  filler :: filler
  reader :: reader
  accepted :: "u8 list"
  delivered :: "u8 list"

inductive rstep :: "rcfg \<Rightarrow> rcfg \<Rightarrow> bool" where
  receive: "filler x = F_idle \<Longrightarrow> rstep x (if buffer_full (ring x) then x else x\<lparr>filler := F_store c\<rparr>)"
| store: "filler x = F_store c \<Longrightarrow> rstep x (x\<lparr>ring := put_store c (ring x), filler := F_publish c\<rparr>)"
| publish: "filler x = F_publish c \<Longrightarrow> rstep x (x\<lparr>ring := put_publish (ring x), filler := F_post, accepted := accepted x @ [c]\<rparr>)"
| post: "filler x = F_post \<Longrightarrow> rstep x (x\<lparr>filler := F_idle, units := units x + 1\<rparr>)"
| wait: "reader x = R_idle \<Longrightarrow> units x > 0 \<Longrightarrow> rstep x (x\<lparr>reader := R_test, units := units x - 1\<rparr>)"
| test: "reader x = R_test \<Longrightarrow> rstep x (if buffer_empty (ring x) then x\<lparr>reader := R_idle, delivered := delivered x @ [0]\<rparr> else x\<lparr>reader := R_load\<rparr>)"
| load: "reader x = R_load \<Longrightarrow> rstep x (x\<lparr>reader := R_advance (get_load (ring x))\<rparr>)"
| advance: "reader x = R_advance c \<Longrightarrow> rstep x (x\<lparr>ring := get_advance (ring x), reader := R_idle, delivered := delivered x @ [c]\<rparr>)"

inductive_cases rstepE: "rstep x y"

definition rstart :: rcfg where
  "rstart = \<lparr>ring = \<lparr>rb_buf = replicate 128 0, rb_head = 0, rb_tail = 0\<rparr>, units = 0, filler = F_idle, reader = R_idle, accepted = [], delivered = []\<rparr>"

definition rinv :: "rcfg \<Rightarrow> bool" where
  "rinv x \<longleftrightarrow> ring_ok (ring x) \<and> accepted x = delivered x @ ring_chars (ring x) \<and>
    ring_len (ring x) = units x + (if filler x = F_post then 1 else 0) + (if reader x = R_idle then 0 else 1) \<and>
    (\<forall>c. filler x = F_store c \<longrightarrow> ring_len (ring x) < 127) \<and>
    (\<forall>c. filler x = F_publish c \<longrightarrow> ring_len (ring x) < 127 \<and> rb_buf (ring x) ! unat (rb_head (ring x)) = c) \<and>
    (\<forall>c. reader x = R_advance c \<longrightarrow> c = get_load (ring x))"

text \<open>What the reader does to the ring does not disturb the daemon, and the other way round.\<close>

lemma get_advance_head: "rb_buf (get_advance b) ! unat (rb_head (get_advance b)) = rb_buf b ! unat (rb_head b)"
  by (simp add: get_advance_def)

lemma get_load_put:
  assumes "ring_ok b" and "ring_len b > 0"
  shows "get_load (put_store c b) = get_load b" "ring_len b < 127 \<Longrightarrow> get_load (put_publish b) = get_load b"
proof -
  have "get_load (put_store c b) # ring_chars (get_advance (put_store c b)) = get_load b # ring_chars (get_advance b)"
    using ring_advance(2) [of "put_store c b"] ring_advance(2) [OF assms] ring_store [OF assms(1)] assms by simp
  then show "get_load (put_store c b) = get_load b" by simp
qed (simp add: get_load_def put_publish_def)

lemma rstep_inv:
  assumes "rstep x y" and "rinv x"
  shows "rinv y"
  using assms(1)
proof (cases rule: rstep.cases)
  case (receive c)
  then show ?thesis using assms(2) buffer_full_iff [of "ring x"] ring_len_less [of "ring x"] by (auto simp: rinv_def)
next
  case (store c)
  then show ?thesis using assms(2) ring_store [of "ring x" c] get_load_put(1) [of "ring x" c] by (auto simp: rinv_def)
next
  case (publish c)
  then show ?thesis using assms(2) ring_publish [of "ring x"] get_load_put(2) [of "ring x"] by (auto simp: rinv_def)
next
  case (advance c)
  then have "ring_ok (ring x)" "ring_len (ring x) > 0" using assms(2) by (auto simp: rinv_def)
  from ring_advance [OF this] show ?thesis using advance assms(2) get_advance_head [of "ring x"] by (auto simp: rinv_def)
next
  case test
  then have "\<not> buffer_empty (ring x)" using assms(2) buffer_empty_iff [of "ring x"] by (auto simp: rinv_def)
  then show ?thesis using test assms(2) by (auto simp: rinv_def)
qed (use assms(2) in \<open>auto simp: rinv_def\<close>)

text \<open>C13: However the stores of the receiving daemon and the loads of one reading task interleave, the reader is delivered the characters
  that entered the ring in their order, at most 127 wait, and a reader that got a unit of \<^verbatim>\<open>rx_count\<close> finds a character.\<close>

theorem uart_ring_in_order:
  assumes "rstep\<^sup>*\<^sup>* rstart x"
  shows "accepted x = delivered x @ ring_chars (ring x) \<and> length (ring_chars (ring x)) \<le> 127 \<and> (reader x = R_test \<longrightarrow> \<not> buffer_empty (ring x))"
proof -
  have "rinv rstart" by (simp add: rinv_def rstart_def ring_ok_def ring_len_def ring_chars_def)
  with assms have i: "rinv x" by (induction rule: rtranclp_induct) (auto intro: rstep_inv)
  then show ?thesis using buffer_empty_iff [of "ring x"] ring_len_less [of "ring x"] by (auto simp: rinv_def)
qed

theorem uart_ring_in_order_witness:
  "\<exists>x. rstep\<^sup>*\<^sup>* rstart x \<and> delivered x = [65] \<and> accepted x = [65] @ ring_chars (ring x) \<and> length (ring_chars (ring x)) \<le> 127"
proof -
  let ?b = "put_publish (put_store 65 (ring rstart))"
  let ?x1 = "rstart\<lparr>filler := F_store 65\<rparr>"
  let ?x2 = "?x1\<lparr>ring := put_store 65 (ring ?x1), filler := F_publish 65\<rparr>"
  let ?x3 = "?x2\<lparr>ring := put_publish (ring ?x2), filler := F_post, accepted := accepted ?x2 @ [65]\<rparr>"
  let ?x4 = "?x3\<lparr>filler := F_idle, units := units ?x3 + 1\<rparr>"
  let ?x5 = "?x4\<lparr>reader := R_test, units := units ?x4 - 1\<rparr>"
  let ?x6 = "?x5\<lparr>reader := R_load\<rparr>"
  let ?x7 = "?x6\<lparr>reader := R_advance (get_load (ring ?x6))\<rparr>"
  let ?x8 = "?x7\<lparr>ring := get_advance (ring ?x7), reader := R_idle, delivered := delivered ?x7 @ [65]\<rparr>"
  have d: "get_load ?b = 65" "\<not> buffer_empty ?b" "\<not> buffer_full (ring rstart)"
    by (simp_all add: rstart_def put_publish_def put_store_def get_load_def buffer_empty_def buffer_full_def UART_RX_BUFFER_SIZE_def)
  have "rstep rstart ?x1" using receive [of rstart 65] d(3) by (simp add: rstart_def)
  moreover have "rstep ?x1 ?x2" by (rule store) simp
  moreover have "rstep ?x2 ?x3" by (rule publish) simp
  moreover have "rstep ?x3 ?x4" by (rule post) simp
  moreover have "rstep ?x4 ?x5" by (rule wait) (simp_all add: rstart_def)
  moreover have "rstep ?x5 ?x6" using test [of ?x5] d(2) by simp
  moreover have "rstep ?x6 ?x7" by (rule load) simp
  moreover have "rstep ?x7 ?x8" by (rule advance) (use d(1) in simp)
  ultimately have r: "rstep\<^sup>*\<^sup>* rstart ?x8" by (meson rtranclp.rtrancl_into_rtrancl rtranclp.rtrancl_refl)
  moreover have "delivered ?x8 = [65]" by (simp add: rstart_def)
  moreover note uart_ring_in_order [OF r]
  ultimately show ?thesis by metis
qed

text \<open>
  With two readers the parts of \<^verbatim>\<open>buffer_get\<close> can interleave: both load before either advances, so both are delivered
  the same character and the one behind it is lost.
\<close>

lemma uart_two_readers_race:
  assumes "ring_ok b" and "ring_chars b = [x, y]"
  shows "get_load b = x \<and> ring_chars (get_advance (get_advance b)) = []"
proof -
  have l: "ring_len b = 2" using assms(2) length_ring_chars [of b] by simp
  then show ?thesis using ring_advance [OF assms(1)] ring_advance [of "get_advance b"] assms by simp
qed

end
