(* ===== verification/Virtio.thy ===== *)
theory Virtio
  imports Prelude Sched Sync Mmap Tasks Mmio Pci Uart
begin

text \<open>
  The block device (\<^verbatim>\<open>kernel/drivers/blk/virtio_blk.c\<close>, \<^verbatim>\<open>virtio.h\<close>): finding and configuring it on the PCI bus, the
  queue of descriptors it shares with the kernel, requests and its interrupt.  The memory of the queue is
  the record \<open>vblk\<close>, which the device reads and writes too; the property is about every interleaving of tasks
  with requests, the device and its interrupt.
\<close>

section \<open>Constants and data\<close>

definition VIRTIO_F_VERSION_1 :: u32 where [layout_defs]: "VIRTIO_F_VERSION_1 = 1"
definition VIRTIO_PCI_CAP_COMMON_CFG :: u8 where [layout_defs]: "VIRTIO_PCI_CAP_COMMON_CFG = 1"
definition VIRTIO_PCI_CAP_NOTIFY_CFG :: u8 where [layout_defs]: "VIRTIO_PCI_CAP_NOTIFY_CFG = 2"
definition VIRTIO_PCI_CAP_ISR_CFG :: u8 where [layout_defs]: "VIRTIO_PCI_CAP_ISR_CFG = 3"
definition VIRTIO_STATUS_ACK :: u8 where [layout_defs]: "VIRTIO_STATUS_ACK = 1"
definition VIRTIO_STATUS_DRIVER :: u8 where [layout_defs]: "VIRTIO_STATUS_DRIVER = 2"
definition VIRTIO_STATUS_DRIVER_OK :: u8 where [layout_defs]: "VIRTIO_STATUS_DRIVER_OK = 4"
definition VIRTIO_STATUS_FEATURES_OK :: u8 where [layout_defs]: "VIRTIO_STATUS_FEATURES_OK = 8"
definition VIRTIO_STATUS_FAILED :: u8 where [layout_defs]: "VIRTIO_STATUS_FAILED = 128"
definition VIRTQ_DESC_F_NEXT :: u16 where [layout_defs]: "VIRTQ_DESC_F_NEXT = 1"
definition VIRTQ_DESC_F_WRITE :: u16 where [layout_defs]: "VIRTQ_DESC_F_WRITE = 2"
definition VIRTQ_DESC_ALIGN :: u64 where [layout_defs]: "VIRTQ_DESC_ALIGN = 16"
definition VIRTQ_AVAIL_ALIGN :: u64 where [layout_defs]: "VIRTQ_AVAIL_ALIGN = 2"
definition VIRTQ_USED_ALIGN :: u64 where [layout_defs]: "VIRTQ_USED_ALIGN = 4"
definition VIRTIO_VENDOR_ID :: u16 where [layout_defs]: "VIRTIO_VENDOR_ID = 0x1AF4"
definition VIRTIO_BLK_DEV_ID :: u16 where [layout_defs]: "VIRTIO_BLK_DEV_ID = 0x1042"
definition VIRTIO_CAP_VENDOR :: u8 where [layout_defs]: "VIRTIO_CAP_VENDOR = 0x09"
definition VIRTIO_BLK_BASE_ADDRESS :: u64 where [layout_defs]: "VIRTIO_BLK_BASE_ADDRESS = 0x60000000"
definition VIRTIO_MAX_QUEUE_SIZE :: u16 where [layout_defs]: "VIRTIO_MAX_QUEUE_SIZE = 16"
definition VIRTIO_QUEUE_SELECT :: u16 where [layout_defs]: "VIRTIO_QUEUE_SELECT = 0"
definition VIRTIO_IRQ_QUEUE :: u8 where [layout_defs]: "VIRTIO_IRQ_QUEUE = 1"
definition VIRTIO_BLK_S_IOERR :: u8 where [layout_defs]: "VIRTIO_BLK_S_IOERR = 1"
definition VIRTIO_BLK_S_UNSUPP :: u8 where [layout_defs]: "VIRTIO_BLK_S_UNSUPP = 2"
definition VIRTIO_REQ_NUM_DESC :: nat where [layout_defs]: "VIRTIO_REQ_NUM_DESC = 3"
definition VIRTIO_BLK_T_IN :: u32 where [layout_defs]: "VIRTIO_BLK_T_IN = 0"
definition VIRTIO_BLK_F_SIZE_MAX :: u32 where [layout_defs]: "VIRTIO_BLK_F_SIZE_MAX = 2"
definition VIRTIO_BLK_F_SEG_MAX :: u32 where [layout_defs]: "VIRTIO_BLK_F_SEG_MAX = 4"
definition VIRTIO_BLK_F_FLUSH :: u32 where [layout_defs]: "VIRTIO_BLK_F_FLUSH = 512"

text \<open>The offsets in \<^verbatim>\<open>struct virtio_pci_common_cfg\<close>.\<close>

definition DEVICE_FEATURE_SELECT :: u64 where [layout_defs]: "DEVICE_FEATURE_SELECT = 0"
definition DEVICE_FEATURE :: u64 where [layout_defs]: "DEVICE_FEATURE = 4"
definition DRIVER_FEATURE_SELECT :: u64 where [layout_defs]: "DRIVER_FEATURE_SELECT = 8"
definition DRIVER_FEATURE :: u64 where [layout_defs]: "DRIVER_FEATURE = 12"
definition DEVICE_STATUS :: u64 where [layout_defs]: "DEVICE_STATUS = 20"
definition QUEUE_SELECT :: u64 where [layout_defs]: "QUEUE_SELECT = 22"
definition QUEUE_SIZE :: u64 where [layout_defs]: "QUEUE_SIZE = 24"
definition QUEUE_ENABLE :: u64 where [layout_defs]: "QUEUE_ENABLE = 28"
definition QUEUE_NOTIFY_OFF :: u64 where [layout_defs]: "QUEUE_NOTIFY_OFF = 30"
definition QUEUE_DESC :: u64 where [layout_defs]: "QUEUE_DESC = 32"
definition QUEUE_DRIVER :: u64 where [layout_defs]: "QUEUE_DRIVER = 40"
definition QUEUE_DEVICE :: u64 where [layout_defs]: "QUEUE_DEVICE = 48"

record virtq_desc =
  d_addr :: u64
  d_len :: u32
  d_flags :: u16
  d_next :: u16

text \<open>A request lies on the stack of the task that waits for it; its semaphore is \<open>completion_sem\<close> of its address.\<close>

record virtio_blk_req =
  rq_type :: u32
  rq_sector :: u64
  rq_head :: u16
  rq_len :: u32
  rq_status :: u8

definition completion_sem :: "u64 \<Rightarrow> nat" where
  "completion_sem r = 16 + unat r"

definition hdr_addr :: "u64 \<Rightarrow> u64" where
  "hdr_addr r = r"

definition status_addr :: "u64 \<Rightarrow> u64" where
  "status_addr r = r + 68"

text \<open>The driver: the queue with its three parts, and the requests by their addresses.\<close>

record vblk =
  v_dev :: pci_device
  irq_addr :: u64
  notify_addr :: u64
  vq_num :: u32
  vq_desc_at :: u64
  vq_avail_at :: u64
  vq_used_at :: u64
  desc :: "nat \<Rightarrow> virtq_desc"
  avail_idx :: u16
  avail_ring :: "nat \<Rightarrow> u16"
  used_idx :: u16
  used_ring :: "nat \<Rightarrow> u32 \<times> u32"
  free_head_idx :: u16
  inflight :: "nat \<Rightarrow> u64"
  last_seen_used :: u16
  reqs :: "u64 \<Rightarrow> virtio_blk_req"

record 'd vsys = "'d usys" +
  vblk :: vblk

definition free_slots :: nat where "free_slots = 4"
definition vq_lock :: sync_id where "vq_lock = Lock 0"

definition upd_blk_dev :: "(vblk \<Rightarrow> vblk) \<Rightarrow> ('d, 'z) vsys_scheme \<Rightarrow> ('d, 'z) vsys_scheme" where
  "upd_blk_dev f s = s\<lparr>vblk := f (vblk s)\<rparr>"

section \<open>Configuration\<close>

text \<open>The capabilities of the device; the type of a capability is its fourth byte.\<close>

partial_function (option) get_virtio_cap_loop :: "'d bus \<Rightarrow> pci_device \<Rightarrow> u8 \<Rightarrow> u64 option \<Rightarrow> 'd \<Rightarrow> (u64 option \<times> 'd) option" where
  "get_virtio_cap_loop B dv cfg_type cap d =
    Option.bind (pci_find_cap B dv cap VIRTIO_CAP_VENDOR d) (\<lambda>(c, d1).
      if c = None then Some (None, d1)
      else
        (let (t, d2) = rd8 B (the c + 3) d1
         in if t = cfg_type then Some (c, d2) else get_virtio_cap_loop B dv cfg_type c d2))"

definition get_virtio_cap :: "'d bus \<Rightarrow> pci_device \<Rightarrow> u8 \<Rightarrow> 'd \<Rightarrow> (u64 option \<times> 'd) option" where
  "get_virtio_cap B dv cfg_type d = get_virtio_cap_loop B dv cfg_type None d"

text \<open>The address a capability names: its range, and the offset there.\<close>

definition cap_range :: "'d bus \<Rightarrow> pci_device \<Rightarrow> u8 \<Rightarrow> 'd \<Rightarrow> ((int + u64 \<times> u64) \<times> 'd) option" where
  "cap_range B dv cfg_type d =
    Option.bind (get_virtio_cap B dv cfg_type d) (\<lambda>(c, d1).
      case c of
        None \<Rightarrow> Some (Inl (- ENODEV), d1)
      | Some cap \<Rightarrow>
          (let (n, d2) = rd8 B (cap + 4) d1;
               (r, d3) = pci_bar_addr B dv n d2
           in case r of Inl e \<Rightarrow> Some (Inl e, d3) | Inr a \<Rightarrow> Some (Inr (cap, a), d3)))"

definition set_notify_addr :: "'d bus \<Rightarrow> u16 \<Rightarrow> ('d, 'z) vsys_scheme \<Rightarrow> (int \<times> ('d, 'z) vsys_scheme) option" where
  "set_notify_addr B notify_off s =
    Option.bind (cap_range B (v_dev (vblk s)) VIRTIO_PCI_CAP_NOTIFY_CFG (devs s)) (\<lambda>(r, d1).
      case r of
        Inl e \<Rightarrow> Some (e, s\<lparr>devs := d1\<rparr>)
      | Inr (cap, bar_addr) \<Rightarrow>
          (let (off, d2) = rd32 B (cap + 8) d1;
               (mult, d3) = rd32 B (cap + 16) d2;
               a = bar_addr + ucast off + ucast (mult * ucast notify_off)
           in Some (0, upd_blk_dev (\<lambda>v. v\<lparr>notify_addr := a\<rparr>) (s\<lparr>devs := d3\<rparr>))))"

definition set_irq_addr :: "'d bus \<Rightarrow> ('d, 'z) vsys_scheme \<Rightarrow> (int \<times> ('d, 'z) vsys_scheme) option" where
  "set_irq_addr B s =
    Option.bind (cap_range B (v_dev (vblk s)) VIRTIO_PCI_CAP_ISR_CFG (devs s)) (\<lambda>(r, d1).
      case r of
        Inl e \<Rightarrow> Some (e, s\<lparr>devs := d1\<rparr>)
      | Inr (cap, bar_addr) \<Rightarrow>
          (let (off, d2) = rd32 B (cap + 8) d1
           in Some (0, upd_blk_dev (\<lambda>v. v\<lparr>irq_addr := bar_addr + ucast off\<rparr>) (s\<lparr>devs := d2\<rparr>))))"

definition link_free :: "u16 \<Rightarrow> (nat \<Rightarrow> virtq_desc) \<Rightarrow> nat \<Rightarrow> virtq_desc" where
  "link_free queue_size = fold (\<lambda>i d. d(i := (d i)\<lparr>d_next := word_of_nat (i + 1)\<rparr>)) [0..<unat queue_size - 1]"

definition init_free_list :: "('d, 'z) vsys_scheme \<Rightarrow> ('d, 'z) vsys_scheme" where
  "init_free_list s =
    (let queue_size = ucast (vq_num (vblk s)) :: u16;
         s1 = upd_blk_dev (\<lambda>v. v\<lparr>desc := link_free queue_size (desc v), free_head_idx := 0\<rparr>) s
     in s1\<lparr>kern := spinlock_init vq_lock (sem_init free_slots (word_of_nat (unat queue_size div VIRTIO_REQ_NUM_DESC)) (kern s1))\<rparr>)"

text \<open>A new page is zero, so the rings start at 0.\<close>

definition setup_queues :: "'d bus \<Rightarrow> u64 \<Rightarrow> ('d, 'z) vsys_scheme \<Rightarrow> int \<times> ('d, 'z) vsys_scheme" where
  "setup_queues B cfg s =
    (let s1 = dev_write (wr16 B (cfg + QUEUE_SELECT) VIRTIO_QUEUE_SELECT) s;
         (sz, s2) = dev_read (rd16 B (cfg + QUEUE_SIZE)) s1;
         s3 = (if sz > VIRTIO_MAX_QUEUE_SIZE then dev_write (wr16 B (cfg + QUEUE_SIZE) VIRTIO_MAX_QUEUE_SIZE) s2 else s2);
         (n, s4) = dev_read (rd16 B (cfg + QUEUE_SIZE)) s3
     in if n = 0 then (- ENODEV, s4)
        else
          (let s5 = upd_blk_dev (\<lambda>v. v\<lparr>vq_num := ucast n\<rparr>) s4;
               (pg, k) = new_page (kern s5); s6 = s5\<lparr>kern := k\<rparr>
           in case pg of
                None \<Rightarrow> (- ENOMEM, s6)
              | Some p \<Rightarrow>
                  (let a1 = ALIGN_UP p VIRTQ_DESC_ALIGN;
                       a2 = ALIGN_UP (a1 + 16 * ucast n) VIRTQ_AVAIL_ALIGN;
                       a3 = ALIGN_UP (a2 + 4 * ucast n) VIRTQ_USED_ALIGN;
                       s7 = upd_blk_dev (\<lambda>v. v\<lparr>vq_desc_at := a1, vq_avail_at := a2, vq_used_at := a3,
                              desc := (\<lambda>_. \<lparr>d_addr = 0, d_len = 0, d_flags = 0, d_next = 0\<rparr>), avail_idx := 0, avail_ring := (\<lambda>_. 0),
                              used_idx := 0, used_ring := (\<lambda>_. (0, 0))\<rparr>)
                            (dev_write (wr64 B (cfg + QUEUE_DEVICE) a3) (dev_write (wr64 B (cfg + QUEUE_DRIVER) a2)
                              (dev_write (wr64 B (cfg + QUEUE_DESC) a1) s6)))
                   in (0, dev_write (wr16 B (cfg + QUEUE_ENABLE) 1) (init_free_list s7)))))"

text \<open>The device is reset, and the driver waits until it says so.\<close>

partial_function (option) wait_reset :: "'d bus \<Rightarrow> u64 \<Rightarrow> 'd \<Rightarrow> 'd option" where
  "wait_reset B cfg d = (let (st, d1) = rd8 B (cfg + DEVICE_STATUS) d in if st \<noteq> 0 then wait_reset B cfg d1 else Some d1)"

definition or_status :: "'d bus \<Rightarrow> u64 \<Rightarrow> u8 \<Rightarrow> 'd \<Rightarrow> 'd" where
  "or_status B cfg b d = (let (st, d1) = rd8 B (cfg + DEVICE_STATUS) d in wr8 B (cfg + DEVICE_STATUS) (st OR b) d1)"

definition setup_features :: "'d bus \<Rightarrow> u64 \<Rightarrow> 'd \<Rightarrow> (int \<times> 'd) option" where
  "setup_features B cfg d =
    Option.bind (wait_reset B cfg (wr8 B (cfg + DEVICE_STATUS) 0 d)) (\<lambda>d1.
      let d2 = or_status B cfg VIRTIO_STATUS_DRIVER (or_status B cfg VIRTIO_STATUS_ACK d1);
          d3 = wr32 B (cfg + DEVICE_FEATURE_SELECT) 0 d2;
          (dev_feature, d4) = rd32 B (cfg + DEVICE_FEATURE) d3;
          d5 = wr32 B (cfg + DRIVER_FEATURE_SELECT) 0 d4;
          d6 = wr32 B (cfg + DRIVER_FEATURE) (dev_feature AND (VIRTIO_BLK_F_FLUSH OR VIRTIO_BLK_F_SEG_MAX OR VIRTIO_BLK_F_SIZE_MAX)) d5;
          d7 = wr32 B (cfg + DRIVER_FEATURE_SELECT) 1 (wr32 B (cfg + DEVICE_FEATURE_SELECT) 1 d6);
          (f, d8) = rd32 B (cfg + DEVICE_FEATURE) d7;
          d9 = or_status B cfg VIRTIO_STATUS_FEATURES_OK (wr32 B (cfg + DRIVER_FEATURE) (f AND VIRTIO_F_VERSION_1) d8);
          (st, d10) = rd8 B (cfg + DEVICE_STATUS) d9
      in Some (if st AND VIRTIO_STATUS_FEATURES_OK = 0 then - ENODEV else 0, d10))"

definition config_common :: "'d bus \<Rightarrow> ('d, 'z) vsys_scheme \<Rightarrow> (('d, 'z) vsys_scheme, int) proc" where
  "config_common B s =
    ended (cap_range B (v_dev (vblk s)) VIRTIO_PCI_CAP_COMMON_CFG (devs s)) (\<lambda>(r, d1).
      case r of
        Inl e \<Rightarrow> Done e (s\<lparr>devs := d1\<rparr>)
      | Inr (cap, bar_addr) \<Rightarrow>
          (let (off, d2) = rd32 B (cap + 8) d1; cfg = bar_addr + ucast off
           in ended (setup_features B cfg d2) (\<lambda>(res, d3).
                if res < 0 then Done res (s\<lparr>devs := d3\<rparr>)
                else
                  (let (res, s4) = setup_queues B cfg (s\<lparr>devs := d3\<rparr>) in
                   if res < 0 then Done res s4
                   else
                     (let (no, s5) = dev_read (rd16 B (cfg + QUEUE_NOTIFY_OFF)) s4
                      in ended (set_notify_addr B no s5) (\<lambda>(res, s6).
                           if res < 0 then Done res s6
                           else ended (set_irq_addr B s6) (\<lambda>(res, s7).
                             if res < 0 then Done res s7
                             else
                               (let (st, s8) = dev_read (rd8 B (cfg + DEVICE_STATUS)) (dev_write (or_status B cfg VIRTIO_STATUS_DRIVER_OK) s7)
                                in if st AND VIRTIO_STATUS_FAILED \<noteq> 0 then Stop else Done 0 s8))))))))"

definition config_pci :: "'d bus \<Rightarrow> ('d, 'z) vsys_scheme \<Rightarrow> (('d, 'z) vsys_scheme, int) proc" where
  "config_pci B s =
    (let (r, d1) = pci_find_device B VIRTIO_VENDOR_ID VIRTIO_BLK_DEV_ID (devs s) in
     case r of
       Inl e \<Rightarrow> Done e (s\<lparr>devs := d1\<rparr>)
     | Inr dv \<Rightarrow>
         ended (get_virtio_cap B dv VIRTIO_PCI_CAP_COMMON_CFG d1) (\<lambda>(c, d2).
           case c of
             None \<Rightarrow> Done (- ENODEV) (s\<lparr>devs := d2\<rparr>)
           | Some cap \<Rightarrow>
               (let (n, d3) = rd8 B (cap + 4) d2;
                    (size, d4) = pci_get_bar_size B dv n d3
                in if size < 0 then Done size (s\<lparr>devs := d4\<rparr>)
                   else
                     (let map_addr = ALIGN_UP VIRTIO_BLK_BASE_ADDRESS (word_of_int size);
                          (n', d5) = rd8 B (cap + 4) d4;
                          (res, d6) = pci_set_bar B dv n' map_addr d5
                      in if res < 0 then Done res (s\<lparr>devs := d6\<rparr>)
                         else bindp (io_map map_addr (word_of_int size) (s\<lparr>devs := d6\<rparr>)) (\<lambda>res s1.
                           if res < 0 then Done res s1
                           else Done 0 (upd_blk_dev (\<lambda>v. v\<lparr>v_dev := dv\<rparr>) (dev_write (pci_set_master B dv) (dev_write (pci_enable_device B dv) s1))))))))"

definition virtio_blk_init :: "'d bus \<Rightarrow> ('d, 'z) vsys_scheme \<Rightarrow> (('d, 'z) vsys_scheme, int) proc" where
  "virtio_blk_init B s =
    bindp (config_pci B s) (\<lambda>res s1.
      if res < 0 then Done res s1
      else bindp (config_common B s1) (\<lambda>res s2.
        if res < 0 then Done res s2 else Done 0 (dev_write (plic_enable_irq B VIRTIO_BLK_PLIC_ID 3) s2)))"

section \<open>Requests\<close>

definition notify_device :: "'d bus \<Rightarrow> ('d, 'z) vsys_scheme \<Rightarrow> ('d, 'z) vsys_scheme" where
  "notify_device B s = dev_write (wr16 B (notify_addr (vblk s)) VIRTIO_QUEUE_SELECT) s"

text \<open>What \<^verbatim>\<open>submit_req\<close> does under the lock: three descriptors are taken from the free list and described to the device.\<close>

definition take_descs :: "u64 \<Rightarrow> u64 \<Rightarrow> u32 \<Rightarrow> vblk \<Rightarrow> vblk" where
  "take_descs r data sz v =
    (let queue_size = ucast (vq_num v) :: u16;
         idx0 = free_head_idx v; idx1 = d_next (desc v (unat idx0)); idx2 = d_next (desc v (unat idx1));
         new_free_slot = d_next (desc v (unat idx2));
         data_flags = (if rq_type (reqs v r) = VIRTIO_BLK_T_IN then VIRTQ_DESC_F_NEXT OR VIRTQ_DESC_F_WRITE else VIRTQ_DESC_F_NEXT)
     in v\<lparr>desc := (desc v)
            (unat idx0 := \<lparr>d_addr = hdr_addr r, d_len = 16, d_flags = VIRTQ_DESC_F_NEXT, d_next = idx1\<rparr>,
             unat idx1 := \<lparr>d_addr = data, d_len = sz, d_flags = data_flags, d_next = idx2\<rparr>,
             unat idx2 := \<lparr>d_addr = status_addr r, d_len = 1, d_flags = VIRTQ_DESC_F_WRITE, d_next = 0\<rparr>),
          avail_ring := (avail_ring v)(unat (avail_idx v mod queue_size) := idx0),
          free_head_idx := new_free_slot,
          inflight := (inflight v)(unat idx0 := r),
          reqs := (reqs v)(r := (reqs v r)\<lparr>rq_head := idx0\<rparr>),
          avail_idx := avail_idx v + 1\<rparr>)"

definition submit_req :: "u64 \<Rightarrow> u64 \<Rightarrow> u32 \<Rightarrow> ('d, 'z) vsys_scheme \<Rightarrow> (('d, 'z) vsys_scheme, unit) proc" where
  "submit_req r data sz s =
    bindp (in_kern (spinlock_lock vq_lock) s) (\<lambda>_ s1. in_kern (spinlock_unlock vq_lock) (upd_blk_dev (take_descs r data sz) s1))"

text \<open>The walk to the last descriptor of a chain, which clears the flags on its way; it follows what is in the table.\<close>

partial_function (option) clear_chain :: "nat \<Rightarrow> (nat \<Rightarrow> virtq_desc) \<Rightarrow> (nat \<times> (nat \<Rightarrow> virtq_desc)) option" where
  "clear_chain cur d =
    (if d_flags (d cur) AND VIRTQ_DESC_F_NEXT \<noteq> 0
     then clear_chain (unat (d_next (d cur))) (d(cur := (d cur)\<lparr>d_flags := 0\<rparr>))
     else Some (cur, d))"

definition give_descs :: "u16 \<Rightarrow> nat \<Rightarrow> vblk \<Rightarrow> vblk" where
  "give_descs head_idx status v =
    v\<lparr>desc := (desc v)(status := (desc v status)\<lparr>d_next := free_head_idx v\<rparr>), free_head_idx := head_idx\<rparr>"

definition release_desc_chain :: "u16 \<Rightarrow> ('d, 'z) vsys_scheme \<Rightarrow> (('d, 'z) vsys_scheme, unit) proc" where
  "release_desc_chain head_idx s =
    ended (clear_chain (unat head_idx) (desc (vblk s))) (\<lambda>(status, d).
      bindp (in_kern (spinlock_lock vq_lock) (upd_blk_dev (\<lambda>v. v\<lparr>desc := d\<rparr>) s)) (\<lambda>_ s1.
        bindp (in_kern (spinlock_unlock vq_lock) (upd_blk_dev (give_descs head_idx status) s1)) (\<lambda>_.
          in_kern (sem_post free_slots))))"

text \<open>One turn of the loop in the interrupt handler: the request to wake, and the driver after it.\<close>

definition used_take :: "vblk \<Rightarrow> u64 \<times> vblk" where
  "used_take v =
    (let (i, len) = used_ring v (unat (last_seen_used v) mod unat (vq_num v)); r = inflight v (unat i)
     in (r, v\<lparr>reqs := (reqs v)(r := (reqs v r)\<lparr>rq_len := len\<rparr>)\<rparr>))"

definition used_next :: "vblk \<Rightarrow> vblk" where
  "used_next v = v\<lparr>last_seen_used := last_seen_used v + 1\<rparr>"

text \<open>The loop; the device may go on answering while it runs, so the turns are bounded by \<open>n\<close>.\<close>

fun used_loop :: "nat \<Rightarrow> ('d, 'z) vsys_scheme \<Rightarrow> (('d, 'z) vsys_scheme, unit) proc" where
  "used_loop 0 s = Spin"
| "used_loop (Suc n) s =
    (if last_seen_used (vblk s) = used_idx (vblk s) then Done () s
     else
       (let (r, v) = used_take (vblk s) in
        bindp (in_kern (sem_post (completion_sem r)) (s\<lparr>vblk := v\<rparr>)) (\<lambda>_ s1. used_loop n (upd_blk_dev used_next s1))))"

definition virtio_irq_handler :: "'d bus \<Rightarrow> nat \<Rightarrow> ('d, 'z) vsys_scheme \<Rightarrow> (('d, 'z) vsys_scheme, unit) proc" where
  "virtio_irq_handler B n s =
    (let (irq_status, s1) = dev_read (rd8 B (irq_addr (vblk s))) s
     in if irq_status AND VIRTIO_IRQ_QUEUE = 0 then Done () s1 else used_loop n s1)"

text \<open>The request \<open>r\<close> on the stack of the caller.\<close>

definition new_req :: "u64 \<Rightarrow> u8 \<Rightarrow> u64 \<Rightarrow> vblk \<Rightarrow> vblk" where
  "new_req r ty sector v = v\<lparr>reqs := (reqs v)(r := (reqs v r)\<lparr>rq_type := ucast ty, rq_sector := sector\<rparr>)\<rparr>"

definition virtio_blk_request :: "'d bus \<Rightarrow> u64 \<Rightarrow> u8 \<Rightarrow> u64 \<Rightarrow> u64 \<Rightarrow> u32 \<Rightarrow> ('d, 'z) vsys_scheme \<Rightarrow> (('d, 'z) vsys_scheme, u32) proc" where
  "virtio_blk_request B r ty sector data sz s =
    bindp (in_kern (sem_wait free_slots) s) (\<lambda>_ s1.
      let s2 = upd_blk_dev (new_req r ty sector) s1; s3 = s2\<lparr>kern := sem_init (completion_sem r) 0 (kern s2)\<rparr>
      in bindp (submit_req r data sz s3) (\<lambda>_ s4.
           bindp (in_kern (sem_wait (completion_sem r)) (notify_device B s4)) (\<lambda>_ s5.
             bindp (release_desc_chain (rq_head (reqs (vblk s5) r)) s5) (\<lambda>_ s6.
               let status = rq_status (reqs (vblk s6) r)
               in if status = VIRTIO_BLK_S_IOERR \<or> status = VIRTIO_BLK_S_UNSUPP then Stop else Done (rq_len (reqs (vblk s6) r)) s6))))"

section \<open>The descriptors\<close>

text \<open>The list of free descriptors from an index on.\<close>

fun desc_links :: "(nat \<Rightarrow> virtq_desc) \<Rightarrow> nat \<Rightarrow> nat list \<Rightarrow> bool" where
  "desc_links d a [] \<longleftrightarrow> True"
| "desc_links d a (x # xs) \<longleftrightarrow> a = x \<and> desc_links d (unat (d_next (d x))) xs"

lemma desc_links_cong: "\<forall>i \<in> set fl. d_next (d' i) = d_next (d i) \<Longrightarrow> desc_links d' a fl = desc_links d a fl"
  by (induction fl arbitrary: a) auto

text \<open>The chain of a request: the descriptors of its header, its data and its status.\<close>

definition c0 :: "vblk \<Rightarrow> u64 \<Rightarrow> nat" where "c0 v r = unat (rq_head (reqs v r))"
definition c1 :: "vblk \<Rightarrow> u64 \<Rightarrow> nat" where "c1 v r = unat (d_next (desc v (c0 v r)))"
definition c2 :: "vblk \<Rightarrow> u64 \<Rightarrow> nat" where "c2 v r = unat (d_next (desc v (c1 v r)))"
definition chain :: "vblk \<Rightarrow> u64 \<Rightarrow> nat set" where "chain v r = {c0 v r, c1 v r, c2 v r}"

text \<open>The chain tells the device what was asked for: the type of the request, the buffer and its size.\<close>

definition described :: "vblk \<Rightarrow> u64 \<Rightarrow> u32 \<times> u64 \<times> u32 \<Rightarrow> bool" where
  "described v r j = (case j of (ty, data, sz) \<Rightarrow>
    desc v (c0 v r) = \<lparr>d_addr = hdr_addr r, d_len = 16, d_flags = VIRTQ_DESC_F_NEXT, d_next = word_of_nat (c1 v r)\<rparr> \<and>
    desc v (c1 v r) = \<lparr>d_addr = data, d_len = sz,
      d_flags = (if ty = VIRTIO_BLK_T_IN then VIRTQ_DESC_F_NEXT OR VIRTQ_DESC_F_WRITE else VIRTQ_DESC_F_NEXT), d_next = word_of_nat (c2 v r)\<rparr> \<and>
    desc v (c2 v r) = \<lparr>d_addr = status_addr r, d_len = 1, d_flags = VIRTQ_DESC_F_WRITE, d_next = 0\<rparr>)"

text \<open>The free list and the chains of the live requests \<open>L\<close> divide the table among them.\<close>

definition queue_ok :: "nat \<Rightarrow> vblk \<Rightarrow> u64 set \<Rightarrow> (u64 \<Rightarrow> u32 \<times> u64 \<times> u32) \<Rightarrow> nat list \<Rightarrow> bool" where
  "queue_ok n v L J fl \<longleftrightarrow> n \<le> 16 \<and> finite L \<and> length fl + 3 * card L = n \<and> distinct fl \<and> set fl \<subseteq> {..<n} \<and> desc_links (desc v) (unat (free_head_idx v)) fl \<and>
    (\<forall>r \<in> L. described v r (J r) \<and> distinct [c0 v r, c1 v r, c2 v r] \<and> chain v r \<subseteq> {..<n} \<and> chain v r \<inter> set fl = {} \<and> inflight v (c0 v r) = r) \<and>
    (\<forall>r \<in> L. \<forall>r' \<in> L. r \<noteq> r' \<longrightarrow> chain v r \<inter> chain v r' = {})"

text \<open>Two states of the driver that agree on the descriptors of a request agree on its chain.\<close>

lemma chain_cong:
  assumes "rq_head (reqs v' r) = rq_head (reqs v r)" and "desc v' (c0 v r) = desc v (c0 v r)" and "desc v' (c1 v r) = desc v (c1 v r)"
  shows "c0 v' r = c0 v r" "c1 v' r = c1 v r" "c2 v' r = c2 v r" "chain v' r = chain v r"
proof -
  show 0: "c0 v' r = c0 v r" using assms(1) by (simp add: c0_def)
  show 1: "c1 v' r = c1 v r" using assms(2) by (simp add: c1_def 0)
  show 2: "c2 v' r = c2 v r" using assms(3) by (simp add: c2_def 1)
  show "chain v' r = chain v r" by (simp add: chain_def 0 1 2)
qed

lemma described_cong:
  assumes "rq_head (reqs v' r) = rq_head (reqs v r)" and "\<forall>i \<in> chain v r. desc v' i = desc v i"
  shows "described v' r j = described v r j" "c0 v' r = c0 v r" "c1 v' r = c1 v r" "c2 v' r = c2 v r" "chain v' r = chain v r"
proof -
  have d: "desc v' (c0 v r) = desc v (c0 v r)" "desc v' (c1 v r) = desc v (c1 v r)" "desc v' (c2 v r) = desc v (c2 v r)"
    using assms(2) by (simp_all add: chain_def)
  note c = chain_cong [OF assms(1) d(1,2)]
  show "described v' r j = described v r j" by (simp add: described_def c d split: prod.split)
qed (use assms chain_cong [OF assms(1)] in \<open>simp_all add: chain_def\<close>)

lemma queue_ok_cong:
  assumes "queue_ok n v L J fl" and "desc v' = desc v" and "free_head_idx v' = free_head_idx v" and "inflight v' = inflight v"
    and "\<forall>r \<in> L. rq_head (reqs v' r) = rq_head (reqs v r)"
  shows "queue_ok n v' L J fl" "\<forall>r \<in> L. c0 v' r = c0 v r"
proof -
  have c: "described v' r j = described v r j" "c0 v' r = c0 v r" "c1 v' r = c1 v r" "c2 v' r = c2 v r" "chain v' r = chain v r" if "r \<in> L" for r j
    using described_cong [of v' r v] assms(2,5) that by simp_all
  show "queue_ok n v' L J fl" using assms(1-4) c by (simp add: queue_ok_def)
  show "\<forall>r \<in> L. c0 v' r = c0 v r" using c(2) by simp
qed

lemma take_descs_ok:
  assumes Q: "queue_ok n v L J fl" and r: "r \<notin> L" and l: "3 \<le> length fl"
  shows "\<exists>fl'. queue_ok n (take_descs r data sz v) (insert r L) (J(r := (rq_type (reqs v r), data, sz))) fl'"
    "\<forall>r' \<in> L. c0 (take_descs r data sz v) r' = c0 v r'" "c0 (take_descs r data sz v) r = unat (free_head_idx v)"
proof -
  let ?v = "take_descs r data sz v"
  obtain i0 i1 i2 rest where fl: "fl = i0 # i1 # i2 # rest" using l by (metis Suc_le_length_iff numeral_3_eq_3)
  have i: "unat (free_head_idx v) = i0" "unat (d_next (desc v i0)) = i1" "unat (d_next (desc v i1)) = i2" "desc_links (desc v) (unat (d_next (desc v i2))) rest"
    and dist: "distinct (i0 # i1 # i2 # rest)" and lt: "set fl \<subseteq> {..<n}" using Q by (simp_all add: queue_ok_def fl)
  have w: "free_head_idx v = word_of_nat i0" "d_next (desc v i0) = word_of_nat i1" "d_next (desc v i1) = word_of_nat i2" using i by (metis word_of_unat)+
  have u: "unat (word_of_nat i1 :: u16) = i1" "unat (word_of_nat i2 :: u16) = i2" using i(2,3) w(2,3) by metis+
  have d: "desc ?v = (desc v)(i0 := \<lparr>d_addr = hdr_addr r, d_len = 16, d_flags = VIRTQ_DESC_F_NEXT, d_next = word_of_nat i1\<rparr>,
       i1 := \<lparr>d_addr = data, d_len = sz, d_flags = (if rq_type (reqs v r) = VIRTIO_BLK_T_IN then VIRTQ_DESC_F_NEXT OR VIRTQ_DESC_F_WRITE else VIRTQ_DESC_F_NEXT), d_next = word_of_nat i2\<rparr>,
       i2 := \<lparr>d_addr = status_addr r, d_len = 1, d_flags = VIRTQ_DESC_F_WRITE, d_next = 0\<rparr>)"
    using i w by (simp add: take_descs_def Let_def)
  have f: "free_head_idx ?v = d_next (desc v i2)" "inflight ?v = (inflight v)(i0 := r)" "rq_head (reqs ?v r) = free_head_idx v"
    "\<And>r'. r' \<noteq> r \<Longrightarrow> rq_head (reqs ?v r') = rq_head (reqs v r')" using i by (simp_all add: take_descs_def Let_def)
  show c0: "c0 ?v r = unat (free_head_idx v)" by (simp add: c0_def f(3))
  have c: "c0 ?v r = i0" "c1 ?v r = i1" "c2 ?v r = i2" using c0 i dist u by (simp_all add: c1_def c2_def d)
  have disj: "chain v r' \<inter> set fl = {}" "r' \<noteq> r" if "r' \<in> L" for r' using Q r that by (auto simp: queue_ok_def)
  have o: "described ?v r' j = described v r' j" "c0 ?v r' = c0 v r'" "c1 ?v r' = c1 v r'" "c2 ?v r' = c2 v r'" "chain ?v r' = chain v r'" if "r' \<in> L" for r' j
  proof -
    have "desc ?v i = desc v i" if "i \<in> chain v r'" for i
    proof -
      have "i \<notin> {i0, i1, i2}" using disj(1) [OF \<open>r' \<in> L\<close>] that by (auto simp: fl)
      then show ?thesis by (simp add: d)
    qed
    then show "described ?v r' j = described v r' j" "c0 ?v r' = c0 v r'" "c1 ?v r' = c1 v r'" "c2 ?v r' = c2 v r'" "chain ?v r' = chain v r'"
      using described_cong [OF f(4) [OF disj(2) [OF that]]] by blast+
  qed
  show "\<forall>r' \<in> L. c0 ?v r' = c0 v r'" using o(2) by simp
  have new: "described ?v r (rq_type (reqs v r), data, sz)" "chain ?v r = {i0, i1, i2}" using dist by (simp_all add: described_def chain_def c d)
  have "inflight ?v (c0 v r') = r'" if "r' \<in> L" for r' using Q that disj [OF that] by (auto simp: queue_ok_def f(2) chain_def fl)
  then have old: "described ?v r' (J r')" "distinct [c0 ?v r', c1 ?v r', c2 ?v r']" "chain ?v r' \<subseteq> {..<n}" "chain ?v r' \<inter> set fl = {}" "inflight ?v (c0 ?v r') = r'"
    if "r' \<in> L" for r' using Q that o [OF that] by (simp_all add: queue_ok_def)
  have each: "\<forall>x \<in> insert r L. described ?v x ((J(r := (rq_type (reqs v r), data, sz))) x) \<and> distinct [c0 ?v x, c1 ?v x, c2 ?v x] \<and>
      chain ?v x \<subseteq> {..<n} \<and> chain ?v x \<inter> set rest = {} \<and> inflight ?v (c0 ?v x) = x"
  proof
    fix x assume "x \<in> insert r L"
    then consider "x = r" | "x \<in> L" "x \<noteq> r" using r by blast
    then show "described ?v x ((J(r := (rq_type (reqs v r), data, sz))) x) \<and> distinct [c0 ?v x, c1 ?v x, c2 ?v x] \<and>
      chain ?v x \<subseteq> {..<n} \<and> chain ?v x \<inter> set rest = {} \<and> inflight ?v (c0 ?v x) = x"
    proof cases
      case 1
      then show ?thesis using new c dist lt by (auto simp: f(2) fl)
    next
      case 2
      then show ?thesis using old [OF 2(1)] by (auto simp: fl)
    qed
  qed
  have apart: "\<forall>x \<in> insert r L. \<forall>y \<in> insert r L. x \<noteq> y \<longrightarrow> chain ?v x \<inter> chain ?v y = {}"
    using Q o(5) old(4) new(2) by (auto simp: queue_ok_def fl)
  have nx: "\<forall>i \<in> set rest. d_next (desc ?v i) = d_next (desc v i)" using dist by (auto simp: d)
  have "desc_links (desc ?v) (unat (free_head_idx ?v)) rest" using i(4) desc_links_cong [OF nx] by (simp add: f(1))
  moreover have "n \<le> 16" "finite L" "length rest + 3 * card (insert r L) = n" "distinct rest" "set rest \<subseteq> {..<n}"
    using Q r by (auto simp: queue_ok_def fl)
  ultimately have "queue_ok n ?v (insert r L) (J(r := (rq_type (reqs v r), data, sz))) rest" using each apart by (simp only: queue_ok_def finite_insert)
  then show "\<exists>fl'. queue_ok n ?v (insert r L) (J(r := (rq_type (reqs v r), data, sz))) fl'" by blast
qed

text \<open>The walk over the chain of a live request ends at its status descriptor.\<close>

lemma clear_chain_walk:
  assumes "described v r j" and "distinct [c0 v r, c1 v r, c2 v r]" and "chain v r \<subseteq> {..<n}" and "n \<le> 16"
  shows "clear_chain (c0 v r) (desc v) = Some (c2 v r, (desc v)(c0 v r := (desc v (c0 v r))\<lparr>d_flags := 0\<rparr>, c1 v r := (desc v (c1 v r))\<lparr>d_flags := 0\<rparr>))"
proof -
  have x: "c0 v r \<noteq> c1 v r" "c0 v r \<noteq> c2 v r" "c1 v r \<noteq> c2 v r" using assms(2) by simp_all
  have n: "unat (d_next (desc v (c0 v r))) = c1 v r" "unat (d_next (desc v (c1 v r))) = c2 v r" by (simp_all add: c1_def c2_def)
  have f: "d_flags (desc v (c0 v r)) AND VIRTQ_DESC_F_NEXT \<noteq> 0" "d_flags (desc v (c1 v r)) AND VIRTQ_DESC_F_NEXT \<noteq> 0"
    "d_flags (desc v (c2 v r)) AND VIRTQ_DESC_F_NEXT = 0"
    using assms(1) by (auto simp: described_def VIRTQ_DESC_F_NEXT_def VIRTQ_DESC_F_WRITE_def split: prod.splits)
  show ?thesis
    by (subst clear_chain.simps, simp only: f(1) n if_True not_False_eq_True,
        subst clear_chain.simps, simp add: x f n, subst clear_chain.simps, simp add: x x [symmetric] f)
qed

lemma give_descs_ok:
  assumes Q: "queue_ok n v L J fl" and r: "r \<in> L" and c: "clear_chain (c0 v r) (desc v) = Some (st, d)"
  shows "\<exists>fl'. queue_ok n (give_descs (rq_head (reqs v r)) st (v\<lparr>desc := d\<rparr>)) (L - {r}) J fl'"
    "\<forall>r' \<in> L - {r}. c0 (give_descs (rq_head (reqs v r)) st (v\<lparr>desc := d\<rparr>)) r' = c0 v r'"
proof -
  let ?v = "give_descs (rq_head (reqs v r)) st (v\<lparr>desc := d\<rparr>)"
  have R: "described v r (J r)" "distinct [c0 v r, c1 v r, c2 v r]" "chain v r \<subseteq> {..<n}" "chain v r \<inter> set fl = {}" and n: "n \<le> 16" and fin: "finite L"
    using Q r by (auto simp: queue_ok_def)
  have x: "c0 v r \<noteq> c1 v r" "c0 v r \<noteq> c2 v r" "c1 v r \<noteq> c2 v r" using R(2) by simp_all
  have e: "st = c2 v r" "d = (desc v)(c0 v r := (desc v (c0 v r))\<lparr>d_flags := 0\<rparr>, c1 v r := (desc v (c1 v r))\<lparr>d_flags := 0\<rparr>)"
    using c clear_chain_walk [OF R(1-3) n] by simp_all
  have dv: "desc ?v = d(c2 v r := (d (c2 v r))\<lparr>d_next := free_head_idx v\<rparr>)" by (simp add: give_descs_def e(1))
  have f: "free_head_idx ?v = rq_head (reqs v r)" "inflight ?v = inflight v" "reqs ?v = reqs v" by (simp_all add: give_descs_def)
  have same: "desc ?v i = desc v i" if "i \<notin> chain v r" for i using that unfolding dv by (simp add: e(2) chain_def)
  have disj: "chain v r' \<inter> chain v r = {}" if "r' \<in> L - {r}" for r' using Q r that by (simp add: queue_ok_def)
  have o: "described ?v r' j = described v r' j" "c0 ?v r' = c0 v r'" "c1 ?v r' = c1 v r'" "c2 ?v r' = c2 v r'" "chain ?v r' = chain v r'" if "r' \<in> L - {r}" for r' j
  proof -
    have "\<forall>i \<in> chain v r'. desc ?v i = desc v i" using same disj [OF that] by blast
    then show "described ?v r' j = described v r' j" "c0 ?v r' = c0 v r'" "c1 ?v r' = c1 v r'" "c2 ?v r' = c2 v r'" "chain ?v r' = chain v r'"
      using described_cong [of ?v r' v] f(3) by simp_all
  qed
  show "\<forall>r' \<in> L - {r}. c0 ?v r' = c0 v r'" using o(2) by blast
  let ?fl = "c0 v r # c1 v r # c2 v r # fl"
  have nx: "\<forall>i \<in> set fl. d_next (desc ?v i) = d_next (desc v i)" using same R(4) by (metis IntI empty_iff)
  have "d_next (desc ?v (c0 v r)) = d_next (desc v (c0 v r))" "d_next (desc ?v (c1 v r)) = d_next (desc v (c1 v r))" "d_next (desc ?v (c2 v r)) = free_head_idx v"
    using x x [symmetric] unfolding dv by (simp_all add: e(2))
  then have "desc_links (desc ?v) (unat (free_head_idx ?v)) ?fl"
    using Q desc_links_cong [OF nx] by (simp add: f(1) c0_def [symmetric] c1_def [symmetric] c2_def [symmetric] queue_ok_def)
  moreover have "length ?fl + 3 * card (L - {r}) = n"
  proof -
    have "card L = Suc (card (L - {r}))" by (rule card.remove [OF fin r])
    moreover have "length fl + 3 * card L = n" using Q by (simp add: queue_ok_def)
    ultimately show ?thesis by simp
  qed
  moreover have "distinct ?fl" "set ?fl \<subseteq> {..<n}" using Q R by (auto simp: queue_ok_def chain_def)
  moreover have "\<forall>r' \<in> L - {r}. described ?v r' (J r') \<and> distinct [c0 ?v r', c1 ?v r', c2 ?v r'] \<and> chain ?v r' \<subseteq> {..<n} \<and>
      chain ?v r' \<inter> set ?fl = {} \<and> inflight ?v (c0 ?v r') = r'"
  proof
    fix r' assume i: "r' \<in> L - {r}"
    then have "described v r' (J r') \<and> distinct [c0 v r', c1 v r', c2 v r'] \<and> chain v r' \<subseteq> {..<n} \<and> chain v r' \<inter> set fl = {} \<and> inflight v (c0 v r') = r'"
      using Q by (simp add: queue_ok_def)
    then show "described ?v r' (J r') \<and> distinct [c0 ?v r', c1 ?v r', c2 ?v r'] \<and> chain ?v r' \<subseteq> {..<n} \<and> chain ?v r' \<inter> set ?fl = {} \<and> inflight ?v (c0 ?v r') = r'"
      using disj [OF i] unfolding o [OF i] f(2) by (auto simp: chain_def [of v r])
  qed
  moreover have "\<forall>x \<in> L - {r}. \<forall>y \<in> L - {r}. x \<noteq> y \<longrightarrow> chain ?v x \<inter> chain ?v y = {}" using Q o(5) by (simp add: queue_ok_def)
  ultimately have "queue_ok n ?v (L - {r}) J ?fl" using n fin by (simp only: queue_ok_def finite_Diff)
  then show "\<exists>fl'. queue_ok n ?v (L - {r}) J fl'" by blast
qed

section \<open>The rings\<close>

text \<open>The entries of a ring from position \<open>a\<close> up to position \<open>b\<close>; the positions are 16-bit counters.\<close>

definition window :: "nat \<Rightarrow> (nat \<Rightarrow> 'b) \<Rightarrow> u16 \<Rightarrow> u16 \<Rightarrow> 'b list \<Rightarrow> bool" where
  "window n g a b xs \<longleftrightarrow> length xs \<le> n \<and> b = a + word_of_nat (length xs) \<and> (\<forall>j < length xs. g ((unat a + j) mod n) = xs ! j)"

lemma unat_add_mod: "n dvd 65536 \<Longrightarrow> unat (a + word_of_nat k :: u16) mod n = (unat a + k) mod n"
  by (simp add: unat_word_ariths unat_of_nat mod_mod_cancel mod_simps)

lemma add_mod_neq:
  fixes x i j n :: nat
  assumes "i < j" and "j < n"
  shows "(x + i) mod n \<noteq> (x + j) mod n"
proof
  assume "(x + i) mod n = (x + j) mod n"
  then have "n dvd (x + j) - (x + i)" using assms(1) by (metis mod_eq_dvd_iff_nat add_le_cancel_left less_imp_le)
  then show False using assms by (auto dest: dvd_imp_le)
qed

lemma window_push:
  assumes "window n g a b xs" and "length xs < n" and "n dvd 65536"
  shows "window n (g(unat b mod n := y)) a (b + 1) (xs @ [y])"
proof -
  have "unat b mod n = (unat a + length xs) mod n" using assms(1,3) unat_add_mod by (simp add: window_def)
  moreover have "(unat a + j) mod n \<noteq> (unat a + length xs) mod n" if "j < length xs" for j using add_mod_neq [OF that assms(2)] .
  ultimately show ?thesis using assms by (auto simp: window_def nth_append less_Suc_eq)
qed

lemma window_pop:
  assumes "window n g a b xs" and "a \<noteq> b" and "n dvd 65536"
  obtains ys where "xs = g (unat a mod n) # ys" "window n g (a + 1) b ys"
proof -
  obtain y ys where xs: "xs = y # ys" using assms(1,2) by (cases xs) (auto simp: window_def)
  have y: "g (unat a mod n) = y" using assms(1) by (auto simp: window_def xs dest: spec [of _ 0])
  have "g ((unat (a + 1) + j) mod n) = ys ! j" if "j < length ys" for j
  proof -
    have "(unat (a + 1) + j) mod n = (unat a + Suc j) mod n" using unat_add_mod [OF assms(3), of a 1] by (metis mod_add_left_eq add_Suc_right add.assoc of_nat_1 plus_1_eq_Suc)
    then show ?thesis using assms(1) that by (auto simp: window_def xs dest: spec [of _ "Suc j"])
  qed
  then have "window n g (a + 1) b ys" using assms(1) by (simp add: window_def xs)
  then show thesis using that xs y by blast
qed

section \<open>Requests, the device and its interrupt\<close>

text \<open>
  Where a task is in \<^verbatim>\<open>virtio_blk_request\<close>: before the wait for a slot, with a slot, waiting for the answer, woken, and with
  its descriptors given back.
\<close>

datatype vphase = V_idle | V_slot | V_sent | V_done | V_back

text \<open>
  The driver, the units of \<^verbatim>\<open>free_slots\<close>, the place of each request, the units of its semaphore, how far the device has
  read the available ring, the heads of the chains it has taken, what was asked, and what the device answered.
\<close>

record vcfg =
  vb :: vblk
  slots :: nat
  phase :: "u64 \<Rightarrow> vphase"
  posted :: "u64 \<Rightarrow> nat"
  dev_seen :: u16
  fetched :: "u16 list"
  job :: "u64 \<Rightarrow> u32 \<times> u64 \<times> u32"
  answer :: "u64 \<Rightarrow> (u32 \<times> u8) option"

text \<open>The device writes the status of the request and an entry of the used ring.\<close>

definition device_answer :: "u16 \<Rightarrow> u32 \<Rightarrow> u8 \<Rightarrow> u64 \<Rightarrow> vblk \<Rightarrow> vblk" where
  "device_answer h len st r v =
    v\<lparr>used_ring := (used_ring v)(unat (used_idx v) mod unat (vq_num v) := (ucast h, len)), used_idx := used_idx v + 1,
      reqs := (reqs v)(r := (reqs v r)\<lparr>rq_status := st\<rparr>)\<rparr>"

text \<open>The address of the status byte that the device finds behind the head of a chain.\<close>

definition status_of_head :: "vblk \<Rightarrow> u16 \<Rightarrow> u64" where
  "status_of_head v h = (let d0 = desc v (unat h); d1 = desc v (unat (d_next d0)) in d_addr (desc v (unat (d_next d1))))"

inductive vstep :: "vcfg \<Rightarrow> vcfg \<Rightarrow> bool" where
  take_slot: "phase x r = V_idle \<Longrightarrow> slots x > 0 \<Longrightarrow> vstep x (x\<lparr>slots := slots x - 1, phase := (phase x)(r := V_slot)\<rparr>)"
| submit: "phase x r = V_slot \<Longrightarrow> vstep x (x\<lparr>vb := take_descs r data sz (new_req r ty sector (vb x)), phase := (phase x)(r := V_sent),
    posted := (posted x)(r := 0), job := (job x)(r := (ucast ty, data, sz)), answer := (answer x)(r := None)\<rparr>)"
| fetch: "dev_seen x \<noteq> avail_idx (vb x) \<Longrightarrow> vstep x (x\<lparr>dev_seen := dev_seen x + 1,
    fetched := fetched x @ [avail_ring (vb x) (unat (dev_seen x) mod unat (vq_num (vb x)))]\<rparr>)"
| reply: "h \<in> set (fetched x) \<Longrightarrow> status_of_head (vb x) h = status_addr r \<Longrightarrow>
    vstep x (x\<lparr>fetched := remove1 h (fetched x), vb := device_answer h len st r (vb x), answer := (answer x)(r := Some (len, st))\<rparr>)"
| irq_turn: "last_seen_used (vb x) \<noteq> used_idx (vb x) \<Longrightarrow> used_take (vb x) = (r, v) \<Longrightarrow>
    vstep x (x\<lparr>vb := used_next v, posted := (posted x)(r := posted x r + 1)\<rparr>)"
| wake: "phase x r = V_sent \<Longrightarrow> posted x r > 0 \<Longrightarrow> vstep x (x\<lparr>phase := (phase x)(r := V_done), posted := (posted x)(r := posted x r - 1)\<rparr>)"
| release: "phase x r = V_done \<Longrightarrow> clear_chain (unat (rq_head (reqs (vb x) r))) (desc (vb x)) = Some (st, d) \<Longrightarrow>
    vstep x (x\<lparr>vb := give_descs (rq_head (reqs (vb x) r)) st ((vb x)\<lparr>desc := d\<rparr>), phase := (phase x)(r := V_back)\<rparr>)"
| give_slot: "phase x r = V_back \<Longrightarrow> vstep x (x\<lparr>slots := slots x + 1, phase := (phase x)(r := V_idle)\<rparr>)"

definition live :: "vcfg \<Rightarrow> u64 set" where
  "live x = {r. phase x r = V_sent \<or> phase x r = V_done}"

definition waiting :: "vcfg \<Rightarrow> u64 set" where
  "waiting x = {r. phase x r = V_sent \<and> posted x r = 0}"

text \<open>The semaphore and the requests share the slots.\<close>

definition slots_ok :: "nat \<Rightarrow> vcfg \<Rightarrow> bool" where
  "slots_ok n x \<longleftrightarrow> finite {r. phase x r \<noteq> V_idle} \<and> slots x + card {r. phase x r \<noteq> V_idle} = n div 3"

text \<open>Each request that waits is once in the available ring, with the device, or in the used ring; the answer is on its way with it.\<close>

definition rings_ok :: "nat \<Rightarrow> vcfg \<Rightarrow> u16 list \<Rightarrow> (u32 \<times> u32) list \<Rightarrow> bool" where
  "rings_ok n x avs us \<longleftrightarrow> window n (avail_ring (vb x)) (dev_seen x) (avail_idx (vb x)) avs \<and>
    window n (used_ring (vb x)) (last_seen_used (vb x)) (used_idx (vb x)) us \<and>
    distinct (map unat avs @ map unat (fetched x) @ map (unat \<circ> fst) us) \<and>
    set (map unat avs @ map unat (fetched x) @ map (unat \<circ> fst) us) = c0 (vb x) ` waiting x \<and>
    (\<forall>r. posted x r \<le> 1 \<and> (posted x r = 1 \<longrightarrow> phase x r = V_sent)) \<and>
    (\<forall>(i, len) \<in> set us. \<forall>r \<in> live x. c0 (vb x) r = unat i \<longrightarrow> answer x r = Some (len, rq_status (reqs (vb x) r))) \<and>
    (\<forall>r \<in> live x - waiting x. answer x r = Some (rq_len (reqs (vb x) r), rq_status (reqs (vb x) r)))"

definition vinv :: "nat \<Rightarrow> vcfg \<Rightarrow> bool" where
  "vinv n x \<longleftrightarrow> n dvd 65536 \<and> vq_num (vb x) = word_of_nat n \<and> slots_ok n x \<and>
    (\<exists>fl. queue_ok n (vb x) (live x) (job x) fl) \<and> (\<exists>avs us. rings_ok n x avs us)"

section \<open>The invariant is kept\<close>

lemma c0_inj: "queue_ok n v L J fl \<Longrightarrow> r \<in> L \<Longrightarrow> r' \<in> L \<Longrightarrow> c0 v r = c0 v r' \<Longrightarrow> r = r'"
  by (auto simp: queue_ok_def chain_def)

lemma queue_ok_mem:
  assumes "queue_ok n v L J fl" and "r \<in> L"
  shows "described v r (J r)" "distinct [c0 v r, c1 v r, c2 v r]" "chain v r \<subseteq> {..<n}" "chain v r \<inter> set fl = {}" "inflight v (c0 v r) = r" "n \<le> 16"
  using assms unfolding queue_ok_def by blast+

lemma waiting_live: "waiting x \<subseteq> live x"
  by (auto simp: waiting_def live_def)

lemma live_bound:
  assumes "slots_ok n x"
  shows "card (live x) \<le> n div 3" "phase x r = V_slot \<Longrightarrow> Suc (card (live x)) \<le> n div 3"
proof -
  let ?H = "{r. phase x r \<noteq> V_idle}"
  have f: "finite ?H" "card ?H \<le> n div 3" using assms by (simp_all add: slots_ok_def)
  have "live x \<subseteq> ?H" by (auto simp: live_def)
  then show "card (live x) \<le> n div 3" using card_mono [OF f(1)] f(2) by (meson le_trans)
  assume "phase x r = V_slot"
  then have "insert r (live x) \<subseteq> ?H" "r \<notin> live x" by (auto simp: live_def)
  moreover have "finite (live x)" using f(1) \<open>live x \<subseteq> ?H\<close> by (rule rev_finite_subset)
  ultimately show "Suc (card (live x)) \<le> n div 3" using card_mono [OF f(1), of "insert r (live x)"] f(2) by simp
qed

lemma rings_okD:
  assumes "rings_ok n x avs us"
  shows "window n (avail_ring (vb x)) (dev_seen x) (avail_idx (vb x)) avs" "window n (used_ring (vb x)) (last_seen_used (vb x)) (used_idx (vb x)) us"
    "distinct (map unat avs @ map unat (fetched x) @ map (unat \<circ> fst) us)"
    "set (map unat avs @ map unat (fetched x) @ map (unat \<circ> fst) us) = c0 (vb x) ` waiting x"
    "\<And>r. posted x r \<le> 1" "\<And>r. posted x r = 1 \<Longrightarrow> phase x r = V_sent"
    "\<And>i len r. (i, len) \<in> set us \<Longrightarrow> r \<in> live x \<Longrightarrow> c0 (vb x) r = unat i \<Longrightarrow> answer x r = Some (len, rq_status (reqs (vb x) r))"
    "\<And>r. r \<in> live x - waiting x \<Longrightarrow> answer x r = Some (rq_len (reqs (vb x) r), rq_status (reqs (vb x) r))"
  using assms unfolding rings_ok_def by blast+

lemma rings_okI:
  assumes "window n (avail_ring (vb x)) (dev_seen x) (avail_idx (vb x)) avs" and "window n (used_ring (vb x)) (last_seen_used (vb x)) (used_idx (vb x)) us"
    and "distinct (map unat avs @ map unat (fetched x) @ map (unat \<circ> fst) us)"
    and "set (map unat avs @ map unat (fetched x) @ map (unat \<circ> fst) us) = c0 (vb x) ` waiting x"
    and "\<And>r. posted x r \<le> 1" and "\<And>r. posted x r = 1 \<Longrightarrow> phase x r = V_sent"
    and "\<And>i len r. (i, len) \<in> set us \<Longrightarrow> r \<in> live x \<Longrightarrow> c0 (vb x) r = unat i \<Longrightarrow> answer x r = Some (len, rq_status (reqs (vb x) r))"
    and "\<And>r. r \<in> live x - waiting x \<Longrightarrow> answer x r = Some (rq_len (reqs (vb x) r), rq_status (reqs (vb x) r))"
  shows "rings_ok n x avs us"
  using assms unfolding rings_ok_def by blast

text \<open>There are no more entries in the rings than live requests.\<close>

lemma rings_bound:
  assumes "rings_ok n x avs us" and "finite (live x)"
  shows "length avs + length (fetched x) + length us \<le> card (live x)"
proof -
  let ?l = "map unat avs @ map unat (fetched x) @ map (unat \<circ> fst) us"
  have "length ?l = card (set ?l)" by (rule distinct_card [OF rings_okD(3) [OF assms(1)], symmetric])
  also have "\<dots> = card (c0 (vb x) ` waiting x)" unfolding rings_okD(4) [OF assms(1)] ..
  also have "\<dots> \<le> card (waiting x)" by (rule card_image_le) (rule finite_subset [OF waiting_live assms(2)])
  also have "\<dots> \<le> card (live x)" by (rule card_mono [OF assms(2) waiting_live])
  finally show ?thesis by simp
qed

lemma rings_ok_cong:
  assumes R: "rings_ok n x avs us" and "avail_ring (vb y) = avail_ring (vb x)" "avail_idx (vb y) = avail_idx (vb x)" "used_ring (vb y) = used_ring (vb x)"
      "used_idx (vb y) = used_idx (vb x)" "last_seen_used (vb y) = last_seen_used (vb x)" "dev_seen y = dev_seen x" "fetched y = fetched x"
    and w: "waiting y = waiting x" and l: "live y \<subseteq> live x" and c: "\<And>r. r \<in> live y \<Longrightarrow> c0 (vb y) r = c0 (vb x) r \<and> rq_len (reqs (vb y) r) = rq_len (reqs (vb x) r) \<and>
      rq_status (reqs (vb y) r) = rq_status (reqs (vb x) r)"
    and a: "answer y = answer x" and p: "\<And>r. posted y r \<le> 1" "\<And>r. posted y r = 1 \<Longrightarrow> phase y r = V_sent"
  shows "rings_ok n y avs us"
proof -
  have i: "c0 (vb y) ` waiting y = c0 (vb x) ` waiting x" unfolding w
  proof (rule image_cong)
    fix r assume "r \<in> waiting x"
    then show "c0 (vb y) r = c0 (vb x) r" using c w waiting_live [of y] by blast
  qed simp
  show ?thesis
  proof (rule rings_okI, unfold assms(2-8) i)
    fix j len r assume "(j, len) \<in> set us" "r \<in> live y" "c0 (vb y) r = unat j"
    then show "answer y r = Some (len, rq_status (reqs (vb y) r))" using rings_okD(7) [OF R] c [of r] l a by auto
  next
    fix r assume "r \<in> live y - waiting y"
    then show "answer y r = Some (rq_len (reqs (vb y) r), rq_status (reqs (vb y) r))" using rings_okD(8) [OF R, of r] c [of r] l a w by auto
  qed (use rings_okD(1-4) [OF R] p in auto)
qed

lemma take_slot_inv:
  assumes "vinv n x" and "phase x r = V_idle" and "slots x > 0"
  shows "vinv n (x\<lparr>slots := slots x - 1, phase := (phase x)(r := V_slot)\<rparr>)" (is "vinv n ?y")
proof -
  have l: "live ?y = live x" "waiting ?y = waiting x" using assms(2) by (auto simp: live_def waiting_def)
  have "{r'. phase ?y r' \<noteq> V_idle} = insert r {r'. phase x r' \<noteq> V_idle}" by auto
  then have "slots_ok n ?y" using assms by (auto simp: vinv_def slots_ok_def)
  moreover obtain avs us where R: "rings_ok n x avs us" using assms(1) by (auto simp: vinv_def)
  have "rings_ok n ?y avs us" using l assms(2) rings_okD(5,6) [OF R] by (intro rings_ok_cong [OF R]) auto
  ultimately show ?thesis using assms(1) l by (auto simp: vinv_def)
qed

lemma give_slot_inv:
  assumes "vinv n x" and "phase x r = V_back"
  shows "vinv n (x\<lparr>slots := slots x + 1, phase := (phase x)(r := V_idle)\<rparr>)" (is "vinv n ?y")
proof -
  have l: "live ?y = live x" "waiting ?y = waiting x" using assms(2) by (auto simp: live_def waiting_def)
  let ?H = "{r'. phase x r' \<noteq> V_idle}"
  have "{r'. phase ?y r' \<noteq> V_idle} = ?H - {r}" "finite ?H" using assms by (auto simp: vinv_def slots_ok_def)
  moreover have "card ?H = Suc (card (?H - {r}))" using assms(2) \<open>finite ?H\<close> by (intro card.remove) auto
  ultimately have "slots_ok n ?y" using assms(1) by (simp add: vinv_def slots_ok_def)
  moreover obtain avs us where R: "rings_ok n x avs us" using assms(1) by (auto simp: vinv_def)
  have "rings_ok n ?y avs us" using l assms(2) rings_okD(5,6) [OF R] by (intro rings_ok_cong [OF R]) auto
  ultimately show ?thesis using assms(1) l by (auto simp: vinv_def)
qed

lemma wake_inv:
  assumes "vinv n x" and "phase x r = V_sent" and "posted x r > 0"
  shows "vinv n (x\<lparr>phase := (phase x)(r := V_done), posted := (posted x)(r := posted x r - 1)\<rparr>)" (is "vinv n ?y")
proof -
  obtain avs us where R: "rings_ok n x avs us" using assms(1) by (auto simp: vinv_def)
  note p = rings_okD(5,6) [OF R]
  have "posted x r = 1" using p(1) [of r] assms(3) by simp
  then have l: "live ?y = live x" "waiting ?y = waiting x" using assms(2) by (auto simp: live_def waiting_def)
  have "rings_ok n ?y avs us" using l p \<open>posted x r = 1\<close> by (intro rings_ok_cong [OF R]) auto
  moreover have "{r'. phase ?y r' \<noteq> V_idle} = {r'. phase x r' \<noteq> V_idle}" using assms(2) by auto
  ultimately show ?thesis using assms(1) l by (auto simp: vinv_def slots_ok_def)
qed

lemma release_inv:
  assumes "vinv n x" and "phase x r = V_done" and "clear_chain (unat (rq_head (reqs (vb x) r))) (desc (vb x)) = Some (st, d)"
  shows "vinv n (x\<lparr>vb := give_descs (rq_head (reqs (vb x) r)) st ((vb x)\<lparr>desc := d\<rparr>), phase := (phase x)(r := V_back)\<rparr>)" (is "vinv n ?y")
proof -
  obtain fl avs us where Q: "queue_ok n (vb x) (live x) (job x) fl" and R: "rings_ok n x avs us" using assms(1) by (auto simp: vinv_def)
  have r: "r \<in> live x" using assms(2) by (simp add: live_def)
  have l: "live ?y = live x - {r}" "waiting ?y = waiting x" using assms(2) by (auto simp: live_def waiting_def)
  note g = give_descs_ok [OF Q r assms(3) [folded c0_def]]
  have "posted x r \<noteq> 1" using rings_okD(6) [OF R, of r] assms(2) by auto
  then have "rings_ok n ?y avs us" using l rings_okD(5,6) [OF R] by (intro rings_ok_cong [OF R]) (auto simp: give_descs_def c0_def)
  moreover have "{q. phase ?y q \<noteq> V_idle} = {q. phase x q \<noteq> V_idle}" using assms(2) by auto
  moreover have "\<exists>fl. queue_ok n (vb ?y) (live ?y) (job ?y) fl" using g(1) l(1) by simp
  moreover have "vq_num (vb ?y) = vq_num (vb x)" by (simp add: give_descs_def)
  ultimately show ?thesis using assms(1) by (simp add: vinv_def slots_ok_def) blast
qed

lemma fetch_inv:
  assumes "vinv n x" and "dev_seen x \<noteq> avail_idx (vb x)"
  shows "vinv n (x\<lparr>dev_seen := dev_seen x + 1, fetched := fetched x @ [avail_ring (vb x) (unat (dev_seen x) mod unat (vq_num (vb x)))]\<rparr>)" (is "vinv n ?y")
proof -
  obtain fl avs us where Q: "queue_ok n (vb x) (live x) (job x) fl" and R: "rings_ok n x avs us" and n: "n dvd 65536" "vq_num (vb x) = word_of_nat n" using assms(1) by (auto simp: vinv_def)
  have l: "live ?y = live x" "waiting ?y = waiting x" by (auto simp: live_def waiting_def)
  have u: "unat (vq_num (vb x)) = n" using Q n(2) by (simp add: queue_ok_def unat_of_nat)
  from window_pop [OF rings_okD(1) [OF R] assms(2) n(1)] obtain ys where ys: "avs = avail_ring (vb x) (unat (dev_seen x) mod n) # ys"
    "window n (avail_ring (vb x)) (dev_seen x + 1) (avail_idx (vb x)) ys" .
  have "rings_ok n ?y ys us"
  proof (rule rings_okI)
    show "distinct (map unat ys @ map unat (fetched ?y) @ map (unat \<circ> fst) us)" using rings_okD(3) [OF R] by (auto simp: ys(1) u)
    show "set (map unat ys @ map unat (fetched ?y) @ map (unat \<circ> fst) us) = c0 (vb ?y) ` waiting ?y"
      using rings_okD(4) [OF R] unfolding l(2) by (auto simp: ys(1) u)
  qed (use ys(2) rings_okD(2,5-8) [OF R] l in auto)
  then show ?thesis using assms(1) l by (auto simp: vinv_def slots_ok_def)
qed

lemma irq_turn_inv:
  assumes "vinv n x" and "last_seen_used (vb x) \<noteq> used_idx (vb x)" and "used_take (vb x) = (r, v)"
  shows "vinv n (x\<lparr>vb := used_next v, posted := (posted x)(r := posted x r + 1)\<rparr>)" (is "vinv n ?y")
proof -
  obtain fl avs us where Q: "queue_ok n (vb x) (live x) (job x) fl" and R: "rings_ok n x avs us" and n: "n dvd 65536" "vq_num (vb x) = word_of_nat n" using assms(1) by (auto simp: vinv_def)
  have u: "unat (vq_num (vb x)) = n" using Q n(2) by (simp add: queue_ok_def unat_of_nat)
  from window_pop [OF rings_okD(2) [OF R] assms(2) n(1)] obtain i len ys where us: "us = (i, len) # ys" "used_ring (vb x) (unat (last_seen_used (vb x)) mod n) = (i, len)"
    and W: "window n (used_ring (vb x)) (last_seen_used (vb x) + 1) (used_idx (vb x)) ys" by (metis prod.collapse)
  have e: "r = inflight (vb x) (unat i)" "v = (vb x)\<lparr>reqs := (reqs (vb x))(r := (reqs (vb x) r)\<lparr>rq_len := len\<rparr>)\<rparr>"
    using assms(3) us(2) by (auto simp: used_take_def u Let_def)
  have "unat i \<in> c0 (vb x) ` waiting x" unfolding rings_okD(4) [OF R, symmetric] by (simp add: us(1))
  then obtain q where q: "q \<in> waiting x" "c0 (vb x) q = unat i" by auto
  then have "q \<in> live x" using waiting_live by blast
  then have "r = q" using queue_ok_mem(5) [OF Q] q(2) e(1) by metis
  then have r: "r \<in> waiting x" "r \<in> live x" "c0 (vb x) r = unat i" "posted x r = 0" "phase x r = V_sent" using q \<open>q \<in> live x\<close> by (simp_all add: waiting_def)
  have l: "live ?y = live x" "waiting ?y = waiting x - {r}" using r by (auto simp: live_def waiting_def)
  have f: "desc (vb ?y) = desc (vb x)" "free_head_idx (vb ?y) = free_head_idx (vb x)" "inflight (vb ?y) = inflight (vb x)"
    "\<And>q. rq_head (reqs (vb ?y) q) = rq_head (reqs (vb x) q)" "\<And>q. c0 (vb ?y) q = c0 (vb x) q" "\<And>q. rq_status (reqs (vb ?y) q) = rq_status (reqs (vb x) q)"
    by (simp_all add: used_next_def e(2) c0_def)
  have "rings_ok n ?y avs ys"
  proof (rule rings_okI)
    have s: "set (map unat avs @ map unat (fetched x) @ map (unat \<circ> fst) ys) = c0 (vb x) ` waiting x - {unat i}"
      using rings_okD(3,4) [OF R] by (auto simp: us(1))
    have "c0 (vb x) ` (waiting x - {r}) = c0 (vb x) ` waiting x - {unat i}"
      using c0_inj [OF Q] r waiting_live [of x] by (auto simp: r(3) [symmetric])
    then show "set (map unat avs @ map unat (fetched ?y) @ map (unat \<circ> fst) ys) = c0 (vb ?y) ` waiting ?y" using s unfolding l(2) f(5) by simp
    fix j w assume "j \<in> live ?y - waiting ?y"
    then have "j \<in> live x - waiting x \<or> j = r" unfolding l by blast
    then show "answer ?y j = Some (rq_len (reqs (vb ?y) j), rq_status (reqs (vb ?y) j))"
      using rings_okD(8) [OF R, of j] rings_okD(7) [OF R, of i len r] r unfolding f(6) by (auto simp: us(1) used_next_def e(2))
  next
    fix j w q assume "(j, w) \<in> set ys" "q \<in> live ?y" "c0 (vb ?y) q = unat j"
    then show "answer ?y q = Some (w, rq_status (reqs (vb ?y) q))" using rings_okD(7) [OF R, of j w q] unfolding f(5,6) l(1) by (simp add: us(1))
  qed (use rings_okD(1,3,5,6) [OF R] W r in \<open>auto simp: us(1) used_next_def e(2) split: if_splits\<close>)
  moreover have "queue_ok n (vb ?y) (live ?y) (job ?y) fl" using queue_ok_cong(1) [OF Q f(1-3)] f(4) l(1) by simp
  moreover have "vq_num (vb ?y) = vq_num (vb x)" by (simp add: used_next_def e(2))
  ultimately show ?thesis using assms(1) by (simp add: vinv_def slots_ok_def) blast
qed

lemma reply_inv:
  assumes "vinv n x" and "h \<in> set (fetched x)" and "status_of_head (vb x) h = status_addr r"
  shows "vinv n (x\<lparr>fetched := remove1 h (fetched x), vb := device_answer h len st r (vb x), answer := (answer x)(r := Some (len, st))\<rparr>)" (is "vinv n ?y")
proof -
  obtain fl avs us where Q: "queue_ok n (vb x) (live x) (job x) fl" and R: "rings_ok n x avs us" and n: "n dvd 65536" "vq_num (vb x) = word_of_nat n"
    and S: "slots_ok n x" using assms(1) by (auto simp: vinv_def)
  have u: "unat (vq_num (vb x)) = n" using Q n(2) by (simp add: queue_ok_def unat_of_nat)
  have "unat h \<in> c0 (vb x) ` waiting x" unfolding rings_okD(4) [OF R, symmetric] using assms(2) by simp
  then obtain q where q: "q \<in> waiting x" "c0 (vb x) q = unat h" by auto
  then have ql: "q \<in> live x" using waiting_live by blast
  have "status_of_head (vb x) h = status_addr q"
    using queue_ok_mem(1) [OF Q ql] q(2) [symmetric] by (auto simp: status_of_head_def described_def Let_def c1_def c2_def split: prod.splits)
  then have r: "r = q" using assms(3) by (simp add: status_addr_def)
  have l: "live ?y = live x" "waiting ?y = waiting x" by (auto simp: live_def waiting_def)
  have f: "desc (vb ?y) = desc (vb x)" "free_head_idx (vb ?y) = free_head_idx (vb x)" "inflight (vb ?y) = inflight (vb x)"
    "\<And>q. rq_head (reqs (vb ?y) q) = rq_head (reqs (vb x) q)" "\<And>q. c0 (vb ?y) q = c0 (vb x) q" "\<And>q. rq_len (reqs (vb ?y) q) = rq_len (reqs (vb x) q)"
    "\<And>q. rq_status (reqs (vb ?y) q) = (if q = r then st else rq_status (reqs (vb x) q))" by (simp_all add: device_answer_def c0_def)
  have "unat h < 2 ^ 16" using unsigned_less [of h] by simp
  then have h32: "unat (ucast h :: u32) = unat h" by (simp add: unsigned_ucast_eq take_bit_nat_eq_self_iff)
  have d: "distinct (fetched x)" "unat h \<notin> unat ` set avs" "unat h \<notin> (\<lambda>p. unat (fst p)) ` set us"
    using rings_okD(3) [OF R] assms(2) by (auto simp: distinct_map)
  have F: "set (remove1 h (fetched x)) = set (fetched x) - {h}" "distinct (map unat (remove1 h (fetched x)))"
    using d(1) rings_okD(3) [OF R] by (auto simp: distinct_map intro: inj_on_subset)
  have "length us < n"
  proof -
    have "length us + 1 \<le> card (live x)" using rings_bound [OF R] Q assms(2) by (cases "fetched x") (auto simp: queue_ok_def)
    then show ?thesis using live_bound(1) [OF S] by linarith
  qed
  have "rings_ok n ?y avs (us @ [(ucast h, len)])"
  proof (rule rings_okI)
    show "window n (used_ring (vb ?y)) (last_seen_used (vb ?y)) (used_idx (vb ?y)) (us @ [(ucast h, len)])"
      using window_push [OF rings_okD(2) [OF R] \<open>length us < n\<close> n(1), of "(ucast h, len)"] by (simp add: device_answer_def u)
    show "distinct (map unat avs @ map unat (fetched ?y) @ map (unat \<circ> fst) (us @ [(ucast h, len)]))"
    proof -
      have "unat h \<notin> unat ` (set (fetched x) - {h})" by (auto simp: word_unat_eq_iff)
      then show ?thesis using rings_okD(3) [OF R] d(2,3) F by (auto simp: h32)
    qed
    show "set (map unat avs @ map unat (fetched ?y) @ map (unat \<circ> fst) (us @ [(ucast h, len)])) = c0 (vb ?y) ` waiting ?y"
      using rings_okD(4) [OF R] assms(2) F(1) unfolding f(5) l(2) by (auto simp: h32)
    fix j w p assume "(j, w) \<in> set (us @ [(ucast h, len)])" "p \<in> live ?y" "c0 (vb ?y) p = unat j"
    then consider "(j, w) \<in> set us" "p \<in> live x" "c0 (vb x) p = unat j" | "j = ucast h" "w = len" "p \<in> live x" "c0 (vb x) p = unat h"
      unfolding f(5) l(1) using h32 by auto
    then show "answer ?y p = Some (w, rq_status (reqs (vb ?y) p))"
    proof cases
      case 1
      then have "p \<noteq> r" using d(3) q(2) r by force
      then show ?thesis using rings_okD(7) [OF R 1] unfolding f(7) by simp
    next
      case 2
      then have "p = r" using c0_inj [OF Q _ ql] q(2) r by metis
      then show ?thesis using 2 unfolding f(7) by simp
    qed
  next
    fix p assume "p \<in> live ?y - waiting ?y"
    then have p: "p \<in> live x - waiting x" "p \<noteq> r" using q(1) r unfolding l by auto
    then show "answer ?y p = Some (rq_len (reqs (vb ?y) p), rq_status (reqs (vb ?y) p))" using rings_okD(8) [OF R p(1)] unfolding f(6,7) by simp
  qed (use rings_okD(1,5,6) [OF R] in \<open>auto simp: device_answer_def\<close>)
  moreover have "queue_ok n (vb ?y) (live ?y) (job ?y) fl" using queue_ok_cong(1) [OF Q f(1-3)] f(4) l(1) by simp
  moreover have "vq_num (vb ?y) = vq_num (vb x)" by (simp add: device_answer_def)
  ultimately show ?thesis using assms(1) by (simp add: vinv_def slots_ok_def) blast
qed

lemma submit_inv:
  assumes "vinv n x" and "phase x r = V_slot"
  shows "vinv n (x\<lparr>vb := take_descs r data sz (new_req r ty sector (vb x)), phase := (phase x)(r := V_sent), posted := (posted x)(r := 0),
    job := (job x)(r := (ucast ty, data, sz)), answer := (answer x)(r := None)\<rparr>)" (is "vinv n ?y")
proof -
  obtain fl avs us where Q: "queue_ok n (vb x) (live x) (job x) fl" and R: "rings_ok n x avs us" and n: "n dvd 65536" "vq_num (vb x) = word_of_nat n"
    and S: "slots_ok n x" using assms(1) by (auto simp: vinv_def)
  let ?w = "new_req r ty sector (vb x)"
  have rl: "r \<notin> live x" and l: "live ?y = insert r (live x)" "waiting ?y = insert r (waiting x)" using assms(2) by (auto simp: live_def waiting_def)
  have w: "queue_ok n ?w (live x) (job x) fl" "\<forall>q \<in> live x. c0 ?w q = c0 (vb x) q"
    using queue_ok_cong [OF Q, of ?w] rl by (auto simp: new_req_def)
  have fl: "3 \<le> length fl" and n16: "n \<le> 16" using Q live_bound(2) [OF S assms(2)] by (auto simp: queue_ok_def)
  note t = take_descs_ok [OF w(1) rl fl, of data sz]
  have ty: "rq_type (reqs ?w r) = ucast ty" by (simp add: new_req_def)
  let ?h = "free_head_idx (vb x)"
  have c: "\<And>q. q \<in> live x \<Longrightarrow> c0 (vb ?y) q = c0 (vb x) q" "c0 (vb ?y) r = unat ?h" using t(2,3) w(2) by (simp_all add: new_req_def)
  have h: "unat ?h \<in> set fl" using Q fl by (cases fl) (auto simp: queue_ok_def)
  then have hn: "unat ?h \<notin> c0 (vb x) ` waiting x" using queue_ok_mem(4) [OF Q] waiting_live [of x] by (auto simp: chain_def)
  have img: "c0 (vb ?y) ` waiting ?y = insert (unat ?h) (c0 (vb x) ` waiting x)"
  proof -
    have "c0 (vb ?y) ` waiting x = c0 (vb x) ` waiting x" by (rule image_cong) (use c(1) waiting_live [of x] in blast)+
    then show ?thesis unfolding l(2) image_insert c(2) by (rule arg_cong)
  qed
  have "length avs < n"
    using rings_bound [OF R] Q live_bound(2) [OF S assms(2)] by (auto simp: queue_ok_def)
  moreover have "unat (avail_idx (vb x) mod ucast (vq_num (vb x))) = unat (avail_idx (vb x)) mod n"
    using n16 n(2) by (simp add: unat_mod unat_of_nat unsigned_ucast_eq take_bit_nat_eq_self)
  ultimately have W: "window n (avail_ring (vb ?y)) (dev_seen ?y) (avail_idx (vb ?y)) (avs @ [?h])"
    using window_push [OF rings_okD(1) [OF R] _ n(1), of ?h] by (simp add: take_descs_def new_req_def Let_def)
  have f: "\<And>q. q \<noteq> r \<Longrightarrow> reqs (vb ?y) q = reqs (vb x) q" by (simp add: take_descs_def new_req_def Let_def)
  have "rings_ok n ?y (avs @ [?h]) us"
  proof (rule rings_okI [OF W])
    show "distinct (map unat (avs @ [?h]) @ map unat (fetched ?y) @ map (unat \<circ> fst) us)"
      using rings_okD(3) [OF R] hn unfolding rings_okD(4) [OF R, symmetric] by auto
    show "set (map unat (avs @ [?h]) @ map unat (fetched ?y) @ map (unat \<circ> fst) us) = c0 (vb ?y) ` waiting ?y"
      unfolding img rings_okD(4) [OF R, symmetric] by auto
    fix j v q assume a: "(j, v) \<in> set us" "q \<in> live ?y" "c0 (vb ?y) q = unat j"
    have "unat j \<in> c0 (vb x) ` waiting x" unfolding rings_okD(4) [OF R, symmetric] using a(1) by force
    then have "q \<noteq> r" using hn a(3) c(2) by metis
    then have "q \<in> live x" "q \<noteq> r" using a(2) l(1) by auto
    then show "answer ?y q = Some (v, rq_status (reqs (vb ?y) q))" using rings_okD(7) [OF R a(1)] a(3) c(1) f by simp
  next
    fix q assume "q \<in> live ?y - waiting ?y"
    then have "q \<in> live x - waiting x" "q \<noteq> r" unfolding l by auto
    then show "answer ?y q = Some (rq_len (reqs (vb ?y) q), rq_status (reqs (vb ?y) q))" using rings_okD(8) [OF R] f by simp
  qed (use rings_okD(2,5,6) [OF R] in \<open>auto simp: take_descs_def new_req_def Let_def split: if_splits\<close>)
  moreover have "\<exists>fl. queue_ok n (vb ?y) (live ?y) (job ?y) fl" using t(1) l(1) by (simp add: ty)
  moreover have "vq_num (vb ?y) = vq_num (vb x)" by (simp add: take_descs_def new_req_def Let_def)
  moreover have "{q. phase ?y q \<noteq> V_idle} = {q. phase x q \<noteq> V_idle}" using assms(2) by auto
  ultimately show ?thesis using assms(1) by (simp add: vinv_def slots_ok_def) blast
qed

lemma vstep_inv:
  assumes "vstep x y" and "vinv n x"
  shows "vinv n y"
  using assms
proof (induction rule: vstep.induct)
  case (take_slot x r)
  then show ?case by (intro take_slot_inv)
next
  case (submit x r data sz ty sector)
  then show ?case by (intro submit_inv)
next
  case (fetch x)
  then show ?case by (intro fetch_inv)
next
  case (reply h x r len st)
  then show ?case by (intro reply_inv)
next
  case (irq_turn x r v)
  then show ?case by (intro irq_turn_inv)
next
  case (wake x r)
  then show ?case by (intro wake_inv)
next
  case (release x r st d)
  then show ?case by (intro release_inv)
next
  case (give_slot x r)
  then show ?case by (intro give_slot_inv)
qed

section \<open>From the start\<close>

text \<open>The queue as \<^verbatim>\<open>setup_queues\<close> leaves it.\<close>

definition fresh_queue :: "nat \<Rightarrow> vblk \<Rightarrow> bool" where
  "fresh_queue n v \<longleftrightarrow> vq_num v = word_of_nat n \<and> (\<exists>d. desc v = link_free (word_of_nat n) d) \<and> free_head_idx v = 0 \<and>
    avail_idx v = 0 \<and> used_idx v = 0 \<and> last_seen_used v = 0"

definition vstart :: "nat \<Rightarrow> vblk \<Rightarrow> vcfg" where
  "vstart n v = \<lparr>vb = v, slots = n div VIRTIO_REQ_NUM_DESC, phase = (\<lambda>_. V_idle), posted = (\<lambda>_. 0), dev_seen = 0, fetched = [], job = (\<lambda>_. (0, 0, 0)), answer = (\<lambda>_. None)\<rparr>"

lemma link_free_links:
  assumes "n \<le> 16"
  shows "desc_links (link_free (word_of_nat n) d) 0 [0..<n]"
proof -
  have f: "fold (\<lambda>i d. d(i := (d i)\<lparr>d_next := word_of_nat (i + 1)\<rparr>)) [0..<m] d i = (if i < m then (d i)\<lparr>d_next := word_of_nat (i + 1)\<rparr> else d i)" for m i
    by (induction m) auto
  have u: "unat (word_of_nat n :: u16) = n" using assms by (simp add: unat_of_nat)
  have nx: "unat (d_next (link_free (word_of_nat n) d i)) = i + 1" if "i + 1 < n" for i
  proof -
    have "unat (word_of_nat (i + 1) :: u16) = i + 1" using that assms by (simp only: unat_of_nat) simp
    then show ?thesis unfolding link_free_def u f using that by (simp add: less_diff_conv)
  qed
  have "desc_links (link_free (word_of_nat n) d) k [k..<n]" if "k \<le> n" for k
    using that
  proof (induction rule: inc_induct)
    case (step k)
    then show ?case using nx [of k] by (cases "Suc k < n") (auto simp: upt_conv_Cons)
  qed simp
  from this [of 0] show ?thesis by simp
qed

lemma vstart_inv:
  assumes "fresh_queue n v" and "n dvd 65536" and "n \<le> 16"
  shows "vinv n (vstart n v)"
proof -
  obtain d where d: "desc v = link_free (word_of_nat n) d" and f: "vq_num v = word_of_nat n" "free_head_idx v = 0" "avail_idx v = 0" "used_idx v = 0" "last_seen_used v = 0"
    using assms(1) by (auto simp: fresh_queue_def)
  have l: "live (vstart n v) = {}" "waiting (vstart n v) = {}" by (simp_all add: live_def waiting_def vstart_def)
  have "queue_ok n v {} J [0..<n]" for J using link_free_links [OF assms(3)] assms(3) by (auto simp: queue_ok_def d f)
  moreover have "rings_ok n (vstart n v) [] []" by (rule rings_okI) (simp_all add: l window_def f, simp_all add: vstart_def f)
  ultimately show ?thesis unfolding vinv_def l using assms(2) f(1) by (auto simp: vstart_def slots_ok_def VIRTIO_REQ_NUM_DESC_def)
qed

lemma setup_queues_fresh:
  assumes "setup_queues B cfg s = (0, s')" and "last_seen_used (vblk s) = 0"
  shows "\<exists>n. fresh_queue n (vblk s')"
proof -
  have d: "ENODEV \<noteq> 0" "ENOMEM \<noteq> 0" by (simp_all add: errno_defs)
  have u: "(ucast x :: u32) = word_of_nat (unat x)" "ucast (ucast x :: u32) = x" "x = word_of_nat (unat x)" for x :: u16
    by (simp, rule bit_word_eqI, auto simp: bit_simps)
  show ?thesis
    using assms d
    by (auto simp: setup_queues_def dev_read_def dev_write_def upd_blk_dev_def init_free_list_def Let_def fresh_queue_def
      split: prod.splits if_splits option.splits)
      (metis u)+
qed

text \<open>C3: However tasks with requests, the device and its interrupts interleave, on a queue with a size that divides the range of its
  counters: the chain of a request that waits or was just answered has three descriptors of the table that tell the device the
  header, the buffer and the status of this request; no two such requests share a descriptor; and the task that is woken
  finds in its request the length and the status the device answered for it, and can give its descriptors back.\<close>

theorem virtio_requests_sound:
  assumes "fresh_queue n v" and "n dvd 65536" and "n \<le> 16" and "vstep\<^sup>*\<^sup>* (vstart n v) x"
  shows "(\<forall>r \<in> live x. described (vb x) r (job x r) \<and> distinct [c0 (vb x) r, c1 (vb x) r, c2 (vb x) r] \<and> chain (vb x) r \<subseteq> {..<n}) \<and>
    (\<forall>r \<in> live x. \<forall>r' \<in> live x. r \<noteq> r' \<longrightarrow> chain (vb x) r \<inter> chain (vb x) r' = {}) \<and>
    (\<forall>r. phase x r = V_done \<longrightarrow> answer x r = Some (rq_len (reqs (vb x) r), rq_status (reqs (vb x) r)) \<and>
      (\<exists>st d. clear_chain (unat (rq_head (reqs (vb x) r))) (desc (vb x)) = Some (st, d)))"
proof -
  from assms(4) vstart_inv [OF assms(1-3)] have "vinv n x" by (induction rule: rtranclp_induct) (auto intro: vstep_inv)
  then obtain fl avs us where Q: "queue_ok n (vb x) (live x) (job x) fl" and R: "rings_ok n x avs us" by (auto simp: vinv_def)
  have "answer x r = Some (rq_len (reqs (vb x) r), rq_status (reqs (vb x) r)) \<and>
      (\<exists>st d. clear_chain (unat (rq_head (reqs (vb x) r))) (desc (vb x)) = Some (st, d))" if "phase x r = V_done" for r
  proof
    have r: "r \<in> live x - waiting x" using that by (simp add: live_def waiting_def)
    show "answer x r = Some (rq_len (reqs (vb x) r), rq_status (reqs (vb x) r))" by (rule rings_okD(8) [OF R r])
    have "r \<in> live x" using r by blast
    from clear_chain_walk [OF queue_ok_mem(1-3,6) [OF Q this]]
    show "\<exists>st d. clear_chain (unat (rq_head (reqs (vb x) r))) (desc (vb x)) = Some (st, d)" by (auto simp: c0_def)
  qed
  moreover have "\<forall>r \<in> live x. \<forall>r' \<in> live x. r \<noteq> r' \<longrightarrow> chain (vb x) r \<inter> chain (vb x) r' = {}" using Q by (simp add: queue_ok_def)
  ultimately show ?thesis using queue_ok_mem(1-3) [OF Q] by blast
qed

text \<open>A queue of four descriptors, and a read of a block by the request at \<^verbatim>\<open>0x1000\<close> up to the wake of its task.\<close>

definition small_vblk :: vblk where
  "small_vblk = \<lparr>v_dev = \<lparr>ecam_addr = 0, cap_ptr = 0\<rparr>, irq_addr = 0, notify_addr = 0, vq_num = 4, vq_desc_at = 0, vq_avail_at = 0, vq_used_at = 0,
    desc = link_free 4 (\<lambda>_. \<lparr>d_addr = 0, d_len = 0, d_flags = 0, d_next = 0\<rparr>), avail_idx = 0, avail_ring = (\<lambda>_. 0), used_idx = 0, used_ring = (\<lambda>_. (0, 0)),
    free_head_idx = 0, inflight = (\<lambda>_. 0), last_seen_used = 0, reqs = (\<lambda>_. \<lparr>rq_type = 0, rq_sector = 0, rq_head = 0, rq_len = 0, rq_status = 0\<rparr>)\<rparr>"

lemma small_vblk_next: "d_next (desc small_vblk 0) = 1" "d_next (desc small_vblk (Suc 0)) = 2"
  by (simp_all add: small_vblk_def link_free_def upt_rec)

lemmas small_steps = take_descs_def new_req_def device_answer_def used_take_def used_next_def Let_def

theorem virtio_requests_sound_witness:
  "\<exists>x. vstep\<^sup>*\<^sup>* (vstart 4 small_vblk) x \<and> phase x 0x1000 = V_done \<and> answer x 0x1000 = Some (rq_len (reqs (vb x) 0x1000), rq_status (reqs (vb x) 0x1000)) \<and>
    described (vb x) 0x1000 (VIRTIO_BLK_T_IN, 0x2000, 4096)"
proof -
  let ?r = "0x1000 :: u64"
  let ?x0 = "vstart 4 small_vblk"
  let ?x1 = "?x0\<lparr>slots := slots ?x0 - 1, phase := (phase ?x0)(?r := V_slot)\<rparr>"
  let ?x2 = "?x1\<lparr>vb := take_descs ?r 0x2000 4096 (new_req ?r 0 8 (vb ?x1)), phase := (phase ?x1)(?r := V_sent), posted := (posted ?x1)(?r := 0),
    job := (job ?x1)(?r := (ucast (0 :: u8), 0x2000, 4096)), answer := (answer ?x1)(?r := None)\<rparr>"
  let ?x3 = "?x2\<lparr>dev_seen := dev_seen ?x2 + 1, fetched := fetched ?x2 @ [avail_ring (vb ?x2) (unat (dev_seen ?x2) mod unat (vq_num (vb ?x2)))]\<rparr>"
  let ?x4 = "?x3\<lparr>fetched := remove1 0 (fetched ?x3), vb := device_answer 0 4096 0 ?r (vb ?x3), answer := (answer ?x3)(?r := Some (4096, 0))\<rparr>"
  let ?x5 = "?x4\<lparr>vb := used_next (snd (used_take (vb ?x4))), posted := (posted ?x4)(?r := posted ?x4 ?r + 1)\<rparr>"
  let ?x6 = "?x5\<lparr>phase := (phase ?x5)(?r := V_done), posted := (posted ?x5)(?r := posted ?x5 ?r - 1)\<rparr>"
  have v: "vq_num small_vblk = 4" "free_head_idx small_vblk = 0" "avail_idx small_vblk = 0" "used_idx small_vblk = 0" "last_seen_used small_vblk = 0" by (simp_all add: small_vblk_def)
  have "vstep ?x0 ?x1" by (rule take_slot) (simp_all add: vstart_def VIRTIO_REQ_NUM_DESC_def)
  moreover have "vstep ?x1 ?x2" by (rule submit) simp
  moreover have "vstep ?x2 ?x3" by (rule fetch) (simp add: vstart_def small_steps v)
  moreover have "vstep ?x3 ?x4" by (rule reply) (simp_all add: vstart_def small_steps v small_vblk_next status_of_head_def)
  moreover have "used_take (vb ?x4) = (?r, snd (used_take (vb ?x4)))" by (simp add: vstart_def small_steps v split: prod.split)
  then have "vstep ?x4 ?x5" by (intro irq_turn) (simp_all add: vstart_def small_steps v)
  moreover have "vstep ?x5 ?x6" by (rule wake) simp_all
  ultimately have r: "vstep\<^sup>*\<^sup>* ?x0 ?x6" by (meson rtranclp.rtrancl_into_rtrancl rtranclp.rtrancl_refl)
  have "\<exists>d. desc small_vblk = link_free (word_of_nat 4) d" by (rule exI) (simp add: small_vblk_def)
  then have f: "fresh_queue 4 small_vblk" by (simp add: fresh_queue_def v)
  have p: "phase ?x6 ?r = V_done" "job ?x6 ?r = (VIRTIO_BLK_T_IN, 0x2000, 4096)" by (simp_all add: VIRTIO_BLK_T_IN_def)
  from r p obtain x where x: "vstep\<^sup>*\<^sup>* ?x0 x" "phase x ?r = V_done" "job x ?r = (VIRTIO_BLK_T_IN, 0x2000, 4096)" by blast
  then have "?r \<in> live x" by (simp add: live_def)
  moreover have "(4 :: nat) dvd 65536" "(4 :: nat) \<le> 16" by simp_all
  ultimately have "described (vb x) ?r (job x ?r)" "answer x ?r = Some (rq_len (reqs (vb x) ?r), rq_status (reqs (vb x) ?r))"
    using virtio_requests_sound [OF f _ _ x(1)] x(2) by blast+
  then show ?thesis using x by (intro exI [of _ x]) simp
qed

end
