(* ===== verification/Font.thy ===== *)
theory Font
  imports Prelude
begin

text \<open>
  The glyphs of the console (\<^verbatim>\<open>lib/font.c\<close>): eight rows of eight bits for each code point, the least significant bit
  leftmost.  The table is in groups of 32 code points.
\<close>

definition font_00 :: "u8 list list" where
  "font_00 =
   [[0x00, 0x00, 0x00, 0x00, 0x00, 0x00, 0x00, 0x00],
    [0x00, 0x00, 0x00, 0x00, 0x00, 0x00, 0x00, 0x00],
    [0x00, 0x00, 0x00, 0x00, 0x00, 0x00, 0x00, 0x00],
    [0x00, 0x00, 0x00, 0x00, 0x00, 0x00, 0x00, 0x00],
    [0x00, 0x00, 0x00, 0x00, 0x00, 0x00, 0x00, 0x00],
    [0x00, 0x00, 0x00, 0x00, 0x00, 0x00, 0x00, 0x00],
    [0x00, 0x00, 0x00, 0x00, 0x00, 0x00, 0x00, 0x00],
    [0x00, 0x00, 0x00, 0x00, 0x00, 0x00, 0x00, 0x00],
    [0x00, 0x00, 0x00, 0x00, 0x00, 0x00, 0x00, 0x00],
    [0x00, 0x00, 0x00, 0x00, 0x00, 0x00, 0x00, 0x00],
    [0x00, 0x00, 0x00, 0x00, 0x00, 0x00, 0x00, 0x00],
    [0x00, 0x00, 0x00, 0x00, 0x00, 0x00, 0x00, 0x00],
    [0x00, 0x00, 0x00, 0x00, 0x00, 0x00, 0x00, 0x00],
    [0x00, 0x00, 0x00, 0x00, 0x00, 0x00, 0x00, 0x00],
    [0x00, 0x00, 0x00, 0x00, 0x00, 0x00, 0x00, 0x00],
    [0x00, 0x00, 0x00, 0x00, 0x00, 0x00, 0x00, 0x00],
    [0x00, 0x00, 0x00, 0x00, 0x00, 0x00, 0x00, 0x00],
    [0x00, 0x00, 0x00, 0x00, 0x00, 0x00, 0x00, 0x00],
    [0x00, 0x00, 0x00, 0x00, 0x00, 0x00, 0x00, 0x00],
    [0x00, 0x00, 0x00, 0x00, 0x00, 0x00, 0x00, 0x00],
    [0x00, 0x00, 0x00, 0x00, 0x00, 0x00, 0x00, 0x00],
    [0x00, 0x00, 0x00, 0x00, 0x00, 0x00, 0x00, 0x00],
    [0x00, 0x00, 0x00, 0x00, 0x00, 0x00, 0x00, 0x00],
    [0x00, 0x00, 0x00, 0x00, 0x00, 0x00, 0x00, 0x00],
    [0x00, 0x00, 0x00, 0x00, 0x00, 0x00, 0x00, 0x00],
    [0x00, 0x00, 0x00, 0x00, 0x00, 0x00, 0x00, 0x00],
    [0x00, 0x00, 0x00, 0x00, 0x00, 0x00, 0x00, 0x00],
    [0x00, 0x00, 0x00, 0x00, 0x00, 0x00, 0x00, 0x00],
    [0x00, 0x00, 0x00, 0x00, 0x00, 0x00, 0x00, 0x00],
    [0x00, 0x00, 0x00, 0x00, 0x00, 0x00, 0x00, 0x00],
    [0x00, 0x00, 0x00, 0x00, 0x00, 0x00, 0x00, 0x00],
    [0x00, 0x00, 0x00, 0x00, 0x00, 0x00, 0x00, 0x00]]"

definition font_20 :: "u8 list list" where
  "font_20 =
   [[0x00, 0x00, 0x00, 0x00, 0x00, 0x00, 0x00, 0x00],
    [0x18, 0x3c, 0x3c, 0x18, 0x18, 0x00, 0x18, 0x00],
    [0x36, 0x36, 0x00, 0x00, 0x00, 0x00, 0x00, 0x00],
    [0x36, 0x36, 0x7f, 0x36, 0x7f, 0x36, 0x36, 0x00],
    [0x0c, 0x3e, 0x03, 0x1e, 0x30, 0x1f, 0x0c, 0x00],
    [0x00, 0x63, 0x33, 0x18, 0x0c, 0x66, 0x63, 0x00],
    [0x1c, 0x36, 0x1c, 0x6e, 0x3b, 0x33, 0x6e, 0x00],
    [0x06, 0x06, 0x03, 0x00, 0x00, 0x00, 0x00, 0x00],
    [0x18, 0x0c, 0x06, 0x06, 0x06, 0x0c, 0x18, 0x00],
    [0x06, 0x0c, 0x18, 0x18, 0x18, 0x0c, 0x06, 0x00],
    [0x00, 0x66, 0x3c, 0xff, 0x3c, 0x66, 0x00, 0x00],
    [0x00, 0x0c, 0x0c, 0x3f, 0x0c, 0x0c, 0x00, 0x00],
    [0x00, 0x00, 0x00, 0x00, 0x00, 0x0c, 0x0c, 0x06],
    [0x00, 0x00, 0x00, 0x3f, 0x00, 0x00, 0x00, 0x00],
    [0x00, 0x00, 0x00, 0x00, 0x00, 0x0c, 0x0c, 0x00],
    [0x60, 0x30, 0x18, 0x0c, 0x06, 0x03, 0x01, 0x00],
    [0x3e, 0x63, 0x73, 0x7b, 0x6f, 0x67, 0x3e, 0x00],
    [0x0c, 0x0e, 0x0c, 0x0c, 0x0c, 0x0c, 0x3f, 0x00],
    [0x1e, 0x33, 0x30, 0x1c, 0x06, 0x33, 0x3f, 0x00],
    [0x1e, 0x33, 0x30, 0x1c, 0x30, 0x33, 0x1e, 0x00],
    [0x38, 0x3c, 0x36, 0x33, 0x7f, 0x30, 0x78, 0x00],
    [0x3f, 0x03, 0x1f, 0x30, 0x30, 0x33, 0x1e, 0x00],
    [0x1c, 0x06, 0x03, 0x1f, 0x33, 0x33, 0x1e, 0x00],
    [0x3f, 0x33, 0x30, 0x18, 0x0c, 0x0c, 0x0c, 0x00],
    [0x1e, 0x33, 0x33, 0x1e, 0x33, 0x33, 0x1e, 0x00],
    [0x1e, 0x33, 0x33, 0x3e, 0x30, 0x18, 0x0e, 0x00],
    [0x00, 0x0c, 0x0c, 0x00, 0x00, 0x0c, 0x0c, 0x00],
    [0x00, 0x0c, 0x0c, 0x00, 0x00, 0x0c, 0x0c, 0x06],
    [0x18, 0x0c, 0x06, 0x03, 0x06, 0x0c, 0x18, 0x00],
    [0x00, 0x00, 0x3f, 0x00, 0x00, 0x3f, 0x00, 0x00],
    [0x06, 0x0c, 0x18, 0x30, 0x18, 0x0c, 0x06, 0x00],
    [0x1e, 0x33, 0x30, 0x18, 0x0c, 0x00, 0x0c, 0x00]]"

definition font_40 :: "u8 list list" where
  "font_40 =
   [[0x3e, 0x63, 0x7b, 0x7b, 0x7b, 0x03, 0x1e, 0x00],
    [0x0c, 0x1e, 0x33, 0x33, 0x3f, 0x33, 0x33, 0x00],
    [0x3f, 0x66, 0x66, 0x3e, 0x66, 0x66, 0x3f, 0x00],
    [0x3c, 0x66, 0x03, 0x03, 0x03, 0x66, 0x3c, 0x00],
    [0x1f, 0x36, 0x66, 0x66, 0x66, 0x36, 0x1f, 0x00],
    [0x7f, 0x46, 0x16, 0x1e, 0x16, 0x46, 0x7f, 0x00],
    [0x7f, 0x46, 0x16, 0x1e, 0x16, 0x06, 0x0f, 0x00],
    [0x3c, 0x66, 0x03, 0x03, 0x73, 0x66, 0x7c, 0x00],
    [0x33, 0x33, 0x33, 0x3f, 0x33, 0x33, 0x33, 0x00],
    [0x1e, 0x0c, 0x0c, 0x0c, 0x0c, 0x0c, 0x1e, 0x00],
    [0x78, 0x30, 0x30, 0x30, 0x33, 0x33, 0x1e, 0x00],
    [0x67, 0x66, 0x36, 0x1e, 0x36, 0x66, 0x67, 0x00],
    [0x0f, 0x06, 0x06, 0x06, 0x46, 0x66, 0x7f, 0x00],
    [0x63, 0x77, 0x7f, 0x7f, 0x6b, 0x63, 0x63, 0x00],
    [0x63, 0x67, 0x6f, 0x7b, 0x73, 0x63, 0x63, 0x00],
    [0x1c, 0x36, 0x63, 0x63, 0x63, 0x36, 0x1c, 0x00],
    [0x3f, 0x66, 0x66, 0x3e, 0x06, 0x06, 0x0f, 0x00],
    [0x1e, 0x33, 0x33, 0x33, 0x3b, 0x1e, 0x38, 0x00],
    [0x3f, 0x66, 0x66, 0x3e, 0x36, 0x66, 0x67, 0x00],
    [0x1e, 0x33, 0x07, 0x0e, 0x38, 0x33, 0x1e, 0x00],
    [0x3f, 0x2d, 0x0c, 0x0c, 0x0c, 0x0c, 0x1e, 0x00],
    [0x33, 0x33, 0x33, 0x33, 0x33, 0x33, 0x3f, 0x00],
    [0x33, 0x33, 0x33, 0x33, 0x33, 0x1e, 0x0c, 0x00],
    [0x63, 0x63, 0x63, 0x6b, 0x7f, 0x77, 0x63, 0x00],
    [0x63, 0x63, 0x36, 0x1c, 0x1c, 0x36, 0x63, 0x00],
    [0x33, 0x33, 0x33, 0x1e, 0x0c, 0x0c, 0x1e, 0x00],
    [0x7f, 0x63, 0x31, 0x18, 0x4c, 0x66, 0x7f, 0x00],
    [0x1e, 0x06, 0x06, 0x06, 0x06, 0x06, 0x1e, 0x00],
    [0x03, 0x06, 0x0c, 0x18, 0x30, 0x60, 0x40, 0x00],
    [0x1e, 0x18, 0x18, 0x18, 0x18, 0x18, 0x1e, 0x00],
    [0x08, 0x1c, 0x36, 0x63, 0x00, 0x00, 0x00, 0x00],
    [0x00, 0x00, 0x00, 0x00, 0x00, 0x00, 0x00, 0xff]]"

definition font_60 :: "u8 list list" where
  "font_60 =
   [[0x0c, 0x0c, 0x18, 0x00, 0x00, 0x00, 0x00, 0x00],
    [0x00, 0x00, 0x1e, 0x30, 0x3e, 0x33, 0x6e, 0x00],
    [0x07, 0x06, 0x06, 0x3e, 0x66, 0x66, 0x3b, 0x00],
    [0x00, 0x00, 0x1e, 0x33, 0x03, 0x33, 0x1e, 0x00],
    [0x38, 0x30, 0x30, 0x3e, 0x33, 0x33, 0x6e, 0x00],
    [0x00, 0x00, 0x1e, 0x33, 0x3f, 0x03, 0x1e, 0x00],
    [0x1c, 0x36, 0x06, 0x0f, 0x06, 0x06, 0x0f, 0x00],
    [0x00, 0x00, 0x6e, 0x33, 0x33, 0x3e, 0x30, 0x1f],
    [0x07, 0x06, 0x36, 0x6e, 0x66, 0x66, 0x67, 0x00],
    [0x0c, 0x00, 0x0e, 0x0c, 0x0c, 0x0c, 0x1e, 0x00],
    [0x30, 0x00, 0x30, 0x30, 0x30, 0x33, 0x33, 0x1e],
    [0x07, 0x06, 0x66, 0x36, 0x1e, 0x36, 0x67, 0x00],
    [0x0e, 0x0c, 0x0c, 0x0c, 0x0c, 0x0c, 0x1e, 0x00],
    [0x00, 0x00, 0x33, 0x7f, 0x7f, 0x6b, 0x63, 0x00],
    [0x00, 0x00, 0x1f, 0x33, 0x33, 0x33, 0x33, 0x00],
    [0x00, 0x00, 0x1e, 0x33, 0x33, 0x33, 0x1e, 0x00],
    [0x00, 0x00, 0x3b, 0x66, 0x66, 0x3e, 0x06, 0x0f],
    [0x00, 0x00, 0x6e, 0x33, 0x33, 0x3e, 0x30, 0x78],
    [0x00, 0x00, 0x3b, 0x6e, 0x66, 0x06, 0x0f, 0x00],
    [0x00, 0x00, 0x3e, 0x03, 0x1e, 0x30, 0x1f, 0x00],
    [0x08, 0x0c, 0x3e, 0x0c, 0x0c, 0x2c, 0x18, 0x00],
    [0x00, 0x00, 0x33, 0x33, 0x33, 0x33, 0x6e, 0x00],
    [0x00, 0x00, 0x33, 0x33, 0x33, 0x1e, 0x0c, 0x00],
    [0x00, 0x00, 0x63, 0x6b, 0x7f, 0x7f, 0x36, 0x00],
    [0x00, 0x00, 0x63, 0x36, 0x1c, 0x36, 0x63, 0x00],
    [0x00, 0x00, 0x33, 0x33, 0x33, 0x3e, 0x30, 0x1f],
    [0x00, 0x00, 0x3f, 0x19, 0x0c, 0x26, 0x3f, 0x00],
    [0x38, 0x0c, 0x0c, 0x07, 0x0c, 0x0c, 0x38, 0x00],
    [0x18, 0x18, 0x18, 0x00, 0x18, 0x18, 0x18, 0x00],
    [0x07, 0x0c, 0x0c, 0x38, 0x0c, 0x0c, 0x07, 0x00],
    [0x6e, 0x3b, 0x00, 0x00, 0x00, 0x00, 0x00, 0x00],
    [0x00, 0x00, 0x00, 0x00, 0x00, 0x00, 0x00, 0x00]]"

definition font_80 :: "u8 list list" where
  "font_80 =
   [[0x00, 0x00, 0x00, 0x00, 0x00, 0x00, 0x00, 0x00],
    [0x00, 0x00, 0x00, 0x00, 0x00, 0x00, 0x00, 0x00],
    [0x00, 0x00, 0x00, 0x00, 0x00, 0x00, 0x00, 0x00],
    [0x00, 0x00, 0x00, 0x00, 0x00, 0x00, 0x00, 0x00],
    [0x00, 0x00, 0x00, 0x00, 0x00, 0x00, 0x00, 0x00],
    [0x00, 0x00, 0x00, 0x00, 0x00, 0x00, 0x00, 0x00],
    [0x00, 0x00, 0x00, 0x00, 0x00, 0x00, 0x00, 0x00],
    [0x00, 0x00, 0x00, 0x00, 0x00, 0x00, 0x00, 0x00],
    [0x00, 0x00, 0x00, 0x00, 0x00, 0x00, 0x00, 0x00],
    [0x00, 0x00, 0x00, 0x00, 0x00, 0x00, 0x00, 0x00],
    [0x00, 0x00, 0x00, 0x00, 0x00, 0x00, 0x00, 0x00],
    [0x00, 0x00, 0x00, 0x00, 0x00, 0x00, 0x00, 0x00],
    [0x00, 0x00, 0x00, 0x00, 0x00, 0x00, 0x00, 0x00],
    [0x00, 0x00, 0x00, 0x00, 0x00, 0x00, 0x00, 0x00],
    [0x00, 0x00, 0x00, 0x00, 0x00, 0x00, 0x00, 0x00],
    [0x00, 0x00, 0x00, 0x00, 0x00, 0x00, 0x00, 0x00],
    [0x00, 0x00, 0x00, 0x00, 0x00, 0x00, 0x00, 0x00],
    [0x00, 0x00, 0x00, 0x00, 0x00, 0x00, 0x00, 0x00],
    [0x00, 0x00, 0x00, 0x00, 0x00, 0x00, 0x00, 0x00],
    [0x00, 0x00, 0x00, 0x00, 0x00, 0x00, 0x00, 0x00],
    [0x00, 0x00, 0x00, 0x00, 0x00, 0x00, 0x00, 0x00],
    [0x00, 0x00, 0x00, 0x00, 0x00, 0x00, 0x00, 0x00],
    [0x00, 0x00, 0x00, 0x00, 0x00, 0x00, 0x00, 0x00],
    [0x00, 0x00, 0x00, 0x00, 0x00, 0x00, 0x00, 0x00],
    [0x00, 0x00, 0x00, 0x00, 0x00, 0x00, 0x00, 0x00],
    [0x00, 0x00, 0x00, 0x00, 0x00, 0x00, 0x00, 0x00],
    [0x00, 0x00, 0x00, 0x00, 0x00, 0x00, 0x00, 0x00],
    [0x00, 0x00, 0x00, 0x00, 0x00, 0x00, 0x00, 0x00],
    [0x00, 0x00, 0x00, 0x00, 0x00, 0x00, 0x00, 0x00],
    [0x00, 0x00, 0x00, 0x00, 0x00, 0x00, 0x00, 0x00],
    [0x00, 0x00, 0x00, 0x00, 0x00, 0x00, 0x00, 0x00],
    [0x00, 0x00, 0x00, 0x00, 0x00, 0x00, 0x00, 0x00]]"

definition font_a0 :: "u8 list list" where
  "font_a0 =
   [[0x00, 0x00, 0x00, 0x00, 0x00, 0x00, 0x00, 0x00],
    [0x18, 0x18, 0x00, 0x18, 0x18, 0x18, 0x18, 0x00],
    [0x18, 0x18, 0x7e, 0x03, 0x03, 0x7e, 0x18, 0x18],
    [0x1c, 0x36, 0x26, 0x0f, 0x06, 0x67, 0x3f, 0x00],
    [0x00, 0x00, 0x63, 0x3e, 0x36, 0x3e, 0x63, 0x00],
    [0x33, 0x33, 0x1e, 0x3f, 0x0c, 0x3f, 0x0c, 0x0c],
    [0x18, 0x18, 0x18, 0x00, 0x18, 0x18, 0x18, 0x00],
    [0x7c, 0xc6, 0x1c, 0x36, 0x36, 0x1c, 0x33, 0x1e],
    [0x33, 0x00, 0x00, 0x00, 0x00, 0x00, 0x00, 0x00],
    [0x3c, 0x42, 0x99, 0x85, 0x85, 0x99, 0x42, 0x3c],
    [0x3c, 0x36, 0x36, 0x7c, 0x00, 0x00, 0x00, 0x00],
    [0x00, 0xcc, 0x66, 0x33, 0x66, 0xcc, 0x00, 0x00],
    [0x00, 0x00, 0x00, 0x3f, 0x30, 0x30, 0x00, 0x00],
    [0x00, 0x00, 0x00, 0x00, 0x00, 0x00, 0x00, 0x00],
    [0x3c, 0x42, 0x9d, 0xa5, 0x9d, 0xa5, 0x42, 0x3c],
    [0x7e, 0x00, 0x00, 0x00, 0x00, 0x00, 0x00, 0x00],
    [0x1c, 0x36, 0x36, 0x1c, 0x00, 0x00, 0x00, 0x00],
    [0x18, 0x18, 0x7e, 0x18, 0x18, 0x00, 0x7e, 0x00],
    [0x1c, 0x30, 0x18, 0x0c, 0x3c, 0x00, 0x00, 0x00],
    [0x1c, 0x30, 0x18, 0x30, 0x1c, 0x00, 0x00, 0x00],
    [0x18, 0x0c, 0x00, 0x00, 0x00, 0x00, 0x00, 0x00],
    [0x00, 0x00, 0x66, 0x66, 0x66, 0x3e, 0x06, 0x03],
    [0xfe, 0xdb, 0xdb, 0xde, 0xd8, 0xd8, 0xd8, 0x00],
    [0x00, 0x00, 0x00, 0x18, 0x18, 0x00, 0x00, 0x00],
    [0x00, 0x00, 0x00, 0x00, 0x00, 0x18, 0x30, 0x1e],
    [0x08, 0x0c, 0x08, 0x1c, 0x00, 0x00, 0x00, 0x00],
    [0x1c, 0x36, 0x36, 0x1c, 0x00, 0x00, 0x00, 0x00],
    [0x00, 0x33, 0x66, 0xcc, 0x66, 0x33, 0x00, 0x00],
    [0xc3, 0x63, 0x33, 0xbd, 0xec, 0xf6, 0xf3, 0x03],
    [0xc3, 0x63, 0x33, 0x7b, 0xcc, 0x66, 0x33, 0xf0],
    [0x03, 0xc4, 0x63, 0xb4, 0xdb, 0xac, 0xe6, 0x80],
    [0x0c, 0x00, 0x0c, 0x06, 0x03, 0x33, 0x1e, 0x00]]"

definition font_c0 :: "u8 list list" where
  "font_c0 =
   [[0x07, 0x00, 0x1c, 0x36, 0x63, 0x7f, 0x63, 0x00],
    [0x70, 0x00, 0x1c, 0x36, 0x63, 0x7f, 0x63, 0x00],
    [0x1c, 0x36, 0x00, 0x3e, 0x63, 0x7f, 0x63, 0x00],
    [0x6e, 0x3b, 0x00, 0x3e, 0x63, 0x7f, 0x63, 0x00],
    [0x63, 0x1c, 0x36, 0x63, 0x7f, 0x63, 0x63, 0x00],
    [0x0c, 0x0c, 0x00, 0x1e, 0x33, 0x3f, 0x33, 0x00],
    [0x7c, 0x36, 0x33, 0x7f, 0x33, 0x33, 0x73, 0x00],
    [0x1e, 0x33, 0x03, 0x33, 0x1e, 0x18, 0x30, 0x1e],
    [0x07, 0x00, 0x3f, 0x06, 0x1e, 0x06, 0x3f, 0x00],
    [0x38, 0x00, 0x3f, 0x06, 0x1e, 0x06, 0x3f, 0x00],
    [0x0c, 0x12, 0x3f, 0x06, 0x1e, 0x06, 0x3f, 0x00],
    [0x36, 0x00, 0x3f, 0x06, 0x1e, 0x06, 0x3f, 0x00],
    [0x07, 0x00, 0x1e, 0x0c, 0x0c, 0x0c, 0x1e, 0x00],
    [0x38, 0x00, 0x1e, 0x0c, 0x0c, 0x0c, 0x1e, 0x00],
    [0x0c, 0x12, 0x00, 0x1e, 0x0c, 0x0c, 0x1e, 0x00],
    [0x33, 0x00, 0x1e, 0x0c, 0x0c, 0x0c, 0x1e, 0x00],
    [0x3f, 0x66, 0x6f, 0x6f, 0x66, 0x66, 0x3f, 0x00],
    [0x3f, 0x00, 0x33, 0x37, 0x3f, 0x3b, 0x33, 0x00],
    [0x0e, 0x00, 0x18, 0x3c, 0x66, 0x3c, 0x18, 0x00],
    [0x70, 0x00, 0x18, 0x3c, 0x66, 0x3c, 0x18, 0x00],
    [0x3c, 0x66, 0x18, 0x3c, 0x66, 0x3c, 0x18, 0x00],
    [0x6e, 0x3b, 0x00, 0x3e, 0x63, 0x63, 0x3e, 0x00],
    [0xc3, 0x18, 0x3c, 0x66, 0x66, 0x3c, 0x18, 0x00],
    [0x00, 0x36, 0x1c, 0x08, 0x1c, 0x36, 0x00, 0x00],
    [0x5c, 0x36, 0x73, 0x7b, 0x6f, 0x36, 0x1d, 0x00],
    [0x0e, 0x00, 0x66, 0x66, 0x66, 0x66, 0x3c, 0x00],
    [0x70, 0x00, 0x66, 0x66, 0x66, 0x66, 0x3c, 0x00],
    [0x3c, 0x66, 0x00, 0x66, 0x66, 0x66, 0x3c, 0x00],
    [0x33, 0x00, 0x33, 0x33, 0x33, 0x33, 0x1e, 0x00],
    [0x70, 0x00, 0x66, 0x66, 0x3c, 0x18, 0x18, 0x00],
    [0x0f, 0x06, 0x3e, 0x66, 0x66, 0x3e, 0x06, 0x0f],
    [0x00, 0x1e, 0x33, 0x1f, 0x33, 0x1f, 0x03, 0x03]]"

definition font_e0 :: "u8 list list" where
  "font_e0 =
   [[0x07, 0x00, 0x1e, 0x30, 0x3e, 0x33, 0x7e, 0x00],
    [0x38, 0x00, 0x1e, 0x30, 0x3e, 0x33, 0x7e, 0x00],
    [0x7e, 0xc3, 0x3c, 0x60, 0x7c, 0x66, 0xfc, 0x00],
    [0x6e, 0x3b, 0x1e, 0x30, 0x3e, 0x33, 0x7e, 0x00],
    [0x33, 0x00, 0x1e, 0x30, 0x3e, 0x33, 0x7e, 0x00],
    [0x0c, 0x0c, 0x1e, 0x30, 0x3e, 0x33, 0x7e, 0x00],
    [0x00, 0x00, 0xfe, 0x30, 0xfe, 0x33, 0xfe, 0x00],
    [0x00, 0x00, 0x1e, 0x03, 0x03, 0x1e, 0x30, 0x1c],
    [0x07, 0x00, 0x1e, 0x33, 0x3f, 0x03, 0x1e, 0x00],
    [0x38, 0x00, 0x1e, 0x33, 0x3f, 0x03, 0x1e, 0x00],
    [0x7e, 0xc3, 0x3c, 0x66, 0x7e, 0x06, 0x3c, 0x00],
    [0x33, 0x00, 0x1e, 0x33, 0x3f, 0x03, 0x1e, 0x00],
    [0x07, 0x00, 0x0e, 0x0c, 0x0c, 0x0c, 0x1e, 0x00],
    [0x1c, 0x00, 0x0e, 0x0c, 0x0c, 0x0c, 0x1e, 0x00],
    [0x3e, 0x63, 0x1c, 0x18, 0x18, 0x18, 0x3c, 0x00],
    [0x33, 0x00, 0x0e, 0x0c, 0x0c, 0x0c, 0x1e, 0x00],
    [0x1b, 0x0e, 0x1b, 0x30, 0x3e, 0x33, 0x1e, 0x00],
    [0x00, 0x1f, 0x00, 0x1f, 0x33, 0x33, 0x33, 0x00],
    [0x00, 0x07, 0x00, 0x1e, 0x33, 0x33, 0x1e, 0x00],
    [0x00, 0x38, 0x00, 0x1e, 0x33, 0x33, 0x1e, 0x00],
    [0x1e, 0x33, 0x00, 0x1e, 0x33, 0x33, 0x1e, 0x00],
    [0x6e, 0x3b, 0x00, 0x1e, 0x33, 0x33, 0x1e, 0x00],
    [0x00, 0x33, 0x00, 0x1e, 0x33, 0x33, 0x1e, 0x00],
    [0x18, 0x18, 0x00, 0x7e, 0x00, 0x18, 0x18, 0x00],
    [0x00, 0x60, 0x3c, 0x76, 0x7e, 0x6e, 0x3c, 0x06],
    [0x00, 0x07, 0x00, 0x33, 0x33, 0x33, 0x7e, 0x00],
    [0x00, 0x38, 0x00, 0x33, 0x33, 0x33, 0x7e, 0x00],
    [0x1e, 0x33, 0x00, 0x33, 0x33, 0x33, 0x7e, 0x00],
    [0x00, 0x33, 0x00, 0x33, 0x33, 0x33, 0x7e, 0x00],
    [0x00, 0x38, 0x00, 0x33, 0x33, 0x3e, 0x30, 0x1f],
    [0x00, 0x00, 0x06, 0x3e, 0x66, 0x3e, 0x06, 0x00],
    [0x00, 0x33, 0x00, 0x33, 0x33, 0x3e, 0x30, 0x1f]]"

definition font8x8_basic :: "u8 list list" where
  "font8x8_basic = font_00 @ font_20 @ font_40 @ font_60 @ font_80 @ font_a0 @ font_c0 @ font_e0"

lemma length_font: "length font8x8_basic = 256"
  by (simp add: font8x8_basic_def font_00_def font_20_def font_40_def font_60_def font_80_def font_a0_def font_c0_def font_e0_def)

lemma font_rows: "\<forall>g \<in> set font8x8_basic. length g = 8"
  by (simp add: font8x8_basic_def font_00_def font_20_def font_40_def font_60_def font_80_def font_a0_def font_c0_def font_e0_def)

text \<open>The underscore has only its last row.\<close>

lemma font_underscore: "font8x8_basic ! 95 = [0, 0, 0, 0, 0, 0, 0, 0xff]"
  by (simp add: font8x8_basic_def nth_append font_00_def font_20_def font_40_def font_60_def font_80_def font_a0_def font_c0_def font_e0_def)

end
