(* ===== verification/Console.thy ===== *)
theory Console
  imports Prelude Strings Inode Files Sched Tasks Mmio Pci Uart Virtio Font
begin

text \<open>
  The console on the screen (\<^verbatim>\<open>kernel/drivers/console/bochs.c\<close>): configuring the display, drawing characters and the
  cursor, control characters, and the two functions behind the console file.  The screen is the record
  \<open>screen\<close> with the pixels by their place in memory; places from 1024 * 768 on are not on the screen,
  and the model takes them as memory that can be read and written.
\<close>

section \<open>Constants\<close>

definition MAX_COLS :: int where [layout_defs]: "MAX_COLS = 128"
definition MAX_ROWS :: int where [layout_defs]: "MAX_ROWS = 96"
definition BG_COLOR :: u32 where [layout_defs]: "BG_COLOR = 0x000000"
definition TEXT_COLOR :: u32 where [layout_defs]: "TEXT_COLOR = 0xFFFFFF"
definition BOCHS_DISPLAY_BASE_ADDRESS :: u64 where [layout_defs]: "BOCHS_DISPLAY_BASE_ADDRESS = 0x50000000"
definition BOCHS_CONFIG_BASE_ADDRESS :: u64 where [layout_defs]: "BOCHS_CONFIG_BASE_ADDRESS = 0x40000000"
definition BOCHS_CONFIG_DISPI_ADDRESS :: u64 where [layout_defs]: "BOCHS_CONFIG_DISPI_ADDRESS = 0x500"
definition BOCHS_VENDOR_ID :: u16 where [layout_defs]: "BOCHS_VENDOR_ID = 0x1234"
definition BOCHS_DEV_ID :: u16 where [layout_defs]: "BOCHS_DEV_ID = 0x1111"
definition SYS_BUFFER_SIZE :: u64 where [layout_defs]: "SYS_BUFFER_SIZE = 1024"
definition FILE_DEV_CONSOLE :: nat where [layout_defs]: "FILE_DEV_CONSOLE = 0"
definition DISPLAY_BPP :: nat where [layout_defs]: "DISPLAY_BPP = 32"
definition DISPLAY_BANK :: nat where [layout_defs]: "DISPLAY_BANK = 0"
definition VBE_DISPI_ID0 :: u16 where [layout_defs]: "VBE_DISPI_ID0 = 0xb0c0"
definition VBE_DISPI_ENABLED :: u16 where [layout_defs]: "VBE_DISPI_ENABLED = 0x01"
definition VBE_DISPI_LFB_ENABLED :: u16 where [layout_defs]: "VBE_DISPI_LFB_ENABLED = 0x40"

text \<open>The registers of the display that the driver uses, by their index.\<close>

datatype dispi = Dispi_id | Dispi_xres | Dispi_yres | Dispi_bpp | Dispi_enable | Dispi_bank | Dispi_x_offset | Dispi_y_offset

fun dispi_index :: "dispi \<Rightarrow> u64" where
  "dispi_index Dispi_id = 0x00"
| "dispi_index Dispi_xres = 0x01"
| "dispi_index Dispi_yres = 0x02"
| "dispi_index Dispi_bpp = 0x03"
| "dispi_index Dispi_enable = 0x04"
| "dispi_index Dispi_bank = 0x05"
| "dispi_index Dispi_x_offset = 0x08"
| "dispi_index Dispi_y_offset = 0x09"

section \<open>Drawing\<close>

record screen =
  fb :: "nat \<Rightarrow> u32"
  cursor_row :: u8
  cursor_col :: u8

definition screen_start :: "(nat \<Rightarrow> u32) \<Rightarrow> screen" where
  "screen_start m = \<lparr>fb = m, cursor_row = 1, cursor_col = 0\<rparr>"

definition pixel :: "u32 \<Rightarrow> u32 \<Rightarrow> u32 \<Rightarrow> screen \<Rightarrow> int \<times> screen" where
  "pixel x y color s =
    (if unat x \<ge> DISPLAY_WIDTH \<or> unat y \<ge> DISPLAY_HEIGHT then (- EINVAL, s)
     else (0, s\<lparr>fb := (fb s)(unat y * DISPLAY_WIDTH + unat x := color)\<rparr>))"

text \<open>The two loops of \<^verbatim>\<open>write_char\<close>, over the pairs of offsets; the first pixel out of range ends them.\<close>

fun glyph_loop :: "u32 \<Rightarrow> u32 \<Rightarrow> u8 list \<Rightarrow> u32 \<Rightarrow> u32 \<Rightarrow> (nat \<times> nat) list \<Rightarrow> screen \<Rightarrow> int \<times> screen" where
  "glyph_loop row col glyph color bg_color [] s = (0, s)"
| "glyph_loop row col glyph color bg_color ((row_off, c_off) # ps) s =
    (let (res, s1) = pixel (col + word_of_nat c_off) (row + word_of_nat row_off) (if bit (glyph ! row_off) c_off then color else bg_color) s
     in if res \<noteq> 0 then (- EINVAL, s1) else glyph_loop row col glyph color bg_color ps s1)"

definition write_char :: "u32 \<Rightarrow> u32 \<Rightarrow> u8 \<Rightarrow> u32 \<Rightarrow> u32 \<Rightarrow> screen \<Rightarrow> int \<times> screen" where
  "write_char row col c color bg_color s =
    glyph_loop (row * 8) (col * 8) (font8x8_basic ! unat c) color bg_color (List.product [0..<8] [0..<8]) s"

definition draw_line :: "u32 \<Rightarrow> u32 \<Rightarrow> u32 \<Rightarrow> screen \<Rightarrow> screen" where
  "draw_line row col color s = fold (\<lambda>offset s. snd (pixel (col + word_of_nat offset) row color s)) [0..<8] s"

definition draw_cursor :: "screen \<Rightarrow> screen" where
  "draw_cursor s = draw_line (ucast (cursor_row s) * 8 + 7) (ucast (cursor_col s) * 8) TEXT_COLOR s"

definition undraw_cursor :: "screen \<Rightarrow> screen" where
  "undraw_cursor s = draw_line (ucast (cursor_row s) * 8 + 7) (ucast (cursor_col s) * 8) BG_COLOR s"

text \<open>
  An element of \<^verbatim>\<open>display_base\<close> is eight rows of pixels: the move reads 767 rows from row 8 on, and the last line
  that is cleared begins at 767 times eight rows.
\<close>

definition scroll :: "screen \<Rightarrow> screen" where
  "scroll s =
    (let elem = DISPLAY_WIDTH * 8;
         m = (\<lambda>i. if i < (DISPLAY_HEIGHT - 1) * DISPLAY_WIDTH then fb s (i + elem) else fb s i);
         last = (DISPLAY_HEIGHT - 1) * elem
     in s\<lparr>fb := (\<lambda>i. if last \<le> i \<and> i < last + DISPLAY_WIDTH then BG_COLOR else m i)\<rparr>)"

section \<open>The cursor\<close>

function scroll_to :: "int \<Rightarrow> screen \<Rightarrow> int \<times> screen" where
  "scroll_to row s = (if row \<ge> MAX_ROWS then scroll_to (row - 1) (scroll s) else (row, s))"
  by auto
termination by (relation "measure (\<lambda>(row, s). nat (row - MAX_ROWS + 1))") auto

declare scroll_to.simps [simp del]

definition set_cursor :: "int \<Rightarrow> int \<Rightarrow> screen \<Rightarrow> int \<times> screen" where
  "set_cursor row col s =
    (let (row, s1) = scroll_to row (undraw_cursor s)
     in if row < 0 then (- EINVAL, s1) else (0, draw_cursor (s1\<lparr>cursor_row := word_of_int row, cursor_col := word_of_int col\<rparr>)))"

definition advance_cursor :: "screen \<Rightarrow> screen" where
  "advance_cursor s =
    (if uint (cursor_col s) + 1 < MAX_COLS then snd (set_cursor (uint (cursor_row s)) (uint (cursor_col s) + 1) s)
     else snd (set_cursor (uint (cursor_row s) + 1) 0 s))"

definition put_char :: "u8 \<Rightarrow> screen \<Rightarrow> screen" where
  "put_char c s = advance_cursor (snd (write_char (ucast (cursor_row s)) (ucast (cursor_col s)) c TEXT_COLOR BG_COLOR s))"

definition clear_screen :: "screen \<Rightarrow> screen" where
  "clear_screen s =
    snd (set_cursor 1 0 (fold (\<lambda>(y, x) s. snd (pixel (word_of_nat x) (word_of_nat y) BG_COLOR s)) (List.product [0..<DISPLAY_HEIGHT] [0..<DISPLAY_WIDTH]) s))"

definition tab :: "screen \<Rightarrow> screen" where
  "tab s =
    (let distance = (- uint (cursor_col s)) mod 8
     in if distance + uint (cursor_col s) \<ge> MAX_COLS then snd (set_cursor (uint (cursor_row s) + 1) 0 s)
        else snd (set_cursor (uint (cursor_row s)) (uint (cursor_col s) + distance) s))"

definition backspace :: "screen \<Rightarrow> screen" where
  "backspace s = (if cursor_col s > 0 then snd (set_cursor (uint (cursor_row s)) (uint (cursor_col s) - 1) s) else s)"

definition newline :: "screen \<Rightarrow> screen" where
  "newline s = snd (set_cursor (uint (cursor_row s) + 1) 0 s)"

definition carriage_return :: "screen \<Rightarrow> screen" where
  "carriage_return s = snd (set_cursor (uint (cursor_row s)) 0 s)"

definition handle_char :: "u8 \<Rightarrow> screen \<Rightarrow> screen" where
  "handle_char c s =
    (if 32 \<le> c \<and> c < 127 then put_char c s
     else if c = 8 then backspace s
     else if c = 9 then tab s
     else if c = 10 then newline s
     else if c = 12 then clear_screen s
     else if c = 13 then carriage_return s
     else s)"

section \<open>The driver\<close>

record 'd csys = "'d vsys" +
  fb_base :: u64
  cfg_base :: u64
  scr :: screen

definition dispi16_read :: "'d bus \<Rightarrow> dispi \<Rightarrow> ('d, 'z) csys_scheme \<Rightarrow> u16 \<times> ('d, 'z) csys_scheme" where
  "dispi16_read B reg s = dev_read (rd16 B (cfg_base s + BOCHS_CONFIG_DISPI_ADDRESS + 2 * dispi_index reg)) s"

definition dispi16_write :: "'d bus \<Rightarrow> dispi \<Rightarrow> nat \<Rightarrow> ('d, 'z) csys_scheme \<Rightarrow> ('d, 'z) csys_scheme" where
  "dispi16_write B reg v s = dev_write (wr16 B (cfg_base s + BOCHS_CONFIG_DISPI_ADDRESS + 2 * dispi_index reg) (word_of_nat v)) s"

text \<open>One range of the device: its size is asked, an address is programmed, and the range is mapped.\<close>

definition config_bar :: "'d bus \<Rightarrow> pci_device \<Rightarrow> u8 \<Rightarrow> u64 \<Rightarrow> ('d, 'z) csys_scheme \<Rightarrow> (('d, 'z) csys_scheme, int + u64) proc" where
  "config_bar B dv n base s =
    (let (size, s1) = dev_read (pci_get_bar_size B dv n) s in
     if size < 0 then Done (Inl size) s1
     else
       (let map_addr = ALIGN_UP base (word_of_int size);
            (res, s2) = dev_read (pci_set_bar B dv n map_addr) s1
        in if res < 0 then Done (Inl res) s2
           else bindp (io_map map_addr (word_of_int size) s2) (\<lambda>res s3.
             if res < 0 then Done (Inl res) s3 else Done (Inr map_addr) s3)))"

definition config_pcie :: "'d bus \<Rightarrow> ('d, 'z) csys_scheme \<Rightarrow> (('d, 'z) csys_scheme, int) proc" where
  "config_pcie B s =
    (let (r, s1) = dev_read (pci_find_device B BOCHS_VENDOR_ID BOCHS_DEV_ID) s in
     case r of
       Inl e \<Rightarrow> Done e s1
     | Inr dv \<Rightarrow>
         bindp (config_bar B dv 0 BOCHS_DISPLAY_BASE_ADDRESS s1) (\<lambda>r s2.
           case r of
             Inl e \<Rightarrow> Done e s2
           | Inr a \<Rightarrow>
               bindp (config_bar B dv 2 BOCHS_CONFIG_BASE_ADDRESS (s2\<lparr>fb_base := a\<rparr>)) (\<lambda>r s3.
                 case r of
                   Inl e \<Rightarrow> Done e s3
                 | Inr a \<Rightarrow> Done 0 (dev_write (pci_enable_device B dv) (s3\<lparr>cfg_base := a\<rparr>)))))"

definition config_screen :: "'d bus \<Rightarrow> ('d, 'z) csys_scheme \<Rightarrow> int \<times> ('d, 'z) csys_scheme" where
  "config_screen B s =
    (let (v, s1) = dispi16_read B Dispi_id s in
     if v AND 0xFFF0 \<noteq> VBE_DISPI_ID0 then (- ENODEV, s1)
     else
       (0, dispi16_write B Dispi_enable (unat (VBE_DISPI_ENABLED OR VBE_DISPI_LFB_ENABLED))
          (dispi16_write B Dispi_y_offset 0 (dispi16_write B Dispi_x_offset 0 (dispi16_write B Dispi_bank DISPLAY_BANK
            (dispi16_write B Dispi_bpp DISPLAY_BPP (dispi16_write B Dispi_yres DISPLAY_HEIGHT (dispi16_write B Dispi_xres DISPLAY_WIDTH
              (dispi16_write B Dispi_enable 0 s1)))))))))"

text \<open>The operations of the console in the table of devices.\<close>

definition console_write_op :: fop where "console_write_op = Dev_op 0"
definition console_read_op :: fop where "console_read_op = Dev_op 1"

definition console_init :: "'d bus \<Rightarrow> ('d, 'z) csys_scheme \<Rightarrow> (('d, 'z) csys_scheme, int) proc" where
  "console_init B s =
    bindp (config_pcie B (s\<lparr>kern := file_map_dev_cb (kern s) FILE_DEV_CONSOLE console_write_op console_read_op\<rparr>)) (\<lambda>res s1.
      if res < 0 then Done res s1
      else (let (res, s2) = config_screen B s1 in if res < 0 then Done res s2 else Done 0 s2))"

definition console_putbyte :: "'d bus \<Rightarrow> u8 \<Rightarrow> ('d, 'z) csys_scheme \<Rightarrow> ('d, 'z) csys_scheme" where
  "console_putbyte B c s =
    (let s1 = dev_write (uart_putchar B c) s in if fb_base s1 \<noteq> 0 then s1\<lparr>scr := handle_char c (scr s1)\<rparr> else s1)"

definition console_putbytes :: "'d bus \<Rightarrow> u8 list \<Rightarrow> ('d, 'z) csys_scheme \<Rightarrow> ('d, 'z) csys_scheme" where
  "console_putbytes B bs s = fold (console_putbyte B) bs s"

definition console_display_top_right :: "u8 list \<Rightarrow> ('d, 'z) csys_scheme \<Rightarrow> ('d, 'z) csys_scheme" where
  "console_display_top_right bs s =
    (if fb_base s = 0 then s
     else
       (let t = drop (length bs - nat MAX_COLS) bs; col = word_of_nat (nat MAX_COLS - length t) :: u8
        in s\<lparr>scr := fold (\<lambda>i sc. snd (write_char 0 (ucast col + word_of_nat i) (t ! i) TEXT_COLOR BG_COLOR sc)) [0..<length t] (scr s)\<rparr>))"

definition console_write :: "'d bus \<Rightarrow> kbuf \<Rightarrow> u64 \<Rightarrow> ('d, 'z) csys_scheme \<Rightarrow> (('d, 'z) csys_scheme, int) proc" where
  "console_write B src count s =
    (case src of
       Kernel bs \<Rightarrow>
         if unat count \<le> length bs then Done (uint count) (console_putbytes B (take (nat (sint (ucast count :: u32))) bs) s) else Bad
     | User va \<Rightarrow>
         if count > SYS_BUFFER_SIZE then Done (- EINVAL) s
         else
           bindp (in_kern (\<lambda>k. lift_out (src_bytes k (User va) 0 (unat count)) (\<lambda>(r, k1). Done r k1)) s) (\<lambda>r s1.
             case r of Inl e \<Rightarrow> Done e s1 | Inr bs \<Rightarrow> Done (uint count) (console_putbytes B bs s1)))"

fun read_chars :: "nat \<Rightarrow> ('d, 'z) usys_scheme \<Rightarrow> (('d, 'z) usys_scheme, u8 list) proc" where
  "read_chars 0 s = Done [] s"
| "read_chars (Suc n) s = bindp (uart_read s) (\<lambda>c s1. bindp (read_chars n s1) (\<lambda>cs. Done (c # cs)))"

definition console_read :: "kbuf \<Rightarrow> u64 \<Rightarrow> ('d, 'z) usys_scheme \<Rightarrow> (('d, 'z) usys_scheme, int \<times> kbuf) proc" where
  "console_read dst count s =
    (case dst of
       Kernel bs \<Rightarrow>
         if unat count \<le> length bs then bindp (read_chars (unat count) s) (\<lambda>cs. Done (uint count, Kernel (splice bs 0 cs))) else Bad
     | User va \<Rightarrow>
         if count > SYS_BUFFER_SIZE then Done (- EINVAL, dst) s
         else
           bindp (read_chars (unat count) s) (\<lambda>cs s1.
             in_kern (\<lambda>k. lift_out (dst_bytes k (User va) 0 cs) (\<lambda>(res, b, k1). Done (if res < 0 then res else uint count, b) k1)) s1))"

section \<open>Interrupts\<close>

definition plic_handle_irq :: "'d bus \<Rightarrow> nat \<Rightarrow> ('d, 'z) vsys_scheme \<Rightarrow> (('d, 'z) vsys_scheme, unit) proc" where
  "plic_handle_irq B n s =
    (let (i, s1) = dev_read (claim_plic B) s in
     bindp (if i = UART_PLIC_ID then uart_irq_handler B s1 else if i = VIRTIO_BLK_PLIC_ID then virtio_irq_handler B n s1 else Done () s1)
       (\<lambda>_ s2. Done () (dev_write (complete_plic B i) s2)))"

section \<open>Cells\<close>

text \<open>The place in memory of pixel \<open>j\<close> in row \<open>i\<close> of the cell in text row \<open>r\<close> and column \<open>k\<close>, and what the cell shows.\<close>

definition place :: "nat \<Rightarrow> nat \<Rightarrow> nat \<Rightarrow> nat \<Rightarrow> nat" where
  "place r k i j = (8 * r + i) * 1024 + (8 * k + j)"

definition cell :: "screen \<Rightarrow> nat \<Rightarrow> nat \<Rightarrow> nat \<Rightarrow> nat \<Rightarrow> u32" where
  "cell s r k i j = fb s (place r k i j)"

lemma place_inj:
  assumes "k < 128" "i < 8" "j < 8" "k' < 128" "i' < 8" "j' < 8"
  shows "place r k i j = place r' k' i' j' \<longleftrightarrow> r = r' \<and> k = k' \<and> i = i' \<and> j = j'"
proof -
  have d: "place r k i j div 1024 = 8 * r + i" "place r k i j mod 1024 = 8 * k + j" if "k < 128" "j < 8" for r k i j
  proof -
    have l: "8 * k + j < 1024" using that by linarith
    then show "place r k i j div 1024 = 8 * r + i" unfolding place_def by (subst div_mult_self3) simp_all
    show "place r k i j mod 1024 = 8 * k + j" unfolding place_def mod_mult_self3 using l by simp
  qed
  have e: "8 * a + b = 8 * a' + b' \<longleftrightarrow> a = a' \<and> b = b'" if "b < 8" "b' < 8" for a b a' b' :: nat
  proof -
    have "(8 * x + y) div 8 = x" "(8 * x + y) mod 8 = y" if "y < 8" for x y :: nat using that by simp_all
    then show ?thesis using that by metis
  qed
  have "place r k i j = place r' k' i' j' \<Longrightarrow> 8 * r + i = 8 * r' + i' \<and> 8 * k + j = 8 * k' + j'" using d assms by metis
  then show ?thesis using e assms by auto
qed

lemma pixel_cell:
  assumes "r < 96" "k < 128" "i < 8" "j < 8"
  shows "pixel (word_of_nat (8 * k) + word_of_nat j) (word_of_nat (8 * r) + word_of_nat i) color s = (0, s\<lparr>fb := (fb s)(place r k i j := color)\<rparr>)"
proof -
  have "unat (word_of_nat (8 * k + j) :: u32) = 8 * k + j" "unat (word_of_nat (8 * r + i) :: u32) = 8 * r + i"
    using assms by (simp_all only: unat_of_nat) simp_all
  then show ?thesis using assms by (simp add: pixel_def DISPLAY_WIDTH_def DISPLAY_HEIGHT_def place_def)
qed

text \<open>Some pixels of a cell, drawn from a glyph.\<close>

lemma glyph_loop_draws:
  assumes "r < 96" "k < 128" and "\<forall>(i, j) \<in> set ps. i < 8 \<and> j < 8"
  shows "\<exists>m. glyph_loop (word_of_nat (8 * r)) (word_of_nat (8 * k)) glyph color bg ps s = (0, s\<lparr>fb := m\<rparr>) \<and>
    (\<forall>(i, j) \<in> set ps. m (place r k i j) = (if bit (glyph ! i) j then color else bg)) \<and>
    (\<forall>p. (\<forall>(i, j) \<in> set ps. p \<noteq> place r k i j) \<longrightarrow> m p = fb s p)"
  using assms(3)
proof (induction ps arbitrary: s)
  case Nil
  then show ?case by (intro exI [of _ "fb s"]) simp
next
  case (Cons q ps)
  obtain i j where q: "q = (i, j)" "i < 8" "j < 8" using Cons.prems by (cases q) auto
  let ?c = "if bit (glyph ! i) j then color else bg"
  let ?s = "s\<lparr>fb := (fb s)(place r k i j := ?c)\<rparr>"
  obtain m where m: "glyph_loop (word_of_nat (8 * r)) (word_of_nat (8 * k)) glyph color bg ps ?s = (0, ?s\<lparr>fb := m\<rparr>)"
    "\<forall>(i, j) \<in> set ps. m (place r k i j) = (if bit (glyph ! i) j then color else bg)" "\<forall>p. (\<forall>(i, j) \<in> set ps. p \<noteq> place r k i j) \<longrightarrow> m p = fb ?s p"
    using Cons.IH [of ?s] Cons.prems by auto
  have "m (place r k i j) = ?c"
  proof (cases "(i, j) \<in> set ps")
    case False
    have "\<forall>(i', j') \<in> set ps. place r k i j \<noteq> place r k i' j'"
    proof (clarify)
      fix i' j' assume a: "(i', j') \<in> set ps" "place r k i j = place r k i' j'"
      then have "i' < 8" "j' < 8" using Cons.prems by auto
      then show False using place_inj [of k i j k i' j' r r] a q(2,3) assms(2) False by auto
    qed
    then show ?thesis using m(3) by simp
  qed (use m(2) in auto)
  then show ?case using m pixel_cell [OF assms(1,2) q(2,3), of ?c s] by (intro exI [of _ m]) (auto simp: q(1))
qed

lemma write_char_draws:
  assumes "r < 96" "k < 128" "row = word_of_nat r" "col = word_of_nat k"
  shows "\<exists>m. write_char row col c color bg s = (0, s\<lparr>fb := m\<rparr>) \<and>
    (\<forall>i < 8. \<forall>j < 8. m (place r k i j) = (if bit (font8x8_basic ! unat c ! i) j then color else bg)) \<and>
    (\<forall>p. (\<forall>i < 8. \<forall>j < 8. p \<noteq> place r k i j) \<longrightarrow> m p = fb s p)"
  using glyph_loop_draws [OF assms(1,2), of "List.product [0..<8] [0..<8]" "font8x8_basic ! unat c" color bg s]
  by (auto simp: write_char_def assms(3,4) mult.commute)

text \<open>The line of the cursor at the bottom of a cell.\<close>

lemma draw_line_draws:
  assumes "r < 96" "k < 128"
  shows "\<exists>m. draw_line (word_of_nat r * 8 + 7) (word_of_nat k * 8) color s = s\<lparr>fb := m\<rparr> \<and> (\<forall>j < 8. m (place r k 7 j) = color) \<and>
    (\<forall>p. (\<forall>j < 8. p \<noteq> place r k 7 j) \<longrightarrow> m p = fb s p)"
proof -
  have e: "word_of_nat k * 8 + word_of_nat j = (word_of_nat (8 * k) + word_of_nat j :: u32)" "word_of_nat r * 8 + 7 = (word_of_nat (8 * r) + word_of_nat 7 :: u32)" for j
    by (simp_all add: mult.commute)
  have "\<exists>m. fold (\<lambda>offset s. snd (pixel (word_of_nat k * 8 + word_of_nat offset) (word_of_nat r * 8 + 7) color s)) [0..<n] s = s\<lparr>fb := m\<rparr> \<and>
      (\<forall>j < n. m (place r k 7 j) = color) \<and> (\<forall>p. (\<forall>j < n. p \<noteq> place r k 7 j) \<longrightarrow> m p = fb s p)" if "n \<le> 8" for n
    using that
  proof (induction n)
    case 0
    then show ?case by (intro exI [of _ "fb s"]) simp
  next
    case (Suc n)
    then obtain m where m: "fold (\<lambda>offset s. snd (pixel (word_of_nat k * 8 + word_of_nat offset) (word_of_nat r * 8 + 7) color s)) [0..<n] s = s\<lparr>fb := m\<rparr>"
      "\<forall>j < n. m (place r k 7 j) = color" "\<forall>p. (\<forall>j < n. p \<noteq> place r k 7 j) \<longrightarrow> m p = fb s p" by auto
    show ?case using m pixel_cell [OF assms, of 7 n color "s\<lparr>fb := m\<rparr>"] Suc.prems unfolding e
      by (intro exI [of _ "m(place r k 7 n := color)"]) (auto simp: less_Suc_eq fun_upd_def)
  qed
  from this [of 8] show ?thesis by (simp add: draw_line_def)
qed

definition on_screen :: "screen \<Rightarrow> bool" where
  "on_screen s \<longleftrightarrow> unat (cursor_row s) < 96 \<and> unat (cursor_col s) < 128"

lemma cursor_line:
  assumes "on_screen s"
  shows "\<exists>m. draw_line (ucast (cursor_row s) * 8 + 7) (ucast (cursor_col s) * 8) color s = s\<lparr>fb := m\<rparr> \<and>
    (\<forall>j < 8. m (place (unat (cursor_row s)) (unat (cursor_col s)) 7 j) = color) \<and>
    (\<forall>p. (\<forall>j < 8. p \<noteq> place (unat (cursor_row s)) (unat (cursor_col s)) 7 j) \<longrightarrow> m p = fb s p)"
  using draw_line_draws [of "unat (cursor_row s)" "unat (cursor_col s)" color s] assms by (simp add: on_screen_def)

text \<open>Moving the cursor to a place on the screen.\<close>

lemma set_cursor_moves:
  assumes "on_screen s" and "r < 96" and "k < 128"
  shows "\<exists>m. set_cursor (int r) (int k) s = (0, s\<lparr>fb := m, cursor_row := word_of_nat r, cursor_col := word_of_nat k\<rparr>) \<and>
    (\<forall>j < 8. m (place r k 7 j) = TEXT_COLOR) \<and>
    (\<forall>j < 8. (unat (cursor_row s), unat (cursor_col s)) \<noteq> (r, k) \<longrightarrow> m (place (unat (cursor_row s)) (unat (cursor_col s)) 7 j) = BG_COLOR) \<and>
    (\<forall>p. (\<forall>j < 8. p \<noteq> place r k 7 j \<and> p \<noteq> place (unat (cursor_row s)) (unat (cursor_col s)) 7 j) \<longrightarrow> m p = fb s p)"
proof -
  let ?r = "unat (cursor_row s)" and ?k = "unat (cursor_col s)"
  obtain m where m: "undraw_cursor s = s\<lparr>fb := m\<rparr>" "\<forall>j < 8. m (place ?r ?k 7 j) = BG_COLOR" "\<forall>p. (\<forall>j < 8. p \<noteq> place ?r ?k 7 j) \<longrightarrow> m p = fb s p"
    using cursor_line [OF assms(1), of BG_COLOR] by (auto simp: undraw_cursor_def)
  let ?s = "s\<lparr>fb := m, cursor_row := word_of_nat r, cursor_col := word_of_nat k\<rparr>"
  have u: "unat (word_of_nat r :: u8) = r" "unat (word_of_nat k :: u8) = k" using assms(2,3) by (simp_all add: unat_of_nat)
  then have "on_screen ?s" using assms(2,3) by (simp add: on_screen_def)
  from cursor_line [OF this, of TEXT_COLOR] obtain m' where m': "draw_cursor ?s = ?s\<lparr>fb := m'\<rparr>" "\<forall>j < 8. m' (place r k 7 j) = TEXT_COLOR"
    "\<forall>p. (\<forall>j < 8. p \<noteq> place r k 7 j) \<longrightarrow> m' p = m p" by (auto simp: draw_cursor_def u)
  have "scroll_to (int r) (s\<lparr>fb := m\<rparr>) = (int r, s\<lparr>fb := m\<rparr>)" using assms(2) by (subst scroll_to.simps) (simp add: MAX_ROWS_def)
  then have "set_cursor (int r) (int k) s = (0, s\<lparr>fb := m', cursor_row := word_of_nat r, cursor_col := word_of_nat k\<rparr>)"
    using m(1) m'(1) by (simp add: set_cursor_def)
  moreover have "m' (place ?r ?k 7 j) = BG_COLOR" if "j < 8" "(?r, ?k) \<noteq> (r, k)" for j
  proof -
    have "\<forall>j' < 8. place ?r ?k 7 j \<noteq> place r k 7 j'" using place_inj [of ?k 7 j k 7 _ ?r r] that assms by (auto simp: on_screen_def)
    then show ?thesis using m'(3) m(2) that(1) by simp
  qed
  ultimately show ?thesis using m(3) m'(2,3) by (intro exI [of _ m']) auto
qed

text \<open>The cell behind a cell, in the next line at the end of a line.\<close>

definition next_cell :: "nat \<times> nat \<Rightarrow> nat \<times> nat" where
  "next_cell p = (if snd p + 1 < 128 then (fst p, snd p + 1) else (fst p + 1, 0))"

definition cursor_at :: "screen \<Rightarrow> nat \<times> nat" where
  "cursor_at s = (unat (cursor_row s), unat (cursor_col s))"

lemma advance_cursor_moves:
  assumes "on_screen s" and "cursor_at s \<noteq> (95, 127)"
  shows "\<exists>m. advance_cursor s = s\<lparr>fb := m, cursor_row := word_of_nat (fst (next_cell (cursor_at s))), cursor_col := word_of_nat (snd (next_cell (cursor_at s)))\<rparr> \<and>
    (\<forall>j < 8. m (place (fst (next_cell (cursor_at s))) (snd (next_cell (cursor_at s))) 7 j) = TEXT_COLOR) \<and>
    (\<forall>j < 8. m (place (unat (cursor_row s)) (unat (cursor_col s)) 7 j) = BG_COLOR) \<and>
    (\<forall>p. (\<forall>j < 8. p \<noteq> place (fst (next_cell (cursor_at s))) (snd (next_cell (cursor_at s))) 7 j \<and>
      p \<noteq> place (unat (cursor_row s)) (unat (cursor_col s)) 7 j) \<longrightarrow> m p = fb s p)" (is "\<exists>m. ?P m")
proof -
  obtain r k where n: "next_cell (cursor_at s) = (r, k)" by force
  have rk: "r < 96" "k < 128" "(unat (cursor_row s), unat (cursor_col s)) \<noteq> (r, k)"
    using assms n by (auto simp: on_screen_def next_cell_def cursor_at_def split: if_splits)
  have "advance_cursor s = snd (set_cursor (int r) (int k) s)"
  proof -
    obtain a b where "uint (cursor_row s) = int a" "uint (cursor_col s) = int b" "unat (cursor_row s) = a" "unat (cursor_col s) = b" by (metis uint_nat)
    then show ?thesis using n by (auto simp: advance_cursor_def next_cell_def cursor_at_def MAX_COLS_def add.commute split: if_splits)
  qed
  with set_cursor_moves [OF assms(1) rk(1,2)] rk(3) n show ?thesis by fastforce
qed

text \<open>C16: Printing a character anywhere but in the last cell of the screen moves the cursor to the next cell and marks it there; the cell shows
  the glyph of the character without its last row, which the cursor that moves on erases, so an underscore shows nothing;
  and nothing else on the screen changes.\<close>

theorem console_put_char:
  assumes "on_screen s" and "cursor_at s \<noteq> (95, 127)" and "cursor_at s = (r, k)" and "next_cell (r, k) = (r', k')"
  shows "cursor_at (put_char c s) = (r', k') \<and>
    (\<forall>i < 8. \<forall>j < 8. cell (put_char c s) r k i j = (if i < 7 \<and> bit (font8x8_basic ! unat c ! i) j then TEXT_COLOR else BG_COLOR)) \<and>
    (\<forall>i < 8. \<forall>j < 8. cell (put_char 95 s) r k i j = BG_COLOR) \<and>
    (\<forall>j < 8. cell (put_char c s) r' k' 7 j = TEXT_COLOR) \<and>
    (\<forall>x. \<forall>y < 128. \<forall>i < 8. \<forall>j < 8. (x, y) \<noteq> (r, k) \<longrightarrow> (x, y, i) \<noteq> (r', k', 7) \<longrightarrow> cell (put_char c s) x y i j = cell s x y i j)"
proof -
  have rk: "r < 96" "k < 128" "unat (cursor_row s) = r" "unat (cursor_col s) = k" "r' < 96" "k' < 128" "(r', k') \<noteq> (r, k)"
    using assms by (auto simp: on_screen_def cursor_at_def next_cell_def split: if_splits)
  have main: "cursor_at (put_char c s) = (r', k') \<and>
    (\<forall>i < 8. \<forall>j < 8. cell (put_char c s) r k i j = (if i < 7 \<and> bit (font8x8_basic ! unat c ! i) j then TEXT_COLOR else BG_COLOR)) \<and>
    (\<forall>j < 8. cell (put_char c s) r' k' 7 j = TEXT_COLOR) \<and>
    (\<forall>x. \<forall>y < 128. \<forall>i < 8. \<forall>j < 8. (x, y) \<noteq> (r, k) \<longrightarrow> (x, y, i) \<noteq> (r', k', 7) \<longrightarrow> cell (put_char c s) x y i j = cell s x y i j)" for c
  proof -
    have e: "ucast (cursor_row s) = (word_of_nat r :: u32)" "ucast (cursor_col s) = (word_of_nat k :: u32)" using rk(3,4) by (simp_all flip: rk(3,4))
    obtain m where m: "write_char (ucast (cursor_row s)) (ucast (cursor_col s)) c TEXT_COLOR BG_COLOR s = (0, s\<lparr>fb := m\<rparr>)"
      "\<forall>i < 8. \<forall>j < 8. m (place r k i j) = (if bit (font8x8_basic ! unat c ! i) j then TEXT_COLOR else BG_COLOR)"
      "\<forall>p. (\<forall>i < 8. \<forall>j < 8. p \<noteq> place r k i j) \<longrightarrow> m p = fb s p" using write_char_draws [OF rk(1,2) e, of c TEXT_COLOR BG_COLOR s] by blast
    let ?s = "s\<lparr>fb := m\<rparr>"
    have "on_screen ?s" "cursor_at ?s = (r, k)" "cursor_at ?s \<noteq> (95, 127)" using assms(1-3) by (simp_all add: on_screen_def cursor_at_def)
    from advance_cursor_moves [OF this(1,3)] this(2) assms(4) obtain m' where
      m': "advance_cursor ?s = ?s\<lparr>fb := m', cursor_row := word_of_nat r', cursor_col := word_of_nat k'\<rparr>" "\<forall>j < 8. m' (place r' k' 7 j) = TEXT_COLOR"
        "\<forall>j < 8. m' (place r k 7 j) = BG_COLOR" "\<forall>p. (\<forall>j < 8. p \<noteq> place r' k' 7 j \<and> p \<noteq> place r k 7 j) \<longrightarrow> m' p = m p"
      using rk(3,4) by auto
    have p: "put_char c s = s\<lparr>fb := m', cursor_row := word_of_nat r', cursor_col := word_of_nat k'\<rparr>" using m(1) m'(1) by (simp add: put_char_def)
    have "cursor_at (put_char c s) = (r', k')" using rk(5,6) by (simp add: p cursor_at_def unat_of_nat)
    moreover have "m' (place r k i j) = m (place r k i j)" if "i < 7" "j < 8" for i j
    proof -
      have "\<forall>j' < 8. place r k i j \<noteq> place r' k' 7 j' \<and> place r k i j \<noteq> place r k 7 j'" using that rk by (simp add: place_inj)
      then show ?thesis using m'(4) by blast
    qed
    then have "cell (put_char c s) r k i j = (if i < 7 \<and> bit (font8x8_basic ! unat c ! i) j then TEXT_COLOR else BG_COLOR)" if "i < 8" "j < 8" for i j
      using m(2) m'(3) that by (cases "i = 7") (auto simp: p cell_def)
    moreover have "cell (put_char c s) x y i j = cell s x y i j" if "y < 128" "i < 8" "j < 8" "(x, y) \<noteq> (r, k)" "(x, y, i) \<noteq> (r', k', 7)" for x y i j
    proof -
      have "\<forall>j' < 8. place x y i j \<noteq> place r' k' 7 j' \<and> place x y i j \<noteq> place r k 7 j'" "\<forall>i' < 8. \<forall>j' < 8. place x y i j \<noteq> place r k i' j'"
        using that rk by (auto simp: place_inj)
      then show ?thesis using m(3) m'(4) by (simp add: p cell_def)
    qed
    ultimately show ?thesis using m'(2) by (simp add: p cell_def)
  qed
  have "font8x8_basic ! unat (95 :: u8) ! i = 0" if "i < 7" for i
  proof -
    have "i = 0 \<or> i = 1 \<or> i = 2 \<or> i = 3 \<or> i = 4 \<or> i = 5 \<or> i = 6" using that by arith
    then show ?thesis by (elim disjE) (simp_all add: font_underscore)
  qed
  then have u: "cell (put_char 95 s) r k i j = BG_COLOR" if "i < 8" "j < 8" for i j
    using main [of 95, THEN conjunct2, THEN conjunct1, rule_format, of i j] that by (cases "i < 7") simp_all
  show ?thesis using main [of c] u by (elim conjE, intro conjI) (assumption | simp)+
qed

theorem console_put_char_witness:
  "cursor_at (put_char 65 (screen_start (\<lambda>_. 7))) = (1, 1) \<and> cell (put_char 65 (screen_start (\<lambda>_. 7))) 1 0 0 2 = TEXT_COLOR \<and>
    cell (put_char 65 (screen_start (\<lambda>_. 7))) 1 0 0 1 = BG_COLOR \<and> cell (put_char 65 (screen_start (\<lambda>_. 7))) 2 0 0 0 = 7"
proof -
  let ?s = "screen_start (\<lambda>_. 7)"
  have h: "on_screen ?s" "cursor_at ?s \<noteq> (95, 127)" "cursor_at ?s = (1, 0)" "next_cell (1, 0) = (1, 1)"
    by (simp_all add: screen_start_def on_screen_def cursor_at_def next_cell_def)
  have f: "font8x8_basic ! 65 ! 0 = 12"
    by (simp add: font8x8_basic_def nth_append font_00_def font_20_def font_40_def font_60_def font_80_def font_a0_def font_c0_def font_e0_def)
  have "bit (12 :: u8) 2" "\<not> bit (12 :: u8) 1" by (simp_all add: bit_iff_odd)
  note p = console_put_char [OF h, of 65]
  show ?thesis
    using p [THEN conjunct1] p [THEN conjunct2, THEN conjunct1, rule_format, of 0 2] p [THEN conjunct2, THEN conjunct1, rule_format, of 0 1]
      p [THEN conjunct2, THEN conjunct2, THEN conjunct2, THEN conjunct2, rule_format, of 0 0 0 2] f \<open>bit 12 2\<close> \<open>\<not> bit 12 1\<close>
    by (simp add: screen_start_def cell_def)
qed

section \<open>Control characters\<close>

lemma pixel_cursor [simp]:
  "cursor_row (snd (pixel x y c s)) = cursor_row s" "cursor_col (snd (pixel x y c s)) = cursor_col s"
  by (simp_all add: pixel_def)

lemma glyph_loop_cursor:
  "cursor_row (snd (glyph_loop r k g c b ps s)) = cursor_row s \<and> cursor_col (snd (glyph_loop r k g c b ps s)) = cursor_col s"
proof (induction ps arbitrary: s)
  case (Cons q ps)
  then show ?case by (cases q) (simp add: split_def Let_def)
qed simp

lemma fold_keeps: "(\<And>x s. f (g x s) = f s) \<Longrightarrow> f (fold g xs s) = f s"
  by (induction xs arbitrary: s) simp_all

lemma draw_line_cursor [simp]:
  "cursor_row (draw_line r k c s) = cursor_row s" "cursor_col (draw_line r k c s) = cursor_col s"
  by (simp_all add: draw_line_def fold_keeps)

lemma scroll_to_row: "0 \<le> row \<Longrightarrow> fst (scroll_to row s) = min row 95"
proof (induction row s rule: scroll_to.induct)
  case (1 row s)
  then show ?case by (subst scroll_to.simps) (auto simp: MAX_ROWS_def)
qed

lemma set_cursor_at:
  assumes "k < 128"
  shows "cursor_at (snd (set_cursor (int r) (int k) s)) = (min r 95, k)"
proof -
  have "fst (scroll_to (int r) (undraw_cursor s)) = int (min r 95)" using scroll_to_row [of "int r"] by simp
  then show ?thesis using assms by (simp add: set_cursor_def split_def cursor_at_def draw_cursor_def unat_of_nat)
qed

lemma on_screen_at: "on_screen s \<longleftrightarrow> fst (cursor_at s) < 96 \<and> snd (cursor_at s) < 128"
  by (simp add: on_screen_def cursor_at_def)

lemma cursor_cases:
  obtains r k where "cursor_at s = (r, k)" "uint (cursor_row s) = int r" "uint (cursor_col s) = int k"
  by (metis cursor_at_def uint_nat)

text \<open>Where a character leaves the cursor, on a screen of 96 lines of 128 cells.\<close>

definition cursor_step :: "u8 \<Rightarrow> nat \<times> nat \<Rightarrow> nat \<times> nat" where
  "cursor_step c p =
    (let (r, k) = p;
         (r', k') = (if 32 \<le> c \<and> c < 127 then next_cell (r, k)
           else if c = 8 then (r, k - 1)
           else if c = 9 then (if (k + 7) div 8 * 8 < 128 then (r, (k + 7) div 8 * 8) else (r + 1, 0))
           else if c = 10 then (r + 1, 0)
           else if c = 12 then (1, 0)
           else if c = 13 then (r, 0)
           else (r, k))
     in (min r' 95, k'))"

lemma tab_distance: "(- int k) mod 8 + int k = int ((k + 7) div 8 * 8)"
  by presburger

lemma set_cursor_int:
  assumes "row = int r" "col = int k" "k < 128"
  shows "cursor_at (snd (set_cursor row col s)) = (min r 95, k)"
  using set_cursor_at [OF assms(3)] assms(1,2) by simp

lemma handle_char_cursor:
  assumes "on_screen s"
  shows "cursor_at (handle_char c s) = cursor_step c (cursor_at s)"
proof -
  obtain r k where e: "cursor_at s = (r, k)" "uint (cursor_row s) = int r" "uint (cursor_col s) = int k" by (rule cursor_cases)
  have b: "r < 96" "k < 128" using assms e(1) by (auto simp: on_screen_def cursor_at_def)
  let ?w = "snd (write_char (ucast (cursor_row s)) (ucast (cursor_col s)) c TEXT_COLOR BG_COLOR s)"
  have "uint (cursor_row ?w) = int r" "uint (cursor_col ?w) = int k" using e glyph_loop_cursor by (simp_all add: write_char_def)
  then have "cursor_at (put_char c s) = (min (fst (next_cell (r, k))) 95, snd (next_cell (r, k)))"
    using set_cursor_int [of "int r" r "int k + 1" "k + 1" ?w] set_cursor_int [of "int r + 1" "r + 1" 0 0 ?w]
    by (auto simp: put_char_def advance_cursor_def next_cell_def MAX_COLS_def)
  moreover have "cursor_at (backspace s) = (min r 95, k - 1)"
  proof (cases "0 < k")
    case True
    then show ?thesis using b e set_cursor_int [of "int r" r "int k - 1" "k - 1" s] by (simp add: backspace_def word_less_def)
  next
    case False
    then show ?thesis using b e by (simp add: backspace_def word_less_def)
  qed
  moreover have "cursor_at (tab s) = (if (k + 7) div 8 * 8 < 128 then (min r 95, (k + 7) div 8 * 8) else (min (r + 1) 95, 0))"
    using b e tab_distance [of k] set_cursor_int [of "int r + 1" "r + 1" 0 0 s] set_cursor_int [of "int r" r _ "(k + 7) div 8 * 8" s]
    by (auto simp: tab_def MAX_COLS_def Let_def add.commute)
  moreover have "cursor_at (newline s) = (min (r + 1) 95, 0)" using e set_cursor_int [of "int r + 1" "r + 1" 0 0 s] by (simp add: newline_def)
  moreover have "cursor_at (carriage_return s) = (min r 95, 0)" using e set_cursor_int [of "int r" r 0 0 s] by (simp add: carriage_return_def)
  moreover have "cursor_at (clear_screen s) = (1, 0)" unfolding clear_screen_def by (subst set_cursor_int [of 1 1 0 0]) simp_all
  ultimately show ?thesis using b e(1) by (auto simp: handle_char_def cursor_step_def split_def Let_def)
qed

lemma cursor_step_bounds: "fst p < 96 \<Longrightarrow> snd p < 128 \<Longrightarrow> fst (cursor_step c p) < 96 \<and> snd (cursor_step c p) < 128"
  by (cases p) (auto simp: cursor_step_def next_cell_def Let_def)

text \<open>C26: Whatever characters are written, the cursor stays on the screen, and it is where each character in turn
  leaves it: behind a printed character, at the next tab stop, in the next line, or in the last line when that is full.\<close>

theorem console_cursor_stays:
  assumes "on_screen s"
  shows "on_screen (fold handle_char cs s) \<and> cursor_at (fold handle_char cs s) = fold cursor_step cs (cursor_at s)"
  using assms
proof (induction cs arbitrary: s)
  case (Cons c cs)
  have "on_screen (handle_char c s)"
    using cursor_step_bounds [of "cursor_at s" c] Cons.prems by (simp add: on_screen_at handle_char_cursor)
  from Cons.IH [OF this] show ?case by (simp add: handle_char_cursor [OF Cons.prems])
qed simp

theorem console_cursor_stays_witness:
  "cursor_at (fold handle_char [104, 105, 9, 9, 104, 10, 8, 13, 200, 33] (screen_start (\<lambda>_. 0))) = (2, 1)"
proof -
  have "on_screen (screen_start (\<lambda>_. 0))" by (simp add: on_screen_def screen_start_def)
  from console_cursor_stays [OF this, of "[104, 105, 9, 9, 104, 10, 8, 13, 200, 33]"] show ?thesis
    by (simp add: cursor_step_def next_cell_def cursor_at_def screen_start_def)
qed

section \<open>Scrolling\<close>

text \<open>What scrolling makes of a cell.\<close>

lemma scroll_cell:
  assumes "k < 128" "i < 8" "j < 8"
  shows "r < 95 \<or> r = 95 \<and> i < 7 \<Longrightarrow> cell (scroll s) r k i j = cell s (r + 1) k i j"
    and "r = 95 \<Longrightarrow> i = 7 \<Longrightarrow> cell (scroll s) r k i j = cell s r k i j"
  using assms by (auto simp: cell_def scroll_def Let_def place_def DISPLAY_WIDTH_def DISPLAY_HEIGHT_def algebra_simps)

lemma scroll_overrun: "x < 1024 \<Longrightarrow> fb (scroll s) (767 * 8192 + x) = BG_COLOR"
  by (simp add: scroll_def Let_def DISPLAY_WIDTH_def DISPLAY_HEIGHT_def)

text \<open>C27: A new line on the last line moves every line up by one, and the line the cursor was on loses the mark of the cursor;
  but the last line is not cleared: its first seven pixel rows show the memory behind the screen, its eighth pixel row stays
  apart from the cursor, and instead 1024 pixels far behind the screen are overwritten.\<close>

theorem console_scroll_overruns:
  assumes "on_screen s" and "cursor_at s = (95, q)"
  shows "cursor_at (newline s) = (95, 0) \<and>
    (\<forall>r < 95. \<forall>k < 128. \<forall>i < 8. \<forall>j < 8.
      cell (newline s) r k i j = (if (r, k, i) = (94, q, 7) then BG_COLOR else cell s (r + 1) k i j)) \<and>
    (\<forall>k < 128. \<forall>i < 7. \<forall>j < 8. cell (newline s) 95 k i j = fb s (1024 * 768 + 1024 * i + 8 * k + j)) \<and>
    (\<forall>k < 128. \<forall>j < 8. cell (newline s) 95 k 7 j = (if k = 0 then TEXT_COLOR else if k = q then BG_COLOR else cell s 95 k 7 j)) \<and>
    (\<forall>x < 1024. fb (newline s) (1024 * 8 * 767 + x) = BG_COLOR)"
proof -
  have c: "unat (cursor_row s) = 95" "unat (cursor_col s) = q" "q < 128" using assms by (auto simp: on_screen_def cursor_at_def)
  obtain m where m: "undraw_cursor s = s\<lparr>fb := m\<rparr>" "\<forall>j < 8. m (place 95 q 7 j) = BG_COLOR" "\<forall>p. (\<forall>j < 8. p \<noteq> place 95 q 7 j) \<longrightarrow> m p = fb s p"
    using cursor_line [OF assms(1), of BG_COLOR] c unfolding undraw_cursor_def by auto
  let ?t = "scroll (s\<lparr>fb := m\<rparr>)\<lparr>cursor_row := 95, cursor_col := 0\<rparr>"
  have "on_screen ?t" by (simp add: on_screen_def)
  from cursor_line [OF this, of TEXT_COLOR] obtain m' where m': "draw_cursor ?t = ?t\<lparr>fb := m'\<rparr>" "\<forall>j < 8. m' (place 95 0 7 j) = TEXT_COLOR"
    "\<forall>p. (\<forall>j < 8. p \<noteq> place 95 0 7 j) \<longrightarrow> m' p = fb ?t p" unfolding draw_cursor_def by auto
  have u: "uint (cursor_row s) = 95" using c(1) by (metis uint_nat of_nat_numeral)
  have s: "scroll_to 96 x = (95, scroll x)" for x by (subst scroll_to.simps, subst scroll_to.simps) (simp add: MAX_ROWS_def)
  have n: "newline s = ?t\<lparr>fb := m'\<rparr>" using m(1) m'(1) by (simp add: newline_def set_cursor_def u s)
  have keep: "cell (s\<lparr>fb := m\<rparr>) r k i j = (if (r, k, i) = (95, q, 7) then BG_COLOR else cell s r k i j)" if "k < 128" "i < 8" "j < 8" for r k i j
  proof (cases "(r, k, i) = (95, q, 7)")
    case False
    then have "\<forall>j' < 8. place r k i j \<noteq> place 95 q 7 j'" using that c(3) by (auto simp: place_inj)
    then show ?thesis using m(3) False by (auto simp: cell_def)
  qed (use that m(2) in \<open>auto simp: cell_def\<close>)
  have draw: "cell (newline s) r k i j = (if (r, k, i) = (95, 0, 7) then TEXT_COLOR else cell (scroll (s\<lparr>fb := m\<rparr>)) r k i j)" if "k < 128" "i < 8" "j < 8" for r k i j
  proof (cases "(r, k, i) = (95, 0, 7)")
    case False
    then have "\<forall>j' < 8. place r k i j \<noteq> place 95 0 7 j'" using that by (auto simp: place_inj)
    then show ?thesis using m'(3) False by (auto simp: cell_def n)
  qed (use that m'(2) in \<open>auto simp: cell_def n\<close>)
  have "fb (newline s) (1024 * 8 * 767 + x) = BG_COLOR" if "x < 1024" for x
  proof -
    have "\<forall>j < 8. 1024 * 8 * 767 + x \<noteq> place 95 0 7 j" by (simp add: place_def)
    then show ?thesis using m'(3) scroll_overrun [OF that] by (simp add: n)
  qed
  moreover have "cursor_at (newline s) = (95, 0)" by (simp add: n cursor_at_def)
  moreover have "fb s (1024 * 768 + 1024 * i + 8 * k + j) = cell s 96 k i j" for i k j by (simp add: cell_def place_def algebra_simps)
  ultimately show ?thesis by (simp add: draw keep scroll_cell)
qed

theorem console_scroll_overruns_witness:
  "cell (newline (\<lparr>fb = (\<lambda>i. if i < 1024 * 768 then 5 else 9), cursor_row = 95, cursor_col = 3\<rparr>)) 95 4 0 0 = 9 \<and>
    cell (newline (\<lparr>fb = (\<lambda>i. if i < 1024 * 768 then 5 else 9), cursor_row = 95, cursor_col = 3\<rparr>)) 94 4 0 0 = 5"
proof -
  let ?s = "\<lparr>fb = (\<lambda>i. if i < 1024 * 768 then 5 else 9), cursor_row = 95, cursor_col = 3\<rparr>"
  have h: "on_screen ?s" "cursor_at ?s = (95, 3)" by (simp_all add: on_screen_def cursor_at_def)
  note p = console_scroll_overruns [OF h]
  show ?thesis
    using p [THEN conjunct2, THEN conjunct1, rule_format, of 94 4 0 0] p [THEN conjunct2, THEN conjunct2, THEN conjunct1, rule_format, of 4 0 0]
    by (simp add: cell_def place_def)
qed

end
