(* ===== verification/Spec2Isabelle.thy ===== *)
theory Spec2Isabelle
  imports Prelude Clist Bitmap Stdfct Strings Print Tinyalloc Pages Vpages
    Bcache Balloc Inode Files Sched Sync Mmap Elf Tasks Syscalls
    Queues Locks Dirs Mount Mkfs
    Mmio Pci Uart Virtio Font Console
begin

text \<open>
  Verification of rv-mini-os, a preemptive kernel in C for one 64-bit RISC-V hart, with its C library.  All
  paths below are relative to \<^verbatim>\<open>src/src\<close>.

  \<^bold>\<open>The program.\<close>  The C library (\<^verbatim>\<open>lib/\<close>) gives circular lists, bitmaps, arithmetic without a hardware
  multiplier, strings, formatted output and a heap.  On it stand the memory management (\<^verbatim>\<open>kernel/core/memory\<close>: frames
  with reference counters, Sv39 page tables with copy on write, address spaces, the loader of executables), the file system
  (\<^verbatim>\<open>kernel/core/fs\<close>: block cache, block allocator, inodes, directories and paths, open files), the
  scheduler with wait queues, semaphores and mutexes (\<^verbatim>\<open>kernel/core/sched\<close>, \<^verbatim>\<open>kernel/core/sync\<close>, \<^verbatim>\<open>kernel/core/time\<close>),
  the tasks (\<^verbatim>\<open>kernel/core/task\<close>), and the system calls and traps (\<^verbatim>\<open>kernel/core/syscall\<close>, \<^verbatim>\<open>arch/trap.c\<close>).
  Below them are the drivers (\<^verbatim>\<open>kernel/drivers\<close>, \<^verbatim>\<open>arch/plic.c\<close>): the interrupt controller, the PCI bus, the serial line, the
  block device and the console.  \<^verbatim>\<open>tools/mkfs.c\<close> writes the disk image the kernel mounts.
  A trap enters \<^verbatim>\<open>usertrap\<close>, which dispatches system calls, page faults and interrupts; a system call works on the
  active task, its files and its address space, and goes to sleep through the scheduler; the timer interrupt posts a semaphore whose
  waiter, the tick daemon, wakes sleeping tasks and rotates the ready queue.

  \<^bold>\<open>Conventions.\<close>  C integers of \<open>w\<close> bits are \<open>w word\<close>; an \<^verbatim>\<open>int\<close> result that may be a negative error number is an \<open>int\<close>.
  Code that can stop or sleep returns an \<open>outcome\<close> (theory \<open>Prelude\<close>): \<open>Ret\<close> a value, \<open>Panic\<close>, \<open>Wait\<close> (the caller sleeps on a lock another
  task keeps, or a loop does not end), \<open>Undef\<close> (C gives no meaning).  Code that can be switched out is a resumption
  \<open>proc\<close> (theory \<open>Sched\<close>): \<open>Done\<close> with a value, \<open>Switch\<close> with the code that is left when the task is resumed, \<open>Stop\<close>, \<open>Spin\<close>, \<open>Bad\<close>.
  The state grows by record extension with the layers: \<open>bsys\<close> (disk and block cache), \<open>msys\<close> (superblock), \<open>isys\<close> (inode cache, physical
  memory), \<open>fsys\<close> (open files, devices), \<open>ksys\<close> (tasks, queues, locks, heap).  The drivers work on \<open>dsys\<close>, a kernel and the devices, extended
  by \<open>usys\<close> (receive ring), \<open>vsys\<close> (block device) and \<open>csys\<close> (console); the devices are a parameter, a \<open>bus\<close> of register reads and writes on a state
  of any type.  Loops that follow pointers or terminators are
  \<open>partial_function (option)\<close>, where \<open>None\<close> is a loop that does not end; the theorems about them prove the result is \<open>Some\<close>.  Loops with
  a bound in the code are structural or have a termination proof.  The loops over queues whose callbacks can switch tasks take a
  bound \<open>n\<close> on the rounds; the theorems hold for every \<open>n\<close> above the length of the queue.

  \<^bold>\<open>Theories.\<close>

  \<^item> \<open>Clist\<close> (\<^verbatim>\<open>lib/clist.c\<close>): the operations on a heap of nodes.  \<open>clists\<close> says which lists a heap holds; every operation is the
    list operation on exactly one of them (\<open>clist_queue_refines\<close>), sorted insertion and draining return, also when
    the callback that drains a list moves the nodes to others.
  \<^item> \<open>Bitmap\<close>, \<open>Stdfct\<close>, \<open>Strings\<close>, \<open>Print\<close>, \<open>Tinyalloc\<close> (\<^verbatim>\<open>lib/\<close>): the search for a clear bit; multiplication and division against
    the word operations; the string functions on a memory of bytes, with termination on terminated strings; the format interpreter, which
    prints a list of directives as their meaning \<open>render\<close> says, buffered output and number parsing, with the round trip of numbers; the heap, whose blocks tile the area in every reachable state.
  \<^item> \<open>Pages\<close>, \<open>Vpages\<close> (\<^verbatim>\<open>memory/pages.c\<close>, \<^verbatim>\<open>memory/vpages.c\<close>): frames and their counters, with an inductive reachability
    \<open>pg_reach\<close>; page tables as words in the physical memory, with the tree they form and what mapping, unmapping and the copy on write do to the translation.
  \<^item> \<open>Bcache\<close>, \<open>Balloc\<close>, \<open>Inode\<close>, \<open>Files\<close>, \<open>Dirs\<close> (\<^verbatim>\<open>fs/\<close>): \<open>bstate\<close> relates the cache to a map from block numbers to contents and
    counts the slots that can be reused; allocation, reading and writing of files and directories are stated over that map.
  \<^item> \<open>Sched\<close>, \<open>Sync\<close>, \<open>Queues\<close>, \<open>Locks\<close> (\<^verbatim>\<open>sched/scheduler.c\<close>, \<^verbatim>\<open>sync/\<close>, \<^verbatim>\<open>time/time.c\<close>): the first two hold the model, the
    others its proofs.  \<open>sched_ok\<close> relates the node heap and the task states to the queues of an abstract scheduler (\<open>world\<close>); \<open>acts\<close> says
    that code, whenever it is resumed, takes one abstract step, which is shown of eleven calls of the scheduler (\<open>sched_call\<close>; not of the two exits).  The locale \<open>fifo_lock\<close> is the contract of a lock with first-in first-out
    hand-over, interpreted on the mutexes; \<open>mstep\<close> interleaves tasks that lock and unlock.
  \<^item> \<open>Mmap\<close>, \<open>Elf\<close>, \<open>Tasks\<close>, \<open>Syscalls\<close> (\<^verbatim>\<open>memory/mmap.c\<close>, \<^verbatim>\<open>memory/elf.c\<close>, \<^verbatim>\<open>task/task.c\<close>, \<^verbatim>\<open>syscall/\<close>, \<^verbatim>\<open>arch/trap.c\<close>): address
    spaces, trap frames as words in memory, the loader, the life of a task, every system call with the dispatch, and the traps.
  \<^item> \<open>Mount\<close>, \<open>Mkfs\<close> (\<^verbatim>\<open>fs/fs.c\<close>, \<^verbatim>\<open>tools/mkfs.c\<close>): what mounting, opening and reading do on a disk with given contents, and the tool that writes
    the image; a file the tool put on the disk is opened by its name and read back (\<open>mkfs_files_open\<close>).
  \<^item> \<open>Mmio\<close>, \<open>Pci\<close>, \<open>Uart\<close>, \<open>Virtio\<close> (\<^verbatim>\<open>include/lib/mmio.h\<close>, \<^verbatim>\<open>arch/plic.c\<close>, \<^verbatim>\<open>drivers/pci\<close>, \<^verbatim>\<open>drivers/uart\<close>, \<^verbatim>\<open>drivers/blk\<close>): register accesses
    and the interrupt controller; address ranges and capabilities of a device, under the named laws \<open>bar_device\<close> and \<open>config_bytes\<close> of its
    configuration space, each met by a concrete device; the receive ring, whose loads and stores \<open>rstep\<close> interleaves; the descriptors and rings of
    the block device, where \<open>vstep\<close> interleaves requests, the device and the interrupt handler.  The loops that run while the device has more to give
    take a bound on their rounds.
  \<^item> \<open>Font\<close>, \<open>Console\<close> (\<^verbatim>\<open>lib/font.c\<close>, \<^verbatim>\<open>drivers/console\<close>): the glyphs; drawing, the cursor, scrolling and the console file.  What a
    printed character, any sequence of characters and a scroll do to the cells of the screen and to the memory behind it.

  \<^bold>\<open>Not modelled.\<close>  The assembly (\<^verbatim>\<open>arch/*.S\<close>: entry, trampoline, context switch) and the control registers it sets up, among them
  \<^verbatim>\<open>sie\<close> in \<^verbatim>\<open>plic_init\<close>; the devices behind the bus.  In the file system a disk request is a transfer between the disk and a buffer that can fail,
  and the routines of a device file are parameters; the drivers are modelled beside it and not joined to it.  The text of
  \<^verbatim>\<open>arch/panic.c\<close> (a panic is an outcome); the boot sequence \<^verbatim>\<open>kernel/init/init.c\<close>, which calls the initialisations in turn; the
  user programs and their tests, which run on the system calls.  Flushing the translation cache and memory barriers have no effect in the model.
  Memory behind a pointer a C function gets is the memory of the model where the pointer is an address of the kernel or
  of a page, and a list of bytes where it is a local buffer; bytes a local buffer holds before it is written are the parameter \<open>junk\<close> of the state.
\<close>

end
